(* ===== verification/Prelude.thy ===== *)
theory Prelude
  imports Main "HOL-Library.Word" "HOL-Library.Monad_Syntax"
begin

unbundle bit_operations_syntax

text \<open>
  Shared vocabulary of the ACO-OS development: the machine integer types of
  \<^verbatim>\<open>include/aco/types.h\<close>, the error numbers of \<^verbatim>\<open>include/aco/errno.h\<close> that the
  modelled code returns, the meaning of the kernel's \<^verbatim>\<open>ASSERT\<close>, and generic lemmas on
  lists, options and words that several components use.

  A C function that changes the state \<open>s\<close> is a HOL function into \<open>('r \<times> 's) option\<close> (or
  \<open>'s option\<close> when it returns \<^verbatim>\<open>void\<close>). \<open>None\<close> means that the hart never returns normally:
  a failed \<^verbatim>\<open>ASSERT\<close> (the RISC-V port then spins on \<^verbatim>\<open>wfi\<close> for ever), a dereference of
  a pointer that does not point into the modelled objects, or a spin lock taken twice by the
  same hart. An error number that the C code returns is an ordinary value.
\<close>

subsection \<open>Proof collections\<close>

named_theorems word_layout \<open>word expressions of the address macros as arithmetic on nat\<close>
named_theorems frame_simps \<open>which parts of the state an operation leaves alone\<close>
named_theorems monad_simps \<open>unfolding of the option monad on successful runs\<close>

subsection \<open>Machine types\<close>

type_synonym u8 = "8 word"
type_synonym u16 = "16 word"
type_synonym u32 = "32 word"
type_synonym u64 = "64 word"
type_synonym viraddr = u64
type_synonym phyaddr = u64

subsection \<open>Error numbers\<close>

definition EPERM :: int where "EPERM = 1"
definition ENOMEM :: int where "ENOMEM = 12"
definition EFAULT :: int where "EFAULT = 14"
definition EEXIST :: int where "EEXIST = 17"
definition EINVAL :: int where "EINVAL = 22"
definition ENOBUFS :: int where "ENOBUFS = 105"

lemmas errno_defs = EPERM_def ENOMEM_def EFAULT_def EEXIST_def EINVAL_def ENOBUFS_def

subsection \<open>Assertions\<close>

definition ASSERT :: "bool \<Rightarrow> unit option" where
  "ASSERT condition = (if condition then Some () else None)"

lemma ASSERT_True [simp]: "ASSERT True = Some ()"
  by (simp add: ASSERT_def)

lemma ASSERT_eq_Some [simp]: "ASSERT b = Some u \<longleftrightarrow> b"
  by (simp add: ASSERT_def)

lemma ASSERT_bind_Some [monad_simps]:
  "(ASSERT b \<bind> f) = Some x \<longleftrightarrow> b \<and> f () = Some x"
  by (simp add: ASSERT_def)

lemma ASSERT_bind [simp]: "b \<Longrightarrow> (ASSERT b \<bind> f) = f ()"
  by (simp add: ASSERT_def)

lemma bind_Some_iff [monad_simps]:
  "(m \<bind> f) = Some y \<longleftrightarrow> (\<exists>x. m = Some x \<and> f x = Some y)"
  by (cases m) auto

lemma if_None_Some_iff [monad_simps]: "(if b then Some x else None) = Some y \<longleftrightarrow> b \<and> x = y"
  by auto

subsection \<open>Array access\<close>

text \<open>Reading and writing an element of a C array; outside the array there is no value.\<close>

definition array_get :: "'a list \<Rightarrow> nat \<Rightarrow> 'a option" where
  "array_get xs i = (if i < length xs then Some (xs ! i) else None)"

definition array_upd :: "'a list \<Rightarrow> nat \<Rightarrow> ('a \<Rightarrow> 'a) \<Rightarrow> 'a list option" where
  "array_upd xs i f = (if i < length xs then Some (xs[i := f (xs ! i)]) else None)"

lemma array_get_in [simp]: "i < length xs \<Longrightarrow> array_get xs i = Some (xs ! i)"
  by (simp add: array_get_def)

lemma array_upd_in [simp]: "i < length xs \<Longrightarrow> array_upd xs i f = Some (xs[i := f (xs ! i)])"
  by (simp add: array_upd_def)

lemma array_get_Some [monad_simps]: "array_get xs i = Some x \<longleftrightarrow> i < length xs \<and> x = xs ! i"
  by (auto simp: array_get_def)

subsection \<open>Lists and powers of two\<close>

lemma length_remove1_int: "x \<in> set xs \<Longrightarrow> int (length (remove1 x xs)) = int (length xs) - 1"
  by (metis Suc_pred' length_pos_if_in_set length_remove1 One_nat_def add_diff_cancel_left' of_nat_Suc)

lemma two_power_pos_nat [simp]: "0 < (2::nat) ^ k"
  by simp

lemma pow2_mono_nat: "i \<le> j \<Longrightarrow> (2::nat) ^ i \<le> 2 ^ j"
  by (simp add: power_increasing)

lemma bit_pow2_diff:
  assumes "num < 2 ^ Suc i"
  shows "bit num i \<longleftrightarrow> 2 ^ i \<le> (num::nat)"
proof -
  have "num div 2 ^ i < 2" using assms by (simp add: less_mult_imp_div_less)
  then have "odd (num div 2 ^ i) \<longleftrightarrow> num div 2 ^ i = 1" by (cases "num div 2 ^ i") auto
  also have "\<dots> \<longleftrightarrow> 2 ^ i \<le> num"
    using \<open>num div 2 ^ i < 2\<close> div_greater_zero_iff [of num "2 ^ i"] by auto
  finally show ?thesis by (simp add: bit_iff_odd)
qed

subsection \<open>Reading a word as a C int\<close>

lemma sint_u32_of_nat: "n < 2 ^ 31 \<Longrightarrow> sint (word_of_nat n :: u32) = int n"
  by (simp add: signed_of_nat signed_take_bit_int_eq_self)

lemma sint_u32_ucast: "unat (x::u64) < 2 ^ 31 \<Longrightarrow> sint (ucast x :: u32) = int (unat x)"
  using sint_u32_of_nat [of "unat x"] by simp

lemma unat_u32_less: "unat (n :: u32) < 2 ^ 32"
  using unsigned_less [of n] by simp

lemma unat_u64_less: "unat (n :: u64) < 2 ^ 64"
  using unsigned_less [of n] by simp

lemma unat_u64_of_nat: "n < 2 ^ 64 \<Longrightarrow> unat (word_of_nat n :: u64) = n"
  by (simp add: unsigned_of_nat take_bit_nat_eq_self)

lemma uint_u64_of_int: "0 \<le> x \<Longrightarrow> x < 2 ^ 64 \<Longrightarrow> uint (word_of_int x :: u64) = x"
  by (simp add: unsigned_of_int take_bit_int_eq_self)

lemma sint_u32_of_u64:
  assumes "uint (x::u64) < 2 ^ 31"
  shows "sint (ucast x :: u32) = uint x"
proof -
  have "int (unat x) < 2 ^ 31" using assms by simp
  then have "unat x < 2 ^ 31" by (metis of_nat_less_numeral_power_cancel_iff of_nat_numeral)
  then show ?thesis by (simp add: sint_u32_ucast)
qed

lemma uint_u64_plus_int:
  assumes "0 \<le> k" "uint (x::u64) + k < 2 ^ 64"
  shows "uint (x + word_of_int k) = uint x + k"
proof -
  have "0 \<le> uint x" by simp
  then have k: "uint (word_of_int k :: u64) = k" using assms by (intro uint_u64_of_int) linarith+
  have "uint (x + word_of_int k) = (uint x + uint (word_of_int k :: u64)) mod 2 ^ 64"
    by (simp add: uint_word_ariths del: of_int_mult of_int_add)
  then show ?thesis using assms \<open>0 \<le> uint x\<close> unfolding k by (simp add: mod_pos_pos_trivial)
qed

end
