(* ===== verification/Machine.thy ===== *)
theory Machine
  imports Prelude
begin

text \<open>
  The part of the machine every memory-management component shares: byte memory, written by
  \<^verbatim>\<open>memset\<close> of \<^verbatim>\<open>lib/string/string.c\<close>, and the spin locks of
  \<^verbatim>\<open>include/aco/spinlock.h\<close> as one hart running a kernel function sees them: the set of
  locks whose value is 0. Taking a lock that this hart holds already never returns
  (\<open>None\<close>). What several harts do with the lock word is the subject of theory \<open>Sync\<close>.
\<close>

subsection \<open>Locks\<close>

datatype lockid = PoolLk nat | PageLk nat | CacheLk u64

type_synonym memory = "u64 \<Rightarrow> u8"

record machine =
  held :: "lockid set"
  mem :: memory

definition lock :: "lockid \<Rightarrow> 'a machine_scheme \<Rightarrow> 'a machine_scheme option" where
  "lock l s = (if l \<in> held s then None else Some (s\<lparr>held := insert l (held s)\<rparr>))"

definition unlock :: "lockid \<Rightarrow> 'a machine_scheme \<Rightarrow> 'a machine_scheme" where
  "unlock l s = s\<lparr>held := held s - {l}\<rparr>"

text \<open>No page or pool lock is held: the state in which the allocator may be entered.\<close>

definition mm_unlocked :: "'a machine_scheme \<Rightarrow> bool" where
  "mm_unlocked s \<longleftrightarrow> (\<forall>i. PageLk i \<notin> held s) \<and> (\<forall>i. PoolLk i \<notin> held s)"

lemma lock_free [simp]: "l \<notin> held s \<Longrightarrow> lock l s = Some (s\<lparr>held := insert l (held s)\<rparr>)"
  by (simp add: lock_def)

lemma mm_unlockedD:
  "mm_unlocked s \<Longrightarrow> PageLk i \<notin> held s"
  "mm_unlocked s \<Longrightarrow> PoolLk i \<notin> held s"
  by (simp_all add: mm_unlocked_def)

lemma mm_unlocked_cong: "held s = held t \<Longrightarrow> mm_unlocked s = mm_unlocked t"
  unfolding mm_unlocked_def by (simp only:)

subsection \<open>memset\<close>

function memset_loop :: "u64 \<Rightarrow> u8 \<Rightarrow> u64 \<Rightarrow> nat \<Rightarrow> memory \<Rightarrow> memory" where
  "memset_loop t c n i m =
     (if i < unat n then memset_loop t c n (Suc i) (m(t + word_of_nat i := c)) else m)"
  by pat_completeness auto
termination
  by (relation "measure (\<lambda>(t, c, n, i, m). unat n - i)") auto

declare memset_loop.simps [simp del]

definition memset :: "u64 \<Rightarrow> u8 \<Rightarrow> u64 \<Rightarrow> memory \<Rightarrow> memory" where
  "memset des c n m = (if des = 0 \<or> n \<le> 0 then m else memset_loop des c n 0 m)"

lemma memset_loop_apply:
  "memset_loop t c n i m a = (if \<exists>j. i \<le> j \<and> j < unat n \<and> a = t + word_of_nat j then c else m a)"
proof (induction "unat n - i" arbitrary: i m)
  case 0
  then show ?case by (auto simp: memset_loop.simps [of t c n i m])
next
  case (Suc d)
  then have True: "i < unat n" and d: "d = unat n - Suc i" by linarith+
  have "(\<exists>j. i \<le> j \<and> j < unat n \<and> a = t + word_of_nat j) \<longleftrightarrow>
    a = t + word_of_nat i \<or> (\<exists>j. Suc i \<le> j \<and> j < unat n \<and> a = t + word_of_nat j)"
    using True by (metis Suc_leD Suc_leI le_neq_implies_less order_refl)
  then show ?case
    using True by (auto simp: memset_loop.simps [of t c n i m] Suc.hyps(1) [OF d])
qed

text \<open>\<^verbatim>\<open>memset\<close> writes \<open>c\<close> to exactly the \<open>n\<close> bytes from \<open>des\<close> on.\<close>

lemma memset_apply:
  assumes "des \<noteq> 0"
  shows "memset des c n m a = (if unat (a - des) < unat n then c else m a)"
proof (cases "n = 0")
  case True
  then show ?thesis by (simp add: memset_def)
next
  case False
  have "(\<exists>j < unat n. a = des + word_of_nat j) \<longleftrightarrow> unat (a - des) < unat n"
  proof
    assume "\<exists>j < unat n. a = des + word_of_nat j"
    then obtain j where j: "j < unat n" "a - des = word_of_nat j" by auto
    moreover have "unat (word_of_nat j :: u64) \<le> j"
      by (simp add: unsigned_of_nat take_bit_nat_less_eq_self)
    ultimately show "unat (a - des) < unat n" by simp
  next
    assume "unat (a - des) < unat n"
    moreover have "a = des + word_of_nat (unat (a - des))" by simp
    ultimately show "\<exists>j < unat n. a = des + word_of_nat j" by blast
  qed
  then show ?thesis
    using assms False by (auto simp: memset_def memset_loop_apply)
qed

text \<open>The same range as a bound on the address.\<close>

lemma unat_in_range_iff:
  fixes a b :: u64
  assumes "unat b + n < 2 ^ 64"
  shows "unat (a - b) < n \<longleftrightarrow> b \<le> a \<and> unat a < unat b + n"
proof (cases "b \<le> a")
  case True
  then have "unat b \<le> unat a" by (simp add: word_le_nat_alt)
  then show ?thesis using True by (auto simp: unat_sub)
next
  case False
  then have "\<not> unat b \<le> unat a" by (simp add: word_le_nat_alt)
  then have "unat (a - b) = unat a + 2 ^ 64 - unat b" by (simp add: unat_sub_if_size word_size)
  then have "\<not> unat (a - b) < n" using assms by linarith
  then show ?thesis using False by simp
qed

end
