(* ===== verification/PageFrame.thy ===== *)
theory PageFrame
  imports Machine
begin

unbundle bit_operations_syntax

text \<open>
  The page layer: the alignment macros of \<^verbatim>\<open>include/mm/page.h\<close> and the address/page-id
  conversions of \<^verbatim>\<open>include/mm/pageframe.h\<close>, on 64-bit words, for an arbitrary managed
  range (the arch port supplies its physical start, virtual start and size), and the page
  frame descriptors themselves.
\<close>

subsection \<open>include/mm/page.h\<close>

definition CONFIG_PAGE_OFFSET :: nat where
  "CONFIG_PAGE_OFFSET = 12"

definition PAGE_SIZE :: u64 where
  "PAGE_SIZE = push_bit CONFIG_PAGE_OFFSET 1"

definition PAGE_ALIGN_BIT :: u64 where
  "PAGE_ALIGN_BIT = push_bit CONFIG_PAGE_OFFSET 1 - 1"

definition PAGE_UPPER_ALIGN :: "u64 \<Rightarrow> u64" where
  "PAGE_UPPER_ALIGN x = (x + (PAGE_SIZE - 1)) AND NOT PAGE_ALIGN_BIT"

definition PAGE_DOWNS_ALIGN :: "u64 \<Rightarrow> u64" where
  "PAGE_DOWNS_ALIGN x = x AND NOT PAGE_ALIGN_BIT"

definition VAL_IS_PAGE_ALIGNED :: "u64 \<Rightarrow> bool" where
  "VAL_IS_PAGE_ALIGNED val \<longleftrightarrow> val AND PAGE_ALIGN_BIT = 0"

lemma PAGE_SIZE_val [simp]: "PAGE_SIZE = 4096"
  by (simp add: PAGE_SIZE_def CONFIG_PAGE_OFFSET_def push_bit_eq_mult)

lemma PAGE_ALIGN_BIT_mask: "PAGE_ALIGN_BIT = mask 12"
  by (simp add: PAGE_ALIGN_BIT_def CONFIG_PAGE_OFFSET_def mask_eq_exp_minus_1 push_bit_eq_mult)

lemma and_PAGE_ALIGN_BIT: "x AND PAGE_ALIGN_BIT = take_bit 12 x"
  by (simp add: PAGE_ALIGN_BIT_mask take_bit_eq_mask)

lemma unat_take_bit_12: "unat (take_bit 12 (x::u64)) = unat x mod 4096"
  by (simp only: take_bit_eq_mod unat_mod_distrib) simp

lemma page_aligned_iff [word_layout]: "VAL_IS_PAGE_ALIGNED x \<longleftrightarrow> unat x mod 4096 = 0"
  by (metis VAL_IS_PAGE_ALIGNED_def and_PAGE_ALIGN_BIT unat_take_bit_12 unat_eq_zero)

lemma PAGE_DOWNS_ALIGN_minus: "PAGE_DOWNS_ALIGN x = x - take_bit 12 x"
proof -
  have "NOT x AND take_bit 12 x = 0"
    by (rule bit_word_eqI) (auto simp: bit_simps)
  then have "x - take_bit 12 x = x AND NOT (take_bit 12 x)"
    by (rule disjunctive_diff_eq_and_not)
  also have "\<dots> = x AND NOT (mask 12)"
    by (rule bit_word_eqI) (auto simp: bit_simps)
  finally show ?thesis
    by (simp add: PAGE_DOWNS_ALIGN_def PAGE_ALIGN_BIT_mask)
qed

lemma unat_PAGE_DOWNS_ALIGN [word_layout]: "unat (PAGE_DOWNS_ALIGN x) = unat x - unat x mod 4096"
proof -
  have "take_bit 12 x \<le> x"
    by (simp add: word_le_nat_alt unat_take_bit_12)
  then show ?thesis
    by (simp add: PAGE_DOWNS_ALIGN_minus unat_sub unat_take_bit_12)
qed

lemma unat_PAGE_UPPER_ALIGN [word_layout]:
  assumes "unat x + 4095 < 2 ^ 64"
  shows "unat (PAGE_UPPER_ALIGN x) = (unat x + 4095) div 4096 * 4096"
proof -
  have "PAGE_UPPER_ALIGN x = PAGE_DOWNS_ALIGN (x + 4095)"
    by (simp add: PAGE_UPPER_ALIGN_def PAGE_DOWNS_ALIGN_def)
  moreover have "unat (x + 4095) = unat x + 4095"
    using assms by (simp add: unat_word_ariths)
  ultimately show ?thesis
    by (simp add: unat_PAGE_DOWNS_ALIGN minus_mod_eq_div_mult)
qed

subsection \<open>include/mm/pageframe.h: the managed range\<close>

text \<open>
  The range is contiguous and linearly mapped. \<open>MAX_ORDER\<close> is the configuration value
  \<^verbatim>\<open>CONFIG_BUDDYSYSTEM_MAX_ORDER\<close> that the buddy allocator and \<^verbatim>\<open>pages_slfcheck\<close> use.
\<close>

record pgfm_cfg =
  PGFRAME_PA_START :: phyaddr
  PGFRAME_VA_START :: viraddr
  PGFRAME_SIZE :: u64
  MAX_ORDER :: nat

definition PGFRAME_PA_END :: "pgfm_cfg \<Rightarrow> phyaddr" where
  "PGFRAME_PA_END cfg = PGFRAME_PA_START cfg + PGFRAME_SIZE cfg"

definition PGFRAME_VA_END :: "pgfm_cfg \<Rightarrow> viraddr" where
  "PGFRAME_VA_END cfg = PGFRAME_VA_START cfg + PGFRAME_SIZE cfg"

definition PGFRAME_VA2PA_OFFSET :: "pgfm_cfg \<Rightarrow> u64" where
  "PGFRAME_VA2PA_OFFSET cfg = PGFRAME_VA_START cfg - PGFRAME_PA_START cfg"

definition PGFRAME_PAGE_NUMS :: "pgfm_cfg \<Rightarrow> nat" where
  "PGFRAME_PAGE_NUMS cfg = unat (PGFRAME_SIZE cfg div PAGE_SIZE)"

definition va2pa :: "pgfm_cfg \<Rightarrow> viraddr \<Rightarrow> phyaddr" where
  "va2pa cfg va = va - PGFRAME_VA2PA_OFFSET cfg"

definition pa2va :: "pgfm_cfg \<Rightarrow> phyaddr \<Rightarrow> viraddr" where
  "pa2va cfg pa = pa + PGFRAME_VA2PA_OFFSET cfg"

text \<open>The page-id macros cast to \<^verbatim>\<open>int\<close>: the low 32 bits, read as a signed number.\<close>

definition va2id :: "pgfm_cfg \<Rightarrow> viraddr \<Rightarrow> int" where
  "va2id cfg va = sint (ucast ((va - PGFRAME_VA_START cfg) div PAGE_SIZE) :: u32)"

definition id2va :: "pgfm_cfg \<Rightarrow> int \<Rightarrow> viraddr" where
  "id2va cfg i = PGFRAME_VA_START cfg + word_of_int i * PAGE_SIZE"

definition pa2id :: "pgfm_cfg \<Rightarrow> phyaddr \<Rightarrow> int" where
  "pa2id cfg pa = sint (ucast ((pa - PGFRAME_PA_START cfg) div PAGE_SIZE) :: u32)"

definition id2pa :: "pgfm_cfg \<Rightarrow> int \<Rightarrow> phyaddr" where
  "id2pa cfg i = PGFRAME_PA_START cfg + word_of_int i * PAGE_SIZE"

text \<open>
  A \<^verbatim>\<open>struct pageframe*\<close> is its offset from \<^verbatim>\<open>PAGES\<close>; a pointer computed from an
  address that would lie below the array is \<open>None\<close>.
\<close>

definition va2pg :: "pgfm_cfg \<Rightarrow> viraddr \<Rightarrow> nat option" where
  "va2pg cfg va = (if va2id cfg va \<ge> 0 then Some (nat (va2id cfg va)) else None)"

definition pa2pg :: "pgfm_cfg \<Rightarrow> phyaddr \<Rightarrow> nat option" where
  "pa2pg cfg pa = (if pa2id cfg pa \<ge> 0 then Some (nat (pa2id cfg pa)) else None)"

definition pg2id :: "nat \<Rightarrow> int" where
  "pg2id pg = sint (word_of_nat pg :: u32)"

definition pg2va :: "pgfm_cfg \<Rightarrow> nat \<Rightarrow> viraddr" where
  "pg2va cfg pg = id2va cfg (pg2id pg)"

definition pg2pa :: "pgfm_cfg \<Rightarrow> nat \<Rightarrow> phyaddr" where
  "pg2pa cfg pg = id2pa cfg (pg2id pg)"

definition pa_valid :: "pgfm_cfg \<Rightarrow> phyaddr \<Rightarrow> bool" where
  "pa_valid cfg pa \<longleftrightarrow> pa \<ge> PGFRAME_PA_START cfg \<and> pa < PGFRAME_PA_END cfg"

definition va_valid :: "pgfm_cfg \<Rightarrow> viraddr \<Rightarrow> bool" where
  "va_valid cfg va \<longleftrightarrow> va \<ge> PGFRAME_VA_START cfg \<and> va < PGFRAME_VA_END cfg"

definition id_valid :: "pgfm_cfg \<Rightarrow> int \<Rightarrow> bool" where
  "id_valid cfg i \<longleftrightarrow> i \<ge> 0 \<and> i < sint (ucast (PGFRAME_SIZE cfg div PAGE_SIZE) :: u32)"

definition pg_valid :: "pgfm_cfg \<Rightarrow> nat \<Rightarrow> bool" where
  "pg_valid cfg pg \<longleftrightarrow> id_valid cfg (pg2id pg)"

definition ORDER2PGNUM :: "nat \<Rightarrow> u64" where
  "ORDER2PGNUM order = push_bit order 1"

definition ORDER2BYTE :: "nat \<Rightarrow> u64" where
  "ORDER2BYTE order = ORDER2PGNUM order * PAGE_SIZE"

text \<open>
  What the arch port promises (comments of pageframe.h, checked at start-up by
  \<^verbatim>\<open>pgfm_module_init\<close>), and that page ids and block sizes fit the C type \<^verbatim>\<open>int\<close>.
\<close>

definition wf_cfg :: "pgfm_cfg \<Rightarrow> bool" where
  "wf_cfg cfg \<longleftrightarrow>
     VAL_IS_PAGE_ALIGNED (PGFRAME_PA_START cfg) \<and> VAL_IS_PAGE_ALIGNED (PGFRAME_VA_START cfg) \<and>
     VAL_IS_PAGE_ALIGNED (PGFRAME_SIZE cfg) \<and> 0 < PGFRAME_SIZE cfg \<and>
     PGFRAME_PA_START cfg \<le> PGFRAME_VA_START cfg \<and>
     unat (PGFRAME_VA_START cfg) + unat (PGFRAME_SIZE cfg) < 2 ^ 64 \<and>
     PGFRAME_PAGE_NUMS cfg < 2 ^ 31 \<and> MAX_ORDER cfg \<le> 19"

subsection \<open>The macros as arithmetic\<close>

lemma PAGE_NUMS_size: 
  "wf_cfg cfg \<Longrightarrow> unat (PGFRAME_SIZE cfg) = PGFRAME_PAGE_NUMS cfg * 4096"
  by (auto simp: wf_cfg_def PGFRAME_PAGE_NUMS_def page_aligned_iff unat_div_distrib)

lemma pg2id_int [simp]: "wf_cfg cfg \<Longrightarrow> p \<le> PGFRAME_PAGE_NUMS cfg \<Longrightarrow> pg2id p = int p"
  by (simp add: pg2id_def sint_u32_of_nat wf_cfg_def)

lemma pg_valid_iff: 
  assumes "wf_cfg cfg" and "p < 2 ^ 31"
  shows "pg_valid cfg p \<longleftrightarrow> p < PGFRAME_PAGE_NUMS cfg"
proof -
  have "sint (ucast (PGFRAME_SIZE cfg div PAGE_SIZE) :: u32) = int (PGFRAME_PAGE_NUMS cfg)"
    using assms(1) unfolding wf_cfg_def PGFRAME_PAGE_NUMS_def by (intro sint_u32_ucast) simp
  with assms(2) show ?thesis
    by (simp add: pg_valid_def id_valid_def pg2id_def sint_u32_of_nat del: PAGE_SIZE_val)
qed

lemma unat_pg2va [word_layout]:
  assumes "wf_cfg cfg" and "p < PGFRAME_PAGE_NUMS cfg"
  shows "unat (pg2va cfg p) = unat (PGFRAME_VA_START cfg) + p * 4096"
proof -
  have b: "unat (PGFRAME_VA_START cfg) + p * 4096 < 2 ^ 64"
    using assms PAGE_NUMS_size [OF assms(1)] by (auto simp: wf_cfg_def)
  have "pg2va cfg p = PGFRAME_VA_START cfg + word_of_nat p * 4096"
    using assms by (simp add: pg2va_def id2va_def)
  also have "\<dots> = word_of_nat (unat (PGFRAME_VA_START cfg) + p * 4096)"
    by simp
  finally show ?thesis
    using b by (simp add: unat_of_nat take_bit_nat_eq_self unsigned_of_nat del: of_nat_add of_nat_mult)
qed

lemma unat_ORDER2BYTE [word_layout]:
  assumes "order \<le> 19"
  shows "unat (ORDER2BYTE order) = 2 ^ order * 4096"
proof -
  have "(2::nat) ^ order \<le> 2 ^ 19"
    using assms by (rule pow2_mono_nat)
  then have b: "(2::nat) ^ order * 4096 < 2 ^ 64"
    by simp
  have "ORDER2BYTE order = word_of_nat (2 ^ order * 4096)"
    by (simp add: ORDER2BYTE_def ORDER2PGNUM_def push_bit_eq_mult)
  then show ?thesis
    using b by (simp add: unat_of_nat take_bit_nat_eq_self unsigned_of_nat del: of_nat_mult of_nat_power)
qed

lemma va2pg_of_offset:
  assumes "wf_cfg cfg" and "unat va = unat (PGFRAME_VA_START cfg) + i * 4096 + r" and "r < 4096"
    and "i < PGFRAME_PAGE_NUMS cfg"
  shows "va2pg cfg va = Some i"
proof -
  have "unat (va - PGFRAME_VA_START cfg) = i * 4096 + r"
    using assms(2) by (simp add: unat_sub word_le_nat_alt)
  then have "unat ((va - PGFRAME_VA_START cfg) div 4096) = i"
    using assms(3) by (simp add: unat_div_distrib)
  moreover from assms have "i < 2 ^ 31"
    by (auto simp: wf_cfg_def)
  ultimately show ?thesis
    by (simp add: va2pg_def va2id_def sint_u32_ucast)
qed

lemma unat_VA_END: 
  "wf_cfg cfg \<Longrightarrow> unat (PGFRAME_VA_END cfg) = unat (PGFRAME_VA_START cfg) + PGFRAME_PAGE_NUMS cfg * 4096"
  using PAGE_NUMS_size [of cfg] unat_add_lem [of "PGFRAME_VA_START cfg" "PGFRAME_SIZE cfg"]
  by (simp add: PGFRAME_VA_END_def wf_cfg_def)

lemma va_valid_iff:
  "wf_cfg cfg \<Longrightarrow> va_valid cfg va \<longleftrightarrow> unat (PGFRAME_VA_START cfg) \<le> unat va \<and>
     unat va < unat (PGFRAME_VA_START cfg) + PGFRAME_PAGE_NUMS cfg * 4096"
  by (simp add: va_valid_def word_le_nat_alt word_less_nat_alt unat_VA_END)

text \<open>The blocks before and after a block of the same order, as \<^verbatim>\<open>bkp_free\<close> looks for them.\<close>

lemma before_arith:
  fixes p n k V x :: nat
  assumes "p < n" and "n < 2147483648" and "k \<le> 524288"
    and "x = (if k * 4096 \<le> V + p * 4096 then V + p * 4096 - k * 4096
              else V + p * 4096 + 18446744073709551616 - k * 4096)"
  shows "(V \<le> x \<and> x < V + n * 4096) = (k \<le> p)"
proof (cases "k * 4096 \<le> V + p * 4096")
  case True
  then have "x = V + p * 4096 - k * 4096" using assms(4) by (simp only: if_True)
  then show ?thesis using True assms(1) by linarith
next
  case False
  then have "x = V + p * 4096 + 18446744073709551616 - k * 4096" using assms(4) by (simp only: if_False)
  then show ?thesis using False assms(1-3) by linarith
qed

lemma after_arith:
  fixes p n k V x :: nat
  assumes "p < n" and "n < 2147483648" and "k \<le> 524288" and "V + n * 4096 < 18446744073709551616"
    and "x = (if V + p * 4096 + k * 4096 < 18446744073709551616 then V + p * 4096 + k * 4096
              else V + p * 4096 + k * 4096 - 18446744073709551616)"
  shows "(V \<le> x \<and> x < V + n * 4096) = (p + k < n)"
proof (cases "V + p * 4096 + k * 4096 < 18446744073709551616")
  case True
  then have "x = V + p * 4096 + k * 4096" using assms(5) by (simp only: if_True)
  then show ?thesis by linarith
next
  case False
  then have "x = V + p * 4096 + k * 4096 - 18446744073709551616" using assms(5) by (simp only: if_False)
  then show ?thesis using False assms(1-4) by linarith
qed

lemma order_bounds:
  assumes "wf_cfg cfg" and "order \<le> MAX_ORDER cfg"
  shows "order \<le> 19" and "(2::nat) ^ order \<le> 524288" and "PGFRAME_PAGE_NUMS cfg < 2147483648"
    and "unat (PGFRAME_VA_START cfg) + PGFRAME_PAGE_NUMS cfg * 4096 < 18446744073709551616"
proof -
  show o: "order \<le> 19"
    using assms by (simp add: wf_cfg_def)
  show "(2::nat) ^ order \<le> 524288"
    using pow2_mono_nat [OF o] by simp
  show "PGFRAME_PAGE_NUMS cfg < 2147483648"
    using assms by (simp add: wf_cfg_def)
  show "unat (PGFRAME_VA_START cfg) + PGFRAME_PAGE_NUMS cfg * 4096 < 18446744073709551616"
    using assms(1) PAGE_NUMS_size [OF assms(1)] by (simp add: wf_cfg_def)
qed

lemma before_block:
  assumes "wf_cfg cfg" and "p < PGFRAME_PAGE_NUMS cfg" and "order \<le> MAX_ORDER cfg"
  shows before_valid: "va_valid cfg (pg2va cfg p - ORDER2BYTE order) \<longleftrightarrow> 2 ^ order \<le> p"
    and before_pg: "2 ^ order \<le> p \<Longrightarrow>
      va2pg cfg (pg2va cfg p - ORDER2BYTE order) = Some (p - 2 ^ order)"
proof -
  note b = order_bounds [OF assms(1,3)]
  have sub: "unat (pg2va cfg p - ORDER2BYTE order) =
    (if 2 ^ order * 4096 \<le> unat (PGFRAME_VA_START cfg) + p * 4096
     then unat (PGFRAME_VA_START cfg) + p * 4096 - 2 ^ order * 4096
     else unat (PGFRAME_VA_START cfg) + p * 4096 + 18446744073709551616 - 2 ^ order * 4096)"
    by (simp add: unat_sub_if_size word_size unat_pg2va [OF assms(1,2)] unat_ORDER2BYTE [OF b(1)])
  show "va_valid cfg (pg2va cfg p - ORDER2BYTE order) \<longleftrightarrow> 2 ^ order \<le> p"
    unfolding va_valid_iff [OF assms(1)] by (rule before_arith [OF assms(2) b(3) b(2) sub])
  assume le: "2 ^ order \<le> p"
  then have "unat (pg2va cfg p - ORDER2BYTE order) = unat (PGFRAME_VA_START cfg) + (p - 2 ^ order) * 4096 + 0"
    unfolding sub by (simp add: diff_mult_distrib)
  then show "va2pg cfg (pg2va cfg p - ORDER2BYTE order) = Some (p - 2 ^ order)"
    by (rule va2pg_of_offset [OF assms(1)]) (use assms(2) in simp_all)
qed

lemma after_block:
  assumes "wf_cfg cfg" and "p < PGFRAME_PAGE_NUMS cfg" and "order \<le> MAX_ORDER cfg"
  shows after_valid: "va_valid cfg (pg2va cfg p + ORDER2BYTE order) \<longleftrightarrow> p + 2 ^ order < PGFRAME_PAGE_NUMS cfg"
    and after_pg: "p + 2 ^ order < PGFRAME_PAGE_NUMS cfg \<Longrightarrow>
      va2pg cfg (pg2va cfg p + ORDER2BYTE order) = Some (p + 2 ^ order)"
proof -
  note b = order_bounds [OF assms(1,3)]
  have add: "unat (pg2va cfg p + ORDER2BYTE order) =
    (if unat (PGFRAME_VA_START cfg) + p * 4096 + 2 ^ order * 4096 < 18446744073709551616
     then unat (PGFRAME_VA_START cfg) + p * 4096 + 2 ^ order * 4096
     else unat (PGFRAME_VA_START cfg) + p * 4096 + 2 ^ order * 4096 - 18446744073709551616)"
    by (simp add: unat_plus_if_size word_size unat_pg2va [OF assms(1,2)] unat_ORDER2BYTE [OF b(1)])
  show "va_valid cfg (pg2va cfg p + ORDER2BYTE order) \<longleftrightarrow> p + 2 ^ order < PGFRAME_PAGE_NUMS cfg"
    unfolding va_valid_iff [OF assms(1)] by (rule after_arith [OF assms(2) b(3) b(2) b(4) add])
  assume lt: "p + 2 ^ order < PGFRAME_PAGE_NUMS cfg"
  then have "unat (pg2va cfg p + ORDER2BYTE order) = unat (PGFRAME_VA_START cfg) + (p + 2 ^ order) * 4096 + 0"
    using b(4) unfolding add by simp
  then show "va2pg cfg (pg2va cfg p + ORDER2BYTE order) = Some (p + 2 ^ order)"
    by (rule va2pg_of_offset [OF assms(1)]) (use lt in simp_all)
qed

subsection \<open>Properties of the conversions\<close>

lemma unat_pg2pa:
  assumes "wf_cfg cfg" and "p < PGFRAME_PAGE_NUMS cfg"
  shows "unat (pg2pa cfg p) = unat (PGFRAME_PA_START cfg) + p * 4096"
proof -
  have "unat (PGFRAME_PA_START cfg) \<le> unat (PGFRAME_VA_START cfg)"
    using assms(1) by (simp add: wf_cfg_def word_le_nat_alt)
  then have b: "unat (PGFRAME_PA_START cfg) + p * 4096 < 2 ^ 64"
    using assms PAGE_NUMS_size [OF assms(1)] by (auto simp: wf_cfg_def)
  have "pg2pa cfg p = word_of_nat (unat (PGFRAME_PA_START cfg) + p * 4096)"
    using assms by (simp add: pg2pa_def id2pa_def)
  then show ?thesis
    using b by (simp add: unsigned_of_nat take_bit_nat_eq_self del: of_nat_add of_nat_mult)
qed

lemma pa2pg_pg2pa:
  assumes "wf_cfg cfg" and "p < PGFRAME_PAGE_NUMS cfg"
  shows "pa2pg cfg (pg2pa cfg p) = Some p"
proof -
  have "unat (pg2pa cfg p - PGFRAME_PA_START cfg) = p * 4096"
    using unat_pg2pa [OF assms] by (simp add: unat_sub word_le_nat_alt)
  then have "unat ((pg2pa cfg p - PGFRAME_PA_START cfg) div 4096) = p" by (simp add: unat_div_distrib)
  moreover have "p < 2 ^ 31" using assms by (auto simp: wf_cfg_def)
  ultimately show ?thesis by (simp add: pa2pg_def pa2id_def sint_u32_ucast)
qed

lemma valid_va_page:
  assumes wf: "wf_cfg cfg" and va: "va_valid cfg va"
  obtains i r where "i < PGFRAME_PAGE_NUMS cfg" "r < 4096"
    "unat va = unat (PGFRAME_VA_START cfg) + i * 4096 + r"
proof -
  let ?d = "unat va - unat (PGFRAME_VA_START cfg)"
  have r: "unat (PGFRAME_VA_START cfg) \<le> unat va" "?d < PGFRAME_PAGE_NUMS cfg * 4096"
    using va by (auto simp: va_valid_iff [OF wf])
  show thesis
  proof
    show "?d div 4096 < PGFRAME_PAGE_NUMS cfg" using r(2) by (simp add: less_mult_imp_div_less)
    show "?d mod 4096 < 4096" by simp
    show "unat va = unat (PGFRAME_VA_START cfg) + ?d div 4096 * 4096 + ?d mod 4096" using r(1) by simp
  qed
qed

lemma page_alignedE:
  assumes "VAL_IS_PAGE_ALIGNED y" obtains q where "unat y = q * 4096"
  using assms unfolding page_aligned_iff by (metis mod_0_imp_dvd dvd_def mult.commute)

text \<open>A range of three pages for the examples.\<close>

definition range3 :: pgfm_cfg where
  "range3 = \<lparr>PGFRAME_PA_START = 0x80200000, PGFRAME_VA_START = 0x3000000000, PGFRAME_SIZE = 0x3000, MAX_ORDER = 2\<rparr>"

lemma range3_wf: "wf_cfg range3" "PGFRAME_PAGE_NUMS range3 = 3"
  by (simp_all add: wf_cfg_def range3_def page_aligned_iff PGFRAME_PAGE_NUMS_def)

text \<open>
  C40: The conversions of pageframe.h between page descriptors, virtual addresses and
  physical addresses are mutually inverse on the managed range: page to address and back gives
  the page, virtual to physical and back gives the address, and both routes from a page to its
  physical address agree.
\<close>

theorem pgfm_conversions:
  assumes "wf_cfg cfg" "p < PGFRAME_PAGE_NUMS cfg"
  shows "va2pg cfg (pg2va cfg p) = Some p \<and> pa2pg cfg (pg2pa cfg p) = Some p \<and>
    va2pa cfg (pg2va cfg p) = pg2pa cfg p \<and> pa2va cfg (va2pa cfg va) = va \<and> va2pa cfg (pa2va cfg pa) = pa"
proof (intro conjI)
  show "va2pg cfg (pg2va cfg p) = Some p"
    using va2pg_of_offset [OF assms(1), of "pg2va cfg p" p 0] unat_pg2va [OF assms] assms(2) by simp
  show "pa2pg cfg (pg2pa cfg p) = Some p" using assms by (rule pa2pg_pg2pa)
  show "va2pa cfg (pg2va cfg p) = pg2pa cfg p"
    by (simp add: va2pa_def pg2va_def pg2pa_def id2va_def id2pa_def PGFRAME_VA2PA_OFFSET_def)
qed (simp_all add: pa2va_def va2pa_def)

theorem pgfm_conversions_witness:
  "va2pg range3 (pg2va range3 2) = Some 2 \<and> pa2pg range3 (pg2pa range3 2) = Some 2 \<and>
   va2pa range3 (pg2va range3 2) = pg2pa range3 2"
  using pgfm_conversions [OF range3_wf(1), of 2] range3_wf(2) by simp

text \<open>
  Every valid virtual address belongs to a page of the range: \<^verbatim>\<open>va2pg\<close> gives a page id in
  range, whose address is the given one rounded down to a page boundary, and its physical
  address is valid.
\<close>

theorem va2pg_valid:
  assumes "wf_cfg cfg" "va_valid cfg va"
  shows "\<exists>p < PGFRAME_PAGE_NUMS cfg. va2pg cfg va = Some p \<and> pg_valid cfg p \<and>
    pg2va cfg p = PAGE_DOWNS_ALIGN va \<and> pa_valid cfg (va2pa cfg va)"
proof -
  obtain i r where i: "i < PGFRAME_PAGE_NUMS cfg" "r < 4096" "unat va = unat (PGFRAME_VA_START cfg) + i * 4096 + r"
    using valid_va_page [OF assms] .
  have pv: "pg_valid cfg i" using i(1) assms(1) pg_valid_iff [OF assms(1), of i] by (auto simp: wf_cfg_def)
  have "unat (PGFRAME_VA_START cfg) mod 4096 = 0" using assms(1) by (simp add: wf_cfg_def page_aligned_iff)
  then obtain v where v: "unat (PGFRAME_VA_START cfg) = v * 4096" by (metis mod_0_imp_dvd dvd_def mult.commute)
  have "unat va = (v + i) * 4096 + r" using i(3) v by simp
  then have "unat va mod 4096 = r" using i(2) by (simp only: mod_mult_self3 mod_less)
  then have al: "pg2va cfg i = PAGE_DOWNS_ALIGN va"
    using i(3) by (simp add: word_unat_eq_iff unat_pg2va [OF assms(1) i(1)] unat_PAGE_DOWNS_ALIGN)
  have le: "unat (PGFRAME_PA_START cfg) \<le> unat (PGFRAME_VA_START cfg)"
    using assms(1) by (simp add: wf_cfg_def word_le_nat_alt)
  have "va2pa cfg va = PGFRAME_PA_START cfg + (va - PGFRAME_VA_START cfg)"
    by (simp add: va2pa_def PGFRAME_VA2PA_OFFSET_def)
  moreover have d: "unat (va - PGFRAME_VA_START cfg) = i * 4096 + r"
    using i(3) by (simp add: unat_sub word_le_nat_alt)
  moreover have lim: "unat (PGFRAME_PA_START cfg) + PGFRAME_PAGE_NUMS cfg * 4096 < 2 ^ 64"
    using le order_bounds(4) [OF assms(1) order_refl] by simp
  moreover have ir: "i * 4096 + r < PGFRAME_PAGE_NUMS cfg * 4096" using i(1,2) by linarith
  ultimately have "unat (va2pa cfg va) = unat (PGFRAME_PA_START cfg) + (i * 4096 + r)"
    by (simp add: unat_word_ariths)
  moreover have "unat (PGFRAME_PA_END cfg) = unat (PGFRAME_PA_START cfg) + PGFRAME_PAGE_NUMS cfg * 4096"
    using lim PAGE_NUMS_size [OF assms(1)] by (simp add: PGFRAME_PA_END_def unat_word_ariths)
  ultimately have "pa_valid cfg (va2pa cfg va)"
    using ir by (simp add: pa_valid_def word_le_nat_alt word_less_nat_alt)
  then show ?thesis using va2pg_of_offset [OF assms(1) i(3,2,1)] i(1) pv al by blast
qed

theorem va2pg_valid_witness:
  "\<exists>p < PGFRAME_PAGE_NUMS range3. va2pg range3 0x3000001234 = Some p \<and> pg2va range3 p = 0x3000001000"
proof -
  have "va_valid range3 0x3000001234" by (simp add: va_valid_def PGFRAME_VA_END_def range3_def)
  moreover have "PAGE_DOWNS_ALIGN 0x3000001234 = 0x3000001000" by code_simp
  ultimately show ?thesis using va2pg_valid [OF range3_wf(1), of "0x3000001234"] by auto
qed

text \<open>
  The alignment macros of page.h: \<^verbatim>\<open>PAGE_DOWNS_ALIGN\<close> gives the largest page-aligned value
  not above its argument, and \<^verbatim>\<open>PAGE_UPPER_ALIGN\<close> the smallest one not below it whenever that
  value does not exceed the 64-bit range.
\<close>

theorem page_align_tight:
  "VAL_IS_PAGE_ALIGNED (PAGE_DOWNS_ALIGN x) \<and> PAGE_DOWNS_ALIGN x \<le> x \<and>
   (\<forall>y \<le> x. VAL_IS_PAGE_ALIGNED y \<longrightarrow> y \<le> PAGE_DOWNS_ALIGN x) \<and>
   (unat x + 4095 < 2 ^ 64 \<longrightarrow> VAL_IS_PAGE_ALIGNED (PAGE_UPPER_ALIGN x) \<and> x \<le> PAGE_UPPER_ALIGN x \<and>
      (\<forall>y \<ge> x. VAL_IS_PAGE_ALIGNED y \<longrightarrow> PAGE_UPPER_ALIGN x \<le> y))"
proof (intro conjI allI impI)
  show "VAL_IS_PAGE_ALIGNED (PAGE_DOWNS_ALIGN x)"
    by (simp add: page_aligned_iff unat_PAGE_DOWNS_ALIGN minus_mod_eq_div_mult)
  show "PAGE_DOWNS_ALIGN x \<le> x" by (simp add: word_le_nat_alt unat_PAGE_DOWNS_ALIGN)
  show "y \<le> PAGE_DOWNS_ALIGN x" if yx: "y \<le> x" and al: "VAL_IS_PAGE_ALIGNED y" for y
  proof -
    obtain q where q: "unat y = q * 4096" using al by (rule page_alignedE)
    then have "q \<le> unat x div 4096" using yx by (simp add: word_le_nat_alt less_eq_div_iff_mult_less_eq)
    then show ?thesis by (simp add: word_le_nat_alt unat_PAGE_DOWNS_ALIGN minus_mod_eq_div_mult q)
  qed
next
  assume lim: "unat x + 4095 < 2 ^ 64"
  note up = unat_PAGE_UPPER_ALIGN [OF lim]
  show "VAL_IS_PAGE_ALIGNED (PAGE_UPPER_ALIGN x)" by (simp add: page_aligned_iff up)
  show "x \<le> PAGE_UPPER_ALIGN x"
    using div_mod_decomp [of "unat x + 4095" 4096] mod_less_divisor [of 4096 "unat x + 4095"]
    unfolding word_le_nat_alt up by linarith
  show "PAGE_UPPER_ALIGN x \<le> y" if yx: "x \<le> y" and al: "VAL_IS_PAGE_ALIGNED y" for y
  proof -
    obtain q where q: "unat y = q * 4096" using al by (rule page_alignedE)
    then have "unat x + 4095 < Suc q * 4096" using yx by (simp add: word_le_nat_alt)
    then have "(unat x + 4095) div 4096 < Suc q" by (simp add: div_less_iff_less_mult)
    then show ?thesis unfolding word_le_nat_alt up q by simp
  qed
qed

theorem page_align_tight_witness:
  "PAGE_UPPER_ALIGN 0x1001 \<le> 0x2000 \<and> 0x1001 \<le> PAGE_UPPER_ALIGN 0x1001 \<and> 0x1000 \<le> PAGE_DOWNS_ALIGN 0x1001"
proof -
  have "VAL_IS_PAGE_ALIGNED 0x2000" "VAL_IS_PAGE_ALIGNED 0x1000" by (simp_all add: page_aligned_iff)
  then show ?thesis
    using page_align_tight [of "0x1001"] by simp
qed

subsection \<open>The page frame descriptors\<close>

datatype pgfm_type = PAGE_BUDDYALLOCATOR | SLAB_ALLOCATOR | VMA_AREA

definition PG_BUDDY_FLAG_FREE :: u8 where "PG_BUDDY_FLAG_FREE = 1"
definition PG_BUDDY_FLAG_HEAD :: u8 where "PG_BUDDY_FLAG_HEAD = 2"
definition PG_BUDDY_FLAG_BODY :: u8 where "PG_BUDDY_FLAG_BODY = 4"
definition PG_BUDDY_FLAG_STATIC :: u8 where "PG_BUDDY_FLAG_STATIC = 8"

lemmas pg_flag_defs = PG_BUDDY_FLAG_FREE_def PG_BUDDY_FLAG_HEAD_def PG_BUDDY_FLAG_BODY_def
  PG_BUDDY_FLAG_STATIC_def

text \<open>
  \<^verbatim>\<open>buddy_order\<close> is a \<^verbatim>\<open>uint8_t\<close> that only ever holds values up to \<open>MAX_ORDER\<close>, which
  \<open>wf_cfg\<close> bounds by 19, so it is a \<open>nat\<close> here. The lock \<^verbatim>\<open>lk\<close> of page \<open>i\<close> is
  \<open>PageLk i\<close>, and the link \<^verbatim>\<open>buddy_node\<close> is represented by the list that holds the page.
\<close>

record page =
  pgtype :: pgfm_type
  buddy_flags :: u8
  buddy_order :: nat
  ref_count :: int
  vma_flags :: u8

record pgfm = machine +
  pgframe_pages :: "page list"

definition pg_get :: "nat \<Rightarrow> 'a pgfm_scheme \<Rightarrow> page option" where
  "pg_get p s = array_get (pgframe_pages s) p"

definition pg_upd :: "nat \<Rightarrow> (page \<Rightarrow> page) \<Rightarrow> 'a pgfm_scheme \<Rightarrow> 'a pgfm_scheme option" where
  "pg_upd p f s = do {
     ps \<leftarrow> array_upd (pgframe_pages s) p f;
     Some (s\<lparr>pgframe_pages := ps\<rparr>) }"

lemma pg_get_in [simp]:
  "p < length (pgframe_pages s) \<Longrightarrow> pg_get p s = Some (pgframe_pages s ! p)"
  by (simp add: pg_get_def)

lemma pg_upd_in [simp]:
  "p < length (pgframe_pages s) \<Longrightarrow>
     pg_upd p f s = Some (s\<lparr>pgframe_pages := (pgframe_pages s)[p := f (pgframe_pages s ! p)]\<rparr>)"
  by (simp add: pg_upd_def)

end
