(* ===== verification/Buddy.thy ===== *)
theory Buddy
  imports PageFrame
begin

unbundle bit_operations_syntax

text \<open>
  The buddy page allocator: \<^verbatim>\<open>module/mm/buddy/buddy_allocator.c\<close>,
  \<^verbatim>\<open>module/mm/buddy/buddy_module.c\<close> and \<^verbatim>\<open>include/mm/buddy.h\<close>. The free list of an
  order pool is the list of the page ids hung on it, in order.
\<close>

subsection \<open>State\<close>

record mempool =
  rest_block_num :: int
  block_size :: int
  pool_list :: "nat list"

record mm = pgfm +
  order_pools :: "mempool list"

definition pool_get :: "nat \<Rightarrow> 'a mm_scheme \<Rightarrow> mempool option" where
  "pool_get order s = array_get (order_pools s) order"

definition pool_upd :: "nat \<Rightarrow> (mempool \<Rightarrow> mempool) \<Rightarrow> 'a mm_scheme \<Rightarrow> 'a mm_scheme option" where
  "pool_upd order f s = do {
     ps \<leftarrow> array_upd (order_pools s) order f;
     Some (s\<lparr>order_pools := ps\<rparr>) }"

lemma pool_get_in [simp]:
  "order < length (order_pools s) \<Longrightarrow> pool_get order s = Some (order_pools s ! order)"
  by (simp add: pool_get_def)

lemma pool_upd_in [simp]:
  "order < length (order_pools s) \<Longrightarrow>
     pool_upd order f s = Some (s\<lparr>order_pools := (order_pools s)[order := f (order_pools s ! order)]\<rparr>)"
  by (simp add: pool_upd_def)

text \<open>
  \<^verbatim>\<open>list_del\<close> of a page's node that hangs on pool \<open>order\<close>, and \<^verbatim>\<open>list_add_tail\<close>. Unlinking
  a node that is on no list follows its null pointers, hence \<open>None\<close>.
\<close>

definition pool_list_del :: "nat \<Rightarrow> nat \<Rightarrow> 'a mm_scheme \<Rightarrow> 'a mm_scheme option" where
  "pool_list_del order p s = do {
     pool \<leftarrow> pool_get order s;
     if p \<in> set (pool_list pool)
     then pool_upd order (\<lambda>q. q\<lparr>pool_list := remove1 p (pool_list q)\<rparr>) s
     else None }"

definition pool_list_add_tail :: "nat \<Rightarrow> nat \<Rightarrow> 'a mm_scheme \<Rightarrow> 'a mm_scheme option" where
  "pool_list_add_tail order p s = pool_upd order (\<lambda>q. q\<lparr>pool_list := pool_list q @ [p]\<rparr>) s"

definition buddy_pgfm_freeable :: "page \<Rightarrow> bool" where
  "buddy_pgfm_freeable pg \<longleftrightarrow> buddy_flags pg = PG_BUDDY_FLAG_HEAD"

definition buddy_pgfm_infrlist :: "page \<Rightarrow> bool" where
  "buddy_pgfm_infrlist pg \<longleftrightarrow> buddy_flags pg = (PG_BUDDY_FLAG_HEAD OR PG_BUDDY_FLAG_FREE)"

subsection \<open>include/mm/buddy.h: PGNUM2ORDER\<close>

text \<open>The loop over the bits \<open>i < MAX_ORDER\<close>; \<open>i\<close> counts up from 0.\<close>

function PGNUM2ORDER_loop :: "nat \<Rightarrow> nat \<Rightarrow> nat \<Rightarrow> bool \<Rightarrow> int \<Rightarrow> int" where
  "PGNUM2ORDER_loop max_order pgnum i flag ret =
     (if i < max_order then
        (if bit pgnum i then
           (if flag then - 1 else PGNUM2ORDER_loop max_order pgnum (Suc i) True (int i))
         else PGNUM2ORDER_loop max_order pgnum (Suc i) flag ret)
      else ret)"
  by pat_completeness auto
termination
  by (relation "measure (\<lambda>(m, pgnum, i, flag, ret). m - i)") auto

declare PGNUM2ORDER_loop.simps [simp del]

definition PGNUM2ORDER :: "pgfm_cfg \<Rightarrow> int \<Rightarrow> int" where
  "PGNUM2ORDER cfg pgnum =
     (if pgnum \<le> 0 then - 1 else PGNUM2ORDER_loop (MAX_ORDER cfg) (nat pgnum) 0 False 0)"

subsection \<open>bkp_free\<close>

definition buddy_mergeable :: "page \<Rightarrow> nat \<Rightarrow> bool" where
  "buddy_mergeable pg order \<longleftrightarrow>
     pgtype pg = PAGE_BUDDYALLOCATOR \<and> buddy_order pg = order \<and>
     buddy_flags pg AND PG_BUDDY_FLAG_HEAD \<noteq> 0 \<and>
     buddy_flags pg AND PG_BUDDY_FLAG_BODY = 0 \<and>
     buddy_flags pg AND PG_BUDDY_FLAG_FREE \<noteq> 0"

text \<open>Merging with the block before; \<open>Some bef\<close> when it happened (the \<^verbatim>\<open>continue\<close>).\<close>

definition bkp_merge_bef ::
  "pgfm_cfg \<Rightarrow> nat \<Rightarrow> nat \<Rightarrow> 'a mm_scheme \<Rightarrow> (nat option \<times> 'a mm_scheme) option" where
  "bkp_merge_bef cfg pgfm order s =
     (let bef_pgva = pg2va cfg pgfm - ORDER2BYTE order in
      if va_valid cfg bef_pgva then do {
        bef_page \<leftarrow> va2pg cfg bef_pgva;
        s \<leftarrow> lock (PageLk bef_page) s;
        bp \<leftarrow> pg_get bef_page s;
        if buddy_mergeable bp order then do {
          s \<leftarrow> pool_list_del order bef_page s;
          s \<leftarrow> pool_upd order (\<lambda>q. q\<lparr>rest_block_num := rest_block_num q - 1\<rparr>) s;
          s \<leftarrow> pg_upd pgfm (\<lambda>p. p\<lparr>buddy_order := MAX_ORDER cfg, buddy_flags := PG_BUDDY_FLAG_BODY\<rparr>) s;
          s \<leftarrow> pg_upd bef_page (\<lambda>p. p\<lparr>buddy_order := buddy_order p + 1, buddy_flags := PG_BUDDY_FLAG_HEAD\<rparr>) s;
          let s = unlock (PageLk bef_page) s;
          let s = unlock (PageLk pgfm) s;
          let s = unlock (PoolLk order) s;
          Some (Some bef_page, s) }
        else Some (None, unlock (PageLk bef_page) s) }
      else Some (None, s))"

text \<open>Merging with the block after; \<open>True\<close> when it happened.\<close>

definition bkp_merge_aft ::
  "pgfm_cfg \<Rightarrow> nat \<Rightarrow> nat \<Rightarrow> 'a mm_scheme \<Rightarrow> (bool \<times> 'a mm_scheme) option" where
  "bkp_merge_aft cfg pgfm order s =
     (let aft_pgva = pg2va cfg pgfm + ORDER2BYTE order in
      if va_valid cfg aft_pgva then do {
        aft_page \<leftarrow> va2pg cfg aft_pgva;
        s \<leftarrow> lock (PageLk aft_page) s;
        ap \<leftarrow> pg_get aft_page s;
        if buddy_mergeable ap order then do {
          s \<leftarrow> pool_list_del order aft_page s;
          s \<leftarrow> pool_upd order (\<lambda>q. q\<lparr>rest_block_num := rest_block_num q - 1\<rparr>) s;
          s \<leftarrow> pg_upd pgfm (\<lambda>p. p\<lparr>buddy_order := buddy_order p + 1, buddy_flags := PG_BUDDY_FLAG_HEAD\<rparr>) s;
          s \<leftarrow> pg_upd aft_page (\<lambda>p. p\<lparr>buddy_order := MAX_ORDER cfg, buddy_flags := PG_BUDDY_FLAG_BODY\<rparr>) s;
          let s = unlock (PageLk aft_page) s;
          let s = unlock (PageLk pgfm) s;
          let s = unlock (PoolLk order) s;
          Some (True, s) }
        else Some (False, unlock (PageLk aft_page) s) }
      else Some (False, s))"

text \<open>The \<^verbatim>\<open>while (order < MAX_ORDER - 1)\<close> loop; returns the final block head and its order.\<close>

function bkp_free_loop ::
  "pgfm_cfg \<Rightarrow> nat \<Rightarrow> nat \<Rightarrow> 'a mm_scheme \<Rightarrow> (nat \<times> nat \<times> 'a mm_scheme) option" where
  "bkp_free_loop cfg pgfm order s =
     (if Suc order < MAX_ORDER cfg then do {
        s \<leftarrow> lock (PoolLk order) s;
        s \<leftarrow> lock (PageLk pgfm) s;
        pg \<leftarrow> pg_get pgfm s;
        ASSERT (pgtype pg = PAGE_BUDDYALLOCATOR \<and> buddy_order pg = order \<and>
                buddy_flags pg = PG_BUDDY_FLAG_HEAD);
        (bef, s) \<leftarrow> bkp_merge_bef cfg pgfm order s;
        (case bef of
           Some bef_page \<Rightarrow> bkp_free_loop cfg bef_page (Suc order) s
         | None \<Rightarrow> do {
             (merged, s) \<leftarrow> bkp_merge_aft cfg pgfm order s;
             if merged then bkp_free_loop cfg pgfm (Suc order) s
             else Some (pgfm, order, unlock (PoolLk order) (unlock (PageLk pgfm) s)) }) }
      else Some (pgfm, order, s))"
  by pat_completeness auto
termination
  by (relation "measure (\<lambda>(cfg, pgfm, order, s). MAX_ORDER cfg - order)") auto

declare bkp_free_loop.simps [simp del]

definition bkp_free :: "pgfm_cfg \<Rightarrow> nat option \<Rightarrow> 'a mm_scheme \<Rightarrow> 'a mm_scheme option" where
  "bkp_free cfg pgfm s =
     (case pgfm of None \<Rightarrow> Some s
      | Some pgfm \<Rightarrow> do {
          ASSERT (pg_valid cfg pgfm);
          s \<leftarrow> lock (PageLk pgfm) s;
          pg \<leftarrow> pg_get pgfm s;
          ASSERT (pgtype pg = PAGE_BUDDYALLOCATOR \<and> buddy_pgfm_freeable pg \<and>
                  buddy_order pg < MAX_ORDER cfg);
          let order = buddy_order pg;
          let s = unlock (PageLk pgfm) s;
          (pgfm, order, s) \<leftarrow> bkp_free_loop cfg pgfm order s;
          s \<leftarrow> lock (PoolLk order) s;
          s \<leftarrow> lock (PageLk pgfm) s;
          s \<leftarrow> pg_upd pgfm (\<lambda>p. p\<lparr>buddy_flags := buddy_flags p OR PG_BUDDY_FLAG_FREE\<rparr>) s;
          pg \<leftarrow> pg_get pgfm s;
          ASSERT (pgtype pg = PAGE_BUDDYALLOCATOR \<and>
                  buddy_flags pg AND PG_BUDDY_FLAG_FREE \<noteq> 0 \<and>
                  buddy_flags pg AND PG_BUDDY_FLAG_HEAD \<noteq> 0 \<and>
                  buddy_flags pg AND PG_BUDDY_FLAG_BODY = 0 \<and>
                  buddy_flags pg AND PG_BUDDY_FLAG_STATIC = 0);
          s \<leftarrow> pool_list_add_tail order pgfm s;
          s \<leftarrow> pool_upd order (\<lambda>q. q\<lparr>rest_block_num := rest_block_num q + 1\<rparr>) s;
          let s = unlock (PageLk pgfm) s;
          let s = unlock (PoolLk order) s;
          Some s })"

subsection \<open>bkp_alloc\<close>

text \<open>
  Giving back the tail of a split block: \<^verbatim>\<open>for (int i = MAX_ORDER-1; i >= 0; i--)\<close>. The first
  argument is \<open>i + 1\<close>.
\<close>

primrec bkp_alloc_rest ::
  "pgfm_cfg \<Rightarrow> nat \<Rightarrow> nat \<Rightarrow> nat \<Rightarrow> 'a mm_scheme \<Rightarrow> 'a mm_scheme option" where
  "bkp_alloc_rest cfg 0 rest_pgst rest_pgnum s = Some s"
| "bkp_alloc_rest cfg (Suc i) rest_pgst rest_pgnum s =
     (if rest_pgnum = 0 then Some s
      else if bit rest_pgnum i then do {
        s \<leftarrow> lock (PageLk rest_pgst) s;
        pg \<leftarrow> pg_get rest_pgst s;
        ASSERT (buddy_flags pg = PG_BUDDY_FLAG_BODY);
        ASSERT (buddy_order pg = MAX_ORDER cfg);
        s \<leftarrow> pg_upd rest_pgst (\<lambda>p. p\<lparr>buddy_order := i, buddy_flags := PG_BUDDY_FLAG_HEAD\<rparr>) s;
        let s = unlock (PageLk rest_pgst) s;
        s \<leftarrow> bkp_free cfg (Some rest_pgst) s;
        bkp_alloc_rest cfg i (rest_pgst + 2 ^ i) (rest_pgnum - 2 ^ i) s }
      else bkp_alloc_rest cfg i rest_pgst rest_pgnum s)"

text \<open>The search loop over \<open>order\<close>, from \<open>order_orig\<close> up.\<close>

function bkp_alloc_loop ::
  "pgfm_cfg \<Rightarrow> nat \<Rightarrow> nat \<Rightarrow> 'a mm_scheme \<Rightarrow> (nat option \<times> 'a mm_scheme) option" where
  "bkp_alloc_loop cfg order_orig order s =
     (if order < MAX_ORDER cfg then do {
        s \<leftarrow> lock (PoolLk order) s;
        pool \<leftarrow> pool_get order s;
        if rest_block_num pool = 0
        then bkp_alloc_loop cfg order_orig (Suc order) (unlock (PoolLk order) s)
        else do {
          s \<leftarrow> pool_upd order (\<lambda>q. q\<lparr>rest_block_num := rest_block_num q - 1\<rparr>) s;
          page_ptr \<leftarrow> (case pool_list pool of [] \<Rightarrow> None | p # _ \<Rightarrow> Some p);
          s \<leftarrow> lock (PageLk page_ptr) s;
          s \<leftarrow> pool_list_del order page_ptr s;
          pg \<leftarrow> pg_get page_ptr s;
          ASSERT (buddy_flags pg = (PG_BUDDY_FLAG_HEAD OR PG_BUDDY_FLAG_FREE));
          ASSERT (buddy_order pg = order);
          s \<leftarrow> pg_upd page_ptr (\<lambda>p. p\<lparr>buddy_flags := PG_BUDDY_FLAG_HEAD, buddy_order := order_orig\<rparr>) s;
          let s = unlock (PageLk page_ptr) s;
          let s = unlock (PoolLk order) s;
          let rest_pgst = page_ptr + 2 ^ order_orig;
          let rest_pgnum = 2 ^ order - 2 ^ order_orig;
          s \<leftarrow> bkp_alloc_rest cfg (MAX_ORDER cfg) rest_pgst rest_pgnum s;
          Some (Some page_ptr, s) } }
      else Some (None, s))"
  by pat_completeness auto
termination
  by (relation "measure (\<lambda>(cfg, orig, order, s). MAX_ORDER cfg - order)") auto

declare bkp_alloc_loop.simps [simp del]

definition bkp_alloc :: "pgfm_cfg \<Rightarrow> int \<Rightarrow> 'a mm_scheme \<Rightarrow> (nat option \<times> 'a mm_scheme) option" where
  "bkp_alloc cfg order_orig s =
     (if \<not> (order_orig \<ge> 0 \<and> order_orig < int (MAX_ORDER cfg)) then Some (None, s)
      else bkp_alloc_loop cfg (nat order_orig) (nat order_orig) s)"

definition bkp_alloc_zero :: "pgfm_cfg \<Rightarrow> int \<Rightarrow> 'a mm_scheme \<Rightarrow> (nat option \<times> 'a mm_scheme) option" where
  "bkp_alloc_zero cfg order_orig s = do {
     (pgfm, s) \<leftarrow> bkp_alloc cfg order_orig s;
     (case pgfm of
        None \<Rightarrow> Some (None, s)
      | Some p \<Rightarrow> Some (Some p,
          s\<lparr>mem := memset (pg2va cfg p) 0 (push_bit (nat order_orig) 1 * PAGE_SIZE) (mem s)\<rparr>)) }"

text \<open>The same on addresses; a null result is address 0.\<close>

definition bk_alloc :: "pgfm_cfg \<Rightarrow> int \<Rightarrow> 'a mm_scheme \<Rightarrow> (viraddr \<times> 'a mm_scheme) option" where
  "bk_alloc cfg order s = do {
     (pgfm, s) \<leftarrow> bkp_alloc cfg order s;
     (case pgfm of None \<Rightarrow> Some (0, s) | Some p \<Rightarrow> Some (pg2va cfg p, s)) }"

definition bk_alloc_zero :: "pgfm_cfg \<Rightarrow> int \<Rightarrow> 'a mm_scheme \<Rightarrow> (viraddr \<times> 'a mm_scheme) option" where
  "bk_alloc_zero cfg order s = do {
     (ret, s) \<leftarrow> bk_alloc cfg order s;
     if ret \<noteq> 0
     then Some (ret, s\<lparr>mem := memset ret 0 (push_bit (nat order) 1 * PAGE_SIZE) (mem s)\<rparr>)
     else Some (ret, s) }"

definition bk_free :: "pgfm_cfg \<Rightarrow> viraddr \<Rightarrow> 'a mm_scheme \<Rightarrow> 'a mm_scheme option" where
  "bk_free cfg addres s =
     (if addres = 0 \<or> \<not> va_valid cfg addres then Some s
      else do {
        pgfm \<leftarrow> va2pg cfg addres;
        bkp_free cfg (Some pgfm) s })"

subsection \<open>What PGNUM2ORDER computes\<close>

lemma PGNUM2ORDER_loop_done:
  "(\<forall>j. i \<le> j \<and> j < M \<longrightarrow> \<not> bit n j) \<Longrightarrow> PGNUM2ORDER_loop M n i flag r = r"
proof (induction "M - i" arbitrary: i)
  case 0
  then show ?case by (subst PGNUM2ORDER_loop.simps) simp
next
  case (Suc d)
  then have i: "i < M" and d: "d = M - Suc i" by linarith+
  then have "\<not> bit n i" using Suc.prems by simp
  then show ?case using i Suc.hyps(1) [OF d] Suc.prems by (subst PGNUM2ORDER_loop.simps) simp
qed

lemma PGNUM2ORDER_loop_first:
  assumes "\<forall>j. i \<le> j \<and> j < k \<longrightarrow> \<not> bit n j" "bit n k" "i \<le> k" "k < M"
  shows "PGNUM2ORDER_loop M n i flag r =
    (if flag then - 1 else PGNUM2ORDER_loop M n (Suc k) True (int k))"
  using assms
proof (induction "k - i" arbitrary: i)
  case 0
  then have "i = k" by simp
  then show ?case using 0 by (subst PGNUM2ORDER_loop.simps) simp
next
  case (Suc d)
  then have i: "i < k" "i < M" and d: "d = k - Suc i" by linarith+
  then have nb: "\<not> bit n i" using Suc.prems by simp
  have "PGNUM2ORDER_loop M n i flag r = PGNUM2ORDER_loop M n (Suc i) flag r"
    using nb i by (subst PGNUM2ORDER_loop.simps) simp
  also have "\<dots> = (if flag then - 1 else PGNUM2ORDER_loop M n (Suc k) True (int k))"
    by (rule Suc.hyps(1) [OF d]) (use Suc.prems i in auto)
  finally show ?case .
qed

lemma low_bits_eq_0: "(\<forall>j < k. \<not> bit n j) \<Longrightarrow> take_bit k (n::nat) = 0"
  by (rule bit_eqI) (auto simp: bit_simps)

lemma first_bit:
  assumes "bit (n::nat) j" "i \<le> j"
  obtains k where "i \<le> k" "k \<le> j" "bit n k" "\<forall>l. i \<le> l \<and> l < k \<longrightarrow> \<not> bit n l"
proof -
  let ?P = "\<lambda>k. i \<le> k \<and> bit n k" and ?k = "LEAST k. i \<le> k \<and> bit n k"
  have "?P ?k" by (rule LeastI [of ?P j]) (use assms in simp)
  moreover have "?k \<le> j" by (rule Least_le) (use assms in simp)
  ultimately show thesis using that not_less_Least [of _ ?P] by blast
qed

text \<open>
  For every page count below the largest block, \<^verbatim>\<open>PGNUM2ORDER\<close> gives \<open>k\<close> for the power
  of two \<open>2 ^ k\<close> and the error value -1 for everything else, zero and negative counts included.
\<close>

theorem PGNUM2ORDER_correct:
  assumes "pgnum < 2 ^ MAX_ORDER cfg"
  shows "PGNUM2ORDER cfg pgnum = (if \<exists>k. pgnum = 2 ^ k then int (THE k. pgnum = 2 ^ k) else - 1)"
proof (cases "0 < pgnum")
  case False
  then have "\<not> (\<exists>k. pgnum = 2 ^ k)" using zero_less_power [of "2::int"] by fastforce
  then show ?thesis using False by (simp add: PGNUM2ORDER_def)
next
  case True
  define n where "n = nat pgnum"
  have n: "0 < n" "n < 2 ^ MAX_ORDER cfg" "pgnum = int n"
    using True assms by (simp_all add: n_def nat_less_iff)
  have "take_bit (MAX_ORDER cfg) n = n" using n(2) by (rule take_bit_nat_eq_self)
  then obtain j where "j < MAX_ORDER cfg" "bit n j" using low_bits_eq_0 [of "MAX_ORDER cfg" n] n(1) by auto
  then obtain k where k: "k < MAX_ORDER cfg" "bit n k" "\<forall>l < k. \<not> bit n l"
    using first_bit [of n j 0] by (metis le0 le_less_trans)
  let ?rest = "PGNUM2ORDER_loop (MAX_ORDER cfg) n (Suc k) True (int k)"
  have eq: "PGNUM2ORDER cfg pgnum = ?rest"
    using PGNUM2ORDER_loop_first [of 0 k n "MAX_ORDER cfg" False 0] k True by (simp add: PGNUM2ORDER_def n_def)
  show ?thesis
  proof (cases "\<exists>l. Suc k \<le> l \<and> l < MAX_ORDER cfg \<and> bit n l")
    case True
    then obtain l' where l': "Suc k \<le> l'" "l' < MAX_ORDER cfg" "bit n l'" by blast
    obtain l where l: "Suc k \<le> l" "l \<le> l'" "bit n l" "\<forall>m. Suc k \<le> m \<and> m < l \<longrightarrow> \<not> bit n m"
      using first_bit [OF l'(3,1)] by blast
    have "?rest = - 1" using PGNUM2ORDER_loop_first [OF l(4,3,1), of "MAX_ORDER cfg" True "int k"] l(2) l'(2) by simp
    moreover have "pgnum \<noteq> 2 ^ m" for m
    proof
      assume "pgnum = 2 ^ m"
      then have "n = 2 ^ m" using n(3) by (metis of_nat_eq_iff of_nat_numeral of_nat_power)
      then have "k = m" "l = m" using k(2) l(3) by (auto simp: bit_exp_iff)
      then show False using l(1) by simp
    qed
    ultimately show ?thesis using eq by simp
  next
    case False
    then have "?rest = int k" using PGNUM2ORDER_loop_done by blast
    moreover have "n = 2 ^ k"
    proof (rule bit_eqI)
      fix m show "bit n m \<longleftrightarrow> bit (2 ^ k :: nat) m"
      proof (cases "m < MAX_ORDER cfg")
        case True
        then show ?thesis using k False by (cases m k rule: linorder_cases) (auto simp: bit_exp_iff Suc_le_eq)
      next
        case ge: False
        then have "n < 2 ^ m" using n(2) by (meson less_le_trans not_le pow2_mono_nat)
        then show ?thesis using ge k(1) by (simp add: bit_iff_odd bit_exp_iff)
      qed
    qed
    then have "pgnum = 2 ^ k" using n(3) by simp
    ultimately show ?thesis using eq by auto
  qed
qed

theorem PGNUM2ORDER_correct_witness:
  "PGNUM2ORDER \<lparr>PGFRAME_PA_START = 0, PGFRAME_VA_START = 0, PGFRAME_SIZE = 0x1000, MAX_ORDER = 6\<rparr> 16 = 4"
proof -
  have "(2::int) ^ k = 16 \<longleftrightarrow> k = 4" for k
    using power_inject_exp [of "2::int" k 4] by simp
  then have "(THE k. (16::int) = 2 ^ k) = 4" "\<exists>k. (16::int) = 2 ^ k" by (auto intro: the_equality)
  then show ?thesis
    using PGNUM2ORDER_correct [of 16 "\<lparr>PGFRAME_PA_START = 0, PGFRAME_VA_START = 0, PGFRAME_SIZE = 0x1000, MAX_ORDER = 6\<rparr>"]
    by simp
qed

text \<open>
  Above that range the check in the source is not complete: a page count whose bits below
  \<^verbatim>\<open>MAX_ORDER\<close> are all zero, such as \<open>2 ^ MAX_ORDER\<close>, gets order 0 instead of -1.
\<close>

theorem PGNUM2ORDER_large:
  "PGNUM2ORDER cfg (2 ^ (MAX_ORDER cfg + j)) = 0"
proof -
  have "PGNUM2ORDER_loop (MAX_ORDER cfg) (2 ^ (MAX_ORDER cfg + j)) 0 False 0 = 0"
    by (rule PGNUM2ORDER_loop_done) (simp add: bit_exp_iff)
  then show ?thesis by (simp add: PGNUM2ORDER_def nat_power_eq)
qed

end
