(* ===== verification/BuddyInv.thy ===== *)
theory BuddyInv
  imports Buddy
begin

unbundle bit_operations_syntax

text \<open>
  The invariant of the buddy allocator and its preservation. The pages are tiled by blocks: a
  head page of order \<open>k\<close> is followed by \<open>2 ^ k - 1\<close> body pages, every body page lies in exactly
  one block, and the free list of order \<open>k\<close> holds exactly the heads of the free blocks of that
  order. While \<^verbatim>\<open>bkp_alloc\<close> splits a block, the pages it has not given back yet are bodies
  without a head; the invariant is stated relative to that set \<open>X\<close> of orphans.
\<close>

subsection \<open>The invariant\<close>

definition is_head :: "page \<Rightarrow> bool" where
  "is_head pg \<longleftrightarrow> buddy_pgfm_freeable pg \<or> buddy_pgfm_infrlist pg"

definition is_body :: "page \<Rightarrow> bool" where
  "is_body pg \<longleftrightarrow> buddy_flags pg = PG_BUDDY_FLAG_BODY"

definition is_static :: "page \<Rightarrow> bool" where
  "is_static pg \<longleftrightarrow> buddy_flags pg = PG_BUDDY_FLAG_STATIC"

lemmas page_kind_defs = is_head_def is_body_def is_static_def buddy_pgfm_freeable_def
  buddy_pgfm_infrlist_def pg_flag_defs

text \<open>The first page after the block at \<open>i\<close>.\<close>

definition blk_end :: "page list \<Rightarrow> nat \<Rightarrow> nat" where
  "blk_end ps i = i + 2 ^ buddy_order (ps ! i)"

definition flags_ok :: "page list \<Rightarrow> bool" where
  "flags_ok ps \<longleftrightarrow> (\<forall>i < length ps. is_head (ps ! i) \<or> is_body (ps ! i) \<or> is_static (ps ! i))"

definition heads_ok :: "nat \<Rightarrow> page list \<Rightarrow> bool" where
  "heads_ok M ps \<longleftrightarrow> (\<forall>i < length ps. is_head (ps ! i) \<longrightarrow>
     buddy_order (ps ! i) < M \<and> blk_end ps i \<le> length ps \<and>
     (\<forall>j. i < j \<and> j < blk_end ps i \<longrightarrow> is_body (ps ! j)))"

definition bodies_ok :: "nat \<Rightarrow> nat set \<Rightarrow> page list \<Rightarrow> bool" where
  "bodies_ok M X ps \<longleftrightarrow> (\<forall>j < length ps. is_body (ps ! j) \<longrightarrow>
     buddy_order (ps ! j) = M \<and>
     (j \<notin> X \<longrightarrow> (\<exists>i < j. is_head (ps ! i) \<and> j < blk_end ps i)))"

definition orphans_ok :: "nat set \<Rightarrow> page list \<Rightarrow> bool" where
  "orphans_ok X ps \<longleftrightarrow> (\<forall>j \<in> X. j < length ps \<and> is_body (ps ! j) \<and>
     (\<forall>i < j. is_head (ps ! i) \<longrightarrow> blk_end ps i \<le> j))"

definition types_ok :: "page list \<Rightarrow> bool" where
  "types_ok ps \<longleftrightarrow> (\<forall>i < length ps. pgtype (ps ! i) \<noteq> PAGE_BUDDYALLOCATOR \<longrightarrow>
     buddy_pgfm_freeable (ps ! i))"

definition pages_inv :: "nat \<Rightarrow> nat set \<Rightarrow> page list \<Rightarrow> bool" where
  "pages_inv M X ps \<longleftrightarrow> flags_ok ps \<and> heads_ok M ps \<and> bodies_ok M X ps \<and> orphans_ok X ps \<and> types_ok ps"

text \<open>The free blocks and the blocks in use, as (head page, order) pairs.\<close>

definition free_heads :: "page list \<Rightarrow> (nat \<times> nat) set" where
  "free_heads ps = {(i, k). i < length ps \<and> buddy_pgfm_infrlist (ps ! i) \<and> buddy_order (ps ! i) = k}"

definition used_heads :: "page list \<Rightarrow> (nat \<times> nat) set" where
  "used_heads ps = {(i, k). i < length ps \<and> buddy_pgfm_freeable (ps ! i) \<and> buddy_order (ps ! i) = k}"

definition pool_inv :: "page list \<Rightarrow> nat \<Rightarrow> mempool \<Rightarrow> bool" where
  "pool_inv ps order pool \<longleftrightarrow>
     distinct (pool_list pool) \<and>
     set (pool_list pool) = {i. (i, order) \<in> free_heads ps} \<and>
     rest_block_num pool = int (length (pool_list pool)) \<and>
     block_size pool = 2 ^ order * 4096"

definition pools_inv :: "nat \<Rightarrow> page list \<Rightarrow> mempool list \<Rightarrow> bool" where
  "pools_inv M ps pools \<longleftrightarrow>
     length pools = M \<and> (\<forall>order < M. pool_inv ps order (pools ! order))"

definition buddy_inv :: "pgfm_cfg \<Rightarrow> nat set \<Rightarrow> 'a mm_scheme \<Rightarrow> bool" where
  "buddy_inv cfg X s \<longleftrightarrow>
     length (pgframe_pages s) = PGFRAME_PAGE_NUMS cfg \<and>
     pages_inv (MAX_ORDER cfg) X (pgframe_pages s) \<and>
     pools_inv (MAX_ORDER cfg) (pgframe_pages s) (order_pools s)"

text \<open>The pages of the free blocks.\<close>

definition free_set :: "page list \<Rightarrow> nat set" where
  "free_set ps = (\<Union>(i, k) \<in> free_heads ps. {i..<i + 2 ^ k})"

definition free_pages :: "'a pgfm_scheme \<Rightarrow> nat set" where
  "free_pages s = free_set (pgframe_pages s)"

lemma kind_head [simp]:
  "buddy_pgfm_freeable pg \<Longrightarrow> is_head pg" "buddy_pgfm_infrlist pg \<Longrightarrow> is_head pg"
  by (auto simp: is_head_def)

lemma kinds_exclusive [dest]:
  "is_head pg \<Longrightarrow> is_body pg \<Longrightarrow> False"
  "is_static pg \<Longrightarrow> is_head pg \<Longrightarrow> False"
  "is_static pg \<Longrightarrow> is_body pg \<Longrightarrow> False"
  "buddy_pgfm_freeable pg \<Longrightarrow> buddy_pgfm_infrlist pg \<Longrightarrow> False"
  by (auto simp: page_kind_defs)

lemma kinds_upd_not [simp]:
  "\<not> is_body (pg\<lparr>buddy_order := k, buddy_flags := PG_BUDDY_FLAG_HEAD\<rparr>)"
  "\<not> is_head (pg\<lparr>buddy_order := k, buddy_flags := PG_BUDDY_FLAG_BODY\<rparr>)"
  "\<not> buddy_pgfm_infrlist (pg\<lparr>buddy_order := k, buddy_flags := PG_BUDDY_FLAG_HEAD\<rparr>)"
  "\<not> buddy_pgfm_infrlist (pg\<lparr>buddy_order := k, buddy_flags := PG_BUDDY_FLAG_BODY\<rparr>)"
  by (simp_all add: page_kind_defs)

lemma kinds_upd [simp]:
  "is_head (pg\<lparr>buddy_order := k, buddy_flags := PG_BUDDY_FLAG_HEAD\<rparr>)"
  "buddy_pgfm_freeable (pg\<lparr>buddy_order := k, buddy_flags := PG_BUDDY_FLAG_HEAD\<rparr>)"
  "is_body (pg\<lparr>buddy_order := k, buddy_flags := PG_BUDDY_FLAG_BODY\<rparr>)"
  "buddy_pgfm_infrlist (pg\<lparr>buddy_flags := PG_BUDDY_FLAG_HEAD OR PG_BUDDY_FLAG_FREE\<rparr>)"
  by (simp_all add: page_kind_defs)

lemma pages_invD:
  assumes "pages_inv M X ps"
  shows "flags_ok ps" "heads_ok M ps" "bodies_ok M X ps" "orphans_ok X ps" "types_ok ps"
  using assms by (auto simp: pages_inv_def)

lemma heads_okD:
  assumes "heads_ok M ps" "i < length ps" "is_head (ps ! i)"
  shows "buddy_order (ps ! i) < M" "blk_end ps i \<le> length ps"
    "\<And>j. i < j \<Longrightarrow> j < blk_end ps i \<Longrightarrow> is_body (ps ! j)"
  using assms by (auto simp: heads_ok_def)

lemma blk_end_gt [simp]: "i < blk_end ps i"
  by (simp add: blk_end_def)

text \<open>Two blocks do not overlap.\<close>

lemma blocks_apart:
  assumes "heads_ok M ps" "i < length ps" "is_head (ps ! i)" "j < length ps" "is_head (ps ! j)" "i < j"
  shows "blk_end ps i \<le> j"
  using heads_okD(3) [OF assms(1-3), of j] assms(5,6) by (meson kinds_exclusive(1) not_le)

subsection \<open>Merging two blocks of the same order\<close>

definition merge_pages :: "nat \<Rightarrow> nat \<Rightarrow> nat \<Rightarrow> page list \<Rightarrow> page list" where
  "merge_pages M lo hi ps =
     ps[hi := (ps ! hi)\<lparr>buddy_order := M, buddy_flags := PG_BUDDY_FLAG_BODY\<rparr>,
        lo := (ps ! lo)\<lparr>buddy_order := buddy_order (ps ! lo) + 1, buddy_flags := PG_BUDDY_FLAG_HEAD\<rparr>]"

lemma length_merge_pages [simp]: "length (merge_pages M lo hi ps) = length ps"
  by (simp add: merge_pages_def)

lemma merge_pages_nth:
  assumes "lo < length ps" "hi < length ps" "lo \<noteq> hi"
  shows "merge_pages M lo hi ps ! lo =
      (ps ! lo)\<lparr>buddy_order := buddy_order (ps ! lo) + 1, buddy_flags := PG_BUDDY_FLAG_HEAD\<rparr>"
    and "merge_pages M lo hi ps ! hi = (ps ! hi)\<lparr>buddy_order := M, buddy_flags := PG_BUDDY_FLAG_BODY\<rparr>"
    and "j \<noteq> lo \<Longrightarrow> j \<noteq> hi \<Longrightarrow> merge_pages M lo hi ps ! j = ps ! j"
  using assms by (auto simp: merge_pages_def)

lemma merge_pages_inv:
  assumes inv: "pages_inv M X ps"
    and lo: "lo < length ps" "is_head (ps ! lo)" "buddy_order (ps ! lo) = k"
    and hi: "hi < length ps" "is_head (ps ! hi)" "buddy_order (ps ! hi) = k"
    and adj: "hi = lo + 2 ^ k" and k: "Suc k < M"
    and ty: "pgtype (ps ! lo) = PAGE_BUDDYALLOCATOR" "pgtype (ps ! hi) = PAGE_BUDDYALLOCATOR"
  shows "pages_inv M X (merge_pages M lo hi ps)"
proof -
  let ?qs = "merge_pages M lo hi ps"
  have ne: "lo \<noteq> hi" and lh: "lo < hi" using adj by auto
  note nth = merge_pages_nth [OF lo(1) hi(1) ne]
  note I = pages_invD [OF inv]
  have e1: "blk_end ps lo = hi" and e2: "blk_end ps hi = hi + 2 ^ k"
    using lo hi adj by (simp_all add: blk_end_def)
  have e3: "blk_end ?qs lo = hi + 2 ^ k"
    using lo(3) adj unfolding blk_end_def nth(1) by simp
  have e4: "blk_end ?qs j = blk_end ps j" if "j \<noteq> lo" "j \<noteq> hi" for j
    using that by (simp add: blk_end_def nth)
  have Xlo: "lo \<notin> X" "hi \<notin> X"
    using I(4) lo hi by (auto simp: orphans_ok_def)
  have H: "is_head (?qs ! j) \<longleftrightarrow> is_head (ps ! j) \<and> j \<noteq> hi" if "j < length ps" for j
    using that lo hi ne nth by (cases "j = lo"; cases "j = hi") auto
  have B: "is_body (?qs ! j) \<longleftrightarrow> is_body (ps ! j) \<or> j = hi" if "j < length ps" for j
    using that lo hi ne nth by (cases "j = lo"; cases "j = hi") auto
  have "flags_ok ?qs"
    unfolding flags_ok_def
  proof (intro allI impI)
    fix i assume i: "i < length ?qs"
    then show "is_head (?qs ! i) \<or> is_body (?qs ! i) \<or> is_static (?qs ! i)"
      using I(1) nth lo hi unfolding flags_ok_def by (cases "i = lo"; cases "i = hi") auto
  qed
  moreover have "heads_ok M ?qs"
    unfolding heads_ok_def length_merge_pages
  proof (intro allI impI)
    fix i assume i: "i < length ps" and hd: "is_head (?qs ! i)"
    show "buddy_order (?qs ! i) < M \<and> blk_end ?qs i \<le> length ps \<and>
        (\<forall>j. i < j \<and> j < blk_end ?qs i \<longrightarrow> is_body (?qs ! j))"
    proof (cases "i = lo")
      case True
      have "is_body (?qs ! j)" if "lo < j" "j < hi + 2 ^ k" for j
      proof -
        have "j < length ps" using that heads_okD(2) [OF I(2) hi(1,2)] e2 by linarith
        moreover have "is_body (ps ! j) \<or> j = hi"
          using that heads_okD(3) [OF I(2) hi(1,2), of j] heads_okD(3) [OF I(2) lo(1,2), of j] e1 e2
          by linarith
        ultimately show ?thesis using B by blast
      qed
      then show ?thesis
        using True heads_okD(2) [OF I(2) hi(1,2)] k lo e2 e3 nth(1) by simp
    next
      case False
      then have i': "is_head (ps ! i)" "i \<noteq> hi" using H [OF i] hd by auto
      note h = heads_okD [OF I(2) i i'(1)]
      have "is_body (?qs ! j)" if "i < j" "j < blk_end ps i" for j
        using h(2) h(3) [OF that] that B by (meson less_le_trans)
      then show ?thesis
        using False i' h e4 nth(3) by simp
    qed
  qed
  moreover have "bodies_ok M X ?qs"
    unfolding bodies_ok_def length_merge_pages
  proof (intro allI impI)
    fix j assume j: "j < length ps" and bd: "is_body (?qs ! j)"
    have lo': "is_head (?qs ! lo)" using H [OF lo(1)] lo ne by simp
    show "buddy_order (?qs ! j) = M \<and>
        (j \<notin> X \<longrightarrow> (\<exists>i<j. is_head (?qs ! i) \<and> j < blk_end ?qs i))"
    proof (cases "j = hi")
      case True
      have "buddy_order (?qs ! hi) = M" unfolding nth(2) by simp
      moreover have "hi < blk_end ?qs lo" unfolding e3 by simp
      ultimately show ?thesis using lo' lh True by blast
    next
      case False
      then have b: "is_body (ps ! j)" using B [OF j] bd by simp
      then have "j \<noteq> lo" using lo(2) kinds_exclusive(1) by metis
      have "\<exists>i<j. is_head (?qs ! i) \<and> j < blk_end ?qs i" if jX: "j \<notin> X"
      proof -
        obtain i where i: "i < j" "is_head (ps ! i)" "j < blk_end ps i"
          using I(3) [unfolded bodies_ok_def, rule_format, OF j b] jX by blast
        consider "i = lo" | "i = hi" | "i \<noteq> lo" "i \<noteq> hi" by blast
        then show ?thesis
        proof cases
          case 1
          then have "j < blk_end ?qs lo" using i e1 e3 by simp
          then show ?thesis using 1 i lo' by blast
        next
          case 2
          then have "j < blk_end ?qs lo" "lo < j" using i e2 e3 lh by simp_all
          then show ?thesis using lo' by blast
        next
          case 3
          then have "is_head (?qs ! i)" "j < blk_end ?qs i" using i j H e4 by simp_all
          then show ?thesis using i by blast
        qed
      qed
      moreover have "buddy_order (ps ! j) = M"
        using I(3) [unfolded bodies_ok_def, rule_format, OF j b] by simp
      ultimately show ?thesis using False \<open>j \<noteq> lo\<close> nth(3) by simp
    qed
  qed
  moreover have "orphans_ok X ?qs"
    unfolding orphans_ok_def length_merge_pages
  proof (intro ballI conjI allI impI)
    fix j assume j: "j \<in> X"
    then have o: "j < length ps" "is_body (ps ! j)"
      "\<And>i. i < j \<Longrightarrow> is_head (ps ! i) \<Longrightarrow> blk_end ps i \<le> j"
      using I(4) by (auto simp: orphans_ok_def)
    show "j < length ps" by (rule o(1))
    show "is_body (?qs ! j)" using B o by blast
    fix i assume i: "i < j" "is_head (?qs ! i)"
    then have i': "is_head (ps ! i)" "i \<noteq> hi" using H [of i] o(1) by auto
    show "blk_end ?qs i \<le> j"
    proof (cases "i = lo")
      case True
      then have "hi \<le> j" using o(3) [of lo] i i' e1 by simp
      then have "hi < j" using Xlo j by (metis le_neq_implies_less)
      then show ?thesis using o(3) [of hi] hi e2 e3 True by simp
    next
      case False
      then show ?thesis using o(3) [OF i(1) i'(1)] e4 i' by simp
    qed
  qed
  moreover have "types_ok ?qs"
    unfolding types_ok_def length_merge_pages
  proof (intro allI impI)
    fix i assume "i < length ps" "pgtype (?qs ! i) \<noteq> PAGE_BUDDYALLOCATOR"
    then show "buddy_pgfm_freeable (?qs ! i)"
      using I(5) ty nth unfolding types_ok_def by (cases "i = lo"; cases "i = hi") auto
  qed
  ultimately show ?thesis by (simp add: pages_inv_def)
qed

subsection \<open>Changing one head page\<close>

text \<open>
  A head page is relabelled (marked free or used, given another owner) and possibly shrunk;
  the pages cut off become orphans.
\<close>

lemma flags_ok_head: "flags_ok ps \<Longrightarrow> is_head pg \<Longrightarrow> flags_ok (ps[i := pg])"
  unfolding flags_ok_def length_list_update by (metis nth_list_update_eq nth_list_update_neq)

lemma shrink_pages_inv:
  assumes inv: "pages_inv M X ps"
    and i: "i < length ps" "is_head (ps ! i)"
    and pg: "is_head pg" "buddy_order pg \<le> buddy_order (ps ! i)"
      "pgtype pg \<noteq> PAGE_BUDDYALLOCATOR \<longrightarrow> buddy_pgfm_freeable pg"
  shows "pages_inv M (X \<union> {i + 2 ^ buddy_order pg..<blk_end ps i}) (ps[i := pg])"
proof -
  let ?qs = "ps[i := pg]" and ?Y = "X \<union> {i + 2 ^ buddy_order pg..<blk_end ps i}"
  note I = pages_invD [OF inv]
  note hi = heads_okD [OF I(2) i]
  have nth: "?qs ! i = pg" "\<And>j. j \<noteq> i \<Longrightarrow> ?qs ! j = ps ! j"
    using i by auto
  have ei: "blk_end ?qs i = i + 2 ^ buddy_order pg" unfolding blk_end_def nth(1) by simp
  have ele: "blk_end ?qs i \<le> blk_end ps i"
    using pow2_mono_nat [OF pg(2)] ei by (simp add: blk_end_def [of ps i])
  have ej: "\<And>j. j \<noteq> i \<Longrightarrow> blk_end ?qs j = blk_end ps j" unfolding blk_end_def by (simp add: nth(2))
  have H: "\<And>j. is_head (?qs ! j) \<longleftrightarrow> is_head (ps ! j)" using nth i pg(1) by metis
  have B: "\<And>j. is_body (?qs ! j) \<longleftrightarrow> is_body (ps ! j)" using nth i pg(1) kinds_exclusive(1) by metis
  have "flags_ok ?qs" using I(1) pg(1) by (rule flags_ok_head)
  moreover have "heads_ok M ?qs"
    unfolding heads_ok_def length_list_update
  proof (intro allI impI)
    fix j assume j: "j < length ps" and "is_head (?qs ! j)"
    then have hj: "is_head (ps ! j)" using H by blast
    note h = heads_okD [OF I(2) j hj]
    show "buddy_order (?qs ! j) < M \<and> blk_end ?qs j \<le> length ps \<and>
        (\<forall>l. j < l \<and> l < blk_end ?qs j \<longrightarrow> is_body (?qs ! l))"
    proof (cases "j = i")
      case True
      have "\<And>l. i < l \<Longrightarrow> l < blk_end ?qs i \<Longrightarrow> is_body (?qs ! l)"
        using hi(3) ele B by (meson less_le_trans)
      then show ?thesis using True h hi ele pg(2) nth(1) by auto
    next
      case False
      then show ?thesis using h ej nth(2) B by auto
    qed
  qed
  moreover have "bodies_ok M ?Y ?qs"
    unfolding bodies_ok_def length_list_update
  proof (intro allI impI)
    fix j assume j: "j < length ps" and "is_body (?qs ! j)"
    then have b: "is_body (ps ! j)" using B by blast
    then have ji: "j \<noteq> i" using i(2) kinds_exclusive(1) by metis
    note bj = I(3) [unfolded bodies_ok_def, rule_format, OF j b]
    have "\<exists>l<j. is_head (?qs ! l) \<and> j < blk_end ?qs l" if jY: "j \<notin> ?Y"
    proof -
      obtain l where l: "l < j" "is_head (ps ! l)" "j < blk_end ps l"
        using bj jY by blast
      have "j < blk_end ?qs l"
        using l jY ej ei by (cases "l = i") (simp_all add: not_le)
      then show ?thesis using l H by blast
    qed
    then show "buddy_order (?qs ! j) = M \<and> (j \<notin> ?Y \<longrightarrow> (\<exists>l<j. is_head (?qs ! l) \<and> j < blk_end ?qs l))"
      using bj nth(2) [OF ji] by simp
  qed
  moreover have "orphans_ok ?Y ?qs"
    unfolding orphans_ok_def length_list_update
  proof (intro ballI conjI allI impI)
    fix j assume j: "j \<in> ?Y"
    have o: "j < length ps \<and> is_body (ps ! j) \<and> (\<forall>l<j. is_head (?qs ! l) \<longrightarrow> blk_end ?qs l \<le> j)"
    proof (cases "j \<in> X")
      case True
      note o = I(4) [unfolded orphans_ok_def, rule_format, OF True]
      have "blk_end ?qs l \<le> j" if "l < j" "is_head (?qs ! l)" for l
        using o that H ej ele by (metis le_trans)
      then show ?thesis using o by blast
    next
      case False
      then have j': "i + 2 ^ buddy_order pg \<le> j" "j < blk_end ps i" using j by auto
      then have ij: "i < j" by (metis add_lessD1 le_neq_implies_less less_add_same_cancel1 two_power_pos_nat less_le_trans)
      have "blk_end ?qs l \<le> j" if l: "l < j" "is_head (?qs ! l)" for l
      proof -
        have "l \<le> i"
          using hi(3) [of l] l j' H kinds_exclusive(1) by (meson less_trans not_le)
        then show ?thesis
          using j'(1) ei ej [of l] blocks_apart [OF I(2) _ _ i, of l] l H i ij
          by (cases "l = i") auto
      qed
      then show ?thesis using hi(2,3) j' ij by auto
    qed
    then show "j < length ps" "is_body (?qs ! j)" using B by blast+
    fix l assume "l < j" "is_head (?qs ! l)"
    then show "blk_end ?qs l \<le> j" using o by blast
  qed
  moreover have "types_ok ?qs"
    using I(5) nth pg(3) unfolding types_ok_def length_list_update by metis
  ultimately show ?thesis by (simp add: pages_inv_def)
qed

text \<open>An orphan and the orphans behind it become a block.\<close>

lemma adopt_pages_inv:
  assumes inv: "pages_inv M X ps"
    and sub: "{st..<st + 2 ^ k} \<subseteq> X" and k: "k < M"
    and pg: "is_head pg" "buddy_order pg = k" "pgtype pg = pgtype (ps ! st)"
  shows "pages_inv M (X - {st..<st + 2 ^ k}) (ps[st := pg])"
proof -
  let ?qs = "ps[st := pg]" and ?Y = "X - {st..<st + 2 ^ k}"
  note I = pages_invD [OF inv]
  have O: "\<And>j. j \<in> X \<Longrightarrow> j < length ps" "\<And>j. j \<in> X \<Longrightarrow> is_body (ps ! j)"
    "\<And>j l. j \<in> X \<Longrightarrow> l < j \<Longrightarrow> is_head (ps ! l) \<Longrightarrow> blk_end ps l \<le> j"
    using I(4) by (auto simp: orphans_ok_def)
  have stX: "st \<in> X" using subsetD [OF sub, of st] by simp
  note st = O(1) [OF stX] O(2) [OF stX] O(3) [OF stX]
  have nth: "?qs ! st = pg" "\<And>j. j \<noteq> st \<Longrightarrow> ?qs ! j = ps ! j"
    using st by auto
  have es: "blk_end ?qs st = st + 2 ^ k" unfolding blk_end_def nth(1) pg(2) by simp
  have ej: "\<And>j. j \<noteq> st \<Longrightarrow> blk_end ?qs j = blk_end ps j" unfolding blk_end_def by (simp add: nth(2))
  have H: "\<And>j. is_head (?qs ! j) \<longleftrightarrow> is_head (ps ! j) \<or> j = st" using nth st pg(1) by metis
  have B: "\<And>j. is_body (?qs ! j) \<longleftrightarrow> is_body (ps ! j) \<and> j \<noteq> st" using nth pg(1) kinds_exclusive(1) by metis
  have "flags_ok ?qs" using I(1) pg(1) by (rule flags_ok_head)
  moreover have "heads_ok M ?qs"
    unfolding heads_ok_def length_list_update
  proof (intro allI impI)
    fix j assume j: "j < length ps" and hj: "is_head (?qs ! j)"
    show "buddy_order (?qs ! j) < M \<and> blk_end ?qs j \<le> length ps \<and>
        (\<forall>l. j < l \<and> l < blk_end ?qs j \<longrightarrow> is_body (?qs ! l))"
    proof (cases "j = st")
      case True
      have "st + 2 ^ k - 1 \<in> {st..<st + 2 ^ k}"
        unfolding atLeastLessThan_iff using two_power_pos_nat [of k] by linarith
      then have "st + 2 ^ k - 1 < length ps" using O(1) subsetD [OF sub] by blast
      then have "st + 2 ^ k \<le> length ps" by linarith
      moreover have "\<And>l. st < l \<Longrightarrow> l < st + 2 ^ k \<Longrightarrow> is_body (?qs ! l)"
        using subsetD [OF sub] O(2) B by simp
      ultimately show ?thesis using True es k nth(1) pg(2) by auto
    next
      case False
      then have h': "is_head (ps ! j)" using H hj by blast
      note h = heads_okD [OF I(2) j h']
      have "l \<noteq> st" if "j < l" "l < blk_end ps j" for l
        using that st(3) [OF _ h'] by auto
      then show ?thesis using False h ej nth(2) B by auto
    qed
  qed
  moreover have "bodies_ok M ?Y ?qs"
    unfolding bodies_ok_def length_list_update
  proof (intro allI impI)
    fix j assume j: "j < length ps" and "is_body (?qs ! j)"
    then have b: "is_body (ps ! j)" "j \<noteq> st" using B by blast+
    note bj = I(3) [unfolded bodies_ok_def, rule_format, OF j b(1)]
    have "\<exists>l<j. is_head (?qs ! l) \<and> j < blk_end ?qs l" if jY: "j \<notin> ?Y"
    proof (cases "j \<in> {st..<st + 2 ^ k}")
      case True
      then show ?thesis using es H b(2) by (intro exI [of _ st]) auto
    next
      case False
      then obtain l where l: "l < j" "is_head (ps ! l)" "j < blk_end ps l"
        using bj jY by blast
      then have "l \<noteq> st" using st(2) kinds_exclusive(1) by metis
      then show ?thesis using l H ej by auto
    qed
    then show "buddy_order (?qs ! j) = M \<and> (j \<notin> ?Y \<longrightarrow> (\<exists>l<j. is_head (?qs ! l) \<and> j < blk_end ?qs l))"
      using bj nth(2) [OF b(2)] by simp
  qed
  moreover have "orphans_ok ?Y ?qs"
    unfolding orphans_ok_def length_list_update
  proof (intro ballI conjI allI impI)
    fix j assume j: "j \<in> ?Y"
    then show "j < length ps" "is_body (?qs ! j)" using O B stX by auto
    fix l assume l: "l < j" "is_head (?qs ! l)"
    show "blk_end ?qs l \<le> j"
    proof (cases "l = st")
      case True
      then show ?thesis using es j l by auto
    next
      case False
      then show ?thesis using O(3) [of j l] j l H ej by auto
    qed
  qed
  moreover have "types_ok ?qs"
  proof -
    have "pgtype (ps ! st) = PAGE_BUDDYALLOCATOR"
      using I(5) st kinds_exclusive(1) kind_head(1) unfolding types_ok_def by metis
    then show ?thesis
      using I(5) nth pg(3) unfolding types_ok_def length_list_update by metis
  qed
  ultimately show ?thesis by (simp add: pages_inv_def)
qed

end
