(* ===== verification/BuddyFree.thy ===== *)
theory BuddyFree
  imports BuddyInv
begin

unbundle bit_operations_syntax

text \<open>
  \<^verbatim>\<open>bkp_free\<close> meets its contract: under the invariant it returns (no assertion fails, no
  lock is taken twice, no list node is unlinked that is not on the list), gives back exactly the
  pages of the block, and leaves every other block in use, every lock and all memory alone.
\<close>

subsection \<open>Free and used blocks under page updates\<close>

lemma free_heads_upd:
  "i < length ps \<Longrightarrow> free_heads (ps[i := pg]) =
     {x \<in> free_heads ps. fst x \<noteq> i} \<union> (if buddy_pgfm_infrlist pg then {(i, buddy_order pg)} else {})"
  by (auto simp: free_heads_def nth_list_update split: if_splits)

lemma used_heads_upd:
  "i < length ps \<Longrightarrow> used_heads (ps[i := pg]) =
     {x \<in> used_heads ps. fst x \<noteq> i} \<union> (if buddy_pgfm_freeable pg then {(i, buddy_order pg)} else {})"
  by (auto simp: used_heads_def nth_list_update split: if_splits)

lemma headsD:
  "(i, k) \<in> free_heads ps \<Longrightarrow> i < length ps \<and> buddy_pgfm_infrlist (ps ! i) \<and> buddy_order (ps ! i) = k"
  "(i, k) \<in> used_heads ps \<Longrightarrow> i < length ps \<and> buddy_pgfm_freeable (ps ! i) \<and> buddy_order (ps ! i) = k"
  by (auto simp: free_heads_def used_heads_def)

lemma free_used_disjoint: "(i, k) \<in> used_heads ps \<Longrightarrow> (i, l) \<notin> free_heads ps"
  by (auto simp: free_heads_def used_heads_def)

lemma headsD_is_head:
  assumes "(i, k) \<in> free_heads ps \<union> used_heads ps"
  shows "i < length ps" "is_head (ps ! i)" "buddy_order (ps ! i) = k" "blk_end ps i = i + 2 ^ k"
  using assms by (auto simp: free_heads_def used_heads_def blk_end_def)

lemma free_heads_merge:
  assumes "(i, k) \<in> used_heads ps" "(j, k) \<in> free_heads ps" "{lo, hi} = {i, j}" "lo \<noteq> hi"
  shows "free_heads (merge_pages M lo hi ps) = free_heads ps - {(j, k)}"
proof -
  have "lo < length ps" "hi < length ps"
    using assms by (auto simp: doubleton_eq_iff dest: headsD)
  moreover have "{x \<in> free_heads ps. fst x \<noteq> hi \<and> fst x \<noteq> lo} = free_heads ps - {(j, k)}"
    using assms by (auto simp: doubleton_eq_iff free_heads_def used_heads_def)
  ultimately show ?thesis
    by (auto simp: merge_pages_def free_heads_upd page_kind_defs split: if_splits)
qed

lemma used_heads_merge:
  assumes "(i, k) \<in> used_heads ps" "(j, k) \<in> free_heads ps" "{lo, hi} = {i, j}" "lo \<noteq> hi"
  shows "used_heads (merge_pages M lo hi ps) = insert (lo, Suc k) (used_heads ps - {(i, k)})"
proof -
  have "lo < length ps" "hi < length ps" "buddy_order (ps ! lo) = k"
    using assms by (auto simp: doubleton_eq_iff dest: headsD)
  moreover have "{x \<in> used_heads ps. fst x \<noteq> hi \<and> fst x \<noteq> lo} = used_heads ps - {(i, k)}"
    using assms by (auto simp: doubleton_eq_iff free_heads_def used_heads_def)
  ultimately show ?thesis
    by (auto simp: merge_pages_def used_heads_upd page_kind_defs nth_list_update split: if_splits)
qed

text \<open>Two different blocks share no page.\<close>

lemma heads_disjoint:
  assumes "pages_inv M X ps" "(i, k) \<in> free_heads ps \<union> used_heads ps"
    "(j, l) \<in> free_heads ps \<union> used_heads ps" "i \<noteq> j"
  shows "{i..<i + 2 ^ k} \<inter> {j..<j + 2 ^ l} = {}"
proof -
  note hi = headsD_is_head [OF assms(2)] and hj = headsD_is_head [OF assms(3)]
  note ho = pages_invD(2) [OF assms(1)]
  consider "i < j" | "j < i" using assms(4) by linarith
  then show ?thesis
  proof cases
    case 1
    then have "i + 2 ^ k \<le> j" using blocks_apart [OF ho hi(1,2) hj(1,2)] hi(4) by simp
    then show ?thesis by auto
  next
    case 2
    then have "j + 2 ^ l \<le> i" using blocks_apart [OF ho hj(1,2) hi(1,2)] hj(4) by simp
    then show ?thesis by auto
  qed
qed

lemma free_set_remove:
  assumes "pages_inv M X ps" "(j, k) \<in> free_heads ps" "free_heads qs = free_heads ps - {(j, k)}"
  shows "free_set qs = free_set ps - {j..<j + 2 ^ k}"
proof -
  have "{i..<i + 2 ^ l} \<inter> {j..<j + 2 ^ k} = {}" if "(i, l) \<in> free_heads ps - {(j, k)}" for i l
  proof (rule heads_disjoint [OF assms(1)])
    show "i \<noteq> j" using that assms(2) by (auto simp: free_heads_def)
  qed (use that assms in auto)
  then show ?thesis
    using assms(2) unfolding free_set_def assms(3) by blast
qed

lemma free_set_insert:
  "free_heads qs = insert (j, k) (free_heads ps) \<Longrightarrow> free_set qs = free_set ps \<union> {j..<j + 2 ^ k}"
  by (auto simp: free_set_def)

lemma used_not_free:
  assumes "pages_inv M X ps" "(i, k) \<in> used_heads ps"
  shows "free_set ps \<inter> {i..<i + 2 ^ k} = {}"
proof -
  have "{j..<j + 2 ^ l} \<inter> {i..<i + 2 ^ k} = {}" if "(j, l) \<in> free_heads ps" for j l
    by (rule heads_disjoint [OF assms(1)]) (use that assms free_used_disjoint in auto)
  then show ?thesis unfolding free_set_def by blast
qed

subsection \<open>Pools under updates\<close>

definition pool_rm :: "nat \<Rightarrow> nat \<Rightarrow> mempool list \<Rightarrow> mempool list" where
  "pool_rm k b pools = pools[k := (pools ! k)\<lparr>
     pool_list := remove1 b (pool_list (pools ! k)),
     rest_block_num := rest_block_num (pools ! k) - 1\<rparr>]"

definition pool_ad :: "nat \<Rightarrow> nat \<Rightarrow> mempool list \<Rightarrow> mempool list" where
  "pool_ad k b pools = pools[k := (pools ! k)\<lparr>
     pool_list := pool_list (pools ! k) @ [b],
     rest_block_num := rest_block_num (pools ! k) + 1\<rparr>]"

lemma pools_inv_rm:
  assumes "pools_inv M ps pools" "(b, k) \<in> free_heads ps" "k < M"
    "free_heads qs = free_heads ps - {(b, k)}"
  shows "pools_inv M qs (pool_rm k b pools)"
  unfolding pools_inv_def
proof (intro conjI allI impI)
  show "length (pool_rm k b pools) = M"
    using assms(1) by (simp add: pool_rm_def pools_inv_def)
  fix order assume o: "order < M"
  then have p: "pool_inv ps order (pools ! order)" "length pools = M"
    using assms(1) by (auto simp: pools_inv_def)
  show "pool_inv qs order (pool_rm k b pools ! order)"
  proof (cases "order = k")
    case True
    moreover have "b \<in> set (pool_list (pools ! k))"
      using p True assms(2) by (auto simp: pool_inv_def)
    ultimately show ?thesis
      using p assms(3,4) length_remove1_int [of b "pool_list (pools ! k)"]
      by (auto simp: pool_inv_def pool_rm_def)
  next
    case False
    then have "pool_rm k b pools ! order = pools ! order" by (simp add: pool_rm_def)
    moreover have "{i. (i, order) \<in> free_heads qs} = {i. (i, order) \<in> free_heads ps}"
      using False assms(4) by auto
    ultimately show ?thesis using p by (simp add: pool_inv_def)
  qed
qed

lemma pools_inv_ad:
  assumes "pools_inv M ps pools" "(b, k) \<notin> free_heads ps" "k < M"
    "free_heads qs = insert (b, k) (free_heads ps)"
  shows "pools_inv M qs (pool_ad k b pools)"
  unfolding pools_inv_def
proof (intro conjI allI impI)
  show "length (pool_ad k b pools) = M"
    using assms(1) by (simp add: pool_ad_def pools_inv_def)
  fix order assume o: "order < M"
  then have p: "pool_inv ps order (pools ! order)" "length pools = M"
    using assms(1) by (auto simp: pools_inv_def)
  show "pool_inv qs order (pool_ad k b pools ! order)"
  proof (cases "order = k")
    case True
    then show ?thesis
      using p assms by (auto simp: pool_inv_def pool_ad_def)
  next
    case False
    then have "pool_ad k b pools ! order = pools ! order" by (simp add: pool_ad_def)
    moreover have "{i. (i, order) \<in> free_heads qs} = {i. (i, order) \<in> free_heads ps}"
      using False assms(4) by auto
    ultimately show ?thesis using p by (simp add: pool_inv_def)
  qed
qed

lemma pools_inv_cong:
  "pools_inv M ps pools \<Longrightarrow> free_heads qs = free_heads ps \<Longrightarrow> pools_inv M qs pools"
  by (simp add: pools_inv_def pool_inv_def)

lemma pools_invD:
  assumes "pools_inv M ps pools"
  shows "length pools = M"
    "(b, k) \<in> free_heads ps \<Longrightarrow> k < M \<Longrightarrow> b \<in> set (pool_list (pools ! k))"
  using assms by (auto simp: pools_inv_def pool_inv_def)

subsection \<open>What the allocator may change\<close>

text \<open>Only block structure and pools change; owners, reference counts, locks, memory do not.\<close>

definition owners :: "page list \<Rightarrow> (pgfm_type \<times> int \<times> u8) list" where
  "owners ps = map (\<lambda>pg. (pgtype pg, ref_count pg, vma_flags pg)) ps"

definition mm_frame :: "'a mm_scheme \<Rightarrow> 'a mm_scheme \<Rightarrow> bool" where
  "mm_frame s t \<longleftrightarrow> held t = held s \<and> mem t = mem s \<and> mm.more t = mm.more s \<and>
     owners (pgframe_pages t) = owners (pgframe_pages s)"

lemma mm_frame_refl [simp]: "mm_frame s s"
  by (simp add: mm_frame_def)

lemma mm_frame_trans [trans]: "mm_frame s t \<Longrightarrow> mm_frame t u \<Longrightarrow> mm_frame s u"
  by (simp add: mm_frame_def)

lemma mm_frameD:
  assumes "mm_frame s t"
  shows "held t = held s" "mem t = mem s" "owners (pgframe_pages t) = owners (pgframe_pages s)"
    "mm_unlocked t = mm_unlocked s"
  using assms by (auto simp: mm_frame_def mm_unlocked_def)

lemma owners_upd:
  "i < length ps \<Longrightarrow> pgtype pg = pgtype (ps ! i) \<Longrightarrow> ref_count pg = ref_count (ps ! i) \<Longrightarrow>
     vma_flags pg = vma_flags (ps ! i) \<Longrightarrow> owners (ps[i := pg]) = owners ps"
  by (simp add: owners_def map_update list_update_same_conv)

lemma owners_nth:
  "owners ps = owners qs \<Longrightarrow> i < length ps \<Longrightarrow> pgtype (ps ! i) = pgtype (qs ! i)"
  by (metis (no_types, lifting) length_map nth_map owners_def prod.inject)

lemma owners_length: "owners ps = owners qs \<Longrightarrow> length ps = length qs"
  by (metis length_map owners_def)

lemma owners_merge:
  "lo < length ps \<Longrightarrow> hi < length ps \<Longrightarrow> owners (merge_pages M lo hi ps) = owners ps"
  by (cases "lo = hi") (simp_all add: merge_pages_def owners_upd)

subsection \<open>One merge step\<close>

lemma mergeable_iff:
  assumes "is_head pg \<or> is_body pg \<or> is_static pg"
  shows "buddy_mergeable pg k \<longleftrightarrow>
    pgtype pg = PAGE_BUDDYALLOCATOR \<and> buddy_order pg = k \<and> buddy_pgfm_infrlist pg"
  using assms by (auto simp: buddy_mergeable_def page_kind_defs)

lemma pool_list_del_in:
  assumes "k < length (order_pools s)" "b \<in> set (pool_list (order_pools s ! k))"
  shows "pool_list_del k b s = Some (s\<lparr>order_pools := (order_pools s)[k :=
    (order_pools s ! k)\<lparr>pool_list := remove1 b (pool_list (order_pools s ! k))\<rparr>]\<rparr>)"
  using assms by (simp add: pool_list_del_def)

lemma buddy_invD:
  assumes "buddy_inv cfg X s"
  shows "length (pgframe_pages s) = PGFRAME_PAGE_NUMS cfg"
    "pages_inv (MAX_ORDER cfg) X (pgframe_pages s)"
    "pools_inv (MAX_ORDER cfg) (pgframe_pages s) (order_pools s)"
    "length (order_pools s) = MAX_ORDER cfg"
  using assms by (auto simp: buddy_inv_def pools_inv_def)

lemma page_kind:
  assumes "buddy_inv cfg X s" "i < PGFRAME_PAGE_NUMS cfg"
  shows "is_head (pgframe_pages s ! i) \<or> is_body (pgframe_pages s ! i) \<or> is_static (pgframe_pages s ! i)"
  using pages_invD(1) [OF buddy_invD(2) [OF assms(1)]] assms(2) buddy_invD(1) [OF assms(1)]
  by (simp add: flags_ok_def)

lemma held_cycle3:
  assumes "a \<notin> H" "b \<notin> H" "c \<notin> H"
  shows "insert a (insert b (insert c H)) - {a} - {b} - {c} = H"
  using assms by auto

text \<open>The state after a merge of used block \<open>i\<close> with free block \<open>j\<close>.\<close>

definition merged :: "pgfm_cfg \<Rightarrow> nat \<Rightarrow> nat \<Rightarrow> nat \<Rightarrow> nat \<Rightarrow> 'a mm_scheme \<Rightarrow> 'a mm_scheme" where
  "merged cfg k lo hi j s = s\<lparr>
     order_pools := pool_rm k j (order_pools s),
     pgframe_pages := merge_pages (MAX_ORDER cfg) lo hi (pgframe_pages s)\<rparr>"

lemma merged_held: "(merged cfg k lo hi j (s\<lparr>held := A\<rparr>))\<lparr>held := held s\<rparr> = merged cfg k lo hi j s"
  by (rule mm.equality) (simp_all add: merged_def)

lemma bkp_merge_bef_spec:
  assumes wf: "wf_cfg cfg" and inv: "buddy_inv cfg X s"
    and p: "(p, k) \<in> used_heads (pgframe_pages s)" and k: "k < MAX_ORDER cfg"
    and held: "held s = insert (PageLk p) (insert (PoolLk k) H)"
    and H: "\<And>i. PageLk i \<notin> H" "\<And>i. PoolLk i \<notin> H"
  shows "bkp_merge_bef cfg p k s = Some (None, s) \<or>
    (\<exists>b. b + 2 ^ k = p \<and> (b, k) \<in> free_heads (pgframe_pages s) \<and>
       pgtype (pgframe_pages s ! b) = PAGE_BUDDYALLOCATOR \<and>
       bkp_merge_bef cfg p k s = Some (Some b, (merged cfg k b p b s)\<lparr>held := H\<rparr>))"
proof -
  note I = buddy_invD [OF inv]
  have pn: "p < PGFRAME_PAGE_NUMS cfg" using headsD(2) [OF p] I(1) by simp
  note bb = before_block [OF wf pn less_imp_le [OF k]]
  show ?thesis
  proof (cases "2 ^ k \<le> p")
    case False
    then show ?thesis using bb(1) by (simp add: bkp_merge_bef_def)
  next
    case True
    define b where "b = p - 2 ^ k"
    have b: "b + 2 ^ k = p" "b < PGFRAME_PAGE_NUMS cfg" "b \<noteq> p"
      using True pn two_power_pos_nat [of k] unfolding b_def by linarith+
    have va: "va_valid cfg (pg2va cfg p - ORDER2BYTE k)" "va2pg cfg (pg2va cfg p - ORDER2BYTE k) = Some b"
      using bb True b_def by simp_all
    have lk: "PageLk b \<notin> held s" using held H b(3) by simp
    show ?thesis
    proof (cases "buddy_mergeable (pgframe_pages s ! b) k")
      case False
      then have "bkp_merge_bef cfg p k s = Some (None, s)"
        using va lk I(1) b(2) by (simp add: bkp_merge_bef_def unlock_def)
      then show ?thesis ..
    next
      case m: True
      then have bf: "(b, k) \<in> free_heads (pgframe_pages s)"
        and ty: "pgtype (pgframe_pages s ! b) = PAGE_BUDDYALLOCATOR"
        using mergeable_iff [OF page_kind [OF inv b(2)], of k] I(1) b(2) by (auto simp: free_heads_def)
      have inl: "b \<in> set (pool_list (order_pools s ! k))" using pools_invD(2) [OF I(3) bf k] .
      have "bkp_merge_bef cfg p k s = Some (Some b, (merged cfg k b p b s)\<lparr>held := H\<rparr>)"
        using va lk m I(1,4) b inl k pn held_cycle3 [of "PageLk b" H "PageLk p" "PoolLk k"] H held
        by (simp add: bkp_merge_bef_def unlock_def pool_list_del_in merged_def merge_pages_def pool_rm_def)
      then show ?thesis using b bf ty by blast
    qed
  qed
qed

lemma bkp_merge_aft_spec:
  assumes wf: "wf_cfg cfg" and inv: "buddy_inv cfg X s"
    and p: "(p, k) \<in> used_heads (pgframe_pages s)" and k: "k < MAX_ORDER cfg"
    and held: "held s = insert (PageLk p) (insert (PoolLk k) H)"
    and H: "\<And>i. PageLk i \<notin> H" "\<And>i. PoolLk i \<notin> H"
  shows "bkp_merge_aft cfg p k s = Some (False, s) \<or>
    ((p + 2 ^ k, k) \<in> free_heads (pgframe_pages s) \<and>
       pgtype (pgframe_pages s ! (p + 2 ^ k)) = PAGE_BUDDYALLOCATOR \<and>
       bkp_merge_aft cfg p k s = Some (True, (merged cfg k p (p + 2 ^ k) (p + 2 ^ k) s)\<lparr>held := H\<rparr>))"
proof -
  note I = buddy_invD [OF inv]
  have pn: "p < PGFRAME_PAGE_NUMS cfg" using headsD(2) [OF p] I(1) by simp
  note bb = after_block [OF wf pn less_imp_le [OF k]]
  show ?thesis
  proof (cases "p + 2 ^ k < PGFRAME_PAGE_NUMS cfg")
    case False
    then show ?thesis using bb(1) by (simp add: bkp_merge_aft_def)
  next
    case True
    define a where "a = p + 2 ^ k"
    have a: "a < PGFRAME_PAGE_NUMS cfg" "a \<noteq> p" using True by (auto simp: a_def)
    have va: "va_valid cfg (pg2va cfg p + ORDER2BYTE k)" "va2pg cfg (pg2va cfg p + ORDER2BYTE k) = Some a"
      using bb True a_def by simp_all
    have lk: "PageLk a \<notin> held s" using held H a(2) by simp
    show ?thesis
    proof (cases "buddy_mergeable (pgframe_pages s ! a) k")
      case False
      then have "bkp_merge_aft cfg p k s = Some (False, s)"
        using va lk I(1) a by (simp add: bkp_merge_aft_def unlock_def)
      then show ?thesis ..
    next
      case m: True
      then have bf: "(a, k) \<in> free_heads (pgframe_pages s)"
        and ty: "pgtype (pgframe_pages s ! a) = PAGE_BUDDYALLOCATOR"
        using mergeable_iff [OF page_kind [OF inv a(1)], of k] I(1) a by (auto simp: free_heads_def)
      have inl: "a \<in> set (pool_list (order_pools s ! k))" using pools_invD(2) [OF I(3) bf k] .
      have "bkp_merge_aft cfg p k s = Some (True, (merged cfg k p a a s)\<lparr>held := H\<rparr>)"
        using va lk m I(1,4) a inl k pn held_cycle3 [of "PageLk a" H "PageLk p" "PoolLk k"] H held
        by (simp add: bkp_merge_aft_def unlock_def pool_list_del_in merged_def merge_pages_def pool_rm_def
            list_update_swap)
      then show ?thesis using bf ty unfolding a_def by blast
    qed
  qed
qed

lemma merged_inv:
  assumes inv: "buddy_inv cfg X s" and k: "Suc k < MAX_ORDER cfg"
    and i: "(i, k) \<in> used_heads (pgframe_pages s)" "pgtype (pgframe_pages s ! i) = PAGE_BUDDYALLOCATOR"
    and j: "(j, k) \<in> free_heads (pgframe_pages s)" "pgtype (pgframe_pages s ! j) = PAGE_BUDDYALLOCATOR"
    and lh: "{lo, hi} = {i, j}" "hi = lo + 2 ^ k"
  defines "t \<equiv> merged cfg k lo hi j s"
  shows "buddy_inv cfg X t" "(lo, Suc k) \<in> used_heads (pgframe_pages t)"
    "pgtype (pgframe_pages t ! lo) = PAGE_BUDDYALLOCATOR" "mm_frame s t"
    "used_heads (pgframe_pages t) = insert (lo, Suc k) (used_heads (pgframe_pages s) - {(i, k)})"
    "free_pages t \<union> {lo..<lo + 2 ^ Suc k} = free_pages s \<union> {i..<i + 2 ^ k}"
proof -
  let ?ps = "pgframe_pages s" and ?qs = "merge_pages (MAX_ORDER cfg) lo hi (pgframe_pages s)"
  note I = buddy_invD [OF inv]
  have ne: "lo \<noteq> hi" using lh(2) by simp
  have hl: "(lo, k) \<in> free_heads ?ps \<union> used_heads ?ps" "(hi, k) \<in> free_heads ?ps \<union> used_heads ?ps"
    "pgtype (?ps ! lo) = PAGE_BUDDYALLOCATOR" "pgtype (?ps ! hi) = PAGE_BUDDYALLOCATOR"
    using i j lh(1) by (auto simp: doubleton_eq_iff)
  note l = headsD_is_head [OF hl(1)] and h = headsD_is_head [OF hl(2)]
  have fh: "free_heads ?qs = free_heads ?ps - {(j, k)}"
    by (rule free_heads_merge [OF i(1) j(1) lh(1) ne])
  have uh: "used_heads ?qs = insert (lo, Suc k) (used_heads ?ps - {(i, k)})"
    by (rule used_heads_merge [OF i(1) j(1) lh(1) ne])
  have pi: "pages_inv (MAX_ORDER cfg) X ?qs"
    by (rule merge_pages_inv [OF I(2) l(1,2,3) h(1,2,3) lh(2) k hl(3,4)])
  have "pools_inv (MAX_ORDER cfg) ?qs (pool_rm k j (order_pools s))"
    using I(3) j(1) k fh by (intro pools_inv_rm) auto
  then show "buddy_inv cfg X t"
    using pi I(1) by (simp add: buddy_inv_def t_def merged_def)
  show "used_heads (pgframe_pages t) = insert (lo, Suc k) (used_heads ?ps - {(i, k)})"
    using uh by (simp add: t_def merged_def)
  then show "(lo, Suc k) \<in> used_heads (pgframe_pages t)" by simp
  show "pgtype (pgframe_pages t ! lo) = PAGE_BUDDYALLOCATOR"
    using hl(3) l h by (simp add: t_def merged_def merge_pages_def)
  show "mm_frame s t"
    using owners_merge [OF l(1) h(1)] by (auto simp: mm_frame_def t_def merged_def)
  have "free_pages t = free_pages s - {j..<j + 2 ^ k}"
    using free_set_remove [OF I(2) j(1) fh] by (simp add: free_pages_def t_def merged_def)
  moreover have "{j..<j + 2 ^ k} \<subseteq> free_pages s"
    using j(1) by (auto simp: free_pages_def free_set_def)
  moreover have "{lo..<lo + 2 ^ Suc k} = {i..<i + 2 ^ k} \<union> {j..<j + 2 ^ k}"
  proof -
    have "{lo..<lo + 2 ^ Suc k} = {lo..<lo + 2 ^ k} \<union> {hi..<hi + 2 ^ k}"
      using lh(2) by auto
    then show ?thesis using lh(1) by (auto simp: doubleton_eq_iff)
  qed
  moreover have "free_pages s \<inter> {i..<i + 2 ^ k} = {}"
    using used_not_free [OF I(2) i(1)] by (simp add: free_pages_def)
  ultimately show "free_pages t \<union> {lo..<lo + 2 ^ Suc k} = free_pages s \<union> {i..<i + 2 ^ k}"
    by blast
qed

subsection \<open>The merge loop\<close>

lemma buddy_inv_held [simp]: "buddy_inv cfg X (s\<lparr>held := A\<rparr>) = buddy_inv cfg X s"
  by (simp add: buddy_inv_def)

definition loop_post ::
  "pgfm_cfg \<Rightarrow> nat set \<Rightarrow> nat \<Rightarrow> nat \<Rightarrow> 'a mm_scheme \<Rightarrow> nat \<Rightarrow> nat \<Rightarrow> 'a mm_scheme \<Rightarrow> bool" where
  "loop_post cfg X p k s p' k' t \<longleftrightarrow>
     buddy_inv cfg X t \<and> (p', k') \<in> used_heads (pgframe_pages t) \<and>
     pgtype (pgframe_pages t ! p') = PAGE_BUDDYALLOCATOR \<and> mm_frame s t \<and>
     used_heads (pgframe_pages t) = insert (p', k') (used_heads (pgframe_pages s) - {(p, k)}) \<and>
     (p', k') \<notin> used_heads (pgframe_pages s) - {(p, k)} \<and>
     free_pages t \<union> {p'..<p' + 2 ^ k'} = free_pages s \<union> {p..<p + 2 ^ k}"

lemma loop_post_trans:
  assumes "loop_post cfg X p k s q l t" "loop_post cfg X q l t r m u"
  shows "loop_post cfg X p k s r m u"
  using assms by (auto simp: loop_post_def dest: mm_frame_trans)

lemma merged_post:
  assumes "buddy_inv cfg X s" "Suc k < MAX_ORDER cfg" "(i, k) \<in> used_heads (pgframe_pages s)"
    "pgtype (pgframe_pages s ! i) = PAGE_BUDDYALLOCATOR" "(j, k) \<in> free_heads (pgframe_pages s)"
    "pgtype (pgframe_pages s ! j) = PAGE_BUDDYALLOCATOR" "{lo, hi} = {i, j}" "hi = lo + 2 ^ k"
  shows "loop_post cfg X i k s lo (Suc k) (merged cfg k lo hi j s)"
proof -
  have "buddy_order (pgframe_pages s ! lo) = k"
    using assms(3,5,7) by (auto simp: doubleton_eq_iff dest: headsD)
  then have "(lo, Suc k) \<notin> used_heads (pgframe_pages s) - {(i, k)}"
    by (auto simp: used_heads_def)
  then show ?thesis
    unfolding loop_post_def using merged_inv [OF assms] by blast
qed

lemma bkp_free_loop_spec:
  assumes wf: "wf_cfg cfg"
  shows "buddy_inv cfg X s \<Longrightarrow> (p, k) \<in> used_heads (pgframe_pages s) \<Longrightarrow>
    pgtype (pgframe_pages s ! p) = PAGE_BUDDYALLOCATOR \<Longrightarrow> mm_unlocked s \<Longrightarrow> k < MAX_ORDER cfg \<Longrightarrow>
    \<exists>p' k' t. bkp_free_loop cfg p k s = Some (p', k', t) \<and> loop_post cfg X p k s p' k' t"
proof (induction "MAX_ORDER cfg - k" arbitrary: p k s rule: less_induct)
  case less
  note inv = less.prems(1) and p = less.prems(2) and ty = less.prems(3) and un = less.prems(4)
  note I = buddy_invD [OF inv]
  show ?case
  proof (cases "Suc k < MAX_ORDER cfg")
    case False
    then have "bkp_free_loop cfg p k s = Some (p, k, s)"
      by (simp add: bkp_free_loop.simps [of cfg p k s])
    moreover have "loop_post cfg X p k s p k s"
      using inv p ty by (auto simp: loop_post_def)
    ultimately show ?thesis by blast
  next
    case True
    define s1 where "s1 = s\<lparr>held := insert (PageLk p) (insert (PoolLk k) (held s))\<rparr>"
    have pl: "p < length (pgframe_pages s)" "buddy_order (pgframe_pages s ! p) = k"
      "buddy_flags (pgframe_pages s ! p) = PG_BUDDY_FLAG_HEAD"
      using headsD(2) [OF p] by (auto simp: buddy_pgfm_freeable_def)
    have s1: "buddy_inv cfg X s1" "pgframe_pages s1 = pgframe_pages s"
      "held s1 = insert (PageLk p) (insert (PoolLk k) (held s))" "(p, k) \<in> used_heads (pgframe_pages s1)"
      using inv p by (simp_all add: s1_def)
    have unf: "bkp_free_loop cfg p k s = do {
        (bef, s) \<leftarrow> bkp_merge_bef cfg p k s1;
        (case bef of
           Some bef_page \<Rightarrow> bkp_free_loop cfg bef_page (Suc k) s
         | None \<Rightarrow> do {
             (m, s) \<leftarrow> bkp_merge_aft cfg p k s;
             if m then bkp_free_loop cfg p (Suc k) s
             else Some (p, k, unlock (PoolLk k) (unlock (PageLk p) s)) }) }"
      using True pl ty un
      by (simp add: bkp_free_loop.simps [of cfg p k s] s1_def mm_unlockedD)
    note H = mm_unlockedD [OF un]
    have step: ?thesis
      if run: "bkp_free_loop cfg p k s = bkp_free_loop cfg lo (Suc k) (merged cfg k lo hi j s)"
        and j: "(j, k) \<in> free_heads (pgframe_pages s)" "pgtype (pgframe_pages s ! j) = PAGE_BUDDYALLOCATOR"
        and lh: "{lo, hi} = {p, j}" "hi = lo + 2 ^ k" for lo hi j
    proof -
      note mp = merged_post [OF inv True p ty j lh]
      then have m: "buddy_inv cfg X (merged cfg k lo hi j s)"
        "(lo, Suc k) \<in> used_heads (pgframe_pages (merged cfg k lo hi j s))"
        "pgtype (pgframe_pages (merged cfg k lo hi j s) ! lo) = PAGE_BUDDYALLOCATOR"
        "mm_unlocked (merged cfg k lo hi j s)"
        using un mm_frameD(4) unfolding loop_post_def by blast+
      have "MAX_ORDER cfg - Suc k < MAX_ORDER cfg - k" using True by linarith
      from less.hyps [OF this m True] obtain p' k' t where
        r: "bkp_free_loop cfg lo (Suc k) (merged cfg k lo hi j s) = Some (p', k', t)"
          "loop_post cfg X lo (Suc k) (merged cfg k lo hi j s) p' k' t"
        by blast
      then show ?thesis using run loop_post_trans [OF mp] by metis
    qed
    consider (bef) b where "b + 2 ^ k = p" "(b, k) \<in> free_heads (pgframe_pages s1)"
        "pgtype (pgframe_pages s1 ! b) = PAGE_BUDDYALLOCATOR"
        "bkp_merge_bef cfg p k s1 = Some (Some b, (merged cfg k b p b s1)\<lparr>held := held s\<rparr>)"
      | (none) "bkp_merge_bef cfg p k s1 = Some (None, s1)"
      using bkp_merge_bef_spec [OF wf s1(1,4) less.prems(5) s1(3) H] by blast
    then show ?thesis
    proof cases
      case bef
      then have "bkp_free_loop cfg p k s = bkp_free_loop cfg b (Suc k) (merged cfg k b p b s)"
        unfolding unf by (simp add: s1_def merged_held)
      then show ?thesis using bef s1(2) by (intro step [of b p b]) auto
    next
      case none
      consider (aft) "(p + 2 ^ k, k) \<in> free_heads (pgframe_pages s1)"
          "pgtype (pgframe_pages s1 ! (p + 2 ^ k)) = PAGE_BUDDYALLOCATOR"
          "bkp_merge_aft cfg p k s1 = Some (True, (merged cfg k p (p + 2 ^ k) (p + 2 ^ k) s1)\<lparr>held := held s\<rparr>)"
        | (stop) "bkp_merge_aft cfg p k s1 = Some (False, s1)"
        using bkp_merge_aft_spec [OF wf s1(1,4) less.prems(5) s1(3) H] by blast
      then show ?thesis
      proof cases
        case aft
        then have "bkp_free_loop cfg p k s = bkp_free_loop cfg p (Suc k) (merged cfg k p (p + 2 ^ k) (p + 2 ^ k) s)"
          unfolding unf using none by (simp add: s1_def merged_held)
        then show ?thesis using aft s1(2) by (intro step [of p "p + 2 ^ k" "p + 2 ^ k"]) auto
      next
        case stop
        have "insert (PageLk p) (insert (PoolLk k) (held s)) - {PageLk p} - {PoolLk k} = held s"
          using H by auto
        then have "bkp_free_loop cfg p k s = Some (p, k, s)"
          unfolding unf using none stop by (simp add: unlock_def s1_def)
        moreover have "loop_post cfg X p k s p k s"
          using inv p ty by (auto simp: loop_post_def)
        ultimately show ?thesis by blast
      qed
    qed
  qed
qed

subsection \<open>bkp_free\<close>

text \<open>Marking the final block free and hanging it on its pool.\<close>

definition freed :: "nat \<Rightarrow> nat \<Rightarrow> 'a mm_scheme \<Rightarrow> 'a mm_scheme" where
  "freed p k s = s\<lparr>
     pgframe_pages := (pgframe_pages s)[p := (pgframe_pages s ! p)\<lparr>buddy_flags := PG_BUDDY_FLAG_HEAD OR PG_BUDDY_FLAG_FREE\<rparr>],
     order_pools := pool_ad k p (order_pools s)\<rparr>"

lemma freed_inv:
  assumes inv: "buddy_inv cfg X s" and p: "(p, k) \<in> used_heads (pgframe_pages s)"
    and ty: "pgtype (pgframe_pages s ! p) = PAGE_BUDDYALLOCATOR"
  shows "buddy_inv cfg X (freed p k s)" "mm_frame s (freed p k s)"
    "used_heads (pgframe_pages (freed p k s)) = used_heads (pgframe_pages s) - {(p, k)}"
    "free_pages (freed p k s) = free_pages s \<union> {p..<p + 2 ^ k}"
proof -
  let ?pg = "(pgframe_pages s ! p)\<lparr>buddy_flags := PG_BUDDY_FLAG_HEAD OR PG_BUDDY_FLAG_FREE\<rparr>"
  let ?qs = "(pgframe_pages s)[p := ?pg]"
  note I = buddy_invD [OF inv]
  have pl: "p < length (pgframe_pages s)" "is_head (pgframe_pages s ! p)" "buddy_order (pgframe_pages s ! p) = k"
    using headsD_is_head [of p k "pgframe_pages s"] p by auto
  have k: "k < MAX_ORDER cfg"
    using heads_okD(1) [OF pages_invD(2) [OF I(2)] pl(1,2)] pl(3) by simp
  have fl: "buddy_pgfm_infrlist ?pg" "\<not> buddy_pgfm_freeable ?pg" "is_head ?pg"
    by (simp_all add: page_kind_defs)
  have pf: "{x \<in> free_heads (pgframe_pages s). fst x \<noteq> p} = free_heads (pgframe_pages s)"
    using free_used_disjoint [OF p] by auto
  have fh: "free_heads ?qs = insert (p, k) (free_heads (pgframe_pages s))"
    using fl pl pf by (simp add: free_heads_upd)
  have "pages_inv (MAX_ORDER cfg) (X \<union> {p + 2 ^ buddy_order ?pg..<blk_end (pgframe_pages s) p}) ?qs"
    by (rule shrink_pages_inv [OF I(2) pl(1,2) fl(3)]) (use ty in simp_all)
  then have "pages_inv (MAX_ORDER cfg) X ?qs"
    by (simp add: blk_end_def)
  moreover have "pools_inv (MAX_ORDER cfg) ?qs (pool_ad k p (order_pools s))"
    by (rule pools_inv_ad [OF I(3) free_used_disjoint [OF p] k fh])
  ultimately show "buddy_inv cfg X (freed p k s)"
    using I(1) by (simp add: buddy_inv_def freed_def)
  show "mm_frame s (freed p k s)"
    using pl by (simp add: mm_frame_def freed_def owners_upd)
  have "{x \<in> used_heads (pgframe_pages s). fst x \<noteq> p} = used_heads (pgframe_pages s) - {(p, k)}"
    using p by (auto simp: used_heads_def)
  then show "used_heads (pgframe_pages (freed p k s)) = used_heads (pgframe_pages s) - {(p, k)}"
    using fl pl by (simp add: freed_def used_heads_upd)
  show "free_pages (freed p k s) = free_pages s \<union> {p..<p + 2 ^ k}"
    using free_set_insert [OF fh] by (simp add: free_pages_def freed_def)
qed

lemma bkp_free_spec:
  assumes wf: "wf_cfg cfg" and inv: "buddy_inv cfg X s" and un: "mm_unlocked s"
    and p: "(p, k) \<in> used_heads (pgframe_pages s)"
    and ty: "pgtype (pgframe_pages s ! p) = PAGE_BUDDYALLOCATOR"
  shows "\<exists>t. bkp_free cfg (Some p) s = Some t \<and> buddy_inv cfg X t \<and> mm_frame s t \<and>
    used_heads (pgframe_pages t) = used_heads (pgframe_pages s) - {(p, k)} \<and>
    free_pages t = free_pages s \<union> {p..<p + 2 ^ k}"
proof -
  note I = buddy_invD [OF inv] and hd = headsD(2) [OF p]
  have k: "k < MAX_ORDER cfg"
    using heads_okD(1) [OF pages_invD(2) [OF I(2)], of p] hd by auto
  have pv: "pg_valid cfg p"
    using pg_valid_iff [OF wf, of p] hd I(1) wf by (auto simp: wf_cfg_def)
  obtain p' k' t where loop: "bkp_free_loop cfg p k s = Some (p', k', t)"
    and post: "loop_post cfg X p k s p' k' t"
    using bkp_free_loop_spec [OF wf inv p ty un k] by blast
  then have J: "buddy_inv cfg X t" "(p', k') \<in> used_heads (pgframe_pages t)"
    "pgtype (pgframe_pages t ! p') = PAGE_BUDDYALLOCATOR" "mm_frame s t"
    "used_heads (pgframe_pages t) = insert (p', k') (used_heads (pgframe_pages s) - {(p, k)})"
    "free_pages t \<union> {p'..<p' + 2 ^ k'} = free_pages s \<union> {p..<p + 2 ^ k}"
    "(p', k') \<notin> used_heads (pgframe_pages s) - {(p, k)}"
    by (simp_all add: loop_post_def)
  note F = freed_inv [OF J(1-3)] and hd' = headsD(2) [OF J(2)]
  have k': "k' < MAX_ORDER cfg"
    using heads_okD(1) [OF pages_invD(2) [OF buddy_invD(2) [OF J(1)]], of p'] hd' by auto
  have un': "mm_unlocked t" using un mm_frameD(4) [OF J(4)] by simp
  have hs: "insert (PageLk p') (insert (PoolLk k') (held t)) - {PageLk p'} - {PoolLk k'} = held t"
    using mm_unlockedD [OF un'] by auto
  have flg: "buddy_flags (pgframe_pages t ! p') OR PG_BUDDY_FLAG_FREE = PG_BUDDY_FLAG_HEAD OR PG_BUDDY_FLAG_FREE"
    using hd' by (simp add: buddy_pgfm_freeable_def)
  have fl: "s\<lparr>held := insert (PageLk p) (held s) - {PageLk p}\<rparr> = s"
    using mm_unlockedD [OF un] by simp
  have "bkp_free cfg (Some p) s = Some (freed p' k' t)"
    using pv hd ty k loop hd' J(3) k' un un' hs flg buddy_invD(4) [OF J(1)] fl
    by (simp add: bkp_free_def mm_unlockedD unlock_def pool_list_add_tail_def freed_def pool_ad_def
        pg_flag_defs)
  then show ?thesis
    using F J mm_frame_trans by auto
qed

end
