(* ===== verification/BuddyAlloc.thy ===== *)
theory BuddyAlloc
  imports BuddyFree
begin

unbundle bit_operations_syntax

text \<open>
  \<^verbatim>\<open>bkp_alloc\<close> and what is built on it: the block handed out was free, exactly its pages leave
  the free set (the split-off tail goes back through \<^verbatim>\<open>bkp_free\<close>), and a null result means
  that no free block of a sufficient order exists. The last part states the contract as a locale
  over an abstract view of the allocator and interprets it on these definitions.
\<close>

subsection \<open>Giving back the tail of a split block\<close>

lemma bkp_alloc_rest_spec:
  assumes wf: "wf_cfg cfg"
  shows "buddy_inv cfg X s \<Longrightarrow> mm_unlocked s \<Longrightarrow> i \<le> MAX_ORDER cfg \<Longrightarrow> num < 2 ^ i \<Longrightarrow>
    {st..<st + num} \<subseteq> X \<Longrightarrow>
    \<exists>t. bkp_alloc_rest cfg i st num s = Some t \<and> buddy_inv cfg (X - {st..<st + num}) t \<and>
      mm_frame s t \<and> used_heads (pgframe_pages t) = used_heads (pgframe_pages s) \<and>
      free_pages t = free_pages s \<union> {st..<st + num}"
proof (induction i arbitrary: X s st num)
  case 0
  then show ?case by simp
next
  case (Suc i)
  note inv = Suc.prems(1) and un = Suc.prems(2) and I = buddy_invD [OF Suc.prems(1)]
  show ?case
  proof (cases "2 ^ i \<le> num")
    case False
    then have "bkp_alloc_rest cfg (Suc i) st num s = bkp_alloc_rest cfg i st num s"
      using bit_pow2_diff [OF Suc.prems(4)] by (cases "num = 0"; cases i) auto
    then show ?thesis using Suc.IH [OF inv un] Suc.prems False by simp
  next
    case True
    let ?pg = "(pgframe_pages s ! st)\<lparr>buddy_order := i, buddy_flags := PG_BUDDY_FLAG_HEAD\<rparr>"
    let ?Y = "X - {st..<st + 2 ^ i}"
    define s1 where "s1 = s\<lparr>pgframe_pages := (pgframe_pages s)[st := ?pg]\<rparr>"
    have sub: "{st..<st + 2 ^ i} \<subseteq> X" using Suc.prems(5) True by (meson atLeastLessThan_subset_iff
          ivl_subset add_left_mono order_refl subset_trans)
    have "st \<in> X" using subsetD [OF sub, of st] by simp
    then have st: "st < length (pgframe_pages s)" "is_body (pgframe_pages s ! st)"
      using pages_invD(4) [OF I(2)] by (auto simp: orphans_ok_def)
    have stM: "buddy_order (pgframe_pages s ! st) = MAX_ORDER cfg"
      using pages_invD(3) [OF I(2)] st by (auto simp: bodies_ok_def)
    have ty: "pgtype (pgframe_pages s ! st) = PAGE_BUDDYALLOCATOR"
      using pages_invD(5) [OF I(2)] st by (auto simp: types_ok_def page_kind_defs)
    have pi: "pages_inv (MAX_ORDER cfg) ?Y ((pgframe_pages s)[st := ?pg])"
      by (rule adopt_pages_inv [OF I(2) sub]) (use Suc.prems(3) in simp_all)
    have nh: "\<And>k. (st, k) \<notin> free_heads (pgframe_pages s)" "\<And>k. (st, k) \<notin> used_heads (pgframe_pages s)"
      using st by (auto simp: free_heads_def used_heads_def page_kind_defs)
    have "{x \<in> free_heads (pgframe_pages s). fst x \<noteq> st} = free_heads (pgframe_pages s)"
      "{x \<in> used_heads (pgframe_pages s). fst x \<noteq> st} = used_heads (pgframe_pages s)"
      using nh by auto
    then have fh: "free_heads (pgframe_pages s1) = free_heads (pgframe_pages s)"
      and uh: "used_heads (pgframe_pages s1) = insert (st, i) (used_heads (pgframe_pages s))"
      using st(1) by (simp_all add: s1_def free_heads_upd used_heads_upd)
    have J: "buddy_inv cfg ?Y s1"
      using pi I(1) pools_inv_cong [OF I(3) fh] by (simp add: buddy_inv_def s1_def)
    have fr: "mm_frame s s1" using st(1) by (simp add: mm_frame_def s1_def owners_upd)
    have ty1: "pgtype (pgframe_pages s1 ! st) = PAGE_BUDDYALLOCATOR" using ty st(1) by (simp add: s1_def)
    have un1: "mm_unlocked s1" using un mm_frameD(4) [OF fr] by simp
    obtain t where t: "bkp_free cfg (Some st) s1 = Some t" "buddy_inv cfg ?Y t" "mm_frame s1 t"
      "used_heads (pgframe_pages t) = used_heads (pgframe_pages s)"
      "free_pages t = free_pages s \<union> {st..<st + 2 ^ i}"
      using bkp_free_spec [OF wf J un1 _ ty1, of i] uh fh nh by (auto simp: free_pages_def free_set_def)
    have rest: "{st + 2 ^ i..<st + 2 ^ i + (num - 2 ^ i)} \<subseteq> ?Y"
      using Suc.prems(5) by (auto simp: subset_iff)
    have un2: "mm_unlocked t" using un1 mm_frameD(4) [OF t(3)] by simp
    have less: "num - 2 ^ i < 2 ^ i" using Suc.prems(4) by simp
    obtain u where u: "bkp_alloc_rest cfg i (st + 2 ^ i) (num - 2 ^ i) t = Some u"
      "buddy_inv cfg (?Y - {st + 2 ^ i..<st + 2 ^ i + (num - 2 ^ i)}) u" "mm_frame t u"
      "used_heads (pgframe_pages u) = used_heads (pgframe_pages t)"
      "free_pages u = free_pages t \<union> {st + 2 ^ i..<st + 2 ^ i + (num - 2 ^ i)}"
      using Suc.IH [OF t(2) un2 _ less rest] Suc.prems(3) by auto
    have hs: "s\<lparr>held := insert (PageLk st) (held s), pgframe_pages := A,
        held := insert (PageLk st) (held s) - {PageLk st}\<rparr> = s\<lparr>pgframe_pages := A\<rparr>" for A
      by (rule mm.equality) (use mm_unlockedD [OF un] in simp_all)
    have pos: "num \<noteq> 0" using True two_power_pos_nat [of i] by linarith
    have "bkp_alloc_rest cfg (Suc i) st num s = Some u"
      using True pos st stM t(1) u(1) bit_pow2_diff [OF Suc.prems(4)] mm_unlockedD [OF un] hs
      by (simp add: unlock_def s1_def is_body_def)
    moreover have "{st..<st + num} = {st..<st + 2 ^ i} \<union> {st + 2 ^ i..<st + 2 ^ i + (num - 2 ^ i)}"
      using True by auto
    moreover have "mm_frame s u" using fr t(3) u(3) mm_frame_trans by blast
    moreover have "?Y - {st + 2 ^ i..<st + 2 ^ i + (num - 2 ^ i)} = X - ({st..<st + 2 ^ i} \<union> {st + 2 ^ i..<st + 2 ^ i + (num - 2 ^ i)})"
      by blast
    ultimately show ?thesis using u t by (simp add: Un_assoc)
  qed
qed

subsection \<open>Taking a block from its pool\<close>

lemma mempool_swap:
  "(q::mempool)\<lparr>rest_block_num := r, pool_list := l\<rparr> = q\<lparr>pool_list := l, rest_block_num := r\<rparr>"
  by (rule mempool.equality) simp_all

definition taken :: "nat \<Rightarrow> nat \<Rightarrow> nat \<Rightarrow> 'a mm_scheme \<Rightarrow> 'a mm_scheme" where
  "taken orig order p s = s\<lparr>
     order_pools := pool_rm order p (order_pools s),
     pgframe_pages := (pgframe_pages s)[p :=
       (pgframe_pages s ! p)\<lparr>buddy_flags := PG_BUDDY_FLAG_HEAD, buddy_order := orig\<rparr>]\<rparr>"

lemma taken_inv:
  assumes inv: "buddy_inv cfg {} s" and p: "(p, order) \<in> free_heads (pgframe_pages s)"
    and o: "orig \<le> order" "order < MAX_ORDER cfg"
  shows "buddy_inv cfg {p + 2 ^ orig..<p + 2 ^ order} (taken orig order p s)"
    "mm_frame s (taken orig order p s)"
    "used_heads (pgframe_pages (taken orig order p s)) = insert (p, orig) (used_heads (pgframe_pages s))"
    "free_pages (taken orig order p s) = free_pages s - {p..<p + 2 ^ order}"
proof -
  let ?pg = "(pgframe_pages s ! p)\<lparr>buddy_flags := PG_BUDDY_FLAG_HEAD, buddy_order := orig\<rparr>"
  let ?qs = "(pgframe_pages s)[p := ?pg]"
  note I = buddy_invD [OF inv]
  have pl: "p < length (pgframe_pages s)" "is_head (pgframe_pages s ! p)"
    "buddy_order (pgframe_pages s ! p) = order" "blk_end (pgframe_pages s) p = p + 2 ^ order"
    using headsD_is_head [of p order "pgframe_pages s"] p by auto
  have fl: "\<not> buddy_pgfm_infrlist ?pg" "buddy_pgfm_freeable ?pg" "is_head ?pg"
    by (simp_all add: page_kind_defs)
  have fh: "free_heads ?qs = free_heads (pgframe_pages s) - {(p, order)}"
  proof -
    have "{x \<in> free_heads (pgframe_pages s). fst x \<noteq> p} = free_heads (pgframe_pages s) - {(p, order)}"
      using p by (auto simp: free_heads_def)
    then show ?thesis using fl pl by (simp add: free_heads_upd)
  qed
  have "{x \<in> used_heads (pgframe_pages s). fst x \<noteq> p} = used_heads (pgframe_pages s)"
    using p free_used_disjoint by fastforce
  then have uh: "used_heads ?qs = insert (p, orig) (used_heads (pgframe_pages s))"
    using fl pl by (simp add: used_heads_upd)
  have "pages_inv (MAX_ORDER cfg) ({} \<union> {p + 2 ^ buddy_order ?pg..<blk_end (pgframe_pages s) p}) ?qs"
    by (rule shrink_pages_inv [OF I(2) pl(1,2) fl(3)]) (use o fl pl in simp_all)
  moreover have "pools_inv (MAX_ORDER cfg) ?qs (pool_rm order p (order_pools s))"
    by (rule pools_inv_rm [OF I(3) p o(2) fh])
  ultimately show "buddy_inv cfg {p + 2 ^ orig..<p + 2 ^ order} (taken orig order p s)"
    using I(1) pl(4) by (simp add: buddy_inv_def taken_def)
  show "mm_frame s (taken orig order p s)"
    using pl by (simp add: mm_frame_def taken_def owners_upd)
  show "used_heads (pgframe_pages (taken orig order p s)) = insert (p, orig) (used_heads (pgframe_pages s))"
    using uh by (simp add: taken_def)
  show "free_pages (taken orig order p s) = free_pages s - {p..<p + 2 ^ order}"
    using free_set_remove [OF I(2) p fh] by (simp add: free_pages_def taken_def)
qed

text \<open>The postcondition of an allocation that found block \<open>p\<close>.\<close>

definition alloc_post :: "pgfm_cfg \<Rightarrow> nat \<Rightarrow> nat \<Rightarrow> 'a mm_scheme \<Rightarrow> 'a mm_scheme \<Rightarrow> bool" where
  "alloc_post cfg orig p s t \<longleftrightarrow>
     buddy_inv cfg {} t \<and> mm_frame s t \<and> pgtype (pgframe_pages t ! p) = PAGE_BUDDYALLOCATOR \<and>
     used_heads (pgframe_pages t) = insert (p, orig) (used_heads (pgframe_pages s)) \<and>
     (\<forall>k. (p, k) \<notin> used_heads (pgframe_pages s)) \<and>
     {p..<p + 2 ^ orig} \<subseteq> free_pages s \<and> free_pages t = free_pages s - {p..<p + 2 ^ orig} \<and>
     (\<exists>k. (p, k) \<in> free_heads (pgframe_pages s) \<and> orig \<le> k \<and>
        (\<forall>(q, l) \<in> free_heads (pgframe_pages s). orig \<le> l \<longrightarrow> k \<le> l))"

lemma bkp_alloc_loop_spec:
  assumes wf: "wf_cfg cfg" and inv: "buddy_inv cfg {} s" and un: "mm_unlocked s"
  shows "orig \<le> order \<Longrightarrow> (\<And>p k. (p, k) \<in> free_heads (pgframe_pages s) \<Longrightarrow> orig \<le> k \<Longrightarrow> order \<le> k) \<Longrightarrow>
    (bkp_alloc_loop cfg orig order s = Some (None, s) \<and>
       (\<forall>p k. (p, k) \<in> free_heads (pgframe_pages s) \<longrightarrow> k < orig)) \<or>
    (\<exists>p t. bkp_alloc_loop cfg orig order s = Some (Some p, t) \<and> alloc_post cfg orig p s t)"
proof (induction "MAX_ORDER cfg - order" arbitrary: order)
  case 0
  have "k < orig" if "(p, k) \<in> free_heads (pgframe_pages s)" for p k
  proof (rule ccontr)
    assume "\<not> k < orig"
    then have "MAX_ORDER cfg \<le> k" using 0 that by fastforce
    moreover have "k < MAX_ORDER cfg"
      using headsD_is_head [of p k] that heads_okD(1) [OF pages_invD(2) [OF buddy_invD(2) [OF inv]]] by fastforce
    ultimately show False by simp
  qed
  then show ?case using 0 by (auto simp: bkp_alloc_loop.simps [of cfg orig order s])
next
  case (Suc d)
  note I = buddy_invD [OF inv] and U = mm_unlockedD [OF un]
  have o: "order < MAX_ORDER cfg" and d: "d = MAX_ORDER cfg - Suc order" using Suc.hyps(2) by linarith+
  have P: "pool_inv (pgframe_pages s) order (order_pools s ! order)"
    using I(3) o by (simp add: pools_inv_def)
  have uns: "s\<lparr>held := insert (PoolLk order) (held s) - {PoolLk order}\<rparr> = s" using U by simp
  show ?case
  proof (cases "pool_list (order_pools s ! order)")
    case Nil
    then have r0: "rest_block_num (order_pools s ! order) = 0" using P by (simp add: pool_inv_def)
    have "bkp_alloc_loop cfg orig order s = bkp_alloc_loop cfg orig (Suc order) s"
      using o U I(4) r0 uns by (simp add: bkp_alloc_loop.simps [of cfg orig order s] unlock_def)
    moreover have "Suc order \<le> k" if "(p, k) \<in> free_heads (pgframe_pages s)" "orig \<le> k" for p k
    proof -
      have "k \<noteq> order" using that(1) P Nil by (auto simp: pool_inv_def)
      then show ?thesis using Suc.prems(2) [OF that] by simp
    qed
    ultimately show ?thesis using Suc.hyps(1) [OF d] Suc.prems(1) by simp
  next
    case (Cons p rest)
    then have p: "(p, order) \<in> free_heads (pgframe_pages s)" using P by (auto simp: pool_inv_def)
    have r0: "rest_block_num (order_pools s ! order) \<noteq> 0" using P Cons by (simp add: pool_inv_def)
    note T = taken_inv [OF inv p Suc.prems(1) o] and hd = headsD(1) [OF p]
    have num: "(2::nat) ^ order - 2 ^ orig < 2 ^ MAX_ORDER cfg"
      using o by (meson diff_le_self le_less_trans power_strict_increasing_iff one_less_numeral_iff semiring_norm(76))
    have le: "(2::nat) ^ orig \<le> 2 ^ order" using Suc.prems(1) by (rule pow2_mono_nat)
    then have eq: "p + 2 ^ orig + (2 ^ order - 2 ^ orig) = p + 2 ^ order" by simp
    have unT: "mm_unlocked (taken orig order p s)" using un mm_frameD(4) [OF T(2)] by simp
    obtain t where t: "bkp_alloc_rest cfg (MAX_ORDER cfg) (p + 2 ^ orig) (2 ^ order - 2 ^ orig) (taken orig order p s) = Some t"
      "buddy_inv cfg {} t" "mm_frame (taken orig order p s) t"
      "used_heads (pgframe_pages t) = insert (p, orig) (used_heads (pgframe_pages s))"
      "free_pages t = (free_pages s - {p..<p + 2 ^ order}) \<union> {p + 2 ^ orig..<p + 2 ^ order}"
      using bkp_alloc_rest_spec [OF wf T(1) unT order_refl num, of "p + 2 ^ orig"] T(3,4) unfolding eq by auto
    have sub: "{p..<p + 2 ^ order} \<subseteq> free_pages s"
      using p by (auto simp: free_pages_def free_set_def)
    have "alloc_post cfg orig p s t"
      unfolding alloc_post_def
    proof (intro conjI allI)
      have fr: "mm_frame s t" using T(2) t(3) mm_frame_trans by blast
      then show "mm_frame s t" .
      have "pgtype (pgframe_pages s ! p) = PAGE_BUDDYALLOCATOR"
        using pages_invD(5) [OF I(2)] hd by (auto simp: types_ok_def page_kind_defs)
      then show "pgtype (pgframe_pages t ! p) = PAGE_BUDDYALLOCATOR"
        using owners_nth [OF mm_frameD(3) [OF fr], of p] hd owners_length [OF mm_frameD(3) [OF fr]] by simp
      show "(p, k) \<notin> used_heads (pgframe_pages s)" for k using p free_used_disjoint by blast
      have split: "{p..<p + 2 ^ order} = {p..<p + 2 ^ orig} \<union> {p + 2 ^ orig..<p + 2 ^ order}"
        using le by (simp add: ivl_disj_un_two(3))
      show "{p..<p + 2 ^ orig} \<subseteq> free_pages s" using sub split by blast
      have "{p..<p + 2 ^ orig} \<inter> {p + 2 ^ orig..<p + 2 ^ order} = {}" by simp
      then show "free_pages t = free_pages s - {p..<p + 2 ^ orig}"
        using t(5) sub split by blast
      show "\<exists>k. (p, k) \<in> free_heads (pgframe_pages s) \<and> orig \<le> k \<and>
          (\<forall>(q, l) \<in> free_heads (pgframe_pages s). orig \<le> l \<longrightarrow> k \<le> l)"
        using p Suc.prems by blast
    qed (use t in auto)
    moreover have "bkp_alloc_loop cfg orig order s = Some (Some p, t)"
    proof -
      have "s\<lparr>held := insert (PoolLk order) (held s),
          order_pools := A, held := insert (PageLk p) (insert (PoolLk order) (held s)),
          order_pools := pool_rm order p (order_pools s), pgframe_pages := B,
          held := insert (PageLk p) (insert (PoolLk order) (held s)) - {PageLk p} - {PoolLk order}\<rparr>
        = s\<lparr>order_pools := pool_rm order p (order_pools s), pgframe_pages := B\<rparr>" for A B
        by (rule mm.equality) (use U in auto)
      note st = this [simplified]
      show ?thesis
        using o U I(4) r0 Cons hd t(1) st
        by (simp add: bkp_alloc_loop.simps [of cfg orig order s] unlock_def pool_list_del_in
            buddy_pgfm_infrlist_def taken_def pool_rm_def mempool_swap)
    qed
    ultimately show ?thesis by blast
  qed
qed

end
