(* ===== verification/BuddyContract.thy ===== *)
theory BuddyContract
  imports BuddyAlloc
begin

unbundle bit_operations_syntax

text \<open>
  The contract of the page allocator, as its clients (the slab caches, the page-table code and
  the virtual-memory areas) rely on it: a locale over an abstract state with a set of free pages
  and a set of blocks in use, client lemmas proved once inside it, its interpretation on
  \<^verbatim>\<open>bkp_alloc\<close> and \<^verbatim>\<open>bkp_free\<close>, and the properties of the allocator that follow.
\<close>

subsection \<open>The contract\<close>

datatype pa_op = PaAlloc int | PaFree nat

locale page_allocator =
  fixes inv :: "'s \<Rightarrow> bool"
    and free :: "'s \<Rightarrow> nat set"
    and used :: "'s \<Rightarrow> (nat \<times> nat) set"
    and releasable :: "nat \<Rightarrow> 's \<Rightarrow> bool"
    and max_order :: nat
    and alloc :: "int \<Rightarrow> 's \<Rightarrow> (nat option \<times> 's) option"
    and release :: "nat \<Rightarrow> 's \<Rightarrow> 's option"
  assumes alloc_law: "inv s \<Longrightarrow> \<exists>r t. alloc ord s = Some (r, t) \<and> inv t \<and>
      (case r of None \<Rightarrow> t = s
       | Some p \<Rightarrow> 0 \<le> ord \<and> ord < int max_order \<and>
           used t = insert (p, nat ord) (used s) \<and> (\<forall>k. (p, k) \<notin> used s) \<and>
           {p..<p + 2 ^ nat ord} \<subseteq> free s \<and> free t = free s - {p..<p + 2 ^ nat ord} \<and>
           releasable p t)"
    and alloc_keeps: "inv s \<Longrightarrow> alloc ord s = Some (r, t) \<Longrightarrow> (q, k) \<in> used s \<Longrightarrow>
      releasable q t = releasable q s"
    and release_law: "inv s \<Longrightarrow> (p, k) \<in> used s \<Longrightarrow> releasable p s \<Longrightarrow>
      \<exists>t. release p s = Some t \<and> inv t \<and> used t = used s - {(p, k)} \<and>
        free t = free s \<union> {p..<p + 2 ^ k}"
    and release_keeps: "inv s \<Longrightarrow> (p, k) \<in> used s \<Longrightarrow> releasable p s \<Longrightarrow> release p s = Some t \<Longrightarrow>
      (q, l) \<in> used s \<Longrightarrow> releasable q t = releasable q s"
    and used_apart: "inv s \<Longrightarrow> (p, k) \<in> used s \<Longrightarrow> free s \<inter> {p..<p + 2 ^ k} = {}"
begin

text \<open>What belongs to the allocator, free or handed out, never changes.\<close>

definition owned :: "'s \<Rightarrow> nat set" where
  "owned s = free s \<union> (\<Union>(p, k) \<in> used s. {p..<p + 2 ^ k})"

text \<open>A client step: an allocation, or the release of a block in use.\<close>

fun client_step :: "pa_op \<Rightarrow> 's \<Rightarrow> 's option" where
  "client_step (PaAlloc ord) s = map_option snd (alloc ord s)"
| "client_step (PaFree p) s =
     (if (\<exists>k. (p, k) \<in> used s) \<and> releasable p s then release p s else Some s)"

fun client_run :: "pa_op list \<Rightarrow> 's \<Rightarrow> 's option" where
  "client_run [] s = Some s"
| "client_run (x # xs) s = (client_step x s \<bind> client_run xs)"

lemma client_step_ok:
  assumes "inv s" shows "\<exists>t. client_step x s = Some t \<and> inv t \<and> owned t = owned s"
proof (cases x)
  case (PaAlloc ord)
  obtain r t where rt: "alloc ord s = Some (r, t)" "inv t"
    "case r of None \<Rightarrow> t = s | Some p \<Rightarrow> used t = insert (p, nat ord) (used s) \<and>
       {p..<p + 2 ^ nat ord} \<subseteq> free s \<and> free t = free s - {p..<p + 2 ^ nat ord}"
    using alloc_law [OF assms, of ord] by (auto split: option.splits)
  then have "owned t = owned s"
    by (cases r) (auto simp: owned_def)
  then show ?thesis using PaAlloc rt by simp
next
  case (PaFree p)
  show ?thesis
  proof (cases "(\<exists>k. (p, k) \<in> used s) \<and> releasable p s")
    case True
    then obtain k t where "(p, k) \<in> used s" "release p s = Some t" "inv t"
      "used t = used s - {(p, k)}" "free t = free s \<union> {p..<p + 2 ^ k}"
      using release_law [OF assms] by blast
    then show ?thesis using PaFree True by (auto simp: owned_def)
  next
    case False
    then show ?thesis using PaFree assms by auto
  qed
qed

lemma client_run_ok:
  "inv s \<Longrightarrow> \<exists>t. client_run xs s = Some t \<and> inv t \<and> owned t = owned s"
proof (induction xs arbitrary: s)
  case Nil
  then show ?case by simp
next
  case (Cons x xs)
  then show ?case using client_step_ok [OF Cons.prems, of x] by fastforce
qed

lemma alloc_release_id:
  assumes "inv s" "alloc ord s = Some (Some p, t)"
  shows "\<exists>u. release p t = Some u \<and> inv u \<and> used u = used s \<and> free u = free s"
proof -
  have t: "inv t" "used t = insert (p, nat ord) (used s)" "\<And>k. (p, k) \<notin> used s"
    "{p..<p + 2 ^ nat ord} \<subseteq> free s" "free t = free s - {p..<p + 2 ^ nat ord}" "releasable p t"
    using alloc_law [OF assms(1), of ord] assms(2) by auto
  obtain u where "release p t = Some u" "inv u" "used u = used t - {(p, nat ord)}"
    "free u = free t \<union> {p..<p + 2 ^ nat ord}"
    using release_law [OF t(1) _ t(6), of "nat ord"] t(2) by auto
  then show ?thesis using t by auto
qed

lemma two_allocs_disjoint:
  assumes "inv s" "alloc o1 s = Some (Some p, t)" "alloc o2 t = Some (Some q, u)"
  shows "{p..<p + 2 ^ nat o1} \<inter> {q..<q + 2 ^ nat o2} = {}"
proof -
  have "inv t" "free t = free s - {p..<p + 2 ^ nat o1}"
    using alloc_law [OF assms(1), of o1] assms(2) by auto
  moreover have "{q..<q + 2 ^ nat o2} \<subseteq> free t"
    using alloc_law [OF \<open>inv t\<close>, of o2] assms(3) by auto
  ultimately show ?thesis by blast
qed

end

subsection \<open>The interpretation on the buddy allocator\<close>

definition mm_inv :: "pgfm_cfg \<Rightarrow> 'a mm_scheme \<Rightarrow> bool" where
  "mm_inv cfg s \<longleftrightarrow> wf_cfg cfg \<and> buddy_inv cfg {} s \<and> mm_unlocked s"

definition mm_used :: "'a mm_scheme \<Rightarrow> (nat \<times> nat) set" where
  "mm_used s = used_heads (pgframe_pages s)"

definition is_buddy_page :: "nat \<Rightarrow> 'a mm_scheme \<Rightarrow> bool" where
  "is_buddy_page p s \<longleftrightarrow> pgtype (pgframe_pages s ! p) = PAGE_BUDDYALLOCATOR"

lemma bkp_alloc_post:
  assumes "mm_inv cfg s"
  shows "(bkp_alloc cfg ord s = Some (None, s) \<and>
       (0 \<le> ord \<and> ord < int (MAX_ORDER cfg) \<longrightarrow> (\<forall>p k. (p, k) \<in> free_heads (pgframe_pages s) \<longrightarrow> int k < ord))) \<or>
    (\<exists>p t. bkp_alloc cfg ord s = Some (Some p, t) \<and> 0 \<le> ord \<and> ord < int (MAX_ORDER cfg) \<and>
       alloc_post cfg (nat ord) p s t)"
proof (cases "0 \<le> ord \<and> ord < int (MAX_ORDER cfg)")
  case False
  then show ?thesis by (auto simp: bkp_alloc_def)
next
  case True
  then have e: "bkp_alloc cfg ord s = bkp_alloc_loop cfg (nat ord) (nat ord) s"
    by (simp add: bkp_alloc_def)
  show ?thesis
    using bkp_alloc_loop_spec [of cfg s "nat ord" "nat ord"] assms True
    unfolding e mm_inv_def by (auto simp: nat_less_iff zless_nat_eq_int_zless)
qed

lemma alloc_post_inv:
  assumes "mm_inv cfg s" "alloc_post cfg k p s t"
  shows "mm_inv cfg t"
  using assms mm_frameD(4) by (auto simp: mm_inv_def alloc_post_def)

lemma used_owner_kept:
  assumes "mm_frame s t" "(q, k) \<in> mm_used s"
  shows "is_buddy_page q t = is_buddy_page q s"
proof -
  have "q < length (pgframe_pages s)" using assms(2) by (auto simp: mm_used_def used_heads_def)
  then show ?thesis
    using owners_nth [OF mm_frameD(3) [OF assms(1)], of q] owners_length [OF mm_frameD(3) [OF assms(1)]]
    by (simp add: is_buddy_page_def)
qed

lemma bkp_free_post:
  assumes "mm_inv cfg s" "(p, k) \<in> mm_used s" "is_buddy_page p s"
  shows "\<exists>t. bkp_free cfg (Some p) s = Some t \<and> mm_inv cfg t \<and> mm_frame s t \<and>
    mm_used t = mm_used s - {(p, k)} \<and> free_pages t = free_pages s \<union> {p..<p + 2 ^ k}"
  using bkp_free_spec [of cfg "{}" s p k] assms mm_frameD(4)
  unfolding mm_inv_def mm_used_def is_buddy_page_def by metis

interpretation buddy: page_allocator "mm_inv cfg" free_pages mm_used is_buddy_page "MAX_ORDER cfg"
    "bkp_alloc cfg" "\<lambda>p. bkp_free cfg (Some p)" for cfg
proof (unfold_locales, goal_cases)
  case (1 s ord)
  consider "bkp_alloc cfg ord s = Some (None, s)"
    | p t where "bkp_alloc cfg ord s = Some (Some p, t)" "0 \<le> ord" "ord < int (MAX_ORDER cfg)"
      "alloc_post cfg (nat ord) p s t"
    using bkp_alloc_post [OF 1, of ord] by blast
  then show ?case
  proof cases
    case (2 p t)
    then show ?thesis
      using alloc_post_inv [OF 1 2(4)] 2(4) unfolding alloc_post_def mm_used_def is_buddy_page_def by simp
  qed (use 1 in simp)
next
  case (2 s ord r t q k)
  then have "mm_frame s t"
    using bkp_alloc_post [OF 2(1), of ord] by (auto simp: alloc_post_def)
  then show ?case using 2(3) by (rule used_owner_kept)
next
  case (3 s p k)
  then show ?case using bkp_free_post by blast
next
  case (4 s p k t q l)
  then have "mm_frame s t" using bkp_free_post [OF 4(1-3)] by auto
  then show ?case using 4(5) by (rule used_owner_kept)
next
  case (5 s p k)
  then show ?case
    using used_not_free [of "MAX_ORDER cfg" "{}" "pgframe_pages s" p k]
    by (simp add: mm_inv_def buddy_inv_def free_pages_def mm_used_def)
qed

subsection \<open>Two small concrete states\<close>

text \<open>
  A range of two pages mapped as the RISC-V port maps it: \<open>demo_free\<close> has one free block of
  order 1, \<open>demo_used\<close> has page 0 in use and page 1 free.
\<close>

definition demo_cfg :: pgfm_cfg where
  "demo_cfg = \<lparr>PGFRAME_PA_START = 0x80200000, PGFRAME_VA_START = 0x3000000000,
     PGFRAME_SIZE = 0x2000, MAX_ORDER = 2\<rparr>"

definition demo_page :: "u8 \<Rightarrow> nat \<Rightarrow> page" where
  "demo_page flags order = \<lparr>pgtype = PAGE_BUDDYALLOCATOR, buddy_flags = flags, buddy_order = order,
     ref_count = 0, vma_flags = 0\<rparr>"

definition demo_free :: mm where
  "demo_free = \<lparr>held = {}, mem = (\<lambda>_. 7),
     pgframe_pages = [demo_page 3 1, demo_page 4 2],
     order_pools = [\<lparr>rest_block_num = 0, block_size = 4096, pool_list = []\<rparr>,
       \<lparr>rest_block_num = 1, block_size = 8192, pool_list = [0]\<rparr>]\<rparr>"

definition demo_used :: mm where
  "demo_used = \<lparr>held = {}, mem = (\<lambda>_. 7),
     pgframe_pages = [demo_page 2 0, demo_page 3 0],
     order_pools = [\<lparr>rest_block_num = 1, block_size = 4096, pool_list = [1]\<rparr>,
       \<lparr>rest_block_num = 0, block_size = 8192, pool_list = []\<rparr>]\<rparr>"

lemma demo_page_sel [simp]:
  "pgtype (demo_page f k) = PAGE_BUDDYALLOCATOR" "buddy_flags (demo_page f k) = f"
  "buddy_order (demo_page f k) = k"
  by (simp_all add: demo_page_def)

lemma demo_kinds [simp]:
  "is_head (demo_page 3 k)" "is_head (demo_page 2 k)" "is_body (demo_page 4 k)"
  "\<not> is_body (demo_page 3 k)" "\<not> is_body (demo_page 2 k)" "\<not> is_head (demo_page 4 k)"
  "buddy_pgfm_infrlist (demo_page 3 k)" "\<not> buddy_pgfm_infrlist (demo_page 2 k)"
  "\<not> buddy_pgfm_infrlist (demo_page 4 k)" "buddy_pgfm_freeable (demo_page 2 k)"
  "\<not> buddy_pgfm_freeable (demo_page 3 k)" "\<not> buddy_pgfm_freeable (demo_page 4 k)"
  by (simp_all add: page_kind_defs)

lemma demo_cfg_wf: "wf_cfg demo_cfg"
  by (simp add: wf_cfg_def demo_cfg_def page_aligned_iff PGFRAME_PAGE_NUMS_def)

lemma demo_cfg_sel [simp]: "PGFRAME_PAGE_NUMS demo_cfg = 2" "MAX_ORDER demo_cfg = 2"
  "PGFRAME_VA_START demo_cfg = 0x3000000000"
  by (simp_all add: demo_cfg_def PGFRAME_PAGE_NUMS_def)

lemma demo_free_heads: "free_heads (pgframe_pages demo_free) = {(0, 1)}"
  by (auto simp: demo_free_def free_heads_def less_Suc_eq numeral_2_eq_2)

lemma demo_used_heads: "free_heads (pgframe_pages demo_used) = {(1, 0)}"
  by (auto simp: demo_used_def free_heads_def less_Suc_eq numeral_2_eq_2)

lemma demo_free_inv: "mm_inv demo_cfg demo_free"
proof -
  have "pages_inv 2 {} (pgframe_pages demo_free)"
    by (auto simp: demo_free_def pages_inv_def flags_ok_def heads_ok_def bodies_ok_def orphans_ok_def
        types_ok_def blk_end_def less_Suc_eq numeral_2_eq_2)
  moreover have "pools_inv 2 (pgframe_pages demo_free) (order_pools demo_free)"
    by (auto simp: pools_inv_def pool_inv_def demo_free_heads less_Suc_eq numeral_2_eq_2)
      (auto simp: demo_free_def)
  ultimately show ?thesis
    by (simp add: mm_inv_def buddy_inv_def demo_cfg_wf mm_unlocked_def demo_free_def)
qed

lemma demo_used_inv: "mm_inv demo_cfg demo_used"
proof -
  have "pages_inv 2 {} (pgframe_pages demo_used)"
    by (auto simp: demo_used_def pages_inv_def flags_ok_def heads_ok_def bodies_ok_def orphans_ok_def
        types_ok_def blk_end_def less_Suc_eq numeral_2_eq_2)
  moreover have "pools_inv 2 (pgframe_pages demo_used) (order_pools demo_used)"
    by (auto simp: pools_inv_def pool_inv_def demo_used_heads less_Suc_eq numeral_2_eq_2)
      (auto simp: demo_used_def)
  ultimately show ?thesis
    by (simp add: mm_inv_def buddy_inv_def demo_cfg_wf mm_unlocked_def demo_used_def)
qed

lemma demo_used_head: "(0, 0) \<in> mm_used demo_used" "is_buddy_page 0 demo_used"
  by (simp_all add: mm_used_def used_heads_def is_buddy_page_def demo_used_def)

lemma demo_alloc: "\<exists>t. bkp_alloc demo_cfg 0 demo_free = Some (Some 0, t)"
proof -
  have "map_option fst (bkp_alloc demo_cfg 0 demo_free) = Some (Some 0)" by code_simp
  then show ?thesis by auto
qed

subsection \<open>Properties of the allocator\<close>

text \<open>
  C1: \<^verbatim>\<open>bkp_alloc\<close> always returns. When it returns a page, the page heads a block of the
  requested order all of whose pages were free; exactly those pages leave the free set, the block
  joins the blocks in use, no other block in use changes, and the allocator's invariant (tiling of
  the pages into blocks, free lists and counters in agreement with the page flags, all locks
  released) holds again. When it returns NULL nothing has changed.
\<close>

theorem bkp_alloc_correct:
  assumes "mm_inv cfg s"
  shows "\<exists>r t. bkp_alloc cfg order_orig s = Some (r, t) \<and> mm_inv cfg t \<and>
    (case r of
       None \<Rightarrow> t = s
     | Some p \<Rightarrow> 0 \<le> order_orig \<and> order_orig < int (MAX_ORDER cfg) \<and>
         mm_used t = insert (p, nat order_orig) (mm_used s) \<and> (\<forall>k. (p, k) \<notin> mm_used s) \<and>
         {p..<p + 2 ^ nat order_orig} \<subseteq> free_pages s \<and>
         free_pages t = free_pages s - {p..<p + 2 ^ nat order_orig} \<and> is_buddy_page p t)"
  using assms by (rule buddy.alloc_law)

theorem bkp_alloc_correct_witness:
  "mm_inv demo_cfg demo_free \<and> (\<exists>t. bkp_alloc demo_cfg 0 demo_free = Some (Some 0, t) \<and>
     mm_used t = insert (0, 0) (mm_used demo_free) \<and> free_pages t = free_pages demo_free - {0..<1})"
  using bkp_alloc_correct [OF demo_free_inv, of 0] demo_alloc demo_free_inv by fastforce

text \<open>
  C14: \<^verbatim>\<open>bkp_alloc\<close> returns NULL exactly when the order is out of range or no free block is
  large enough; otherwise it takes the head of a free block of the smallest order that is large
  enough.
\<close>

theorem bkp_alloc_best_fit:
  assumes "mm_inv cfg s" "0 \<le> order_orig" "order_orig < int (MAX_ORDER cfg)"
  shows "if \<exists>p k. (p, k) \<in> free_heads (pgframe_pages s) \<and> order_orig \<le> int k
    then \<exists>p k t. bkp_alloc cfg order_orig s = Some (Some p, t) \<and>
      (p, k) \<in> free_heads (pgframe_pages s) \<and> order_orig \<le> int k \<and>
      (\<forall>(q, l) \<in> free_heads (pgframe_pages s). order_orig \<le> int l \<longrightarrow> k \<le> l)
    else bkp_alloc cfg order_orig s = Some (None, s)"
proof -
  let ?fh = "free_heads (pgframe_pages s)"
  consider p t where "bkp_alloc cfg order_orig s = Some (Some p, t)" "alloc_post cfg (nat order_orig) p s t"
    | "bkp_alloc cfg order_orig s = Some (None, s)" "\<And>p k. (p, k) \<in> ?fh \<Longrightarrow> int k < order_orig"
    using bkp_alloc_post [OF assms(1), of order_orig] assms(2,3) by blast
  then show ?thesis
  proof cases
    case (1 p t)
    then obtain k where k: "(p, k) \<in> ?fh" "nat order_orig \<le> k"
      "\<forall>(q, l) \<in> ?fh. nat order_orig \<le> l \<longrightarrow> k \<le> l"
      unfolding alloc_post_def by blast
    then have "\<forall>(q, l) \<in> ?fh. order_orig \<le> int l \<longrightarrow> k \<le> l" "order_orig \<le> int k"
      by (simp_all only: nat_le_iff)
    moreover have "\<exists>p k. (p, k) \<in> ?fh \<and> order_orig \<le> int k" using k(1) calculation(2) by blast
    ultimately show ?thesis using 1(1) k(1) by (simp only: if_True) blast
  next
    case 2
    then have "\<not> (\<exists>p k. (p, k) \<in> ?fh \<and> order_orig \<le> int k)" by fastforce
    then show ?thesis using 2(1) by (simp only: if_False)
  qed
qed

theorem bkp_alloc_best_fit_witness:
  "(0, 1) \<in> free_heads (pgframe_pages demo_free) \<and>
   (\<exists>p k t. bkp_alloc demo_cfg 1 demo_free = Some (Some p, t) \<and> (p, k) \<in> free_heads (pgframe_pages demo_free))"
proof -
  have "(0, 1) \<in> free_heads (pgframe_pages demo_free)" by (simp add: free_heads_def demo_free_def)
  then show ?thesis
    using bkp_alloc_best_fit [OF demo_free_inv, of 1] by (auto split: if_splits)
qed

text \<open>
  C2: Freeing a block in use always succeeds (no assertion fails, no lock is taken twice): the block
  leaves the blocks in use, exactly its pages join the free pages however often it is merged with
  its neighbours, and the invariant holds again.
\<close>

theorem bkp_free_correct:
  assumes "mm_inv cfg s" "(p, k) \<in> mm_used s" "is_buddy_page p s"
  shows "\<exists>t. bkp_free cfg (Some p) s = Some t \<and> mm_inv cfg t \<and>
    mm_used t = mm_used s - {(p, k)} \<and> free_pages t = free_pages s \<union> {p..<p + 2 ^ k} \<and>
    held t = held s \<and> mem t = mem s \<and> owners (pgframe_pages t) = owners (pgframe_pages s)"
proof -
  obtain t where "bkp_free cfg (Some p) s = Some t" "mm_inv cfg t" "mm_frame s t"
    "mm_used t = mm_used s - {(p, k)}" "free_pages t = free_pages s \<union> {p..<p + 2 ^ k}"
    using bkp_free_post [OF assms] by blast
  then show ?thesis using mm_frameD(1-3) [of s t] by simp
qed

theorem bkp_free_correct_witness:
  "\<exists>t. bkp_free demo_cfg (Some 0) demo_used = Some t \<and> mm_inv demo_cfg t \<and>
    mm_used t = mm_used demo_used - {(0, 0)} \<and> free_pages t = free_pages demo_used \<union> {0..<1}"
  using bkp_free_correct [OF demo_used_inv demo_used_head] by auto

text \<open>
  C16: The guards of \<^verbatim>\<open>bkp_free\<close>: freeing a page that does not head a block in use (a free
  page, a body page, a static page, a page owned by a slab cache or a memory area) or a page id
  out of range stops at an assertion; freeing NULL does nothing. A double free is never silent.
\<close>

theorem bkp_free_guards:
  assumes "mm_inv cfg s" "p < 2 ^ 31"
    "\<not> (p < PGFRAME_PAGE_NUMS cfg \<and> (\<exists>k. (p, k) \<in> mm_used s) \<and> is_buddy_page p s)"
  shows "bkp_free cfg (Some p) s = None \<and> bkp_free cfg None s = Some s"
proof
  show "bkp_free cfg None s = Some s" by (simp add: bkp_free_def)
  show "bkp_free cfg (Some p) s = None"
  proof (cases "p < PGFRAME_PAGE_NUMS cfg")
    case False
    then have "\<not> pg_valid cfg p" using assms by (simp add: mm_inv_def pg_valid_iff)
    then show ?thesis by (simp add: bkp_free_def ASSERT_def)
  next
    case True
    have "length (pgframe_pages s) = PGFRAME_PAGE_NUMS cfg"
      using assms(1) by (auto simp: mm_inv_def dest: buddy_invD(1))
    then have "\<not> (pgtype (pgframe_pages s ! p) = PAGE_BUDDYALLOCATOR \<and> buddy_pgfm_freeable (pgframe_pages s ! p))"
      using assms(3) True by (auto simp: mm_used_def used_heads_def is_buddy_page_def)
    then show ?thesis
      by (auto simp: bkp_free_def ASSERT_def lock_def pg_get_def array_get_def split: bind_splits)
  qed
qed

theorem bkp_free_guards_witness:
  "bkp_free demo_cfg None demo_used = Some demo_used \<and> bkp_free demo_cfg (Some 1) demo_used = None"
proof -
  have "\<not> (\<exists>k. (1, k) \<in> mm_used demo_used)" by (simp add: mm_used_def used_heads_def demo_used_def)
  then show ?thesis using bkp_free_guards [OF demo_used_inv, of 1] by simp
qed

text \<open>
  An allocation followed by the release of the block restores the free pages and the blocks in
  use, whatever splitting and merging happened in between.
\<close>

theorem bkp_alloc_free_roundtrip:
  assumes "mm_inv cfg s" "bkp_alloc cfg order s = Some (Some p, t)"
  shows "\<exists>u. bkp_free cfg (Some p) t = Some u \<and> mm_inv cfg u \<and> mm_used u = mm_used s \<and>
    free_pages u = free_pages s"
  using assms by (rule buddy.alloc_release_id)

theorem bkp_alloc_free_roundtrip_witness:
  "\<exists>t u. bkp_alloc demo_cfg 0 demo_free = Some (Some 0, t) \<and> bkp_free demo_cfg (Some 0) t = Some u \<and>
    mm_used u = mm_used demo_free \<and> free_pages u = free_pages demo_free"
  using demo_alloc bkp_alloc_free_roundtrip [OF demo_free_inv, of 0 0] by blast

text \<open>
  Blocks handed out by two allocations without a release in between share no page.
\<close>

theorem bkp_alloc_disjoint:
  assumes "mm_inv cfg s" "bkp_alloc cfg o1 s = Some (Some p, t)" "bkp_alloc cfg o2 t = Some (Some q, u)"
  shows "{p..<p + 2 ^ nat o1} \<inter> {q..<q + 2 ^ nat o2} = {}"
  using assms by (rule buddy.two_allocs_disjoint)

theorem bkp_alloc_disjoint_witness:
  "\<exists>p q t u. bkp_alloc demo_cfg 0 demo_free = Some (Some p, t) \<and> bkp_alloc demo_cfg 0 t = Some (Some q, u) \<and>
    {p..<p + 1} \<inter> {q..<q + 1} = {}"
proof -
  have "(bkp_alloc demo_cfg 0 demo_free \<bind> (\<lambda>(p, t). bkp_alloc demo_cfg 0 t \<bind> (\<lambda>(q, u). Some (p, q))))
    = Some (Some 0, Some 1)" by code_simp
  then obtain p q t u where "bkp_alloc demo_cfg 0 demo_free = Some (Some p, t)"
    "bkp_alloc demo_cfg 0 t = Some (Some q, u)" by (auto simp: bind_Some_iff)
  then show ?thesis using bkp_alloc_disjoint [OF demo_free_inv, of 0 p t 0 q u] by auto
qed

text \<open>
  C15: Any sequence of allocations and releases of blocks in use, of any orders and in any
  interleaving, runs to completion, keeps the invariant, and neither loses nor invents a page: the
  free pages together with the pages of the blocks in use stay the same set.
\<close>

theorem buddy_run_conserves:
  assumes "mm_inv cfg s"
  shows "\<exists>t. buddy.client_run cfg xs s = Some t \<and> mm_inv cfg t \<and>
    free_pages t \<union> (\<Union>(p, k) \<in> mm_used t. {p..<p + 2 ^ k}) =
    free_pages s \<union> (\<Union>(p, k) \<in> mm_used s. {p..<p + 2 ^ k})"
  using buddy.client_run_ok [OF assms, of xs] unfolding buddy.owned_def by blast

theorem buddy_run_conserves_witness:
  "\<exists>t. buddy.client_run demo_cfg [PaAlloc 0, PaAlloc 0, PaFree 0, PaFree 1] demo_free = Some t \<and>
    mm_inv demo_cfg t"
  using buddy_run_conserves [OF demo_free_inv, of "[PaAlloc 0, PaAlloc 0, PaFree 0, PaFree 1]"] by blast

text \<open>
  \<^verbatim>\<open>bkp_alloc_zero\<close> does what \<^verbatim>\<open>bkp_alloc\<close> does and writes 0 to every byte of the
  block it returns and to no other byte.
\<close>

theorem bkp_alloc_zero_block:
  assumes "mm_inv cfg s" "bkp_alloc cfg order s = Some (Some p, t)" "PGFRAME_VA_START cfg \<noteq> 0"
  shows "\<exists>m. bkp_alloc_zero cfg order s = Some (Some p, t\<lparr>mem := m\<rparr>) \<and>
    (\<forall>a. m a = (if pg2va cfg p \<le> a \<and> unat a < unat (pg2va cfg p) + 2 ^ nat order * 4096 then 0 else mem s a))"
proof -
  note post = bkp_alloc_post [OF assms(1), of order] and wf = assms(1) [unfolded mm_inv_def, THEN conjunct1]
  have ord: "0 \<le> order" "order < int (MAX_ORDER cfg)" and t: "alloc_post cfg (nat order) p s t"
    using post assms(2) by auto
  then have u: "(p, nat order) \<in> used_heads (pgframe_pages t)" and mt: "mem t = mem s"
    and inv: "buddy_inv cfg {} t"
    by (auto simp: alloc_post_def dest: mm_frameD(2))
  note hd = headsD_is_head [of p "nat order" "pgframe_pages t", OF UnI2 [OF u]]
  have pn: "p + 2 ^ nat order \<le> PGFRAME_PAGE_NUMS cfg"
    using heads_okD(2) [OF pages_invD(2) [OF buddy_invD(2) [OF inv]] hd(1,2)] hd(4) buddy_invD(1) [OF inv] by simp
  have pn': "p < PGFRAME_PAGE_NUMS cfg" using pn less_le_trans [of p "p + 2 ^ nat order"] by simp
  have "nat order \<le> MAX_ORDER cfg" using ord by linarith
  note ob = order_bounds [OF wf this]
  have va: "unat (pg2va cfg p) = unat (PGFRAME_VA_START cfg) + p * 4096" using wf pn' by (rule unat_pg2va)
  then have nz: "pg2va cfg p \<noteq> 0" using assms(3) by (auto simp: unat_eq_0 [symmetric])
  have sz: "unat (push_bit (nat order) 1 * PAGE_SIZE) = 2 ^ nat order * 4096"
    using unat_ORDER2BYTE [OF ob(1)] by (simp add: ORDER2BYTE_def ORDER2PGNUM_def)
  have lim: "unat (pg2va cfg p) + 2 ^ nat order * 4096 < 2 ^ 64"
    using va pn ob(4) by simp
  let ?m = "memset (pg2va cfg p) 0 (push_bit (nat order) 1 * PAGE_SIZE) (mem t)"
  have "?m a = (if pg2va cfg p \<le> a \<and> unat a < unat (pg2va cfg p) + 2 ^ nat order * 4096 then 0 else mem s a)" for a
    unfolding memset_apply [OF nz] sz mt using unat_in_range_iff [OF lim, of a] by simp
  moreover have "bkp_alloc_zero cfg order s = Some (Some p, t\<lparr>mem := ?m\<rparr>)"
    using assms(2) by (simp add: bkp_alloc_zero_def)
  ultimately show ?thesis by blast
qed

theorem bkp_alloc_zero_block_witness:
  "\<exists>t m. bkp_alloc_zero demo_cfg 0 demo_free = Some (Some 0, t\<lparr>mem := m\<rparr>) \<and>
     m 0x3000000000 = 0 \<and> m 0x3000001000 = 7"
proof -
  obtain t where "bkp_alloc demo_cfg 0 demo_free = Some (Some 0, t)" using demo_alloc by blast
  from bkp_alloc_zero_block [OF demo_free_inv this] obtain m where
    "bkp_alloc_zero demo_cfg 0 demo_free = Some (Some 0, t\<lparr>mem := m\<rparr>)"
    "\<forall>a. m a = (if pg2va demo_cfg 0 \<le> a \<and> unat a < unat (pg2va demo_cfg 0) + 2 ^ nat 0 * 4096
       then 0 else mem demo_free a)" by auto
  moreover have "pg2va demo_cfg 0 = 0x3000000000" by (simp add: pg2va_def id2va_def pg2id_def)
  ultimately show ?thesis by (intro exI [of _ t] exI [of _ m]) (simp add: demo_free_def)
qed

text \<open>
  The address interface. \<^verbatim>\<open>bk_alloc\<close> returns 0 exactly when no block is handed out, otherwise
  the page-aligned, valid address of the block; \<^verbatim>\<open>bk_free\<close> of that address gives the block back and restores the free pages; \<^verbatim>\<open>bk_free\<close> of 0 or of
  an address outside the managed range does nothing.
\<close>

theorem bk_alloc_free_roundtrip:
  assumes "mm_inv cfg s" "PGFRAME_VA_START cfg \<noteq> 0"
  shows "\<exists>a t. bk_alloc cfg order s = Some (a, t) \<and> (a = 0 \<longrightarrow> t = s) \<and>
    (a \<noteq> 0 \<longrightarrow> VAL_IS_PAGE_ALIGNED a \<and> va_valid cfg a \<and>
       (\<exists>u. bk_free cfg a t = Some u \<and> mm_inv cfg u \<and> mm_used u = mm_used s \<and> free_pages u = free_pages s)) \<and>
    (\<forall>x. x = 0 \<or> \<not> va_valid cfg x \<longrightarrow> bk_free cfg x s = Some s)"
proof -
  have wf: "wf_cfg cfg" using assms(1) by (simp add: mm_inv_def)
  obtain r t where rt: "bkp_alloc cfg order s = Some (r, t)" and tn: "r = None \<longrightarrow> t = s"
    using buddy.alloc_law [OF assms(1), of order] by fastforce
  show ?thesis
  proof (cases r)
    case None
    then show ?thesis using rt tn by (intro exI [of _ 0] exI [of _ t]) (simp add: bk_alloc_def bk_free_def)
  next
    case (Some p)
    have "alloc_post cfg (nat order) p s t" using bkp_alloc_post [OF assms(1), of order] rt Some by auto
    then have "(p, nat order) \<in> used_heads (pgframe_pages t)" "buddy_inv cfg {} t"
      by (auto simp: alloc_post_def)
    then have p: "p < PGFRAME_PAGE_NUMS cfg" using headsD(2) buddy_invD(1) by metis
    let ?a = "pg2va cfg p"
    have va: "unat ?a = unat (PGFRAME_VA_START cfg) + p * 4096" using wf p by (rule unat_pg2va)
    then have nz: "?a \<noteq> 0" using assms(2) by (auto simp: unat_eq_0 [symmetric])
    have vv: "va_valid cfg ?a" using p va by (simp add: va_valid_iff [OF wf])
    have "unat (PGFRAME_VA_START cfg) mod 4096 = 0" using wf by (simp add: wf_cfg_def page_aligned_iff)
    then have al: "VAL_IS_PAGE_ALIGNED ?a" unfolding page_aligned_iff va by presburger
    obtain u where u: "bkp_free cfg (Some p) t = Some u" "mm_inv cfg u" "mm_used u = mm_used s"
      "free_pages u = free_pages s"
      using buddy.alloc_release_id [OF assms(1)] rt Some by blast
    have "va2pg cfg ?a = Some p" using va2pg_of_offset [OF wf, of ?a p 0] va p by simp
    then have "bk_free cfg ?a t = Some u" using u(1) nz vv by (simp add: bk_free_def)
    then show ?thesis
      using rt Some nz vv al u(2-4)
      by (intro exI [of _ ?a] exI [of _ t]) (simp add: bk_alloc_def bk_free_def)
  qed
qed

theorem bk_alloc_free_roundtrip_witness:
  "\<exists>a t. bk_alloc demo_cfg 0 demo_free = Some (a, t) \<and> bk_free demo_cfg 0 demo_free = Some demo_free"
  using bk_alloc_free_roundtrip [OF demo_free_inv, of 0] by auto

end
