(* ===== verification/PgfmModule.thy ===== *)
theory PgfmModule
  imports BuddyContract
begin

unbundle bit_operations_syntax

text \<open>
  Start-up and self-checks of the page layer: \<^verbatim>\<open>pgfm_module_init\<close>
  (\<^verbatim>\<open>module/mm/pageframe/pgfm_module.c\<close>), \<^verbatim>\<open>pages_slfcheck\<close> (\<^verbatim>\<open>pgfm_check.c\<close>),
  \<^verbatim>\<open>buddy_module_init\<close> (\<^verbatim>\<open>buddy_module.c\<close>) and \<^verbatim>\<open>buddy_slfcheck\<close>. Log output is left out.
\<close>

subsection \<open>pgfm_module_init\<close>

text \<open>
  What the arch port and the linker supply: the kernel image and free area, and
  \<^verbatim>\<open>sizeof(struct pageframe)\<close>.
\<close>

record pgfm_boot =
  boot_cfg :: pgfm_cfg
  PGFRAME_PA_KSTART :: phyaddr
  PGFRAME_K_SIZE :: u64
  PGFRAME_FREE_VA_START :: viraddr
  PGFRAME_FREE_SIZE :: u64
  sizeof_pageframe :: u64

text \<open>
  The module's state: the done flag, the address of the descriptor array
  (\<^verbatim>\<open>pgframe_pages\<close>, 0 for NULL) and the descriptors.
\<close>

record pgfm_module =
  pgfm_module_init_done :: u32
  pgframe_pages_ptr :: u64
  pgfm_pages :: "page list"

definition pgfm_kernel_in_memory :: "pgfm_boot \<Rightarrow> bool" where
  "pgfm_kernel_in_memory b \<longleftrightarrow>
     (let cfg = boot_cfg b; kernel_start = PGFRAME_PA_KSTART b;
          kernel_end = PGFRAME_PA_KSTART b + PGFRAME_K_SIZE b in
      kernel_start \<ge> PGFRAME_PA_START cfg \<and> kernel_start < PGFRAME_PA_END cfg \<and>
      kernel_end > PGFRAME_PA_START cfg \<and> kernel_end \<le> PGFRAME_PA_END cfg)"

definition pgfm_free_in_memory :: "pgfm_boot \<Rightarrow> bool" where
  "pgfm_free_in_memory b \<longleftrightarrow>
     (let cfg = boot_cfg b; free_start = PGFRAME_FREE_VA_START b;
          free_end = PGFRAME_FREE_VA_START b + PGFRAME_FREE_SIZE b in
      free_start \<ge> PGFRAME_VA_START cfg \<and> free_start < PGFRAME_VA_END cfg \<and>
      free_end > PGFRAME_VA_START cfg \<and> free_end \<le> PGFRAME_VA_END cfg)"

text \<open>\<^verbatim>\<open>int need_alloc_size = ...\<close>: the product is cut to 32 bits and read as signed.\<close>

definition pgfm_need_alloc_size :: "pgfm_boot \<Rightarrow> u64" where
  "pgfm_need_alloc_size b =
     scast (ucast ((PGFRAME_SIZE (boot_cfg b) div PAGE_SIZE) * sizeof_pageframe b) :: u32)"

definition pgfm_init_page :: "pgfm_cfg \<Rightarrow> u64 \<Rightarrow> u64 \<Rightarrow> nat \<Rightarrow> page" where
  "pgfm_init_page cfg free_start free_end i =
     \<lparr>pgtype = PAGE_BUDDYALLOCATOR,
      buddy_flags = (if pg2va cfg i \<ge> free_start \<and> pg2va cfg i < free_end
                     then PG_BUDDY_FLAG_HEAD else PG_BUDDY_FLAG_STATIC),
      buddy_order = 0, ref_count = 0, vma_flags = 0\<rparr>"

definition pgfm_module_init :: "pgfm_boot \<Rightarrow> pgfm_module \<Rightarrow> int \<times> pgfm_module" where
  "pgfm_module_init b m =
     (let cfg = boot_cfg b in
      if pgfm_module_init_done m \<noteq> 0 then (0, m)
      else
       (let m = m\<lparr>pgframe_pages_ptr := 0\<rparr> in
        if PGFRAME_PA_START cfg > PGFRAME_VA_START cfg then (- EFAULT, m)
        else if \<not> VAL_IS_PAGE_ALIGNED (PGFRAME_PA_START cfg) then (- EFAULT, m)
        else if \<not> VAL_IS_PAGE_ALIGNED (PGFRAME_VA_START cfg) then (- EFAULT, m)
        else if \<not> VAL_IS_PAGE_ALIGNED (PGFRAME_SIZE cfg) then (- EFAULT, m)
        else if PGFRAME_SIZE cfg \<le> 0 then (- EFAULT, m)
        else if \<not> pgfm_kernel_in_memory b then (- EFAULT, m)
        else if \<not> pgfm_free_in_memory b then (- EFAULT, m)
        else
         (let need_alloc_size = pgfm_need_alloc_size b in
          if need_alloc_size > PGFRAME_FREE_SIZE b then (- ENOMEM, m)
          else
           (let free_start = PAGE_UPPER_ALIGN (PGFRAME_FREE_VA_START b + need_alloc_size);
                free_end = PAGE_DOWNS_ALIGN (PGFRAME_FREE_VA_START b + PGFRAME_FREE_SIZE b) in
            if free_start \<ge> free_end then (- ENOMEM, m)
            else (0, m\<lparr>pgframe_pages_ptr := PGFRAME_FREE_VA_START b,
                       pgfm_pages := map (pgfm_init_page cfg free_start free_end)
                         [0..<nat (sint (ucast (PGFRAME_SIZE cfg div PAGE_SIZE) :: u32))],
                       pgfm_module_init_done := pgfm_module_init_done m + 1\<rparr>)))))"

subsection \<open>pages_slfcheck\<close>

text \<open>
  One page of the scan: \<open>Inl\<close> is the early \<^verbatim>\<open>return -EFAULT\<close>, \<open>Inr\<close> the new \<^verbatim>\<open>bef_count\<close>.
  Every exit releases the page's lock.
\<close>

definition pages_slfcheck_page :: "pgfm_cfg \<Rightarrow> page \<Rightarrow> int \<Rightarrow> int + int" where
  "pages_slfcheck_page cfg pg bef_count =
     (if pgtype pg = PAGE_BUDDYALLOCATOR \<or> pgtype pg = SLAB_ALLOCATOR then
        (if buddy_flags pg AND PG_BUDDY_FLAG_STATIC \<noteq> 0 \<and> buddy_flags pg \<noteq> PG_BUDDY_FLAG_STATIC
         then Inl (- EFAULT)
         else if buddy_flags pg AND PG_BUDDY_FLAG_HEAD \<noteq> 0 \<and>
                 (buddy_flags pg AND PG_BUDDY_FLAG_BODY \<noteq> 0 \<or> buddy_flags pg AND PG_BUDDY_FLAG_STATIC \<noteq> 0)
         then Inl (- EFAULT)
         else if buddy_flags pg AND PG_BUDDY_FLAG_HEAD \<noteq> 0 \<and> bef_count \<noteq> - 233333 \<and> bef_count \<noteq> 0
         then Inl (- EFAULT)
         else
          (let bef_count = (if buddy_flags pg AND PG_BUDDY_FLAG_HEAD \<noteq> 0
                            then 2 ^ buddy_order pg - 1 else bef_count) in
           if buddy_flags pg AND PG_BUDDY_FLAG_BODY \<noteq> 0 then
             (if buddy_flags pg \<noteq> PG_BUDDY_FLAG_BODY then Inl (- EFAULT)
              else if buddy_order pg \<noteq> MAX_ORDER cfg then Inl (- EFAULT)
              else Inr (bef_count - 1))
           else Inr bef_count))
      else if pgtype pg = VMA_AREA then Inl (- EFAULT)
      else Inr bef_count)"

function pages_slfcheck_loop ::
  "pgfm_cfg \<Rightarrow> nat \<Rightarrow> int \<Rightarrow> 'a pgfm_scheme \<Rightarrow> (int \<times> 'a pgfm_scheme) option" where
  "pages_slfcheck_loop cfg i bef_count s =
     (if i < PGFRAME_PAGE_NUMS cfg then do {
        s \<leftarrow> lock (PageLk i) s;
        pg \<leftarrow> pg_get i s;
        (case pages_slfcheck_page cfg pg bef_count of
           Inl err \<Rightarrow> Some (err, unlock (PageLk i) s)
         | Inr bef_count \<Rightarrow> pages_slfcheck_loop cfg (Suc i) bef_count (unlock (PageLk i) s)) }
      else Some (0, s))"
  by pat_completeness auto
termination
  by (relation "measure (\<lambda>(cfg, i, bef_count, s). PGFRAME_PAGE_NUMS cfg - i)") auto

declare pages_slfcheck_loop.simps [simp del]

definition pages_slfcheck :: "pgfm_cfg \<Rightarrow> 'a pgfm_scheme \<Rightarrow> (int \<times> 'a pgfm_scheme) option" where
  "pages_slfcheck cfg s = pages_slfcheck_loop cfg 0 (- 233333) s"

subsection \<open>buddy_module_init\<close>

definition buddy_init_pools :: "pgfm_cfg \<Rightarrow> mempool list" where
  "buddy_init_pools cfg = map (\<lambda>i. \<lparr>rest_block_num = 0,
     block_size = sint (ucast (ORDER2BYTE i) :: u32), pool_list = []\<rparr>) [0..<MAX_ORDER cfg]"

text \<open>\<^verbatim>\<open>for (int i = 0; i < PGFRAME_PAGE_NUMS; i++)\<close>: free every page that is free-able.\<close>

function buddy_init_loop :: "pgfm_cfg \<Rightarrow> nat \<Rightarrow> 'a mm_scheme \<Rightarrow> 'a mm_scheme option" where
  "buddy_init_loop cfg i s =
     (if i < PGFRAME_PAGE_NUMS cfg then do {
        pg \<leftarrow> pg_get i s;
        s \<leftarrow> (if buddy_pgfm_freeable pg then bkp_free cfg (Some i) s else Some s);
        buddy_init_loop cfg (Suc i) s }
      else Some s)"
  by pat_completeness auto
termination
  by (relation "measure (\<lambda>(cfg, i, s). PGFRAME_PAGE_NUMS cfg - i)") auto

declare buddy_init_loop.simps [simp del]

text \<open>The done counter is \<^verbatim>\<open>buddy_module_init_done\<close>; the function returns 0 in every case.\<close>

definition buddy_module_init :: "pgfm_cfg \<Rightarrow> u32 \<times> 'a mm_scheme \<Rightarrow> (int \<times> u32 \<times> 'a mm_scheme) option" where
  "buddy_module_init cfg = (\<lambda>(done, s).
     if done \<noteq> 0 then Some (0, done, s)
     else do {
       s \<leftarrow> buddy_init_loop cfg 0 (s\<lparr>order_pools := buddy_init_pools cfg\<rparr>);
       Some (0, done + 1, s) })"

subsection \<open>buddy_slfcheck\<close>

text \<open>The walk over one free list: the remaining count and the error flag.\<close>

fun buddy_slfcheck_list :: "nat \<Rightarrow> nat list \<Rightarrow> int \<Rightarrow> bool \<Rightarrow> 'a mm_scheme \<Rightarrow> (int \<times> bool) option" where
  "buddy_slfcheck_list i [] rest_block err s = Some (rest_block, err)"
| "buddy_slfcheck_list i (p # ps) rest_block err s = do {
     pg \<leftarrow> pg_get p s;
     buddy_slfcheck_list i ps (rest_block - 1) (err \<or> buddy_order pg \<noteq> i) s }"

function buddy_slfcheck_loop :: "pgfm_cfg \<Rightarrow> nat \<Rightarrow> 'a mm_scheme \<Rightarrow> (int \<times> 'a mm_scheme) option" where
  "buddy_slfcheck_loop cfg i s =
     (if i < MAX_ORDER cfg then do {
        s \<leftarrow> lock (PoolLk i) s;
        pool \<leftarrow> pool_get i s;
        if word_of_int (block_size pool) \<noteq> (push_bit i 1 * PAGE_SIZE :: u64)
        then Some (- EFAULT, unlock (PoolLk i) s)
        else do {
          (rest_block, err) \<leftarrow> buddy_slfcheck_list i (pool_list pool) (rest_block_num pool) False s;
          if rest_block \<noteq> 0 \<or> err then Some (- EFAULT, unlock (PoolLk i) s)
          else buddy_slfcheck_loop cfg (Suc i) (unlock (PoolLk i) s) } }
      else Some (0, s))"
  by pat_completeness auto
termination
  by (relation "measure (\<lambda>(cfg, i, s). MAX_ORDER cfg - i)") auto

declare buddy_slfcheck_loop.simps [simp del]

definition buddy_slfcheck :: "pgfm_cfg \<Rightarrow> 'a mm_scheme \<Rightarrow> (int \<times> 'a mm_scheme) option" where
  "buddy_slfcheck cfg s = buddy_slfcheck_loop cfg 0 s"


subsection \<open>The state the page module leaves behind\<close>

text \<open>Every page is either a used block of one page or static, and the pools are empty.\<close>

definition fresh_pages :: "page list \<Rightarrow> bool" where
  "fresh_pages ps \<longleftrightarrow> (\<forall>pg \<in> set ps. (buddy_pgfm_freeable pg \<or> is_static pg) \<and>
     buddy_order pg = 0 \<and> pgtype pg = PAGE_BUDDYALLOCATOR)"

lemma fresh_pagesD:
  assumes "fresh_pages ps" "i < length ps"
  shows "buddy_pgfm_freeable (ps ! i) \<or> is_static (ps ! i)" "buddy_order (ps ! i) = 0"
    "pgtype (ps ! i) = PAGE_BUDDYALLOCATOR" "\<not> is_body (ps ! i)" "\<not> buddy_pgfm_infrlist (ps ! i)"
    "is_head (ps ! i) \<longleftrightarrow> buddy_pgfm_freeable (ps ! i)"
proof -
  have "ps ! i \<in> set ps" using assms(2) by simp
  then show a: "buddy_pgfm_freeable (ps ! i) \<or> is_static (ps ! i)" and "buddy_order (ps ! i) = 0"
    and "pgtype (ps ! i) = PAGE_BUDDYALLOCATOR"
    using assms(1) by (auto simp: fresh_pages_def)
  show b: "\<not> is_body (ps ! i)" and c: "\<not> buddy_pgfm_infrlist (ps ! i)"
    and "is_head (ps ! i) \<longleftrightarrow> buddy_pgfm_freeable (ps ! i)"
    using a by (auto simp: page_kind_defs)
qed

lemma fresh_pages_inv:
  assumes "fresh_pages ps" "0 < M"
  shows "pages_inv M {} ps"
  unfolding pages_inv_def flags_ok_def heads_ok_def bodies_ok_def orphans_ok_def types_ok_def blk_end_def
  using fresh_pagesD [OF assms(1)] assms(2) by auto

lemma fresh_heads:
  assumes "fresh_pages ps"
  shows "free_heads ps = {}" "used_heads ps = {(i, 0) | i. i < length ps \<and> buddy_pgfm_freeable (ps ! i)}"
  using fresh_pagesD [OF assms] by (auto simp: free_heads_def used_heads_def)

lemma block_size_int:
  assumes "i < 19"
  shows "sint (ucast (ORDER2BYTE i) :: u32) = 2 ^ i * 4096"
proof -
  have "(2::nat) ^ i \<le> 2 ^ 18" by (rule pow2_mono_nat) (use assms in simp)
  then have "unat (ORDER2BYTE i) < 2 ^ 31" using assms by (simp add: unat_ORDER2BYTE)
  then show ?thesis using assms by (simp add: sint_u32_ucast unat_ORDER2BYTE)
qed

lemma init_pools_inv:
  assumes "fresh_pages ps" "M \<le> 19" "M = MAX_ORDER cfg"
  shows "pools_inv M ps (buddy_init_pools cfg)"
  using assms(2,3) by (auto simp: pools_inv_def pool_inv_def buddy_init_pools_def fresh_heads [OF assms(1)]
      block_size_int)

subsection \<open>buddy_module_init establishes the invariant\<close>

lemma bkp_free_head_page:
  assumes "mm_inv cfg s" "(i, 0) \<in> mm_used s" "is_buddy_page i s"
  shows "\<exists>t. bkp_free cfg (Some i) s = Some t \<and> mm_inv cfg t \<and> mm_frame s t \<and>
    mm_used t = mm_used s - {(i, 0)} \<and> free_pages t = insert i (free_pages s)"
  using bkp_free_post [OF assms] by simp

text \<open>After the loop has passed page \<open>i\<close>, the used blocks are those of the pages from \<open>i\<close> on.\<close>

lemma buddy_init_loop_spec:
  assumes "mm_inv cfg s" "i \<le> PGFRAME_PAGE_NUMS cfg"
    "mm_used s = {(j, 0) | j. j \<in> U \<and> i \<le> j}" "free_pages s = {j \<in> U. j < i}"
    "U \<subseteq> {..<PGFRAME_PAGE_NUMS cfg}" "\<forall>j \<in> U. is_buddy_page j s"
  shows "\<exists>t. buddy_init_loop cfg i s = Some t \<and> mm_inv cfg t \<and> mm_frame s t \<and>
    mm_used t = {} \<and> free_pages t = U"
  using assms
proof (induction "PGFRAME_PAGE_NUMS cfg - i" arbitrary: i s)
  case 0
  then have i: "i = PGFRAME_PAGE_NUMS cfg" by simp
  then have "buddy_init_loop cfg i s = Some s" by (subst buddy_init_loop.simps) simp
  moreover have "mm_used s = {}" "free_pages s = U" using 0 i by auto
  ultimately show ?case using 0 by auto
next
  case (Suc d)
  then have i: "i < PGFRAME_PAGE_NUMS cfg" and d: "d = PGFRAME_PAGE_NUMS cfg - Suc i" by linarith+
  have len: "length (pgframe_pages s) = PGFRAME_PAGE_NUMS cfg"
    using Suc.prems(1) by (auto simp: mm_inv_def dest: buddy_invD(1))
  have fr: "buddy_pgfm_freeable (pgframe_pages s ! i) \<longleftrightarrow> i \<in> U"
  proof -
    have "buddy_pgfm_freeable (pgframe_pages s ! i) \<longleftrightarrow> (\<exists>k. (i, k) \<in> mm_used s)"
      using i len by (auto simp: mm_used_def used_heads_def)
    then show ?thesis using Suc.prems(3) by auto
  qed
  define step where "step = (if i \<in> U then bkp_free cfg (Some i) s else Some s)"
  have "\<exists>t. step = Some t \<and> mm_inv cfg t \<and> mm_frame s t \<and>
    mm_used t = {(j, 0) | j. j \<in> U \<and> Suc i \<le> j} \<and> free_pages t = {j \<in> U. j < Suc i}"
  proof (cases "i \<in> U")
    case True
    then have "(i, 0) \<in> mm_used s" "is_buddy_page i s" using Suc.prems by auto
    from bkp_free_head_page [OF Suc.prems(1) this] Suc.prems(3,4) True
    show ?thesis unfolding step_def by (auto simp: less_Suc_eq)
  next
    case False
    then have "{(j, 0::nat) | j. j \<in> U \<and> i \<le> j} = {(j, 0) | j. j \<in> U \<and> Suc i \<le> j}"
      "{j \<in> U. j < i} = {j \<in> U. j < Suc i}"
      by (auto simp: less_Suc_eq Suc_le_eq order_le_less)
    then show ?thesis using False Suc.prems by (auto simp: step_def)
  qed
  then obtain t where t: "step = Some t" "mm_inv cfg t" "mm_frame s t"
    "mm_used t = {(j, 0) | j. j \<in> U \<and> Suc i \<le> j}" "free_pages t = {j \<in> U. j < Suc i}"
    by blast
  have "is_buddy_page j t" if "j \<in> U" for j
    using that Suc.prems(5,6) owners_nth [OF mm_frameD(3) [OF t(3)], of j]
      owners_length [OF mm_frameD(3) [OF t(3)]] len by (auto simp: is_buddy_page_def)
  then obtain u where u: "buddy_init_loop cfg (Suc i) t = Some u" "mm_inv cfg u" "mm_frame t u"
    "mm_used u = {}" "free_pages u = U"
    using Suc.hyps(1) [OF d t(2) _ t(4,5) Suc.prems(5)] i by (metis Suc_leI)
  have "buddy_init_loop cfg i s = Some u"
    using i fr len u(1) t(1) by (simp add: buddy_init_loop.simps [of cfg i s] step_def)
  then show ?case using u mm_frame_trans [OF t(3)] by blast
qed

text \<open>The free-able pages of a fresh descriptor array.\<close>

definition freeable_pages :: "page list \<Rightarrow> nat set" where
  "freeable_pages ps = {i. i < length ps \<and> buddy_pgfm_freeable (ps ! i)}"

lemma buddy_module_init_spec:
  assumes "wf_cfg cfg" "0 < MAX_ORDER cfg" "mm_unlocked s" "fresh_pages (pgframe_pages s)"
    "length (pgframe_pages s) = PGFRAME_PAGE_NUMS cfg"
  shows "\<exists>t. buddy_module_init cfg (0, s) = Some (0, 1, t) \<and> mm_inv cfg t \<and>
    mm_used t = {} \<and> free_pages t = freeable_pages (pgframe_pages s)"
proof -
  let ?s = "s\<lparr>order_pools := buddy_init_pools cfg\<rparr>" and ?ps = "pgframe_pages s"
  let ?U = "freeable_pages ?ps"
  have "buddy_inv cfg {} ?s"
    using assms fresh_pages_inv [OF assms(4,2)] init_pools_inv [OF assms(4) _ refl, of cfg]
    by (simp add: buddy_inv_def wf_cfg_def)
  then have inv: "mm_inv cfg ?s"
    using assms by (simp add: mm_inv_def mm_unlocked_def)
  have "mm_used ?s = {(j, 0) | j. j \<in> ?U \<and> 0 \<le> j}"
    using fresh_heads(2) [OF assms(4)] by (auto simp: mm_used_def freeable_pages_def)
  moreover have "free_pages ?s = {j \<in> ?U. j < 0}"
    using fresh_heads(1) [OF assms(4)] by (simp add: free_pages_def free_set_def)
  moreover have "?U \<subseteq> {..<PGFRAME_PAGE_NUMS cfg}" "\<forall>j \<in> ?U. is_buddy_page j ?s"
    using assms(5) fresh_pagesD(3) [OF assms(4)] by (auto simp: freeable_pages_def is_buddy_page_def)
  ultimately obtain t where "buddy_init_loop cfg 0 ?s = Some t" "mm_inv cfg t" "mm_used t = {}"
    "free_pages t = ?U"
    using buddy_init_loop_spec [OF inv, of 0 ?U] by blast
  then show ?thesis by (simp add: buddy_module_init_def)
qed

subsection \<open>What a successful pgfm_module_init has checked\<close>

lemma pgfm_module_init_success:
  assumes "pgfm_module_init b m = (0, m')" "pgfm_module_init_done m = 0"
  defines "cfg \<equiv> boot_cfg b"
  defines "fs \<equiv> PAGE_UPPER_ALIGN (PGFRAME_FREE_VA_START b + pgfm_need_alloc_size b)"
    and "fe \<equiv> PAGE_DOWNS_ALIGN (PGFRAME_FREE_VA_START b + PGFRAME_FREE_SIZE b)"
  shows "PGFRAME_PA_START cfg \<le> PGFRAME_VA_START cfg" "VAL_IS_PAGE_ALIGNED (PGFRAME_PA_START cfg)"
    "VAL_IS_PAGE_ALIGNED (PGFRAME_VA_START cfg)" "VAL_IS_PAGE_ALIGNED (PGFRAME_SIZE cfg)"
    "0 < PGFRAME_SIZE cfg" "pgfm_free_in_memory b" "pgfm_need_alloc_size b \<le> PGFRAME_FREE_SIZE b"
    "pgfm_pages m' = map (pgfm_init_page cfg fs fe) [0..<nat (sint (ucast (PGFRAME_SIZE cfg div PAGE_SIZE) :: u32))]"
    "pgframe_pages_ptr m' = PGFRAME_FREE_VA_START b" "pgfm_module_init_done m' = 1" "fs < fe"
  using assms(1,2)
  by (auto simp: pgfm_module_init_def Let_def errno_defs cfg_def fs_def fe_def word_gt_0 not_le
      simp del: PAGE_SIZE_val split: if_splits)

definition boot_fits :: "pgfm_boot \<Rightarrow> bool" where
  "boot_fits b \<longleftrightarrow>
     unat (PGFRAME_VA_START (boot_cfg b)) + unat (PGFRAME_SIZE (boot_cfg b)) < 2 ^ 64 \<and>
     unat (PGFRAME_FREE_VA_START b) + unat (PGFRAME_FREE_SIZE b) < 2 ^ 64 \<and>
     sizeof_pageframe b \<noteq> 0 \<and>
     PGFRAME_PAGE_NUMS (boot_cfg b) * unat (sizeof_pageframe b) < 2 ^ 31 \<and>
     0 < MAX_ORDER (boot_cfg b) \<and> MAX_ORDER (boot_cfg b) \<le> 19"

lemma boot_page_nums: "boot_fits b \<Longrightarrow> PGFRAME_PAGE_NUMS (boot_cfg b) < 2 ^ 31"
proof -
  assume "boot_fits b"
  then have "0 < unat (sizeof_pageframe b)" "PGFRAME_PAGE_NUMS (boot_cfg b) * unat (sizeof_pageframe b) < 2 ^ 31"
    by (auto simp: boot_fits_def unat_gt_0)
  then show ?thesis
    by (metis One_nat_def Suc_leI le_less_trans mult.right_neutral mult_le_mono2)
qed

lemma unat_need_alloc_size:
  assumes "boot_fits b"
  shows "unat (pgfm_need_alloc_size b) = PGFRAME_PAGE_NUMS (boot_cfg b) * unat (sizeof_pageframe b)"
proof -
  let ?x = "PGFRAME_SIZE (boot_cfg b) div PAGE_SIZE * sizeof_pageframe b" and ?n = "PGFRAME_PAGE_NUMS (boot_cfg b) * unat (sizeof_pageframe b)"
  have lt: "?n < 2 ^ 31" using assms by (simp add: boot_fits_def)
  then have x: "unat ?x = ?n"
    unfolding PGFRAME_PAGE_NUMS_def by (subst unat_mult_lem [THEN iffD1]) simp_all
  then have "sint (ucast ?x :: u32) = int ?n" using lt by (metis sint_u32_ucast)
  then have "pgfm_need_alloc_size b = word_of_int (int ?n)"
    unfolding pgfm_need_alloc_size_def by (metis scast_eq)
  then have "pgfm_need_alloc_size b = word_of_nat ?n" by simp
  then show ?thesis using lt by (simp add: unsigned_of_nat take_bit_nat_eq_self del: of_nat_mult)
qed

lemma page_in_free_area:
  fixes F n S v :: nat
  assumes "v mod 4096 = 0"
  shows "(F + n + 4095) div 4096 * 4096 \<le> v \<longleftrightarrow> F + n \<le> v"
    and "v < (F + S) - (F + S) mod 4096 \<longleftrightarrow> v + 4096 \<le> F + S"
proof -
  obtain q where q: "v = q * 4096" using assms by (metis mod_0_imp_dvd dvd_def mult.commute)
  show "(F + n + 4095) div 4096 * 4096 \<le> v \<longleftrightarrow> F + n \<le> v"
  proof -
    have "(F + n + 4095) div 4096 \<le> q \<longleftrightarrow> (F + n + 4095) div 4096 < Suc q" by (rule less_Suc_eq_le [symmetric])
    also have "\<dots> \<longleftrightarrow> F + n + 4095 < Suc q * 4096" by (rule div_less_iff_less_mult) simp
    also have "\<dots> \<longleftrightarrow> F + n \<le> q * 4096" by simp linarith
    finally show ?thesis unfolding q by simp
  qed
  show "v < (F + S) - (F + S) mod 4096 \<longleftrightarrow> v + 4096 \<le> F + S"
  proof -
    have "q < (F + S) div 4096 \<longleftrightarrow> Suc q \<le> (F + S) div 4096" by (rule Suc_le_eq [symmetric])
    also have "\<dots> \<longleftrightarrow> Suc q * 4096 \<le> F + S" by (rule less_eq_div_iff_mult_less_eq) simp
    finally show ?thesis unfolding q minus_mod_eq_div_mult by (simp add: add.commute)
  qed
qed

lemma wf_boot_cfg:
  assumes "pgfm_module_init b m = (0, m')" "pgfm_module_init_done m = 0" "boot_fits b"
  shows "wf_cfg (boot_cfg b)"
  using pgfm_module_init_success [OF assms(1,2)] boot_page_nums [OF assms(3)] assms(3)
  by (simp add: wf_cfg_def boot_fits_def)

text \<open>The pages that end up free-able: those inside the free area and past the descriptor array.\<close>

definition boot_free_pages :: "pgfm_boot \<Rightarrow> nat set" where
  "boot_free_pages b = {i. i < PGFRAME_PAGE_NUMS (boot_cfg b) \<and>
     unat (PGFRAME_FREE_VA_START b) + PGFRAME_PAGE_NUMS (boot_cfg b) * unat (sizeof_pageframe b)
       \<le> unat (pg2va (boot_cfg b) i) \<and>
     unat (pg2va (boot_cfg b) i) + 4096 \<le> unat (PGFRAME_FREE_VA_START b) + unat (PGFRAME_FREE_SIZE b)}"

lemma free_area_bounds:
  assumes "pgfm_module_init b m = (0, m')" "pgfm_module_init_done m = 0" "boot_fits b"
  shows "unat (PAGE_UPPER_ALIGN (PGFRAME_FREE_VA_START b + pgfm_need_alloc_size b)) =
      (unat (PGFRAME_FREE_VA_START b) + PGFRAME_PAGE_NUMS (boot_cfg b) * unat (sizeof_pageframe b) + 4095) div 4096 * 4096"
    and "unat (PAGE_DOWNS_ALIGN (PGFRAME_FREE_VA_START b + PGFRAME_FREE_SIZE b)) =
      (unat (PGFRAME_FREE_VA_START b) + unat (PGFRAME_FREE_SIZE b)) -
      (unat (PGFRAME_FREE_VA_START b) + unat (PGFRAME_FREE_SIZE b)) mod 4096"
proof -
  let ?F = "unat (PGFRAME_FREE_VA_START b)" and ?S = "unat (PGFRAME_FREE_SIZE b)"
  note K = pgfm_module_init_success [OF assms(1,2)] and wf = wf_boot_cfg [OF assms]
  have fe: "unat (PGFRAME_FREE_VA_START b + PGFRAME_FREE_SIZE b) = ?F + ?S"
    using assms(3) by (simp add: boot_fits_def unat_word_ariths)
  then show "unat (PAGE_DOWNS_ALIGN (PGFRAME_FREE_VA_START b + PGFRAME_FREE_SIZE b)) =
      (?F + ?S) - (?F + ?S) mod 4096"
    by (simp add: unat_PAGE_DOWNS_ALIGN)
  have "?F + ?S \<le> unat (PGFRAME_VA_END (boot_cfg b))"
    using K(6) fe by (simp add: pgfm_free_in_memory_def Let_def word_le_nat_alt)
  moreover have "unat (PGFRAME_VA_END (boot_cfg b)) + 4096 \<le> 2 ^ 64"
  proof -
    have "unat (PGFRAME_VA_START (boot_cfg b)) mod 4096 = 0" using K(3) by (simp add: page_aligned_iff)
    then obtain v where v: "unat (PGFRAME_VA_START (boot_cfg b)) = v * 4096"
      by (metis mod_0_imp_dvd dvd_def mult.commute)
    moreover have "unat (PGFRAME_VA_END (boot_cfg b)) < 2 ^ 64"
      using unsigned_less [of "PGFRAME_VA_END (boot_cfg b)"] by simp
    ultimately have "(v + PGFRAME_PAGE_NUMS (boot_cfg b)) * 4096 < 2 ^ 52 * 4096"
      using unat_VA_END [OF wf] by simp
    then have "v + PGFRAME_PAGE_NUMS (boot_cfg b) + 1 \<le> 2 ^ 52" by simp
    then have "(v + PGFRAME_PAGE_NUMS (boot_cfg b) + 1) * 4096 \<le> 2 ^ 52 * 4096" by (rule mult_le_mono1)
    then show ?thesis using unat_VA_END [OF wf] v by simp
  qed
  moreover have n: "unat (pgfm_need_alloc_size b) \<le> ?S" using K(7) by (simp add: word_le_nat_alt)
  ultimately have lim: "?F + unat (pgfm_need_alloc_size b) + 4095 < 2 ^ 64" by linarith
  then have "unat (PGFRAME_FREE_VA_START b + pgfm_need_alloc_size b) = ?F + unat (pgfm_need_alloc_size b)"
    by (simp add: unat_word_ariths)
  with lim unat_need_alloc_size [OF assms(3)]
  show "unat (PAGE_UPPER_ALIGN (PGFRAME_FREE_VA_START b + pgfm_need_alloc_size b)) =
      (?F + PGFRAME_PAGE_NUMS (boot_cfg b) * unat (sizeof_pageframe b) + 4095) div 4096 * 4096"
    by (simp add: unat_PAGE_UPPER_ALIGN)
qed

lemma pgfm_module_init_pages:
  assumes "pgfm_module_init b m = (0, m')" "pgfm_module_init_done m = 0" "boot_fits b"
  shows "length (pgfm_pages m') = PGFRAME_PAGE_NUMS (boot_cfg b)" "fresh_pages (pgfm_pages m')"
    "freeable_pages (pgfm_pages m') = boot_free_pages b"
proof -
  let ?cfg = "boot_cfg b" and ?fs = "PAGE_UPPER_ALIGN (PGFRAME_FREE_VA_START b + pgfm_need_alloc_size b)"
    and ?fe = "PAGE_DOWNS_ALIGN (PGFRAME_FREE_VA_START b + PGFRAME_FREE_SIZE b)"
  note K = pgfm_module_init_success [OF assms(1,2)] and wf = wf_boot_cfg [OF assms]
    and fb = free_area_bounds [OF assms]
  have "sint (ucast (PGFRAME_SIZE ?cfg div PAGE_SIZE) :: u32) = int (PGFRAME_PAGE_NUMS ?cfg)"
    unfolding PGFRAME_PAGE_NUMS_def
    by (rule sint_u32_ucast) (use boot_page_nums [OF assms(3)] in \<open>simp only: PGFRAME_PAGE_NUMS_def\<close>)
  then have ps: "pgfm_pages m' = map (pgfm_init_page ?cfg ?fs ?fe) [0..<PGFRAME_PAGE_NUMS ?cfg]"
    using K(8) by simp
  then show "length (pgfm_pages m') = PGFRAME_PAGE_NUMS ?cfg" by simp
  show "fresh_pages (pgfm_pages m')"
    by (auto simp: ps fresh_pages_def pgfm_init_page_def buddy_pgfm_freeable_def is_static_def)
  have "pg2va ?cfg i \<ge> ?fs \<and> pg2va ?cfg i < ?fe \<longleftrightarrow> i \<in> boot_free_pages b"
    if i: "i < PGFRAME_PAGE_NUMS ?cfg" for i
  proof -
    have "unat (PGFRAME_VA_START ?cfg) mod 4096 = 0" using K(3) by (simp add: page_aligned_iff)
    then have "unat (pg2va ?cfg i) mod 4096 = 0" unfolding unat_pg2va [OF wf i] by presburger
    note page_in_free_area [OF this]
    then show ?thesis
      unfolding word_le_nat_alt word_less_nat_alt fb boot_free_pages_def using i by simp
  qed
  then have "buddy_pgfm_freeable (pgfm_pages m' ! i) \<longleftrightarrow> i \<in> boot_free_pages b"
    if "i < PGFRAME_PAGE_NUMS ?cfg" for i
    using that by (simp add: ps pgfm_init_page_def buddy_pgfm_freeable_def pg_flag_defs)
  then show "freeable_pages (pgfm_pages m') = boot_free_pages b"
    unfolding freeable_pages_def by (auto simp: ps boot_free_pages_def)
qed

subsection \<open>The self-checks accept every state the allocator can reach\<close>

text \<open>
  The value of \<^verbatim>\<open>bef_count\<close> before page \<open>i\<close>: the sentinel while no head has been seen, then the
  number of body pages still due for the last head.
\<close>

definition bef_ok :: "page list \<Rightarrow> nat \<Rightarrow> int \<Rightarrow> bool" where
  "bef_ok ps i c \<longleftrightarrow> (c = - 233333 \<and> (\<forall>j < i. \<not> is_head (ps ! j))) \<or>
     (\<exists>l < i. is_head (ps ! l) \<and> (\<forall>j. l < j \<and> j < i \<longrightarrow> \<not> is_head (ps ! j)) \<and> c = int (blk_end ps l - i))"

lemma pages_slfcheck_page_kind:
  assumes "pgtype pg \<noteq> VMA_AREA"
  shows "is_static pg \<Longrightarrow> pages_slfcheck_page cfg pg c = Inr c"
    and "is_body pg \<Longrightarrow> buddy_order pg = MAX_ORDER cfg \<Longrightarrow> pages_slfcheck_page cfg pg c = Inr (c - 1)"
    and "is_head pg \<Longrightarrow> c = - 233333 \<or> c = 0 \<Longrightarrow> pages_slfcheck_page cfg pg c = Inr (2 ^ buddy_order pg - 1)"
  using assms by (cases "pgtype pg"; auto simp: pages_slfcheck_page_def page_kind_defs)+

lemma bef_ok_step:
  assumes inv: "pages_inv (MAX_ORDER cfg) {} ps" and i: "i < length ps"
    and vma: "pgtype (ps ! i) \<noteq> VMA_AREA" and c: "bef_ok ps i c"
  shows "\<exists>c'. pages_slfcheck_page cfg (ps ! i) c = Inr c' \<and> bef_ok ps (Suc i) c'"
proof -
  note I = pages_invD [OF inv] and K = pages_slfcheck_page_kind [OF vma]
  consider (h) "is_head (ps ! i)" | (b) "is_body (ps ! i)" | (s) "is_static (ps ! i)"
    using I(1) i by (auto simp: flags_ok_def)
  then show ?thesis
  proof cases
    case h
    have "c = - 233333 \<or> c = 0"
      using c blocks_apart [OF I(2) _ _ i h] i by (auto simp: bef_ok_def)
    moreover have "(2::int) ^ buddy_order (ps ! i) - 1 = int (blk_end ps i - Suc i)"
      by (simp add: blk_end_def of_nat_diff Suc_leI)
    then have "bef_ok ps (Suc i) (2 ^ buddy_order (ps ! i) - 1)"
      using h unfolding bef_ok_def by (intro disjI2 exI [of _ i]) auto
    ultimately show ?thesis using K(3) [OF h] by blast
  next
    case b
    then obtain h where h: "h < i" "is_head (ps ! h)" "i < blk_end ps h" and o: "buddy_order (ps ! i) = MAX_ORDER cfg"
      using I(3) i by (auto simp: bodies_ok_def)
    then obtain l where l: "l < i" "is_head (ps ! l)" "\<forall>j. l < j \<and> j < i \<longrightarrow> \<not> is_head (ps ! j)"
      "c = int (blk_end ps l - i)"
      using c unfolding bef_ok_def by auto
    have "h = l"
    proof (cases h l rule: linorder_cases)
      case less
      then have "blk_end ps h \<le> l" using blocks_apart [OF I(2) _ h(2) _ l(2)] i h(1) l(1) by simp
      then show ?thesis using h(3) l(1) by simp
    qed (use l(3) h in auto)
    then have "c - 1 = int (blk_end ps l - Suc i)" using l(4) h(3) by simp
    moreover have "\<forall>j. l < j \<and> j < Suc i \<longrightarrow> \<not> is_head (ps ! j)" using l(3) b less_Suc_eq by blast
    ultimately have "bef_ok ps (Suc i) (c - 1)"
      using l(1,2) unfolding bef_ok_def by (intro disjI2 exI [of _ l]) simp
    then show ?thesis using K(2) [OF b o] by blast
  next
    case s
    have nh: "\<not> is_head (ps ! i)" using s by blast
    have "blk_end ps l \<le> i" if "l < i" "is_head (ps ! l)" for l
      using heads_okD(3) [OF I(2) _ that(2), of i] that(1) i s by (meson kinds_exclusive(3) less_trans not_le)
    then have "bef_ok ps (Suc i) c"
      using c nh unfolding bef_ok_def less_Suc_eq by fastforce
    then show ?thesis using K(1) [OF s] by blast
  qed
qed

lemma pages_slfcheck_loop_ok:
  assumes "pages_inv (MAX_ORDER cfg) {} (pgframe_pages s)" "length (pgframe_pages s) = PGFRAME_PAGE_NUMS cfg"
    "\<forall>pg \<in> set (pgframe_pages s). pgtype pg \<noteq> VMA_AREA" "mm_unlocked s"
  shows "bef_ok (pgframe_pages s) i c \<Longrightarrow> pages_slfcheck_loop cfg i c s = Some (0, s)"
proof (induction "PGFRAME_PAGE_NUMS cfg - i" arbitrary: i c)
  case 0
  then show ?case by (subst pages_slfcheck_loop.simps) simp
next
  case (Suc d)
  then have i: "i < PGFRAME_PAGE_NUMS cfg" and d: "d = PGFRAME_PAGE_NUMS cfg - Suc i" by linarith+
  obtain c' where c': "pages_slfcheck_page cfg (pgframe_pages s ! i) c = Inr c'" "bef_ok (pgframe_pages s) (Suc i) c'"
    using bef_ok_step [OF assms(1) _ _ Suc.prems] assms(2,3) i by auto
  have "s\<lparr>held := insert (PageLk i) (held s) - {PageLk i}\<rparr> = s" using mm_unlockedD [OF assms(4)] by simp
  then show ?case
    using i c'(1) Suc.hyps(1) [OF d c'(2)] assms(2) mm_unlockedD(1) [OF assms(4)]
    by (subst pages_slfcheck_loop.simps) (simp add: unlock_def)
qed

lemma buddy_slfcheck_list_ok:
  assumes "\<forall>p \<in> set ps. p < length (pgframe_pages s) \<and> buddy_order (pgframe_pages s ! p) = i"
  shows "buddy_slfcheck_list i ps n err s = Some (n - int (length ps), err)"
  using assms by (induction ps arbitrary: n) auto

lemma buddy_slfcheck_loop_ok:
  assumes "mm_inv cfg s"
  shows "buddy_slfcheck_loop cfg i s = Some (0, s)"
proof (induction "MAX_ORDER cfg - i" arbitrary: i)
  case 0
  then show ?case by (subst buddy_slfcheck_loop.simps) simp
next
  case (Suc d)
  then have i: "i < MAX_ORDER cfg" and d: "d = MAX_ORDER cfg - Suc i" by linarith+
  have inv: "buddy_inv cfg {} s" and un: "mm_unlocked s" using assms by (simp_all add: mm_inv_def)
  note I = buddy_invD [OF inv]
  let ?q = "order_pools s ! i" and ?s = "s\<lparr>held := insert (PoolLk i) (held s)\<rparr>"
  have q: "pool_inv (pgframe_pages s) i ?q" using I(3) i by (simp add: pools_inv_def)
  then have bs: "word_of_int (block_size ?q) = (push_bit i 1 * PAGE_SIZE :: u64)"
    by (simp add: pool_inv_def push_bit_eq_mult)
  have ls: "buddy_slfcheck_list i (pool_list ?q) (rest_block_num ?q) False ?s = Some (0, False)"
    using q headsD(1) by (subst buddy_slfcheck_list_ok) (auto simp: pool_inv_def)
  have "s\<lparr>held := insert (PoolLk i) (held s) - {PoolLk i}\<rparr> = s" using mm_unlockedD [OF un] by simp
  then show ?case
    using i bs ls Suc.hyps(1) [OF d] I(4) mm_unlockedD(2) [OF un]
    by (subst buddy_slfcheck_loop.simps) (simp add: unlock_def)
qed

subsection \<open>Properties of start-up and of the self-checks\<close>

definition demo_boot :: pgfm_boot where
  "demo_boot = \<lparr>boot_cfg = \<lparr>PGFRAME_PA_START = 0x80200000, PGFRAME_VA_START = 0x3000000000,
       PGFRAME_SIZE = 0x4000, MAX_ORDER = 3\<rparr>,
     PGFRAME_PA_KSTART = 0x80200000, PGFRAME_K_SIZE = 0x1000,
     PGFRAME_FREE_VA_START = 0x3000001000, PGFRAME_FREE_SIZE = 0x3000, sizeof_pageframe = 32\<rparr>"

definition demo_module :: pgfm_module where
  "demo_module = \<lparr>pgfm_module_init_done = 0, pgframe_pages_ptr = 0, pgfm_pages = []\<rparr>"

definition demo_mm :: mm where
  "demo_mm = \<lparr>held = {}, mem = (\<lambda>_. 0),
     pgframe_pages = pgfm_pages (snd (pgfm_module_init demo_boot demo_module)), order_pools = []\<rparr>"

lemma demo_boot_ok:
  "fst (pgfm_module_init demo_boot demo_module) = 0" "pgfm_module_init_done demo_module = 0"
  "boot_fits demo_boot"
proof -
  show "fst (pgfm_module_init demo_boot demo_module) = 0" by code_simp
  show "pgfm_module_init_done demo_module = 0" by (simp add: demo_module_def)
  show "boot_fits demo_boot" by (simp add: boot_fits_def demo_boot_def PGFRAME_PAGE_NUMS_def)
qed

text \<open>
  C8: The start-up of the page allocator. When \<^verbatim>\<open>pgfm_module_init\<close> accepts the ranges the
  arch port describes, \<^verbatim>\<open>buddy_module_init\<close> run on the descriptors it wrote succeeds and
  leaves the allocator's invariant, no block in use, and as free pages exactly the whole pages
  inside the free area that do not overlap the descriptor array placed at its beginning.
\<close>

theorem boot_page_allocator:
  assumes "pgfm_module_init b m = (0, m')" "pgfm_module_init_done m = 0" "boot_fits b"
    and "pgframe_pages s = pgfm_pages m'" "mm_unlocked s"
  shows "\<exists>t. buddy_module_init (boot_cfg b) (0, s) = Some (0, 1, t) \<and> mm_inv (boot_cfg b) t \<and>
    mm_used t = {} \<and>
    free_pages t = {i. i < PGFRAME_PAGE_NUMS (boot_cfg b) \<and>
      unat (pgframe_pages_ptr m') + PGFRAME_PAGE_NUMS (boot_cfg b) * unat (sizeof_pageframe b)
        \<le> unat (pg2va (boot_cfg b) i) \<and>
      unat (pg2va (boot_cfg b) i) + 4096 \<le> unat (PGFRAME_FREE_VA_START b) + unat (PGFRAME_FREE_SIZE b)}"
proof -
  have "0 < MAX_ORDER (boot_cfg b)" using assms(3) by (simp add: boot_fits_def)
  then show ?thesis
    using buddy_module_init_spec [OF wf_boot_cfg [OF assms(1-3)] _ assms(5)] pgfm_module_init_pages [OF assms(1-3)]
      pgfm_module_init_success(9) [OF assms(1,2)]
    unfolding assms(4) boot_free_pages_def by simp
qed

theorem boot_page_allocator_witness:
  "\<exists>t. buddy_module_init (boot_cfg demo_boot) (0, demo_mm) = Some (0, 1, t) \<and>
     mm_inv (boot_cfg demo_boot) t \<and> mm_used t = {}"
proof -
  have "pgfm_module_init demo_boot demo_module = (0, snd (pgfm_module_init demo_boot demo_module))"
    using demo_boot_ok(1) by (metis prod.collapse)
  then show ?thesis
    using boot_page_allocator [OF _ demo_boot_ok(2,3), of "snd (pgfm_module_init demo_boot demo_module)" demo_mm]
    by (auto simp: demo_mm_def mm_unlocked_def)
qed

text \<open>
  \<^verbatim>\<open>pgfm_module_init\<close> fails closed: whenever it reports an error the descriptor pointer is
  NULL, the descriptors are untouched and the module stays uninitialised; a second call after a
  success changes nothing.
\<close>

theorem pgfm_module_init_fails_closed:
  "pgfm_module_init b m = (r, m') \<Longrightarrow> pgfm_module_init_done m = 0 \<Longrightarrow> r \<noteq> 0 \<Longrightarrow>
     (r = - EFAULT \<or> r = - ENOMEM) \<and> m' = m\<lparr>pgframe_pages_ptr := 0\<rparr> \<and>
     (\<forall>m''. pgfm_module_init_done m'' \<noteq> 0 \<longrightarrow> pgfm_module_init b m'' = (0, m''))"
  unfolding pgfm_module_init_def Let_def by (auto split: if_splits)

theorem pgfm_module_init_fails_closed_witness:
  "pgfm_module_init (demo_boot\<lparr>PGFRAME_FREE_SIZE := 0x3001\<rparr>) demo_module =
     (- EFAULT, demo_module\<lparr>pgframe_pages_ptr := 0\<rparr>)"
proof -
  let ?b = "demo_boot\<lparr>PGFRAME_FREE_SIZE := 0x3001\<rparr>"
  have f: "fst (pgfm_module_init ?b demo_module) = - 14" by code_simp
  have "pgfm_module_init ?b demo_module = (- 14, snd (pgfm_module_init ?b demo_module))"
    using f by (metis prod.collapse)
  from pgfm_module_init_fails_closed [OF this demo_boot_ok(2)] this show ?thesis by (simp add: errno_defs)
qed

lemma pages_slfcheck_ok:
  assumes "mm_inv cfg s" "\<forall>pg \<in> set (pgframe_pages s). pgtype pg \<noteq> VMA_AREA"
  shows "pages_slfcheck cfg s = Some (0, s)"
proof -
  have "buddy_inv cfg {} s" "mm_unlocked s" using assms(1) by (simp_all add: mm_inv_def)
  then show ?thesis
    unfolding pages_slfcheck_def
    by (intro pages_slfcheck_loop_ok assms(2)) (auto simp: bef_ok_def dest: buddy_invD)
qed

text \<open>
  The self-checks accept every good state: \<^verbatim>\<open>buddy_slfcheck\<close> returns 0 on every state with the allocator's invariant (counters
  equal to list lengths, orders equal to the pool's, block sizes right), and \<^verbatim>\<open>pages_slfcheck\<close> does when moreover no page belongs to a memory
  area; both leave the state and the locks alone.
\<close>

theorem slfchecks_accept:
  assumes "mm_inv cfg s"
  shows "buddy_slfcheck cfg s = Some (0, s) \<and>
    ((\<forall>pg \<in> set (pgframe_pages s). pgtype pg \<noteq> VMA_AREA) \<longrightarrow> pages_slfcheck cfg s = Some (0, s))"
  unfolding buddy_slfcheck_def using buddy_slfcheck_loop_ok [OF assms] pages_slfcheck_ok [OF assms] by blast

theorem slfchecks_accept_witness:
  "buddy_slfcheck demo_cfg demo_used = Some (0, demo_used) \<and> pages_slfcheck demo_cfg demo_used = Some (0, demo_used)"
  using slfchecks_accept [OF demo_used_inv] by (simp add: demo_used_def)

end
