(* ===== verification/ListHead.thy ===== *)
theory ListHead
  imports Prelude
begin

text \<open>
  The doubly linked lists of \<^verbatim>\<open>include/aco/list.h\<close> at the level of pointers. The heap maps the
  address of a node to its \<^verbatim>\<open>prev\<close> and \<^verbatim>\<open>next\<close> fields; reading or writing through an address
  that holds no node has no result. Every operation is the sequence of assignments of the
  source. The predicate \<open>is_list h hd xs\<close> says that the nodes \<open>xs\<close> hang on the head \<open>hd\<close> in that
  order, and each operation is shown to be the expected operation on \<open>xs\<close> that touches no other
  node.
\<close>

subsection \<open>Nodes and their fields\<close>

record list_head =
  prev :: u64
  "next" :: u64

type_synonym lheap = "u64 \<rightharpoonup> list_head"

definition get_next :: "u64 \<Rightarrow> lheap \<Rightarrow> u64 option" where
  "get_next a h = map_option next (h a)"

definition get_prev :: "u64 \<Rightarrow> lheap \<Rightarrow> u64 option" where
  "get_prev a h = map_option prev (h a)"

definition set_next :: "u64 \<Rightarrow> u64 \<Rightarrow> lheap \<Rightarrow> lheap option" where
  "set_next a v h = (case h a of None \<Rightarrow> None | Some n \<Rightarrow> Some (h(a \<mapsto> n\<lparr>next := v\<rparr>)))"

definition set_prev :: "u64 \<Rightarrow> u64 \<Rightarrow> lheap \<Rightarrow> lheap option" where
  "set_prev a v h = (case h a of None \<Rightarrow> None | Some n \<Rightarrow> Some (h(a \<mapsto> n\<lparr>prev := v\<rparr>)))"

subsection \<open>The operations\<close>

definition INIT_LIST_HEAD :: "u64 \<Rightarrow> lheap \<Rightarrow> lheap option" where
  "INIT_LIST_HEAD head h = do {
     h \<leftarrow> set_next head head h;
     set_prev head head h }"

definition INIT_NODE :: "u64 \<Rightarrow> lheap \<Rightarrow> lheap option" where
  "INIT_NODE node h = do {
     h \<leftarrow> set_next node 0 h;
     set_prev node 0 h }"

definition list_add :: "u64 \<Rightarrow> u64 \<Rightarrow> lheap \<Rightarrow> lheap option" where
  "list_add node head h = do {
     nx \<leftarrow> get_next head h;
     h \<leftarrow> set_prev nx node h;
     h \<leftarrow> set_next node nx h;
     h \<leftarrow> set_prev node head h;
     set_next head node h }"

definition node_add_aft :: "u64 \<Rightarrow> u64 \<Rightarrow> lheap \<Rightarrow> lheap option" where
  "node_add_aft list_node join_node h = list_add join_node list_node h"

definition list_add_tail :: "u64 \<Rightarrow> u64 \<Rightarrow> lheap \<Rightarrow> lheap option" where
  "list_add_tail node head h = do {
     pv \<leftarrow> get_prev head h;
     h \<leftarrow> set_next pv node h;
     h \<leftarrow> set_next node head h;
     h \<leftarrow> set_prev node pv h;
     set_prev head node h }"

definition node_add_bef :: "u64 \<Rightarrow> u64 \<Rightarrow> lheap \<Rightarrow> lheap option" where
  "node_add_bef list_node join_node h = list_add_tail join_node list_node h"

definition list_del :: "u64 \<Rightarrow> lheap \<Rightarrow> lheap option" where
  "list_del node h = do {
     nx \<leftarrow> get_next node h;
     pv \<leftarrow> get_prev node h;
     h \<leftarrow> set_prev nx pv h;
     h \<leftarrow> set_next pv nx h;
     h \<leftarrow> set_prev node 0 h;
     set_next node 0 h }"

definition list_del_init :: "u64 \<Rightarrow> lheap \<Rightarrow> lheap option" where
  "list_del_init node h = do {
     h \<leftarrow> list_del node h;
     INIT_LIST_HEAD node h }"

definition list_empty :: "u64 \<Rightarrow> lheap \<Rightarrow> bool option" where
  "list_empty head h = do {
     nx \<leftarrow> get_next head h;
     Some (nx = head) }"

definition list_is_singular :: "u64 \<Rightarrow> lheap \<Rightarrow> bool option" where
  "list_is_singular head h = do {
     e \<leftarrow> list_empty head h;
     if e then Some False
     else do {
       pv \<leftarrow> get_prev head h;
       nx \<leftarrow> get_next head h;
       Some (pv = nx) } }"

definition list_splice :: "u64 \<Rightarrow> u64 \<Rightarrow> lheap \<Rightarrow> lheap option" where
  "list_splice ls head h = do {
     head_first \<leftarrow> get_next head h;
     list_first \<leftarrow> get_next ls h;
     list_last \<leftarrow> get_prev ls h;
     e \<leftarrow> list_empty ls h;
     if e then Some h
     else do {
       h \<leftarrow> set_next head list_first h;
       h \<leftarrow> set_prev list_first head h;
       h \<leftarrow> set_next list_last head_first h;
       set_prev head_first list_last h } }"

definition list_splice_tail :: "u64 \<Rightarrow> u64 \<Rightarrow> lheap \<Rightarrow> lheap option" where
  "list_splice_tail ls head h = do {
     head_last \<leftarrow> get_prev head h;
     list_first \<leftarrow> get_next ls h;
     list_last \<leftarrow> get_prev ls h;
     e \<leftarrow> list_empty ls h;
     if e then Some h
     else do {
       h \<leftarrow> set_prev head list_last h;
       h \<leftarrow> set_next list_last head h;
       h \<leftarrow> set_prev list_first head_last h;
       set_next head_last list_first h } }"

definition list_splice_init :: "u64 \<Rightarrow> u64 \<Rightarrow> lheap \<Rightarrow> lheap option" where
  "list_splice_init ls head h = do {
     h \<leftarrow> list_splice ls head h;
     INIT_LIST_HEAD ls h }"

definition list_splice_tail_init :: "u64 \<Rightarrow> u64 \<Rightarrow> lheap \<Rightarrow> lheap option" where
  "list_splice_tail_init ls head h = do {
     h \<leftarrow> list_splice_tail ls head h;
     INIT_LIST_HEAD ls h }"

definition list_cut_position :: "u64 \<Rightarrow> u64 \<Rightarrow> u64 \<Rightarrow> lheap \<Rightarrow> lheap option" where
  "list_cut_position head_to head_from node h = do {
     head_from_first \<leftarrow> get_next head_from h;
     e \<leftarrow> list_empty head_from h;
     if e then Some h
     else if head_from = node then INIT_LIST_HEAD head_to h
     else do {
       nx \<leftarrow> get_next node h;
       h \<leftarrow> set_next head_from nx h;
       fx \<leftarrow> get_next head_from h;
       h \<leftarrow> set_prev fx head_from h;
       h \<leftarrow> set_prev head_to node h;
       h \<leftarrow> set_next node head_to h;
       h \<leftarrow> set_next head_to head_from_first h;
       tx \<leftarrow> get_next head_to h;
       set_prev tx head_to h } }"

definition list_move :: "u64 \<Rightarrow> u64 \<Rightarrow> lheap \<Rightarrow> lheap option" where
  "list_move node head h = do {
     h \<leftarrow> list_del node h;
     list_add node head h }"

definition list_move_tail :: "u64 \<Rightarrow> u64 \<Rightarrow> lheap \<Rightarrow> lheap option" where
  "list_move_tail node head h = do {
     h \<leftarrow> list_del node h;
     list_add_tail node head h }"

text \<open>The first and the last node, which \<^verbatim>\<open>list_first_entry\<close> and \<^verbatim>\<open>list_last_entry\<close> turn into entries.\<close>

definition list_first_node :: "u64 \<Rightarrow> lheap \<Rightarrow> u64 option" where
  "list_first_node head h = get_next head h"

definition list_last_node :: "u64 \<Rightarrow> lheap \<Rightarrow> u64 option" where
  "list_last_node head h = get_prev head h"

text \<open>
  \<^verbatim>\<open>list_for_each\<close> with a loop body that leaves the list alone, and \<^verbatim>\<open>list_for_each_safe\<close>, whose
  body may change the heap. A loop that never reaches the head again has no result.
\<close>

partial_function (option) list_for_each_loop ::
  "u64 \<Rightarrow> (u64 \<Rightarrow> 's \<Rightarrow> 's option) \<Rightarrow> u64 \<Rightarrow> lheap \<Rightarrow> 's \<Rightarrow> 's option" where
  "list_for_each_loop head body node h s =
     (if node = head then Some s
      else do {
        s \<leftarrow> body node s;
        node' \<leftarrow> get_next node h;
        list_for_each_loop head body node' h s })"

definition list_for_each :: "u64 \<Rightarrow> (u64 \<Rightarrow> 's \<Rightarrow> 's option) \<Rightarrow> lheap \<Rightarrow> 's \<Rightarrow> 's option" where
  "list_for_each head body h s = do {
     node \<leftarrow> get_next head h;
     list_for_each_loop head body node h s }"

partial_function (option) list_for_each_safe_loop ::
  "u64 \<Rightarrow> (u64 \<Rightarrow> lheap \<times> 's \<Rightarrow> (lheap \<times> 's) option) \<Rightarrow> u64 \<Rightarrow> u64 \<Rightarrow> lheap \<Rightarrow> 's \<Rightarrow> (lheap \<times> 's) option" where
  "list_for_each_safe_loop head body node safe h s =
     (if node = head then Some (h, s)
      else do {
        hs \<leftarrow> body node (h, s);
        safe' \<leftarrow> get_next safe (fst hs);
        list_for_each_safe_loop head body safe safe' (fst hs) (snd hs) })"

definition list_for_each_safe ::
  "u64 \<Rightarrow> (u64 \<Rightarrow> lheap \<times> 's \<Rightarrow> (lheap \<times> 's) option) \<Rightarrow> lheap \<Rightarrow> 's \<Rightarrow> (lheap \<times> 's) option" where
  "list_for_each_safe head body h s = do {
     node \<leftarrow> get_next head h;
     safe \<leftarrow> get_next node h;
     list_for_each_safe_loop head body node safe h s }"

subsection \<open>Chains of nodes\<close>

fun chain :: "lheap \<Rightarrow> u64 \<Rightarrow> u64 list \<Rightarrow> u64 \<Rightarrow> bool" where
  "chain h a [] b \<longleftrightarrow> get_next a h = Some b \<and> get_prev b h = Some a"
| "chain h a (x # xs) b \<longleftrightarrow> get_next a h = Some x \<and> get_prev x h = Some a \<and> chain h x xs b"

definition is_list :: "lheap \<Rightarrow> u64 \<Rightarrow> u64 list \<Rightarrow> bool" where
  "is_list h l xs \<longleftrightarrow> distinct (l # xs) \<and> chain h l xs l"

lemma chain_append [simp]: "chain h a (xs @ x # ys) b \<longleftrightarrow> chain h a xs x \<and> chain h x ys b"
  by (induction xs arbitrary: a) auto

lemma chain_cong:
  "\<lbrakk>\<forall>y \<in> set (a # xs). get_next y h' = get_next y h; \<forall>y \<in> set (xs @ [b]). get_prev y h' = get_prev y h\<rbrakk>
     \<Longrightarrow> chain h' a xs b = chain h a xs b"
  by (induction xs arbitrary: a) auto

lemma chain_dom: "chain h a xs b \<Longrightarrow> set (a # xs @ [b]) \<subseteq> dom h"
  by (induction xs arbitrary: a) (auto simp: get_next_def get_prev_def)

lemma is_list_dom: "is_list h l xs \<Longrightarrow> set (l # xs) \<subseteq> dom h"
  using chain_dom [of h l xs l] by (simp add: is_list_def)

text \<open>A list is not affected by changes to other nodes.\<close>

lemma is_list_frame:
  assumes "is_list h l xs" "\<forall>a \<in> set (l # xs). h' a = h a"
  shows "is_list h' l xs"
proof -
  have "chain h' l xs l = chain h l xs l"
    by (rule chain_cong) (use assms(2) in \<open>auto simp: get_next_def get_prev_def\<close>)
  then show ?thesis using assms(1) by (simp add: is_list_def)
qed

subsection \<open>Field updates\<close>

definition upd_next :: "u64 \<Rightarrow> u64 \<Rightarrow> lheap \<Rightarrow> lheap" where
  "upd_next a v h = h(a := map_option (\<lambda>n. n\<lparr>next := v\<rparr>) (h a))"

definition upd_prev :: "u64 \<Rightarrow> u64 \<Rightarrow> lheap \<Rightarrow> lheap" where
  "upd_prev a v h = h(a := map_option (\<lambda>n. n\<lparr>prev := v\<rparr>) (h a))"

lemma set_next_in [simp]: "a \<in> dom h \<Longrightarrow> set_next a v h = Some (upd_next a v h)"
  by (auto simp: set_next_def upd_next_def)

lemma set_prev_in [simp]: "a \<in> dom h \<Longrightarrow> set_prev a v h = Some (upd_prev a v h)"
  by (auto simp: set_prev_def upd_prev_def)

lemma dom_upd [simp]: "dom (upd_next a v h) = dom h" "dom (upd_prev a v h) = dom h"
  by (auto simp: upd_next_def upd_prev_def dom_def)

lemma get_upd [simp]:
  "a \<in> dom h \<Longrightarrow> get_next x (upd_next a v h) = (if x = a then Some v else get_next x h)"
  "get_next x (upd_prev a v h) = get_next x h"
  "a \<in> dom h \<Longrightarrow> get_prev x (upd_prev a v h) = (if x = a then Some v else get_prev x h)"
  "get_prev x (upd_next a v h) = get_prev x h"
  by (cases "h a"; auto simp: upd_next_def upd_prev_def get_next_def get_prev_def)+

lemma get_upd_other [simp]:
  "x \<noteq> a \<Longrightarrow> get_next x (upd_next a v h) = get_next x h"
  "x \<noteq> a \<Longrightarrow> get_prev x (upd_prev a v h) = get_prev x h"
  by (simp_all add: upd_next_def upd_prev_def get_next_def get_prev_def)

lemma upd_other [simp]:
  "x \<noteq> a \<Longrightarrow> upd_next a v h x = h x" "x \<noteq> a \<Longrightarrow> upd_prev a v h x = h x"
  by (simp_all add: upd_next_def upd_prev_def)

lemma get_in_dom:
  "get_next a h = Some b \<Longrightarrow> a \<in> dom h" "get_prev a h = Some b \<Longrightarrow> a \<in> dom h"
  by (auto simp: get_next_def get_prev_def)

subsection \<open>What each operation does to the list\<close>

lemma INIT_LIST_HEAD_spec:
  assumes "l \<in> dom h"
  shows "\<exists>h'. INIT_LIST_HEAD l h = Some h' \<and> is_list h' l [] \<and> dom h' = dom h \<and> (\<forall>a. a \<noteq> l \<longrightarrow> h' a = h a)"
  using assms by (simp add: INIT_LIST_HEAD_def is_list_def)

lemma list_add_spec:
  assumes l: "is_list h l xs" and n: "node \<in> dom h" "node \<notin> set (l # xs)"
  shows "\<exists>h'. list_add node l h = Some h' \<and> is_list h' l (node # xs) \<and> dom h' = dom h \<and>
    (\<forall>a. a \<notin> set (node # l # xs) \<longrightarrow> h' a = h a)"
proof -
  note d = is_list_dom [OF l]
  have ne: "node \<noteq> l" using n(2) by simp
  show ?thesis
  proof (cases xs)
    case Nil
    then show ?thesis using l n d ne by (auto simp: list_add_def is_list_def)
  next
    case (Cons x ys)
    let ?h' = "upd_next l node (upd_prev node l (upd_next node x (upd_prev x node h)))"
    have dom: "x \<in> dom h" "l \<in> dom h" using d Cons by auto
    have c: "chain h x ys l" "distinct (l # x # ys)" "get_next l h = Some x" using l Cons by (auto simp: is_list_def)
    have "chain ?h' x ys l = chain h x ys l"
      by (rule chain_cong) (use c(2) n ne Cons dom in auto)
    then have "is_list ?h' l (node # xs)"
      using c n ne Cons dom by (auto simp: is_list_def)
    moreover have "list_add node l h = Some ?h'"
      using c dom n by (simp add: list_add_def)
    ultimately show ?thesis using Cons by auto
  qed
qed

lemma list_add_tail_spec:
  assumes l: "is_list h l xs" and n: "node \<in> dom h" "node \<notin> set (l # xs)"
  shows "\<exists>h'. list_add_tail node l h = Some h' \<and> is_list h' l (xs @ [node]) \<and> dom h' = dom h \<and>
    (\<forall>a. a \<notin> set (node # l # xs) \<longrightarrow> h' a = h a)"
proof -
  note d = is_list_dom [OF l]
  have ne: "node \<noteq> l" using n(2) by simp
  show ?thesis
  proof (cases xs rule: rev_cases)
    case Nil
    then show ?thesis using l n d ne by (auto simp: list_add_tail_def is_list_def)
  next
    case (snoc ys x)
    let ?h' = "upd_prev l node (upd_prev node x (upd_next node l (upd_next x node h)))"
    have dom: "x \<in> dom h" "l \<in> dom h" using d snoc by auto
    have c: "chain h l ys x" "distinct (l # x # ys)" "get_prev l h = Some x" using l snoc by (auto simp: is_list_def)
    have "chain ?h' l ys x = chain h l ys x"
      by (rule chain_cong) (use c(2) n ne snoc dom in auto)
    then have "is_list ?h' l (xs @ [node])"
      using c n ne snoc dom by (auto simp: is_list_def)
    moreover have "list_add_tail node l h = Some ?h'"
      using c dom n by (simp add: list_add_tail_def)
    ultimately show ?thesis using snoc by auto
  qed
qed

text \<open>The ends of a chain, and two chains joined by linking the end of one to the start of the other.\<close>

lemma chain_ends:
  assumes "chain h a xs b"
  shows "get_next a h = Some (hd (xs @ [b]))" "get_prev b h = Some (last (a # xs))"
  using assms by (induction xs arbitrary: a) auto

lemma chain_join:
  assumes "chain h a xs m" "chain h n ys b"
    and "get_next (last (a # xs)) h' = Some (hd (ys @ [b]))" "get_prev (hd (ys @ [b])) h' = Some (last (a # xs))"
    and "\<forall>x \<in> set (butlast (a # xs)). get_next x h' = get_next x h" "\<forall>x \<in> set xs. get_prev x h' = get_prev x h"
    and "\<forall>x \<in> set ys. get_next x h' = get_next x h" "\<forall>x \<in> set (tl (ys @ [b])). get_prev x h' = get_prev x h"
  shows "chain h' a (xs @ ys) b"
proof -
  have tail: "chain h' p ys b" if "p = last (a # xs)" for p
  proof (cases ys)
    case Nil
    then show ?thesis using assms(3,4) that by simp
  next
    case (Cons y zs)
    have "chain h' y zs b = chain h y zs b"
      by (rule chain_cong) (use assms(7,8) Cons in auto)
    then show ?thesis using assms(2-4) that Cons by simp
  qed
  show ?thesis
  proof (cases xs rule: rev_cases)
    case Nil
    then show ?thesis using tail [of a] by simp
  next
    case (snoc us p)
    have "chain h' a us p = chain h a us p"
      by (rule chain_cong) (use assms(5,6) snoc in \<open>auto simp: butlast_append split: if_splits\<close>)
    then show ?thesis using tail [of p] assms(1) snoc by simp
  qed
qed

lemma list_del_spec:
  assumes l: "is_list h l (xs @ node # ys)"
  shows "\<exists>h'. list_del node h = Some h' \<and> is_list h' l (xs @ ys) \<and> dom h' = dom h \<and>
    get_next node h' = Some 0 \<and> get_prev node h' = Some 0 \<and>
    (\<forall>a. a \<notin> set (l # xs @ node # ys) \<longrightarrow> h' a = h a)"
proof -
  let ?p = "last (l # xs)" and ?q = "hd (ys @ [l])"
  let ?h' = "upd_next node 0 (upd_prev node 0 (upd_next ?p ?q (upd_prev ?q ?p h)))"
  have dist: "distinct (l # xs @ node # ys)" and c: "chain h l xs node" "chain h node ys l"
    using l by (auto simp: is_list_def)
  have p: "?p \<in> set (l # xs)" and q: "?q \<in> set (l # ys)"
    by (rule last_in_set, simp) (cases ys, auto)
  have d: "?p \<in> dom h" "?q \<in> dom h" "node \<in> dom h" using p q is_list_dom [OF l] by auto
  have op: "list_del node h = Some ?h'"
    using chain_ends(1) [OF c(2)] chain_ends(2) [OF c(1)] d by (simp add: list_del_def)
  have ne: "?p \<noteq> node" "?q \<noteq> node" using p q dist by auto
  have "chain ?h' l (xs @ ys) l"
  proof (rule chain_join [OF c])
    show "get_next ?p ?h' = Some ?q" "get_prev ?q ?h' = Some ?p" using d ne by simp_all
    have "?p \<notin> set (butlast (l # xs))" using dist by (cases xs rule: rev_cases) auto
    moreover have "node \<notin> set (butlast (l # xs))" using dist by (auto dest: in_set_butlastD split: if_splits)
    ultimately show "\<forall>x \<in> set (butlast (l # xs)). get_next x ?h' = get_next x h" by (metis get_upd(2) get_upd_other(1))
    show "\<forall>x \<in> set xs. get_prev x ?h' = get_prev x h"
    proof
      fix x assume "x \<in> set xs"
      then have "x \<noteq> ?q" "x \<noteq> node" using q dist by auto
      then show "get_prev x ?h' = get_prev x h" by simp
    qed
    show "\<forall>x \<in> set ys. get_next x ?h' = get_next x h"
    proof
      fix x assume "x \<in> set ys"
      then have "x \<noteq> ?p" "x \<noteq> node" using p dist by auto
      then show "get_next x ?h' = get_next x h" by simp
    qed
    show "\<forall>x \<in> set (tl (ys @ [l])). get_prev x ?h' = get_prev x h"
      using d dist by (cases ys) auto
  qed
  then have "is_list ?h' l (xs @ ys)" using dist by (auto simp: is_list_def)
  moreover have "?h' a = h a" if "a \<notin> set (l # xs @ node # ys)" for a
  proof -
    have "a \<noteq> ?p" "a \<noteq> ?q" "a \<noteq> node" using that p q by auto
    then show ?thesis by simp
  qed
  ultimately show ?thesis using op d by simp
qed

lemma list_empty_spec: "is_list h l xs \<Longrightarrow> list_empty l h = Some (xs = [])"
  by (cases xs) (auto simp: list_empty_def is_list_def)

lemma list_is_singular_spec: "is_list h l xs \<Longrightarrow> list_is_singular l h = Some (length xs = 1)"
proof -
  assume l: "is_list h l xs"
  then have "get_next l h = Some (hd (xs @ [l]))" "get_prev l h = Some (last (l # xs))"
    using chain_ends by (auto simp: is_list_def)
  moreover have "last (l # xs) = hd (xs @ [l]) \<longleftrightarrow> length xs = 1" if "xs \<noteq> []"
    using that l by (cases xs; cases "tl xs" rule: rev_cases) (auto simp: is_list_def)
  ultimately show ?thesis
    using list_empty_spec [OF l] by (cases "xs = []") (auto simp: list_is_singular_def)
qed

lemma list_first_spec: "is_list h l (x # xs) \<Longrightarrow> list_first_node l h = Some x"
  by (simp add: list_first_node_def is_list_def)

lemma list_last_spec: "is_list h l (xs @ [x]) \<Longrightarrow> list_last_node l h = Some x"
  by (simp add: list_last_node_def is_list_def)

lemma list_splice_spec:
  assumes ls: "is_list h ls ys" and l: "is_list h l xs" and dj: "set (ls # ys) \<inter> set (l # xs) = {}"
  shows "\<exists>h'. list_splice ls l h = Some h' \<and> is_list h' l (ys @ xs) \<and> dom h' = dom h \<and> h' ls = h ls \<and>
    (\<forall>a. a \<notin> set (l # xs @ ys) \<longrightarrow> h' a = h a)"
proof (cases ys)
  case Nil
  have "get_next l h \<noteq> None" "get_next ls h \<noteq> None" "get_prev ls h \<noteq> None"
    using ls l chain_ends by (fastforce simp: is_list_def)+
  then show ?thesis using Nil l list_empty_spec [OF ls] by (auto simp: list_splice_def)
next
  case (Cons y zs)
  let ?hf = "hd (xs @ [l])" and ?ll = "last (y # zs)"
  let ?h' = "upd_prev ?hf ?ll (upd_next ?ll ?hf (upd_prev y l (upd_next l y h)))"
  have c: "chain h y zs ls" "chain h l xs l" and dist: "distinct (l # xs)" "distinct (ls # y # zs)"
    and nx: "get_next ls h = Some y" "get_prev ls h = Some ?ll" "get_next l h = Some ?hf"
    using ls l Cons chain_ends(2) [of h ls ys ls] chain_ends(1) [of h l xs l] by (auto simp: is_list_def)
  have hf: "?hf \<in> set (l # xs)" by (cases xs) auto
  have ll: "?ll \<in> set (y # zs)" by (rule last_in_set) simp
  have d: "l \<in> dom h" "y \<in> dom h" "?hf \<in> dom h" "?ll \<in> dom h" "ls \<in> dom h"
    using is_list_dom [OF l] is_list_dom [OF ls] hf ll Cons by auto
  have op: "list_splice ls l h = Some ?h'"
    using nx d list_empty_spec [OF ls] Cons by (simp add: list_splice_def)
  have sep: "l \<notin> set (y # zs)" "y \<notin> set (l # xs)" "?hf \<notin> set (y # zs)" "?ll \<notin> set (l # xs)" "ls \<notin> set (l # xs @ ys)"
    using dj hf ll Cons dist by auto
  have "chain ?h' y (zs @ xs) l"
  proof (rule chain_join [OF c])
    show "get_next ?ll ?h' = Some ?hf" "get_prev ?hf ?h' = Some ?ll" using d sep by simp_all
    show "\<forall>x \<in> set (butlast (y # zs)). get_next x ?h' = get_next x h"
    proof
      fix x assume x: "x \<in> set (butlast (y # zs))"
      then have "x \<noteq> ?ll" using dist(2) by (cases zs rule: rev_cases) auto
      moreover have "x \<noteq> l" using in_set_butlastD [OF x] sep by auto
      ultimately show "get_next x ?h' = get_next x h" by simp
    qed
    show "\<forall>x \<in> set zs. get_prev x ?h' = get_prev x h"
    proof
      fix x assume "x \<in> set zs"
      then have "x \<noteq> ?hf" "x \<noteq> y" using sep dist by auto
      then show "get_prev x ?h' = get_prev x h" by simp
    qed
    show "\<forall>x \<in> set xs. get_next x ?h' = get_next x h"
    proof
      fix x assume "x \<in> set xs"
      then have "x \<noteq> ?ll" "x \<noteq> l" using sep dist by auto
      then show "get_next x ?h' = get_next x h" by simp
    qed
    show "\<forall>x \<in> set (tl (xs @ [l])). get_prev x ?h' = get_prev x h"
    proof
      fix x assume x: "x \<in> set (tl (xs @ [l]))"
      have "x \<noteq> ?hf" using x dist by (cases xs) auto
      moreover have "x \<noteq> y" using x sep by (cases xs) auto
      ultimately show "get_prev x ?h' = get_prev x h" by simp
    qed
  qed
  moreover have "y \<noteq> ?hf" "l \<noteq> ?ll" using sep by auto
  then have "get_next l ?h' = Some y" "get_prev y ?h' = Some l" using d by simp_all
  ultimately have "is_list ?h' l (ys @ xs)"
    using Cons dist dj by (auto simp: is_list_def)
  moreover have "?h' a = h a" if "a \<notin> set (l # xs @ ys)" for a
  proof -
    have "a \<noteq> l" "a \<noteq> y" "a \<noteq> ?hf" "a \<noteq> ?ll" using that hf ll Cons by auto
    then show ?thesis by simp
  qed
  ultimately show ?thesis using op sep(5) by simp
qed

lemma list_splice_tail_spec:
  assumes ls: "is_list h ls ys" and l: "is_list h l xs" and dj: "set (ls # ys) \<inter> set (l # xs) = {}"
  shows "\<exists>h'. list_splice_tail ls l h = Some h' \<and> is_list h' l (xs @ ys) \<and> dom h' = dom h \<and> h' ls = h ls \<and>
    (\<forall>a. a \<notin> set (l # xs @ ys) \<longrightarrow> h' a = h a)"
proof (cases ys rule: rev_cases)
  case Nil
  have "get_prev l h \<noteq> None" "get_next ls h \<noteq> None" "get_prev ls h \<noteq> None"
    using ls l chain_ends by (fastforce simp: is_list_def)+
  then show ?thesis using Nil l list_empty_spec [OF ls] by (auto simp: list_splice_tail_def)
next
  case (snoc us z)
  let ?hl = "last (l # xs)" and ?lf = "hd (us @ [z])"
  let ?h' = "upd_next ?hl ?lf (upd_prev ?lf ?hl (upd_next z l (upd_prev l z h)))"
  have c: "chain h l xs l" "chain h ls us z" and dist: "distinct (l # xs)" "distinct (us @ [z, ls])"
    and nx: "get_next ls h = Some ?lf" "get_prev ls h = Some z" "get_prev l h = Some ?hl"
    using ls l snoc chain_ends(1) [of h ls us z] chain_ends(2) [of h l xs l] by (auto simp: is_list_def)
  have hl: "?hl \<in> set (l # xs)" by (rule last_in_set) simp
  have lf: "?lf \<in> set (us @ [z])" by (cases us) auto
  have d: "l \<in> dom h" "z \<in> dom h" "?hl \<in> dom h" "?lf \<in> dom h" "ls \<in> dom h"
    using is_list_dom [OF l] is_list_dom [OF ls] hl lf snoc by auto
  have op: "list_splice_tail ls l h = Some ?h'"
    using nx d list_empty_spec [OF ls] snoc by (simp add: list_splice_tail_def)
  have sep: "l \<notin> set (us @ [z])" "z \<notin> set (l # xs)" "?lf \<notin> set (l # xs)" "?hl \<notin> set (us @ [z])" "ls \<notin> set (l # xs @ ys)"
    using dj hl lf snoc dist by auto
  have "chain ?h' l (xs @ us) z"
  proof (rule chain_join [OF c])
    show "get_next ?hl ?h' = Some ?lf" "get_prev ?lf ?h' = Some ?hl" using d sep by auto
    show "\<forall>x \<in> set (butlast (l # xs)). get_next x ?h' = get_next x h"
    proof
      fix x assume x: "x \<in> set (butlast (l # xs))"
      then have "x \<noteq> ?hl" using dist(1) by (cases xs rule: rev_cases) auto
      moreover have "x \<noteq> z" using in_set_butlastD [OF x] sep by auto
      ultimately show "get_next x ?h' = get_next x h" by simp
    qed
    show "\<forall>x \<in> set xs. get_prev x ?h' = get_prev x h"
    proof
      fix x assume "x \<in> set xs"
      then have "x \<noteq> ?lf" "x \<noteq> l" using sep dist by auto
      then show "get_prev x ?h' = get_prev x h" by simp
    qed
    show "\<forall>x \<in> set us. get_next x ?h' = get_next x h"
    proof
      fix x assume "x \<in> set us"
      then have "x \<noteq> ?hl" "x \<noteq> z" using sep dist by auto
      then show "get_next x ?h' = get_next x h" by simp
    qed
    show "\<forall>x \<in> set (tl (us @ [z])). get_prev x ?h' = get_prev x h"
    proof
      fix x assume x: "x \<in> set (tl (us @ [z]))"
      have "x \<noteq> ?lf" using x dist by (cases us) auto
      moreover have "x \<noteq> l" using x sep by (cases us) auto
      ultimately show "get_prev x ?h' = get_prev x h" by simp
    qed
  qed
  moreover have "z \<noteq> ?hl" "l \<noteq> ?lf" using sep by auto
  then have "get_next z ?h' = Some l" "get_prev l ?h' = Some z" using d by simp_all
  moreover have "chain ?h' l (xs @ us @ [z]) l = chain ?h' l ((xs @ us) @ z # []) l" by simp
  ultimately have "is_list ?h' l (xs @ ys)"
    using snoc dist dj unfolding is_list_def chain_append by auto
  moreover have "?h' a = h a" if "a \<notin> set (l # xs @ ys)" for a
  proof -
    have "a \<noteq> l" "a \<noteq> z" "a \<noteq> ?hl" "a \<noteq> ?lf" using that hl lf snoc by auto
    then show ?thesis by simp
  qed
  ultimately show ?thesis using op sep(5) by simp
qed

lemma list_cut_position_spec:
  assumes l: "is_list h from (xs @ node # ys)" and t: "to \<in> dom h" "to \<notin> set (from # xs @ node # ys)"
  shows "\<exists>h'. list_cut_position to from node h = Some h' \<and> is_list h' to (xs @ [node]) \<and> is_list h' from ys \<and>
    dom h' = dom h \<and> (\<forall>a. a \<notin> set (to # from # xs @ node # ys) \<longrightarrow> h' a = h a)"
proof -
  let ?f = "hd (xs @ [node])" and ?q = "hd (ys @ [from])"
  let ?h' = "upd_prev ?f to (upd_next to ?f (upd_next node to (upd_prev to node
               (upd_prev ?q from (upd_next from ?q h)))))"
  have c: "chain h from xs node" "chain h node ys from" and dist: "distinct (from # xs @ node # ys)"
    using l by (auto simp: is_list_def)
  have f: "?f \<in> set (xs @ [node])" and q: "?q \<in> set (from # ys)" by (cases xs, auto) (cases ys, auto)
  have d: "?f \<in> dom h" "?q \<in> dom h" "from \<in> dom h" "node \<in> dom h"
    using is_list_dom [OF l] f q by auto
  have ne: "?f \<noteq> ?q" "?f \<noteq> to" "?q \<noteq> to" "from \<noteq> node" "from \<noteq> to" "node \<noteq> to" "?f \<noteq> from" "?q \<noteq> node"
    using f q dist t(2) by auto
  have fx: "get_next from h = Some ?f" using chain_ends(1) [OF c(1)] by simp
  have op: "list_cut_position to from node h = Some ?h'"
    using fx chain_ends(1) [OF c(2)] d t(1) ne by (simp add: list_cut_position_def list_empty_def)
  have "chain ?h' to xs node"
  proof (cases xs)
    case Nil
    then show ?thesis using d ne t by simp
  next
    case (Cons x zs)
    have "chain ?h' x zs node = chain h x zs node"
    proof (rule chain_cong)
      show "\<forall>y \<in> set (x # zs). get_next y ?h' = get_next y h"
      proof
        fix y assume "y \<in> set (x # zs)"
        then have "y \<noteq> from" "y \<noteq> to" "y \<noteq> node" using dist t(2) Cons by auto
        then show "get_next y ?h' = get_next y h" by simp
      qed
      show "\<forall>y \<in> set (zs @ [node]). get_prev y ?h' = get_prev y h"
      proof
        fix y assume "y \<in> set (zs @ [node])"
        then have "y \<noteq> ?q" "y \<noteq> to" "y \<noteq> ?f" using dist t(2) Cons q by auto
        then show "get_prev y ?h' = get_prev y h" by simp
      qed
    qed
    then show ?thesis using c(1) Cons d t ne by simp
  qed
  moreover have "get_next node ?h' = Some to" "get_prev to ?h' = Some node" using d t ne by simp_all
  moreover have "chain ?h' from ys from"
  proof (cases ys)
    case Nil
    then show ?thesis using d ne t dist by simp
  next
    case (Cons y zs)
    have "chain ?h' y zs from = chain h y zs from"
    proof (rule chain_cong)
      show "\<forall>z \<in> set (y # zs). get_next z ?h' = get_next z h"
      proof
        fix z assume "z \<in> set (y # zs)"
        then have "z \<noteq> from" "z \<noteq> to" "z \<noteq> node" using dist t(2) Cons by auto
        then show "get_next z ?h' = get_next z h" by simp
      qed
      show "\<forall>z \<in> set (zs @ [from]). get_prev z ?h' = get_prev z h"
      proof
        fix z assume "z \<in> set (zs @ [from])"
        then have "z \<noteq> ?q" "z \<noteq> to" "z \<noteq> ?f" using dist t(2) Cons f by auto
        then show "get_prev z ?h' = get_prev z h" by simp
      qed
    qed
    then show ?thesis using c(2) Cons d t ne by simp
  qed
  ultimately have "is_list ?h' to (xs @ [node])" "is_list ?h' from ys"
    using dist t(2) by (auto simp: is_list_def)
  moreover have "?h' a = h a" if "a \<notin> set (to # from # xs @ node # ys)" for a
  proof -
    have "a \<noteq> to" "a \<noteq> from" "a \<noteq> node" "a \<noteq> ?f" "a \<noteq> ?q" using that f q by auto
    then show ?thesis by simp
  qed
  ultimately show ?thesis using op by simp
qed

text \<open>Moving a node from one list to another (or within one list).\<close>

lemma list_move_spec:
  assumes l: "is_list h l (xs @ node # ys)" and t: "is_list h t zs" "set (t # zs) \<inter> set (l # xs @ node # ys) = {}"
  shows "\<exists>h'. list_move node t h = Some h' \<and> is_list h' l (xs @ ys) \<and> is_list h' t (node # zs)"
proof -
  obtain g where g: "list_del node h = Some g" "is_list g l (xs @ ys)" "dom g = dom h"
    "\<forall>a. a \<notin> set (l # xs @ node # ys) \<longrightarrow> g a = h a"
    using list_del_spec [OF l] by blast
  have gt: "is_list g t zs" by (rule is_list_frame [OF t(1)]) (use g(4) t(2) in blast)
  have n: "node \<in> dom g" "node \<notin> set (t # zs)" using is_list_dom [OF l] g(3) t(2) by auto
  obtain h' where h': "list_add node t g = Some h'" "is_list h' t (node # zs)"
    "\<forall>a. a \<notin> set (node # t # zs) \<longrightarrow> h' a = g a"
    using list_add_spec [OF gt n] by blast
  have dist: "distinct (l # xs @ node # ys)" using l by (simp add: is_list_def)
  have "is_list h' l (xs @ ys)"
  proof (rule is_list_frame [OF g(2)])
    have "a \<notin> set (node # t # zs)" if "a \<in> set (l # xs @ ys)" for a using that t(2) dist by auto
    then show "\<forall>a \<in> set (l # xs @ ys). h' a = g a" using h'(3) by blast
  qed
  then show ?thesis using g(1) h'(1,2) by (auto simp: list_move_def)
qed

lemma list_move_tail_spec:
  assumes l: "is_list h l (xs @ node # ys)" and t: "is_list h t zs" "set (t # zs) \<inter> set (l # xs @ node # ys) = {}"
  shows "\<exists>h'. list_move_tail node t h = Some h' \<and> is_list h' l (xs @ ys) \<and> is_list h' t (zs @ [node])"
proof -
  obtain g where g: "list_del node h = Some g" "is_list g l (xs @ ys)" "dom g = dom h"
    "\<forall>a. a \<notin> set (l # xs @ node # ys) \<longrightarrow> g a = h a"
    using list_del_spec [OF l] by blast
  have gt: "is_list g t zs" by (rule is_list_frame [OF t(1)]) (use g(4) t(2) in blast)
  have n: "node \<in> dom g" "node \<notin> set (t # zs)" using is_list_dom [OF l] g(3) t(2) by auto
  obtain h' where h': "list_add_tail node t g = Some h'" "is_list h' t (zs @ [node])"
    "\<forall>a. a \<notin> set (node # t # zs) \<longrightarrow> h' a = g a"
    using list_add_tail_spec [OF gt n] by blast
  have dist: "distinct (l # xs @ node # ys)" using l by (simp add: is_list_def)
  have "is_list h' l (xs @ ys)"
  proof (rule is_list_frame [OF g(2)])
    have "a \<notin> set (node # t # zs)" if "a \<in> set (l # xs @ ys)" for a using that t(2) dist by auto
    then show "\<forall>a \<in> set (l # xs @ ys). h' a = g a" using h'(3) by blast
  qed
  then show ?thesis using g(1) h'(1,2) by (auto simp: list_move_tail_def)
qed

subsection \<open>Iteration\<close>

fun foldM :: "('a \<Rightarrow> 's \<Rightarrow> 's option) \<Rightarrow> 'a list \<Rightarrow> 's \<Rightarrow> 's option" where
  "foldM f [] s = Some s"
| "foldM f (x # xs) s = (f x s \<bind> foldM f xs)"

lemma list_for_each_chain:
  assumes "chain h a xs l" "l \<notin> set xs" "get_next a h = Some n"
  shows "list_for_each_loop l f n h s = foldM f xs s"
  using assms
proof (induction xs arbitrary: a n s)
  case Nil
  then show ?case by (simp add: list_for_each_loop.simps)
next
  case (Cons x xs)
  then obtain m where "get_next x h = Some m" using chain_ends(1) [of h x xs l] by auto
  then show ?case
    using Cons.IH [of x m] Cons.prems
    by (cases "f x s") (auto simp: list_for_each_loop.simps [of l f x])
qed

lemma list_for_each_spec:
  assumes "is_list h l xs"
  shows "list_for_each l f h s = foldM f xs s"
proof -
  have "chain h l xs l" "l \<notin> set xs" using assms by (auto simp: is_list_def)
  moreover then obtain n where "get_next l h = Some n" using chain_ends(1) by blast
  ultimately show ?thesis using list_for_each_chain [of h l xs l n f s] by (simp add: list_for_each_def)
qed

text \<open>
  A safe loop whose body removes the nodes that satisfy \<open>P\<close>, the pattern the \<^verbatim>\<open>_safe\<close> iterators are
  made for.
\<close>

definition del_body :: "(u64 \<Rightarrow> bool) \<Rightarrow> u64 \<Rightarrow> lheap \<times> u64 list \<Rightarrow> (lheap \<times> u64 list) option" where
  "del_body P node = (\<lambda>(h, acc).
     if P node then do { h \<leftarrow> list_del node h; Some (h, acc @ [node]) } else Some (h, acc))"

lemma list_for_each_safe_del:
  assumes "is_list h l (ys @ xs)" "n = hd (xs @ [l])" "xs \<noteq> [] \<longrightarrow> get_next n h = Some m"
  shows "\<exists>h'. list_for_each_safe_loop l (del_body P) n m h acc = Some (h', acc @ filter P xs) \<and>
    is_list h' l (ys @ filter (Not \<circ> P) xs)"
  using assms
proof (induction xs arbitrary: h ys n m acc)
  case Nil
  then show ?case by (simp add: list_for_each_safe_loop.simps)
next
  case (Cons x xs)
  have m: "m = hd (xs @ [l])" and c: "chain h x xs l" and nl: "x \<noteq> l"
    using Cons.prems chain_ends(1) [of h x xs l] by (auto simp: is_list_def)
  have "\<exists>g acc'. del_body P x (h, acc) = Some (g, acc') \<and> acc' = acc @ filter P [x] \<and>
    is_list g l ((ys @ filter (Not \<circ> P) [x]) @ xs)"
  proof (cases "P x")
    case True
    then show ?thesis using list_del_spec [of h l ys x xs] Cons.prems(1) by (auto simp: del_body_def)
  qed (use Cons.prems(1) in \<open>simp add: del_body_def\<close>)
  then obtain g acc' where g: "del_body P x (h, acc) = Some (g, acc')" "acc' = acc @ filter P [x]"
    "is_list g l ((ys @ filter (Not \<circ> P) [x]) @ xs)" by blast
  have "m \<in> set (l # xs)" using m by (cases xs) auto
  then have "m \<in> dom g" using is_list_dom [OF g(3)] by auto
  then obtain k where k: "get_next m g = Some k" by (auto simp: get_next_def)
  obtain h' where "list_for_each_safe_loop l (del_body P) m k g acc' = Some (h', acc' @ filter P xs)"
    "is_list h' l ((ys @ filter (Not \<circ> P) [x]) @ filter (Not \<circ> P) xs)"
    using Cons.IH [OF g(3) m, of k acc'] k by blast
  then show ?case
    using Cons.prems(2) nl g(1,2) k
    by (cases "P x") (simp_all add: list_for_each_safe_loop.simps [of l _ x] comp_def)
qed

subsection \<open>The interface the kernel's lists are used through\<close>

locale list_ops =
  fixes repr :: "'h \<Rightarrow> 'a \<Rightarrow> 'a list \<Rightarrow> bool"
    and node_in :: "'a \<Rightarrow> 'h \<Rightarrow> bool"
    and add_tail :: "'a \<Rightarrow> 'a \<Rightarrow> 'h \<Rightarrow> 'h option"
    and del :: "'a \<Rightarrow> 'h \<Rightarrow> 'h option"
    and first :: "'a \<Rightarrow> 'h \<Rightarrow> 'a option"
  assumes repr_distinct: "repr h l xs \<Longrightarrow> distinct (l # xs)"
    and add_tail_law: "repr h l xs \<Longrightarrow> node_in n h \<Longrightarrow> n \<notin> set (l # xs) \<Longrightarrow>
      \<exists>h'. add_tail n l h = Some h' \<and> repr h' l (xs @ [n]) \<and> (\<forall>m. node_in m h' = node_in m h)"
    and del_law: "repr h l (xs @ n # ys) \<Longrightarrow>
      \<exists>h'. del n h = Some h' \<and> repr h' l (xs @ ys) \<and> (\<forall>m. node_in m h' = node_in m h)"
    and first_law: "repr h l xs \<Longrightarrow> first l h = Some (hd (xs @ [l]))"
begin

text \<open>Appending nodes one by one, and taking nodes off the front.\<close>

fun push_all :: "'a list \<Rightarrow> 'a \<Rightarrow> 'h \<Rightarrow> 'h option" where
  "push_all [] l h = Some h"
| "push_all (n # ns) l h = (add_tail n l h \<bind> push_all ns l)"

fun drain :: "nat \<Rightarrow> 'a \<Rightarrow> 'h \<Rightarrow> ('a list \<times> 'h) option" where
  "drain 0 l h = Some ([], h)"
| "drain (Suc k) l h = do {
     x \<leftarrow> first l h;
     if x = l then Some ([], h)
     else do { h \<leftarrow> del x h; (xs, h) \<leftarrow> drain k l h; Some (x # xs, h) } }"

lemma push_all_ok:
  "repr h l xs \<Longrightarrow> distinct ns \<Longrightarrow> set ns \<inter> set (l # xs) = {} \<Longrightarrow> \<forall>n \<in> set ns. node_in n h \<Longrightarrow>
     \<exists>h'. push_all ns l h = Some h' \<and> repr h' l (xs @ ns)"
proof (induction ns arbitrary: h xs)
  case Nil
  then show ?case by simp
next
  case (Cons n ns)
  obtain g where g: "add_tail n l h = Some g" "repr g l (xs @ [n])" "\<forall>m. node_in m g = node_in m h"
    using add_tail_law [OF Cons.prems(1), of n] Cons.prems by auto
  have "\<exists>h'. push_all ns l g = Some h' \<and> repr h' l ((xs @ [n]) @ ns)"
    by (rule Cons.IH [OF g(2)]) (use Cons.prems g(3) in auto)
  then show ?case using g(1) by auto
qed

lemma drain_ok:
  "repr h l (xs @ ys) \<Longrightarrow> \<exists>h'. drain (length xs) l h = Some (xs, h') \<and> repr h' l ys"
proof (induction xs arbitrary: h)
  case Nil
  then show ?case by simp
next
  case (Cons x xs)
  obtain g where g: "del x h = Some g" "repr g l (xs @ ys)"
    using del_law [of h l "[]" x "xs @ ys"] Cons.prems by auto
  moreover have "first l h = Some x" using first_law [OF Cons.prems] by simp
  moreover have "x \<noteq> l" using repr_distinct [OF Cons.prems] by auto
  ultimately show ?case using Cons.IH [OF g(2)] by auto
qed

lemma fifo:
  assumes "repr h l []" "distinct ns" "l \<notin> set ns" "\<forall>n \<in> set ns. node_in n h"
  shows "\<exists>h' h''. push_all ns l h = Some h' \<and> drain (length ns) l h' = Some (ns, h'') \<and> repr h'' l []"
proof -
  obtain h' where "push_all ns l h = Some h'" "repr h' l ns"
    using push_all_ok [OF assms(1,2)] assms(3,4) by auto
  then show ?thesis using drain_ok [of h' l ns "[]"] by auto
qed

text \<open>Objects with embedded nodes: \<open>f\<close> gives the node of an object.\<close>

lemma del_object:
  assumes "repr h l (map f xs)" "x \<in> set xs" "inj_on f (set xs)"
  shows "\<exists>h'. del (f x) h = Some h' \<and> repr h' l (map f (remove1 x xs))"
proof -
  obtain as bs where s: "xs = as @ x # bs" "x \<notin> set as" using split_list_first [OF assms(2)] by blast
  then show ?thesis using del_law [of h l "map f as" "f x" "map f bs"] assms(1) by (auto simp: remove1_append)
qed

end

interpretation lh: list_ops is_list "\<lambda>n h. n \<in> dom h" list_add_tail list_del list_first_node
proof (unfold_locales, goal_cases)
  case (1 h l xs)
  then show ?case by (simp add: is_list_def)
next
  case (2 h l xs n)
  then show ?case using list_add_tail_spec [of h l xs n] by auto
next
  case (3 h l xs n ys)
  then show ?case using list_del_spec [of h l xs n ys] by auto
next
  case (4 h l xs)
  then show ?case using chain_ends(1) [of h l xs l] by (simp add: is_list_def list_first_node_def)
qed

subsection \<open>Properties\<close>

definition demo_heap :: lheap where
  "demo_heap = [0x100 \<mapsto> \<lparr>prev = 0x100, next = 0x100\<rparr>, 0x200 \<mapsto> \<lparr>prev = 0, next = 0\<rparr>,
     0x300 \<mapsto> \<lparr>prev = 0, next = 0\<rparr>, 0x400 \<mapsto> \<lparr>prev = 0x400, next = 0x400\<rparr>]"

definition demo_heap2 :: lheap where
  "demo_heap2 = [0x100 \<mapsto> \<lparr>prev = 0x300, next = 0x200\<rparr>, 0x200 \<mapsto> \<lparr>prev = 0x100, next = 0x300\<rparr>,
     0x300 \<mapsto> \<lparr>prev = 0x200, next = 0x100\<rparr>, 0x400 \<mapsto> \<lparr>prev = 0x400, next = 0x400\<rparr>]"

lemma demo_heap_list: "is_list demo_heap 0x100 []" "0x200 \<in> dom demo_heap" "0x300 \<in> dom demo_heap"
  by (simp_all add: is_list_def get_next_def get_prev_def demo_heap_def)

lemma demo_heap2_list: "is_list demo_heap2 0x100 [0x200, 0x300]" "0x400 \<in> dom demo_heap2"
  by (simp_all add: is_list_def get_next_def get_prev_def demo_heap2_def)

text \<open>
  C34: Adding a node at the front or at the end of a list, in the order of assignments of the
  source, gives exactly the list with that node added there (the forward and the backward links
  agree), and no node outside the list and the new node is written, so every other list is kept.
\<close>

theorem list_add_refines:
  assumes "is_list h head xs" "node \<in> dom h" "node \<notin> set (head # xs)"
  shows "(\<exists>h'. list_add node head h = Some h' \<and> is_list h' head (node # xs) \<and>
      (\<forall>a. a \<notin> set (node # head # xs) \<longrightarrow> h' a = h a)) \<and>
    (\<exists>h'. list_add_tail node head h = Some h' \<and> is_list h' head (xs @ [node]) \<and>
      (\<forall>a. a \<notin> set (node # head # xs) \<longrightarrow> h' a = h a))"
  using list_add_spec [OF assms] list_add_tail_spec [OF assms] by blast

theorem list_add_refines_witness:
  "\<exists>h'. list_add_tail 0x200 0x100 demo_heap = Some h' \<and> is_list h' 0x100 [0x200]"
  using list_add_refines [OF demo_heap_list(1,2)] by auto



text \<open>
  \<^verbatim>\<open>list_cut_position\<close> moves the nodes up to and including \<open>node\<close> to another head and
  leaves the rest, and \<^verbatim>\<open>list_splice\<close> puts them back in front: the original list is restored.
\<close>

theorem list_cut_splice_roundtrip:
  assumes "is_list h from (xs @ node # ys)" "to \<in> dom h" "to \<notin> set (from # xs @ node # ys)"
  shows "\<exists>h' h''. list_cut_position to from node h = Some h' \<and>
    is_list h' to (xs @ [node]) \<and> is_list h' from ys \<and>
    list_splice to from h' = Some h'' \<and> is_list h'' from (xs @ node # ys)"
proof -
  obtain h' where h': "list_cut_position to from node h = Some h'" "is_list h' to (xs @ [node])" "is_list h' from ys"
    using list_cut_position_spec [OF assms] by blast
  have "distinct (from # xs @ node # ys)" using assms(1) by (simp add: is_list_def)
  then have "set (to # xs @ [node]) \<inter> set (from # ys) = {}" using assms(3) by auto
  then show ?thesis using h' list_splice_spec [OF h'(2,3)] by auto
qed

theorem list_cut_splice_roundtrip_witness:
  "\<exists>h' h''. list_cut_position 0x400 0x100 0x200 demo_heap2 = Some h' \<and> is_list h' 0x400 [0x200] \<and>
     list_splice 0x400 0x100 h' = Some h'' \<and> is_list h'' 0x100 [0x200, 0x300]"
  using list_cut_splice_roundtrip [of demo_heap2 "0x100" "[]" "0x200" "[0x300]" "0x400"] demo_heap2_list by auto

text \<open>
  The safe iterator \<^verbatim>\<open>list_for_each_safe\<close> survives removal of the current node: with a body
  that deletes the nodes satisfying \<open>P\<close> it terminates, visits every node once in order, and leaves
  the list of the others.
\<close>

theorem list_for_each_safe_deletes:
  assumes "is_list h head xs"
  shows "\<exists>h'. list_for_each_safe head (del_body P) h [] = Some (h', filter P xs) \<and>
    is_list h' head (filter (Not \<circ> P) xs)"
proof -
  have c: "get_next head h = Some (hd (xs @ [head]))" using assms chain_ends(1) by (auto simp: is_list_def)
  have "hd (xs @ [head]) \<in> set (head # xs)" by (cases xs) auto
  then obtain m where m: "get_next (hd (xs @ [head])) h = Some m"
    using is_list_dom [OF assms] by (auto simp: get_next_def)
  have l: "is_list h head ([] @ xs)" using assms by simp
  show ?thesis
    using list_for_each_safe_del [OF l refl impI [OF m], of P "[]"] c m
    by (simp add: list_for_each_safe_def)
qed

theorem list_for_each_safe_deletes_witness:
  "\<exists>h'. list_for_each_safe 0x100 (del_body (\<lambda>a. a = 0x200)) demo_heap2 [] = Some (h', [0x200]) \<and>
     is_list h' 0x100 [0x300]"
  using list_for_each_safe_deletes [OF demo_heap2_list(1), of "\<lambda>a. a = 0x200"] by simp

text \<open>
  First in, first out: appending distinct nodes to an empty list and then taking the first
  node as often gives the nodes back in the order they were added and leaves the list empty.
\<close>

theorem list_fifo:
  assumes "is_list h head []" "distinct ns" "head \<notin> set ns" "set ns \<subseteq> dom h"
  shows "\<exists>h' h''. lh.push_all ns head h = Some h' \<and> lh.drain (length ns) head h' = Some (ns, h'') \<and>
    is_list h'' head []"
  using lh.fifo [OF assms(1-3)] assms(4) by blast

theorem list_fifo_witness:
  "\<exists>h' h''. lh.push_all [0x200, 0x300] 0x100 demo_heap = Some h' \<and>
     lh.drain (length [0x200, 0x300 :: u64]) 0x100 h' = Some ([0x200, 0x300], h'')"
  using list_fifo [OF demo_heap_list(1), of "[0x200, 0x300]"] demo_heap_list(2,3) by auto

end
