(* ===== verification/PoolLists.thy ===== *)
theory PoolLists
  imports BuddyContract ListHead
begin

text \<open>
  The buddy allocator's free lists on top of \<^verbatim>\<open>list.h\<close>. Theory \<open>Buddy\<close> keeps the list of an order
  pool as the list of page ids on it; the kernel keeps it as a chain of the \<^verbatim>\<open>meta.buddy_node\<close>
  fields of the page descriptors, hung on the pool's \<^verbatim>\<open>_list\<close>. Here the three list operations
  the allocator uses are shown to be implemented by the pointer operations, for any injective
  placement \<open>node\<close> of the nodes in memory.
\<close>

definition pool_on_heap :: "(nat \<Rightarrow> u64) \<Rightarrow> u64 \<Rightarrow> mempool \<Rightarrow> lheap \<Rightarrow> bool" where
  "pool_on_heap node head pool h \<longleftrightarrow> is_list h head (map node (pool_list pool))"

text \<open>
  C33: On a heap that holds the free list of pool \<open>order\<close>, \<^verbatim>\<open>list_del\<close>, \<^verbatim>\<open>list_add_tail\<close> and
  \<^verbatim>\<open>list_first_entry\<close> on the page's node have the effect that the allocator's model gives the
  removal, the insertion and the choice of a page: whenever the model step succeeds the pointer
  code succeeds and its heap holds the pool's new list.
\<close>

theorem pool_list_refinement:
  assumes "pool_on_heap node head (order_pools s ! order) h"
    "inj_on node {..<n}" "set (pool_list (order_pools s ! order)) \<subseteq> {..<n}" "p < n"
  shows "(\<forall>t. pool_list_del order p s = Some t \<longrightarrow>
      (\<exists>h'. list_del (node p) h = Some h' \<and> pool_on_heap node head (order_pools t ! order) h')) \<and>
    (\<forall>t. pool_list_add_tail order p s = Some t \<and> node p \<in> dom h \<and> node p \<noteq> head \<and>
        p \<notin> set (pool_list (order_pools s ! order)) \<longrightarrow>
      (\<exists>h'. list_add_tail (node p) head h = Some h' \<and> pool_on_heap node head (order_pools t ! order) h')) \<and>
    (pool_list (order_pools s ! order) \<noteq> [] \<longrightarrow>
      list_first_node head h = Some (node (hd (pool_list (order_pools s ! order)))))"
proof (intro conjI allI impI)
  let ?l = "pool_list (order_pools s ! order)"
  have l: "is_list h head (map node ?l)" using assms(1) by (simp add: pool_on_heap_def)
  fix t assume "pool_list_del order p s = Some t"
  then have "p \<in> set ?l" "pool_list (order_pools t ! order) = remove1 p ?l"
    by (auto simp: pool_list_del_def pool_get_def pool_upd_def array_get_def array_upd_def split: if_splits)
  moreover have "\<exists>h'. list_del (node p) h = Some h' \<and> is_list h' head (map node (remove1 p ?l))"
    using l calculation(1) inj_on_subset [OF assms(2,3)] by (rule lh.del_object)
  ultimately show "\<exists>h'. list_del (node p) h = Some h' \<and> pool_on_heap node head (order_pools t ! order) h'"
    by (simp add: pool_on_heap_def)
next
  let ?l = "pool_list (order_pools s ! order)"
  have l: "is_list h head (map node ?l)" using assms(1) by (simp add: pool_on_heap_def)
  fix t assume t: "pool_list_add_tail order p s = Some t \<and> node p \<in> dom h \<and> node p \<noteq> head \<and> p \<notin> set ?l"
  then have "pool_list (order_pools t ! order) = ?l @ [p]"
    by (auto simp: pool_list_add_tail_def pool_upd_def array_upd_def split: if_splits)
  moreover have "node p \<notin> set (head # map node ?l)" using t assms(2-4) by (auto dest: inj_onD)
  ultimately show "\<exists>h'. list_add_tail (node p) head h = Some h' \<and> pool_on_heap node head (order_pools t ! order) h'"
    using list_add_tail_spec [OF l, of "node p"] t by (auto simp: pool_on_heap_def)
next
  let ?l = "pool_list (order_pools s ! order)"
  assume "?l \<noteq> []"
  then show "list_first_node head h = Some (node (hd ?l))"
    using lh.first_law [of h head "map node ?l"] assms(1) by (simp add: pool_on_heap_def hd_map)
qed

definition demo_node :: "nat \<Rightarrow> u64" where
  "demo_node i = 0x200 + 0x20 * word_of_nat i"

definition demo_pool_heap :: lheap where
  "demo_pool_heap = [0x100 \<mapsto> \<lparr>prev = 0x200, next = 0x200\<rparr>, 0x200 \<mapsto> \<lparr>prev = 0x100, next = 0x100\<rparr>]"

theorem pool_list_refinement_witness:
  "(\<exists>t h'. pool_list_del 1 0 demo_free = Some t \<and> list_del (demo_node 0) demo_pool_heap = Some h' \<and>
     pool_on_heap demo_node 0x100 (order_pools t ! 1) h') \<and> list_first_node 0x100 demo_pool_heap = Some (demo_node 0)"
proof -
  have "pool_on_heap demo_node 0x100 (order_pools demo_free ! 1) demo_pool_heap"
    by (simp add: pool_on_heap_def is_list_def get_next_def get_prev_def demo_pool_heap_def demo_node_def demo_free_def)
  moreover have "{..<2} = {0, 1 :: nat}" by auto
  then have "inj_on demo_node {..<2}" by (simp add: demo_node_def)
  moreover have "set (pool_list (order_pools demo_free ! 1)) \<subseteq> {..<2}" by (simp add: demo_free_def)
  ultimately have r: "(\<forall>t. pool_list_del 1 0 demo_free = Some t \<longrightarrow>
      (\<exists>h'. list_del (demo_node 0) demo_pool_heap = Some h' \<and> pool_on_heap demo_node 0x100 (order_pools t ! 1) h')) \<and>
    (pool_list (order_pools demo_free ! 1) \<noteq> [] \<longrightarrow>
      list_first_node 0x100 demo_pool_heap = Some (demo_node (hd (pool_list (order_pools demo_free ! 1)))))"
    using pool_list_refinement [of demo_node "0x100" demo_free 1 demo_pool_heap 2 0] by auto
  moreover obtain t where "pool_list_del 1 0 demo_free = Some t" by (simp add: pool_list_del_def demo_free_def)
  ultimately show ?thesis by (auto simp: demo_free_def)
qed

end
