(* ===== verification/KMath.thy ===== *)
theory KMath
  imports Machine
begin

unbundle bit_operations_syntax

text \<open>
  The string hashes of \<^verbatim>\<open>lib/math/math.c\<close> on byte memory. A \<^verbatim>\<open>char\<close> is unsigned on RISC-V. The
  loop tests \<^verbatim>\<open>str[i]\<close> but also advances \<^verbatim>\<open>str\<close> in its body, so the byte tested in round \<open>i\<close>
  lies at offset \<open>2 * i\<close> of the argument while the byte hashed lies at offset \<open>i\<close>.
\<close>

function JSHash_loop :: "memory \<Rightarrow> u64 \<Rightarrow> nat \<Rightarrow> nat \<Rightarrow> u32 \<Rightarrow> u32" where
  "JSHash_loop m str sz i hash =
     (if i < sz \<and> m (str + word_of_nat i) \<noteq> 0
      then JSHash_loop m (str + 1) sz (Suc i)
        (hash XOR (push_bit 5 hash + ucast (m str) + drop_bit 2 hash))
      else hash)"
  by pat_completeness auto
termination
  by (relation "measure (\<lambda>(m, str, sz, i, hash). sz - i)") auto

function SDBMHash_loop :: "memory \<Rightarrow> u64 \<Rightarrow> nat \<Rightarrow> nat \<Rightarrow> u32 \<Rightarrow> u32" where
  "SDBMHash_loop m str sz i hash =
     (if i < sz \<and> m (str + word_of_nat i) \<noteq> 0
      then SDBMHash_loop m (str + 1) sz (Suc i)
        (ucast (m str) + push_bit 6 hash + push_bit 16 hash - hash)
      else hash)"
  by pat_completeness auto
termination
  by (relation "measure (\<lambda>(m, str, sz, i, hash). sz - i)") auto

declare JSHash_loop.simps [simp del] SDBMHash_loop.simps [simp del]

definition JSHash :: "memory \<Rightarrow> u64 \<Rightarrow> int \<Rightarrow> u32" where
  "JSHash m str sz = JSHash_loop m str (nat sz) 0 1315423911 AND 0x7FFFFFFF"

definition SDBMHash :: "memory \<Rightarrow> u64 \<Rightarrow> int \<Rightarrow> u32" where
  "SDBMHash m str sz = SDBMHash_loop m str (nat sz) 0 0 AND 0x7FFFFFFF"

lemma and_mask31: "unat (x AND 0x7FFFFFFF :: u32) < 2 ^ 31"
proof -
  have "(0x7FFFFFFF :: u32) = mask 31" by (simp add: mask_eq_exp_minus_1)
  then have "x AND 0x7FFFFFFF = take_bit 31 x" by (simp add: take_bit_eq_mask)
  then have "unat (x AND 0x7FFFFFFF) = unat x mod 2 ^ 31" by (simp only: take_bit_eq_mod unat_mod_distrib) simp
  then show ?thesis by simp
qed

text \<open>The hashes are non-negative as C \<^verbatim>\<open>int\<close> values.\<close>

lemma hash_nonneg:
  "0 \<le> sint (JSHash m str sz)" "0 \<le> sint (SDBMHash m str sz)"
  "sint (SDBMHash m str sz) < 2 ^ 31"
proof -
  have "0 \<le> sint (x AND 0x7FFFFFFF :: u32) \<and> sint (x AND 0x7FFFFFFF :: u32) < 2 ^ 31" for x
  proof -
    let ?y = "x AND 0x7FFFFFFF :: u32"
    have "word_of_nat (unat ?y) = ?y" by simp
    then have "sint ?y = int (unat ?y)" using sint_u32_of_nat [OF and_mask31 [of x]] by metis
    moreover have "int (unat ?y) < int (2 ^ 31)" using and_mask31 [of x] by (simp only: of_nat_less_iff)
    ultimately show ?thesis by (metis of_nat_0_le_iff of_nat_numeral of_nat_power)
  qed
  then show "0 \<le> sint (JSHash m str sz)" "0 \<le> sint (SDBMHash m str sz)" "sint (SDBMHash m str sz) < 2 ^ 31"
    by (simp_all only: JSHash_def SDBMHash_def)
qed

text \<open>What the loop reads: only bytes at offsets below \<open>2 * sz - 1\<close>.\<close>

lemma SDBMHash_loop_cong:
  "(\<forall>j. j + 1 < 2 * sz - i \<longrightarrow> m (str + word_of_nat j) = m' (str + word_of_nat j)) \<Longrightarrow>
     SDBMHash_loop m str sz i hash = SDBMHash_loop m' str sz i hash"
proof (induction "sz - i" arbitrary: i str hash)
  case 0
  then show ?case by (subst (1 2) SDBMHash_loop.simps) simp
next
  case (Suc d)
  then have i: "i < sz" and d: "d = sz - Suc i" by linarith+
  have e: "m (str + word_of_nat i) = m' (str + word_of_nat i)" "m str = m' str"
    using Suc.prems [rule_format, of i] Suc.prems [rule_format, of 0] i by auto
  have "SDBMHash_loop m (str + 1) sz (Suc i) h = SDBMHash_loop m' (str + 1) sz (Suc i) h" for h
  proof (rule Suc.hyps(1) [OF d], intro allI impI)
    fix j assume "j + 1 < 2 * sz - Suc i"
    then have "Suc j + 1 < 2 * sz - i" using i by linarith
    from Suc.prems [rule_format, OF this]
    show "m (str + 1 + word_of_nat j) = m' (str + 1 + word_of_nat j)" by (simp add: add.assoc)
  qed
  then show ?case using e by (subst (1 2) SDBMHash_loop.simps) simp
qed

text \<open>
  Hashing a 4-byte object depends on the bytes that follow it: two memories that agree on the
  object give different hashes.
\<close>

lemma SDBMHash_overread:
  "\<exists>m m'. (\<forall>j < 4. m (0x1000 + word_of_nat j) = m' (0x1000 + word_of_nat j)) \<and>
     SDBMHash m 0x1000 4 \<noteq> SDBMHash m' 0x1000 4"
proof (intro exI conjI)
  let ?m = "(\<lambda>_. 0) (0x1000 := 1, 0x1001 := 1, 0x1002 := 1, 0x1003 := 1) :: memory"
  show "\<forall>j < 4. ?m (0x1000 + word_of_nat j) = (?m(0x1004 := 1)) (0x1000 + word_of_nat j)"
    by (simp add: numeral_eq_Suc All_less_Suc)
  show "SDBMHash ?m 0x1000 4 \<noteq> SDBMHash (?m(0x1004 := 1)) 0x1000 4" by code_simp
qed

end
