(* ===== verification/Slab.thy ===== *)
theory Slab
  imports BuddyContract KMath
begin

unbundle bit_operations_syntax

text \<open>
  The slab layer of \<^verbatim>\<open>module/mm/kmem_cache/slab.c\<close>: one slab is a block of pages cut into
  objects of one size, with an index array that links the free objects.

  In the kernel a \<^verbatim>\<open>slab_t\<close> lies at the start of its block; here it is a record of the state,
  found by the page that heads the block. \<^verbatim>\<open>mem_index_start\<close> is the list \<open>mem_index\<close> of C
  \<^verbatim>\<open>int\<close> values, in which \<^verbatim>\<open>0xffffffff\<close> is -1. A cache (\<^verbatim>\<open>kmem_cache_t\<close>) is found by its address, its
  three page lists are lists of page ids.
\<close>

subsection \<open>State\<close>

record slab =
  obj_all :: int
  obj_free :: int
  obj_size :: int
  mem_free_head :: int
  mem_free_tail :: int
  mem_index :: "int list"
  mem_obj_start :: u64

definition sizeof_slab :: int where "sizeof_slab = 40"
definition sizeof_int :: int where "sizeof_int = 4"

subsection \<open>One slab\<close>

text \<open>The index array after start-up: object \<open>i\<close> links to \<open>i + 1\<close>, the last one to itself.\<close>

definition init_index :: "int \<Rightarrow> int list" where
  "init_index obj_num = map (\<lambda>i. if int i \<noteq> obj_num - 1 then int i + 1 else int i) [0..<nat obj_num]"

text \<open>The bytes of the local variable \<^verbatim>\<open>offset\<close> at its stack address \<open>sp\<close>, little endian.\<close>

definition store_int :: "u64 \<Rightarrow> int \<Rightarrow> memory \<Rightarrow> memory" where
  "store_int sp v m = (let w = word_of_int v :: u32 in
     m(sp := ucast w, sp + 1 := ucast (drop_bit 8 w), sp + 2 := ucast (drop_bit 16 w),
       sp + 3 := ucast (drop_bit 24 w)))"

definition slab_color :: "u64 \<Rightarrow> memory \<Rightarrow> int \<Rightarrow> int \<Rightarrow> int" where
  "slab_color sp m padding offset =
     (if padding \<noteq> 0
      then sint (SDBMHash (store_int sp offset m) sp sizeof_int) mod padding AND NOT 3
      else 0)"

definition init_slab_xip ::
  "u64 \<Rightarrow> memory \<Rightarrow> u64 \<Rightarrow> int \<Rightarrow> int \<Rightarrow> int \<Rightarrow> slab option option" where
  "init_slab_xip sp m start sz objsz offset = do {
     ASSERT (start \<noteq> 0 \<and> sz > 0 \<and> objsz > 0 \<and> sz > objsz \<and> VAL_IS_PAGE_ALIGNED start);
     let obj_num = ((sz - sizeof_slab) mod 2 ^ 64) div (sizeof_int + objsz);
     let padding = ((sz - sizeof_slab) mod 2 ^ 64) mod (sizeof_int + objsz);
     let offset = slab_color sp m padding offset;
     ASSERT (offset \<ge> 0);
     if obj_num \<le> 0 then Some None
     else Some (Some \<lparr>obj_all = obj_num, obj_free = obj_num, obj_size = objsz,
       mem_free_head = 0, mem_free_tail = obj_num - 1, mem_index = init_index obj_num,
       mem_obj_start = start + word_of_int (sizeof_slab + sizeof_int * obj_num + offset)\<rparr>) }"

definition index_get :: "int \<Rightarrow> slab \<Rightarrow> int option" where
  "index_get i sb = (if 0 \<le> i then array_get (mem_index sb) (nat i) else None)"

definition index_set :: "int \<Rightarrow> int \<Rightarrow> slab \<Rightarrow> slab option" where
  "index_set i v sb = (if 0 \<le> i \<and> nat i < length (mem_index sb)
     then Some (sb\<lparr>mem_index := (mem_index sb)[nat i := v]\<rparr>) else None)"

text \<open>The address returned, 0 for NULL, and the new slab.\<close>

definition slab_alloc :: "slab \<Rightarrow> (u64 \<times> slab) option" where
  "slab_alloc sb =
     (if obj_free sb = 0 then Some (0, sb)
      else do {
        let index = mem_free_head sb;
        ASSERT (index \<noteq> - 1);
        let ret = mem_obj_start sb + word_of_int (obj_size sb * index);
        nx \<leftarrow> index_get index sb;
        let sb = sb\<lparr>mem_free_head := nx\<rparr>;
        sb \<leftarrow> index_set index (- 1) sb;
        let sb = sb\<lparr>obj_free := obj_free sb - 1\<rparr>;
        if obj_free sb = 0
        then Some (ret, sb\<lparr>mem_free_head := - 1, mem_free_tail := - 1\<rparr>)
        else Some (ret, sb) })"

definition slab_free :: "slab \<Rightarrow> u64 \<Rightarrow> slab option" where
  "slab_free sb address = do {
     ASSERT (address \<noteq> 0);
     ASSERT (address \<ge> mem_obj_start sb \<and> address < mem_obj_start sb + word_of_int (obj_all sb * obj_size sb));
     let index = sint (ucast (address - mem_obj_start sb) :: u32);
     ASSERT (index mod obj_size sb = 0);
     let index = index div obj_size sb;
     v \<leftarrow> index_get index sb;
     ASSERT (v = - 1);
     sb \<leftarrow> (if obj_free sb = 0 then do {
         ASSERT (mem_free_head sb = - 1 \<and> mem_free_tail sb = - 1);
         index_set index index (sb\<lparr>mem_free_head := index, mem_free_tail := index\<rparr>) }
       else do {
         ASSERT (mem_free_head sb \<noteq> - 1 \<and> mem_free_tail sb \<noteq> - 1);
         sb \<leftarrow> index_set (mem_free_tail sb) index sb;
         sb \<leftarrow> index_set index index sb;
         Some (sb\<lparr>mem_free_tail := index\<rparr>) });
     Some (sb\<lparr>obj_free := obj_free sb + 1\<rparr>) }"

subsection \<open>The invariant of a slab\<close>

text \<open>The free objects \<open>fl\<close> in allocation order, as the index array links them.\<close>

fun links :: "int list \<Rightarrow> nat list \<Rightarrow> bool" where
  "links idx [] \<longleftrightarrow> True"
| "links idx [x] \<longleftrightarrow> idx ! x = int x"
| "links idx (x # y # r) \<longleftrightarrow> idx ! x = int y \<and> links idx (y # r)"

definition slab_geom :: "slab \<Rightarrow> bool" where
  "slab_geom sb \<longleftrightarrow> 0 < obj_all sb \<and> 0 < obj_size sb \<and> obj_all sb = int (length (mem_index sb)) \<and>
     obj_all sb * obj_size sb < 2 ^ 31 \<and> mem_obj_start sb \<noteq> 0 \<and>
     uint (mem_obj_start sb) + obj_all sb * obj_size sb < 2 ^ 64"

definition slab_ok :: "slab \<Rightarrow> nat list \<Rightarrow> bool" where
  "slab_ok sb fl \<longleftrightarrow> slab_geom sb \<and> obj_free sb = int (length fl) \<and> distinct fl \<and>
     (\<forall>i \<in> set fl. i < length (mem_index sb)) \<and>
     (\<forall>i < length (mem_index sb). i \<notin> set fl \<longrightarrow> mem_index sb ! i = - 1) \<and>
     links (mem_index sb) fl \<and>
     mem_free_head sb = (if fl = [] then - 1 else int (hd fl)) \<and>
     mem_free_tail sb = (if fl = [] then - 1 else int (last fl))"

definition slab_obj :: "slab \<Rightarrow> nat \<Rightarrow> u64" where
  "slab_obj sb i = mem_obj_start sb + word_of_int (obj_size sb * int i)"

definition same_geom :: "slab \<Rightarrow> slab \<Rightarrow> bool" where
  "same_geom sb sb' \<longleftrightarrow> obj_all sb' = obj_all sb \<and> obj_size sb' = obj_size sb \<and>
     mem_obj_start sb' = mem_obj_start sb \<and> length (mem_index sb') = length (mem_index sb)"

lemma links_upd: "i \<notin> set fl \<Longrightarrow> links (idx[i := v]) fl = links idx fl"
  by (induction idx fl rule: links.induct) auto

lemma links_tl: "links idx (x # fl) \<Longrightarrow> links idx fl"
  by (cases fl) auto

lemma links_hd: "links idx (x # fl) \<Longrightarrow> idx ! x = int (if fl = [] then x else hd fl)"
  by (cases fl) auto

lemma links_snoc:
  assumes "links idx fl" "fl \<noteq> []" "distinct fl" "i \<notin> set fl" "i < length idx" "\<forall>j \<in> set fl. j < length idx"
  shows "links (idx[last fl := int i, i := int i]) (fl @ [i])"
  using assms
proof (induction fl rule: induct_list012)
  case (3 x y zs)
  have "links (idx[last (y # zs) := int i, i := int i]) ((y # zs) @ [i])"
    using 3 by (intro "3.IH") auto
  moreover have "last (y # zs) \<noteq> x" "i \<noteq> x" using 3(5,6) by (metis distinct.simps(2) last_in_set list.distinct(1)) (use 3 in auto)
  ultimately show ?case using 3 by simp
qed auto

lemma links_nonneg: "links idx fl \<Longrightarrow> i \<in> set fl \<Longrightarrow> 0 \<le> idx ! i"
  by (induction idx fl rule: links.induct) auto

lemma slab_alloc_empty: "slab_ok sb [] \<Longrightarrow> slab_alloc sb = Some (0, sb)"
  by (simp add: slab_alloc_def slab_ok_def)

lemma slab_alloc_spec:
  assumes "slab_ok sb (i # fl)"
  shows "\<exists>sb'. slab_alloc sb = Some (slab_obj sb i, sb') \<and> slab_ok sb' fl \<and> same_geom sb sb'"
proof -
  let ?idx = "mem_index sb"
  have i: "i < length ?idx" "i \<notin> set fl" and l: "links ?idx (i # fl)"
    using assms by (auto simp: slab_ok_def)
  have nx: "?idx ! i = int (if fl = [] then i else hd fl)" using links_hd [OF l] .
  have "links (?idx[i := - 1]) fl" using links_upd [OF i(2)] links_tl [OF l] by simp
  moreover have "\<forall>j < length ?idx. j \<notin> set fl \<longrightarrow> ?idx[i := - 1] ! j = - 1"
    using assms i by (auto simp: slab_ok_def nth_list_update)
  ultimately show ?thesis
    using assms i nx
    by (cases "fl = []")
      (auto simp: slab_alloc_def slab_ok_def index_get_def index_set_def slab_obj_def same_geom_def slab_geom_def)
qed

text \<open>Addresses of objects.\<close>

lemma obj_off_bounds:
  assumes "slab_geom sb" "i < length (mem_index sb)"
  shows "obj_size sb * int i + obj_size sb \<le> obj_all sb * obj_size sb" "0 \<le> obj_size sb * int i"
proof -
  have "int i + 1 \<le> obj_all sb" "0 < obj_size sb" using assms by (auto simp: slab_geom_def)
  then have "(int i + 1) * obj_size sb \<le> obj_all sb * obj_size sb" by (simp add: mult_right_mono)
  then show "obj_size sb * int i + obj_size sb \<le> obj_all sb * obj_size sb" by (simp add: algebra_simps)
  show "0 \<le> obj_size sb * int i" using \<open>0 < obj_size sb\<close> by simp
qed

lemma uint_slab_obj:
  assumes "slab_geom sb" "i < length (mem_index sb)"
  shows "uint (slab_obj sb i) = uint (mem_obj_start sb) + obj_size sb * int i"
proof -
  note b = obj_off_bounds [OF assms]
  have uint_nonneg: "0 \<le> uint (mem_obj_start sb)" by simp
  have s: "0 < obj_size sb" "obj_all sb * obj_size sb < 2 ^ 31"
    "uint (mem_obj_start sb) + obj_all sb * obj_size sb < 2 ^ 64" using assms(1) by (auto simp: slab_geom_def)
  have "uint (mem_obj_start sb) + obj_size sb * int i < 2 ^ 64" using b s by linarith
  then show ?thesis unfolding slab_obj_def by (rule uint_u64_plus_int [OF b(2)])
qed

lemma slab_free_index:
  assumes "slab_geom sb" "i < length (mem_index sb)"
  shows "mem_obj_start sb \<le> slab_obj sb i" "slab_obj sb i \<noteq> 0"
    "slab_obj sb i < mem_obj_start sb + word_of_int (obj_all sb * obj_size sb)"
    "sint (ucast (slab_obj sb i - mem_obj_start sb) :: u32) = obj_size sb * int i"
proof -
  note b = obj_off_bounds [OF assms] and u = uint_slab_obj [OF assms]
  have uint_nonneg: "0 \<le> uint (mem_obj_start sb)" by simp
  have s: "0 < obj_size sb" "obj_all sb * obj_size sb < 2 ^ 31" "mem_obj_start sb \<noteq> 0" "0 \<le> obj_all sb * obj_size sb"
    "uint (mem_obj_start sb) + obj_all sb * obj_size sb < 2 ^ 64" using assms(1) by (auto simp: slab_geom_def)
  show le: "mem_obj_start sb \<le> slab_obj sb i" using u b(2) by (simp add: word_le_def)
  then show "slab_obj sb i \<noteq> 0" using s(3) by (metis word_le_0_iff)
  have "uint (mem_obj_start sb + word_of_int (obj_all sb * obj_size sb)) = uint (mem_obj_start sb) + obj_all sb * obj_size sb"
    using s(4,5) by (rule uint_u64_plus_int)
  then show "slab_obj sb i < mem_obj_start sb + word_of_int (obj_all sb * obj_size sb)"
    unfolding word_less_def u using b s(1) by linarith
  have "uint (slab_obj sb i - mem_obj_start sb) = obj_size sb * int i"
    using le u by (simp add: uint_minus_simple_alt uint_sub_ge word_le_def uint_word_ariths mod_pos_pos_trivial b(2))
  moreover have "obj_size sb * int i < 2 ^ 31" using b s by linarith
  ultimately show "sint (ucast (slab_obj sb i - mem_obj_start sb) :: u32) = obj_size sb * int i"
    using sint_u32_of_u64 [of "slab_obj sb i - mem_obj_start sb"] by simp
qed

lemma slab_ok_geom: "slab_ok sb fl \<Longrightarrow> slab_geom sb"
  by (simp add: slab_ok_def)

lemma slab_obj_inj:
  assumes "slab_geom sb" "i < length (mem_index sb)" "j < length (mem_index sb)" "slab_obj sb i = slab_obj sb j"
  shows "i = j"
proof -
  have "uint (mem_obj_start sb) + obj_size sb * int i = uint (mem_obj_start sb) + obj_size sb * int j"
    using uint_slab_obj [OF assms(1,2)] uint_slab_obj [OF assms(1,3)] assms(4) by metis
  moreover have "0 < obj_size sb" using assms(1) by (simp add: slab_geom_def)
  ultimately show ?thesis by simp
qed

lemma slab_free_spec:
  assumes ok: "slab_ok sb fl" and i: "i < length (mem_index sb)" "i \<notin> set fl"
  shows "\<exists>sb'. slab_free sb (slab_obj sb i) = Some sb' \<and> slab_ok sb' (fl @ [i]) \<and> same_geom sb sb'"
proof -
  note g = slab_ok_geom [OF ok]
  note a = slab_free_index [OF g i(1)]
  have sz: "0 < obj_size sb" using g by (simp add: slab_geom_def)
  let ?idx = "mem_index sb" and ?t = "last fl"
  have used: "?idx ! i = - 1" using ok i by (simp add: slab_ok_def)
  show ?thesis
  proof (cases "fl = []")
    case True
    let ?sb' = "sb\<lparr>mem_free_head := int i, mem_free_tail := int i, mem_index := ?idx[i := int i], obj_free := obj_free sb + 1\<rparr>"
    have fr: "obj_free sb = 0" "mem_free_head sb = - 1" "mem_free_tail sb = - 1" using ok True by (auto simp: slab_ok_def)
    have "slab_free sb (slab_obj sb i) = Some ?sb'"
      using a i used sz fr by (simp add: slab_free_def index_get_def index_set_def Let_def)
    moreover have "\<forall>j < length ?idx. j \<noteq> i \<longrightarrow> ?idx[i := int i] ! j = - 1" using ok True by (simp add: slab_ok_def)
    then have "slab_ok ?sb' (fl @ [i])" using g True i fr by (auto simp: slab_ok_def slab_geom_def)
    ultimately show ?thesis by (simp add: same_geom_def)
  next
    case False
    then have t: "?t \<in> set fl" "?t < length ?idx" "?t \<noteq> i" using ok i by (auto simp: slab_ok_def)
    have l: "links (?idx[?t := int i, i := int i]) (fl @ [i])"
      using ok False i by (intro links_snoc) (auto simp: slab_ok_def)
    have o: "\<forall>j < length ?idx. j \<notin> set (fl @ [i]) \<longrightarrow> ?idx[?t := int i, i := int i] ! j = - 1"
    proof (intro allI impI)
      fix j assume j: "j < length ?idx" "j \<notin> set (fl @ [i])"
      then have "j \<noteq> ?t" "j \<noteq> i" using t by auto
      then show "?idx[?t := int i, i := int i] ! j = - 1" using ok j by (simp add: slab_ok_def)
    qed
    have fr: "obj_free sb \<noteq> 0" "mem_free_tail sb = int ?t" "mem_free_head sb \<noteq> - 1" using ok False by (auto simp: slab_ok_def)
    have "slab_free sb (slab_obj sb i) = Some (sb\<lparr>mem_index := ?idx[?t := int i, i := int i],
        mem_free_tail := int i, obj_free := obj_free sb + 1\<rparr>)"
      using a i used sz fr t by (simp add: slab_free_def index_get_def index_set_def Let_def)
    moreover have "slab_ok (sb\<lparr>mem_index := ?idx[?t := int i, i := int i],
        mem_free_tail := int i, obj_free := obj_free sb + 1\<rparr>) (fl @ [i])"
      using ok False i l o by (auto simp: slab_ok_def slab_geom_def)
    ultimately show ?thesis by (simp add: same_geom_def)
  qed
qed

text \<open>Everything but the address of an object in use stops at an assertion.\<close>

lemma slab_free_reject:
  assumes ok: "slab_ok sb fl" and a: "\<not> (\<exists>i < length (mem_index sb). i \<notin> set fl \<and> address = slab_obj sb i)"
  shows "slab_free sb address = None"
proof (rule ccontr)
  assume "slab_free sb address \<noteq> None"
  then obtain r where "slab_free sb address = Some r" by blast
  moreover define d where "d = sint (ucast (address - mem_obj_start sb) :: u32)"
  ultimately have h: "mem_obj_start sb \<le> address" "address < mem_obj_start sb + word_of_int (obj_all sb * obj_size sb)"
    "d mod obj_size sb = 0" "index_get (d div obj_size sb) sb = Some (- 1)"
    by (auto simp: slab_free_def Let_def monad_simps split: if_splits)
  note g = slab_ok_geom [OF ok]
  have s: "0 < obj_size sb" "obj_all sb * obj_size sb < 2 ^ 31" "0 \<le> obj_all sb * obj_size sb"
    "uint (mem_obj_start sb) + obj_all sb * obj_size sb < 2 ^ 64" using g by (auto simp: slab_geom_def)
  have "uint address < uint (mem_obj_start sb) + obj_all sb * obj_size sb"
    using h(2) unfolding word_less_def uint_u64_plus_int [OF s(3,4)] .
  moreover have df: "uint (address - mem_obj_start sb) = uint address - uint (mem_obj_start sb)"
    using h(1) by (simp add: uint_minus_simple_alt word_le_def)
  ultimately have "uint (address - mem_obj_start sb) < 2 ^ 31" using s(2) by linarith
  then have d: "d = uint address - uint (mem_obj_start sb)" unfolding d_def df [symmetric] by (rule sint_u32_of_u64)
  define i where "i = nat (d div obj_size sb)"
  have d0: "0 \<le> d" using h(1) d by (simp add: word_le_def)
  then have i: "int i = d div obj_size sb" using s(1) by (simp add: i_def pos_imp_zdiv_nonneg_iff)
  then have il: "i < length (mem_index sb)" "mem_index sb ! i = - 1"
    using h(4) i_def by (auto simp: index_get_def array_get_def split: if_splits)
  then have "i \<notin> set fl" using links_nonneg [of "mem_index sb" fl i] ok by (auto simp: slab_ok_def)
  moreover have "d = obj_size sb * int i" using h(3) i by (simp add: mult.commute minus_mod_eq_mult_div [symmetric])
  then have "uint address = uint (slab_obj sb i)" using uint_slab_obj [OF g il(1)] d by simp
  then have "address = slab_obj sb i" by (simp add: word_uint_eq_iff)
  ultimately show False using a il by blast
qed

subsection \<open>A fresh slab\<close>

lemma init_links: "links (init_index n) [k..<nat n]" if "k \<le> nat n"
  using that
proof (induction "nat n - k" arbitrary: k)
  case 0
  then show ?case by simp
next
  case (Suc d)
  then have k: "k < nat n" and d: "d = nat n - Suc k" by linarith+
  have IH: "links (init_index n) [Suc k..<nat n]" by (rule Suc.hyps(1) [OF d]) (use k in simp)
  show ?case
  proof (cases "Suc k < nat n")
    case True
    then have "[Suc k..<nat n] = Suc k # [Suc (Suc k)..<nat n]" "[k..<nat n] = k # [Suc k..<nat n]"
      by (simp_all add: upt_conv_Cons)
    moreover have "int k \<noteq> n - 1" using True by linarith
    then have "init_index n ! k = int (Suc k)" using k by (simp add: init_index_def)
    ultimately show ?thesis using IH by simp
  next
    case False
    then have "[k..<nat n] = [k]" "int k = n - 1" using k by (simp_all add: upt_conv_Cons)
    moreover then have "init_index n ! k = int k" using k by (simp add: init_index_def)
    ultimately show ?thesis by simp
  qed
qed

lemma slab_color_bounds:
  assumes "0 \<le> padding"
  shows "0 \<le> slab_color sp m padding offset" "padding \<noteq> 0 \<Longrightarrow> slab_color sp m padding offset < padding"
    "padding = 0 \<Longrightarrow> slab_color sp m padding offset = 0"
proof -
  have *: "x AND NOT 3 = x - x mod 4" for x :: int
  proof -
    have "NOT x AND take_bit 2 x = 0" by (rule bit_eqI) (auto simp: bit_simps)
    then have "x - take_bit 2 x = x AND NOT (take_bit 2 x)" by (rule disjunctive_diff_eq_and_not)
    also have "\<dots> = x AND NOT (mask 2)" by (rule bit_eqI) (auto simp: bit_simps)
    finally show ?thesis by (simp add: take_bit_eq_mod mask_eq_exp_minus_1)
  qed
  show "padding = 0 \<Longrightarrow> slab_color sp m padding offset = 0" by (simp add: slab_color_def)
  let ?h = "sint (SDBMHash (store_int sp offset m) sp sizeof_int) mod padding"
  show "padding \<noteq> 0 \<Longrightarrow> slab_color sp m padding offset < padding"
  proof -
    assume p: "padding \<noteq> 0"
    then have "?h < padding" "0 \<le> ?h mod 4" using assms by simp_all
    then show ?thesis using p unfolding slab_color_def * by simp
  qed
  show "0 \<le> slab_color sp m padding offset"
  proof (cases "padding = 0")
    case False
    have "?h mod 4 \<le> ?h" using False assms by (intro zmod_le_nonneg_dividend) simp
    then show ?thesis unfolding slab_color_def * by simp
  qed (simp add: slab_color_def)
qed

text \<open>
  A fresh slab on a block of \<open>sz\<close> bytes: all objects free, and objects and index array inside
  the block.
\<close>

lemma init_slab_xip_spec:
  assumes "start \<noteq> 0" "VAL_IS_PAGE_ALIGNED start" "4096 \<le> sz" "sz < 2 ^ 31" "0 < objsz" "objsz < sz"
    "uint start + sz < 2 ^ 64"
  defines "n \<equiv> (sz - 40) div (4 + objsz)"
  shows "if n = 0 then init_slab_xip sp m start sz objsz offset = Some None
    else \<exists>sb. init_slab_xip sp m start sz objsz offset = Some (Some sb) \<and> slab_ok sb [0..<nat n] \<and>
      obj_all sb = n \<and> obj_size sb = objsz \<and>
      uint start + 40 + 4 * n \<le> uint (mem_obj_start sb) \<and>
      uint (mem_obj_start sb) + n * objsz \<le> uint start + sz"
proof -
  let ?pad = "(sz - 40) mod (4 + objsz)" and ?c = "slab_color sp m ((sz - 40) mod (4 + objsz)) offset"
  have m: "(sz - 40) mod 2 ^ 64 = sz - 40" using assms(3,4) by (simp add: mod_pos_pos_trivial)
  have n0: "0 \<le> n" using assms(3,5) by (simp add: n_def pos_imp_zdiv_nonneg_iff)
  have pad: "0 \<le> ?pad" using assms(5) by simp
  have c: "0 \<le> ?c" "?c \<le> ?pad" using slab_color_bounds [OF pad, of sp m offset] by (cases "?pad = 0"; linarith)+
  have e: "n * (4 + objsz) + ?pad = sz - 40" unfolding n_def by (simp add: mult.commute)
  have op: "init_slab_xip sp m start sz objsz offset = (if n \<le> 0 then Some None
     else Some (Some \<lparr>obj_all = n, obj_free = n, obj_size = objsz,
       mem_free_head = 0, mem_free_tail = n - 1, mem_index = init_index n,
       mem_obj_start = start + word_of_int (40 + 4 * n + ?c)\<rparr>))"
    using assms(1-6) c(1) unfolding init_slab_xip_def sizeof_slab_def sizeof_int_def m n_def Let_def by simp
  show ?thesis
  proof (cases "n = 0")
    case True
    then show ?thesis using op by simp
  next
    case False
    then have np: "0 < n" using n0 by simp
    have ex: "n * (4 + objsz) = 4 * n + n * objsz" by (simp add: algebra_simps)
    have no: "0 < n * objsz" using np assms(5) by simp
    have tot: "40 + 4 * n + ?c + n * objsz \<le> sz" using e c ex by linarith
    have u: "uint (start + word_of_int (40 + 4 * n + ?c)) = uint start + (40 + 4 * n + ?c)"
      by (rule uint_u64_plus_int) (use np c tot no assms(7) in linarith)+
    let ?sb = "\<lparr>obj_all = n, obj_free = n, obj_size = objsz, mem_free_head = 0, mem_free_tail = n - 1,
       mem_index = init_index n, mem_obj_start = start + word_of_int (40 + 4 * n + ?c)\<rparr>"
    have nz: "start + word_of_int (40 + 4 * n + ?c) \<noteq> 0"
    proof
      assume "start + word_of_int (40 + 4 * n + ?c) = 0"
      then have "uint start + (40 + 4 * n + ?c) = 0" using u by simp
      moreover have "0 \<le> uint start" by simp
      ultimately show False using np c by linarith
    qed
    have len: "length (init_index n) = nat n" by (simp add: init_index_def)
    have "slab_geom ?sb"
      unfolding slab_geom_def using np assms(5) len tot no u nz c assms(4,7) by (simp add: init_index_def) 
    moreover have "last [0..<nat n] = nat n - 1" "hd [0..<nat n] = 0" using np by simp_all
    ultimately have "slab_ok ?sb [0..<nat n]"
      unfolding slab_ok_def using init_links [of 0 n] len np by simp
    then show ?thesis using op np False tot u c by (auto simp: algebra_simps)
  qed
qed

end
