(* ===== verification/KmemCache.thy ===== *)
theory KmemCache
  imports Slab
begin

unbundle bit_operations_syntax

text \<open>
  The object caches of \<^verbatim>\<open>module/mm/kmem_cache/slab.c\<close> and their start-up
  (\<^verbatim>\<open>kmem_cache_init.c\<close>): caches of equal-sized objects on slabs, each slab on a block of pages
  from the buddy allocator. The argument \<open>sp\<close> is the stack address of the local variable whose
  bytes \<^verbatim>\<open>init_slab_xip\<close> hashes.
\<close>

subsection \<open>State\<close>

record kmem_cache =
  obj_num :: int
  c_obj_size :: int
  pg_order :: int
  pg_orlimit :: int
  pg_orhas :: int
  color_offset :: int
  free_pgs :: "nat list"
  full_pgs :: "nat list"
  partial_pgs :: "nat list"

record kmem = mm +
  slabs :: "nat \<rightharpoonup> slab"
  caches :: "u64 \<rightharpoonup> kmem_cache"

definition cache_upd :: "u64 \<Rightarrow> (kmem_cache \<Rightarrow> kmem_cache) \<Rightarrow> 'a kmem_scheme \<Rightarrow> 'a kmem_scheme option" where
  "cache_upd a f s = do {
     c \<leftarrow> caches s a;
     Some (s\<lparr>caches := (caches s)(a \<mapsto> f c)\<rparr>) }"

subsection \<open>Pages and slabs\<close>

definition set_pgfm_aslab :: "nat \<Rightarrow> 'a kmem_scheme \<Rightarrow> 'a kmem_scheme option" where
  "set_pgfm_aslab p s = do {
     pg \<leftarrow> pg_get p s;
     ASSERT (pgtype pg = PAGE_BUDDYALLOCATOR \<and> buddy_flags pg = PG_BUDDY_FLAG_HEAD);
     s \<leftarrow> lock (PageLk p) s;
     s \<leftarrow> pg_upd p (\<lambda>pg. pg\<lparr>pgtype := SLAB_ALLOCATOR\<rparr>) s;
     Some (unlock (PageLk p) s) }"

definition set_pgfm_asbuddy :: "nat \<Rightarrow> 'a kmem_scheme \<Rightarrow> 'a kmem_scheme option" where
  "set_pgfm_asbuddy p s = do {
     pg \<leftarrow> pg_get p s;
     ASSERT (pgtype pg = SLAB_ALLOCATOR \<and> buddy_flags pg = PG_BUDDY_FLAG_HEAD);
     s \<leftarrow> lock (PageLk p) s;
     s \<leftarrow> pg_upd p (\<lambda>pg. pg\<lparr>pgtype := PAGE_BUDDYALLOCATOR\<rparr>) s;
     Some (unlock (PageLk p) s) }"

text \<open>The flag says whether \<^verbatim>\<open>init_slab\<close> returned a slab (\<open>False\<close> is NULL).\<close>

definition init_slab ::
  "pgfm_cfg \<Rightarrow> u64 \<Rightarrow> nat \<Rightarrow> int \<Rightarrow> int \<Rightarrow> 'a kmem_scheme \<Rightarrow> (bool \<times> 'a kmem_scheme) option" where
  "init_slab cfg sp p objsz offset s = do {
     pg \<leftarrow> pg_get p s;
     ASSERT (pgtype pg = SLAB_ALLOCATOR \<and> buddy_flags pg = PG_BUDDY_FLAG_HEAD);
     s \<leftarrow> lock (PageLk p) s;
     pg \<leftarrow> pg_get p s;
     let va = pg2va cfg p;
     let order = buddy_order pg;
     ret \<leftarrow> init_slab_xip sp (mem s) va (sint (ucast (push_bit order 1 * PAGE_SIZE :: u64) :: u32)) objsz offset;
     let s = unlock (PageLk p) s;
     (case ret of
        None \<Rightarrow> Some (False, s)
      | Some sb \<Rightarrow> Some (True, s\<lparr>slabs := (slabs s)(p \<mapsto> sb)\<rparr>)) }"

subsection \<open>Caches\<close>

text \<open>
  The statements that \<^verbatim>\<open>kmem_cache_init\<close> and \<^verbatim>\<open>kmem_obj_alloc\<close> share: take a block from the
  buddy allocator, make it a slab and hang it on the list of free slabs. \<open>False\<close> when there is
  no block or no room for an object, with the block given back.
\<close>

definition cache_grow :: "pgfm_cfg \<Rightarrow> u64 \<Rightarrow> u64 \<Rightarrow> 'a kmem_scheme \<Rightarrow> (bool \<times> 'a kmem_scheme) option" where
  "cache_grow cfg sp a s = do {
     c \<leftarrow> caches s a;
     (r, s) \<leftarrow> bkp_alloc_zero cfg (pg_order c) s;
     (case r of
        None \<Rightarrow> Some (False, s)
      | Some p \<Rightarrow> do {
          s \<leftarrow> set_pgfm_aslab p s;
          (ok, s) \<leftarrow> init_slab cfg sp p (c_obj_size c) (color_offset c) s;
          if \<not> ok then do {
            s \<leftarrow> set_pgfm_asbuddy p s;
            s \<leftarrow> bkp_free cfg (Some p) s;
            Some (False, s) }
          else do {
            sb \<leftarrow> slabs s p;
            ASSERT (obj_all sb = obj_free sb);
            s \<leftarrow> cache_upd a (\<lambda>c. c\<lparr>color_offset := (color_offset c + 1) AND 0x7fffffff,
                   obj_num := obj_num c + obj_free sb, pg_orhas := pg_orhas c + 1\<rparr>) s;
            s \<leftarrow> lock (PageLk p) s;
            s \<leftarrow> cache_upd a (\<lambda>c. c\<lparr>free_pgs := free_pgs c @ [p]\<rparr>) s;
            Some (True, unlock (PageLk p) s) } }) }"

text \<open>The loop that returns the pages of the free list to the buddy allocator.\<close>

fun cache_release :: "pgfm_cfg \<Rightarrow> u64 \<Rightarrow> nat list \<Rightarrow> 'a kmem_scheme \<Rightarrow> 'a kmem_scheme option" where
  "cache_release cfg a [] s = Some s"
| "cache_release cfg a (p # ps) s = do {
     s \<leftarrow> lock (PageLk p) s;
     s \<leftarrow> cache_upd a (\<lambda>c. c\<lparr>free_pgs := remove1 p (free_pgs c)\<rparr>) s;
     s \<leftarrow> pg_upd p (\<lambda>pg. pg\<lparr>pgtype := PAGE_BUDDYALLOCATOR\<rparr>) s;
     pg \<leftarrow> pg_get p s;
     ASSERT (buddy_flags pg = PG_BUDDY_FLAG_HEAD);
     let s = unlock (PageLk p) s;
     s \<leftarrow> bkp_free cfg (Some p) s;
     cache_release cfg a ps s }"

text \<open>\<^verbatim>\<open>for (int i = 0; i < init_pgor_alloc; i++)\<close>; \<open>False\<close> is the jump to \<^verbatim>\<open>free_kmm_cache\<close>.\<close>

fun cache_init_loop :: "pgfm_cfg \<Rightarrow> u64 \<Rightarrow> u64 \<Rightarrow> nat \<Rightarrow> 'a kmem_scheme \<Rightarrow> (bool \<times> 'a kmem_scheme) option" where
  "cache_init_loop cfg sp a 0 s = Some (True, s)"
| "cache_init_loop cfg sp a (Suc n) s = do {
     (ok, s) \<leftarrow> cache_grow cfg sp a s;
     if ok then cache_init_loop cfg sp a n s else Some (False, s) }"

definition kmem_cache_init ::
  "pgfm_cfg \<Rightarrow> u64 \<Rightarrow> u64 \<Rightarrow> int \<Rightarrow> int \<Rightarrow> int \<Rightarrow> int \<Rightarrow> 'a kmem_scheme \<Rightarrow> (int \<times> 'a kmem_scheme) option" where
  "kmem_cache_init cfg sp kmm_cache objsz order pgor_limit init_pgor_alloc s =
     (if kmm_cache = 0 \<or> objsz \<le> 0 \<or> \<not> (order \<ge> 0 \<and> order < int (MAX_ORDER cfg)) \<or>
         pgor_limit \<le> 0 \<or> init_pgor_alloc < 0 \<or> init_pgor_alloc > pgor_limit \<or>
         objsz \<ge> 2 ^ nat order * 4096
      then Some (- EFAULT, s)
      else do {
        let s = unlock (CacheLk kmm_cache) s;
        let s = s\<lparr>caches := (caches s)(kmm_cache \<mapsto>
              \<lparr>obj_num = 0, c_obj_size = objsz, pg_order = order, pg_orlimit = pgor_limit, pg_orhas = 0,
               color_offset = uint (kmm_cache AND 0x7fffffff),
               free_pgs = [], full_pgs = [], partial_pgs = []\<rparr>)\<rparr>;
        (ok, s) \<leftarrow> cache_init_loop cfg sp kmm_cache (nat init_pgor_alloc) s;
        if ok then Some (0, s)
        else do {
          c \<leftarrow> caches s kmm_cache;
          s \<leftarrow> cache_release cfg kmm_cache (free_pgs c) s;
          Some (- ENOMEM, s) } })"

text \<open>
  The final \<^verbatim>\<open>memset(kmm_cache, 0, sizeof(kmm_cache))\<close> clears the size of a pointer: the lock word
  (0 is the value of a held lock) and \<^verbatim>\<open>obj_num\<close>.
\<close>

definition kmem_cache_deinit :: "pgfm_cfg \<Rightarrow> u64 \<Rightarrow> 'a kmem_scheme \<Rightarrow> 'a kmem_scheme option" where
  "kmem_cache_deinit cfg kmm_cache s =
     (if kmm_cache = 0 then Some s
      else do {
        s \<leftarrow> lock (CacheLk kmm_cache) s;
        c \<leftarrow> caches s kmm_cache;
        ASSERT (full_pgs c = [] \<and> partial_pgs c = []);
        s \<leftarrow> cache_release cfg kmm_cache (free_pgs c) s;
        let s = unlock (CacheLk kmm_cache) s;
        s \<leftarrow> cache_upd kmm_cache (\<lambda>c. c\<lparr>obj_num := 0\<rparr>) s;
        Some (s\<lparr>held := insert (CacheLk kmm_cache) (held s)\<rparr>) })"

text \<open>Taking an object from a slab that has one, with the page moved to its new list.\<close>

definition obj_alloc_partial :: "u64 \<Rightarrow> nat \<Rightarrow> 'a kmem_scheme \<Rightarrow> (u64 \<times> 'a kmem_scheme) option" where
  "obj_alloc_partial a p s = do {
     s \<leftarrow> lock (PageLk p) s;
     sb \<leftarrow> slabs s p;
     (ret, sb) \<leftarrow> slab_alloc sb;
     ASSERT (ret \<noteq> 0);
     let s = s\<lparr>slabs := (slabs s)(p \<mapsto> sb)\<rparr>;
     s \<leftarrow> (if obj_free sb = 0
        then cache_upd a (\<lambda>c. c\<lparr>partial_pgs := remove1 p (partial_pgs c), full_pgs := full_pgs c @ [p]\<rparr>) s
        else Some s);
     let s = unlock (PageLk p) s;
     s \<leftarrow> cache_upd a (\<lambda>c. c\<lparr>obj_num := obj_num c - 1\<rparr>) s;
     Some (ret, unlock (CacheLk a) s) }"

definition obj_alloc_free :: "u64 \<Rightarrow> nat \<Rightarrow> 'a kmem_scheme \<Rightarrow> (u64 \<times> 'a kmem_scheme) option" where
  "obj_alloc_free a p s = do {
     s \<leftarrow> lock (PageLk p) s;
     sb \<leftarrow> slabs s p;
     (ret, sb) \<leftarrow> slab_alloc sb;
     ASSERT (ret \<noteq> 0);
     let s = s\<lparr>slabs := (slabs s)(p \<mapsto> sb)\<rparr>;
     s \<leftarrow> cache_upd a (\<lambda>c. c\<lparr>free_pgs := remove1 p (free_pgs c)\<rparr>) s;
     s \<leftarrow> (if obj_free sb = 0
        then cache_upd a (\<lambda>c. c\<lparr>full_pgs := full_pgs c @ [p]\<rparr>) s
        else cache_upd a (\<lambda>c. c\<lparr>partial_pgs := partial_pgs c @ [p]\<rparr>) s);
     let s = unlock (PageLk p) s;
     s \<leftarrow> cache_upd a (\<lambda>c. c\<lparr>obj_num := obj_num c - 1\<rparr>) s;
     Some (ret, unlock (CacheLk a) s) }"

text \<open>The part of \<^verbatim>\<open>kmem_obj_alloc\<close> after the cache has been grown.\<close>

definition obj_alloc_take :: "u64 \<Rightarrow> 'a kmem_scheme \<Rightarrow> (u64 \<times> 'a kmem_scheme) option" where
  "obj_alloc_take a s = do {
     c \<leftarrow> caches s a;
     (case partial_pgs c of
        p # _ \<Rightarrow> obj_alloc_partial a p s
      | [] \<Rightarrow> (case free_pgs c of
          p # _ \<Rightarrow> obj_alloc_free a p s
        | [] \<Rightarrow> None)) }"

definition kmem_obj_alloc :: "pgfm_cfg \<Rightarrow> u64 \<Rightarrow> u64 \<Rightarrow> 'a kmem_scheme \<Rightarrow> (u64 \<times> 'a kmem_scheme) option" where
  "kmem_obj_alloc cfg sp kmm_cache s =
     (if kmm_cache = 0 then Some (0, s)
      else do {
        s \<leftarrow> lock (CacheLk kmm_cache) s;
        c \<leftarrow> caches s kmm_cache;
        if obj_num c = 0 then
          (if pg_orhas c \<ge> pg_orlimit c then Some (0, unlock (CacheLk kmm_cache) s)
           else do {
             (ok, s) \<leftarrow> cache_grow cfg sp kmm_cache s;
             if ok then obj_alloc_take kmm_cache s
             else Some (0, unlock (CacheLk kmm_cache) s) })
        else obj_alloc_take kmm_cache s })"

text \<open>The two search loops of \<^verbatim>\<open>kmem_obj_free\<close>; \<open>True\<close> when the object has been freed.\<close>

definition in_slab :: "pgfm_cfg \<Rightarrow> int \<Rightarrow> nat \<Rightarrow> u64 \<Rightarrow> bool" where
  "in_slab cfg order p address \<longleftrightarrow>
     address > pg2va cfg p \<and>
     address < pg2va cfg p + word_of_int (sint (ucast (push_bit (nat order) 1 * PAGE_SIZE :: u64) :: u32))"

fun obj_free_partial :: "pgfm_cfg \<Rightarrow> u64 \<Rightarrow> int \<Rightarrow> u64 \<Rightarrow> nat list \<Rightarrow> 'a kmem_scheme \<Rightarrow> (bool \<times> 'a kmem_scheme) option" where
  "obj_free_partial cfg a order address [] s = Some (False, s)"
| "obj_free_partial cfg a order address (p # ps) s = do {
     s \<leftarrow> lock (PageLk p) s;
     pg \<leftarrow> pg_get p s;
     ASSERT (pgtype pg = SLAB_ALLOCATOR \<and> buddy_flags pg = PG_BUDDY_FLAG_HEAD);
     sb \<leftarrow> slabs s p;
     ASSERT (obj_all sb > obj_free sb);
     if in_slab cfg order p address then do {
       sb \<leftarrow> slab_free sb address;
       let s = s\<lparr>slabs := (slabs s)(p \<mapsto> sb)\<rparr>;
       s \<leftarrow> (if obj_free sb = obj_all sb
          then cache_upd a (\<lambda>c. c\<lparr>partial_pgs := remove1 p (partial_pgs c), free_pgs := free_pgs c @ [p]\<rparr>) s
          else Some s);
       let s = unlock (PageLk p) s;
       s \<leftarrow> cache_upd a (\<lambda>c. c\<lparr>obj_num := obj_num c + 1\<rparr>) s;
       Some (True, unlock (CacheLk a) s) }
     else obj_free_partial cfg a order address ps (unlock (PageLk p) s) }"

fun obj_free_full :: "pgfm_cfg \<Rightarrow> u64 \<Rightarrow> int \<Rightarrow> u64 \<Rightarrow> nat list \<Rightarrow> 'a kmem_scheme \<Rightarrow> (bool \<times> 'a kmem_scheme) option" where
  "obj_free_full cfg a order address [] s = Some (False, s)"
| "obj_free_full cfg a order address (p # ps) s = do {
     s \<leftarrow> lock (PageLk p) s;
     pg \<leftarrow> pg_get p s;
     ASSERT (pgtype pg = SLAB_ALLOCATOR \<and> buddy_flags pg = PG_BUDDY_FLAG_HEAD);
     sb \<leftarrow> slabs s p;
     ASSERT (obj_free sb = 0);
     if in_slab cfg order p address then do {
       sb \<leftarrow> slab_free sb address;
       let s = s\<lparr>slabs := (slabs s)(p \<mapsto> sb)\<rparr>;
       s \<leftarrow> cache_upd a (\<lambda>c. c\<lparr>full_pgs := remove1 p (full_pgs c)\<rparr>) s;
       s \<leftarrow> (if obj_free sb = obj_all sb
          then cache_upd a (\<lambda>c. c\<lparr>free_pgs := free_pgs c @ [p]\<rparr>) s
          else cache_upd a (\<lambda>c. c\<lparr>partial_pgs := partial_pgs c @ [p]\<rparr>) s);
       let s = unlock (PageLk p) s;
       s \<leftarrow> cache_upd a (\<lambda>c. c\<lparr>obj_num := obj_num c + 1\<rparr>) s;
       Some (True, unlock (CacheLk a) s) }
     else obj_free_full cfg a order address ps (unlock (PageLk p) s) }"

definition kmem_obj_free :: "pgfm_cfg \<Rightarrow> u64 \<Rightarrow> u64 \<Rightarrow> 'a kmem_scheme \<Rightarrow> 'a kmem_scheme option" where
  "kmem_obj_free cfg kmm_cache address s =
     (if kmm_cache = 0 \<or> address = 0 then Some s
      else do {
        s \<leftarrow> lock (CacheLk kmm_cache) s;
        c \<leftarrow> caches s kmm_cache;
        (fin, s) \<leftarrow> obj_free_partial cfg kmm_cache (pg_order c) address (partial_pgs c) s;
        if fin then Some s
        else do {
          c \<leftarrow> caches s kmm_cache;
          (fin, s) \<leftarrow> obj_free_full cfg kmm_cache (pg_order c) address (full_pgs c) s;
          if fin then Some s else Some (unlock (CacheLk kmm_cache) s) } })"

record kmm_cinfo =
  info_obj_num :: int
  info_obj_size :: int
  info_pg_orlimit :: int
  info_pg_orhas :: int
  info_pg_order :: int

text \<open>\<^verbatim>\<open>kmem_cached_info\<close> fills the structure it is given; \<open>None\<close> in the result when it returns early.\<close>

definition kmem_cached_info :: "u64 \<Rightarrow> bool \<Rightarrow> 'a kmem_scheme \<Rightarrow> (kmm_cinfo option \<times> 'a kmem_scheme) option" where
  "kmem_cached_info kmm_cache info_null s =
     (if kmm_cache = 0 \<or> info_null then Some (None, s)
      else do {
        s \<leftarrow> lock (CacheLk kmm_cache) s;
        c \<leftarrow> caches s kmm_cache;
        Some (Some \<lparr>info_obj_num = obj_num c, info_obj_size = c_obj_size c, info_pg_orlimit = pg_orlimit c,
                    info_pg_orhas = pg_orhas c, info_pg_order = pg_order c\<rparr>,
              unlock (CacheLk kmm_cache) s) })"

text \<open>The cache of caches: its address is \<open>slab_kmm_cache\<close>, and \<^verbatim>\<open>sizeof(kmem_cache_t)\<close> is 80.\<close>

definition kmem_cache_alloc :: "pgfm_cfg \<Rightarrow> u64 \<Rightarrow> u64 \<Rightarrow> 'a kmem_scheme \<Rightarrow> (u64 \<times> 'a kmem_scheme) option" where
  "kmem_cache_alloc cfg sp slab_kmm_cache s = kmem_obj_alloc cfg sp slab_kmm_cache s"

definition kmem_cache_free :: "pgfm_cfg \<Rightarrow> u64 \<Rightarrow> u64 \<Rightarrow> 'a kmem_scheme \<Rightarrow> 'a kmem_scheme option" where
  "kmem_cache_free cfg slab_kmm_cache kmm_cache s = kmem_obj_free cfg slab_kmm_cache kmm_cache s"

definition kmem_module_init ::
  "pgfm_cfg \<Rightarrow> u64 \<Rightarrow> u64 \<Rightarrow> u32 \<times> 'a kmem_scheme \<Rightarrow> (int \<times> u32 \<times> 'a kmem_scheme) option" where
  "kmem_module_init cfg sp slab_kmm_cache = (\<lambda>(done, s).
     if done \<noteq> 0 then Some (0, done, s)
     else do {
       (ret, s) \<leftarrow> kmem_cache_init cfg sp slab_kmm_cache 80 0 3 3 s;
       if ret < 0 then Some (ret, done, s) else Some (ret, done + 1, s) })"

end
