(* ===== verification/KmemInv.thy ===== *)
theory KmemInv
  imports KmemCache
begin

unbundle bit_operations_syntax

text \<open>
  The invariant of the object caches and what every operation does to it: each slab page of a cache
  is a block of the buddy allocator in use and owned by the slab layer, its list tells how many
  of its objects are free, the cache's counters add up, and different caches share no page.
\<close>

subsection \<open>The invariant\<close>

definition all_pgs :: "kmem_cache \<Rightarrow> nat list" where
  "all_pgs c = free_pgs c @ full_pgs c @ partial_pgs c"

definition slab_of :: "'a kmem_scheme \<Rightarrow> nat \<Rightarrow> slab" where
  "slab_of s p = the (slabs s p)"

definition slab_in_block :: "pgfm_cfg \<Rightarrow> nat \<Rightarrow> nat \<Rightarrow> slab \<Rightarrow> bool" where
  "slab_in_block cfg p k sb \<longleftrightarrow>
     uint (pg2va cfg p) + 40 \<le> uint (mem_obj_start sb) \<and>
     uint (mem_obj_start sb) + obj_all sb * obj_size sb \<le> uint (pg2va cfg p) + 2 ^ k * 4096"

definition slab_page :: "pgfm_cfg \<Rightarrow> 'a kmem_scheme \<Rightarrow> nat \<Rightarrow> int \<Rightarrow> nat \<Rightarrow> bool" where
  "slab_page cfg s k sz p \<longleftrightarrow>
     (p, k) \<in> mm_used s \<and> pgtype (pgframe_pages s ! p) = SLAB_ALLOCATOR \<and>
     (\<exists>sb fl. slabs s p = Some sb \<and> slab_ok sb fl \<and> obj_size sb = sz \<and> slab_in_block cfg p k sb)"

definition cache_ok :: "pgfm_cfg \<Rightarrow> 'a kmem_scheme \<Rightarrow> kmem_cache \<Rightarrow> bool" where
  "cache_ok cfg s c \<longleftrightarrow>
     distinct (all_pgs c) \<and>
     (\<forall>p \<in> set (all_pgs c). slab_page cfg s (nat (pg_order c)) (c_obj_size c) p) \<and>
     (\<forall>p \<in> set (free_pgs c). obj_free (slab_of s p) = obj_all (slab_of s p)) \<and>
     (\<forall>p \<in> set (full_pgs c). obj_free (slab_of s p) = 0) \<and>
     (\<forall>p \<in> set (partial_pgs c). 0 < obj_free (slab_of s p) \<and> obj_free (slab_of s p) < obj_all (slab_of s p)) \<and>
     obj_num c = (\<Sum>p \<in> set (all_pgs c). obj_free (slab_of s p)) \<and>
     pg_orhas c = int (length (all_pgs c)) \<and>
     0 \<le> pg_order c \<and> pg_order c < int (MAX_ORDER cfg) \<and>
     0 < c_obj_size c \<and> c_obj_size c < 2 ^ nat (pg_order c) * 4096"

definition caches_ok :: "pgfm_cfg \<Rightarrow> 'a kmem_scheme \<Rightarrow> bool" where
  "caches_ok cfg s \<longleftrightarrow>
     (\<forall>a c. caches s a = Some c \<longrightarrow> a \<noteq> 0 \<and> cache_ok cfg s c) \<and>
     (\<forall>a b c d. caches s a = Some c \<and> caches s b = Some d \<and> a \<noteq> b \<longrightarrow> set (all_pgs c) \<inter> set (all_pgs d) = {})"

definition kmem_inv :: "pgfm_cfg \<Rightarrow> 'a kmem_scheme \<Rightarrow> bool" where
  "kmem_inv cfg s \<longleftrightarrow> mm_inv cfg s \<and> PGFRAME_VA_START cfg \<noteq> 0 \<and> caches_ok cfg s"

text \<open>The objects handed out, of one slab and of a cache.\<close>

definition slab_live :: "slab \<Rightarrow> u64 set" where
  "slab_live sb = {slab_obj sb i | i. i < length (mem_index sb) \<and> mem_index sb ! i = - 1}"

definition cache_live :: "'a kmem_scheme \<Rightarrow> kmem_cache \<Rightarrow> u64 set" where
  "cache_live s c = (\<Union>p \<in> set (all_pgs c). slab_live (slab_of s p))"

lemma slab_okD:
  assumes "slab_ok sb fl"
  shows "slab_geom sb" "obj_free sb = int (length fl)" "i < length (mem_index sb) \<Longrightarrow> mem_index sb ! i = - 1 \<longleftrightarrow> i \<notin> set fl"
    "obj_free sb \<le> obj_all sb" "0 \<le> obj_free sb"
proof -
  show g: "slab_geom sb" and f: "obj_free sb = int (length fl)" using assms by (simp_all add: slab_ok_def)
  show "mem_index sb ! i = - 1 \<longleftrightarrow> i \<notin> set fl" if "i < length (mem_index sb)"
    using assms that links_nonneg [of "mem_index sb" fl i] by (auto simp: slab_ok_def)
  have "set fl \<subseteq> {..<length (mem_index sb)}" "distinct fl" using assms by (auto simp: slab_ok_def)
  then have "length fl \<le> length (mem_index sb)"
    by (metis card_lessThan card_mono distinct_card finite_lessThan)
  then show "obj_free sb \<le> obj_all sb" "0 \<le> obj_free sb" using f g by (auto simp: slab_geom_def)
qed

lemma slab_live_ok:
  assumes "slab_ok sb fl"
  shows "slab_live sb = {slab_obj sb i | i. i < length (mem_index sb) \<and> i \<notin> set fl}"
  using slab_okD(3) [OF assms] by (auto simp: slab_live_def)

lemma same_geom_obj: "same_geom sb sb' \<Longrightarrow> slab_obj sb' i = slab_obj sb i"
  by (simp add: same_geom_def slab_obj_def)

subsection \<open>Changing one slab and its cache\<close>

definition kput :: "nat \<Rightarrow> slab \<Rightarrow> u64 \<Rightarrow> kmem_cache \<Rightarrow> 'a kmem_scheme \<Rightarrow> 'a kmem_scheme" where
  "kput p sb a c s = s\<lparr>slabs := (slabs s)(p \<mapsto> sb), caches := (caches s)(a \<mapsto> c)\<rparr>"

lemma kput_sel [simp]:
  "pgframe_pages (kput p sb a c s) = pgframe_pages s" "mm_used (kput p sb a c s) = mm_used s"
  "held (kput p sb a c s) = held s" "caches (kput p sb a c s) = (caches s)(a \<mapsto> c)"
  "slabs (kput p sb a c s) = (slabs s)(p \<mapsto> sb)" "mm_inv cfg (kput p sb a c s) = mm_inv cfg s"
  "free_pages (kput p sb a c s) = free_pages s"
  by (simp_all add: kput_def mm_used_def mm_inv_def buddy_inv_def mm_unlocked_def free_pages_def)

lemma slab_of_kput [simp]: "slab_of (kput p sb a c s) q = (if q = p then sb else slab_of s q)"
  by (simp add: slab_of_def)

lemma slab_pageD:
  assumes "slab_page cfg s k sz p"
  obtains fl where "slabs s p = Some (slab_of s p)" "slab_ok (slab_of s p) fl" "obj_size (slab_of s p) = sz"
    "slab_in_block cfg p k (slab_of s p)"
  using assms by (auto simp: slab_page_def slab_of_def)

lemma slab_page_kput:
  assumes "slab_page cfg s k sz q" "slabs s p = Some sb" "same_geom sb sb'" "slab_ok sb' fl'"
  shows "slab_page cfg (kput p sb' a c s) k sz q"
  using assms by (auto simp: slab_page_def slab_in_block_def same_geom_def)

text \<open>
  The general step: the slab of page \<open>p\<close> changes, the cache keeps its pages, possibly on other
  lists, and its object counter follows.
\<close>

definition pages_kept :: "kmem_cache \<Rightarrow> kmem_cache \<Rightarrow> bool" where
  "pages_kept c c' \<longleftrightarrow> set (all_pgs c') = set (all_pgs c) \<and> distinct (all_pgs c') \<and>
     c_obj_size c' = c_obj_size c \<and> pg_order c' = pg_order c \<and> pg_orhas c' = pg_orhas c \<and> pg_orlimit c' = pg_orlimit c"

definition lists_ok :: "'a kmem_scheme \<Rightarrow> kmem_cache \<Rightarrow> bool" where
  "lists_ok s c \<longleftrightarrow>
     (\<forall>p \<in> set (free_pgs c). obj_free (slab_of s p) = obj_all (slab_of s p)) \<and>
     (\<forall>p \<in> set (full_pgs c). obj_free (slab_of s p) = 0) \<and>
     (\<forall>p \<in> set (partial_pgs c). 0 < obj_free (slab_of s p) \<and> obj_free (slab_of s p) < obj_all (slab_of s p))"

lemma sum_one_changed:
  fixes f g :: "nat \<Rightarrow> int"
  assumes "finite A" "p \<in> A" "\<And>q. q \<noteq> p \<Longrightarrow> g q = f q"
  shows "sum g A = sum f A + (g p - f p)"
proof -
  have "sum g (A - {p}) = sum f (A - {p})" using assms(3) by (intro sum.cong) auto
  then show ?thesis using sum.remove [OF assms(1,2), of g] sum.remove [OF assms(1,2), of f] by simp
qed

lemma cache_ok_cong:
  assumes "cache_ok cfg s d" "\<And>q. q \<in> set (all_pgs d) \<Longrightarrow> slab_of t q = slab_of s q"
    "\<And>k sz q. q \<in> set (all_pgs d) \<Longrightarrow> slab_page cfg s k sz q \<Longrightarrow> slab_page cfg t k sz q"
  shows "cache_ok cfg t d"
proof -
  have "(\<Sum>q \<in> set (all_pgs d). obj_free (slab_of t q)) = (\<Sum>q \<in> set (all_pgs d). obj_free (slab_of s q))"
    by (rule sum.cong) (simp_all add: assms(2))
  moreover have "slab_of t q = slab_of s q" if "q \<in> set (free_pgs d) \<union> set (full_pgs d) \<union> set (partial_pgs d)" for q
    using that assms(2) [of q] by (auto simp: all_pgs_def)
  ultimately show ?thesis using assms(1,3) unfolding cache_ok_def by simp
qed

lemma kput_inv:
  assumes inv: "kmem_inv cfg s" and c: "caches s a = Some c" "p \<in> set (all_pgs c)" "slabs s p = Some sb"
    and sb: "same_geom sb sb'" "slab_ok sb' fl'"
    and c': "pages_kept c c'" "obj_num c' = obj_num c + (obj_free sb' - obj_free sb)"
      "lists_ok (kput p sb' a c' s) c'"
  shows "kmem_inv cfg (kput p sb' a c' s)"
    and "cache_live (kput p sb' a c' s) c' = (\<Union>q \<in> set (all_pgs c) - {p}. slab_live (slab_of s q)) \<union> slab_live sb'"
    and "\<And>b d. caches s b = Some d \<Longrightarrow> b \<noteq> a \<Longrightarrow> cache_live (kput p sb' a c' s) d = cache_live s d"
proof -
  let ?t = "kput p sb' a c' s"
  have K: "mm_inv cfg s" "PGFRAME_VA_START cfg \<noteq> 0" "\<And>b d. caches s b = Some d \<Longrightarrow> b \<noteq> 0 \<and> cache_ok cfg s d"
    "\<And>x y u v. caches s x = Some u \<Longrightarrow> caches s y = Some v \<Longrightarrow> x \<noteq> y \<Longrightarrow> set (all_pgs u) \<inter> set (all_pgs v) = {}"
    using inv by (auto simp: kmem_inv_def caches_ok_def)
  have other: "p \<notin> set (all_pgs d)" if "caches s b = Some d" "b \<noteq> a" for b d
    using K(4) [OF that(1) c(1) that(2)] c(2) by blast
  have same: "set (all_pgs c') = set (all_pgs c)" using c'(1) by (simp add: pages_kept_def)
  have sum: "obj_num c' = (\<Sum>q \<in> set (all_pgs c). obj_free (slab_of ?t q))"
  proof -
    have "obj_num c = (\<Sum>q \<in> set (all_pgs c). obj_free (slab_of s q))" using K(3) [OF c(1)] by (simp add: cache_ok_def)
    moreover have "(\<Sum>q \<in> set (all_pgs c). obj_free (slab_of ?t q)) = (\<Sum>q \<in> set (all_pgs c). obj_free (slab_of s q)) +
        (obj_free (slab_of ?t p) - obj_free (slab_of s p))"
      by (rule sum_one_changed) (use c(2) in auto)
    ultimately show ?thesis using c'(2) c(3) by (simp add: slab_of_def)
  qed
  have okc: "cache_ok cfg ?t c'"
  proof -
    have "pg_orhas c' = int (length (all_pgs c'))"
    proof -
      have "distinct (all_pgs c')" "distinct (all_pgs c)"
        using c'(1) K(3) [OF c(1)] by (simp_all add: pages_kept_def cache_ok_def)
      then have "length (all_pgs c') = length (all_pgs c)" using same by (metis distinct_card)
      then show ?thesis using c'(1) K(3) [OF c(1)] by (simp add: cache_ok_def pages_kept_def)
    qed
    moreover have "slab_page cfg ?t (nat (pg_order c')) (c_obj_size c') q" if "q \<in> set (all_pgs c')" for q
      using slab_page_kput [OF _ c(3) sb] K(3) [OF c(1)] c'(1) that by (auto simp: cache_ok_def pages_kept_def)
    ultimately show ?thesis
      using K(3) [OF c(1)] c'(1,3) sum same unfolding cache_ok_def pages_kept_def lists_ok_def by simp
  qed
  have okd: "cache_ok cfg ?t d" if d: "caches s b = Some d" "b \<noteq> a" for b d
  proof (rule cache_ok_cong)
    show "cache_ok cfg s d" using K(3) d(1) by blast
    show "slab_of ?t q = slab_of s q" if "q \<in> set (all_pgs d)" for q using other [OF d] that by auto
    show "slab_page cfg ?t k sz q" if "slab_page cfg s k sz q" for k sz q
      using slab_page_kput [OF that c(3) sb] .
  qed
  have "caches_ok cfg ?t"
    unfolding caches_ok_def
  proof (intro conjI allI impI)
    fix b d assume "caches ?t b = Some d"
    then have "(if b = a then Some c' else caches s b) = Some d" by simp
    then consider "b = a" "d = c'" | "b \<noteq> a" "caches s b = Some d" by (metis option.inject)
    then show "b \<noteq> 0" "cache_ok cfg ?t d"
      using K(3) c(1) okc okd by (cases; blast)+
  next
    fix x y u v assume "caches ?t x = Some u \<and> caches ?t y = Some v \<and> x \<noteq> y"
    then have xy: "x \<noteq> y" "(if x = a then Some c' else caches s x) = Some u" "(if y = a then Some c' else caches s y) = Some v"
      by auto
    then consider "x = a" "u = c'" "caches s y = Some v" | "y = a" "v = c'" "caches s x = Some u"
      | "caches s x = Some u" "caches s y = Some v" by (metis option.inject)
    then show "set (all_pgs u) \<inter> set (all_pgs v) = {}"
    proof cases
      case 1
      then show ?thesis using K(4) [OF c(1) 1(3)] xy(1) same by simp
    next
      case 2
      then show ?thesis using K(4) [OF 2(3) c(1)] xy(1) same by simp
    next
      case 3
      then show ?thesis using K(4) xy(1) by blast
    qed
  qed
  then show "kmem_inv cfg ?t" using K(1,2) by (simp add: kmem_inv_def)
  show "cache_live ?t c' = (\<Union>q \<in> set (all_pgs c) - {p}. slab_live (slab_of s q)) \<union> slab_live sb'"
    using c(2) same by (auto simp: cache_live_def split: if_splits)
  show "cache_live ?t d = cache_live s d" if "caches s b = Some d" "b \<noteq> a" for b d
    using other [OF that] by (auto simp: cache_live_def split: if_splits)
qed

subsection \<open>Taking and returning an object\<close>

definition after_partial_alloc :: "nat \<Rightarrow> slab \<Rightarrow> kmem_cache \<Rightarrow> kmem_cache" where
  "after_partial_alloc p sb c =
     (if obj_free sb = 0
      then c\<lparr>partial_pgs := remove1 p (partial_pgs c), full_pgs := full_pgs c @ [p], obj_num := obj_num c - 1\<rparr>
      else c\<lparr>obj_num := obj_num c - 1\<rparr>)"

definition after_free_alloc :: "nat \<Rightarrow> slab \<Rightarrow> kmem_cache \<Rightarrow> kmem_cache" where
  "after_free_alloc p sb c =
     (if obj_free sb = 0
      then c\<lparr>free_pgs := remove1 p (free_pgs c), full_pgs := full_pgs c @ [p], obj_num := obj_num c - 1\<rparr>
      else c\<lparr>free_pgs := remove1 p (free_pgs c), partial_pgs := partial_pgs c @ [p], obj_num := obj_num c - 1\<rparr>)"

lemma obj_alloc_partial_eq:
  assumes "slabs s p = Some sb" "slab_alloc sb = Some (ret, sb')" "ret \<noteq> 0" "caches s a = Some c" "PageLk p \<notin> held s"
  shows "obj_alloc_partial a p s =
    Some (ret, (kput p sb' a (after_partial_alloc p sb' c) s)\<lparr>held := held s - {CacheLk a}\<rparr>)"
  using assms
  by (auto simp: obj_alloc_partial_def cache_upd_def unlock_def kput_def after_partial_alloc_def Let_def
      intro!: kmem.equality)

lemma obj_alloc_free_eq:
  assumes "slabs s p = Some sb" "slab_alloc sb = Some (ret, sb')" "ret \<noteq> 0" "caches s a = Some c" "PageLk p \<notin> held s"
  shows "obj_alloc_free a p s =
    Some (ret, (kput p sb' a (after_free_alloc p sb' c) s)\<lparr>held := held s - {CacheLk a}\<rparr>)"
  using assms
  by (auto simp: obj_alloc_free_def cache_upd_def unlock_def kput_def after_free_alloc_def Let_def
      intro!: kmem.equality)

lemma cache_okD:
  assumes "cache_ok cfg s c"
  shows "distinct (all_pgs c)" "\<And>p. p \<in> set (all_pgs c) \<Longrightarrow> slab_page cfg s (nat (pg_order c)) (c_obj_size c) p"
    "lists_ok s c" "obj_num c = (\<Sum>p \<in> set (all_pgs c). obj_free (slab_of s p))"
    "pg_orhas c = int (length (all_pgs c))" "0 \<le> pg_order c" "pg_order c < int (MAX_ORDER cfg)"
    "0 < c_obj_size c" "c_obj_size c < 2 ^ nat (pg_order c) * 4096"
  using assms by (auto simp: cache_ok_def lists_ok_def)

lemma kmem_invD:
  assumes "kmem_inv cfg s"
  shows "mm_inv cfg s" "PGFRAME_VA_START cfg \<noteq> 0" "\<And>b d. caches s b = Some d \<Longrightarrow> b \<noteq> 0 \<and> cache_ok cfg s d"
    "\<And>x y u v. caches s x = Some u \<Longrightarrow> caches s y = Some v \<Longrightarrow> x \<noteq> y \<Longrightarrow> set (all_pgs u) \<inter> set (all_pgs v) = {}"
    "wf_cfg cfg" "mm_unlocked s" "buddy_inv cfg {} s"
  using assms by (auto simp: kmem_inv_def caches_ok_def mm_inv_def)

lemma after_alloc_kept:
  assumes "distinct (all_pgs c)"
  shows "p \<in> set (partial_pgs c) \<Longrightarrow> pages_kept c (after_partial_alloc p sb c)"
    and "p \<in> set (free_pgs c) \<Longrightarrow> pages_kept c (after_free_alloc p sb c)"
  using assms by (auto simp: pages_kept_def all_pgs_def after_partial_alloc_def after_free_alloc_def)

lemma after_alloc_lists:
  assumes "lists_ok s c" "distinct (all_pgs c)" "0 \<le> obj_free sb" "obj_free sb < obj_all sb"
  shows "p \<in> set (partial_pgs c) \<Longrightarrow> lists_ok (kput p sb a c' s) (after_partial_alloc p sb c)"
    and "p \<in> set (free_pgs c) \<Longrightarrow> lists_ok (kput p sb a c' s) (after_free_alloc p sb c)"
  using assms by (auto simp: lists_ok_def all_pgs_def after_partial_alloc_def after_free_alloc_def)

subsection \<open>Objects do not overlap\<close>

definition kmem_live :: "'a kmem_scheme \<Rightarrow> u64 set" where
  "kmem_live s = (\<Union>c \<in> ran (caches s). cache_live s c)"

lemma slab_obj_in_block:
  assumes "slab_geom sb" "slab_in_block cfg p k sb" "i < length (mem_index sb)"
  shows "uint (pg2va cfg p) + 40 \<le> uint (slab_obj sb i)"
    "uint (slab_obj sb i) + obj_size sb \<le> uint (pg2va cfg p) + 2 ^ k * 4096"
  using uint_slab_obj [OF assms(1,3)] obj_off_bounds [OF assms(1,3)] assms(2)
  by (auto simp: slab_in_block_def)

lemma used_block_va:
  assumes "mm_inv cfg s" "(p, k) \<in> mm_used s"
  shows "p + 2 ^ k \<le> PGFRAME_PAGE_NUMS cfg" "p < PGFRAME_PAGE_NUMS cfg" "k < MAX_ORDER cfg"
    "uint (pg2va cfg p) = uint (PGFRAME_VA_START cfg) + int p * 4096"
proof -
  have wf: "wf_cfg cfg" and inv: "buddy_inv cfg {} s" using assms(1) by (simp_all add: mm_inv_def)
  have h: "p < length (pgframe_pages s)" "is_head (pgframe_pages s ! p)" "buddy_order (pgframe_pages s ! p) = k"
    "blk_end (pgframe_pages s) p = p + 2 ^ k"
    using headsD_is_head [of p k "pgframe_pages s"] assms(2) by (auto simp: mm_used_def)
  note ho = heads_okD [OF pages_invD(2) [OF buddy_invD(2) [OF inv]] h(1,2)]
  show "p + 2 ^ k \<le> PGFRAME_PAGE_NUMS cfg" "k < MAX_ORDER cfg"
    using ho(1,2) h(3,4) buddy_invD(1) [OF inv] by simp_all
  show p: "p < PGFRAME_PAGE_NUMS cfg" using h(1) buddy_invD(1) [OF inv] by simp
  have "int (unat (pg2va cfg p)) = int (unat (PGFRAME_VA_START cfg) + p * 4096)"
    unfolding unat_pg2va [OF wf p] ..
  then show "uint (pg2va cfg p) = uint (PGFRAME_VA_START cfg) + int p * 4096" by simp
qed

lemma used_blocks_apart:
  assumes "mm_inv cfg s" "(p, k) \<in> mm_used s" "(q, l) \<in> mm_used s" "p \<noteq> q"
    "uint (pg2va cfg p) \<le> x" "x < uint (pg2va cfg p) + 2 ^ k * 4096"
    "uint (pg2va cfg q) \<le> x" "x < uint (pg2va cfg q) + 2 ^ l * 4096"
  shows False
proof -
  have d: "{p..<p + 2 ^ k} \<inter> {q..<q + 2 ^ l} = {}"
    using heads_disjoint [of "MAX_ORDER cfg" "{}" "pgframe_pages s" p k q l] assms(1-4)
    by (simp add: mm_inv_def mm_used_def buddy_inv_def)
  have pq: "p + 2 ^ k \<le> q \<or> q + 2 ^ l \<le> p"
  proof (rule ccontr)
    assume "\<not> ?thesis"
    then have "max p q \<in> {p..<p + 2 ^ k} \<inter> {q..<q + 2 ^ l}" by (auto simp: max_def)
    then show False using d by blast
  qed
  then have "int p + 2 ^ k \<le> int q \<or> int q + 2 ^ l \<le> int p"
    by (metis of_nat_add of_nat_le_iff of_nat_numeral of_nat_power)
  then show False
    using assms(5-8) used_block_va(4) [OF assms(1,2)] used_block_va(4) [OF assms(1,3)] by auto
qed

text \<open>Every live object lies in the block of its slab page.\<close>

lemma cache_live_block:
  assumes "mm_inv cfg s" "cache_ok cfg s c" "x \<in> cache_live s c"
  obtains p i where "p \<in> set (all_pgs c)" "(p, nat (pg_order c)) \<in> mm_used s" "x = slab_obj (slab_of s p) i"
    "i < length (mem_index (slab_of s p))" "mem_index (slab_of s p) ! i = - 1"
    "uint (pg2va cfg p) < uint x" "uint x < uint (pg2va cfg p) + 2 ^ nat (pg_order c) * 4096"
proof -
  obtain p where p: "p \<in> set (all_pgs c)" "x \<in> slab_live (slab_of s p)" using assms(3) by (auto simp: cache_live_def)
  note sp = cache_okD(2) [OF assms(2) p(1)]
  obtain fl where f: "slab_ok (slab_of s p) fl" "slab_in_block cfg p (nat (pg_order c)) (slab_of s p)"
    using slab_pageD [OF sp] by blast
  obtain i where i: "x = slab_obj (slab_of s p) i" "i < length (mem_index (slab_of s p))" "mem_index (slab_of s p) ! i = - 1"
    using p(2) by (auto simp: slab_live_def)
  note b = slab_obj_in_block [OF slab_okD(1) [OF f(1)] f(2) i(2)]
  have "0 < obj_size (slab_of s p)" using slab_okD(1) [OF f(1)] by (simp add: slab_geom_def)
  then show thesis using that [of p i] p(1) sp i b by (simp add: slab_page_def)
qed

subsection \<open>Taking an object\<close>

lemma kmem_inv_held:
  assumes "\<forall>i. PageLk i \<notin> A" "\<forall>i. PoolLk i \<notin> A"
  shows "kmem_inv cfg (s\<lparr>held := A\<rparr>) \<longleftrightarrow> kmem_inv cfg (s\<lparr>held := {}\<rparr>)"
  using assms
  by (simp add: kmem_inv_def mm_inv_def mm_unlocked_def caches_ok_def cache_ok_def slab_page_def slab_of_def mm_used_def)

lemma kmem_inv_cache_lock:
  assumes "kmem_inv cfg s"
  shows "kmem_inv cfg (s\<lparr>held := held s - {CacheLk a}\<rparr>)" "kmem_inv cfg (s\<lparr>held := insert (CacheLk a) (held s)\<rparr>)"
proof -
  have u: "\<forall>i. PageLk i \<notin> held s" "\<forall>i. PoolLk i \<notin> held s" using kmem_invD(6) [OF assms] by (auto simp: mm_unlocked_def)
  have "s\<lparr>held := held s\<rparr> = s" by simp
  then have 0: "kmem_inv cfg (s\<lparr>held := {}\<rparr>)" using kmem_inv_held [OF u, of cfg s] assms by simp
  show "kmem_inv cfg (s\<lparr>held := held s - {CacheLk a}\<rparr>)"
    by (subst kmem_inv_held) (use u 0 in auto)
  show "kmem_inv cfg (s\<lparr>held := insert (CacheLk a) (held s)\<rparr>)"
    by (subst kmem_inv_held) (use u 0 in auto)
qed

lemma live_held [simp]: "cache_live (s\<lparr>held := A\<rparr>) c = cache_live s c" "kmem_live (s\<lparr>held := A\<rparr>) = kmem_live s"
  by (simp_all add: cache_live_def kmem_live_def slab_of_def)

text \<open>What the caller of an allocation or release sees: one cache and its live objects change.\<close>

definition obj_step :: "pgfm_cfg \<Rightarrow> u64 \<Rightarrow> kmem_cache \<Rightarrow> u64 set \<Rightarrow> int \<Rightarrow> 'a kmem_scheme \<Rightarrow> 'a kmem_scheme \<Rightarrow> bool" where
  "obj_step cfg a c live delta s t \<longleftrightarrow>
     kmem_inv cfg t \<and> mm_used t = mm_used s \<and> free_pages t = free_pages s \<and>
     (\<exists>c'. caches t = (caches s)(a \<mapsto> c') \<and> pages_kept c c' \<and> obj_num c' = obj_num c + delta \<and> cache_live t c' = live) \<and>
     (\<forall>b d. b \<noteq> a \<and> caches s b = Some d \<longrightarrow> cache_live t d = cache_live s d)"

lemma free_object_not_live:
  assumes inv: "kmem_inv cfg s" and c: "caches s a = Some c" "p \<in> set (all_pgs c)"
    and sb: "slabs s p = Some sb" "slab_ok sb (i # fl)"
  shows "slab_obj sb i \<notin> kmem_live s"
proof
  assume "slab_obj sb i \<in> kmem_live s"
  then obtain b d where d: "caches s b = Some d" "slab_obj sb i \<in> cache_live s d" by (auto simp: kmem_live_def ran_def)
  note K = kmem_invD [OF inv]
  have ok: "cache_ok cfg s c" "cache_ok cfg s d" using K(3) c(1) d(1) by blast+
  have e: "slab_of s p = sb" using sb(1) by (simp add: slab_of_def)
  have g: "slab_geom sb" "i < length (mem_index sb)" using sb(2) by (auto simp: slab_ok_def)
  note sp = cache_okD(2) [OF ok(1) c(2)]
  have bl: "slab_in_block cfg p (nat (pg_order c)) sb" using slab_pageD [OF sp] e by metis
  note b1 = slab_obj_in_block [OF g(1) bl g(2)]
  have sz: "0 < obj_size sb" using g(1) by (simp add: slab_geom_def)
  obtain q j where q: "q \<in> set (all_pgs d)" "(q, nat (pg_order d)) \<in> mm_used s" "slab_obj sb i = slab_obj (slab_of s q) j"
    "j < length (mem_index (slab_of s q))" "mem_index (slab_of s q) ! j = - 1"
    "uint (pg2va cfg q) < uint (slab_obj sb i)" "uint (slab_obj sb i) < uint (pg2va cfg q) + 2 ^ nat (pg_order d) * 4096"
    using cache_live_block [OF K(1) ok(2) d(2)] by metis
  have "p = q"
  proof (rule ccontr)
    assume "p \<noteq> q"
    then show False
      using used_blocks_apart [OF K(1) _ q(2), of p "nat (pg_order c)" "uint (slab_obj sb i)"] sp b1 sz q(6,7)
      by (simp add: slab_page_def)
  qed
  then have "j = i" using q(3,4) e slab_obj_inj [OF g(1) g(2)] by metis
  then show False using q(5) e \<open>p = q\<close> slab_okD(3) [OF sb(2) g(2)] by simp
qed

lemma slab_take_step:
  assumes inv: "kmem_inv cfg s" and c: "caches s a = Some c" "p \<in> set (all_pgs c)"
    and sb: "slabs s p = Some sb" "slab_ok sb (i # fl)" "slab_ok sb' fl" "same_geom sb sb'"
    and c': "pages_kept c c'" "obj_num c' = obj_num c - 1" "lists_ok (kput p sb' a c' s) c'"
  shows "obj_step cfg a c (insert (slab_obj sb i) (cache_live s c)) (- 1) s (kput p sb' a c' s)"
proof -
  have f: "obj_free sb' - obj_free sb = - 1" using sb(2,3) by (simp add: slab_ok_def)
  then have on: "obj_num c' = obj_num c + (obj_free sb' - obj_free sb)" using c'(2) by simp
  note I = kput_inv [OF inv c sb(1,4,3) c'(1) on c'(3)]
  have e: "slab_of s p = sb" using sb(1) by (simp add: slab_of_def)
  have "slab_live sb' = insert (slab_obj sb i) (slab_live sb)"
  proof -
    have "i < length (mem_index sb)" "i \<notin> set fl" using sb(2) by (auto simp: slab_ok_def)
    then show ?thesis
      unfolding slab_live_ok [OF sb(2)] slab_live_ok [OF sb(3)] same_geom_obj [OF sb(4)]
      using sb(4) by (auto simp: same_geom_def)
  qed
  then have "cache_live (kput p sb' a c' s) c' = insert (slab_obj sb i) (cache_live s c)"
    unfolding I(2) using c(2) e by (auto simp: cache_live_def)
  then show ?thesis
    unfolding obj_step_def using I(1,3) c' by auto
qed

lemma obj_alloc_take_spec:
  assumes inv: "kmem_inv cfg s" and c: "caches s a = Some c" and n: "obj_num c \<noteq> 0"
  shows "\<exists>r t. obj_alloc_take a s = Some (r, t\<lparr>held := held s - {CacheLk a}\<rparr>) \<and> r \<noteq> 0 \<and> r \<notin> kmem_live s \<and> held t = held s \<and>
    obj_step cfg a c (insert r (cache_live s c)) (- 1) s t"
proof -
  note K = kmem_invD [OF inv]
  have ok: "cache_ok cfg s c" using K(3) c by blast
  note C = cache_okD [OF ok]
  have un: "PageLk p \<notin> held s" for p using K(6) by (simp add: mm_unlocked_def)
  have one: "\<exists>i fl sb' . slabs s p = Some (slab_of s p) \<and> slab_ok (slab_of s p) (i # fl) \<and> slab_alloc (slab_of s p) = Some (slab_obj (slab_of s p) i, sb') \<and>
      slab_ok sb' fl \<and> same_geom (slab_of s p) sb' \<and> slab_obj (slab_of s p) i \<noteq> 0 \<and> 0 \<le> obj_free sb' \<and> obj_free sb' < obj_all sb'"
    if p: "p \<in> set (all_pgs c)" "0 < obj_free (slab_of s p)" for p
  proof -
    obtain fl' where f: "slabs s p = Some (slab_of s p)" "slab_ok (slab_of s p) fl'"
      using slab_pageD [OF C(2) [OF p(1)]] by metis
    then obtain i fl where fl: "fl' = i # fl" using p(2) by (cases fl') (auto simp: slab_ok_def)
    obtain sb' where sb': "slab_alloc (slab_of s p) = Some (slab_obj (slab_of s p) i, sb')" "slab_ok sb' fl" "same_geom (slab_of s p) sb'"
      using slab_alloc_spec f(2) fl by blast
    have g: "slab_geom (slab_of s p)" "i < length (mem_index (slab_of s p))" using f(2) fl by (auto simp: slab_ok_def)
    have "obj_free sb' < obj_free (slab_of s p)" using f(2) fl sb'(2) by (simp add: slab_ok_def)
    moreover have "obj_free (slab_of s p) \<le> obj_all sb'" using slab_okD(4) [OF f(2)] sb'(3) by (simp add: same_geom_def)
    ultimately show ?thesis
      using f fl sb' slab_free_index(2) [OF g] slab_okD(5) [OF sb'(2)] by (metis order_less_le_trans)
  qed
  have spos: "0 < obj_free (slab_of s p)" if "p \<in> set (free_pgs c) \<union> set (partial_pgs c)" for p
  proof -
    have "p \<in> set (all_pgs c)" using that by (auto simp: all_pgs_def)
    then obtain fl where "slab_ok (slab_of s p) fl" using slab_pageD [OF C(2)] by metis
    then have "0 < obj_all (slab_of s p)" using slab_okD(1) slab_geom_def by blast
    then show ?thesis using that C(3) by (auto simp: lists_ok_def)
  qed
  show ?thesis
  proof (cases "partial_pgs c")
    case (Cons p ps)
    then have p: "p \<in> set (partial_pgs c)" "p \<in> set (all_pgs c)" by (auto simp: all_pgs_def)
    obtain i fl sb' where o: "slabs s p = Some (slab_of s p)" "slab_ok (slab_of s p) (i # fl)"
      "slab_alloc (slab_of s p) = Some (slab_obj (slab_of s p) i, sb')" "slab_ok sb' fl" "same_geom (slab_of s p) sb'"
      "slab_obj (slab_of s p) i \<noteq> 0" "0 \<le> obj_free sb'" "obj_free sb' < obj_all sb'"
      using one [OF p(2) spos] p(1) by blast
    let ?c' = "after_partial_alloc p sb' c"
    have "obj_step cfg a c (insert (slab_obj (slab_of s p) i) (cache_live s c)) (- 1) s (kput p sb' a ?c' s)"
      by (rule slab_take_step [OF inv c p(2) o(1,2,4,5) after_alloc_kept(1) [OF C(1) p(1)] _
            after_alloc_lists(1) [OF C(3,1) o(7,8) p(1)]]) (simp add: after_partial_alloc_def)
    moreover have "obj_alloc_take a s = Some (slab_obj (slab_of s p) i, (kput p sb' a ?c' s)\<lparr>held := held s - {CacheLk a}\<rparr>)"
      using obj_alloc_partial_eq [OF o(1,3,6) c un] c Cons by (simp add: obj_alloc_take_def)
    ultimately show ?thesis using free_object_not_live [OF inv c p(2) o(1,2)] o(6) by fastforce
  next
    case Nil
    have "free_pgs c \<noteq> []"
    proof
      assume "free_pgs c = []"
      then have "set (all_pgs c) = set (full_pgs c)" using Nil by (simp add: all_pgs_def)
      then have "obj_num c = 0" using C(3,4) by (simp add: lists_ok_def)
      then show False using n by simp
    qed
    then obtain p ps where Cons: "free_pgs c = p # ps" by (meson neq_Nil_conv)
    then have p: "p \<in> set (free_pgs c)" "p \<in> set (all_pgs c)" by (auto simp: all_pgs_def)
    obtain i fl sb' where o: "slabs s p = Some (slab_of s p)" "slab_ok (slab_of s p) (i # fl)"
      "slab_alloc (slab_of s p) = Some (slab_obj (slab_of s p) i, sb')" "slab_ok sb' fl" "same_geom (slab_of s p) sb'"
      "slab_obj (slab_of s p) i \<noteq> 0" "0 \<le> obj_free sb'" "obj_free sb' < obj_all sb'"
      using one [OF p(2) spos] p(1) by blast
    let ?c' = "after_free_alloc p sb' c"
    have "obj_step cfg a c (insert (slab_obj (slab_of s p) i) (cache_live s c)) (- 1) s (kput p sb' a ?c' s)"
      by (rule slab_take_step [OF inv c p(2) o(1,2,4,5) after_alloc_kept(2) [OF C(1) p(1)] _
            after_alloc_lists(2) [OF C(3,1) o(7,8) p(1)]]) (simp add: after_free_alloc_def)
    moreover have "obj_alloc_take a s = Some (slab_obj (slab_of s p) i, (kput p sb' a ?c' s)\<lparr>held := held s - {CacheLk a}\<rparr>)"
      using obj_alloc_free_eq [OF o(1,3,6) c un] c Nil Cons by (simp add: obj_alloc_take_def)
    ultimately show ?thesis using free_object_not_live [OF inv c p(2) o(1,2)] o(6) by fastforce
  qed
qed

end
