(* ===== verification/KmemFree.thy ===== *)
theory KmemFree
  imports KmemInv
begin

unbundle bit_operations_syntax

text \<open>
  Returning objects: the two search loops of \<^verbatim>\<open>kmem_obj_free\<close> find the slab of the object, and
  the object leaves the live objects; an address that is no live object changes nothing.
\<close>

subsection \<open>Finding the slab\<close>

lemma block_bytes:
  assumes "k < 19"
  shows "sint (ucast (push_bit k 1 * PAGE_SIZE :: u64) :: u32) = 2 ^ k * 4096" "(2::int) ^ k * 4096 < 2 ^ 31"
proof -
  have "(2::nat) ^ k \<le> 2 ^ 18" by (rule pow2_mono_nat) (use assms in simp)
  then have n: "(2::nat) ^ k * 4096 < 2 ^ 31" by simp
  have u: "unat (push_bit k 1 * PAGE_SIZE :: u64) = 2 ^ k * 4096"
    using unat_ORDER2BYTE [of k] assms by (simp add: ORDER2BYTE_def ORDER2PGNUM_def)
  then show "sint (ucast (push_bit k 1 * PAGE_SIZE :: u64) :: u32) = 2 ^ k * 4096"
    using n by (subst sint_u32_ucast) simp_all
  have "int (2 ^ k * 4096) < int (2 ^ 31)" using n by (simp only: of_nat_less_iff)
  then show "(2::int) ^ k * 4096 < 2 ^ 31" by simp
qed

lemma used_block_end:
  assumes "mm_inv cfg s" "(p, k) \<in> mm_used s"
  shows "uint (pg2va cfg p) + 2 ^ k * 4096 < 2 ^ 64" "k < 19"
proof -
  note u = used_block_va [OF assms]
  have wf: "wf_cfg cfg" using assms(1) by (simp add: mm_inv_def)
  show "k < 19" using u(3) wf by (simp add: wf_cfg_def)
  have "int p + 2 ^ k \<le> int (PGFRAME_PAGE_NUMS cfg)"
    using u(1) by (metis of_nat_add of_nat_le_iff of_nat_numeral of_nat_power)
  moreover have "int (unat (PGFRAME_VA_START cfg) + PGFRAME_PAGE_NUMS cfg * 4096) < int 18446744073709551616"
    using order_bounds(4) [OF wf order_refl] by (simp only: of_nat_less_iff)
  ultimately show "uint (pg2va cfg p) + 2 ^ k * 4096 < 2 ^ 64" unfolding u(4) by simp
qed

lemma in_slab_iff:
  assumes "mm_inv cfg s" "(p, nat order) \<in> mm_used s"
  shows "in_slab cfg order p x \<longleftrightarrow> uint (pg2va cfg p) < uint x \<and> uint x < uint (pg2va cfg p) + 2 ^ nat order * 4096"
proof -
  note e = used_block_end [OF assms]
  have "uint (pg2va cfg p + word_of_int (2 ^ nat order * 4096)) = uint (pg2va cfg p) + 2 ^ nat order * 4096"
    by (rule uint_u64_plus_int) (use e(1) in simp_all)
  then show ?thesis unfolding in_slab_def block_bytes(1) [OF e(2)] word_less_def by simp
qed

subsection \<open>The step\<close>

definition after_partial_free :: "nat \<Rightarrow> slab \<Rightarrow> kmem_cache \<Rightarrow> kmem_cache" where
  "after_partial_free p sb c =
     (if obj_free sb = obj_all sb
      then c\<lparr>partial_pgs := remove1 p (partial_pgs c), free_pgs := free_pgs c @ [p], obj_num := obj_num c + 1\<rparr>
      else c\<lparr>obj_num := obj_num c + 1\<rparr>)"

definition after_full_free :: "nat \<Rightarrow> slab \<Rightarrow> kmem_cache \<Rightarrow> kmem_cache" where
  "after_full_free p sb c =
     (if obj_free sb = obj_all sb
      then c\<lparr>full_pgs := remove1 p (full_pgs c), free_pgs := free_pgs c @ [p], obj_num := obj_num c + 1\<rparr>
      else c\<lparr>full_pgs := remove1 p (full_pgs c), partial_pgs := partial_pgs c @ [p], obj_num := obj_num c + 1\<rparr>)"

lemma after_release_kept:
  assumes "distinct (all_pgs c)"
  shows "p \<in> set (partial_pgs c) \<Longrightarrow> pages_kept c (after_partial_free p sb c)"
    and "p \<in> set (full_pgs c) \<Longrightarrow> pages_kept c (after_full_free p sb c)"
  using assms by (auto simp: pages_kept_def all_pgs_def after_partial_free_def after_full_free_def)

lemma after_release_lists:
  assumes "lists_ok s c" "distinct (all_pgs c)" "0 < obj_free sb" "obj_free sb \<le> obj_all sb"
  shows "p \<in> set (partial_pgs c) \<Longrightarrow> lists_ok (kput p sb a c' s) (after_partial_free p sb c)"
    and "p \<in> set (full_pgs c) \<Longrightarrow> lists_ok (kput p sb a c' s) (after_full_free p sb c)"
  using assms by (auto simp: lists_ok_def all_pgs_def after_partial_free_def after_full_free_def)

lemma slab_put_step:
  assumes inv: "kmem_inv cfg s" and c: "caches s a = Some c" "p \<in> set (all_pgs c)"
    and sb: "slabs s p = Some sb" "slab_ok sb fl" "i < length (mem_index sb)" "i \<notin> set fl"
      "slab_ok sb' (fl @ [i])" "same_geom sb sb'"
    and c': "pages_kept c c'" "obj_num c' = obj_num c + 1" "lists_ok (kput p sb' a c' s) c'"
  shows "obj_step cfg a c (cache_live s c - {slab_obj sb i}) 1 s (kput p sb' a c' s)"
proof -
  have f: "obj_free sb' - obj_free sb = 1" using sb(2,5) by (simp add: slab_ok_def)
  then have on: "obj_num c' = obj_num c + (obj_free sb' - obj_free sb)" using c'(2) by simp
  note I = kput_inv [OF inv c sb(1,6,5) c'(1) on c'(3)]
  note K = kmem_invD [OF inv]
  have ok: "cache_ok cfg s c" using K(3) c(1) by blast
  have e: "slab_of s p = sb" using sb(1) by (simp add: slab_of_def)
  note g = slab_okD(1) [OF sb(2)]
  have l1: "slab_live sb' = slab_live sb - {slab_obj sb i}"
    unfolding slab_live_ok [OF sb(2)] slab_live_ok [OF sb(5)] same_geom_obj [OF sb(6)]
    using sb(3,4,6) slab_obj_inj [OF g _ sb(3)] by (auto simp: same_geom_def)
  have x: "slab_obj sb i \<in> slab_live sb" unfolding slab_live_ok [OF sb(2)] using sb(3,4) by blast
  have "slab_obj sb i \<notin> slab_live (slab_of s q)" if q: "q \<in> set (all_pgs c)" "q \<noteq> p" for q
  proof
    assume l: "slab_obj sb i \<in> slab_live (slab_of s q)"
    have pq: "r \<in> set (all_pgs c) \<Longrightarrow> slab_obj sb i \<in> slab_live (slab_of s r) \<Longrightarrow> (r, nat (pg_order c)) \<in> mm_used s \<and>
      uint (pg2va cfg r) \<le> uint (slab_obj sb i) \<and> uint (slab_obj sb i) < uint (pg2va cfg r) + 2 ^ nat (pg_order c) * 4096" for r
    proof -
      assume r: "r \<in> set (all_pgs c)" "slab_obj sb i \<in> slab_live (slab_of s r)"
      note sp = cache_okD(2) [OF ok r(1)]
      obtain fl' where f: "slab_ok (slab_of s r) fl'" "slab_in_block cfg r (nat (pg_order c)) (slab_of s r)"
        using slab_pageD [OF sp] by blast
      obtain j where j: "slab_obj sb i = slab_obj (slab_of s r) j" "j < length (mem_index (slab_of s r))"
        using r(2) by (auto simp: slab_live_def)
      have "0 < obj_size (slab_of s r)" using slab_okD(1) [OF f(1)] by (simp add: slab_geom_def)
      then show ?thesis using slab_obj_in_block [OF slab_okD(1) [OF f(1)] f(2) j(2)] j(1) sp by (simp add: slab_page_def)
    qed
    have "slab_obj sb i \<in> slab_live (slab_of s p)" using x e by simp
    from pq [OF c(2) this] pq [OF q(1) l] show False
      using used_blocks_apart [OF K(1), of p "nat (pg_order c)" q "nat (pg_order c)" "uint (slab_obj sb i)"] q(2) by metis
  qed
  then have "cache_live (kput p sb' a c' s) c' = cache_live s c - {slab_obj sb i}"
    unfolding I(2) l1 using c(2) e by (auto simp: cache_live_def)
  then show ?thesis unfolding obj_step_def using I(1,3) c' by auto
qed

subsection \<open>The loops\<close>

lemma relock: "l \<notin> held s \<Longrightarrow> s\<lparr>held := insert l (held s) - {l}\<rparr> = (s :: 'a kmem_scheme)"
  by simp

lemma obj_free_partial_skip:
  assumes "\<forall>q \<in> set us. pg_get q s = Some (pgs q) \<and> pgtype (pgs q) = SLAB_ALLOCATOR \<and> buddy_flags (pgs q) = PG_BUDDY_FLAG_HEAD \<and>
     slabs s q = Some (slab_of s q) \<and> obj_free (slab_of s q) < obj_all (slab_of s q) \<and> \<not> in_slab cfg order q x"
    "mm_unlocked s"
  shows "obj_free_partial cfg a order x (us @ vs) s = obj_free_partial cfg a order x vs s"
  using assms(1)
proof (induction us)
  case (Cons q us)
  have u: "PageLk q \<notin> held s" using assms(2) by (simp add: mm_unlocked_def)
  have "pg_get q (s\<lparr>held := insert (PageLk q) (held s)\<rparr>) = Some (pgs q)" using Cons.prems by (simp add: pg_get_def)
  then show ?case using Cons u relock [OF u] by (simp add: unlock_def)
qed simp

lemma obj_free_full_skip:
  assumes "\<forall>q \<in> set us. pg_get q s = Some (pgs q) \<and> pgtype (pgs q) = SLAB_ALLOCATOR \<and> buddy_flags (pgs q) = PG_BUDDY_FLAG_HEAD \<and>
     slabs s q = Some (slab_of s q) \<and> obj_free (slab_of s q) = 0 \<and> \<not> in_slab cfg order q x"
    "mm_unlocked s"
  shows "obj_free_full cfg a order x (us @ vs) s = obj_free_full cfg a order x vs s"
  using assms(1)
proof (induction us)
  case (Cons q us)
  have u: "PageLk q \<notin> held s" using assms(2) by (simp add: mm_unlocked_def)
  have "pg_get q (s\<lparr>held := insert (PageLk q) (held s)\<rparr>) = Some (pgs q)" using Cons.prems by (simp add: pg_get_def)
  then show ?case using Cons u relock [OF u] by (simp add: unlock_def)
qed simp

lemma obj_free_partial_eq:
  assumes "pg_get p s = Some pg" "pgtype pg = SLAB_ALLOCATOR" "buddy_flags pg = PG_BUDDY_FLAG_HEAD"
    "slabs s p = Some sb" "obj_free sb < obj_all sb" "in_slab cfg order p x" "PageLk p \<notin> held s" "caches s a = Some c"
  shows "obj_free_partial cfg a order x (p # ps) s =
    (case slab_free sb x of None \<Rightarrow> None
     | Some sb' \<Rightarrow> Some (True, (kput p sb' a (after_partial_free p sb' c) s)\<lparr>held := held s - {CacheLk a}\<rparr>))"
proof -
  have "pg_get p (s\<lparr>held := insert (PageLk p) (held s)\<rparr>) = Some pg" using assms(1) by (simp add: pg_get_def)
  then show ?thesis
    using assms
    by (auto simp: cache_upd_def unlock_def kput_def after_partial_free_def Let_def split: option.split intro!: kmem.equality)
qed

lemma obj_free_full_eq:
  assumes "pg_get p s = Some pg" "pgtype pg = SLAB_ALLOCATOR" "buddy_flags pg = PG_BUDDY_FLAG_HEAD"
    "slabs s p = Some sb" "obj_free sb = 0" "in_slab cfg order p x" "PageLk p \<notin> held s" "caches s a = Some c"
  shows "obj_free_full cfg a order x (p # ps) s =
    (case slab_free sb x of None \<Rightarrow> None
     | Some sb' \<Rightarrow> Some (True, (kput p sb' a (after_full_free p sb' c) s)\<lparr>held := held s - {CacheLk a}\<rparr>))"
proof -
  have "pg_get p (s\<lparr>held := insert (PageLk p) (held s)\<rparr>) = Some pg" using assms(1) by (simp add: pg_get_def)
  then show ?thesis
    using assms
    by (auto simp: cache_upd_def unlock_def kput_def after_full_free_def Let_def split: option.split intro!: kmem.equality)
qed

text \<open>What the loops check of the pages on their lists always holds.\<close>

lemma slab_page_facts:
  assumes inv: "kmem_inv cfg s" and c: "caches s a = Some c" and q: "q \<in> set (all_pgs c)"
  shows "pg_get q s = Some (pgframe_pages s ! q)" "pgtype (pgframe_pages s ! q) = SLAB_ALLOCATOR"
    "buddy_flags (pgframe_pages s ! q) = PG_BUDDY_FLAG_HEAD" "slabs s q = Some (slab_of s q)"
    "(q, nat (pg_order c)) \<in> mm_used s" "\<exists>fl. slab_ok (slab_of s q) fl"
    "q \<in> set (partial_pgs c) \<Longrightarrow> obj_free (slab_of s q) < obj_all (slab_of s q)"
    "q \<in> set (full_pgs c) \<Longrightarrow> obj_free (slab_of s q) = 0"
proof -
  note K = kmem_invD [OF inv]
  have ok: "cache_ok cfg s c" using K(3) c by blast
  note sp = cache_okD(2) [OF ok q]
  then have u: "(q, nat (pg_order c)) \<in> mm_used s" "pgtype (pgframe_pages s ! q) = SLAB_ALLOCATOR" by (simp_all add: slab_page_def)
  then show "(q, nat (pg_order c)) \<in> mm_used s" "pgtype (pgframe_pages s ! q) = SLAB_ALLOCATOR" by blast+
  have h: "q < length (pgframe_pages s)" "buddy_pgfm_freeable (pgframe_pages s ! q)"
    using u(1) headsD(2) by (auto simp: mm_used_def)
  then show "pg_get q s = Some (pgframe_pages s ! q)" "buddy_flags (pgframe_pages s ! q) = PG_BUDDY_FLAG_HEAD"
    by (simp_all add: buddy_pgfm_freeable_def)
  show "slabs s q = Some (slab_of s q)" "\<exists>fl. slab_ok (slab_of s q) fl" using slab_pageD [OF sp] by metis+
  show "q \<in> set (partial_pgs c) \<Longrightarrow> obj_free (slab_of s q) < obj_all (slab_of s q)"
    "q \<in> set (full_pgs c) \<Longrightarrow> obj_free (slab_of s q) = 0"
    using cache_okD(3) [OF ok] by (simp_all add: lists_ok_def)
qed

lemma pgs_sub: "set (free_pgs c) \<subseteq> set (all_pgs c)" "set (full_pgs c) \<subseteq> set (all_pgs c)" "set (partial_pgs c) \<subseteq> set (all_pgs c)"
  by (auto simp: all_pgs_def)

lemma live_not_on_free:
  assumes "kmem_inv cfg s" "caches s a = Some c" "p \<in> set (free_pgs c)" "i < length (mem_index (slab_of s p))"
  shows "mem_index (slab_of s p) ! i \<noteq> - 1"
proof -
  have p: "p \<in> set (all_pgs c)" using assms(3) pgs_sub by blast
  obtain fl where f: "slab_ok (slab_of s p) fl" using slab_page_facts(6) [OF assms(1,2) p] by blast
  have "obj_free (slab_of s p) = obj_all (slab_of s p)"
    using kmem_invD(3) [OF assms(1,2)] assms(3) by (simp add: cache_ok_def)
  then have "length fl = length (mem_index (slab_of s p))" using f by (simp add: slab_ok_def slab_geom_def)
  moreover have "distinct fl" "set fl \<subseteq> {..<length (mem_index (slab_of s p))}" using f by (auto simp: slab_ok_def)
  ultimately have "set fl = {..<length (mem_index (slab_of s p))}"
    by (metis card_lessThan card_subset_eq distinct_card finite_lessThan)
  then show ?thesis using slab_okD(3) [OF f assms(4)] assms(4) by simp
qed

lemma obj_free_partial_at:
  assumes inv: "kmem_inv cfg s" and c: "caches s a = Some c" and p: "partial_pgs c = us @ p # vs"
    and only: "\<And>q. q \<in> set (all_pgs c) \<Longrightarrow> q \<noteq> p \<Longrightarrow> \<not> in_slab cfg (pg_order c) q x" "in_slab cfg (pg_order c) p x"
  shows "obj_free_partial cfg a (pg_order c) x (partial_pgs c) s =
    (case slab_free (slab_of s p) x of None \<Rightarrow> None
     | Some sb' \<Rightarrow> Some (True, (kput p sb' a (after_partial_free p sb' c) s)\<lparr>held := held s - {CacheLk a}\<rparr>))"
proof -
  note K = kmem_invD [OF inv]
  have "distinct (all_pgs c)" using K(3) [OF c] by (simp add: cache_ok_def)
  then have np: "p \<notin> set us" using p by (auto simp: all_pgs_def)
  have sub: "q \<in> set (all_pgs c) \<and> q \<in> set (partial_pgs c)" if "q \<in> set us \<or> q = p" for q using that p by (auto simp: all_pgs_def)
  have un: "PageLk p \<notin> held s" using K(6) by (simp add: mm_unlocked_def)
  have ni: "\<not> in_slab cfg (pg_order c) q x" if "q \<in> set us" for q using only(1) sub [of q] np that by metis
  have "obj_free_partial cfg a (pg_order c) x (us @ p # vs) s = obj_free_partial cfg a (pg_order c) x (p # vs) s"
    by (rule obj_free_partial_skip [where pgs = "\<lambda>q. pgframe_pages s ! q"])
      (use sub slab_page_facts [OF inv c] ni K(6) in auto)
  also have "\<dots> = (case slab_free (slab_of s p) x of None \<Rightarrow> None
     | Some sb' \<Rightarrow> Some (True, (kput p sb' a (after_partial_free p sb' c) s)\<lparr>held := held s - {CacheLk a}\<rparr>))"
    by (rule obj_free_partial_eq) (use sub [of p] slab_page_facts [OF inv c, of p] only(2) un c in auto)
  finally show ?thesis unfolding p .
qed

lemma obj_free_full_at:
  assumes inv: "kmem_inv cfg s" and c: "caches s a = Some c" and p: "full_pgs c = us @ p # vs"
    and only: "\<And>q. q \<in> set (all_pgs c) \<Longrightarrow> q \<noteq> p \<Longrightarrow> \<not> in_slab cfg (pg_order c) q x" "in_slab cfg (pg_order c) p x"
  shows "obj_free_full cfg a (pg_order c) x (full_pgs c) s =
    (case slab_free (slab_of s p) x of None \<Rightarrow> None
     | Some sb' \<Rightarrow> Some (True, (kput p sb' a (after_full_free p sb' c) s)\<lparr>held := held s - {CacheLk a}\<rparr>))"
proof -
  note K = kmem_invD [OF inv]
  have "distinct (all_pgs c)" using K(3) [OF c] by (simp add: cache_ok_def)
  then have np: "p \<notin> set us" using p by (auto simp: all_pgs_def)
  have sub: "q \<in> set (all_pgs c) \<and> q \<in> set (full_pgs c)" if "q \<in> set us \<or> q = p" for q using that p by (auto simp: all_pgs_def)
  have un: "PageLk p \<notin> held s" using K(6) by (simp add: mm_unlocked_def)
  have ni: "\<not> in_slab cfg (pg_order c) q x" if "q \<in> set us" for q using only(1) sub [of q] np that by metis
  have "obj_free_full cfg a (pg_order c) x (us @ p # vs) s = obj_free_full cfg a (pg_order c) x (p # vs) s"
    by (rule obj_free_full_skip [where pgs = "\<lambda>q. pgframe_pages s ! q"])
      (use sub slab_page_facts [OF inv c] ni K(6) in auto)
  also have "\<dots> = (case slab_free (slab_of s p) x of None \<Rightarrow> None
     | Some sb' \<Rightarrow> Some (True, (kput p sb' a (after_full_free p sb' c) s)\<lparr>held := held s - {CacheLk a}\<rparr>))"
    by (rule obj_free_full_eq) (use sub [of p] slab_page_facts [OF inv c, of p] only(2) un c in auto)
  finally show ?thesis unfolding p .
qed

lemma obj_free_none_partial:
  assumes inv: "kmem_inv cfg s" and c: "caches s a = Some c"
    and "\<And>q. q \<in> set (partial_pgs c) \<Longrightarrow> \<not> in_slab cfg (pg_order c) q x"
  shows "obj_free_partial cfg a (pg_order c) x (partial_pgs c) s = Some (False, s)"
proof -
  have "obj_free_partial cfg a (pg_order c) x (partial_pgs c @ []) s = obj_free_partial cfg a (pg_order c) x [] s"
    by (rule obj_free_partial_skip [where pgs = "\<lambda>q. pgframe_pages s ! q"])
      (use slab_page_facts [OF inv c] pgs_sub [of c] assms(3) kmem_invD(6) [OF inv] in auto)
  then show ?thesis by simp
qed

lemma obj_free_none_full:
  assumes inv: "kmem_inv cfg s" and c: "caches s a = Some c"
    and "\<And>q. q \<in> set (full_pgs c) \<Longrightarrow> \<not> in_slab cfg (pg_order c) q x"
  shows "obj_free_full cfg a (pg_order c) x (full_pgs c) s = Some (False, s)"
proof -
  have "obj_free_full cfg a (pg_order c) x (full_pgs c @ []) s = obj_free_full cfg a (pg_order c) x [] s"
    by (rule obj_free_full_skip [where pgs = "\<lambda>q. pgframe_pages s ! q"])
      (use slab_page_facts [OF inv c] pgs_sub [of c] assms(3) kmem_invD(6) [OF inv] in auto)
  then show ?thesis by simp
qed

lemma in_slab_unique:
  assumes inv: "kmem_inv cfg s" and c: "caches s a = Some c" and "p \<in> set (all_pgs c)" "q \<in> set (all_pgs c)"
    "in_slab cfg (pg_order c) p x" "in_slab cfg (pg_order c) q x"
  shows "p = q"
proof (rule ccontr)
  assume "p \<noteq> q"
  note mm = kmem_invD(1) [OF inv]
  note u = slab_page_facts(5) [OF inv c assms(3)] slab_page_facts(5) [OF inv c assms(4)]
  show False
    using used_blocks_apart [OF mm u \<open>p \<noteq> q\<close>, of "uint x"] assms(5,6)
    unfolding in_slab_iff [OF mm u(1)] in_slab_iff [OF mm u(2)] by linarith
qed

subsection \<open>kmem_obj_free\<close>

lemma obj_step_cache_lock:
  assumes "obj_step cfg a c live d (s\<lparr>held := A\<rparr>) t" "\<forall>i. PageLk i \<notin> B" "\<forall>i. PoolLk i \<notin> B"
  shows "obj_step cfg a c live d s (t\<lparr>held := B\<rparr>)"
proof -
  have "kmem_inv cfg t" using assms(1) by (simp add: obj_step_def)
  moreover have "\<forall>i. PageLk i \<notin> held t" "\<forall>i. PoolLk i \<notin> held t"
    using kmem_invD(6) [OF calculation] by (simp_all add: mm_unlocked_def)
  moreover have "t\<lparr>held := held t\<rparr> = t" by simp
  ultimately have "kmem_inv cfg (t\<lparr>held := B\<rparr>)" using kmem_inv_held assms(2,3) by metis
  then show ?thesis using assms(1) by (auto simp: obj_step_def mm_used_def free_pages_def)
qed

lemma kmem_obj_free_live:
  assumes inv: "kmem_inv cfg s" and c: "caches s a = Some c" and lk: "CacheLk a \<notin> held s" and x: "x \<in> cache_live s c"
  shows "\<exists>t. kmem_obj_free cfg a x s = Some t \<and> held t = held s \<and> obj_step cfg a c (cache_live s c - {x}) 1 s t"
proof -
  let ?s = "s\<lparr>held := insert (CacheLk a) (held s)\<rparr>"
  have inv': "kmem_inv cfg ?s" by (rule kmem_inv_cache_lock(2) [OF inv])
  have c': "caches ?s a = Some c" and x': "x \<in> cache_live ?s c" using c x by simp_all
  note K = kmem_invD [OF inv']
  have ok: "cache_ok cfg ?s c" and a0: "a \<noteq> 0" using K(3) [OF c'] by simp_all
  note C = cache_okD [OF ok]
  obtain p i where p: "p \<in> set (all_pgs c)" "(p, nat (pg_order c)) \<in> mm_used ?s" "x = slab_obj (slab_of ?s p) i"
    "i < length (mem_index (slab_of ?s p))" "mem_index (slab_of ?s p) ! i = - 1"
    "uint (pg2va cfg p) < uint x" "uint x < uint (pg2va cfg p) + 2 ^ nat (pg_order c) * 4096"
    using cache_live_block [OF K(1) ok x'] by metis
  have ins: "in_slab cfg (pg_order c) p x" using in_slab_iff [OF K(1) p(2)] p(6,7) by simp
  have only: "\<not> in_slab cfg (pg_order c) q x" if "q \<in> set (all_pgs c)" "q \<noteq> p" for q
    using in_slab_unique [OF inv' c' that(1) p(1)] ins that(2) by blast
  have nf: "p \<notin> set (free_pgs c)" using live_not_on_free [OF inv' c' _ p(4)] p(5) by blast
  obtain fl where f: "slab_ok (slab_of ?s p) fl" using slab_page_facts(6) [OF inv' c' p(1)] by blast
  have i: "i \<notin> set fl" using slab_okD(3) [OF f p(4)] p(5) by simp
  obtain sb' where sb': "slab_free (slab_of ?s p) x = Some sb'" "slab_ok sb' (fl @ [i])" "same_geom (slab_of ?s p) sb'"
    using slab_free_spec [OF f p(4) i] p(3) by blast
  have sl: "slabs ?s p = Some (slab_of ?s p)" by (rule slab_page_facts(4) [OF inv' c' p(1)])
  have fr: "0 < obj_free sb'" "obj_free sb' \<le> obj_all sb'" using slab_okD(2,4) [OF sb'(2)] by simp_all
  have x0: "x \<noteq> 0" using p(6) by auto
  note un = K(6) [unfolded mm_unlocked_def]
  have B: "\<forall>i. PageLk i \<notin> held s" "\<forall>i. PoolLk i \<notin> held s" using kmem_invD(6) [OF inv] by (auto simp: mm_unlocked_def)
  have hd: "insert (CacheLk a) (held s) - {CacheLk a} = held s" using lk by simp
  consider "p \<in> set (partial_pgs c)" | "p \<in> set (full_pgs c)" "p \<notin> set (partial_pgs c)" using p(1) nf by (auto simp: all_pgs_def)
  then show ?thesis
  proof cases
    case 1
    then obtain us vs where l: "partial_pgs c = us @ p # vs" by (meson split_list)
    let ?c' = "after_partial_free p sb' c"
    let ?t = "(kput p sb' a ?c' ?s)\<lparr>held := held s\<rparr>"
    have "obj_step cfg a c (cache_live ?s c - {slab_obj (slab_of ?s p) i}) 1 ?s (kput p sb' a ?c' ?s)"
      by (rule slab_put_step [OF inv' c' p(1) sl f p(4) i sb'(2,3) after_release_kept(1) [OF C(1) 1] _
            after_release_lists(1) [OF C(3,1) fr 1]]) (simp add: after_partial_free_def)
    then have "obj_step cfg a c (cache_live s c - {x}) 1 s ?t"
      using obj_step_cache_lock B p(3) by (metis live_held(1))
    moreover have "kmem_obj_free cfg a x s = Some ?t"
      using obj_free_partial_at [OF inv' c' l only ins] sb'(1) hd a0 x0 lk c by (simp add: kmem_obj_free_def)
    ultimately show ?thesis by (intro exI [of _ ?t]) simp
  next
    case 2
    then obtain us vs where l: "full_pgs c = us @ p # vs" by (meson split_list)
    let ?c' = "after_full_free p sb' c"
    let ?t = "(kput p sb' a ?c' ?s)\<lparr>held := held s\<rparr>"
    have "obj_step cfg a c (cache_live ?s c - {slab_obj (slab_of ?s p) i}) 1 ?s (kput p sb' a ?c' ?s)"
      by (rule slab_put_step [OF inv' c' p(1) sl f p(4) i sb'(2,3) after_release_kept(2) [OF C(1) 2(1)] _
            after_release_lists(2) [OF C(3,1) fr 2(1)]]) (simp add: after_full_free_def)
    then have "obj_step cfg a c (cache_live s c - {x}) 1 s ?t"
      using obj_step_cache_lock B p(3) by (metis live_held(1))
    moreover have "obj_free_partial cfg a (pg_order c) x (partial_pgs c) ?s = Some (False, ?s)"
      by (rule obj_free_none_partial [OF inv' c']) (use only 2(2) pgs_sub [of c] in blast)
    then have "kmem_obj_free cfg a x s = Some ?t"
      using obj_free_full_at [OF inv' c' l only ins] sb'(1) hd a0 x0 lk c by (simp add: kmem_obj_free_def)
    ultimately show ?thesis by (intro exI [of _ ?t]) simp
  qed
qed

text \<open>An address that is no live object of the cache: an assertion stops, or nothing happens.\<close>

lemma kmem_obj_free_bad:
  assumes inv: "kmem_inv cfg s" and c: "caches s a = Some c" and lk: "CacheLk a \<notin> held s" and x: "x \<notin> cache_live s c"
  shows "kmem_obj_free cfg a x s = None \<or> kmem_obj_free cfg a x s = Some s"
proof (cases "x = 0")
  case False
  let ?s = "s\<lparr>held := insert (CacheLk a) (held s)\<rparr>"
  have inv': "kmem_inv cfg ?s" by (rule kmem_inv_cache_lock(2) [OF inv])
  have c': "caches ?s a = Some c" and x': "x \<notin> cache_live ?s c" using c x by simp_all
  have a0: "a \<noteq> 0" using kmem_invD(3) [OF inv' c'] by simp
  have rej: "slab_free (slab_of ?s p) x = None" if p: "p \<in> set (all_pgs c)" for p
  proof -
    obtain fl where f: "slab_ok (slab_of ?s p) fl" using slab_page_facts(6) [OF inv' c' p] by blast
    have "x \<notin> slab_live (slab_of ?s p)" using x' p by (auto simp: cache_live_def)
    then show ?thesis using slab_free_reject [OF f] unfolding slab_live_ok [OF f] by blast
  qed
  have hd: "s\<lparr>held := insert (CacheLk a) (held s) - {CacheLk a}\<rparr> = s" using lk by simp
  consider p where "p \<in> set (partial_pgs c)" "in_slab cfg (pg_order c) p x"
    | p where "p \<in> set (full_pgs c)" "in_slab cfg (pg_order c) p x" "\<forall>q \<in> set (partial_pgs c). \<not> in_slab cfg (pg_order c) q x"
    | "\<forall>q \<in> set (partial_pgs c). \<not> in_slab cfg (pg_order c) q x" "\<forall>q \<in> set (full_pgs c). \<not> in_slab cfg (pg_order c) q x"
    by blast
  then show ?thesis
  proof cases
    case (1 p)
    then obtain us vs where l: "partial_pgs c = us @ p # vs" by (meson split_list)
    have pa: "p \<in> set (all_pgs c)" using 1 pgs_sub by blast
    have "\<not> in_slab cfg (pg_order c) q x" if "q \<in> set (all_pgs c)" "q \<noteq> p" for q
      using in_slab_unique [OF inv' c' that(1) pa _ 1(2)] that(2) by blast
    then show ?thesis
      using obj_free_partial_at [OF inv' c' l _ 1(2)] rej [OF pa] a0 False lk c by (simp add: kmem_obj_free_def)
  next
    case (2 p)
    then obtain us vs where l: "full_pgs c = us @ p # vs" by (meson split_list)
    have pa: "p \<in> set (all_pgs c)" using 2 pgs_sub by blast
    have "\<not> in_slab cfg (pg_order c) q x" if "q \<in> set (all_pgs c)" "q \<noteq> p" for q
      using in_slab_unique [OF inv' c' that(1) pa _ 2(2)] that(2) by blast
    then show ?thesis
      using obj_free_full_at [OF inv' c' l _ 2(2)] obj_free_none_partial [OF inv' c'] 2(3) rej [OF pa] a0 False lk c
      by (simp add: kmem_obj_free_def)
  next
    case 3
    then show ?thesis
      using obj_free_none_full [OF inv' c'] obj_free_none_partial [OF inv' c'] a0 False lk c hd
      by (simp add: kmem_obj_free_def unlock_def)
  qed
qed (simp add: kmem_obj_free_def)

end
