(* ===== verification/KmemGrow.thy ===== *)
theory KmemGrow
  imports KmemFree
begin

unbundle bit_operations_syntax

text \<open>
  Growing a cache by one slab, and the operations built on it: \<^verbatim>\<open>kmem_obj_alloc\<close>,
  \<^verbatim>\<open>kmem_cache_init\<close>, \<^verbatim>\<open>kmem_cache_deinit\<close>.
\<close>

subsection \<open>Changing the owner of a block in use\<close>

definition set_type :: "nat \<Rightarrow> pgfm_type \<Rightarrow> 'a pgfm_scheme \<Rightarrow> 'a pgfm_scheme" where
  "set_type p ty s = s\<lparr>pgframe_pages := (pgframe_pages s)[p := (pgframe_pages s ! p)\<lparr>pgtype := ty\<rparr>]\<rparr>"

lemma set_type_inv:
  assumes inv: "mm_inv cfg s" and u: "(p, k) \<in> mm_used s"
  shows "mm_inv cfg (set_type p ty s)" "mm_used (set_type p ty s) = mm_used s" "free_pages (set_type p ty s) = free_pages s"
proof -
  let ?ps = "pgframe_pages s" and ?pg = "(pgframe_pages s ! p)\<lparr>pgtype := ty\<rparr>"
  have b: "buddy_inv cfg {} s" using inv by (simp add: mm_inv_def)
  note I = buddy_invD [OF b]
  have h: "p < length ?ps" "is_head (?ps ! p)" "buddy_pgfm_freeable (?ps ! p)" "buddy_order (?ps ! p) = k"
    using u headsD(2) by (auto simp: mm_used_def)
  have pg: "is_head ?pg" "buddy_pgfm_freeable ?pg" "buddy_order ?pg = k" "\<not> buddy_pgfm_infrlist ?pg"
    using h kinds_exclusive(4) [of "?ps ! p"] by (auto simp: page_kind_defs)
  have "pages_inv (MAX_ORDER cfg) ({} \<union> {p + 2 ^ buddy_order ?pg..<blk_end ?ps p}) (?ps[p := ?pg])"
    by (rule shrink_pages_inv [OF I(2) h(1,2) pg(1)]) (use pg h in simp_all)
  then have pi: "pages_inv (MAX_ORDER cfg) {} (?ps[p := ?pg])" using h pg by (simp add: blk_end_def)
  have fh: "free_heads (?ps[p := ?pg]) = free_heads ?ps"
  proof -
    have "(p, l) \<notin> free_heads ?ps" for l using free_used_disjoint u by (auto simp: mm_used_def)
    then show ?thesis using free_heads_upd [OF h(1)] pg(4) by auto
  qed
  have uh: "used_heads (?ps[p := ?pg]) = used_heads ?ps"
  proof -
    have "(p, l) \<in> used_heads ?ps \<longleftrightarrow> l = k" for l using u headsD(2) [of p l ?ps] h by (auto simp: mm_used_def)
    then show ?thesis using used_heads_upd [OF h(1)] pg by auto
  qed
  show "mm_used (set_type p ty s) = mm_used s" "free_pages (set_type p ty s) = free_pages s"
    by (simp_all add: set_type_def mm_used_def free_pages_def free_set_def fh uh)
  show "mm_inv cfg (set_type p ty s)"
    using inv pi pools_inv_cong [OF I(3) fh] I(1) by (simp add: mm_inv_def buddy_inv_def set_type_def mm_unlocked_def)
qed

lemma set_type_sel [simp]:
  "held (set_type p ty s) = held s" "mem (set_type p ty s) = mem s"
  "length (pgframe_pages (set_type p ty s)) = length (pgframe_pages s)"
  "q \<noteq> p \<Longrightarrow> pgframe_pages (set_type p ty s) ! q = pgframe_pages s ! q"
  "p < length (pgframe_pages s) \<Longrightarrow> pgframe_pages (set_type p ty s) ! p = (pgframe_pages s ! p)\<lparr>pgtype := ty\<rparr>"
  by (simp_all add: set_type_def)

lemma set_type_kmem [simp]:
  "caches (set_type p ty s) = caches s" "slabs (set_type p ty s) = slabs s"
  by (simp_all add: set_type_def)

lemma set_type_back:
  assumes "pgtype (pgframe_pages s ! p) = ty" "p < length (pgframe_pages s)"
  shows "set_type p ty (set_type p ty' s) = s"
proof -
  have "(pgframe_pages s ! p)\<lparr>pgtype := ty\<rparr> = pgframe_pages s ! p"
    by (rule page.equality) (simp_all add: assms(1))
  then have "(pgframe_pages s)[p := (pgframe_pages s ! p)\<lparr>pgtype := ty\<rparr>] = pgframe_pages s" by simp
  then show ?thesis using assms(2) by (simp add: set_type_def)
qed

lemma set_pgfm_aslab_eq:
  assumes "p < length (pgframe_pages s)" "pgtype (pgframe_pages s ! p) = PAGE_BUDDYALLOCATOR"
    "buddy_pgfm_freeable (pgframe_pages s ! p)" "PageLk p \<notin> held s"
  shows "set_pgfm_aslab p s = Some (set_type p SLAB_ALLOCATOR s)"
  using assms by (auto simp: set_pgfm_aslab_def set_type_def buddy_pgfm_freeable_def unlock_def intro!: kmem.equality)

lemma set_pgfm_asbuddy_eq:
  assumes "p < length (pgframe_pages s)" "pgtype (pgframe_pages s ! p) = SLAB_ALLOCATOR"
    "buddy_pgfm_freeable (pgframe_pages s ! p)" "PageLk p \<notin> held s"
  shows "set_pgfm_asbuddy p s = Some (set_type p PAGE_BUDDYALLOCATOR s)"
  using assms by (auto simp: set_pgfm_asbuddy_def set_type_def buddy_pgfm_freeable_def unlock_def intro!: kmem.equality)

subsection \<open>The caches when only pages change\<close>

lemma slab_page_mono:
  assumes "slab_page cfg s k sz q" "slabs t q = slabs s q"
    "(q, k) \<in> mm_used t" "pgtype (pgframe_pages t ! q) = SLAB_ALLOCATOR"
  shows "slab_page cfg t k sz q"
  using assms by (auto simp: slab_page_def)

definition slab_pages_kept :: "'a kmem_scheme \<Rightarrow> 'a kmem_scheme \<Rightarrow> bool" where
  "slab_pages_kept s t \<longleftrightarrow> (\<forall>q k c. c \<in> ran (caches s) \<and> q \<in> set (all_pgs c) \<and> (q, k) \<in> mm_used s \<and>
       pgtype (pgframe_pages s ! q) = SLAB_ALLOCATOR \<longrightarrow>
     slabs t q = slabs s q \<and> (q, k) \<in> mm_used t \<and> pgtype (pgframe_pages t ! q) = SLAB_ALLOCATOR)"

lemma cache_ok_kept:
  assumes "slab_pages_kept s t" "c \<in> ran (caches s)" "cache_ok cfg s c"
  shows "cache_ok cfg t c" "\<And>q. q \<in> set (all_pgs c) \<Longrightarrow> slab_of t q = slab_of s q" "cache_live t c = cache_live s c"
proof -
  have k: "slabs t q = slabs s q \<and> (q, l) \<in> mm_used t \<and> pgtype (pgframe_pages t ! q) = SLAB_ALLOCATOR"
    if "q \<in> set (all_pgs c)" "slab_page cfg s l sz q" for q l sz
    using assms(1,2) that unfolding slab_pages_kept_def slab_page_def by blast
  then show e: "slab_of t q = slab_of s q" if "q \<in> set (all_pgs c)" for q
    using cache_okD(2) [OF assms(3) that] that unfolding slab_of_def by metis
  show "cache_ok cfg t c"
    by (rule cache_ok_cong [OF assms(3)]) (use e k slab_page_mono in metis)+
  show "cache_live t c = cache_live s c" using e by (auto simp: cache_live_def)
qed

lemma caches_ok_kept:
  assumes "slab_pages_kept s t" "caches_ok cfg s" "caches t = caches s"
  shows "caches_ok cfg t" "kmem_live t = kmem_live s"
proof -
  have "cache_ok cfg t c \<and> cache_live t c = cache_live s c" if "caches s a = Some c" for a c
    using cache_ok_kept [OF assms(1), of c cfg] assms(2) that by (auto simp: caches_ok_def ran_def)
  then show "caches_ok cfg t" "kmem_live t = kmem_live s"
    using assms(2,3) by (auto simp: caches_ok_def kmem_live_def ran_def)
qed

text \<open>The live objects, with one cache set apart.\<close>

lemma kmem_live_upd:
  "caches t = (caches s)(a \<mapsto> c') \<Longrightarrow>
     kmem_live t = cache_live t c' \<union> (\<Union>d \<in> {d. \<exists>b. b \<noteq> a \<and> caches s b = Some d}. cache_live t d)"
  by (auto simp: kmem_live_def ran_def split: if_splits)

lemma kmem_live_at:
  "caches s a = Some c \<Longrightarrow>
     kmem_live s = cache_live s c \<union> (\<Union>d \<in> {d. \<exists>b. b \<noteq> a \<and> caches s b = Some d}. cache_live s d)"
  using kmem_live_upd [of s s a c] by (simp add: fun_upd_idem)

lemma caches_ok_upd:
  assumes "caches t = (caches s)(a \<mapsto> c')" "a \<noteq> 0" "cache_ok cfg t c'"
    "\<And>b d. caches s b = Some d \<Longrightarrow> b \<noteq> a \<Longrightarrow> b \<noteq> 0 \<and> cache_ok cfg t d"
    "\<And>b d. caches s b = Some d \<Longrightarrow> b \<noteq> a \<Longrightarrow> set (all_pgs c') \<inter> set (all_pgs d) = {}"
    "\<And>x y u v. caches s x = Some u \<Longrightarrow> caches s y = Some v \<Longrightarrow> x \<noteq> y \<Longrightarrow> set (all_pgs u) \<inter> set (all_pgs v) = {}"
  shows "caches_ok cfg t"
proof -
  have *: "b = a \<and> d = c' \<or> b \<noteq> a \<and> caches s b = Some d" if "caches t b = Some d" for b d
    using that unfolding assms(1) by (auto split: if_splits)
  have "set (all_pgs u) \<inter> set (all_pgs v) = {}" if "caches t x = Some u" "caches t y = Some v" "x \<noteq> y" for x y u v
    using * [OF that(1)] * [OF that(2)] that(3) assms(5,6) by blast
  moreover have "b \<noteq> 0 \<and> cache_ok cfg t d" if "caches t b = Some d" for b d
    using * [OF that] assms(2-4) by blast
  ultimately show ?thesis unfolding caches_ok_def by blast
qed

subsection \<open>cache_grow\<close>

lemma mm_more_kmem: "mm.more t = mm.more s \<Longrightarrow> slabs t = slabs s \<and> caches t = caches s \<and> kmem.more t = kmem.more s"
  by (cases s; cases t; simp)

lemma init_slab_spec:
  assumes inv: "mm_inv cfg s" and u: "(p, k) \<in> mm_used s" and ty: "pgtype (pgframe_pages s ! p) = SLAB_ALLOCATOR"
    and sz: "0 < sz" "sz < 2 ^ k * 4096" and nz: "PGFRAME_VA_START cfg \<noteq> 0"
  shows "init_slab cfg sp p sz off s = Some (False, s) \<or>
    (\<exists>sb fl. init_slab cfg sp p sz off s = Some (True, s\<lparr>slabs := (slabs s)(p \<mapsto> sb)\<rparr>) \<and> slab_ok sb fl \<and>
       obj_free sb = obj_all sb \<and> obj_size sb = sz \<and> slab_in_block cfg p k sb \<and> slab_live sb = {})"
proof -
  have wf: "wf_cfg cfg" using inv by (simp add: mm_inv_def)
  note v = used_block_va [OF inv u] and e = used_block_end [OF inv u]
  have h: "p < length (pgframe_pages s)" "buddy_flags (pgframe_pages s ! p) = PG_BUDDY_FLAG_HEAD" "buddy_order (pgframe_pages s ! p) = k"
    using u headsD(2) by (auto simp: mm_used_def buddy_pgfm_freeable_def)
  have un: "PageLk p \<notin> held s" using inv by (simp add: mm_inv_def mm_unlocked_def)
  have s0: "s\<lparr>held := insert (PageLk p) (held s) - {PageLk p}\<rparr> = s" using un by simp
  let ?va = "pg2va cfg p" and ?n = "(2 ^ k * 4096 - 40) div (4 + sz)"
  have "uint (PGFRAME_VA_START cfg) \<noteq> 0" using nz by (simp add: word_uint_eq_iff)
  moreover have "0 \<le> uint (PGFRAME_VA_START cfg)" by simp
  ultimately have "uint ?va \<noteq> 0" unfolding v(4) by linarith
  then have va0: "?va \<noteq> 0" by auto
  have al: "VAL_IS_PAGE_ALIGNED ?va"
  proof -
    have "unat (PGFRAME_VA_START cfg) mod 4096 = 0" using wf by (simp add: wf_cfg_def page_aligned_iff)
    then show ?thesis unfolding page_aligned_iff unat_pg2va [OF wf v(2)] by presburger
  qed
  have big: "4096 \<le> (2::int) ^ k * 4096" by simp
  note bb = block_bytes [OF e(2)]
  note X = init_slab_xip_spec [OF va0 al big bb(2) sz e(1), of sp "mem s" off]
  have op: "init_slab cfg sp p sz off s = (case init_slab_xip sp (mem s) ?va (2 ^ k * 4096) sz off of None \<Rightarrow> None
     | Some None \<Rightarrow> Some (False, s) | Some (Some sb) \<Rightarrow> Some (True, s\<lparr>slabs := (slabs s)(p \<mapsto> sb)\<rparr>))"
  proof -
    have "pg_get p (s\<lparr>held := insert (PageLk p) (held s)\<rparr>) = Some (pgframe_pages s ! p)" using h(1) by (simp add: pg_get_def)
    then show ?thesis
      using h un ty s0 bb(1) by (auto simp: init_slab_def unlock_def Let_def split: option.splits)
  qed
  show ?thesis
  proof (cases "?n = 0")
    case True
    then show ?thesis using X op by simp
  next
    case False
    then obtain sb where sb: "init_slab_xip sp (mem s) ?va (2 ^ k * 4096) sz off = Some (Some sb)" "slab_ok sb [0..<nat ?n]"
      "obj_all sb = ?n" "obj_size sb = sz" "uint ?va + 40 + 4 * ?n \<le> uint (mem_obj_start sb)"
      "uint (mem_obj_start sb) + ?n * sz \<le> uint ?va + 2 ^ k * 4096"
      using X by (auto split: if_splits)
    have "0 < obj_all sb" using slab_okD(1) [OF sb(2)] unfolding slab_geom_def by blast
    then have "0 < ?n" unfolding sb(3) .
    then have "slab_in_block cfg p k sb" using sb(3-6) by (simp add: slab_in_block_def)
    moreover have "obj_free sb = obj_all sb" using sb(2,3) \<open>0 < ?n\<close> by (simp add: slab_ok_def)
    moreover have "slab_live sb = {}"
      unfolding slab_live_ok [OF sb(2)] using slab_okD(1) [OF sb(2)] sb(3) by (auto simp: slab_geom_def)
    ultimately show ?thesis using op sb(1,2,4) by auto
  qed
qed

definition grown :: "nat \<Rightarrow> slab \<Rightarrow> kmem_cache \<Rightarrow> kmem_cache" where
  "grown p sb c = c\<lparr>color_offset := (color_offset c + 1) AND 0x7fffffff, obj_num := obj_num c + obj_free sb,
     pg_orhas := pg_orhas c + 1, free_pgs := free_pgs c @ [p]\<rparr>"

lemma grown_inv:
  assumes inv: "kmem_inv cfg s" and c: "caches s a = Some c" and kept: "slab_pages_kept s t" "caches t = (caches s)(a \<mapsto> grown p sb c)"
    and mm: "mm_inv cfg t" and sb: "slabs t p = Some sb" "slab_ok sb fl" "obj_free sb = obj_all sb"
      "obj_size sb = c_obj_size c" "slab_in_block cfg p (nat (pg_order c)) sb" "slab_live sb = {}"
    and p: "(p, nat (pg_order c)) \<in> mm_used t" "pgtype (pgframe_pages t ! p) = SLAB_ALLOCATOR"
      "\<And>b d. caches s b = Some d \<Longrightarrow> p \<notin> set (all_pgs d)"
  shows "kmem_inv cfg t" "cache_live t (grown p sb c) = cache_live s c" "kmem_live t = kmem_live s"
proof -
  let ?c = "grown p sb c"
  note K = kmem_invD [OF inv]
  have ok: "cache_ok cfg s c" and a0: "a \<noteq> 0" using K(3) [OF c] by simp_all
  have okt: "cache_ok cfg t d" "cache_live t d = cache_live s d" "\<And>q. q \<in> set (all_pgs d) \<Longrightarrow> slab_of t q = slab_of s q"
    if "caches s b = Some d" for b d
    using cache_ok_kept [OF kept(1), of d cfg] K(3) [OF that] that by (auto simp: ran_def)
  have sp: "slab_of t p = sb" using sb(1) by (simp add: slab_of_def)
  have pgs: "set (all_pgs ?c) = insert p (set (all_pgs c))" by (auto simp: grown_def all_pgs_def)
  have dist: "distinct (all_pgs ?c)" using cache_okD(1) [OF ok] p(3) [OF c] by (auto simp: grown_def all_pgs_def)
  note C = cache_okD [OF okt(1) [OF c]]
  have sum: "obj_num ?c = (\<Sum>q \<in> set (all_pgs ?c). obj_free (slab_of t q))"
  proof -
    have "obj_num c = (\<Sum>q \<in> set (all_pgs c). obj_free (slab_of t q))" using C(4) .
    then show ?thesis unfolding pgs using p(3) [OF c] sp by (simp add: grown_def)
  qed
  have spg: "slab_page cfg t (nat (pg_order ?c)) (c_obj_size ?c) q" if "q \<in> set (all_pgs ?c)" for q
  proof (cases "q = p")
    case True
    then show ?thesis using sb p unfolding slab_page_def by (auto simp: grown_def)
  next
    case False
    then show ?thesis using that pgs C(2) [of q] by (simp add: grown_def)
  qed
  have "cache_ok cfg t ?c"
    unfolding cache_ok_def
    using dist spg sum C sb(3) sp unfolding lists_ok_def by (simp add: grown_def all_pgs_def) 
  moreover have "set (all_pgs ?c) \<inter> set (all_pgs d) = {}" if "caches s b = Some d" "b \<noteq> a" for b d
    using K(4) [OF c that(1)] that p(3) [OF that(1)] pgs by auto
  ultimately have "caches_ok cfg t"
    using a0 K(3,4) okt(1) by (intro caches_ok_upd [OF kept(2)]) blast+
  then show "kmem_inv cfg t" using mm K(2) by (simp add: kmem_inv_def)
  show l: "cache_live t ?c = cache_live s c"
    unfolding cache_live_def pgs using okt(3) [OF c] sp sb(6) by auto
  show "kmem_live t = kmem_live s"
    unfolding kmem_live_upd [OF kept(2)] kmem_live_at [OF c] l using okt(2) by blast
qed

text \<open>The block that \<^verbatim>\<open>bkp_alloc_zero\<close> hands out, seen from the caches.\<close>

definition fresh_block :: "pgfm_cfg \<Rightarrow> nat \<Rightarrow> nat \<Rightarrow> 'a kmem_scheme \<Rightarrow> 'a kmem_scheme \<Rightarrow> bool" where
  "fresh_block cfg k p s t \<longleftrightarrow> mm_inv cfg t \<and> mm_used t = insert (p, k) (mm_used s) \<and> (\<forall>l. (p, l) \<notin> mm_used s) \<and>
     free_pages t = free_pages s - {p..<p + 2 ^ k} \<and> {p..<p + 2 ^ k} \<subseteq> free_pages s \<and> is_buddy_page p t \<and>
     held t = held s \<and> slabs t = slabs s \<and> caches t = caches s \<and>
     owners (pgframe_pages t) = owners (pgframe_pages s)"

lemma bkp_alloc_zero_fresh:
  assumes "mm_inv cfg s"
  shows "bkp_alloc_zero cfg ord s = Some (None, s) \<or>
    (\<exists>p t. bkp_alloc_zero cfg ord s = Some (Some p, t) \<and> 0 \<le> ord \<and> fresh_block cfg (nat ord) p s t)"
proof -
  consider "bkp_alloc cfg ord s = Some (None, s)"
    | p t where "bkp_alloc cfg ord s = Some (Some p, t)" "0 \<le> ord" "alloc_post cfg (nat ord) p s t"
    using bkp_alloc_post [OF assms, of ord] by blast
  then show ?thesis
  proof cases
    case 1
    then show ?thesis by (simp add: bkp_alloc_zero_def)
  next
    case (2 p t)
    let ?t = "t\<lparr>mem := memset (pg2va cfg p) 0 (push_bit (nat ord) 1 * PAGE_SIZE) (mem t)\<rparr>"
    have fr: "mm_frame s t" using 2(3) by (simp add: alloc_post_def)
    have "mm_inv cfg t" using alloc_post_inv [OF assms 2(3)] .
    then have "mm_inv cfg ?t" by (simp add: mm_inv_def buddy_inv_def mm_unlocked_def)
    then have "fresh_block cfg (nat ord) p s ?t"
      using 2(3) mm_frameD(1,3) [OF fr] mm_more_kmem [of t s] fr
      by (simp add: fresh_block_def alloc_post_def mm_used_def free_pages_def is_buddy_page_def mm_frame_def)
    then show ?thesis using 2(1,2) by (auto simp: bkp_alloc_zero_def)
  qed
qed

lemma fresh_block_kept:
  assumes "kmem_inv cfg s" "fresh_block cfg k p s t" "t' = set_type p ty t \<or> t' = t"
    "\<And>q. q \<noteq> p \<Longrightarrow> slabs u q = slabs t q" "mm_used u = mm_used t" "pgframe_pages u = pgframe_pages t'"
  shows "slab_pages_kept s u" "\<And>b d. caches s b = Some d \<Longrightarrow> p \<notin> set (all_pgs d)"
proof -
  have F: "mm_used t = insert (p, k) (mm_used s)" "\<And>l. (p, l) \<notin> mm_used s" "slabs t = slabs s"
    "owners (pgframe_pages t) = owners (pgframe_pages s)"
    using assms(2) by (auto simp: fresh_block_def)
  show "slab_pages_kept s u"
    unfolding slab_pages_kept_def
  proof (intro allI impI)
    fix q l c assume h: "c \<in> ran (caches s) \<and> q \<in> set (all_pgs c) \<and> (q, l) \<in> mm_used s \<and>
      pgtype (pgframe_pages s ! q) = SLAB_ALLOCATOR"
    then have qp: "q \<noteq> p" using F(2) by blast
    have "q < length (pgframe_pages t)"
      using h headsD(2) [of q l "pgframe_pages s"] owners_length [OF F(4)] by (auto simp: mm_used_def)
    then have "pgtype (pgframe_pages t ! q) = pgtype (pgframe_pages s ! q)" by (rule owners_nth [OF F(4)])
    then have "pgtype (pgframe_pages t' ! q) = SLAB_ALLOCATOR" using h assms(3) qp by auto
    then show "slabs u q = slabs s q \<and> (q, l) \<in> mm_used u \<and> pgtype (pgframe_pages u ! q) = SLAB_ALLOCATOR"
      using h qp assms(4-6) F(1,3) by simp
  qed
  show "p \<notin> set (all_pgs d)" if "caches s b = Some d" for b d
    using slab_page_facts(5) [OF assms(1) that, of p] F(2) by blast
qed

lemma cache_grow_spec:
  assumes inv: "kmem_inv cfg s" and c: "caches s a = Some c"
  shows "(\<exists>t. cache_grow cfg sp a s = Some (False, t) \<and> kmem_inv cfg t \<and> caches t = caches s \<and> slab_pages_kept s t \<and>
      held t = held s \<and> mm_used t = mm_used s \<and> free_pages t = free_pages s) \<or>
    (\<exists>t p sb. cache_grow cfg sp a s = Some (True, t) \<and> kmem_inv cfg t \<and> caches t = (caches s)(a \<mapsto> grown p sb c) \<and>
      slab_pages_kept s t \<and> held t = held s \<and> 0 < obj_free sb \<and> kmem_live t = kmem_live s \<and>
      cache_live t (grown p sb c) = cache_live s c \<and>
      mm_used t = insert (p, nat (pg_order c)) (mm_used s) \<and> (\<forall>l. (p, l) \<notin> mm_used s) \<and>
      {p..<p + 2 ^ nat (pg_order c)} \<subseteq> free_pages s \<and>
      free_pages t = free_pages s - {p..<p + 2 ^ nat (pg_order c)})"
proof -
  note K = kmem_invD [OF inv]
  have ok: "cache_ok cfg s c" using K(3) [OF c] by simp
  note C = cache_okD [OF ok]
  consider "bkp_alloc_zero cfg (pg_order c) s = Some (None, s)"
    | p t where "bkp_alloc_zero cfg (pg_order c) s = Some (Some p, t)" "fresh_block cfg (nat (pg_order c)) p s t"
    using bkp_alloc_zero_fresh [OF K(1), of "pg_order c"] by blast
  then show ?thesis
  proof cases
    case 1
    then have "cache_grow cfg sp a s = Some (False, s)" using c by (simp add: cache_grow_def)
    then show ?thesis using inv by (intro disjI1 exI [of _ s]) (simp add: slab_pages_kept_def)
  next
    case (2 p t)
    let ?k = "nat (pg_order c)" and ?t = "set_type p SLAB_ALLOCATOR t"
    have F: "mm_inv cfg t" "mm_used t = insert (p, ?k) (mm_used s)" "\<And>l. (p, l) \<notin> mm_used s"
      "free_pages t = free_pages s - {p..<p + 2 ^ ?k}" "{p..<p + 2 ^ ?k} \<subseteq> free_pages s" "is_buddy_page p t"
      "held t = held s" "slabs t = slabs s" "caches t = caches s"
      using 2(2) by (auto simp: fresh_block_def)
    have u: "(p, ?k) \<in> mm_used t" using F(2) by simp
    have hd: "p < length (pgframe_pages t)" "buddy_pgfm_freeable (pgframe_pages t ! p)" "pgtype (pgframe_pages t ! p) = PAGE_BUDDYALLOCATOR"
      using u headsD(2) F(6) by (auto simp: mm_used_def is_buddy_page_def)
    have un: "PageLk p \<notin> held t" using F(1) by (simp add: mm_inv_def mm_unlocked_def)
    have asl: "set_pgfm_aslab p t = Some ?t" using hd(1,3,2) un by (rule set_pgfm_aslab_eq)
    note T = set_type_inv [OF F(1) u, of SLAB_ALLOCATOR]
    have u': "(p, ?k) \<in> mm_used ?t" using T(2) u by simp
    have ty: "pgtype (pgframe_pages ?t ! p) = SLAB_ALLOCATOR" using hd by simp
    consider "init_slab cfg sp p (c_obj_size c) (color_offset c) ?t = Some (False, ?t)"
      | sb fl where "init_slab cfg sp p (c_obj_size c) (color_offset c) ?t = Some (True, ?t\<lparr>slabs := (slabs ?t)(p \<mapsto> sb)\<rparr>)"
        "slab_ok sb fl" "obj_free sb = obj_all sb" "obj_size sb = c_obj_size c" "slab_in_block cfg p ?k sb" "slab_live sb = {}"
      using init_slab_spec [OF T(1) u' ty C(8,9) K(2), of sp "color_offset c"] by blast
    then show ?thesis
    proof cases
      case 1
      have asb: "set_pgfm_asbuddy p ?t = Some t"
        using set_pgfm_asbuddy_eq [of p ?t] ty hd un set_type_back [OF hd(3,1)] by (simp add: buddy_pgfm_freeable_def)
      obtain v where v: "bkp_free cfg (Some p) t = Some v" "mm_inv cfg v" "mm_frame t v" "mm_used v = mm_used t - {(p, ?k)}"
        "free_pages v = free_pages t \<union> {p..<p + 2 ^ ?k}"
        using bkp_free_post [OF F(1) u F(6)] by blast
      have mu: "mm_used v = mm_used s" using v(4) F(2,3) by auto
      have fp: "free_pages v = free_pages s" using v(5) F(4,5) by auto
      note mo = mm_more_kmem [of v t]
      have kv: "slabs v = slabs t" "caches v = caches s" using mo v(3) F(9) by (simp_all add: mm_frame_def)
      have kept: "slab_pages_kept s v"
        unfolding slab_pages_kept_def
      proof (intro allI impI)
        fix q l d assume h: "d \<in> ran (caches s) \<and> q \<in> set (all_pgs d) \<and> (q, l) \<in> mm_used s \<and>
          pgtype (pgframe_pages s ! q) = SLAB_ALLOCATOR"
        have o: "owners (pgframe_pages v) = owners (pgframe_pages s)"
          using mm_frameD(3) [OF v(3)] 2(2) by (simp add: fresh_block_def)
        have "q < length (pgframe_pages v)"
          using h headsD(2) [of q l "pgframe_pages s"] owners_length [OF o] by (auto simp: mm_used_def)
        then show "slabs v q = slabs s q \<and> (q, l) \<in> mm_used v \<and> pgtype (pgframe_pages v ! q) = SLAB_ALLOCATOR"
          using h owners_nth [OF o] kv(1) F(8) mu by simp
      qed
      have "kmem_inv cfg v"
        using caches_ok_kept(1) [OF kept _ kv(2)] inv v(2) by (simp add: kmem_inv_def)
      moreover have "cache_grow cfg sp a s = Some (False, v)"
        using c 2(1) asl 1 asb v(1) by (simp add: cache_grow_def)
      ultimately show ?thesis using kept kv(2) mu fp mm_frameD(1) [OF v(3)] F(7) by auto
    next
      case (2 sb fl)
      let ?u = "?t\<lparr>slabs := (slabs ?t)(p \<mapsto> sb), caches := (caches ?t)(a \<mapsto> grown p sb c)\<rparr>"
      have mu: "mm_used ?u = mm_used ?t" by (simp add: mm_used_def)
      have unt: "PageLk p \<notin> held ?t" using un by simp
      have op: "cache_grow cfg sp a s = Some (True, ?u)"
        using c \<open>bkp_alloc_zero cfg (pg_order c) s = Some (Some p, t)\<close> asl 2(1,3) unt F(9)
        by (auto simp: cache_grow_def cache_upd_def unlock_def grown_def intro!: kmem.equality)
      have mm: "mm_inv cfg ?u" using T(1) by (simp add: mm_inv_def buddy_inv_def mm_unlocked_def)
      note kept = fresh_block_kept [OF inv \<open>fresh_block cfg ?k p s t\<close>, of ?t SLAB_ALLOCATOR ?u]
      have k1: "slab_pages_kept s ?u" by (rule kept(1)) (use mu T(2) in simp_all)
      have k2: "\<And>b d. caches s b = Some d \<Longrightarrow> p \<notin> set (all_pgs d)" by (rule kept(2)) (use mu T(2) in simp_all)
      note G = grown_inv [OF inv c k1 _ mm _ 2(2-6) _ _ k2]
      have "kmem_inv cfg ?u \<and> cache_live ?u (grown p sb c) = cache_live s c \<and> kmem_live ?u = kmem_live s"
        using G u' ty F(9) mu by simp
      moreover have "0 < obj_free sb" using slab_okD(1) [OF 2(2)] 2(3) by (auto simp: slab_geom_def)
      moreover have "free_pages ?u = free_pages t" using T(3) by (simp add: free_pages_def)
      ultimately show ?thesis
        using op k1 F(2-5,7,9) mu T(2) by (intro disjI2 exI [of _ ?u] exI [of _ p] exI [of _ sb]) simp
    qed
  qed
qed

end
