(* ===== verification/KmemOps.thy ===== *)
theory KmemOps
  imports KmemGrow
begin

unbundle bit_operations_syntax

text \<open>
  The exported operations of the object caches and their properties.
\<close>

subsection \<open>kmem_obj_alloc\<close>

lemma obj_step_live:
  assumes "obj_step cfg a c L d s t" "caches s a = Some c"
  shows "kmem_live t = L \<union> (\<Union>d \<in> {d. \<exists>b. b \<noteq> a \<and> caches s b = Some d}. cache_live s d)"
proof -
  obtain c' where c': "caches t = (caches s)(a \<mapsto> c')" "cache_live t c' = L"
    and o: "\<And>b d. b \<noteq> a \<Longrightarrow> caches s b = Some d \<Longrightarrow> cache_live t d = cache_live s d"
    using assms(1) by (auto simp: obj_step_def)
  show ?thesis unfolding kmem_live_upd [OF c'(1)] c'(2) using o by blast
qed

lemma kmem_obj_alloc_spec:
  assumes inv: "kmem_inv cfg s" and c: "caches s a = Some c" and lk: "CacheLk a \<notin> held s"
  shows "\<exists>r t. kmem_obj_alloc cfg sp a s = Some (r, t) \<and> kmem_inv cfg t \<and> held t = held s \<and>
    (if r = 0 then obj_num c = 0 \<and> caches t = caches s \<and> kmem_live t = kmem_live s \<and> cache_live t c = cache_live s c \<and>
       mm_used t = mm_used s \<and> free_pages t = free_pages s
     else r \<notin> kmem_live s \<and> kmem_live t = insert r (kmem_live s) \<and>
       (\<exists>c'. caches t a = Some c' \<and> cache_live t c' = insert r (cache_live s c)))"
proof -
  let ?s = "s\<lparr>held := insert (CacheLk a) (held s)\<rparr>"
  have inv': "kmem_inv cfg ?s" by (rule kmem_inv_cache_lock(2) [OF inv])
  have c': "caches ?s a = Some c" using c by simp
  have a0: "a \<noteq> 0" using kmem_invD(3) [OF inv' c'] by simp
  have hd: "insert (CacheLk a) (held s) - {CacheLk a} = held s" using lk by simp
  have take: "\<exists>r t. obj_alloc_take a u = Some (r, t) \<and> r \<noteq> 0 \<and> r \<notin> kmem_live s \<and> kmem_inv cfg t \<and> held t = held s \<and>
      kmem_live t = insert r (kmem_live s) \<and> (\<exists>c'. caches t a = Some c' \<and> cache_live t c' = insert r (cache_live s c))"
    if u: "kmem_inv cfg u" "caches u a = Some d" "obj_num d \<noteq> 0" "held u = held ?s" "kmem_live u = kmem_live s"
      "cache_live u d = cache_live s c" for u d
  proof -
    obtain r t where r: "obj_alloc_take a u = Some (r, t\<lparr>held := held u - {CacheLk a}\<rparr>)" "r \<noteq> 0" "r \<notin> kmem_live u" "held t = held u"
      "obj_step cfg a d (insert r (cache_live u d)) (- 1) u t"
      using obj_alloc_take_spec [OF u(1-3)] by blast
    have "kmem_inv cfg t" using r(5) by (simp add: obj_step_def)
    then have "kmem_inv cfg (t\<lparr>held := held t - {CacheLk a}\<rparr>)" by (rule kmem_inv_cache_lock(1))
    moreover have "kmem_live t = insert r (kmem_live u)"
      unfolding obj_step_live [OF r(5) u(2)] kmem_live_at [OF u(2)] by simp
    moreover have "\<exists>c'. caches t a = Some c' \<and> cache_live t c' = insert r (cache_live u d)"
      using r(5) by (auto simp: obj_step_def)
    ultimately show ?thesis using r(1-4) u(4-6) hd by (intro exI [of _ r] exI [of _ "t\<lparr>held := held s\<rparr>"]) simp
  qed
  show ?thesis
  proof (cases "obj_num c = 0")
    case False
    obtain r t where "obj_alloc_take a ?s = Some (r, t)" "r \<noteq> 0" "r \<notin> kmem_live s" "kmem_inv cfg t" "held t = held s"
      "kmem_live t = insert r (kmem_live s)" "\<exists>c'. caches t a = Some c' \<and> cache_live t c' = insert r (cache_live s c)"
      using take [OF inv' c' False] by auto
    then show ?thesis using False c lk a0 by (intro exI [of _ r] exI [of _ t]) (simp add: kmem_obj_alloc_def)
  next
    case True
    have s: "s\<lparr>held := held s\<rparr> = s" by simp
    show ?thesis
    proof (cases "pg_orhas c \<ge> pg_orlimit c")
      case lim: True
      then have "kmem_obj_alloc cfg sp a s = Some (0, s)"
        using True c lk a0 hd by (simp add: kmem_obj_alloc_def unlock_def)
      then show ?thesis using inv True by auto
    next
      case lim: False
      from cache_grow_spec [OF inv' c', of sp]
      show ?thesis
      proof (elim disjE exE conjE)
        fix t assume t: "cache_grow cfg sp a ?s = Some (False, t)" "kmem_inv cfg t" "caches t = caches ?s"
          "slab_pages_kept ?s t" "held t = held ?s" "mm_used t = mm_used ?s" "free_pages t = free_pages ?s"
        have "cache_live t c = cache_live ?s c"
          using cache_ok_kept(3) [where cfg = cfg, OF t(4)] kmem_invD(3) [OF inv' c'] c' by (auto simp: ran_def)
        moreover have "mm_used (t\<lparr>held := held t - {CacheLk a}\<rparr>) = mm_used s" "free_pages (t\<lparr>held := held t - {CacheLk a}\<rparr>) = free_pages s"
          using t(6,7) by (simp_all add: mm_used_def free_pages_def)
        moreover have "kmem_live t = kmem_live ?s"
          using caches_ok_kept(2) [where cfg = cfg, OF t(4) _ t(3)] inv' by (simp add: kmem_inv_def)
        moreover have "kmem_inv cfg (t\<lparr>held := held t - {CacheLk a}\<rparr>)" using t(2) by (rule kmem_inv_cache_lock(1))
        moreover have "kmem_obj_alloc cfg sp a s = Some (0, t\<lparr>held := held t - {CacheLk a}\<rparr>)"
          using True lim c lk a0 t(1) by (simp add: kmem_obj_alloc_def unlock_def)
        ultimately show ?thesis using True t(3,5) hd
          by (intro exI [of _ "0::u64"] exI [of _ "t\<lparr>held := held t - {CacheLk a}\<rparr>"]) simp
      next
        fix t p sb assume t: "cache_grow cfg sp a ?s = Some (True, t)" "kmem_inv cfg t" "caches t = (caches ?s)(a \<mapsto> grown p sb c)"
          "held t = held ?s" "0 < obj_free sb" "kmem_live t = kmem_live ?s" "cache_live t (grown p sb c) = cache_live ?s c"
        have "obj_num (grown p sb c) \<noteq> 0" using True t(5) by (simp add: grown_def)
        then obtain r u where "obj_alloc_take a t = Some (r, u)" "r \<noteq> 0" "r \<notin> kmem_live s" "kmem_inv cfg u" "held u = held s"
          "kmem_live u = insert r (kmem_live s)" "\<exists>c'. caches u a = Some c' \<and> cache_live u c' = insert r (cache_live s c)"
          using take [OF t(2), of "grown p sb c"] t(3,4,6,7) by auto
        then show ?thesis
          using True lim c lk a0 t(1) by (intro exI [of _ r] exI [of _ u]) (simp add: kmem_obj_alloc_def)
      qed
    qed
  qed
qed

subsection \<open>Releasing the slabs of a cache\<close>

definition drop_cache :: "u64 \<Rightarrow> 'a kmem_scheme \<Rightarrow> 'a kmem_scheme" where
  "drop_cache a s = s\<lparr>caches := (caches s)(a := None)\<rparr>"

lemma drop_cache_sel [simp]:
  "mm_inv cfg (drop_cache a s) = mm_inv cfg s" "mm_used (drop_cache a s) = mm_used s" "free_pages (drop_cache a s) = free_pages s"
  "slabs (drop_cache a s) = slabs s" "pgframe_pages (drop_cache a s) = pgframe_pages s" "held (drop_cache a s) = held s"
  "caches (drop_cache a s) = (caches s)(a := None)"
  by (simp_all add: drop_cache_def mm_inv_def buddy_inv_def mm_used_def free_pages_def mm_unlocked_def)

definition released :: "nat \<Rightarrow> nat list \<Rightarrow> nat set" where
  "released k ps = (\<Union>p \<in> set ps. {p..<p + 2 ^ k})"

lemma cache_release_spec:
  assumes "kmem_inv cfg (drop_cache a s)" "caches s a = Some c" "distinct ps"
    "\<forall>p \<in> set ps. (p, k) \<in> mm_used s"
    "\<forall>p \<in> set ps. \<forall>b d. b \<noteq> a \<and> caches s b = Some d \<longrightarrow> p \<notin> set (all_pgs d)"
  shows "\<exists>t c'. cache_release cfg a ps s = Some t \<and> kmem_inv cfg (drop_cache a t) \<and> caches t = (caches s)(a \<mapsto> c') \<and>
    full_pgs c' = full_pgs c \<and> partial_pgs c' = partial_pgs c \<and> free_pgs c' = fold remove1 ps (free_pgs c) \<and>
    held t = held s \<and> mm_used t = mm_used s - {(p, k) | p. p \<in> set ps} \<and>
    free_pages t = free_pages s \<union> released k ps \<and> kmem_live (drop_cache a t) = kmem_live (drop_cache a s)"
  using assms
proof (induction ps arbitrary: s c)
  case Nil
  then show ?case by (intro exI [of _ s] exI [of _ c]) (auto simp: released_def)
next
  case (Cons p ps)
  note K = kmem_invD [OF Cons.prems(1)]
  have mm: "mm_inv cfg s" using K(1) by simp
  have u: "(p, k) \<in> mm_used s" using Cons.prems(4) by simp
  let ?c = "c\<lparr>free_pgs := remove1 p (free_pgs c)\<rparr>"
  let ?s1 = "s\<lparr>caches := (caches s)(a \<mapsto> ?c)\<rparr>"
  let ?s2 = "set_type p PAGE_BUDDYALLOCATOR ?s1"
  have m1: "mm_inv cfg ?s1" "mm_used ?s1 = mm_used s" "free_pages ?s1 = free_pages s"
    using mm by (simp_all add: mm_inv_def buddy_inv_def mm_used_def free_pages_def mm_unlocked_def)
  have u1: "(p, k) \<in> mm_used ?s1" using u m1(2) by simp
  note T = set_type_inv [OF m1(1) u1, of PAGE_BUDDYALLOCATOR]
  have hd: "p < length (pgframe_pages s)" "buddy_flags (pgframe_pages s ! p) = PG_BUDDY_FLAG_HEAD"
    using u headsD(2) by (auto simp: mm_used_def buddy_pgfm_freeable_def)
  have u2: "(p, k) \<in> mm_used ?s2" using T(2) u1 by simp
  have bp: "is_buddy_page p ?s2" using hd by (simp add: is_buddy_page_def)
  obtain v where v: "bkp_free cfg (Some p) ?s2 = Some v" "mm_inv cfg v" "mm_frame ?s2 v" "mm_used v = mm_used ?s2 - {(p, k)}"
    "free_pages v = free_pages ?s2 \<union> {p..<p + 2 ^ k}"
    using bkp_free_post [OF T(1) u2 bp] by blast
  have mo: "slabs v = slabs ?s2" "caches v = caches ?s2" using mm_more_kmem [of v ?s2] v(3) by (simp_all add: mm_frame_def)
  have un: "PageLk p \<notin> held s" using mm by (simp add: mm_inv_def mm_unlocked_def)
  have st: "cache_release cfg a (p # ps) s = cache_release cfg a ps v"
  proof -
    have e: "set_type p PAGE_BUDDYALLOCATOR ?s1 = s\<lparr>held := insert (PageLk p) (held s) - {PageLk p}, caches := (caches s)(a \<mapsto> ?c),
      pgframe_pages := (pgframe_pages s)[p := (pgframe_pages s ! p)\<lparr>pgtype := PAGE_BUDDYALLOCATOR\<rparr>]\<rparr>"
      using un by (auto simp: set_type_def intro!: kmem.equality)
    have e2: "s\<lparr>held := insert (PageLk p) (held s), caches := (caches s)(a \<mapsto> ?c),
        pgframe_pages := (pgframe_pages s)[p := (pgframe_pages s ! p)\<lparr>pgtype := PAGE_BUDDYALLOCATOR\<rparr>],
        held := insert (PageLk p) (held s) - {PageLk p}\<rparr> = ?s2"
      unfolding e by (auto intro!: kmem.equality)
    then show ?thesis
      using Cons.prems(2) un hd v(1) by (simp add: cache_upd_def unlock_def)
  qed
  have kept: "slab_pages_kept (drop_cache a s) (drop_cache a v)"
    unfolding slab_pages_kept_def
  proof (intro allI impI)
    fix q l d assume h: "d \<in> ran (caches (drop_cache a s)) \<and> q \<in> set (all_pgs d) \<and> (q, l) \<in> mm_used (drop_cache a s) \<and>
      pgtype (pgframe_pages (drop_cache a s) ! q) = SLAB_ALLOCATOR"
    then obtain b where "caches s b = Some d" "b \<noteq> a" by (auto simp: ran_def split: if_splits)
    then have qp: "q \<noteq> p" using Cons.prems(5) h by auto
    have "q < length (pgframe_pages s)" using h headsD(2) by (auto simp: mm_used_def)
    then have "pgtype (pgframe_pages v ! q) = pgtype (pgframe_pages s ! q)"
      using owners_nth [OF mm_frameD(3) [OF v(3)], of q] owners_length [OF mm_frameD(3) [OF v(3)]] qp by simp
    then show "slabs (drop_cache a v) q = slabs (drop_cache a s) q \<and> (q, l) \<in> mm_used (drop_cache a v) \<and>
        pgtype (pgframe_pages (drop_cache a v) ! q) = SLAB_ALLOCATOR"
      using h qp mo(1) v(4) T(2) m1(2) by simp
  qed
  have cv: "caches v = (caches s)(a \<mapsto> ?c)" using mo(2) by simp
  have cd: "caches (drop_cache a v) = caches (drop_cache a s)" by (simp add: cv)
  have iv: "kmem_inv cfg (drop_cache a v)" "kmem_live (drop_cache a v) = kmem_live (drop_cache a s)"
    using caches_ok_kept [where cfg = cfg, OF kept _ cd] Cons.prems(1) v(2) by (simp_all add: kmem_inv_def)
  have mu: "mm_used v = mm_used s - {(p, k)}" using v(4) T(2) m1(2) by simp
  have np: "p \<notin> set ps" "distinct ps" using Cons.prems(3) by auto
  have cva: "caches v a = Some ?c" by (simp add: cv)
  have A: "\<forall>q \<in> set ps. (q, k) \<in> mm_used v" using Cons.prems(4) mu np(1) by auto
  have B: "\<forall>q \<in> set ps. \<forall>b d. b \<noteq> a \<and> caches v b = Some d \<longrightarrow> q \<notin> set (all_pgs d)" using Cons.prems(5) cv by auto
  from Cons.IH [OF iv(1) cva np(2) A B]
  obtain t c' where t: "cache_release cfg a ps v = Some t" "kmem_inv cfg (drop_cache a t)" "caches t = (caches v)(a \<mapsto> c')"
    "full_pgs c' = full_pgs ?c" "partial_pgs c' = partial_pgs ?c" "free_pgs c' = fold remove1 ps (free_pgs ?c)"
    "held t = held v" "mm_used t = mm_used v - {(q, k) | q. q \<in> set ps}"
    "free_pages t = free_pages v \<union> released k ps" "kmem_live (drop_cache a t) = kmem_live (drop_cache a v)"
    by blast
  have "held v = held s" using mm_frameD(1) [OF v(3)] by simp
  moreover have "mm_used t = mm_used s - {(q, k) | q. q \<in> set (p # ps)}" using t(8) mu by auto
  moreover have "free_pages t = free_pages s \<union> released k (p # ps)"
    using t(9) v(5) T(3) m1(3) by (auto simp: released_def)
  ultimately show ?case
    using st t iv(2) cv by (intro exI [of _ t] exI [of _ c']) simp
qed

subsection \<open>kmem_cache_init and kmem_cache_deinit\<close>

lemma fold_remove1_self: "distinct xs \<Longrightarrow> fold remove1 xs xs = []"
proof -
  have "fold remove1 xs (xs @ ys) = ys" if "distinct xs" for ys :: "'a list" using that by (induction xs) auto
  then show "distinct xs \<Longrightarrow> fold remove1 xs xs = []" by (metis append_Nil2)
qed

definition new_cache :: "u64 \<Rightarrow> int \<Rightarrow> int \<Rightarrow> int \<Rightarrow> kmem_cache" where
  "new_cache a objsz order limit = \<lparr>obj_num = 0, c_obj_size = objsz, pg_order = order, pg_orlimit = limit, pg_orhas = 0,
     color_offset = uint (a AND 0x7fffffff), free_pgs = [], full_pgs = [], partial_pgs = []\<rparr>"

definition with_cache :: "u64 \<Rightarrow> kmem_cache \<Rightarrow> 'a kmem_scheme \<Rightarrow> 'a kmem_scheme" where
  "with_cache a c s = s\<lparr>caches := (caches s)(a \<mapsto> c)\<rparr>"

lemma with_cache_sel [simp]:
  "mm_inv cfg (with_cache a c s) = mm_inv cfg s" "mm_used (with_cache a c s) = mm_used s" "free_pages (with_cache a c s) = free_pages s"
  "slabs (with_cache a c s) = slabs s" "pgframe_pages (with_cache a c s) = pgframe_pages s" "held (with_cache a c s) = held s"
  "caches (with_cache a c s) = (caches s)(a \<mapsto> c)"
  by (simp_all add: with_cache_def mm_inv_def buddy_inv_def mm_used_def free_pages_def mm_unlocked_def)

lemma with_new_cache_inv:
  assumes inv: "kmem_inv cfg s" and a: "a \<noteq> 0" "caches s a = None"
    and p: "0 < objsz" "0 \<le> order" "order < int (MAX_ORDER cfg)" "objsz < 2 ^ nat order * 4096"
  shows "kmem_inv cfg (with_cache a (new_cache a objsz order limit) s)"
    "kmem_live (with_cache a (new_cache a objsz order limit) s) = kmem_live s"
proof -
  let ?c = "new_cache a objsz order limit" and ?t = "with_cache a (new_cache a objsz order limit) s"
  note K = kmem_invD [OF inv]
  have kept: "slab_pages_kept s ?t" by (simp add: slab_pages_kept_def)
  have ot: "cache_ok cfg ?t d" "cache_live ?t d = cache_live s d" if "caches s b = Some d" for b d
    using cache_ok_kept [OF kept, of d cfg] K(3) [OF that] that by (auto simp: ran_def)
  have "cache_ok cfg ?t ?c" using p by (simp add: cache_ok_def new_cache_def all_pgs_def)
  then have "caches_ok cfg ?t"
    using a(1) K(3,4) ot(1) by (intro caches_ok_upd [of ?t s a ?c]) (auto simp: new_cache_def all_pgs_def)
  then show "kmem_inv cfg ?t" using K(1,2) by (simp add: kmem_inv_def)
  have cl: "cache_live ?t ?c = {}" by (simp add: cache_live_def new_cache_def all_pgs_def)
  show "kmem_live ?t = kmem_live s"
  proof -
    have "{d. \<exists>b. b \<noteq> a \<and> caches s b = Some d} = ran (caches s)" using a(2) by (auto simp: ran_def) (metis option.distinct(1))
    moreover have "cache_live ?t d = cache_live s d" if "d \<in> ran (caches s)" for d using that ot(2) by (auto simp: ran_def)
    ultimately show ?thesis
      using kmem_live_upd [of ?t s a ?c] cl by (simp add: kmem_live_def)
  qed
qed

text \<open>The pages the cache \<open>a\<close> has taken since state \<open>s\<close>, all on its free list.\<close>

definition cache_growing :: "pgfm_cfg \<Rightarrow> u64 \<Rightarrow> kmem_cache \<Rightarrow> 'a kmem_scheme \<Rightarrow> 'a kmem_scheme \<Rightarrow> kmem_cache \<Rightarrow> bool" where
  "cache_growing cfg a c s t d \<longleftrightarrow>
     kmem_inv cfg t \<and> caches t = (caches s)(a \<mapsto> d) \<and> full_pgs d = [] \<and> partial_pgs d = [] \<and>
     c_obj_size d = c_obj_size c \<and> pg_order d = pg_order c \<and> pg_orlimit d = pg_orlimit c \<and> held t = held s \<and>
     mm_used t = mm_used s \<union> {(p, nat (pg_order c)) | p. p \<in> set (free_pgs d)} \<and>
     (\<forall>p \<in> set (free_pgs d). \<forall>l. (p, l) \<notin> mm_used s) \<and>
     free_pages t \<union> released (nat (pg_order c)) (free_pgs d) = free_pages s \<and>
     kmem_live t = kmem_live s \<and> cache_live t d = {}"

lemma cache_init_loop_spec:
  assumes "cache_growing cfg a c s t d"
  shows "\<exists>ok u e. cache_init_loop cfg sp a n t = Some (ok, u) \<and> cache_growing cfg a c s u e \<and>
    (ok \<longrightarrow> length (free_pgs e) = length (free_pgs d) + n)"
  using assms
proof (induction n arbitrary: t d)
  case 0
  then show ?case by (intro exI [of _ True] exI [of _ t] exI [of _ d]) simp
next
  case (Suc n)
  let ?k = "nat (pg_order c)"
  have D: "kmem_inv cfg t" "caches t a = Some d" "pg_order d = pg_order c"
    using Suc.prems by (simp_all add: cache_growing_def)
  from cache_grow_spec [OF D(1,2), of sp]
  show ?case
  proof (elim disjE exE conjE)
    fix u assume u: "cache_grow cfg sp a t = Some (False, u)" "kmem_inv cfg u" "caches u = caches t" "slab_pages_kept t u"
      "held u = held t" "mm_used u = mm_used t" "free_pages u = free_pages t"
    have l: "kmem_live u = kmem_live t" using caches_ok_kept(2) [where cfg = cfg, OF u(4) _ u(3)] D(1) by (simp add: kmem_inv_def)
    have "cache_live u d = cache_live t d"
      using cache_ok_kept(3) [where cfg = cfg, OF u(4)] kmem_invD(3) [OF D(1,2)] D(2) by (auto simp: ran_def)
    then have "cache_growing cfg a c s u d" using Suc.prems u l by (simp add: cache_growing_def)
    then show ?thesis using u(1) by (intro exI [of _ False] exI [of _ u] exI [of _ d]) simp
  next
    fix u p sb assume u: "cache_grow cfg sp a t = Some (True, u)" "kmem_inv cfg u" "caches u = (caches t)(a \<mapsto> grown p sb d)"
      "held u = held t" "kmem_live u = kmem_live t" "cache_live u (grown p sb d) = cache_live t d"
      "mm_used u = insert (p, nat (pg_order d)) (mm_used t)" "\<forall>l. (p, l) \<notin> mm_used t"
      "{p..<p + 2 ^ nat (pg_order d)} \<subseteq> free_pages t" "free_pages u = free_pages t - {p..<p + 2 ^ nat (pg_order d)}"
    let ?e = "grown p sb d"
    have e: "free_pgs ?e = free_pgs d @ [p]" "full_pgs ?e = full_pgs d" "partial_pgs ?e = partial_pgs d" "c_obj_size ?e = c_obj_size d"
      "pg_order ?e = pg_order d" "pg_orlimit ?e = pg_orlimit d" by (simp_all add: grown_def)
    have fp: "free_pages u \<union> released ?k (free_pgs ?e) = free_pages s"
      using Suc.prems u(9,10) D(3) unfolding cache_growing_def e(1) by (auto simp: released_def)
    have "cache_growing cfg a c s u ?e"
      using Suc.prems u e D(3) fp unfolding cache_growing_def by auto
    then obtain ok v f where "cache_init_loop cfg sp a n u = Some (ok, v)" "cache_growing cfg a c s v f"
      "ok \<longrightarrow> length (free_pgs f) = length (free_pgs ?e) + n"
      using Suc.IH by blast
    then show ?thesis using u(1) e(1) by (intro exI [of _ ok] exI [of _ v] exI [of _ f]) simp
  qed
qed

lemma drop_cache_inv:
  assumes "kmem_inv cfg t"
  shows "kmem_inv cfg (drop_cache a t)"
proof -
  have "cache_ok cfg (drop_cache a t) e" if "cache_ok cfg t e" for e
    by (rule cache_ok_cong [OF that]) (auto simp: slab_of_def slab_page_def)
  then show ?thesis using assms unfolding kmem_inv_def caches_ok_def by (auto split: if_splits)
qed

lemma drop_cache_live:
  assumes "caches t a = Some d" "cache_live t d = {}"
  shows "kmem_live (drop_cache a t) = kmem_live t"
proof -
  have e: "cache_live (drop_cache a t) f = cache_live t f" for f by (simp add: cache_live_def slab_of_def)
  have "kmem_live (drop_cache a t) = (\<Union>f \<in> {f. \<exists>b. b \<noteq> a \<and> caches t b = Some f}. cache_live t f)"
    unfolding kmem_live_def e by (auto simp: ran_def split: if_splits)
  then show ?thesis using kmem_live_at [OF assms(1)] assms(2) by simp
qed

lemma growing_release:
  assumes g: "cache_growing cfg a c s t d" and n: "caches s a = None"
  shows "\<exists>u e. cache_release cfg a (free_pgs d) t = Some u \<and> caches u = (caches s)(a \<mapsto> e) \<and> kmem_inv cfg (drop_cache a u) \<and>
    held u = held s \<and> mm_used u = mm_used s \<and> free_pages u = free_pages s \<and> kmem_live (drop_cache a u) = kmem_live s"
proof -
  let ?k = "nat (pg_order c)"
  have D: "kmem_inv cfg t" "caches t = (caches s)(a \<mapsto> d)" "pg_order d = pg_order c" "held t = held s"
    "mm_used t = mm_used s \<union> {(p, ?k) | p. p \<in> set (free_pgs d)}" "\<And>p l. p \<in> set (free_pgs d) \<Longrightarrow> (p, l) \<notin> mm_used s"
    "free_pages t \<union> released ?k (free_pgs d) = free_pages s" "kmem_live t = kmem_live s" "cache_live t d = {}"
    using g by (auto simp: cache_growing_def)
  have ca: "caches t a = Some d" by (simp add: D(2))
  note K = kmem_invD [OF D(1)]
  have dist: "distinct (free_pgs d)" using cache_okD(1) K(3) [OF ca] by (auto simp: all_pgs_def)
  have inv: "kmem_inv cfg (drop_cache a t)" by (rule drop_cache_inv [OF D(1)])
  have lv: "kmem_live (drop_cache a t) = kmem_live s" using drop_cache_live [OF ca D(9)] D(8) by simp
  obtain u e where u: "cache_release cfg a (free_pgs d) t = Some u" "kmem_inv cfg (drop_cache a u)" "caches u = (caches t)(a \<mapsto> e)"
    "held u = held t" "mm_used u = mm_used t - {(p, ?k) | p. p \<in> set (free_pgs d)}"
    "free_pages u = free_pages t \<union> released ?k (free_pgs d)" "kmem_live (drop_cache a u) = kmem_live (drop_cache a t)"
  proof -
    have A: "\<forall>p \<in> set (free_pgs d). (p, ?k) \<in> mm_used t" using D(5) by auto
    have B: "\<forall>p \<in> set (free_pgs d). \<forall>b f. b \<noteq> a \<and> caches t b = Some f \<longrightarrow> p \<notin> set (all_pgs f)"
      using K(4) [OF ca] by (fastforce simp: all_pgs_def)
    from cache_release_spec [OF inv ca dist A B] show thesis using that by blast
  qed
  have "mm_used u = mm_used s" using u(5) D(5,6) by blast
  then show ?thesis using u D(2,4,7) lv by auto
qed

lemma init_slab_lock: "unlock (CacheLk a) s = s\<lparr>held := held s - {CacheLk a}\<rparr>"
  by (simp add: unlock_def)

lemma kmem_cache_init_spec:
  assumes inv: "kmem_inv cfg s" and a: "a \<noteq> 0" "caches s a = None"
    and p: "0 < objsz" "0 \<le> order" "order < int (MAX_ORDER cfg)" "objsz < 2 ^ nat order * 4096"
      "0 < limit" "0 \<le> cnt" "cnt \<le> limit"
  shows "(\<exists>t d. kmem_cache_init cfg sp a objsz order limit cnt s = Some (0, t) \<and> kmem_inv cfg t \<and> caches t = (caches s)(a \<mapsto> d) \<and>
      c_obj_size d = objsz \<and> pg_order d = order \<and> pg_orlimit d = limit \<and> pg_orhas d = cnt \<and> cache_live t d = {} \<and>
      kmem_live t = kmem_live s \<and> held t = held s - {CacheLk a}) \<or>
    (\<exists>t. kmem_cache_init cfg sp a objsz order limit cnt s = Some (- ENOMEM, t) \<and> kmem_inv cfg (drop_cache a t) \<and>
      mm_used t = mm_used s \<and> free_pages t = free_pages s \<and> kmem_live (drop_cache a t) = kmem_live s \<and>
      held t = held s - {CacheLk a})"
proof -
  let ?s = "s\<lparr>held := held s - {CacheLk a}\<rparr>" and ?c = "new_cache a objsz order limit"
  let ?t = "with_cache a ?c ?s"
  have inv': "kmem_inv cfg ?s" by (rule kmem_inv_cache_lock(1) [OF inv])
  have as: "caches ?s a = None" using a(2) by simp
  note N = with_new_cache_inv [OF inv' a(1) as p(1-4), of limit]
  have g: "cache_growing cfg a ?c ?s ?t ?c"
    using N by (simp add: cache_growing_def new_cache_def released_def cache_live_def all_pgs_def)
  obtain ok u d where u: "cache_init_loop cfg sp a (nat cnt) ?t = Some (ok, u)" "cache_growing cfg a ?c ?s u d"
    "ok \<longrightarrow> length (free_pgs d) = nat cnt"
    using cache_init_loop_spec [OF g, of sp "nat cnt"] by (auto simp: new_cache_def)
  have op: "kmem_cache_init cfg sp a objsz order limit cnt s =
    (if ok then Some (0, u) else do { c \<leftarrow> caches u a; t \<leftarrow> cache_release cfg a (free_pgs c) u; Some (- ENOMEM, t) })"
    using p a u(1) by (auto simp: kmem_cache_init_def with_cache_def new_cache_def init_slab_lock Let_def)
  have U: "kmem_inv cfg u" "caches u = (caches ?s)(a \<mapsto> d)" "full_pgs d = []" "partial_pgs d = []" "kmem_live u = kmem_live ?s"
    "cache_live u d = {}" "held u = held ?s" "c_obj_size d = objsz" "pg_order d = order" "pg_orlimit d = limit"
    using u(2) by (auto simp: cache_growing_def new_cache_def)
  show ?thesis
  proof (cases ok)
    case True
    have "pg_orhas d = int (length (all_pgs d))" using kmem_invD(3) [OF U(1), of a d] U(2) by (simp add: cache_ok_def)
    then have "pg_orhas d = cnt" using True u(3) U(3,4) p(6) by (simp add: all_pgs_def)
    then show ?thesis using op True U by auto
  next
    case False
    obtain v e where v: "cache_release cfg a (free_pgs d) u = Some v" "kmem_inv cfg (drop_cache a v)" "held v = held ?s"
      "mm_used v = mm_used ?s" "free_pages v = free_pages ?s" "kmem_live (drop_cache a v) = kmem_live ?s"
      using growing_release [OF u(2) as] by blast
    have "kmem_cache_init cfg sp a objsz order limit cnt s = Some (- ENOMEM, v)" using op False U(2) v(1) by simp
    then show ?thesis using v by (simp add: mm_used_def free_pages_def)
  qed
qed

lemma slab_busy_live:
  assumes f: "slab_ok sb fl" and b: "obj_free sb < obj_all sb"
  shows "slab_live sb \<noteq> {}"
proof -
  have "length fl < length (mem_index sb)" using f b by (simp add: slab_ok_def slab_geom_def)
  then have "card (set fl) < card {..<length (mem_index sb)}" using card_length [of fl] by simp
  then have "\<not> {..<length (mem_index sb)} \<subseteq> set fl" using card_mono [of "set fl" "{..<length (mem_index sb)}"] by auto
  then show ?thesis unfolding slab_live_ok [OF f] by blast
qed

text \<open>A cache with no object handed out has all its pages on the free list.\<close>

lemma no_live_all_free:
  assumes inv: "kmem_inv cfg s" and c: "caches s a = Some c" "cache_live s c = {}"
  shows "full_pgs c = []" "partial_pgs c = []"
proof -
  have idle: "p \<notin> set (full_pgs c) \<and> p \<notin> set (partial_pgs c)" for p
  proof (rule ccontr)
    assume p: "\<not> ?thesis"
    then have pa: "p \<in> set (all_pgs c)" by (auto simp: all_pgs_def)
    obtain fl where f: "slab_ok (slab_of s p) fl" using slab_page_facts(6) [OF inv c(1) pa] by blast
    have "0 < obj_all (slab_of s p)" using slab_okD(1) [OF f] unfolding slab_geom_def by blast
    moreover have "lists_ok s c" using kmem_invD(3) [OF inv c(1)] cache_okD(3) by blast
    ultimately have "obj_free (slab_of s p) < obj_all (slab_of s p)" using p by (auto simp: lists_ok_def)
    then have "slab_live (slab_of s p) \<noteq> {}" by (rule slab_busy_live [OF f])
    then show False using pa c(2) by (auto simp: cache_live_def)
  qed
  show "full_pgs c = []" using idle by (cases "full_pgs c") auto
  show "partial_pgs c = []" using idle by (cases "partial_pgs c") auto
qed

lemma kmem_cache_deinit_spec:
  assumes inv: "kmem_inv cfg s" and c: "caches s a = Some c" "cache_live s c = {}" and lk: "CacheLk a \<notin> held s"
  shows "\<exists>t. kmem_cache_deinit cfg a s = Some t \<and> kmem_inv cfg (drop_cache a t) \<and>
    mm_used t = mm_used s - {(p, nat (pg_order c)) | p. p \<in> set (all_pgs c)} \<and>
    free_pages t = free_pages s \<union> released (nat (pg_order c)) (all_pgs c) \<and>
    kmem_live (drop_cache a t) = kmem_live s \<and> held t = insert (CacheLk a) (held s)"
proof -
  let ?s = "s\<lparr>held := insert (CacheLk a) (held s)\<rparr>" and ?k = "nat (pg_order c)"
  have inv': "kmem_inv cfg ?s" by (rule kmem_inv_cache_lock(2) [OF inv])
  have c': "caches ?s a = Some c" using c by simp
  note K = kmem_invD [OF inv']
  have ok: "cache_ok cfg ?s c" and a0: "a \<noteq> 0" using K(3) [OF c'] by simp_all
  have cl': "cache_live ?s c = {}" using c(2) by (simp add: cache_live_def slab_of_def)
  have lists: "full_pgs c = []" "partial_pgs c = []" using no_live_all_free [OF inv' c' cl'] .
  then have fa: "all_pgs c = free_pgs c" by (simp add: all_pgs_def)
  have inv0: "kmem_inv cfg (drop_cache a ?s)" by (rule drop_cache_inv [OF inv'])
  have lv: "kmem_live (drop_cache a ?s) = kmem_live s"
    using drop_cache_live [OF c' cl'] by (simp add: kmem_live_def cache_live_def slab_of_def)
  obtain u e where u: "cache_release cfg a (free_pgs c) ?s = Some u" "kmem_inv cfg (drop_cache a u)" "caches u = (caches ?s)(a \<mapsto> e)"
    "held u = held ?s" "mm_used u = mm_used ?s - {(p, ?k) | p. p \<in> set (free_pgs c)}"
    "free_pages u = free_pages ?s \<union> released ?k (free_pgs c)" "kmem_live (drop_cache a u) = kmem_live (drop_cache a ?s)"
  proof -
    have dist: "distinct (free_pgs c)" using cache_okD(1) [OF ok] fa by simp
    have A: "\<forall>p \<in> set (free_pgs c). (p, ?k) \<in> mm_used ?s" using slab_page_facts(5) [OF inv' c'] fa by simp
    have B: "\<forall>p \<in> set (free_pgs c). \<forall>b f. b \<noteq> a \<and> caches ?s b = Some f \<longrightarrow> p \<notin> set (all_pgs f)"
    proof (intro ballI allI impI)
      fix p b f assume p: "p \<in> set (free_pgs c)" "b \<noteq> a \<and> caches ?s b = Some f"
      then show "p \<notin> set (all_pgs f)" using K(4) [OF c', of b f] unfolding fa by blast
    qed
    from cache_release_spec [OF inv0 c' dist A B] show thesis using that by blast
  qed
  let ?t = "u\<lparr>caches := (caches u)(a \<mapsto> e\<lparr>obj_num := 0\<rparr>)\<rparr>"
  have hu: "u\<lparr>held := held u - {CacheLk a}, caches := (caches u)(a \<mapsto> e\<lparr>obj_num := 0\<rparr>),
      held := insert (CacheLk a) (held u - {CacheLk a})\<rparr> = ?t"
    using u(4) by (auto intro!: kmem.equality)
  have "kmem_cache_deinit cfg a s = Some ?t"
    using a0 lk c(1) lists u(1,3) hu by (simp add: kmem_cache_deinit_def init_slab_lock cache_upd_def)
  moreover have "drop_cache a ?t = drop_cache a u" by (simp add: drop_cache_def)
  moreover have "mm_used ?t = mm_used u" "free_pages ?t = free_pages u" "mm_used ?s = mm_used s" "free_pages ?s = free_pages s"
    by (simp_all add: mm_used_def free_pages_def)
  ultimately show ?thesis using u lv fa by (intro exI [of _ ?t]) simp
qed

end
