(* ===== verification/KmemContract.thy ===== *)
theory KmemContract
  imports KmemOps "HOL-Library.Multiset"
begin

unbundle bit_operations_syntax

text \<open>
  What the object caches promise their callers: the interface as a locale, its discharge for the
  functions of \<^verbatim>\<open>module/mm/kmem_cache/slab.c\<close>, and the properties of the component.
\<close>

subsection \<open>The interface\<close>

text \<open>Clients that take \<open>n\<close> objects in a row, and give a list of objects back.\<close>

fun alloc_many :: "('s \<Rightarrow> (u64 \<times> 's) option) \<Rightarrow> nat \<Rightarrow> 's \<Rightarrow> (u64 list \<times> 's) option" where
  "alloc_many alloc 0 s = Some ([], s)"
| "alloc_many alloc (Suc n) s = do {
     (r, s) \<leftarrow> alloc s;
     if r = 0 then Some ([], s)
     else do {
       (rs, s) \<leftarrow> alloc_many alloc n s;
       Some (r # rs, s) } }"

fun free_many :: "(u64 \<Rightarrow> 's \<Rightarrow> 's option) \<Rightarrow> u64 list \<Rightarrow> 's \<Rightarrow> 's option" where
  "free_many free [] s = Some s"
| "free_many free (x # xs) s = do { s \<leftarrow> free x s; free_many free xs s }"

locale object_cache =
  fixes inv :: "'s \<Rightarrow> bool"
    and live :: "'s \<Rightarrow> u64 set"
    and alloc :: "'s \<Rightarrow> (u64 \<times> 's) option"
    and free :: "u64 \<Rightarrow> 's \<Rightarrow> 's option"
  assumes alloc_law: "inv s \<Longrightarrow> \<exists>r t. alloc s = Some (r, t) \<and> inv t \<and>
      (if r = 0 then live t = live s else r \<notin> live s \<and> live t = insert r (live s))"
    and free_law: "inv s \<Longrightarrow> x \<in> live s \<Longrightarrow> \<exists>t. free x s = Some t \<and> inv t \<and> live t = live s - {x}"
    and reject_law: "inv s \<Longrightarrow> x \<notin> live s \<Longrightarrow> free x s = None \<or> free x s = Some s"
begin

lemma alloc_many_spec:
  "inv s \<Longrightarrow> \<exists>rs t. alloc_many alloc n s = Some (rs, t) \<and> inv t \<and> length rs \<le> n \<and> distinct rs \<and>
     set rs \<inter> live s = {} \<and> live t = set rs \<union> live s"
proof (induction n arbitrary: s)
  case (Suc n)
  obtain r u where u: "alloc s = Some (r, u)" "inv u"
    "if r = 0 then live u = live s else r \<notin> live s \<and> live u = insert r (live s)"
    using alloc_law [OF Suc.prems] by blast
  show ?case
  proof (cases "r = 0")
    case True
    then show ?thesis using u by simp
  next
    case False
    obtain rs t where t: "alloc_many alloc n u = Some (rs, t)" "inv t" "length rs \<le> n" "distinct rs"
      "set rs \<inter> live u = {}" "live t = set rs \<union> live u"
      using Suc.IH [OF u(2)] by blast
    then show ?thesis using u False by (intro exI [of _ "r # rs"] exI [of _ t]) auto
  qed
qed simp

lemma free_many_spec:
  "inv s \<Longrightarrow> set xs \<subseteq> live s \<Longrightarrow> distinct xs \<Longrightarrow>
     \<exists>t. free_many free xs s = Some t \<and> inv t \<and> live t = live s - set xs"
proof (induction xs arbitrary: s)
  case (Cons x xs)
  obtain u where u: "free x s = Some u" "inv u" "live u = live s - {x}"
    using free_law [OF Cons.prems(1), of x] Cons.prems(2) by auto
  obtain t where "free_many free xs u = Some t" "inv t" "live t = live u - set xs"
    using Cons.IH [OF u(2)] Cons.prems(2,3) u(3) by auto
  then show ?case using u by (intro exI [of _ t]) auto
qed simp

text \<open>Objects taken in a row may be given back in any order; a second release changes nothing.\<close>

lemma alloc_free_many:
  assumes "inv s"
  shows "\<exists>rs t. alloc_many alloc n s = Some (rs, t) \<and> distinct rs \<and> set rs \<inter> live s = {} \<and>
    (\<forall>xs. mset xs = mset rs \<longrightarrow> (\<exists>u. free_many free xs t = Some u \<and> inv u \<and> live u = live s \<and>
       (\<forall>x \<in> set xs. free x u = None \<or> free x u = Some u)))"
proof -
  obtain rs t where t: "alloc_many alloc n s = Some (rs, t)" "inv t" "distinct rs" "set rs \<inter> live s = {}"
    "live t = set rs \<union> live s"
    using alloc_many_spec [OF assms] by blast
  have "\<exists>u. free_many free xs t = Some u \<and> inv u \<and> live u = live s \<and> (\<forall>x \<in> set xs. free x u = None \<or> free x u = Some u)"
    if m: "mset xs = mset rs" for xs
  proof -
    have xs: "set xs = set rs" "distinct xs"
      using m t(3) mset_eq_setD mset_eq_imp_distinct_iff by blast+
    obtain u where u: "free_many free xs t = Some u" "inv u" "live u = live t - set xs"
      using free_many_spec [OF t(2), of xs] xs t(5) by auto
    then have "live u = live s" using t(4,5) xs(1) by blast
    then show ?thesis using u reject_law [OF u(2)] t(4) xs(1) by blast
  qed
  then show ?thesis using t by blast
qed

end

subsection \<open>The caches of slab.c provide it\<close>

definition cache_ready :: "pgfm_cfg \<Rightarrow> u64 \<Rightarrow> 'a kmem_scheme \<Rightarrow> bool" where
  "cache_ready cfg a s \<longleftrightarrow> kmem_inv cfg s \<and> CacheLk a \<notin> held s \<and> a \<in> dom (caches s)"

definition live_at :: "u64 \<Rightarrow> 'a kmem_scheme \<Rightarrow> u64 set" where
  "live_at a s = (case caches s a of None \<Rightarrow> {} | Some c \<Rightarrow> cache_live s c)"

lemma cache_readyE:
  assumes "cache_ready cfg a s"
  obtains c where "kmem_inv cfg s" "CacheLk a \<notin> held s" "caches s a = Some c" "live_at a s = cache_live s c"
  using assms by (auto simp: cache_ready_def live_at_def)

interpretation kc: object_cache "cache_ready cfg a" "live_at a" "kmem_obj_alloc cfg sp a" "kmem_obj_free cfg a"
  for cfg sp a
proof (unfold_locales, goal_cases)
  case (1 s)
  then obtain c where c: "kmem_inv cfg s" "CacheLk a \<notin> held s" "caches s a = Some c" "live_at a s = cache_live s c"
    by (rule cache_readyE)
  obtain r t where t: "kmem_obj_alloc cfg sp a s = Some (r, t)" "kmem_inv cfg t" "held t = held s"
    "if r = 0 then obj_num c = 0 \<and> caches t = caches s \<and> kmem_live t = kmem_live s \<and> cache_live t c = cache_live s c \<and>
       mm_used t = mm_used s \<and> free_pages t = free_pages s
     else r \<notin> kmem_live s \<and> kmem_live t = insert r (kmem_live s) \<and>
       (\<exists>c'. caches t a = Some c' \<and> cache_live t c' = insert r (cache_live s c))"
    using kmem_obj_alloc_spec [OF c(1,3,2), of sp] by blast
  show ?case
  proof (cases "r = 0")
    case True
    then show ?thesis using t c by (auto simp: cache_ready_def live_at_def)
  next
    case False
    have "cache_live s c \<subseteq> kmem_live s" using c(3) by (auto simp: kmem_live_def ran_def)
    then show ?thesis using t c False by (auto simp: cache_ready_def live_at_def)
  qed
next
  case (2 s x)
  then obtain c where c: "kmem_inv cfg s" "CacheLk a \<notin> held s" "caches s a = Some c" "live_at a s = cache_live s c"
    by (auto elim: cache_readyE)
  then show ?case
    using kmem_obj_free_live [OF c(1,3,2), of x] 2 by (auto simp: obj_step_def cache_ready_def live_at_def)
next
  case (3 s x)
  then obtain c where c: "kmem_inv cfg s" "CacheLk a \<notin> held s" "caches s a = Some c" "live_at a s = cache_live s c"
    by (auto elim: cache_readyE)
  then show ?case using kmem_obj_free_bad [OF c(1,3,2), of x] 3 by simp
qed

subsection \<open>A concrete state\<close>

text \<open>
  The two-page range of \<open>demo_used\<close> with page 0 made a slab of two objects of 2000 bytes, the first
  of them handed out, in a cache at address \<open>0x5000\<close>.
\<close>

definition demo_slab :: slab where
  "demo_slab = \<lparr>obj_all = 2, obj_free = 1, obj_size = 2000, mem_free_head = 1, mem_free_tail = 1,
     mem_index = [- 1, 1], mem_obj_start = 0x3000000030\<rparr>"

definition demo_cache :: kmem_cache where
  "demo_cache = \<lparr>obj_num = 1, c_obj_size = 2000, pg_order = 0, pg_orlimit = 1, pg_orhas = 1,
     color_offset = 0, free_pgs = [], full_pgs = [], partial_pgs = [0]\<rparr>"

definition demo_kmem :: kmem where
  "demo_kmem = mm.extend (set_type 0 SLAB_ALLOCATOR demo_used)
     \<lparr>slabs = [0 \<mapsto> demo_slab], caches = [0x5000 \<mapsto> demo_cache]\<rparr>"

lemma demo_kmem_sel [simp]:
  "held demo_kmem = {}" "slabs demo_kmem = [0 \<mapsto> demo_slab]" "caches demo_kmem = [0x5000 \<mapsto> demo_cache]"
  "pgframe_pages demo_kmem = pgframe_pages (set_type 0 SLAB_ALLOCATOR demo_used)"
  "order_pools demo_kmem = order_pools (set_type 0 SLAB_ALLOCATOR demo_used)"
  by (simp_all add: demo_kmem_def mm.defs set_type_def demo_used_def)

lemma demo_kmem_mm: "mm_inv demo_cfg demo_kmem" "(0, 0) \<in> mm_used demo_kmem"
  using set_type_inv [OF demo_used_inv demo_used_head(1), of SLAB_ALLOCATOR] demo_used_head(1)
  by (simp_all add: mm_inv_def buddy_inv_def mm_unlocked_def mm_used_def)

lemma demo_slab_ok: "slab_ok demo_slab [1]"
proof -
  have "slab_geom demo_slab" by (simp add: slab_geom_def demo_slab_def)
  then show ?thesis by (auto simp: slab_ok_def demo_slab_def less_Suc_eq)
qed

lemma demo_kmem_inv: "kmem_inv demo_cfg demo_kmem"
proof -
  have va: "pg2va demo_cfg 0 = 0x3000000000" by (simp add: pg2va_def id2va_def pg2id_def demo_cfg_def)
  have "pgtype (pgframe_pages demo_kmem ! 0) = SLAB_ALLOCATOR" by (simp add: set_type_def demo_used_def)
  then have "slab_page demo_cfg demo_kmem 0 2000 0"
    using demo_kmem_mm(2) demo_slab_ok unfolding slab_page_def slab_in_block_def va
    by (auto simp: demo_slab_def)
  then have "cache_ok demo_cfg demo_kmem demo_cache"
    by (simp add: cache_ok_def all_pgs_def demo_cache_def slab_of_def demo_slab_def)
  then show ?thesis
    using demo_kmem_mm(1) by (auto simp: kmem_inv_def caches_ok_def split: if_splits)
qed

lemma demo_kmem_ready: "cache_ready demo_cfg 0x5000 demo_kmem" "caches demo_kmem 0x5000 = Some demo_cache"
  "CacheLk 0x5000 \<notin> held demo_kmem"
  by (simp_all add: cache_ready_def demo_kmem_inv)

lemma demo_kmem_live: "cache_live demo_kmem demo_cache = {0x3000000030}" "live_at 0x5000 demo_kmem = {0x3000000030}"
proof -
  have "slab_live demo_slab = {0x3000000030}"
  proof -
    have "{i. i < length (mem_index demo_slab) \<and> i \<notin> set [1]} = {0}" by (auto simp: demo_slab_def)
    then have "slab_live demo_slab = slab_obj demo_slab ` {0}" unfolding slab_live_ok [OF demo_slab_ok] by blast
    then show ?thesis by (simp add: demo_slab_def slab_obj_def)
  qed
  then show "cache_live demo_kmem demo_cache = {0x3000000030}" "live_at 0x5000 demo_kmem = {0x3000000030}"
    by (simp_all add: cache_live_def live_at_def all_pgs_def demo_cache_def slab_of_def)
qed

subsection \<open>Where live objects lie\<close>

lemma slab_objs_apart:
  assumes g: "slab_geom sb" and i: "i < length (mem_index sb)" and j: "j < length (mem_index sb)" and ne: "i \<noteq> j"
  shows "{uint (slab_obj sb i)..<uint (slab_obj sb i) + obj_size sb} \<inter> {uint (slab_obj sb j)..<uint (slab_obj sb j) + obj_size sb} = {}"
proof -
  have sz: "0 < obj_size sb" using g unfolding slab_geom_def by blast
  have step: "obj_size sb * int k + obj_size sb \<le> obj_size sb * int l" if "k < l" for k l
    using mult_left_mono [of "int k + 1" "int l" "obj_size sb"] that sz by (simp add: algebra_simps)
  have "obj_size sb * int i + obj_size sb \<le> obj_size sb * int j \<or> obj_size sb * int j + obj_size sb \<le> obj_size sb * int i"
    using ne step by (meson linorder_neqE_nat)
  then show ?thesis unfolding uint_slab_obj [OF g i] uint_slab_obj [OF g j] by auto
qed

lemma live_object_block:
  assumes mm: "mm_inv cfg s" and ok: "cache_ok cfg s c" and x: "x \<in> cache_live s c"
  shows "\<exists>p i. p \<in> set (all_pgs c) \<and> (p, nat (pg_order c)) \<in> mm_used s \<and> pgtype (pgframe_pages s ! p) = SLAB_ALLOCATOR \<and>
    x = slab_obj (slab_of s p) i \<and> i < length (mem_index (slab_of s p)) \<and> slab_geom (slab_of s p) \<and>
    obj_size (slab_of s p) = c_obj_size c \<and>
    {uint x..<uint x + c_obj_size c} \<subseteq> {uint (pg2va cfg p) + 40..<uint (pg2va cfg p) + 2 ^ nat (pg_order c) * 4096}"
proof -
  obtain p i where p: "p \<in> set (all_pgs c)" "(p, nat (pg_order c)) \<in> mm_used s" "x = slab_obj (slab_of s p) i"
    "i < length (mem_index (slab_of s p))" "mem_index (slab_of s p) ! i = - 1"
    by (rule cache_live_block [OF mm ok x])
  note sp = cache_okD(2) [OF ok p(1)]
  obtain fl where f: "slab_ok (slab_of s p) fl" "obj_size (slab_of s p) = c_obj_size c"
    "slab_in_block cfg p (nat (pg_order c)) (slab_of s p)"
    by (rule slab_pageD [OF sp])
  note g = slab_okD(1) [OF f(1)] and b = slab_obj_in_block [OF slab_okD(1) [OF f(1)] f(3) p(4)]
  have "{uint x..<uint x + c_obj_size c} \<subseteq> {uint (pg2va cfg p) + 40..<uint (pg2va cfg p) + 2 ^ nat (pg_order c) * 4096}"
    using b unfolding p(3) f(2) [symmetric] by auto
  moreover have "pgtype (pgframe_pages s ! p) = SLAB_ALLOCATOR" using sp by (simp add: slab_page_def)
  ultimately show ?thesis using p g f(2) by blast
qed

text \<open>The converse of \<open>no_live_all_free\<close>.\<close>

lemma live_not_all_free:
  assumes inv: "kmem_inv cfg s" and c: "caches s a = Some c" and l: "full_pgs c = [] \<and> partial_pgs c = []"
  shows "cache_live s c = {}"
proof -
  have "slab_live (slab_of s p) = {}" if p: "p \<in> set (all_pgs c)" for p
  proof -
    obtain fl where f: "slab_ok (slab_of s p) fl" using slab_page_facts(6) [OF inv c p] by blast
    have "lists_ok s c" using kmem_invD(3) [OF inv c] cache_okD(3) by blast
    then have "obj_free (slab_of s p) = obj_all (slab_of s p)" using p l by (simp add: lists_ok_def all_pgs_def)
    then have n: "length fl = length (mem_index (slab_of s p))" using f by (simp add: slab_ok_def slab_geom_def)
    have "distinct fl" "set fl \<subseteq> {..<length (mem_index (slab_of s p))}" using f by (auto simp: slab_ok_def)
    then have "set fl = {..<length (mem_index (slab_of s p))}" using n card_subset_eq distinct_card
      by (metis card_lessThan finite_lessThan)
    then show ?thesis unfolding slab_live_ok [OF f] by auto
  qed
  then show ?thesis by (simp add: cache_live_def)
qed

subsection \<open>Properties of the object caches\<close>

text \<open>
  C4: \<^verbatim>\<open>kmem_obj_alloc\<close> on a cache that is not locked always returns. A non-NULL result is an
  object that no cache had handed out, and exactly it joins the live objects; NULL is returned
  only when the cache has no free object, and then no cache, no live object and no page has changed. The
  invariant (slab chains, counters, page lists, buddy allocator) holds again and the lock is
  released.
\<close>

theorem kmem_obj_alloc_correct:
  assumes "kmem_inv cfg s" "caches s a = Some c" "CacheLk a \<notin> held s"
  shows "\<exists>r t. kmem_obj_alloc cfg sp a s = Some (r, t) \<and> kmem_inv cfg t \<and> held t = held s \<and>
    (if r = 0 then obj_num c = 0 \<and> caches t = caches s \<and> kmem_live t = kmem_live s \<and> mm_used t = mm_used s \<and>
       free_pages t = free_pages s
     else r \<notin> kmem_live s \<and> kmem_live t = insert r (kmem_live s) \<and> live_at a t = insert r (live_at a s))"
proof -
  obtain r t where "kmem_obj_alloc cfg sp a s = Some (r, t)" "kmem_inv cfg t" "held t = held s"
    "if r = 0 then obj_num c = 0 \<and> caches t = caches s \<and> kmem_live t = kmem_live s \<and> cache_live t c = cache_live s c \<and>
       mm_used t = mm_used s \<and> free_pages t = free_pages s
     else r \<notin> kmem_live s \<and> kmem_live t = insert r (kmem_live s) \<and>
       (\<exists>c'. caches t a = Some c' \<and> cache_live t c' = insert r (cache_live s c))"
    using kmem_obj_alloc_spec [OF assms, of sp] by blast
  then show ?thesis using assms(2) by (intro exI [of _ r] exI [of _ t]) (auto simp: live_at_def split: if_splits)
qed

theorem kmem_obj_alloc_correct_witness:
  "\<exists>r t. kmem_obj_alloc demo_cfg 0x8000 0x5000 demo_kmem = Some (r, t) \<and> r \<noteq> 0 \<and>
     live_at 0x5000 t = {r, 0x3000000030}"
  using kmem_obj_alloc_correct [OF demo_kmem_inv demo_kmem_ready(2,3), of "0x8000"] demo_kmem_live(2)
  by (auto simp: demo_cache_def split: if_splits)

text \<open>
  C10: \<^verbatim>\<open>kmem_obj_free\<close> of a live object always succeeds: exactly that object leaves the live
  objects, no page and no other cache changes, the object counter grows by one. An address that is
  not a live object of the cache (an address inside an object, a second release) never changes
  the state: the call stops at an assertion or returns with everything as it was.
\<close>

theorem kmem_obj_free_correct:
  assumes "kmem_inv cfg s" "caches s a = Some c" "CacheLk a \<notin> held s"
  shows "if x \<in> cache_live s c
    then \<exists>t c'. kmem_obj_free cfg a x s = Some t \<and> kmem_inv cfg t \<and> held t = held s \<and> mm_used t = mm_used s \<and>
      free_pages t = free_pages s \<and> caches t = (caches s)(a \<mapsto> c') \<and> obj_num c' = obj_num c + 1 \<and>
      cache_live t c' = cache_live s c - {x} \<and>
      (\<forall>b d. b \<noteq> a \<and> caches s b = Some d \<longrightarrow> cache_live t d = cache_live s d)
    else kmem_obj_free cfg a x s = None \<or> kmem_obj_free cfg a x s = Some s"
proof (cases "x \<in> cache_live s c")
  case True
  obtain t where t: "kmem_obj_free cfg a x s = Some t" "held t = held s" "obj_step cfg a c (cache_live s c - {x}) 1 s t"
    using kmem_obj_free_live [OF assms True] by blast
  then show ?thesis using True unfolding obj_step_def by (auto intro!: exI [of _ t])
next
  case False
  then show ?thesis using kmem_obj_free_bad [OF assms False] by simp
qed

theorem kmem_obj_free_correct_witness:
  "(\<exists>t c'. kmem_obj_free demo_cfg 0x5000 0x3000000030 demo_kmem = Some t \<and> caches t 0x5000 = Some c' \<and> cache_live t c' = {}) \<and>
   (kmem_obj_free demo_cfg 0x5000 0x3000000031 demo_kmem = None \<or>
    kmem_obj_free demo_cfg 0x5000 0x3000000031 demo_kmem = Some demo_kmem)"
  using kmem_obj_free_correct [OF demo_kmem_inv demo_kmem_ready(2,3), of "0x3000000030"]
    kmem_obj_free_correct [OF demo_kmem_inv demo_kmem_ready(2,3), of "0x3000000031"]
  by (auto simp: demo_kmem_live)

text \<open>
  C23: Live objects never overlap, neither inside a slab nor across slabs and caches, and none
  touches the slab header or leaves its block of pages, which is in use in the buddy allocator.
\<close>

theorem kmem_objects_disjoint:
  assumes "kmem_inv cfg s" "caches s a = Some c" "caches s b = Some d" "x \<in> cache_live s c" "y \<in> cache_live s d"
    "x \<noteq> y \<or> a \<noteq> b"
  shows "{uint x..<uint x + c_obj_size c} \<inter> {uint y..<uint y + c_obj_size d} = {} \<and>
    (\<exists>p k. (p, k) \<in> mm_used s \<and> pgtype (pgframe_pages s ! p) = SLAB_ALLOCATOR \<and>
       {uint x..<uint x + c_obj_size c} \<subseteq> {uint (pg2va cfg p) + sizeof_slab..<uint (pg2va cfg p) + 2 ^ k * 4096})"
proof -
  note K = kmem_invD [OF assms(1)]
  have "cache_ok cfg s c" "cache_ok cfg s d" using K(3) assms(2,3) by blast+
  from live_object_block [OF K(1) this(1) assms(4)] live_object_block [OF K(1) this(2) assms(5)]
  obtain p i q j where p: "p \<in> set (all_pgs c)" "(p, nat (pg_order c)) \<in> mm_used s" "pgtype (pgframe_pages s ! p) = SLAB_ALLOCATOR"
      "x = slab_obj (slab_of s p) i" "i < length (mem_index (slab_of s p))" "slab_geom (slab_of s p)" "obj_size (slab_of s p) = c_obj_size c"
      "{uint x..<uint x + c_obj_size c} \<subseteq> {uint (pg2va cfg p) + 40..<uint (pg2va cfg p) + 2 ^ nat (pg_order c) * 4096}"
    and q: "q \<in> set (all_pgs d)" "(q, nat (pg_order d)) \<in> mm_used s"
      "y = slab_obj (slab_of s q) j" "j < length (mem_index (slab_of s q))" "slab_geom (slab_of s q)" "obj_size (slab_of s q) = c_obj_size d"
      "{uint y..<uint y + c_obj_size d} \<subseteq> {uint (pg2va cfg q) + 40..<uint (pg2va cfg q) + 2 ^ nat (pg_order d) * 4096}"
    by metis
  have "{uint x..<uint x + c_obj_size c} \<inter> {uint y..<uint y + c_obj_size d} = {}"
  proof (cases "p = q")
    case True
    then have "a = b" using K(4) [OF assms(2,3)] p(1) q(1) by blast
    then have "x \<noteq> y" using assms(6) by simp
    then have "i \<noteq> j" using p(4) q(3) True by blast
    then show ?thesis using slab_objs_apart [OF p(6,5), of j] q p(7) True unfolding p(4) q(3) by simp
  next
    case False
    have "z \<notin> {uint y..<uint y + c_obj_size d}" if "z \<in> {uint x..<uint x + c_obj_size c}" for z
      using used_blocks_apart [OF K(1) p(2) q(2) False, of z] subsetD [OF p(8) that] subsetD [OF q(7), of z] by fastforce
    then show ?thesis by blast
  qed
  then show ?thesis using p(2,3,8) unfolding sizeof_slab_def by blast
qed

theorem kmem_objects_disjoint_witness:
  "\<exists>(s :: kmem) c r. kmem_inv demo_cfg s \<and> caches s 0x5000 = Some c \<and> cache_live s c = {r, 0x3000000030} \<and> r \<noteq> 0x3000000030 \<and>
     {uint r..<uint r + c_obj_size c} \<inter> {0x3000000030..<0x3000000030 + c_obj_size c} = {}"
proof -
  have "obj_num demo_cache \<noteq> 0" by (simp add: demo_cache_def)
  then obtain r c and t :: kmem where t: "kmem_inv demo_cfg t" "r \<notin> kmem_live demo_kmem" "caches t 0x5000 = Some c"
    "cache_live t c = {r, 0x3000000030}"
    using kmem_obj_alloc_spec [OF demo_kmem_inv demo_kmem_ready(2,3), of "0x8000"] demo_kmem_live(1)
    by (auto split: if_splits)
  have "kmem_live demo_kmem = {0x3000000030}" using demo_kmem_live(1) by (simp add: kmem_live_def)
  then have "r \<noteq> 0x3000000030" using t(2) by simp
  then show ?thesis
    using kmem_objects_disjoint [OF t(1,3,3), of r "0x3000000030"] t
    by (intro exI [of _ t] exI [of _ c] exI [of _ r]) simp
qed

text \<open>
  C24: Every client that takes \<open>n\<close> objects from a cache gets distinct objects that were not live,
  and may give them back in any order: every release succeeds, the live objects are again those
  of the start, and releasing one of them once more never changes the state.
\<close>

theorem kmem_alloc_free_roundtrip:
  assumes "cache_ready cfg a s"
  shows "\<exists>rs t. alloc_many (kmem_obj_alloc cfg sp a) n s = Some (rs, t) \<and> distinct rs \<and> set rs \<inter> live_at a s = {} \<and>
    (\<forall>xs. mset xs = mset rs \<longrightarrow> (\<exists>u. free_many (kmem_obj_free cfg a) xs t = Some u \<and> cache_ready cfg a u \<and>
       live_at a u = live_at a s \<and>
       (\<forall>x \<in> set xs. kmem_obj_free cfg a x u = None \<or> kmem_obj_free cfg a x u = Some u)))"
  by (rule kc.alloc_free_many [OF assms])

theorem kmem_alloc_free_roundtrip_witness:
  "\<exists>rs t. alloc_many (kmem_obj_alloc demo_cfg 0x8000 0x5000) 2 demo_kmem = Some (rs, t) \<and> distinct rs \<and>
     0x3000000030 \<notin> set rs \<and> (\<exists>u. free_many (kmem_obj_free demo_cfg 0x5000) (rev rs) t = Some u \<and> live_at 0x5000 u = {0x3000000030})"
proof -
  obtain rs t where t: "alloc_many (kmem_obj_alloc demo_cfg 0x8000 0x5000) 2 demo_kmem = Some (rs, t)" "distinct rs"
    "set rs \<inter> live_at 0x5000 demo_kmem = {}"
    "\<forall>xs. mset xs = mset rs \<longrightarrow> (\<exists>u. free_many (kmem_obj_free demo_cfg 0x5000) xs t = Some u \<and> cache_ready demo_cfg 0x5000 u \<and>
       live_at 0x5000 u = live_at 0x5000 demo_kmem \<and>
       (\<forall>x \<in> set xs. kmem_obj_free demo_cfg 0x5000 x u = None \<or> kmem_obj_free demo_cfg 0x5000 x u = Some u))"
    using kmem_alloc_free_roundtrip [OF demo_kmem_ready(1), of "0x8000" 2] by blast
  obtain u where "free_many (kmem_obj_free demo_cfg 0x5000) (rev rs) t = Some u" "live_at 0x5000 u = live_at 0x5000 demo_kmem"
    using t(4) [rule_format, of "rev rs"] by auto
  then show ?thesis using t(1-3) demo_kmem_live(2) by auto
qed

text \<open>
  C25: \<^verbatim>\<open>kmem_cache_init\<close> with arguments it accepts, on a fresh address, always returns. On success (0) there is a new
  cache with the requested geometry and number of slabs and no live object; when memory runs out
  (\<^verbatim>\<open>-ENOMEM\<close>) every block it took is given back: the blocks in use and the free pages are
  those from before the call. Arguments it rejects leave the state alone.
\<close>

theorem kmem_cache_init_correct:
  assumes "kmem_inv cfg s" "caches s a = None"
  shows "if a = 0 \<or> objsz \<le> 0 \<or> order < 0 \<or> int (MAX_ORDER cfg) \<le> order \<or> limit \<le> 0 \<or> cnt < 0 \<or> limit < cnt \<or>
      2 ^ nat order * 4096 \<le> objsz
    then kmem_cache_init cfg sp a objsz order limit cnt s = Some (- EFAULT, s)
    else (\<exists>t d. kmem_cache_init cfg sp a objsz order limit cnt s = Some (0, t) \<and> kmem_inv cfg t \<and>
        caches t = (caches s)(a \<mapsto> d) \<and> c_obj_size d = objsz \<and> pg_order d = order \<and> pg_orlimit d = limit \<and>
        pg_orhas d = cnt \<and> cache_live t d = {} \<and> kmem_live t = kmem_live s \<and> held t = held s - {CacheLk a}) \<or>
      (\<exists>t. kmem_cache_init cfg sp a objsz order limit cnt s = Some (- ENOMEM, t) \<and> kmem_inv cfg (drop_cache a t) \<and>
        mm_used t = mm_used s \<and> free_pages t = free_pages s \<and> kmem_live (drop_cache a t) = kmem_live s \<and>
        held t = held s - {CacheLk a})"
proof (cases "a = 0 \<or> objsz \<le> 0 \<or> order < 0 \<or> int (MAX_ORDER cfg) \<le> order \<or> limit \<le> 0 \<or> cnt < 0 \<or> limit < cnt \<or>
    2 ^ nat order * 4096 \<le> objsz")
  case True
  then show ?thesis by (auto simp: kmem_cache_init_def)
next
  case False
  then have "a \<noteq> 0" "0 < objsz" "0 \<le> order" "order < int (MAX_ORDER cfg)" "objsz < 2 ^ nat order * 4096"
    "0 < limit" "0 \<le> cnt" "cnt \<le> limit" by linarith+
  from kmem_cache_init_spec [OF assms(1) this(1) assms(2) this(2-8), of sp]
  show ?thesis unfolding if_not_P [OF False] .
qed

theorem kmem_cache_init_correct_witness:
  "(\<exists>t d. kmem_cache_init demo_cfg 0x8000 0x6000 64 0 2 1 demo_kmem = Some (0, t) \<and> caches t 0x6000 = Some d \<and> pg_orhas d = 1) \<or>
   (\<exists>t. kmem_cache_init demo_cfg 0x8000 0x6000 64 0 2 1 demo_kmem = Some (- ENOMEM, t) \<and> mm_used t = mm_used demo_kmem)"
  using kmem_cache_init_correct [OF demo_kmem_inv, of "0x6000" 64 0 2 1 "0x8000"] by auto

text \<open>
  C26: \<^verbatim>\<open>kmem_cache_deinit\<close> of a cache without live objects always returns and gives every page of the
  cache back to the buddy allocator; the other caches and their objects stay. The lock word of
  the cache is left at 0, the value of a held lock. With a live object left it stops at its assertion.
\<close>

theorem kmem_cache_deinit_correct:
  assumes "kmem_inv cfg s" "caches s a = Some c" "CacheLk a \<notin> held s"
  shows "if cache_live s c = {}
    then \<exists>t. kmem_cache_deinit cfg a s = Some t \<and> kmem_inv cfg (drop_cache a t) \<and>
      mm_used t = mm_used s - {(p, nat (pg_order c)) | p. p \<in> set (all_pgs c)} \<and>
      free_pages t = free_pages s \<union> released (nat (pg_order c)) (all_pgs c) \<and>
      kmem_live (drop_cache a t) = kmem_live s \<and> held t = insert (CacheLk a) (held s)
    else kmem_cache_deinit cfg a s = None"
proof (cases "cache_live s c = {}")
  case True
  then show ?thesis using kmem_cache_deinit_spec [OF assms(1,2) True assms(3)] by simp
next
  case False
  have "\<not> (full_pgs c = [] \<and> partial_pgs c = [])" using live_not_all_free [OF assms(1,2)] False by blast
  moreover have "a \<noteq> 0" using kmem_invD(3) [OF assms(1,2)] by simp
  ultimately have "kmem_cache_deinit cfg a s = None" using assms(2,3) by (auto simp: kmem_cache_deinit_def ASSERT_def)
  then show ?thesis using False by simp
qed

theorem kmem_cache_deinit_correct_witness:
  "kmem_cache_deinit demo_cfg 0x5000 demo_kmem = None \<and>
   (\<exists>(s :: kmem) c t. caches s 0x5000 = Some c \<and> all_pgs c \<noteq> [] \<and> kmem_cache_deinit demo_cfg 0x5000 s = Some t \<and>
      free_pages t = free_pages s \<union> released (nat (pg_order c)) (all_pgs c))"
proof -
  obtain s :: kmem where s: "held s = {}" "obj_step demo_cfg 0x5000 demo_cache {} 1 demo_kmem s"
    using kmem_obj_free_live [OF demo_kmem_inv demo_kmem_ready(2,3), of "0x3000000030"] demo_kmem_live(1) by auto
  from s(2) obtain c where c: "kmem_inv demo_cfg s" "caches s 0x5000 = Some c" "pages_kept demo_cache c" "cache_live s c = {}"
    unfolding obj_step_def by (metis fun_upd_same)
  have "0 \<in> set (all_pgs demo_cache)" by (simp add: all_pgs_def demo_cache_def)
  moreover have "set (all_pgs c) = set (all_pgs demo_cache)" using c(3) unfolding pages_kept_def by blast
  ultimately have "all_pgs c \<noteq> []" by force
  moreover obtain t where "kmem_cache_deinit demo_cfg 0x5000 s = Some t" "free_pages t = free_pages s \<union> released (nat (pg_order c)) (all_pgs c)"
    using kmem_cache_deinit_correct [OF c(1,2)] s(1) c(4) by auto
  moreover have "kmem_cache_deinit demo_cfg 0x5000 demo_kmem = None"
    using kmem_cache_deinit_correct [OF demo_kmem_inv demo_kmem_ready(2,3)] by (simp add: demo_kmem_live)
  ultimately show ?thesis using c(2) by blast
qed

end
