(* ===== verification/Avl.thy ===== *)
theory Avl
  imports Prelude
begin

text \<open>
  The AVL tree of \<^verbatim>\<open>lib/dstructer/avlmini.c\<close> and \<^verbatim>\<open>include/aco/avlmini.h\<close> at the level of
  its pointers. A node is found by its address in the heap \<open>anodes\<close>; \<open>aroot\<close> is the field
  \<^verbatim>\<open>node\<close> of the \<^verbatim>\<open>struct avl_root\<close> a function is given. Reading or writing through a pointer
  to no node (NULL included) has no result.
\<close>

subsection \<open>State\<close>

record avl_node =
  left :: u64
  right :: u64
  parent :: u64
  height :: int

type_synonym aheap = "u64 \<rightharpoonup> avl_node"

record avl =
  anodes :: aheap
  aroot :: u64

definition aget :: "u64 \<Rightarrow> avl \<Rightarrow> avl_node option" where
  "aget p s = anodes s p"

definition aupd :: "u64 \<Rightarrow> (avl_node \<Rightarrow> avl_node) \<Rightarrow> avl \<Rightarrow> avl option" where
  "aupd p f s = do { n \<leftarrow> anodes s p; Some (s\<lparr>anodes := (anodes s)(p \<mapsto> f n)\<rparr>) }"

text \<open>\<^verbatim>\<open>avl_node_init\<close> makes a node empty: its own parent.\<close>

definition avl_node_init :: "u64 \<Rightarrow> avl \<Rightarrow> avl option" where
  "avl_node_init node s = aupd node (\<lambda>n. n\<lparr>parent := node\<rparr>) s"

definition avl_node_empty :: "u64 \<Rightarrow> avl \<Rightarrow> bool option" where
  "avl_node_empty node s = do { n \<leftarrow> aget node s; Some (parent n = node) }"

definition AVL_LEFT_HEIGHT :: "u64 \<Rightarrow> avl \<Rightarrow> int option" where
  "AVL_LEFT_HEIGHT node s = do {
     n \<leftarrow> aget node s;
     if left n \<noteq> 0 then do { l \<leftarrow> aget (left n) s; Some (height l) } else Some 0 }"

definition AVL_RIGHT_HEIGHT :: "u64 \<Rightarrow> avl \<Rightarrow> int option" where
  "AVL_RIGHT_HEIGHT node s = do {
     n \<leftarrow> aget node s;
     if right n \<noteq> 0 then do { r \<leftarrow> aget (right n) s; Some (height r) } else Some 0 }"

text \<open>\<^verbatim>\<open>if (child) child->parent = parent\<close>.\<close>

definition set_parent :: "u64 \<Rightarrow> u64 \<Rightarrow> avl \<Rightarrow> avl option" where
  "set_parent child par s = (if child \<noteq> 0 then aupd child (\<lambda>n. n\<lparr>parent := par\<rparr>) s else Some s)"

subsection \<open>Walking the tree\<close>

partial_function (option) sink_left :: "u64 \<Rightarrow> avl \<Rightarrow> u64 option" where
  "sink_left node s = do {
     n \<leftarrow> aget node s;
     if left n \<noteq> 0 then sink_left (left n) s else Some node }"

partial_function (option) sink_right :: "u64 \<Rightarrow> avl \<Rightarrow> u64 option" where
  "sink_right node s = do {
     n \<leftarrow> aget node s;
     if right n \<noteq> 0 then sink_right (right n) s else Some node }"

definition avl_node_first :: "avl \<Rightarrow> u64 option" where
  "avl_node_first s = (if aroot s = 0 then Some 0 else sink_left (aroot s) s)"

definition avl_node_last :: "avl \<Rightarrow> u64 option" where
  "avl_node_last s = (if aroot s = 0 then Some 0 else sink_right (aroot s) s)"

text \<open>The loops \<^verbatim>\<open>while (1)\<close> that climb until they come from a left (right) child.\<close>

partial_function (option) climb_next :: "u64 \<Rightarrow> avl \<Rightarrow> u64 option" where
  "climb_next node s = do {
     n \<leftarrow> aget node s;
     let up = parent n;
     if up = 0 then Some 0
     else do { u \<leftarrow> aget up s; if left u = node then Some up else climb_next up s } }"

partial_function (option) climb_prev :: "u64 \<Rightarrow> avl \<Rightarrow> u64 option" where
  "climb_prev node s = do {
     n \<leftarrow> aget node s;
     let up = parent n;
     if up = 0 then Some 0
     else do { u \<leftarrow> aget up s; if right u = node then Some up else climb_prev up s } }"

definition avl_node_next :: "u64 \<Rightarrow> avl \<Rightarrow> u64 option" where
  "avl_node_next node s =
     (if node = 0 then Some 0
      else do { n \<leftarrow> aget node s; if right n \<noteq> 0 then sink_left (right n) s else climb_next node s })"

definition avl_node_prev :: "u64 \<Rightarrow> avl \<Rightarrow> u64 option" where
  "avl_node_prev node s =
     (if node = 0 then Some 0
      else do { n \<leftarrow> aget node s; if left n \<noteq> 0 then sink_right (left n) s else climb_prev node s })"

subsection \<open>Rotations\<close>

definition avl_child_replace :: "u64 \<Rightarrow> u64 \<Rightarrow> u64 \<Rightarrow> avl \<Rightarrow> avl option" where
  "avl_child_replace oldnode newnode par s =
     (if par \<noteq> 0 then do {
        p \<leftarrow> aget par s;
        if left p = oldnode then aupd par (\<lambda>n. n\<lparr>left := newnode\<rparr>) s
        else aupd par (\<lambda>n. n\<lparr>right := newnode\<rparr>) s }
      else Some (s\<lparr>aroot := newnode\<rparr>))"

definition avl_node_rotate_left :: "u64 \<Rightarrow> avl \<Rightarrow> (u64 \<times> avl) option" where
  "avl_node_rotate_left node s = do {
     n \<leftarrow> aget node s;
     let rt = right n;
     let par = parent n;
     r \<leftarrow> aget rt s;
     s \<leftarrow> aupd node (\<lambda>n. n\<lparr>right := left r\<rparr>) s;
     ASSERT (node \<noteq> 0 \<and> rt \<noteq> 0);
     r \<leftarrow> aget rt s;
     s \<leftarrow> set_parent (left r) node s;
     s \<leftarrow> aupd rt (\<lambda>n. n\<lparr>left := node\<rparr>) s;
     s \<leftarrow> aupd rt (\<lambda>n. n\<lparr>parent := par\<rparr>) s;
     s \<leftarrow> avl_child_replace node rt par s;
     s \<leftarrow> aupd node (\<lambda>n. n\<lparr>parent := rt\<rparr>) s;
     Some (rt, s) }"

definition avl_node_rotate_right :: "u64 \<Rightarrow> avl \<Rightarrow> (u64 \<times> avl) option" where
  "avl_node_rotate_right node s = do {
     n \<leftarrow> aget node s;
     let lt = left n;
     let par = parent n;
     l \<leftarrow> aget lt s;
     s \<leftarrow> aupd node (\<lambda>n. n\<lparr>left := right l\<rparr>) s;
     ASSERT (node \<noteq> 0 \<and> lt \<noteq> 0);
     l \<leftarrow> aget lt s;
     s \<leftarrow> set_parent (right l) node s;
     s \<leftarrow> aupd lt (\<lambda>n. n\<lparr>right := node\<rparr>) s;
     s \<leftarrow> aupd lt (\<lambda>n. n\<lparr>parent := par\<rparr>) s;
     s \<leftarrow> avl_child_replace node lt par s;
     s \<leftarrow> aupd node (\<lambda>n. n\<lparr>parent := lt\<rparr>) s;
     Some (lt, s) }"

definition avl_node_replace :: "u64 \<Rightarrow> u64 \<Rightarrow> avl \<Rightarrow> avl option" where
  "avl_node_replace victim newnode s = do {
     v \<leftarrow> aget victim s;
     s \<leftarrow> avl_child_replace victim newnode (parent v) s;
     v \<leftarrow> aget victim s;
     s \<leftarrow> set_parent (left v) newnode s;
     v \<leftarrow> aget victim s;
     s \<leftarrow> set_parent (right v) newnode s;
     v \<leftarrow> aget victim s;
     aupd newnode (\<lambda>n. n\<lparr>left := left v, right := right v, parent := parent v, height := height v\<rparr>) s }"

subsection \<open>Balancing\<close>

definition AVL_MAX :: "int \<Rightarrow> int \<Rightarrow> int" where
  "AVL_MAX x y = (if x < y then y else x)"

definition avl_node_height_update :: "u64 \<Rightarrow> avl \<Rightarrow> avl option" where
  "avl_node_height_update node s = do {
     h0 \<leftarrow> AVL_LEFT_HEIGHT node s;
     h1 \<leftarrow> AVL_RIGHT_HEIGHT node s;
     aupd node (\<lambda>n. n\<lparr>height := AVL_MAX h0 h1 + 1\<rparr>) s }"

definition avl_node_fix_l :: "u64 \<Rightarrow> avl \<Rightarrow> (u64 \<times> avl) option" where
  "avl_node_fix_l node s = do {
     n \<leftarrow> aget node s;
     let rt = right n;
     ASSERT (rt \<noteq> 0);
     rh0 \<leftarrow> AVL_LEFT_HEIGHT rt s;
     rh1 \<leftarrow> AVL_RIGHT_HEIGHT rt s;
     s \<leftarrow> (if rh0 > rh1 then do {
         (rt, s) \<leftarrow> avl_node_rotate_right rt s;
         r \<leftarrow> aget rt s;
         s \<leftarrow> avl_node_height_update (right r) s;
         avl_node_height_update rt s }
       else Some s);
     (node, s) \<leftarrow> avl_node_rotate_left node s;
     n \<leftarrow> aget node s;
     s \<leftarrow> avl_node_height_update (left n) s;
     s \<leftarrow> avl_node_height_update node s;
     Some (node, s) }"

definition avl_node_fix_r :: "u64 \<Rightarrow> avl \<Rightarrow> (u64 \<times> avl) option" where
  "avl_node_fix_r node s = do {
     n \<leftarrow> aget node s;
     let lt = left n;
     ASSERT (lt \<noteq> 0);
     rh0 \<leftarrow> AVL_LEFT_HEIGHT lt s;
     rh1 \<leftarrow> AVL_RIGHT_HEIGHT lt s;
     s \<leftarrow> (if rh0 < rh1 then do {
         (lt, s) \<leftarrow> avl_node_rotate_left lt s;
         l \<leftarrow> aget lt s;
         s \<leftarrow> avl_node_height_update (left l) s;
         avl_node_height_update lt s }
       else Some s);
     (node, s) \<leftarrow> avl_node_rotate_right node s;
     n \<leftarrow> aget node s;
     s \<leftarrow> avl_node_height_update (right n) s;
     s \<leftarrow> avl_node_height_update node s;
     Some (node, s) }"

text \<open>One of the two repairs, when the difference of the heights asks for it.\<close>

definition avl_fix :: "int \<Rightarrow> u64 \<Rightarrow> avl \<Rightarrow> (u64 \<times> avl) option" where
  "avl_fix diff node s =
     (if diff \<le> - 2 then avl_node_fix_l node s
      else if diff \<ge> 2 then avl_node_fix_r node s
      else Some (node, s))"

partial_function (option) avl_node_rebalance :: "u64 \<Rightarrow> avl \<Rightarrow> avl option" where
  "avl_node_rebalance node s =
     (if node = 0 then Some s
      else do {
        h0 \<leftarrow> AVL_LEFT_HEIGHT node s;
        h1 \<leftarrow> AVL_RIGHT_HEIGHT node s;
        let diff = h0 - h1;
        let hgt = AVL_MAX h0 h1 + 1;
        n \<leftarrow> aget node s;
        if height n = hgt \<and> diff \<ge> - 1 \<and> diff \<le> 1 then Some s
        else do {
          s \<leftarrow> (if height n \<noteq> hgt then aupd node (\<lambda>n. n\<lparr>height := hgt\<rparr>) s else Some s);
          (node, s) \<leftarrow> avl_fix diff node s;
          n \<leftarrow> aget node s;
          avl_node_rebalance (parent n) s } })"

partial_function (option) post_insert_loop :: "u64 \<Rightarrow> avl \<Rightarrow> avl option" where
  "post_insert_loop node s =
     (if node = 0 then Some s
      else do {
        h0 \<leftarrow> AVL_LEFT_HEIGHT node s;
        h1 \<leftarrow> AVL_RIGHT_HEIGHT node s;
        let hgt = AVL_MAX h0 h1 + 1;
        let diff = h0 - h1;
        n \<leftarrow> aget node s;
        if height n = hgt then Some s
        else do {
          s \<leftarrow> aupd node (\<lambda>n. n\<lparr>height := hgt\<rparr>) s;
          (node, s) \<leftarrow> avl_fix diff node s;
          n \<leftarrow> aget node s;
          post_insert_loop (parent n) s } })"

definition avl_node_post_insert :: "u64 \<Rightarrow> avl \<Rightarrow> avl option" where
  "avl_node_post_insert node s = do {
     s \<leftarrow> aupd node (\<lambda>n. n\<lparr>height := 1\<rparr>) s;
     n \<leftarrow> aget node s;
     post_insert_loop (parent n) s }"

definition avl_node_erase :: "u64 \<Rightarrow> avl \<Rightarrow> avl option" where
  "avl_node_erase node s = do {
     ASSERT (node \<noteq> 0);
     n \<leftarrow> aget node s;
     (par, s) \<leftarrow> (if left n \<noteq> 0 \<and> right n \<noteq> 0 then do {
         let old = node;
         node \<leftarrow> sink_left (right n) s;
         n \<leftarrow> aget node s;
         let child = right n;
         let par = parent n;
         s \<leftarrow> set_parent child par s;
         s \<leftarrow> avl_child_replace node child par s;
         n \<leftarrow> aget node s;
         let par = (if parent n = old then node else par);
         ol \<leftarrow> aget old s;
         s \<leftarrow> aupd node (\<lambda>n. n\<lparr>left := left ol, right := right ol, parent := parent ol, height := height ol\<rparr>) s;
         ol \<leftarrow> aget old s;
         s \<leftarrow> avl_child_replace old node (parent ol) s;
         ol \<leftarrow> aget old s;
         ASSERT (left ol \<noteq> 0);
         s \<leftarrow> aupd (left ol) (\<lambda>n. n\<lparr>parent := node\<rparr>) s;
         ol \<leftarrow> aget old s;
         s \<leftarrow> set_parent (right ol) node s;
         Some (par, s) }
       else do {
         let child = (if left n = 0 then right n else left n);
         let par = parent n;
         s \<leftarrow> avl_child_replace node child par s;
         s \<leftarrow> set_parent child par s;
         Some (par, s) });
     if par \<noteq> 0 then avl_node_rebalance par s else Some s }"

subsection \<open>Tearing a tree down\<close>

partial_function (option) sink_leaf :: "u64 \<Rightarrow> avl \<Rightarrow> u64 option" where
  "sink_leaf node s = do {
     n \<leftarrow> aget node s;
     if left n \<noteq> 0 then sink_leaf (left n) s
     else if right n \<noteq> 0 then sink_leaf (right n) s
     else Some node }"

text \<open>The node torn off, the new value of \<^verbatim>\<open>*next\<close> and the state.\<close>

definition avl_node_tear :: "u64 \<Rightarrow> avl \<Rightarrow> (u64 \<times> u64 \<times> avl) option" where
  "avl_node_tear nxt s =
     (let node = (if nxt = 0 then aroot s else nxt) in
      if node = 0 then Some (0, nxt, s)
      else do {
        node \<leftarrow> sink_leaf node s;
        n \<leftarrow> aget node s;
        let par = parent n;
        if par = 0 then Some (node, 0, s\<lparr>aroot := 0\<rparr>)
        else do {
          p \<leftarrow> aget par s;
          s \<leftarrow> (if left p = node then aupd par (\<lambda>n. n\<lparr>left := 0\<rparr>) s else aupd par (\<lambda>n. n\<lparr>right := 0\<rparr>) s);
          s \<leftarrow> aupd node (\<lambda>n. n\<lparr>height := 0\<rparr>) s;
          Some (node, par, s) } })"

subsection \<open>Search and insertion\<close>

text \<open>
  The comparison function of the macros is an argument; it reads the caller's data and may fail
  to, hence the option.
\<close>

partial_function (option) avl_find_loop :: "(u64 \<Rightarrow> int option) \<Rightarrow> u64 \<Rightarrow> avl \<Rightarrow> u64 option" where
  "avl_find_loop cmp n s =
     (if n = 0 then Some 0
      else do {
        hr \<leftarrow> cmp n;
        if hr = 0 then Some n
        else do {
          nd \<leftarrow> aget n s;
          if hr < 0 then avl_find_loop cmp (left nd) s else avl_find_loop cmp (right nd) s } })"

definition avl_node_find :: "(u64 \<Rightarrow> int option) \<Rightarrow> avl \<Rightarrow> u64 option" where
  "avl_node_find cmp s = avl_find_loop cmp (aroot s) s"

text \<open>\<^verbatim>\<open>struct avl_node **link\<close>: the root pointer or a child pointer of a node.\<close>

datatype alink = RootLink | LeftLink u64 | RightLink u64

definition link_get :: "alink \<Rightarrow> avl \<Rightarrow> u64 option" where
  "link_get l s = (case l of RootLink \<Rightarrow> Some (aroot s)
     | LeftLink p \<Rightarrow> map_option left (aget p s) | RightLink p \<Rightarrow> map_option right (aget p s))"

definition link_set :: "alink \<Rightarrow> u64 \<Rightarrow> avl \<Rightarrow> avl option" where
  "link_set l v s = (case l of RootLink \<Rightarrow> Some (s\<lparr>aroot := v\<rparr>)
     | LeftLink p \<Rightarrow> aupd p (\<lambda>n. n\<lparr>left := v\<rparr>) s | RightLink p \<Rightarrow> aupd p (\<lambda>n. n\<lparr>right := v\<rparr>) s)"

definition avl_node_link :: "u64 \<Rightarrow> u64 \<Rightarrow> alink \<Rightarrow> avl \<Rightarrow> avl option" where
  "avl_node_link node par lnk s = do {
     s \<leftarrow> aupd node (\<lambda>n. n\<lparr>parent := par, height := 0, left := 0, right := 0\<rparr>) s;
     link_set lnk node s }"

text \<open>The descent: the node that compares equal (0 when there is none), the parent and the link.\<close>

partial_function (option) avl_add_loop :: "(u64 \<Rightarrow> int option) \<Rightarrow> u64 \<Rightarrow> alink \<Rightarrow> avl \<Rightarrow> (u64 \<times> u64 \<times> alink) option" where
  "avl_add_loop cmp par lnk s = do {
     n \<leftarrow> link_get lnk s;
     if n = 0 then Some (0, par, lnk)
     else do {
       hr \<leftarrow> cmp n;
       if hr = 0 then Some (n, n, lnk)
       else if hr < 0 then avl_add_loop cmp n (LeftLink n) s
       else avl_add_loop cmp n (RightLink n) s } }"

text \<open>The duplicate node, 0 when the new node has been inserted.\<close>

definition avl_node_add :: "u64 \<Rightarrow> (u64 \<Rightarrow> int option) \<Rightarrow> avl \<Rightarrow> (u64 \<times> avl) option" where
  "avl_node_add newnode cmp s = do {
     (dup, par, lnk) \<leftarrow> avl_add_loop cmp 0 RootLink s;
     if dup = 0 then do {
       s \<leftarrow> avl_node_link newnode par lnk s;
       s \<leftarrow> avl_node_post_insert newnode s;
       Some (0, s) }
     else Some (dup, s) }"

subsection \<open>The easy interface\<close>

record avl_tree =
  root :: avl
  offset :: u64
  t_size :: u64
  t_count :: u64

type_synonym avl_compare = "u64 \<Rightarrow> u64 \<Rightarrow> int option"

definition AVL_NODE2DATA :: "u64 \<Rightarrow> u64 \<Rightarrow> u64" where
  "AVL_NODE2DATA n o' = n - o'"

definition AVL_DATA2NODE :: "u64 \<Rightarrow> u64 \<Rightarrow> u64" where
  "AVL_DATA2NODE d o' = d + o'"

text \<open>A node of the tree as the caller's data, NULL staying NULL.\<close>

definition node_data :: "avl_tree \<Rightarrow> u64 \<Rightarrow> u64" where
  "node_data tree node = (if node = 0 then 0 else AVL_NODE2DATA node (offset tree))"

definition avl_tree_init :: "u64 \<Rightarrow> u64 \<Rightarrow> avl_tree \<Rightarrow> avl_tree" where
  "avl_tree_init sz off tree =
     tree\<lparr>root := (root tree)\<lparr>aroot := 0\<rparr>, offset := off, t_size := sz, t_count := 0\<rparr>"

definition avl_tree_first :: "avl_tree \<Rightarrow> u64 option" where
  "avl_tree_first tree = do { node \<leftarrow> avl_node_first (root tree); Some (node_data tree node) }"

definition avl_tree_last :: "avl_tree \<Rightarrow> u64 option" where
  "avl_tree_last tree = do { node \<leftarrow> avl_node_last (root tree); Some (node_data tree node) }"

definition avl_tree_next :: "avl_tree \<Rightarrow> u64 \<Rightarrow> u64 option" where
  "avl_tree_next tree data =
     (if data = 0 then Some 0
      else do { nn \<leftarrow> avl_node_next (AVL_DATA2NODE data (offset tree)) (root tree); Some (node_data tree nn) })"

definition avl_tree_prev :: "avl_tree \<Rightarrow> u64 \<Rightarrow> u64 option" where
  "avl_tree_prev tree data =
     (if data = 0 then Some 0
      else do { nn \<leftarrow> avl_node_prev (AVL_DATA2NODE data (offset tree)) (root tree); Some (node_data tree nn) })"

definition avl_tree_find :: "avl_compare \<Rightarrow> avl_tree \<Rightarrow> u64 \<Rightarrow> u64 option" where
  "avl_tree_find compare tree data = do {
     n \<leftarrow> avl_node_find (\<lambda>n. compare data (AVL_NODE2DATA n (offset tree))) (root tree);
     Some (node_data tree n) }"

partial_function (option) avl_nearest_loop :: "(u64 \<Rightarrow> int option) \<Rightarrow> u64 \<Rightarrow> u64 \<Rightarrow> avl \<Rightarrow> u64 option" where
  "avl_nearest_loop cmp p n s =
     (if n = 0 then Some p
      else do {
        hr \<leftarrow> cmp n;
        if hr = 0 then Some n
        else do {
          nd \<leftarrow> aget n s;
          if hr < 0 then avl_nearest_loop cmp n (left nd) s else avl_nearest_loop cmp n (right nd) s } })"

definition avl_tree_nearest :: "avl_compare \<Rightarrow> avl_tree \<Rightarrow> u64 \<Rightarrow> u64 option" where
  "avl_tree_nearest compare tree data = do {
     n \<leftarrow> avl_nearest_loop (\<lambda>n. compare data (AVL_NODE2DATA n (offset tree))) 0 (aroot (root tree)) (root tree);
     Some (node_data tree n) }"

definition avl_tree_add :: "avl_compare \<Rightarrow> avl_tree \<Rightarrow> u64 \<Rightarrow> (u64 \<times> avl_tree) option" where
  "avl_tree_add compare tree data = do {
     (dup, s) \<leftarrow> avl_node_add (AVL_DATA2NODE data (offset tree))
        (\<lambda>n. compare data (AVL_NODE2DATA n (offset tree))) (root tree);
     if dup = 0 then Some (0, tree\<lparr>root := s, t_count := t_count tree + 1\<rparr>)
     else Some (AVL_NODE2DATA dup (offset tree), tree) }"

definition avl_tree_remove :: "avl_tree \<Rightarrow> u64 \<Rightarrow> avl_tree option" where
  "avl_tree_remove tree data = do {
     let node = AVL_DATA2NODE data (offset tree);
     empty \<leftarrow> avl_node_empty node (root tree);
     if \<not> empty then do {
       s \<leftarrow> avl_node_erase node (root tree);
       s \<leftarrow> aupd node (\<lambda>n. n\<lparr>parent := node\<rparr>) s;
       Some (tree\<lparr>root := s, t_count := t_count tree - 1\<rparr>) }
     else Some tree }"

definition avl_tree_replace :: "avl_tree \<Rightarrow> u64 \<Rightarrow> u64 \<Rightarrow> avl_tree option" where
  "avl_tree_replace tree victim newdata = do {
     let vicnode = AVL_DATA2NODE victim (offset tree);
     let newnode = AVL_DATA2NODE newdata (offset tree);
     s \<leftarrow> avl_node_replace vicnode newnode (root tree);
     s \<leftarrow> aupd vicnode (\<lambda>n. n\<lparr>parent := vicnode\<rparr>) s;
     Some (tree\<lparr>root := s\<rparr>) }"

text \<open>The loop of \<^verbatim>\<open>avl_tree_clear\<close>, with the data handed to \<^verbatim>\<open>destroy\<close> in order.\<close>

partial_function (option) avl_clear_loop :: "u64 \<Rightarrow> u64 list \<Rightarrow> avl_tree \<Rightarrow> (u64 list \<times> avl_tree) option" where
  "avl_clear_loop nxt ds tree = do {
     (node, nxt, s) \<leftarrow> avl_node_tear nxt (root tree);
     if node = 0 then Some (ds, tree\<lparr>root := s\<rparr>)
     else do {
       s \<leftarrow> aupd node (\<lambda>n. n\<lparr>parent := node\<rparr>) s;
       avl_clear_loop nxt (ds @ [AVL_NODE2DATA node (offset tree)]) (tree\<lparr>root := s, t_count := t_count tree - 1\<rparr>) } }"

definition avl_tree_clear :: "avl_tree \<Rightarrow> (u64 list \<times> avl_tree) option" where
  "avl_tree_clear tree = do {
     (ds, tree) \<leftarrow> avl_clear_loop 0 [] tree;
     ASSERT (t_count tree = 0);
     Some (ds, tree) }"

end
