(* ===== verification/AvlTree.thy ===== *)
theory AvlTree
  imports Prelude
begin

text \<open>
  Trees as values, against which the pointer code of \<^verbatim>\<open>avlmini.c\<close> is verified: every node
  carries its address and the height stored in it. A tree with a hole is the list of the nodes
  on the way up (\<open>ctx\<close>, innermost first), the shape in which the balancing loops see it.
\<close>

subsection \<open>Trees and contexts\<close>

datatype atree = Tip | Bin atree u64 int atree

fun hgt :: "atree \<Rightarrow> int" where
  "hgt Tip = 0"
| "hgt (Bin l a k r) = k"

fun ptr :: "atree \<Rightarrow> u64" where
  "ptr Tip = 0"
| "ptr (Bin l a k r) = a"

fun inord :: "atree \<Rightarrow> u64 list" where
  "inord Tip = []"
| "inord (Bin l a k r) = inord l @ a # inord r"

fun avl_ok :: "atree \<Rightarrow> bool" where
  "avl_ok Tip \<longleftrightarrow> True"
| "avl_ok (Bin l a k r) \<longleftrightarrow> avl_ok l \<and> avl_ok r \<and> k = max (hgt l) (hgt r) + 1 \<and> \<bar>hgt l - hgt r\<bar> \<le> 1"

datatype frame = InLeft u64 int atree | InRight atree u64 int

fun fill :: "frame \<Rightarrow> atree \<Rightarrow> atree" where
  "fill (InLeft a k r) t = Bin t a k r"
| "fill (InRight l a k) t = Bin l a k t"

fun plug :: "atree \<Rightarrow> frame list \<Rightarrow> atree" where
  "plug t [] = t"
| "plug t (f # c) = plug (fill f t) c"

fun before :: "frame list \<Rightarrow> u64 list" where
  "before [] = []"
| "before (InLeft a k r # c) = before c"
| "before (InRight l a k # c) = before c @ inord l @ [a]"

fun after :: "frame list \<Rightarrow> u64 list" where
  "after [] = []"
| "after (InLeft a k r # c) = a # inord r @ after c"
| "after (InRight l a k # c) = after c"

lemma inord_plug: "inord (plug t c) = before c @ inord t @ after c"
  by (induction t c rule: plug.induct) (simp, case_tac f, simp_all)

lemma hgt_nonneg: "avl_ok t \<Longrightarrow> 0 \<le> hgt t"
  by (induction t) auto

lemma hgt_eq_0: "avl_ok t \<Longrightarrow> hgt t = 0 \<longleftrightarrow> t = Tip"
  by (cases t) (auto dest: hgt_nonneg)

text \<open>The height is at most twice the logarithm of the number of nodes.\<close>

lemma square_step:
  fixes m n :: nat
  assumes "2 ^ Suc j \<le> m\<^sup>2" "2 ^ j \<le> n\<^sup>2"
  shows "2 ^ Suc (Suc j) \<le> (m + n)\<^sup>2"
proof -
  have "(2 ^ j)\<^sup>2 \<le> m\<^sup>2 * n\<^sup>2"
    using mult_mono [OF assms] by (simp add: power2_eq_square)
  then have "(2 ^ j)\<^sup>2 \<le> (m * n)\<^sup>2" by (simp add: power_mult_distrib)
  then have "2 ^ j \<le> m * n" by (simp add: power2_nat_le_eq_le)
  then show ?thesis using assms by (simp add: power2_sum)
qed

lemma avl_height_log:
  assumes "avl_ok t"
  shows "2 ^ nat (hgt t) \<le> (Suc (length (inord t)))\<^sup>2"
  using assms
proof (induction t)
  case (Bin l a k r)
  have b: "k = max (hgt l) (hgt r) + 1" "\<bar>hgt l - hgt r\<bar> \<le> 1" "0 \<le> hgt l" "0 \<le> hgt r"
    using Bin.prems hgt_nonneg by auto
  have I: "2 ^ nat (hgt l) \<le> (Suc (length (inord l)))\<^sup>2" "2 ^ nat (hgt r) \<le> (Suc (length (inord r)))\<^sup>2"
    using Bin by auto
  have s: "Suc (length (inord (Bin l a k r))) = Suc (length (inord l)) + Suc (length (inord r))" by simp
  consider "hgt l = hgt r" "nat k = Suc (nat (hgt l))" | "nat (hgt l) = Suc (nat (hgt r))" "nat k = Suc (Suc (nat (hgt r)))"
    | "nat (hgt r) = Suc (nat (hgt l))" "nat k = Suc (Suc (nat (hgt l)))"
  proof -
    obtain m n where "hgt l = int m" "hgt r = int n" using b(3,4) by (metis nonneg_int_cases)
    moreover from this have "m = n \<or> m = Suc n \<or> n = Suc m" using b(2) by linarith
    ultimately show thesis using b(1) that by (auto simp: max_def nat_add_distrib split: if_splits)
  qed
  then show ?case
  proof cases
    case 1
    then have "2 ^ nat (hgt (Bin l a k r)) = 2 ^ nat (hgt l) + (2::nat) ^ nat (hgt r)" by simp
    also have "\<dots> \<le> (Suc (length (inord l)))\<^sup>2 + (Suc (length (inord r)))\<^sup>2" using I by (rule add_mono)
    also have "\<dots> \<le> (Suc (length (inord l)) + Suc (length (inord r)))\<^sup>2" unfolding power2_sum by (simp only: le_add1)
    finally show ?thesis unfolding s .
  next
    case 2
    then have "2 ^ Suc (Suc (nat (hgt r))) \<le> (Suc (length (inord l)) + Suc (length (inord r)))\<^sup>2"
      using I by (intro square_step) (simp_all only:)
    then show ?thesis unfolding s hgt.simps 2 .
  next
    case 3
    then have "2 ^ Suc (Suc (nat (hgt l))) \<le> (Suc (length (inord r)) + Suc (length (inord l)))\<^sup>2"
      using I by (intro square_step) (simp_all only:)
    then show ?thesis unfolding s hgt.simps 3 by (simp only: add.commute)
  qed
qed simp

subsection \<open>Balancing as functions\<close>

fun with_hgt :: "int \<Rightarrow> atree \<Rightarrow> atree" where
  "with_hgt k Tip = Tip"
| "with_hgt k (Bin l a j r) = Bin l a k r"

fun upd_hgt :: "atree \<Rightarrow> atree" where
  "upd_hgt Tip = Tip"
| "upd_hgt (Bin l a k r) = Bin l a (max (hgt l) (hgt r) + 1) r"

fun fix_l :: "atree \<Rightarrow> atree" where
  "fix_l (Bin l a k (Bin (Bin m1 c i m2) b j r)) =
     (if i > hgt r
      then upd_hgt (Bin (upd_hgt (Bin l a k m1)) c i (upd_hgt (Bin m2 b j r)))
      else upd_hgt (Bin (upd_hgt (Bin l a k (Bin m1 c i m2))) b j r))"
| "fix_l (Bin l a k (Bin Tip b j r)) = upd_hgt (Bin (upd_hgt (Bin l a k Tip)) b j r)"
| "fix_l t = t"

fun fix_r :: "atree \<Rightarrow> atree" where
  "fix_r (Bin (Bin l b j (Bin m1 c i m2)) a k r) =
     (if hgt l < i
      then upd_hgt (Bin (upd_hgt (Bin l b j m1)) c i (upd_hgt (Bin m2 a k r)))
      else upd_hgt (Bin l b j (upd_hgt (Bin (Bin m1 c i m2) a k r))))"
| "fix_r (Bin (Bin l b j Tip) a k r) = upd_hgt (Bin l b j (upd_hgt (Bin Tip a k r)))"
| "fix_r t = t"

definition fixup :: "int \<Rightarrow> atree \<Rightarrow> atree" where
  "fixup diff t = (if diff \<le> - 2 then fix_l t else if diff \<ge> 2 then fix_r t else t)"

fun lhgt :: "atree \<Rightarrow> int" where "lhgt Tip = 0" | "lhgt (Bin l a k r) = hgt l"
fun rhgt :: "atree \<Rightarrow> int" where "rhgt Tip = 0" | "rhgt (Bin l a k r) = hgt r"

abbreviation new_hgt :: "atree \<Rightarrow> int" where "new_hgt t \<equiv> max (lhgt t) (rhgt t) + 1"

text \<open>The loop of \<^verbatim>\<open>avl_node_post_insert\<close>: \<open>t\<close> is the subtree below the context, already repaired.\<close>

fun ins_up :: "atree \<Rightarrow> frame list \<Rightarrow> atree" where
  "ins_up t [] = t"
| "ins_up t (f # c) =
     (let n = fill f t in
      if hgt n = new_hgt n then plug n c
      else ins_up (fixup (lhgt n - rhgt n) (with_hgt (new_hgt n) n)) c)"

text \<open>The loop of \<^verbatim>\<open>_avl_node_rebalance\<close>: \<open>t\<close> is the subtree to repair.\<close>

fun reb_up :: "atree \<Rightarrow> frame list \<Rightarrow> atree" where
  "reb_up t c =
     (if hgt t = new_hgt t \<and> lhgt t - rhgt t \<ge> - 1 \<and> lhgt t - rhgt t \<le> 1 then plug t c
      else let t' = fixup (lhgt t - rhgt t) (with_hgt (new_hgt t) t) in
        case c of [] \<Rightarrow> t' | f # c' \<Rightarrow> reb_up (fill f t') c')"

declare reb_up.simps [simp del]

lemma inord_upd_hgt [simp]: "inord (upd_hgt t) = inord t" "inord (with_hgt k t) = inord t"
  by (cases t; simp)+

lemma inord_fix [simp]: "inord (fix_l t) = inord t" "inord (fix_r t) = inord t" "inord (fixup d t) = inord t"
proof -
  show l: "inord (fix_l t) = inord t" by (cases t rule: fix_l.cases) auto
  show r: "inord (fix_r t) = inord t" by (cases t rule: fix_r.cases) auto
  show "inord (fixup d t) = inord t" by (simp add: fixup_def l r)
qed

lemma inord_fill: "inord (fill f t) = before [f] @ inord t @ after [f]"
  by (cases f) auto

lemma inord_ins_up: "inord (ins_up t c) = before c @ inord t @ after c"
proof (induction t c rule: ins_up.induct)
  case (2 t f c)
  have f: "before (f # c) = before c @ before [f]" "after (f # c) = after [f] @ after c" by (cases f; simp)+
  show ?case using 2 unfolding f by (auto simp: Let_def inord_plug inord_fill)
qed simp

abbreviation at_rest :: "atree \<Rightarrow> bool" where
  "at_rest t \<equiv> hgt t = new_hgt t \<and> lhgt t - rhgt t \<ge> - 1 \<and> lhgt t - rhgt t \<le> 1"

abbreviation repaired :: "atree \<Rightarrow> atree" where
  "repaired t \<equiv> fixup (lhgt t - rhgt t) (with_hgt (new_hgt t) t)"

lemma reb_up_eqs:
  "at_rest t \<Longrightarrow> reb_up t c = plug t c"
  "\<not> at_rest t \<Longrightarrow> reb_up t [] = repaired t"
  "\<not> at_rest t \<Longrightarrow> reb_up t (f # c) = reb_up (fill f (repaired t)) c"
proof -
  show "reb_up t c = plug t c" if "at_rest t" unfolding reb_up.simps [of t c] if_P [OF that] ..
  show "reb_up t [] = repaired t" if "\<not> at_rest t" unfolding reb_up.simps [of t "[]"] if_not_P [OF that] by simp
  show "reb_up t (f # c) = reb_up (fill f (repaired t)) c" if "\<not> at_rest t"
    unfolding reb_up.simps [of t "f # c"] if_not_P [OF that] by simp
qed

lemma inord_reb_up: "inord (reb_up t c) = before c @ inord t @ after c"
proof (induction c arbitrary: t)
  case Nil
  show ?case
  proof (cases "at_rest t")
    case True
    show ?thesis unfolding reb_up_eqs(1) [OF True] by simp
  next
    case False
    show ?thesis unfolding reb_up_eqs(2) [OF False] by simp
  qed
next
  case (Cons f c)
  have f: "before (f # c) = before c @ before [f]" "after (f # c) = after [f] @ after c" by (cases f; simp)+
  show ?case
  proof (cases "at_rest t")
    case True
    show ?thesis unfolding reb_up_eqs(1) [OF True] by (rule inord_plug)
  next
    case False
    show ?thesis unfolding reb_up_eqs(3) [OF False] Cons.IH f by (simp add: inord_fill)
  qed
qed

subsection \<open>The repairs restore balance\<close>

lemma fix_l_ok:
  assumes "avl_ok l" "avl_ok r" "hgt r = hgt l + 2"
  shows "avl_ok (fix_l (Bin l a k r))" "hgt (fix_l (Bin l a k r)) = hgt r \<or> hgt (fix_l (Bin l a k r)) = hgt r + 1"
  using assms hgt_nonneg [OF assms(1)]
  by (cases "Bin l a k r" rule: fix_l.cases; auto simp: max_def split: if_splits)+

lemma fix_r_ok:
  assumes "avl_ok l" "avl_ok r" "hgt l = hgt r + 2"
  shows "avl_ok (fix_r (Bin l a k r))" "hgt (fix_r (Bin l a k r)) = hgt l \<or> hgt (fix_r (Bin l a k r)) = hgt l + 1"
  using assms hgt_nonneg [OF assms(2)]
  by (cases "Bin l a k r" rule: fix_r.cases; auto simp: max_def split: if_splits)+

lemma fixup_ok:
  assumes "avl_ok l" "avl_ok r" "\<bar>hgt l - hgt r\<bar> \<le> 2"
  shows "avl_ok (fixup (hgt l - hgt r) (Bin l a (max (hgt l) (hgt r) + 1) r)) \<and>
    (hgt (fixup (hgt l - hgt r) (Bin l a (max (hgt l) (hgt r) + 1) r)) = max (hgt l) (hgt r) + 1 \<or>
     \<bar>hgt l - hgt r\<bar> = 2 \<and> hgt (fixup (hgt l - hgt r) (Bin l a (max (hgt l) (hgt r) + 1) r)) = max (hgt l) (hgt r))"
proof -
  consider "hgt r = hgt l + 2" | "hgt l = hgt r + 2" | "\<bar>hgt l - hgt r\<bar> \<le> 1" using assms(3) by linarith
  then show ?thesis
  proof cases
    case 1
    then show ?thesis using fix_l_ok [OF assms(1,2) 1, of a "max (hgt l) (hgt r) + 1"] by (auto simp: fixup_def)
  next
    case 2
    then show ?thesis using fix_r_ok [OF assms(1,2) 2, of a "max (hgt l) (hgt r) + 1"] by (auto simp: fixup_def)
  next
    case 3
    then show ?thesis using assms by (auto simp: fixup_def)
  qed
qed

text \<open>Replacing a subtree by a balanced one of the same height.\<close>

lemma avl_ok_plug_same: "avl_ok (plug t c) \<Longrightarrow> avl_ok t' \<Longrightarrow> hgt t' = hgt t \<Longrightarrow> avl_ok (plug t' c)"
proof (induction c arbitrary: t t')
  case (Cons f c)
  have "avl_ok (fill f t)"
  proof -
    have "avl_ok u" if "avl_ok (plug u c)" for u
      using that by (induction c arbitrary: u) (simp, case_tac a, fastforce+)
    then show ?thesis using Cons.prems(1) by simp
  qed
  then have "avl_ok (fill f t')" "hgt (fill f t') = hgt (fill f t)" using Cons.prems by (cases f; simp)+
  then show ?case using Cons.IH [OF Cons.prems(1) [simplified]] by simp
qed simp

lemma avl_ok_plugD: "avl_ok (plug t c) \<Longrightarrow> avl_ok t"
  by (induction c arbitrary: t) (simp, case_tac a, fastforce+)

lemma with_hgt_Bin: "with_hgt k (fill f t) = (case f of InLeft a j r \<Rightarrow> Bin t a k r | InRight l a j \<Rightarrow> Bin l a k t)"
  by (cases f) auto

lemma ins_step:
  assumes o: "avl_ok (fill f t)" and t': "avl_ok t'" "hgt t' = hgt t \<or> hgt t' = hgt t + 1"
  shows "hgt (fill f t') = new_hgt (fill f t') \<Longrightarrow> avl_ok (fill f t') \<and> hgt (fill f t') = hgt (fill f t)"
    and "hgt (fill f t') \<noteq> new_hgt (fill f t') \<Longrightarrow> avl_ok (repaired (fill f t')) \<and>
      (hgt (repaired (fill f t')) = hgt (fill f t) \<or> hgt (repaired (fill f t')) = hgt (fill f t) + 1)"
proof -
  show "avl_ok (fill f t') \<and> hgt (fill f t') = hgt (fill f t)" if "hgt (fill f t') = new_hgt (fill f t')"
    using assms that by (cases f) auto
  assume n: "hgt (fill f t') \<noteq> new_hgt (fill f t')"
  show "avl_ok (repaired (fill f t')) \<and> (hgt (repaired (fill f t')) = hgt (fill f t) \<or> hgt (repaired (fill f t')) = hgt (fill f t) + 1)"
  proof (cases f)
    case (InLeft a k r)
    then have "avl_ok r" "\<bar>hgt t' - hgt r\<bar> \<le> 2" using o t'(2) by auto
    from fixup_ok [OF t'(1) this, of a] show ?thesis using InLeft o n t'(2) by (auto simp: max_def split: if_splits)
  next
    case (InRight l a k)
    then have "avl_ok l" "\<bar>hgt l - hgt t'\<bar> \<le> 2" using o t'(2) by auto
    from fixup_ok [OF this(1) t'(1) this(2), of a] show ?thesis using InRight o n t'(2) by (auto simp: max_def split: if_splits)
  qed
qed

lemma ins_up_ok:
  assumes "avl_ok (plug t c)" "avl_ok t'" "hgt t' = hgt t \<or> hgt t' = hgt t + 1"
  shows "avl_ok (ins_up t' c)"
  using assms
proof (induction c arbitrary: t t')
  case (Cons f c)
  have o: "avl_ok (fill f t)" using avl_ok_plugD Cons.prems(1) by simp
  note step = ins_step [OF o Cons.prems(2,3)] and old = Cons.prems(1) [simplified]
  show ?case
  proof (cases "hgt (fill f t') = new_hgt (fill f t')")
    case True
    then show ?thesis using step(1) avl_ok_plug_same [OF old, of "fill f t'"] by (simp add: Let_def)
  next
    case False
    then show ?thesis using step(2) Cons.IH [OF old, of "repaired (fill f t')"] by (simp add: Let_def)
  qed
qed simp

text \<open>
  A subtree whose children are balanced, whose stored height \<open>k\<close> is that of the tree it stood for and
  whose true height is \<open>k\<close> or \<open>k - 1\<close>.
\<close>

fun shrunk :: "int \<Rightarrow> atree \<Rightarrow> bool" where
  "shrunk k Tip \<longleftrightarrow> False"
| "shrunk k (Bin l a j r) \<longleftrightarrow> j = k \<and> avl_ok l \<and> avl_ok r \<and> \<bar>hgt l - hgt r\<bar> \<le> 2 \<and>
     (max (hgt l) (hgt r) + 1 = k \<or> \<bar>hgt l - hgt r\<bar> \<le> 1 \<and> max (hgt l) (hgt r) + 2 = k)"

lemma shrunk_fixup:
  assumes "shrunk k t"
  shows "avl_ok (repaired t)" "hgt (repaired t) = k \<or> hgt (repaired t) = k - 1"
proof -
  obtain l a j r where t: "t = Bin l a j r" using assms by (cases t) auto
  have b: "avl_ok l" "avl_ok r" "\<bar>hgt l - hgt r\<bar> \<le> 2"
    "max (hgt l) (hgt r) + 1 = k \<or> \<bar>hgt l - hgt r\<bar> \<le> 1 \<and> max (hgt l) (hgt r) + 2 = k" using assms t by auto
  show "avl_ok (repaired t)" "hgt (repaired t) = k \<or> hgt (repaired t) = k - 1"
    using fixup_ok [OF b(1-3), of a] b(4) unfolding t by auto
qed

lemma fill_shrunk:
  assumes "avl_ok (fill f t)" "avl_ok t'" "hgt t' = hgt t \<or> hgt t' = hgt t - 1"
  shows "shrunk (hgt (fill f t)) (fill f t')"
  using assms by (cases f) (auto simp: max_def split: if_splits)

lemma reb_up_ok:
  assumes "avl_ok (plug t c)" "shrunk (hgt t) t'"
  shows "avl_ok (reb_up t' c)"
  using assms
proof (induction c arbitrary: t t')
  case Nil
  show ?case
  proof (cases "at_rest t'")
    case True
    then show ?thesis unfolding reb_up_eqs(1) [OF True] using Nil(2) by (cases t') auto
  next
    case False
    show ?thesis unfolding reb_up_eqs(2) [OF False] by (rule shrunk_fixup [OF Nil(2)])
  qed
next
  case (Cons f c)
  have o: "avl_ok (fill f t)" using avl_ok_plugD Cons.prems(1) by simp
  show ?case
  proof (cases "at_rest t'")
    case True
    then have "avl_ok t'" "hgt t' = hgt t" using Cons.prems(2) by (cases t'; auto)+
    then show ?thesis unfolding reb_up_eqs(1) [OF True] by (rule avl_ok_plug_same [OF Cons.prems(1)])
  next
    case False
    show ?thesis unfolding reb_up_eqs(3) [OF False]
      by (rule Cons.IH [OF Cons.prems(1) [simplified] fill_shrunk [OF o shrunk_fixup [OF Cons.prems(2)]]])
  qed
qed

end
