(* ===== verification/AvlRefine.thy ===== *)
theory AvlRefine
  imports Avl AvlTree
begin

text \<open>
  The pointer code of \<open>Avl\<close> implements the functions of \<open>AvlTree\<close>. \<open>zrep s t c\<close> says that the heap
  of \<open>s\<close> holds the tree \<open>plug t c\<close>, parent pointers, stored heights and root pointer included, seen
  from its subtree \<open>t\<close>.
\<close>

subsection \<open>Trees in the heap\<close>

fun is_tree :: "aheap \<Rightarrow> u64 \<Rightarrow> atree \<Rightarrow> bool" where
  "is_tree h p Tip \<longleftrightarrow> True"
| "is_tree h p (Bin l a k r) \<longleftrightarrow> a \<noteq> 0 \<and> h a = Some \<lparr>left = ptr l, right = ptr r, parent = p, height = k\<rparr> \<and>
     is_tree h a l \<and> is_tree h a r"

fun up :: "frame list \<Rightarrow> u64" where
  "up [] = 0"
| "up (InLeft a k r # c) = a"
| "up (InRight l a k # c) = a"

fun is_ctx :: "aheap \<Rightarrow> u64 \<Rightarrow> u64 \<Rightarrow> frame list \<Rightarrow> bool" where
  "is_ctx h rt p [] \<longleftrightarrow> rt = p"
| "is_ctx h rt p (InLeft a k r # c) \<longleftrightarrow> a \<noteq> 0 \<and> h a = Some \<lparr>left = p, right = ptr r, parent = up c, height = k\<rparr> \<and>
     is_tree h a r \<and> is_ctx h rt a c"
| "is_ctx h rt p (InRight l a k # c) \<longleftrightarrow> a \<noteq> 0 \<and> h a = Some \<lparr>left = ptr l, right = p, parent = up c, height = k\<rparr> \<and>
     is_tree h a l \<and> is_ctx h rt a c"

definition zrep :: "avl \<Rightarrow> atree \<Rightarrow> frame list \<Rightarrow> bool" where
  "zrep s t c \<longleftrightarrow> is_tree (anodes s) (up c) t \<and> is_ctx (anodes s) (aroot s) (ptr t) c \<and>
     distinct (before c @ inord t @ after c)"

definition trep :: "avl \<Rightarrow> atree \<Rightarrow> bool" where
  "trep s t \<longleftrightarrow> zrep s t []"

definition cset :: "frame list \<Rightarrow> u64 set" where
  "cset c = set (before c) \<union> set (after c)"

definition elsewhere :: "avl \<Rightarrow> u64 set \<Rightarrow> avl \<Rightarrow> bool" where
  "elsewhere s A s' \<longleftrightarrow> (\<forall>x. x \<notin> A \<longrightarrow> anodes s' x = anodes s x)"

lemma cset_simps [simp]:
  "cset [] = {}" "cset (InLeft a k r # c) = insert a (set (inord r) \<union> cset c)"
  "cset (InRight l a k # c) = insert a (set (inord l) \<union> cset c)"
  by (auto simp: cset_def)

lemma zrep_fill: "zrep s t (f # c) \<longleftrightarrow> zrep s (fill f t) c"
  by (cases f) (auto simp: zrep_def)

lemma zrep_plug: "zrep s t (d @ c) \<longleftrightarrow> zrep s (plug t d) c"
  by (induction d arbitrary: t) (auto simp: zrep_fill)

lemma trep_plug: "trep s (plug t c) \<longleftrightarrow> zrep s t c"
  using zrep_plug [of s t c "[]"] by (simp add: trep_def)

lemma elsewhere_trans: "elsewhere s A t \<Longrightarrow> elsewhere t A u \<Longrightarrow> elsewhere s A u"
  by (simp add: elsewhere_def)

lemma elsewhere_refl [simp]: "elsewhere s A s"
  by (simp add: elsewhere_def)

lemma is_tree_upd [simp]: "x \<notin> set (inord t) \<Longrightarrow> is_tree (h(x := v)) p t = is_tree h p t"
  by (induction t arbitrary: p) auto

lemma is_ctx_upd [simp]: "x \<notin> cset c \<Longrightarrow> is_ctx (h(x := v)) rt p c = is_ctx h rt p c"
  by (induction h rt p c rule: is_ctx.induct) auto

lemma is_tree_cong: "(\<And>x. x \<in> set (inord t) \<Longrightarrow> h' x = h x) \<Longrightarrow> is_tree h' p t = is_tree h p t"
  by (induction t arbitrary: p) auto

lemma is_tree_away: "\<forall>x. x \<notin> A \<longrightarrow> h' x = h x \<Longrightarrow> A \<inter> set (inord t) = {} \<Longrightarrow> is_tree h' p t = is_tree h p t"
  by (rule is_tree_cong) auto

lemma is_tree_nz: "is_tree h p t \<Longrightarrow> 0 \<notin> set (inord t)"
  by (induction t arbitrary: p) auto

lemma is_ctx_nz: "is_ctx h rt p c \<Longrightarrow> 0 \<notin> cset c"
  by (induction h rt p c rule: is_ctx.induct) (auto dest: is_tree_nz)

lemma ptr_in: "t \<noteq> Tip \<Longrightarrow> ptr t \<in> set (inord t)"
  by (cases t) auto

lemma ptr_other: "a \<noteq> 0 \<Longrightarrow> a \<notin> set (inord t) \<Longrightarrow> ptr t \<noteq> a"
  by (cases t) auto

lemma is_tree_ptr_0: "is_tree h p t \<Longrightarrow> ptr t = 0 \<longleftrightarrow> t = Tip"
  by (cases t) auto

text \<open>What the code reads at a node of the tree.\<close>

lemma zrep_node:
  assumes "zrep s (Bin l a k r) c"
  shows "aget a s = Some \<lparr>left = ptr l, right = ptr r, parent = up c, height = k\<rparr>" "a \<noteq> 0"
    "AVL_LEFT_HEIGHT a s = Some (hgt l)" "AVL_RIGHT_HEIGHT a s = Some (hgt r)"
proof -
  show a: "aget a s = Some \<lparr>left = ptr l, right = ptr r, parent = up c, height = k\<rparr>" "a \<noteq> 0"
    using assms by (simp_all add: zrep_def aget_def)
  show "AVL_LEFT_HEIGHT a s = Some (hgt l)" "AVL_RIGHT_HEIGHT a s = Some (hgt r)"
    using assms a by (cases l; cases r; simp add: AVL_LEFT_HEIGHT_def AVL_RIGHT_HEIGHT_def aget_def zrep_def)+
qed

lemma AVL_MAX_max [simp]: "AVL_MAX x y = max x y"
  by (simp add: AVL_MAX_def max_def)

subsection \<open>Single updates\<close>

lemma set_height_rep:
  assumes "zrep s (Bin l a k r) c"
  shows "\<exists>s'. aupd a (\<lambda>n. n\<lparr>height := j\<rparr>) s = Some s' \<and> zrep s' (Bin l a j r) c \<and>
    elsewhere s (set (inord (plug (Bin l a k r) c))) s'"
proof -
  have "a \<notin> set (inord l)" "a \<notin> set (inord r)" "a \<notin> cset c" using assms by (auto simp: zrep_def cset_def)
  then show ?thesis
    using assms by (auto simp: aupd_def zrep_def elsewhere_def inord_plug)
qed

lemma height_update_rep:
  assumes "zrep s (Bin l a k r) c"
  shows "\<exists>s'. avl_node_height_update a s = Some s' \<and> zrep s' (upd_hgt (Bin l a k r)) c \<and>
    elsewhere s (set (inord (plug (Bin l a k r) c))) s'"
  using set_height_rep [OF assms, of "max (hgt l) (hgt r) + 1"] zrep_node [OF assms]
  by (simp add: avl_node_height_update_def)

text \<open>Replacing the subtree \<open>t\<close> by another one that is in the heap already.\<close>

lemma child_replace_ctx:
  assumes c: "is_ctx h rt a c" and a: "a \<noteq> 0" "a \<notin> cset c" and d: "distinct (before c @ after c)"
  shows "\<exists>h' rt'. avl_child_replace a b (up c) \<lparr>anodes = h, aroot = rt\<rparr> = Some \<lparr>anodes = h', aroot = rt'\<rparr> \<and>
    is_ctx h' rt' b c \<and> (\<forall>x. x \<notin> cset c \<longrightarrow> h' x = h x)"
proof (cases c)
  case Nil
  then show ?thesis by (simp add: avl_child_replace_def)
next
  case (Cons f c')
  show ?thesis
  proof (cases f)
    case (InLeft x k r)
    have "x \<notin> set (inord r)" "x \<notin> cset c'" using d unfolding Cons InLeft by (auto simp: cset_def)
    then show ?thesis using c a unfolding Cons InLeft
      by (auto simp: avl_child_replace_def aget_def aupd_def)
  next
    case (InRight l x k)
    have "x \<notin> set (inord l)" "x \<notin> cset c'" using d unfolding Cons InRight by (auto simp: cset_def)
    moreover have "ptr l \<noteq> a" using a ptr_other unfolding Cons InRight by simp
    ultimately show ?thesis using c a unfolding Cons InRight
      by (auto simp: avl_child_replace_def aget_def aupd_def)
  qed
qed

subsection \<open>Rotations\<close>

lemma is_tree_dom: "is_tree h p t \<Longrightarrow> x \<in> set (inord t) \<Longrightarrow> \<exists>n. h x = Some n"
  by (induction t arbitrary: p) auto

text \<open>Moving a subtree under another parent.\<close>

definition reparent :: "u64 \<Rightarrow> u64 \<Rightarrow> aheap \<Rightarrow> aheap" where
  "reparent x p h = (if x = 0 then h else h(x := map_option (\<lambda>n. n\<lparr>parent := p\<rparr>) (h x)))"

lemma is_tree_reparent:
  "is_tree h p t \<Longrightarrow> distinct (inord t) \<Longrightarrow> is_tree (reparent (ptr t) q h) q t"
  by (cases t) (auto simp: reparent_def)

lemma is_tree_reparent_other:
  "ptr u \<notin> set (inord t) \<Longrightarrow> is_tree (reparent (ptr u) q h) p t = is_tree h p t"
  by (simp add: reparent_def)

lemma set_parent_tree:
  assumes "is_tree h p t"
  shows "set_parent (ptr t) q \<lparr>anodes = h, aroot = rt\<rparr> = Some \<lparr>anodes = reparent (ptr t) q h, aroot = rt\<rparr>"
  using assms by (cases t) (auto simp: set_parent_def aupd_def reparent_def)

text \<open>
  The heap argument both rotations share: \<open>b\<close> takes the place of its parent \<open>a\<close>, the subtree \<open>m\<close>
  moves from \<open>b\<close> to \<open>a\<close>, \<open>x\<close> stays below \<open>a\<close> and \<open>y\<close> below \<open>b\<close>.
\<close>

definition apart :: "u64 \<Rightarrow> u64 \<Rightarrow> atree \<Rightarrow> atree \<Rightarrow> atree \<Rightarrow> frame list \<Rightarrow> bool" where
  "apart a b x m y c \<longleftrightarrow> b \<noteq> a \<and> distinct (inord m) \<and> distinct (before c @ after c) \<and>
     a \<notin> set (inord x) \<union> set (inord m) \<union> set (inord y) \<union> cset c \<and> b \<notin> set (inord x) \<union> set (inord m) \<union> set (inord y) \<union> cset c \<and>
     set (inord m) \<inter> (set (inord x) \<union> set (inord y) \<union> cset c) = {} \<and> cset c \<inter> (set (inord x) \<union> set (inord y)) = {}"

lemma rotation_core:
  fixes na nb na' :: avl_node
  assumes T: "a \<noteq> 0" "b \<noteq> 0" "is_tree h a x" "is_tree h b m" "is_tree h b y" "is_ctx h rt a c" and D: "apart a b x m y c"
  defines "h2 \<equiv> reparent (ptr m) a (h(a \<mapsto> na))"
  defines "h3 \<equiv> h2(b \<mapsto> nb)"
  shows "\<exists>h4 rt4. avl_child_replace a b (up c) \<lparr>anodes = h3, aroot = rt\<rparr> = Some \<lparr>anodes = h4, aroot = rt4\<rparr> \<and>
    is_ctx (h4(a \<mapsto> na')) rt4 b c \<and> is_tree (h4(a \<mapsto> na')) a x \<and> is_tree (h4(a \<mapsto> na')) a m \<and> is_tree (h4(a \<mapsto> na')) b y \<and>
    h4 a = Some na \<and> h4 b = Some nb \<and> h2 b = h b \<and> (\<forall>z. z \<notin> insert a (insert b (set (inord m) \<union> cset c)) \<longrightarrow> h4 z = h z)"
proof -
  note D = D [unfolded apart_def]
  let ?h1 = "h(a \<mapsto> na)"
  have m1: "is_tree ?h1 b m" using T(4) D by simp
  have m2: "is_tree h2 a m" unfolding h2_def using is_tree_reparent [OF m1] D by simp
  have pm: "ptr m \<notin> set (inord x) \<union> set (inord y) \<union> cset c" "ptr m \<noteq> a" "ptr m \<noteq> b"
    using ptr_in [of m] D is_tree_nz T(1-3,5) is_ctx_nz [OF T(6)] by (cases "m = Tip"; force)+
  have o: "is_tree h2 a x" "is_tree h2 b y" "is_ctx h2 rt a c" "h2 a = Some na" "h2 b = h b"
    using T D pm unfolding h2_def by (simp_all add: reparent_def)
  have o3: "is_tree h3 a x" "is_tree h3 b y" "is_tree h3 a m" "is_ctx h3 rt a c" "h3 a = Some na"
    using o m2 D unfolding h3_def by auto
  obtain h4 rt4 where c4: "avl_child_replace a b (up c) \<lparr>anodes = h3, aroot = rt\<rparr> = Some \<lparr>anodes = h4, aroot = rt4\<rparr>"
    "is_ctx h4 rt4 b c" "\<forall>x. x \<notin> cset c \<longrightarrow> h4 x = h3 x"
    using child_replace_ctx [OF o3(4) T(1)] D by blast
  have o4: "is_tree h4 a x" "is_tree h4 b y" "is_tree h4 a m" "h4 a = h3 a" "h4 b = h3 b"
    using o3 is_tree_away [OF c4(3)] c4(3) D by (simp_all add: Int_Un_distrib Int_commute)
  have "h4 z = h z" if "z \<notin> insert a (insert b (set (inord m) \<union> cset c))" for z
    using that c4(3) ptr_in [of m] unfolding h3_def h2_def reparent_def by (cases "m = Tip") auto
  then show ?thesis using c4(1,2) o4 o3(5) o(5) D by (intro exI [of _ h4] exI [of _ rt4]) (simp add: h3_def)
qed

lemma rotate_left_rep:
  assumes "zrep s (Bin l a k (Bin m b j r)) c"
  shows "\<exists>s'. avl_node_rotate_left a s = Some (b, s') \<and> zrep s' (Bin (Bin l a k m) b j r) c \<and>
    elsewhere s (set (inord (plug (Bin l a k (Bin m b j r)) c))) s'"
proof -
  obtain h rt where s: "s = \<lparr>anodes = h, aroot = rt\<rparr>" by (cases s) simp
  have T: "a \<noteq> 0" "b \<noteq> 0" "h a = Some \<lparr>left = ptr l, right = b, parent = up c, height = k\<rparr>"
    "h b = Some \<lparr>left = ptr m, right = ptr r, parent = a, height = j\<rparr>" "is_tree h a l" "is_tree h b m" "is_tree h b r"
    "is_ctx h rt a c" "distinct (before c @ inord l @ a # inord m @ b # inord r @ after c)" using assms by (simp_all add: zrep_def s)
  have D: "apart a b l m r c" using T(9) by (auto simp: apart_def cset_def)
  define h1 where "h1 = h(a \<mapsto> \<lparr>left = ptr l, right = ptr m, parent = up c, height = k\<rparr>)"
  define h2 where "h2 = reparent (ptr m) a h1"
  define h3 where "h3 = h2(b \<mapsto> \<lparr>left = a, right = ptr r, parent = up c, height = j\<rparr>)"
  have m1: "is_tree h1 b m" "h1 b = h b" using T(6) D unfolding h1_def by (simp_all add: apart_def)
  obtain h4 rt4 where H: "avl_child_replace a b (up c) \<lparr>anodes = h3, aroot = rt\<rparr> = Some \<lparr>anodes = h4, aroot = rt4\<rparr>"
    "zrep \<lparr>anodes = h4(a \<mapsto> \<lparr>left = ptr l, right = ptr m, parent = b, height = k\<rparr>), aroot = rt4\<rparr> (Bin (Bin l a k m) b j r) c"
    "h4 a = h1 a" "h2 b = h b" "\<forall>z. z \<notin> insert a (insert b (set (inord m) \<union> cset c)) \<longrightarrow> h4 z = h z"
    using rotation_core [OF T(1,2,5-8) D, of "\<lparr>left = ptr l, right = ptr m, parent = up c, height = k\<rparr>"
        "\<lparr>left = a, right = ptr r, parent = up c, height = j\<rparr>" "\<lparr>left = ptr l, right = ptr m, parent = b, height = k\<rparr>"] T(1,2,9) D
    unfolding h1_def [symmetric] h2_def [symmetric] h3_def [symmetric] by (auto simp: zrep_def apart_def h1_def)
  have "aupd a (\<lambda>n. n\<lparr>right := ptr m\<rparr>) \<lparr>anodes = h, aroot = rt\<rparr> = Some \<lparr>anodes = h1, aroot = rt\<rparr>"
    "aupd b (\<lambda>n. n\<lparr>left := a\<rparr>) \<lparr>anodes = h2, aroot = rt\<rparr> =
      Some \<lparr>anodes = h2(b \<mapsto> \<lparr>left = a, right = ptr r, parent = a, height = j\<rparr>), aroot = rt\<rparr>"
    "aupd b (\<lambda>n. n\<lparr>parent := up c\<rparr>) \<lparr>anodes = h2(b \<mapsto> \<lparr>left = a, right = ptr r, parent = a, height = j\<rparr>), aroot = rt\<rparr> =
      Some \<lparr>anodes = h3, aroot = rt\<rparr>"
    "aupd a (\<lambda>n. n\<lparr>parent := b\<rparr>) \<lparr>anodes = h4, aroot = rt4\<rparr> =
      Some \<lparr>anodes = h4(a \<mapsto> \<lparr>left = ptr l, right = ptr m, parent = b, height = k\<rparr>), aroot = rt4\<rparr>"
    using T(3,4) H(3,4) by (simp_all add: aupd_def h1_def h3_def)
  then have "avl_node_rotate_left a s =
      Some (b, \<lparr>anodes = h4(a \<mapsto> \<lparr>left = ptr l, right = ptr m, parent = b, height = k\<rparr>), aroot = rt4\<rparr>)"
    using T m1(2) set_parent_tree [OF m1(1), of a rt] H(1)
    unfolding s avl_node_rotate_left_def h2_def [symmetric] by (simp add: aget_def Let_def)
  then show ?thesis using H(2,5) unfolding elsewhere_def inord_plug by (auto simp: s cset_def)
qed

lemma rotate_right_rep:
  assumes "zrep s (Bin (Bin l b j m) a k r) c"
  shows "\<exists>s'. avl_node_rotate_right a s = Some (b, s') \<and> zrep s' (Bin l b j (Bin m a k r)) c \<and>
    elsewhere s (set (inord (plug (Bin (Bin l b j m) a k r) c))) s'"
proof -
  obtain h rt where s: "s = \<lparr>anodes = h, aroot = rt\<rparr>" by (cases s) simp
  have T: "a \<noteq> 0" "b \<noteq> 0" "h a = Some \<lparr>left = b, right = ptr r, parent = up c, height = k\<rparr>"
    "h b = Some \<lparr>left = ptr l, right = ptr m, parent = a, height = j\<rparr>" "is_tree h a r" "is_tree h b m" "is_tree h b l"
    "is_ctx h rt a c" "distinct (before c @ inord l @ b # inord m @ a # inord r @ after c)" using assms by (simp_all add: zrep_def s)
  have D: "apart a b r m l c" using T(9) by (auto simp: apart_def cset_def)
  define h1 where "h1 = h(a \<mapsto> \<lparr>left = ptr m, right = ptr r, parent = up c, height = k\<rparr>)"
  define h2 where "h2 = reparent (ptr m) a h1"
  define h3 where "h3 = h2(b \<mapsto> \<lparr>left = ptr l, right = a, parent = up c, height = j\<rparr>)"
  have m1: "is_tree h1 b m" "h1 b = h b" using T(6) D unfolding h1_def by (simp_all add: apart_def)
  obtain h4 rt4 where H: "avl_child_replace a b (up c) \<lparr>anodes = h3, aroot = rt\<rparr> = Some \<lparr>anodes = h4, aroot = rt4\<rparr>"
    "zrep \<lparr>anodes = h4(a \<mapsto> \<lparr>left = ptr m, right = ptr r, parent = b, height = k\<rparr>), aroot = rt4\<rparr> (Bin l b j (Bin m a k r)) c"
    "h4 a = h1 a" "h2 b = h b" "\<forall>z. z \<notin> insert a (insert b (set (inord m) \<union> cset c)) \<longrightarrow> h4 z = h z"
    using rotation_core [OF T(1,2,5-8) D, of "\<lparr>left = ptr m, right = ptr r, parent = up c, height = k\<rparr>"
        "\<lparr>left = ptr l, right = a, parent = up c, height = j\<rparr>" "\<lparr>left = ptr m, right = ptr r, parent = b, height = k\<rparr>"] T(1,2,9) D
    unfolding h1_def [symmetric] h2_def [symmetric] h3_def [symmetric] by (auto simp: zrep_def apart_def h1_def)
  have "aupd a (\<lambda>n. n\<lparr>left := ptr m\<rparr>) \<lparr>anodes = h, aroot = rt\<rparr> = Some \<lparr>anodes = h1, aroot = rt\<rparr>"
    "aupd b (\<lambda>n. n\<lparr>right := a\<rparr>) \<lparr>anodes = h2, aroot = rt\<rparr> =
      Some \<lparr>anodes = h2(b \<mapsto> \<lparr>left = ptr l, right = a, parent = a, height = j\<rparr>), aroot = rt\<rparr>"
    "aupd b (\<lambda>n. n\<lparr>parent := up c\<rparr>) \<lparr>anodes = h2(b \<mapsto> \<lparr>left = ptr l, right = a, parent = a, height = j\<rparr>), aroot = rt\<rparr> =
      Some \<lparr>anodes = h3, aroot = rt\<rparr>"
    "aupd a (\<lambda>n. n\<lparr>parent := b\<rparr>) \<lparr>anodes = h4, aroot = rt4\<rparr> =
      Some \<lparr>anodes = h4(a \<mapsto> \<lparr>left = ptr m, right = ptr r, parent = b, height = k\<rparr>), aroot = rt4\<rparr>"
    using T(3,4) H(3,4) by (simp_all add: aupd_def h1_def h3_def)
  then have "avl_node_rotate_right a s =
      Some (b, \<lparr>anodes = h4(a \<mapsto> \<lparr>left = ptr m, right = ptr r, parent = b, height = k\<rparr>), aroot = rt4\<rparr>)"
    using T m1(2) set_parent_tree [OF m1(1), of a rt] H(1)
    unfolding s avl_node_rotate_right_def h2_def [symmetric] by (simp add: aget_def Let_def)
  then show ?thesis using H(2,5) unfolding elsewhere_def inord_plug by (auto simp: s cset_def)
qed

subsection \<open>Repairs\<close>

text \<open>A rotation with the two height updates that follow it.\<close>

lemma rotate_left_upd_rep:
  assumes u: "zrep u (Bin l a k (Bin m b j r)) c"
  shows "\<exists>s1 s2 s3. avl_node_rotate_left a u = Some (b, s1) \<and> map_option left (aget b s1) = Some a \<and>
    avl_node_height_update a s1 = Some s2 \<and> avl_node_height_update b s2 = Some s3 \<and>
    zrep s3 (upd_hgt (Bin (upd_hgt (Bin l a k m)) b j r)) c \<and>
    elsewhere u (set (inord (plug (Bin l a k (Bin m b j r)) c))) s3"
proof -
  let ?A = "set (inord (plug (Bin l a k (Bin m b j r)) c))"
  obtain s1 where s1: "avl_node_rotate_left a u = Some (b, s1)" "zrep s1 (Bin (Bin l a k m) b j r) c" "elsewhere u ?A s1"
    using rotate_left_rep [OF u] by blast
  have "zrep s1 (Bin l a k m) (InLeft b j r # c)" using s1(2) by (simp add: zrep_fill)
  from height_update_rep [OF this] obtain s2 where s2: "avl_node_height_update a s1 = Some s2"
    "zrep s2 (Bin (upd_hgt (Bin l a k m)) b j r) c" "elsewhere s1 ?A s2" by (auto simp: zrep_fill inord_plug)
  from height_update_rep [OF this(2)] obtain s3 where s3: "avl_node_height_update b s2 = Some s3"
    "zrep s3 (upd_hgt (Bin (upd_hgt (Bin l a k m)) b j r)) c" "elsewhere s2 ?A s3" by (auto simp: inord_plug)
  show ?thesis using s1(1) s2(1) s3(1,2) zrep_node(1) [OF s1(2)] elsewhere_trans [OF elsewhere_trans [OF s1(3) s2(3)] s3(3)] by simp
qed

lemma rotate_right_upd_rep:
  assumes u: "zrep u (Bin (Bin l b j m) a k r) c"
  shows "\<exists>s1 s2 s3. avl_node_rotate_right a u = Some (b, s1) \<and> map_option right (aget b s1) = Some a \<and>
    avl_node_height_update a s1 = Some s2 \<and> avl_node_height_update b s2 = Some s3 \<and>
    zrep s3 (upd_hgt (Bin l b j (upd_hgt (Bin m a k r)))) c \<and>
    elsewhere u (set (inord (plug (Bin (Bin l b j m) a k r) c))) s3"
proof -
  let ?A = "set (inord (plug (Bin (Bin l b j m) a k r) c))"
  obtain s1 where s1: "avl_node_rotate_right a u = Some (b, s1)" "zrep s1 (Bin l b j (Bin m a k r)) c" "elsewhere u ?A s1"
    using rotate_right_rep [OF u] by blast
  have "zrep s1 (Bin m a k r) (InRight l b j # c)" using s1(2) by (simp add: zrep_fill)
  from height_update_rep [OF this] obtain s2 where s2: "avl_node_height_update a s1 = Some s2"
    "zrep s2 (Bin l b j (upd_hgt (Bin m a k r))) c" "elsewhere s1 ?A s2" by (auto simp: zrep_fill inord_plug)
  from height_update_rep [OF this(2)] obtain s3 where s3: "avl_node_height_update b s2 = Some s3"
    "zrep s3 (upd_hgt (Bin l b j (upd_hgt (Bin m a k r)))) c" "elsewhere s2 ?A s3" by (auto simp: inord_plug)
  show ?thesis using s1(1) s2(1) s3(1,2) zrep_node(1) [OF s1(2)] elsewhere_trans [OF elsewhere_trans [OF s1(3) s2(3)] s3(3)] by simp
qed

lemma fix_l_rep:
  assumes z: "zrep s (Bin l a k r) c" and r: "r \<noteq> Tip" "avl_ok r"
  shows "\<exists>s'. avl_node_fix_l a s = Some (ptr (fix_l (Bin l a k r)), s') \<and> zrep s' (fix_l (Bin l a k r)) c \<and>
    elsewhere s (set (inord (plug (Bin l a k r) c))) s'"
proof -
  obtain m b j q where r': "r = Bin m b j q" using r(1) by (cases r) auto
  have q: "0 \<le> hgt q" using r(2) hgt_nonneg unfolding r' by simp
  have zr: "zrep s (Bin m b j q) (InRight l a k # c)" using z by (simp add: zrep_fill r')
  note N = zrep_node [OF z] zrep_node [OF zr]
  show ?thesis
  proof (cases "hgt q < hgt m")
    case False
    then have "fix_l (Bin l a k r) = upd_hgt (Bin (upd_hgt (Bin l a k m)) b j q)" unfolding r' by (cases m) auto
    then show ?thesis
      using rotate_left_upd_rep [OF z [unfolded r']] N False by (auto simp: avl_node_fix_l_def r' Let_def)
  next
    case True
    then obtain m1 e i m2 where m: "m = Bin m1 e i m2" using q by (cases m) auto
    obtain s1 s2 s3 where s1: "avl_node_rotate_right b s = Some (e, s1)" "map_option right (aget e s1) = Some b"
      "avl_node_height_update b s1 = Some s2" "avl_node_height_update e s2 = Some s3"
      "zrep s3 (upd_hgt (Bin m1 e i (upd_hgt (Bin m2 b j q)))) (InRight l a k # c)"
      "elsewhere s (set (inord (plug (Bin l a k r) c))) s3"
      using rotate_right_upd_rep [OF zr [unfolded m]] by (auto simp: r' m)
    then have "zrep s3 (Bin l a k (Bin m1 e (max (hgt m1) (max (hgt m2) (hgt q) + 1) + 1) (upd_hgt (Bin m2 b j q)))) c"
      by (simp add: zrep_fill)
    from rotate_left_upd_rep [OF this]
    show ?thesis using N s1(1-4) True elsewhere_trans [OF s1(6)] by (auto simp: avl_node_fix_l_def r' m Let_def inord_plug)
  qed
qed

lemma fix_r_rep:
  assumes z: "zrep s (Bin l a k r) c" and l: "l \<noteq> Tip" "avl_ok l"
  shows "\<exists>s'. avl_node_fix_r a s = Some (ptr (fix_r (Bin l a k r)), s') \<and> zrep s' (fix_r (Bin l a k r)) c \<and>
    elsewhere s (set (inord (plug (Bin l a k r) c))) s'"
proof -
  obtain q b j m where l': "l = Bin q b j m" using l(1) by (cases l) auto
  have q: "0 \<le> hgt q" using l(2) hgt_nonneg unfolding l' by simp
  have zl: "zrep s (Bin q b j m) (InLeft a k r # c)" using z by (simp add: zrep_fill l')
  note N = zrep_node [OF z] zrep_node [OF zl]
  show ?thesis
  proof (cases "hgt q < hgt m")
    case False
    then have "fix_r (Bin l a k r) = upd_hgt (Bin q b j (upd_hgt (Bin m a k r)))" unfolding l' by (cases m) auto
    then show ?thesis
      using rotate_right_upd_rep [OF z [unfolded l']] N False by (auto simp: avl_node_fix_r_def l' Let_def)
  next
    case True
    then obtain m1 e i m2 where m: "m = Bin m1 e i m2" using q by (cases m) auto
    obtain s1 s2 s3 where s1: "avl_node_rotate_left b s = Some (e, s1)" "map_option left (aget e s1) = Some b"
      "avl_node_height_update b s1 = Some s2" "avl_node_height_update e s2 = Some s3"
      "zrep s3 (upd_hgt (Bin (upd_hgt (Bin q b j m1)) e i m2)) (InLeft a k r # c)"
      "elsewhere s (set (inord (plug (Bin l a k r) c))) s3"
      using rotate_left_upd_rep [OF zl [unfolded m]] by (auto simp: l' m)
    then have "zrep s3 (Bin (Bin (upd_hgt (Bin q b j m1)) e (max (max (hgt q) (hgt m1) + 1) (hgt m2) + 1) m2) a k r) c"
      by (simp add: zrep_fill)
    from rotate_right_upd_rep [OF this]
    show ?thesis using N s1(1-4) True elsewhere_trans [OF s1(6)] by (auto simp: avl_node_fix_r_def l' m Let_def inord_plug)
  qed
qed

lemma avl_fix_rep:
  assumes z: "zrep s (Bin l a k r) c" and ok: "avl_ok l" "avl_ok r"
  shows "\<exists>s'. avl_fix (hgt l - hgt r) a s = Some (ptr (fixup (hgt l - hgt r) (Bin l a k r)), s') \<and>
    zrep s' (fixup (hgt l - hgt r) (Bin l a k r)) c \<and> elsewhere s (set (inord (plug (Bin l a k r) c))) s'"
proof -
  have "hgt l - hgt r \<le> - 2 \<Longrightarrow> r \<noteq> Tip" "2 \<le> hgt l - hgt r \<Longrightarrow> l \<noteq> Tip"
    using hgt_nonneg [OF ok(1)] hgt_nonneg [OF ok(2)] by auto
  then show ?thesis
    using fix_l_rep [OF z _ ok(2)] fix_r_rep [OF z _ ok(1)] z by (auto simp: avl_fix_def fixup_def)
qed

subsection \<open>The balancing loops\<close>

lemma fill_Bin:
  obtains l a k r where "fill f t = Bin l a k r" "up (f # c) = a" "l = t \<and> f = InLeft a k r \<or> r = t \<and> f = InRight l a k"
  by (cases f) auto

lemma zrep_up: "zrep s t c \<Longrightarrow> up c = 0 \<longleftrightarrow> c = []"
  by (cases c; simp; case_tac a) (auto simp: zrep_def)

lemma post_insert_loop_0: "post_insert_loop 0 s = Some s" "avl_node_rebalance 0 s = Some s"
  by (simp_all add: post_insert_loop.simps avl_node_rebalance.simps)

text \<open>One round of the loops: the stored height is corrected and the subtree repaired.\<close>

lemma repair_rep:
  assumes z: "zrep s (Bin l a k r) c" and ok: "avl_ok l" "avl_ok r"
  shows "\<exists>s1 s2 n. aupd a (\<lambda>n. n\<lparr>height := max (hgt l) (hgt r) + 1\<rparr>) s = Some s1 \<and>
    (k = max (hgt l) (hgt r) + 1 \<longrightarrow> s1 = s) \<and>
    avl_fix (hgt l - hgt r) a s1 = Some (ptr (repaired (Bin l a k r)), s2) \<and> zrep s2 (repaired (Bin l a k r)) c \<and>
    aget (ptr (repaired (Bin l a k r))) s2 = Some n \<and> parent n = up c \<and> elsewhere s (set (inord (plug (Bin l a k r) c))) s2"
proof -
  let ?k = "max (hgt l) (hgt r) + 1" let ?u = "fixup (hgt l - hgt r) (Bin l a ?k r)"
  let ?A = "set (inord (plug (Bin l a k r) c))"
  have A: "set (inord (plug (Bin l a ?k r) c)) = ?A" by (simp add: inord_plug)
  obtain s1 where s1: "aupd a (\<lambda>n. n\<lparr>height := ?k\<rparr>) s = Some s1" "zrep s1 (Bin l a ?k r) c" "elsewhere s ?A s1"
    using set_height_rep [OF z, of ?k] by blast
  have "k = ?k \<longrightarrow> s1 = s" using s1(1) z by (auto simp: aupd_def zrep_def fun_upd_idem intro!: avl.equality)
  moreover obtain s2 where s2: "avl_fix (hgt l - hgt r) a s1 = Some (ptr ?u, s2)" "zrep s2 ?u c" "elsewhere s1 ?A s2"
    using avl_fix_rep [OF s1(2) ok] unfolding A by blast
  moreover obtain l' a' k' r' where u: "?u = Bin l' a' k' r'"
    using inord_fix(3) [of "hgt l - hgt r" "Bin l a ?k r"] by (cases ?u) auto
  ultimately show ?thesis
    using s1(1) zrep_node(1) [OF s2(2) [unfolded u]] u elsewhere_trans [OF s1(3) s2(3)] by (intro exI) auto
qed

lemma post_insert_loop_rep:
  assumes "zrep s t' c" "avl_ok (plug t c)" "avl_ok t'" "hgt t' = hgt t \<or> hgt t' = hgt t + 1"
  shows "\<exists>s'. post_insert_loop (up c) s = Some s' \<and> trep s' (ins_up t' c) \<and> elsewhere s (set (inord (plug t' c))) s'"
  using assms
proof (induction c arbitrary: s t t')
  case Nil
  then show ?case by (simp add: post_insert_loop_0 trep_def)
next
  case (Cons f c)
  have o: "avl_ok (fill f t)" using avl_ok_plugD Cons.prems(2) by simp
  note step = ins_step [OF o Cons.prems(3,4)]
  obtain l a k r where n: "fill f t' = Bin l a k r" "up (f # c) = a" "l = t' \<and> f = InLeft a k r \<or> r = t' \<and> f = InRight l a k"
    by (rule fill_Bin)
  have ok: "avl_ok l" "avl_ok r" using n(3) o Cons.prems(3) by auto
  have z: "zrep s (Bin l a k r) c" using Cons.prems(1) unfolding zrep_fill n(1) .
  note N = zrep_node [OF z]
  show ?case
  proof (cases "k = max (hgt l) (hgt r) + 1")
    case True
    then have "post_insert_loop a s = Some s" using N by (subst post_insert_loop.simps) (simp add: Let_def)
    moreover have "ins_up t' (f # c) = plug (Bin l a k r) c" using True n(1) by (simp add: Let_def)
    ultimately show ?thesis using z n(2) by (auto simp: trep_plug)
  next
    case False
    let ?u = "repaired (Bin l a k r)"
    have A: "inord (plug ?u c) = inord (plug t' (f # c))" "inord (plug (Bin l a k r) c) = inord (plug t' (f # c))"
      using n(1) by (simp_all add: inord_plug)
    obtain s1 s2 nd where s2: "aupd a (\<lambda>n. n\<lparr>height := max (hgt l) (hgt r) + 1\<rparr>) s = Some s1"
      "avl_fix (hgt l - hgt r) a s1 = Some (ptr ?u, s2)" "zrep s2 ?u c" "aget (ptr ?u) s2 = Some nd" "parent nd = up c"
      "elsewhere s (set (inord (plug t' (f # c)))) s2"
      using repair_rep [OF z ok] unfolding A by blast
    have ok': "avl_ok ?u" "hgt ?u = hgt (fill f t) \<or> hgt ?u = hgt (fill f t) + 1" using step(2) False n(1) by auto
    obtain s3 where s3: "post_insert_loop (up c) s2 = Some s3" "trep s3 (ins_up ?u c)" "elsewhere s2 (set (inord (plug t' (f # c)))) s3"
      using Cons.IH [OF s2(3) Cons.prems(2) [simplified] ok'] unfolding A by blast
    have "post_insert_loop a s = Some s3"
      using N False s2(1,2,4,5) s3(1) by (subst post_insert_loop.simps) (simp add: Let_def)
    moreover have "ins_up t' (f # c) = ins_up ?u c" using False n(1) by (simp add: Let_def)
    ultimately show ?thesis using s3(2) n(2) elsewhere_trans [OF s2(6) s3(3)] by auto
  qed
qed

lemma rebalance_round:
  assumes z: "zrep s t c" and t: "shrunk k t"
  shows "at_rest t \<Longrightarrow> avl_node_rebalance (ptr t) s = Some s"
    and "\<not> at_rest t \<Longrightarrow> \<exists>s2. avl_node_rebalance (ptr t) s = avl_node_rebalance (up c) s2 \<and> zrep s2 (repaired t) c \<and>
      elsewhere s (set (inord (plug t c))) s2"
proof -
  obtain l a r where t': "t = Bin l a k r" and ok: "avl_ok l" "avl_ok r" using t by (cases t) auto
  note N = zrep_node [OF z [unfolded t']]
  show "avl_node_rebalance (ptr t) s = Some s" if "at_rest t"
    using that N unfolding t' by (subst avl_node_rebalance.simps) (simp add: Let_def)
  assume r: "\<not> at_rest t"
  obtain s1 s2 nd where s2: "aupd a (\<lambda>n. n\<lparr>height := max (hgt l) (hgt r) + 1\<rparr>) s = Some s1" "k = max (hgt l) (hgt r) + 1 \<longrightarrow> s1 = s"
    "avl_fix (hgt l - hgt r) a s1 = Some (ptr (repaired t), s2)" "zrep s2 (repaired t) c" "aget (ptr (repaired t)) s2 = Some nd" "parent nd = up c"
    "elsewhere s (set (inord (plug t c))) s2"
    using repair_rep [OF z [unfolded t'] ok] unfolding t' by blast
  have d: "\<not> (k = max (hgt l) (hgt r) + 1 \<and> - 1 \<le> hgt l - hgt r \<and> hgt l - hgt r \<le> 1)" using r unfolding t' by auto
  have h: "(if k \<noteq> max (hgt l) (hgt r) + 1 then aupd a (\<lambda>n. n\<lparr>height := max (hgt l) (hgt r) + 1\<rparr>) s else Some s) = Some s1"
    using s2(1,2) by simp
  have "avl_node_rebalance a s = avl_node_rebalance (up c) s2"
    unfolding avl_node_rebalance.simps [of a s] using N(1-4) s2(3,5,6) h by (simp add: Let_def) (use d in blast)
  then show "\<exists>s2. avl_node_rebalance (ptr t) s = avl_node_rebalance (up c) s2 \<and> zrep s2 (repaired t) c \<and>
      elsewhere s (set (inord (plug t c))) s2" using s2(4,7) unfolding t' by auto
qed

lemma rebalance_rep:
  assumes "zrep s t' c" "avl_ok (plug t c)" "shrunk (hgt t) t'"
  shows "\<exists>s'. avl_node_rebalance (ptr t') s = Some s' \<and> trep s' (reb_up t' c) \<and> elsewhere s (set (inord (plug t' c))) s'"
  using assms
proof (induction c arbitrary: s t t')
  case Nil
  note R = rebalance_round [OF Nil.prems(1,3)]
  show ?case
  proof (cases "at_rest t'")
    case True
    show ?thesis unfolding R(1) [OF True] reb_up_eqs(1) [OF True] using Nil.prems(1) by (simp add: trep_def)
  next
    case False
    show ?thesis unfolding reb_up_eqs(2) [OF False] using R(2) [OF False] by (auto simp: post_insert_loop_0 trep_def)
  qed
next
  case (Cons f c)
  note R = rebalance_round [OF Cons.prems(1,3)]
  show ?case
  proof (cases "at_rest t'")
    case True
    show ?thesis unfolding R(1) [OF True] reb_up_eqs(1) [OF True] using Cons.prems(1) by (simp add: trep_plug zrep_fill)
  next
    case False
    let ?A = "set (inord (plug t' (f # c)))" and ?u = "fill f (repaired t')"
    have A: "set (inord (plug ?u c)) = ?A" by (cases f) (simp_all add: inord_plug)
    obtain s2 where s2: "avl_node_rebalance (ptr t') s = avl_node_rebalance (up (f # c)) s2" "zrep s2 (repaired t') (f # c)" "elsewhere s ?A s2"
      using R(2) [OF False] by blast
    have o: "avl_ok (fill f t)" using avl_ok_plugD Cons.prems(2) by simp
    have "ptr ?u = up (f # c)" by (cases f) auto
    moreover obtain s3 where "avl_node_rebalance (ptr ?u) s2 = Some s3" "trep s3 (reb_up ?u c)" "elsewhere s2 ?A s3"
      using Cons.IH [OF s2(2) [unfolded zrep_fill] Cons.prems(2) [simplified] fill_shrunk [OF o shrunk_fixup [OF Cons.prems(3)]]]
      unfolding A by blast
    ultimately show ?thesis unfolding reb_up_eqs(3) [OF False] using s2(1) elsewhere_trans [OF s2(3)] by auto
  qed
qed

subsection \<open>Walking\<close>

lemma sink_left_rep:
  assumes "is_tree (anodes s) p t" "t \<noteq> Tip"
  shows "sink_left (ptr t) s = Some (hd (inord t))"
  using assms
proof (induction t arbitrary: p)
  case (Bin l a k r)
  have n: "aget a s = Some \<lparr>left = ptr l, right = ptr r, parent = p, height = k\<rparr>" using Bin.prems by (simp add: aget_def)
  show ?case
  proof (cases "l = Tip")
    case True
    then show ?thesis using n by (subst sink_left.simps) simp
  next
    case False
    moreover have "ptr l \<noteq> 0" "inord l \<noteq> []" using False Bin.prems is_tree_ptr_0 [of "anodes s" a l] by (auto, cases l, auto)
    ultimately show ?thesis using n Bin.IH(1) [of a] Bin.prems by (subst sink_left.simps) simp
  qed
qed simp

lemma sink_right_rep:
  assumes "is_tree (anodes s) p t" "t \<noteq> Tip"
  shows "sink_right (ptr t) s = Some (last (inord t))"
  using assms
proof (induction t arbitrary: p)
  case (Bin l a k r)
  have n: "aget a s = Some \<lparr>left = ptr l, right = ptr r, parent = p, height = k\<rparr>" using Bin.prems by (simp add: aget_def)
  show ?case
  proof (cases "r = Tip")
    case True
    then show ?thesis using n by (subst sink_right.simps) simp
  next
    case False
    moreover have "ptr r \<noteq> 0" "inord r \<noteq> []" using False Bin.prems is_tree_ptr_0 [of "anodes s" a r] by (auto, cases r, auto)
    ultimately show ?thesis using n Bin.IH(2) [of a] Bin.prems by (subst sink_right.simps) simp
  qed
qed simp

definition or_null :: "(u64 list \<Rightarrow> u64) \<Rightarrow> u64 list \<Rightarrow> u64" where
  "or_null f xs = (if xs = [] then 0 else f xs)"

lemma climb_next_rep: "zrep s (Bin l a k r) c \<Longrightarrow> climb_next a s = Some (or_null hd (after c))"
proof (induction c arbitrary: l a k r)
  case Nil
  then show ?case using zrep_node(1) [OF Nil] by (subst climb_next.simps) (simp add: or_null_def)
next
  case (Cons f c)
  note N = zrep_node(1,2) [OF Cons.prems]
  show ?case
  proof (cases f)
    case (InLeft b j q)
    then have "zrep s (Bin (Bin l a k r) b j q) c" using Cons.prems by (simp add: zrep_fill)
    from zrep_node(1,2) [OF this] N show ?thesis unfolding InLeft by (subst climb_next.simps) (simp add: or_null_def)
  next
    case (InRight q b j)
    then have z: "zrep s (Bin q b j (Bin l a k r)) c" using Cons.prems by (simp add: zrep_fill)
    have "ptr q \<noteq> a" using z N(2) by (intro ptr_other) (auto simp: zrep_def)
    with zrep_node(1,2) [OF z] N Cons.IH [OF z] show ?thesis unfolding InRight by (subst climb_next.simps) simp
  qed
qed

lemma climb_prev_rep: "zrep s (Bin l a k r) c \<Longrightarrow> climb_prev a s = Some (or_null last (before c))"
proof (induction c arbitrary: l a k r)
  case Nil
  then show ?case using zrep_node(1) [OF Nil] by (subst climb_prev.simps) (simp add: or_null_def)
next
  case (Cons f c)
  note N = zrep_node(1,2) [OF Cons.prems]
  show ?case
  proof (cases f)
    case (InRight q b j)
    then have "zrep s (Bin q b j (Bin l a k r)) c" using Cons.prems by (simp add: zrep_fill)
    from zrep_node(1,2) [OF this] N show ?thesis unfolding InRight by (subst climb_prev.simps) (simp add: or_null_def)
  next
    case (InLeft b j q)
    then have z: "zrep s (Bin (Bin l a k r) b j q) c" using Cons.prems by (simp add: zrep_fill)
    have "ptr q \<noteq> a" using z N(2) by (intro ptr_other) (auto simp: zrep_def)
    with zrep_node(1,2) [OF z] N Cons.IH [OF z] show ?thesis unfolding InLeft by (subst climb_prev.simps) simp
  qed
qed

lemma inord_Nil: "inord t = [] \<longleftrightarrow> t = Tip"
  by (cases t) auto

lemma node_next_rep:
  assumes z: "zrep s (Bin l a k r) c"
  shows "avl_node_next a s = Some (or_null hd (inord r @ after c))" "avl_node_prev a s = Some (or_null last (before c @ inord l))"
proof -
  note N = zrep_node(1,2) [OF z]
  have t: "is_tree (anodes s) a l" "is_tree (anodes s) a r" using z by (simp_all add: zrep_def)
  note P = is_tree_ptr_0 [OF t(1)] is_tree_ptr_0 [OF t(2)]
  show "avl_node_next a s = Some (or_null hd (inord r @ after c))"
    using N P(2) sink_left_rep [OF t(2)] climb_next_rep [OF z] inord_Nil [of r] by (simp add: avl_node_next_def or_null_def)
  show "avl_node_prev a s = Some (or_null last (before c @ inord l))"
    using N P(1) sink_right_rep [OF t(1)] climb_prev_rep [OF z] inord_Nil [of l] by (simp add: avl_node_prev_def or_null_def)
qed

end
