(* ===== verification/AvlOps.thy ===== *)
theory AvlOps
  imports AvlRefine "HOL-Library.Multiset"
begin

text \<open>
  Search, insertion, removal, replacement and tearing down of the AVL trees of \<^verbatim>\<open>avlmini.c\<close>, on
  the representation of \<open>AvlRefine\<close>.
\<close>

subsection \<open>Search\<close>

fun look :: "(u64 \<Rightarrow> int) \<Rightarrow> atree \<Rightarrow> frame list \<Rightarrow> atree \<times> frame list" where
  "look f Tip c = (Tip, c)"
| "look f (Bin l a k r) c =
     (if f a = 0 then (Bin l a k r, c)
      else if f a < 0 then look f l (InLeft a k r # c)
      else look f r (InRight l a k # c))"

lemma look_plug: "look f t c = (t', c') \<Longrightarrow> plug t' c' = plug t c"
  by (induction f t c rule: look.induct) (auto split: if_splits)

lemma look_found: "look f t c = (Bin l a k r, c') \<Longrightarrow> f a = 0 \<and> a \<in> set (inord t)"
  by (induction f t c rule: look.induct) (auto split: if_splits)

text \<open>The comparison respects the order of the tree; several nodes may compare equal.\<close>

definition in_order :: "(u64 \<Rightarrow> int) \<Rightarrow> u64 list \<Rightarrow> bool" where
  "in_order f = sorted_wrt (\<lambda>x y. (0 < f y \<longrightarrow> 0 < f x) \<and> (f x < 0 \<longrightarrow> f y < 0))"

lemma look_split:
  assumes "in_order f (before c @ inord t @ after c)" "\<forall>y \<in> set (before c). 0 < f y" "\<forall>y \<in> set (after c). f y < 0"
    "look f t c = (Tip, c')"
  shows "(\<forall>y \<in> set (before c'). 0 < f y) \<and> (\<forall>y \<in> set (after c'). f y < 0)"
  using assms
proof (induction f t c rule: look.induct)
  case (2 f l a k r c)
  have s: "0 < f a \<Longrightarrow> \<forall>y \<in> set (inord l). 0 < f y" "f a < 0 \<Longrightarrow> \<forall>y \<in> set (inord r). f y < 0"
    using 2(3) by (auto simp: in_order_def sorted_wrt_append)
  consider "f a < 0" "look f l (InLeft a k r # c) = (Tip, c')" | "0 < f a" "look f r (InRight l a k # c) = (Tip, c')"
    using 2(6) by (auto split: if_splits)
  then show ?case
  proof cases
    case 1
    then show ?thesis using 2(1) [OF _ 1(1)] 2(3-5) s(2) by (simp add: ball_Un)
  next
    case b: 2
    then show ?thesis using 2(2) [OF _ _ ] 2(3-5) s(1) by (simp add: ball_Un)
  qed
qed auto

lemma look_complete:
  assumes "in_order f (inord t)" "look f t c = (Tip, c')" "x \<in> set (inord t)"
  shows "f x \<noteq> 0"
  using assms
proof (induction f t c rule: look.induct)
  case (2 f l a k r c)
  have o: "in_order f (inord l)" "in_order f (inord r)" "f a < 0 \<Longrightarrow> \<forall>y \<in> set (inord r). f y < 0" "0 < f a \<Longrightarrow> \<forall>y \<in> set (inord l). 0 < f y"
    using 2(3) by (auto simp: in_order_def sorted_wrt_append)
  show ?case using 2 o by (auto split: if_splits)
qed auto

lemma find_loop_rep:
  assumes "is_tree (anodes s) p t" "\<And>a. a \<in> set (inord t) \<Longrightarrow> cmp a = Some (f a)"
  shows "avl_find_loop cmp (ptr t) s = Some (ptr (fst (look f t c)))"
  using assms
proof (induction t arbitrary: p c)
  case Tip
  then show ?case by (simp add: avl_find_loop.simps)
next
  case (Bin l a k r)
  have n: "aget a s = Some \<lparr>left = ptr l, right = ptr r, parent = p, height = k\<rparr>" "a \<noteq> 0" "cmp a = Some (f a)"
    using Bin.prems by (simp_all add: aget_def)
  have "avl_find_loop cmp (ptr l) s = Some (ptr (fst (look f l (InLeft a k r # c))))"
    "avl_find_loop cmp (ptr r) s = Some (ptr (fst (look f r (InRight l a k # c))))"
    using Bin by auto
  then show ?case using n by (subst avl_find_loop.simps) simp
qed

lemma nearest_loop_rep:
  assumes "is_tree (anodes s) q t" "\<And>a. a \<in> set (inord t) \<Longrightarrow> cmp a = Some (f a)"
  shows "avl_nearest_loop cmp p (ptr t) s =
    Some (case look f t [] of (Bin l a k r, c) \<Rightarrow> a | (Tip, c) \<Rightarrow> if c = [] then p else up c)"
  using assms
proof (induction t arbitrary: p q)
  case Tip
  then show ?case by (simp add: avl_nearest_loop.simps)
next
  case (Bin l a k r)
  have n: "aget a s = Some \<lparr>left = ptr l, right = ptr r, parent = q, height = k\<rparr>" "a \<noteq> 0" "cmp a = Some (f a)"
    using Bin.prems by (simp_all add: aget_def)
  have app: "look f t (d @ e) = (fst (look f t d), snd (look f t d) @ e)" for t d e
    by (induction f t d rule: look.induct) auto
  have "avl_nearest_loop cmp a (ptr l) s = Some (case look f l [] of (Bin l a k r, c) \<Rightarrow> a | (Tip, c) \<Rightarrow> if c = [] then a else up c)"
    "avl_nearest_loop cmp a (ptr r) s = Some (case look f r [] of (Bin l a k r, c) \<Rightarrow> a | (Tip, c) \<Rightarrow> if c = [] then a else up c)"
    using Bin by auto
  moreover have "up (d @ [InLeft a k r]) = (if d = [] then a else up d)" "up (d @ [InRight l a k]) = (if d = [] then a else up d)" for d
    by (cases d; simp; case_tac aa; simp)+
  ultimately show ?case using n app [of l "[]" "[InLeft a k r]"] app [of r "[]" "[InRight l a k]"]
    by (subst avl_nearest_loop.simps) (auto split: prod.splits atree.splits)
qed

subsection \<open>Insertion\<close>

fun link_of :: "frame list \<Rightarrow> alink" where
  "link_of [] = RootLink"
| "link_of (InLeft a k r # c) = LeftLink a"
| "link_of (InRight l a k # c) = RightLink a"

lemma link_get_rep: "zrep s t c \<Longrightarrow> link_get (link_of c) s = Some (ptr t)"
  by (cases c rule: link_of.cases) (auto simp: link_get_def zrep_def aget_def)

lemma add_loop_rep:
  assumes "zrep s t c" "\<And>a. a \<in> set (inord t) \<Longrightarrow> cmp a = Some (f a)"
  shows "avl_add_loop cmp (up c) (link_of c) s =
    Some (case look f t c of (Tip, c') \<Rightarrow> (0, up c', link_of c') | (Bin l a k r, c') \<Rightarrow> (a, a, link_of c'))"
  using assms
proof (induction t arbitrary: c)
  case Tip
  then show ?case using link_get_rep [OF Tip(1)] by (subst avl_add_loop.simps) simp
next
  case (Bin l a k r)
  note N = zrep_node(1,2) [OF Bin.prems(1)]
  have "zrep s l (InLeft a k r # c)" "zrep s r (InRight l a k # c)" using Bin.prems(1) by (simp_all add: zrep_fill)
  note I = Bin.IH(1) [OF this(1)] Bin.IH(2) [OF this(2)]
  show ?case
    using link_get_rep [OF Bin.prems(1)] N(2) Bin.prems(2) I by (subst avl_add_loop.simps) simp
qed

lemma link_rep:
  assumes z: "zrep s Tip c" and x: "x \<noteq> 0" "x \<notin> cset c" "anodes s x \<noteq> None"
  shows "\<exists>s'. avl_node_link x (up c) (link_of c) s = Some s' \<and> zrep s' (Bin Tip x 0 Tip) c \<and> elsewhere s (insert x (cset c)) s'"
proof (cases c rule: link_of.cases)
  case 1
  then show ?thesis using z x by (auto simp: avl_node_link_def aupd_def link_set_def zrep_def elsewhere_def)
next
  case (2 a k r c')
  then have "a \<notin> set (inord r)" "a \<notin> cset c'" using z by (auto simp: zrep_def cset_def)
  then show ?thesis using z x unfolding 2
    by (auto simp: avl_node_link_def aupd_def link_set_def zrep_def elsewhere_def cset_def)
next
  case (3 l a k c')
  then have "a \<notin> set (inord l)" "a \<notin> cset c'" using z by (auto simp: zrep_def cset_def)
  then show ?thesis using z x unfolding 3
    by (auto simp: avl_node_link_def aupd_def link_set_def zrep_def elsewhere_def cset_def)
qed

lemma add_rep:
  assumes T: "trep s T" "avl_ok T" and x: "x \<noteq> 0" "x \<notin> set (inord T)" "anodes s x \<noteq> None"
    and cmp: "\<And>a. a \<in> set (inord T) \<Longrightarrow> cmp a = Some (f a)"
  shows "case look f T [] of
      (Bin l a k r, c) \<Rightarrow> avl_node_add x cmp s = Some (a, s)
    | (Tip, c) \<Rightarrow> \<exists>s'. avl_node_add x cmp s = Some (0, s') \<and> trep s' (ins_up (Bin Tip x 1 Tip) c) \<and>
        avl_ok (ins_up (Bin Tip x 1 Tip) c) \<and> elsewhere s (insert x (set (inord T))) s'"
proof -
  obtain t c where l: "look f T [] = (t, c)" by fastforce
  have loop: "avl_add_loop cmp 0 RootLink s =
    Some (case (t, c) of (Tip, c') \<Rightarrow> (0, up c', link_of c') | (Bin l a k r, c') \<Rightarrow> (a, a, link_of c'))"
    using add_loop_rep [of s T "[]", OF _ cmp] T(1) l by (simp add: trep_def)
  have p: "plug t c = T" using look_plug [OF l] by simp
  then have z: "zrep s t c" using T(1) trep_plug by auto
  have i: "set (inord T) = set (inord t) \<union> cset c" using p by (auto simp: cset_def inord_plug)
  show ?thesis
  proof (cases t)
    case Tip
    obtain s1 where s1: "avl_node_link x (up c) (link_of c) s = Some s1" "zrep s1 (Bin Tip x 0 Tip) c" "elsewhere s (insert x (cset c)) s1"
      using link_rep [of s c x] z x i Tip by auto
    obtain s2 where s2: "aupd x (\<lambda>n. n\<lparr>height := 1\<rparr>) s1 = Some s2" "zrep s2 (Bin Tip x 1 Tip) c" "elsewhere s1 (insert x (cset c)) s2"
      using set_height_rep [OF s1(2), of 1] by (auto simp: inord_plug cset_def)
    have ok: "avl_ok (plug Tip c)" using T(2) p Tip by simp
    obtain s3 where s3: "post_insert_loop (up c) s2 = Some s3" "trep s3 (ins_up (Bin Tip x 1 Tip) c)" "elsewhere s2 (insert x (cset c)) s3"
      using post_insert_loop_rep [OF s2(2) ok] by (auto simp: inord_plug cset_def)
    have "elsewhere s (insert x (set (inord T))) s3"
      using elsewhere_trans [OF elsewhere_trans [OF s1(3) s2(3)] s3(3)] i Tip by simp
    moreover have "avl_node_add x cmp s = Some (0, s3)"
      using loop s1(1) s2(1) s3(1) zrep_node(1) [OF s2(2)] Tip by (simp add: avl_node_add_def avl_node_post_insert_def)
    moreover have "avl_ok (ins_up (Bin Tip x 1 Tip) c)" by (rule ins_up_ok [OF ok]) auto
    ultimately show ?thesis using s3(2) l Tip by auto
  next
    case (Bin l' a k r)
    then have "a \<noteq> 0" using z by (simp add: zrep_def)
    then show ?thesis using loop l Bin by (simp add: avl_node_add_def)
  qed
qed

subsection \<open>Removal\<close>

lemma before_append: "before (d @ c) = before c @ before d" "after (d @ c) = after d @ after c"
  by (induction d rule: before.induct) auto

lemma plug_append: "plug t (d @ c) = plug (plug t d) c"
  by (induction d arbitrary: t) auto

lemma leftmost:
  "t \<noteq> Tip \<Longrightarrow> \<exists>b j m d. t = plug (Bin Tip b j m) d \<and> before d = [] \<and> hd (inord t) = b"
proof (induction t)
  case (Bin l a k r)
  show ?case
  proof (cases "l = Tip")
    case True
    then show ?thesis by (intro exI [of _ a] exI [of _ k] exI [of _ r] exI [of _ "[]"]) simp
  next
    case False
    then obtain b j m d where l: "l = plug (Bin Tip b j m) d" "before d = []" "hd (inord l) = b" using Bin.IH(1) by blast
    have "inord l \<noteq> []" using False by (simp add: inord_Nil)
    then show ?thesis using l
      by (intro exI [of _ b] exI [of _ j] exI [of _ m] exI [of _ "d @ [InLeft a k r]"]) (simp add: plug_append before_append)
  qed
qed simp

lemma is_ctx_reparent: "q \<notin> cset c \<Longrightarrow> is_ctx (reparent q p h) rt x c = is_ctx h rt x c"
  by (simp add: reparent_def)

text \<open>Taking a node with at most one child out: the two orders in which the code writes the pointers.\<close>

lemma unlink_core:
  assumes t: "is_tree h a t" and c: "is_ctx h rt a c" and a: "a \<noteq> 0" and d: "distinct (before c @ a # inord t @ after c)"
  shows "\<exists>h' rt'. avl_child_replace a (ptr t) (up c) \<lparr>anodes = reparent (ptr t) (up c) h, aroot = rt\<rparr> = Some \<lparr>anodes = h', aroot = rt'\<rparr> \<and>
      zrep \<lparr>anodes = h', aroot = rt'\<rparr> t c \<and> (\<forall>z. z \<notin> set (inord t) \<union> cset c \<longrightarrow> h' z = h z)"
    and "\<exists>h' rt'. avl_child_replace a (ptr t) (up c) \<lparr>anodes = h, aroot = rt\<rparr> = Some \<lparr>anodes = h', aroot = rt'\<rparr> \<and> is_tree h' a t \<and>
      zrep \<lparr>anodes = reparent (ptr t) (up c) h', aroot = rt'\<rparr> t c \<and> (\<forall>z. z \<notin> cset c \<longrightarrow> h' z = h z)"
proof -
  have D: "a \<notin> cset c" "distinct (before c @ after c)" "distinct (inord t)" "cset c \<inter> set (inord t) = {}"
    "distinct (before c @ inord t @ after c)" using d by (auto simp: cset_def)
  have p: "ptr t \<notin> cset c" using ptr_in [of t] D(4) is_ctx_nz [OF c] by (cases "t = Tip") auto
  let ?h = "reparent (ptr t) (up c) h"
  have t2: "is_tree ?h (up c) t" by (rule is_tree_reparent [OF t D(3)])
  have c2: "is_ctx ?h rt a c" using c is_ctx_reparent [OF p] by simp
  obtain h1 rt1 where h1: "avl_child_replace a (ptr t) (up c) \<lparr>anodes = ?h, aroot = rt\<rparr> = Some \<lparr>anodes = h1, aroot = rt1\<rparr>"
    "is_ctx h1 rt1 (ptr t) c" "\<forall>x. x \<notin> cset c \<longrightarrow> h1 x = ?h x"
    using child_replace_ctx [OF c2 a D(1,2)] by blast
  have "zrep \<lparr>anodes = h1, aroot = rt1\<rparr> t c" using h1(2) is_tree_away [OF h1(3) D(4)] t2 D(5) by (simp add: zrep_def)
  moreover have "h1 z = h z" if "z \<notin> set (inord t) \<union> cset c" for z
    using that h1(3) ptr_in [of t] by (cases "t = Tip") (auto simp: reparent_def)
  ultimately show "\<exists>h' rt'. avl_child_replace a (ptr t) (up c) \<lparr>anodes = ?h, aroot = rt\<rparr> = Some \<lparr>anodes = h', aroot = rt'\<rparr> \<and>
      zrep \<lparr>anodes = h', aroot = rt'\<rparr> t c \<and> (\<forall>z. z \<notin> set (inord t) \<union> cset c \<longrightarrow> h' z = h z)" using h1(1) by blast
  obtain h2 rt2 where h2: "avl_child_replace a (ptr t) (up c) \<lparr>anodes = h, aroot = rt\<rparr> = Some \<lparr>anodes = h2, aroot = rt2\<rparr>"
    "is_ctx h2 rt2 (ptr t) c" "\<forall>x. x \<notin> cset c \<longrightarrow> h2 x = h x"
    using child_replace_ctx [OF c a D(1,2)] by blast
  have t3: "is_tree h2 a t" using is_tree_away [OF h2(3) D(4)] t by simp
  then have "zrep \<lparr>anodes = reparent (ptr t) (up c) h2, aroot = rt2\<rparr> t c"
    using is_tree_reparent [OF t3 D(3)] h2(2) is_ctx_reparent [OF p] D(5) by (simp add: zrep_def)
  then show "\<exists>h' rt'. avl_child_replace a (ptr t) (up c) \<lparr>anodes = h, aroot = rt\<rparr> = Some \<lparr>anodes = h', aroot = rt'\<rparr> \<and> is_tree h' a t \<and>
      zrep \<lparr>anodes = reparent (ptr t) (up c) h', aroot = rt'\<rparr> t c \<and> (\<forall>z. z \<notin> cset c \<longrightarrow> h' z = h z)"
    using h2(1,3) t3 by blast
qed

text \<open>Putting the node \<open>b\<close>, which is in no tree, in the place of \<open>a\<close>.\<close>

lemma replace_core:
  assumes T: "is_tree h a l" "is_tree h a r" "is_ctx h rt a c" "a \<noteq> 0" "b \<noteq> 0" "distinct (before c @ inord l @ a # inord r @ after c)"
    and b: "b \<noteq> a" "b \<notin> set (inord l) \<union> set (inord r) \<union> cset c"
  shows "\<exists>h1 rt1. avl_child_replace a b (up c) \<lparr>anodes = h, aroot = rt\<rparr> = Some \<lparr>anodes = h1, aroot = rt1\<rparr> \<and>
    h1 a = h a \<and> is_tree h1 a l \<and> reparent (ptr l) b h1 a = h a \<and> is_tree (reparent (ptr l) b h1) a r \<and>
    reparent (ptr r) b (reparent (ptr l) b h1) a = h a \<and> reparent (ptr r) b (reparent (ptr l) b h1) b = h b \<and>
    zrep \<lparr>anodes = (reparent (ptr r) b (reparent (ptr l) b h1))(b \<mapsto> \<lparr>left = ptr l, right = ptr r, parent = up c, height = k\<rparr>),
      aroot = rt1\<rparr> (Bin l b k r) c \<and>
    (\<forall>z. z \<notin> set (inord l) \<union> set (inord r) \<union> cset c \<longrightarrow> reparent (ptr r) b (reparent (ptr l) b h1) z = h z)"
proof -
  have D: "a \<notin> cset c" "distinct (before c @ after c)" "distinct (inord l)" "distinct (inord r)" "cset c \<inter> set (inord l) = {}"
    "cset c \<inter> set (inord r) = {}" "set (inord l) \<inter> set (inord r) = {}" "a \<notin> set (inord l)" "a \<notin> set (inord r)"
    using T(6) by (auto simp: cset_def)
  obtain h1 rt1 where h1: "avl_child_replace a b (up c) \<lparr>anodes = h, aroot = rt\<rparr> = Some \<lparr>anodes = h1, aroot = rt1\<rparr>"
    "is_ctx h1 rt1 b c" "\<forall>x. x \<notin> cset c \<longrightarrow> h1 x = h x"
    using child_replace_ctx [OF T(3,4) D(1,2)] by blast
  have o1: "is_tree h1 a l" "is_tree h1 a r" "h1 a = h a" "h1 b = h b"
    using T(1,2) is_tree_away [OF h1(3)] D(1,5,6) h1(3) b by auto
  have pl: "ptr l \<notin> set (inord r)" "ptr l \<notin> cset c" "ptr l \<noteq> a" "ptr l \<noteq> b"
    using ptr_in [of l] D b T(4,5) is_tree_nz [OF T(2)] is_ctx_nz [OF T(3)] by (cases "l = Tip"; force)+
  have pr: "ptr r \<notin> set (inord l)" "ptr r \<notin> cset c" "ptr r \<noteq> a" "ptr r \<noteq> b"
    using ptr_in [of r] D b T(4,5) is_tree_nz [OF T(1)] is_ctx_nz [OF T(3)] by (cases "r = Tip"; force)+
  let ?h2 = "reparent (ptr l) b h1" let ?h3 = "reparent (ptr r) b ?h2"
  have o2: "is_tree ?h2 b l" "is_tree ?h2 a r" "?h2 a = h a" "?h2 b = h b"
    using is_tree_reparent [OF o1(1) D(3)] o1 pl by (simp_all add: is_tree_reparent_other) (auto simp: reparent_def)
  have o3: "is_tree ?h3 b l" "is_tree ?h3 b r" "is_ctx ?h3 rt1 b c" "?h3 a = h a" "?h3 b = h b"
    using is_tree_reparent [OF o2(2) D(4)] o2 pr pl h1(2)
    by (simp_all add: is_tree_reparent_other is_ctx_reparent) (auto simp: reparent_def)
  have "zrep \<lparr>anodes = ?h3(b \<mapsto> \<lparr>left = ptr l, right = ptr r, parent = up c, height = k\<rparr>), aroot = rt1\<rparr> (Bin l b k r) c"
    using o3 T(5,6) b by (auto simp: zrep_def cset_def)
  moreover have "?h3 z = h z" if "z \<notin> set (inord l) \<union> set (inord r) \<union> cset c" for z
    using that h1(3) ptr_in [of l] ptr_in [of r] by (cases "l = Tip"; cases "r = Tip") (auto simp: reparent_def)
  ultimately show ?thesis using h1(1) o1 o2 o3(4,5) by blast
qed

lemma node_all_fields:
  "(n :: avl_node)\<lparr>left := x, right := y, parent := p, height := k\<rparr> = \<lparr>left = x, right = y, parent = p, height = k\<rparr>"
  by (cases n) simp

lemma zrepD:
  assumes "zrep \<lparr>anodes = h, aroot = rt\<rparr> (Bin l a k r) c"
  shows "is_tree h a l" "is_tree h a r" "is_ctx h rt a c" "a \<noteq> 0" "distinct (before c @ inord l @ a # inord r @ after c)"
    "h a = Some \<lparr>left = ptr l, right = ptr r, parent = up c, height = k\<rparr>"
  using assms by (simp_all add: zrep_def)

lemma replace_rep:
  assumes z: "zrep s (Bin l a k r) c" and b: "b \<noteq> 0" "b \<notin> set (inord (plug (Bin l a k r) c))" "anodes s b \<noteq> None"
  shows "\<exists>s'. avl_node_replace a b s = Some s' \<and> zrep s' (Bin l b k r) c \<and> anodes s' a = anodes s a \<and>
    elsewhere s (insert b (set (inord (plug (Bin l a k r) c)))) s'"
proof -
  obtain h rt where s: "s = \<lparr>anodes = h, aroot = rt\<rparr>" by (cases s) simp
  note T = zrepD [OF z [unfolded s]]
  have b': "b \<noteq> a" "b \<notin> set (inord l) \<union> set (inord r) \<union> cset c" using b(2) by (auto simp: inord_plug cset_def)
  from replace_core [OF T(1-4) b(1) T(5) b', of k] obtain h1 rt1 where
    h1: "avl_child_replace a b (up c) \<lparr>anodes = h, aroot = rt\<rparr> = Some \<lparr>anodes = h1, aroot = rt1\<rparr>" "h1 a = h a" "is_tree h1 a l"
      "reparent (ptr l) b h1 a = h a" "is_tree (reparent (ptr l) b h1) a r"
      "reparent (ptr r) b (reparent (ptr l) b h1) a = h a" "reparent (ptr r) b (reparent (ptr l) b h1) b = h b"
      "zrep \<lparr>anodes = (reparent (ptr r) b (reparent (ptr l) b h1))(b \<mapsto> \<lparr>left = ptr l, right = ptr r, parent = up c, height = k\<rparr>),
        aroot = rt1\<rparr> (Bin l b k r) c"
      "\<forall>z. z \<notin> set (inord l) \<union> set (inord r) \<union> cset c \<longrightarrow> reparent (ptr r) b (reparent (ptr l) b h1) z = h z"
    by blast
  obtain nb where nb: "h b = Some nb" using b(3) s by auto
  have "avl_node_replace a b s = Some \<lparr>anodes = (reparent (ptr r) b (reparent (ptr l) b h1))
      (b \<mapsto> \<lparr>left = ptr l, right = ptr r, parent = up c, height = k\<rparr>), aroot = rt1\<rparr>"
    using T(6) h1(1,2,4,6,7) set_parent_tree [OF h1(3), of b rt1] set_parent_tree [OF h1(5), of b rt1] nb
    unfolding s avl_node_replace_def by (simp add: aget_def) (simp add: aupd_def node_all_fields)
  then show ?thesis using h1(6,8,9) b'(1) unfolding s elsewhere_def by (auto simp: inord_plug cset_def)
qed

text \<open>What both branches of \<^verbatim>\<open>avl_node_erase\<close> leave: the subtree \<open>m\<close> below the context \<open>c\<close>, one level lower than before.\<close>

lemma erase_finish:
  assumes z: "zrep s m c" and old: "avl_ok (plug t c)" and m: "avl_ok m" "hgt m = hgt t - 1"
  shows "\<exists>s' T. (if up c \<noteq> 0 then avl_node_rebalance (up c) s else Some s) = Some s' \<and> trep s' T \<and> avl_ok T \<and>
    inord T = inord (plug m c) \<and> elsewhere s (set (inord (plug m c))) s'"
proof (cases c)
  case Nil
  then show ?thesis using z m by (intro exI [of _ s] exI [of _ m]) (simp add: trep_def)
next
  case (Cons f d)
  have u: "up c \<noteq> 0" "up c = ptr (fill f m)" using zrep_up [OF z] Cons by (auto, cases f, auto)
  have o: "avl_ok (plug (fill f t) d)" using old Cons by simp
  have sh: "shrunk (hgt (fill f t)) (fill f m)" using fill_shrunk [OF avl_ok_plugD [OF o] m(1)] m(2) by simp
  have zf: "zrep s (fill f m) d" using z unfolding Cons zrep_fill .
  obtain s' where "avl_node_rebalance (up c) s = Some s'" "trep s' (reb_up (fill f m) d)" "elsewhere s (set (inord (plug m c))) s'"
    using rebalance_rep [OF zf o sh] u(2) Cons by auto
  moreover have "avl_ok (reb_up (fill f m) d)" by (rule reb_up_ok [OF o sh])
  moreover have "inord (reb_up (fill f m) d) = inord (plug m c)" unfolding inord_reb_up Cons by (simp add: inord_plug)
  ultimately show ?thesis using u(1) by (intro exI [of _ s'] exI [of _ "reb_up (fill f m) d"]) simp
qed

lemma erase_one:
  assumes z: "zrep s (Bin l a k r) c" and ok: "avl_ok (plug (Bin l a k r) c)" and e: "l = Tip \<or> r = Tip"
  shows "\<exists>s' T. avl_node_erase a s = Some s' \<and> trep s' T \<and> avl_ok T \<and>
    inord T = before c @ inord l @ inord r @ after c \<and> elsewhere s (set (inord (plug (Bin l a k r) c))) s'"
proof -
  obtain h rt where s: "s = \<lparr>anodes = h, aroot = rt\<rparr>" by (cases s) simp
  note T = zrepD [OF z [unfolded s]]
  define t where "t = (if l = Tip then r else l)"
  have t: "is_tree h a t" "inord t = inord l @ inord r" using T(1,2) e by (auto simp: t_def)
  have p: "(if ptr l = 0 then ptr r else ptr l) = ptr t" using is_tree_ptr_0 [OF T(1)] by (simp add: t_def)
  have okt: "avl_ok t" "hgt t = hgt (Bin l a k r) - 1"
    using avl_ok_plugD [OF ok] e hgt_nonneg [of l] hgt_nonneg [of r] by (auto simp: t_def)
  obtain h1 rt1 where h1: "avl_child_replace a (ptr t) (up c) \<lparr>anodes = h, aroot = rt\<rparr> = Some \<lparr>anodes = h1, aroot = rt1\<rparr>" "is_tree h1 a t"
    "zrep \<lparr>anodes = reparent (ptr t) (up c) h1, aroot = rt1\<rparr> t c" "\<forall>z. z \<notin> cset c \<longrightarrow> h1 z = h z"
    using unlink_core(2) [OF t(1) T(3,4)] T(5) t(2) by auto
  let ?s = "\<lparr>anodes = reparent (ptr t) (up c) h1, aroot = rt1\<rparr>"
  have "avl_node_erase a s = (if up c \<noteq> 0 then avl_node_rebalance (up c) ?s else Some ?s)"
    using T(4,6) e is_tree_ptr_0 [OF T(1)] is_tree_ptr_0 [OF T(2)] p h1(1) set_parent_tree [OF h1(2), of "up c" rt1]
    unfolding s avl_node_erase_def by (auto simp: aget_def Let_def)
  moreover have "elsewhere s (set (inord (plug t c))) ?s"
    using h1(4) ptr_in [of t] unfolding s elsewhere_def inord_plug by (cases "t = Tip") (auto simp: cset_def reparent_def)
  ultimately show ?thesis
    using erase_finish [OF h1(3) ok okt] elsewhere_trans t(2) by (auto simp: inord_plug elsewhere_def)
qed

lemma up_append: "up (d @ c) = (if d = [] then up c else up d)"
  by (cases d rule: up.cases) auto

lemma up_in: "d \<noteq> [] \<Longrightarrow> up d \<in> cset d"
  by (cases d rule: up.cases) auto

text \<open>The first half of the branch for two children: the successor \<open>b\<close> is taken out of the right subtree.\<close>

lemma erase_successor:
  assumes z: "zrep \<lparr>anodes = h, aroot = rt\<rparr> (Bin l a k (plug (Bin Tip b j m) d)) c"
  defines "D \<equiv> d @ InRight l a k # c"
  shows "\<exists>h1 rt1. set_parent (ptr m) (up D) \<lparr>anodes = h, aroot = rt\<rparr> = Some \<lparr>anodes = reparent (ptr m) (up D) h, aroot = rt\<rparr> \<and>
    avl_child_replace b (ptr m) (up D) \<lparr>anodes = reparent (ptr m) (up D) h, aroot = rt\<rparr> = Some \<lparr>anodes = h1, aroot = rt1\<rparr> \<and>
    zrep \<lparr>anodes = h1, aroot = rt1\<rparr> (Bin l a k (plug m d)) c \<and> h1 b = h b \<and> h b = Some \<lparr>left = 0, right = ptr m, parent = up D, height = j\<rparr> \<and>
    b \<noteq> 0 \<and> b \<notin> insert a (set (inord l) \<union> set (inord (plug m d)) \<union> cset c) \<and> (up D = a \<longleftrightarrow> d = []) \<and>
    (\<forall>z. z \<notin> insert a (set (inord l) \<union> set (inord (plug m d)) \<union> cset c) \<longrightarrow> h1 z = h z)"
proof -
  have zD: "zrep \<lparr>anodes = h, aroot = rt\<rparr> (Bin Tip b j m) D"
    using z unfolding D_def zrep_plug zrep_fill by simp
  note T = zrepD [OF zD]
  have d: "distinct (before D @ b # inord m @ after D)" using T(5) by simp
  have cs: "set (inord m) \<union> cset D = insert a (set (inord l) \<union> set (inord (plug m d)) \<union> cset c)"
    unfolding D_def by (auto simp: cset_def before_append inord_plug)
  obtain h1 rt1 where h1: "avl_child_replace b (ptr m) (up D) \<lparr>anodes = reparent (ptr m) (up D) h, aroot = rt\<rparr> = Some \<lparr>anodes = h1, aroot = rt1\<rparr>"
    "zrep \<lparr>anodes = h1, aroot = rt1\<rparr> m D" "\<forall>z. z \<notin> set (inord m) \<union> cset D \<longrightarrow> h1 z = h z"
    using unlink_core(1) [OF T(2,3,4) d] by blast
  have b: "b \<notin> set (inord m) \<union> cset D" using d by (auto simp: cset_def)
  moreover have "up D = a \<longleftrightarrow> d = []"
  proof -
    have "a \<notin> cset d" using T(5) unfolding D_def by (auto simp: cset_def before_append)
    then show ?thesis using up_in [of d] by (auto simp: D_def up_append)
  qed
  moreover have "zrep \<lparr>anodes = h1, aroot = rt1\<rparr> (Bin l a k (plug m d)) c"
    using h1(2) unfolding D_def zrep_plug zrep_fill by simp
  ultimately show ?thesis
    using h1(1,3) T(4,6) set_parent_tree [OF T(2), of "up D" rt] unfolding cs [symmetric] by auto
qed

lemma erase_swap:
  assumes z: "zrep s (Bin l a k r) c" and e: "l \<noteq> Tip" and r: "r = plug (Bin Tip b j m) d" "before d = []"
  defines "E \<equiv> d @ InRight l b k # c"
  shows "\<exists>s3. avl_node_erase a s = (if up E \<noteq> 0 then avl_node_rebalance (up E) s3 else Some s3) \<and> zrep s3 m E \<and>
    elsewhere s (set (inord (plug (Bin l a k r) c))) s3"
proof -
  obtain h rt where s: "s = \<lparr>anodes = h, aroot = rt\<rparr>" by (cases s) simp
  note T = zrepD [OF z [unfolded s]]
  define r' where "r' = plug m d"
  have ir: "inord r = b # inord r'" by (simp add: r r'_def inord_plug)
  let ?D = "d @ InRight l a k # c" let ?nb = "\<lparr>left = ptr l, right = ptr r', parent = up c, height = k\<rparr>"
  obtain h1 rt1 where S: "set_parent (ptr m) (up ?D) \<lparr>anodes = h, aroot = rt\<rparr> = Some \<lparr>anodes = reparent (ptr m) (up ?D) h, aroot = rt\<rparr>"
    "avl_child_replace b (ptr m) (up ?D) \<lparr>anodes = reparent (ptr m) (up ?D) h, aroot = rt\<rparr> = Some \<lparr>anodes = h1, aroot = rt1\<rparr>"
    "zrep \<lparr>anodes = h1, aroot = rt1\<rparr> (Bin l a k r') c" "h1 b = h b" "h b = Some \<lparr>left = 0, right = ptr m, parent = up ?D, height = j\<rparr>" "b \<noteq> 0"
    "b \<notin> insert a (set (inord l) \<union> set (inord r') \<union> cset c)" "up ?D = a \<longleftrightarrow> d = []"
    "\<forall>z. z \<notin> insert a (set (inord l) \<union> set (inord r') \<union> cset c) \<longrightarrow> h1 z = h z"
    using erase_successor [OF z [unfolded s r(1)]] unfolding r'_def by blast
  note U = zrepD [OF S(3)]
  let ?h = "h1(b \<mapsto> ?nb)"
  have U': "is_tree ?h a l" "is_tree ?h a r'" "is_ctx ?h rt1 a c" "?h a = h1 a" using U(1-3) S(7) by auto
  obtain h2 rt2 where R: "avl_child_replace a b (up c) \<lparr>anodes = ?h, aroot = rt1\<rparr> = Some \<lparr>anodes = h2, aroot = rt2\<rparr>" "h2 a = ?h a"
    "is_tree h2 a l" "reparent (ptr l) b h2 a = ?h a" "is_tree (reparent (ptr l) b h2) a r'"
    "reparent (ptr r') b (reparent (ptr l) b h2) b = ?h b"
    "zrep \<lparr>anodes = (reparent (ptr r') b (reparent (ptr l) b h2))(b \<mapsto> ?nb), aroot = rt2\<rparr> (Bin l b k r') c"
    "\<forall>z. z \<notin> set (inord l) \<union> set (inord r') \<union> cset c \<longrightarrow> reparent (ptr r') b (reparent (ptr l) b h2) z = ?h z"
    using replace_core [OF U'(1-3) U(4) S(6) U(5), of k] S(7) by blast
  let ?h3 = "reparent (ptr r') b (reparent (ptr l) b h2)" let ?s3 = "\<lparr>anodes = ?h3, aroot = rt2\<rparr>"
  have "?h3(b \<mapsto> ?nb) = ?h3" using R(6) by (intro fun_upd_idem) simp
  then have z3: "zrep ?s3 m E" using R(7) unfolding E_def zrep_plug zrep_fill r'_def by simp
  have par: "(if up ?D = a then b else up ?D) = up E" using S(8) by (simp add: E_def up_append)
  have sink: "sink_left (ptr r) s = Some b" using sink_left_rep [of s a r] T(2) ir s by (cases r) auto
  have pl: "ptr l \<noteq> 0" "ptr r \<noteq> 0" using is_tree_ptr_0 [OF T(1)] is_tree_ptr_0 [OF T(2)] e ir by auto
  have w: "aupd b (\<lambda>n. n\<lparr>left := ptr l, right := ptr r', parent := up c, height := k\<rparr>) \<lparr>anodes = h1, aroot = rt1\<rparr> = Some \<lparr>anodes = ?h, aroot = rt1\<rparr>"
    "aupd (ptr l) (\<lambda>n. n\<lparr>parent := b\<rparr>) \<lparr>anodes = h2, aroot = rt2\<rparr> = Some \<lparr>anodes = reparent (ptr l) b h2, aroot = rt2\<rparr>"
    using S(4,5) set_parent_tree [OF R(3), of b rt2] pl by (simp_all add: aupd_def node_all_fields set_parent_def)
  have "avl_node_erase a s = (if up E \<noteq> 0 then avl_node_rebalance (up E) ?s3 else Some ?s3)"
    unfolding par [symmetric] avl_node_erase_def
    using T(4,6) U(6) U'(4) R(2,4) S(4,5) w pl sink S(1,2) R(1) set_parent_tree [OF R(5), of b rt2]
    unfolding s by (simp add: aget_def Let_def)
  moreover have "elsewhere s (set (inord (plug (Bin l a k r) c))) ?s3"
    using R(8) S(9) unfolding s elsewhere_def inord_plug by (auto simp: ir cset_def)
  ultimately show ?thesis using z3 by blast
qed

lemma erase_two:
  assumes z: "zrep s (Bin l a k r) c" and ok: "avl_ok (plug (Bin l a k r) c)" and e: "l \<noteq> Tip" "r \<noteq> Tip"
  shows "\<exists>s' T. avl_node_erase a s = Some s' \<and> trep s' T \<and> avl_ok T \<and>
    inord T = before c @ inord l @ inord r @ after c \<and> elsewhere s (set (inord (plug (Bin l a k r) c))) s'"
proof -
  obtain b j m d where r: "r = plug (Bin Tip b j m) d" "before d = []" using leftmost [OF e(2)] by blast
  let ?E = "d @ InRight l b k # c" and ?A = "set (inord (plug (Bin l a k r) c))"
  obtain s3 where s3: "avl_node_erase a s = (if up ?E \<noteq> 0 then avl_node_rebalance (up ?E) s3 else Some s3)" "zrep s3 m ?E" "elsewhere s ?A s3"
    using erase_swap [OF z e(1) r] by blast
  have old: "avl_ok (plug (Bin Tip b j m) ?E)"
    using avl_ok_plug_same [OF ok, of "Bin l b k r"] avl_ok_plugD [OF ok] by (simp add: plug_append r(1))
  have m: "avl_ok m" "hgt m = hgt (Bin Tip b j m) - 1" using avl_ok_plugD [OF old] hgt_nonneg [of m] by auto
  have i: "inord (plug m ?E) = before c @ inord l @ inord r @ after c"
    by (simp add: plug_append inord_plug r(1,2))
  obtain s' T where f: "avl_node_erase a s = Some s'" "trep s' T" "avl_ok T" "inord T = inord (plug m ?E)" "elsewhere s3 (set (inord (plug m ?E))) s'"
    using erase_finish [OF s3(2) old m] unfolding s3(1) by blast
  have "elsewhere s3 ?A s'" using f(5) unfolding i elsewhere_def by (auto simp: inord_plug)
  then show ?thesis using f(1-4) i elsewhere_trans [OF s3(3)] by auto
qed

lemma erase_rep:
  assumes "zrep s (Bin l a k r) c" "avl_ok (plug (Bin l a k r) c)"
  shows "\<exists>s' T. avl_node_erase a s = Some s' \<and> trep s' T \<and> avl_ok T \<and>
    inord T = before c @ inord l @ inord r @ after c \<and> elsewhere s (set (inord (plug (Bin l a k r) c))) s'"
  using erase_one [OF assms] erase_two [OF assms] by blast

subsection \<open>Tearing down\<close>

lemma sink_leaf_rep:
  assumes "is_tree (anodes s) p t" "t \<noteq> Tip"
  shows "\<exists>b j d. t = plug (Bin Tip b j Tip) d \<and> sink_leaf (ptr t) s = Some b"
  using assms
proof (induction t arbitrary: p)
  case (Bin l a k r)
  have n: "aget a s = Some \<lparr>left = ptr l, right = ptr r, parent = p, height = k\<rparr>" using Bin.prems by (simp add: aget_def)
  have tl: "is_tree (anodes s) a l" "is_tree (anodes s) a r" using Bin.prems by auto
  note P = is_tree_ptr_0 [OF tl(1)] is_tree_ptr_0 [OF tl(2)]
  consider "l \<noteq> Tip" | "l = Tip" "r \<noteq> Tip" | "l = Tip" "r = Tip" by blast
  then show ?case
  proof cases
    case 1
    then obtain b j d where "l = plug (Bin Tip b j Tip) d" "sink_leaf (ptr l) s = Some b" using Bin.IH(1) [OF tl(1)] by blast
    then show ?thesis using n 1 P
      by (intro exI [of _ b] exI [of _ j] exI [of _ "d @ [InLeft a k r]"]) (subst sink_leaf.simps, simp add: plug_append)
  next
    case 2
    then obtain b j d where "r = plug (Bin Tip b j Tip) d" "sink_leaf (ptr r) s = Some b" using Bin.IH(2) [OF tl(2)] by blast
    then show ?thesis using n 2 P
      by (intro exI [of _ b] exI [of _ j] exI [of _ "d @ [InRight l a k]"]) (subst sink_leaf.simps, simp add: plug_append)
  next
    case 3
    then show ?thesis using n by (intro exI [of _ a] exI [of _ k] exI [of _ "[]"]) (subst sink_leaf.simps, simp)
  qed
qed simp

lemma tear_rep:
  assumes z: "zrep s t c" "t \<noteq> Tip" and n: "nxt = ptr t \<or> nxt = 0 \<and> c = []"
  shows "\<exists>b D s'. avl_node_tear nxt s = Some (b, up D, s') \<and> b \<noteq> 0 \<and> zrep s' Tip D \<and> inord (plug t c) = before D @ b # after D \<and>
    anodes s' b \<noteq> None \<and> elsewhere s (set (inord (plug t c))) s'"
proof -
  have t: "is_tree (anodes s) (up c) t" using z(1) by (simp add: zrep_def)
  obtain b j d where b: "t = plug (Bin Tip b j Tip) d" "sink_leaf (ptr t) s = Some b" using sink_leaf_rep [OF t z(2)] by blast
  let ?D = "d @ c"
  obtain h rt where s: "s = \<lparr>anodes = h, aroot = rt\<rparr>" by (cases s) simp
  have zb: "zrep \<lparr>anodes = h, aroot = rt\<rparr> (Bin Tip b j Tip) ?D" using z(1) unfolding zrep_plug b(1) s .
  note T = zrepD [OF zb]
  have i: "inord (plug t c) = before ?D @ b # after ?D" unfolding b(1) plug_append [symmetric] by (simp add: inord_plug)
  have "ptr t \<noteq> 0" using is_tree_ptr_0 [OF t] z(2) by simp
  then have node: "(if nxt = 0 then aroot s else nxt) = ptr t" "ptr t \<noteq> 0" using n z(1) by (auto simp: zrep_def)
  show ?thesis
  proof (cases "?D = []")
    case True
    have "avl_node_tear nxt s = Some (b, 0, s\<lparr>aroot := 0\<rparr>)"
      using node b(2) T(6) True unfolding avl_node_tear_def s by (simp add: aget_def Let_def)
    then show ?thesis using T True i
      by (intro exI [of _ b] exI [of _ "[]"] exI [of _ "s\<lparr>aroot := 0\<rparr>"]) (simp add: zrep_def s elsewhere_def)
  next
    case False
    then have u: "up ?D \<noteq> 0" using zrep_up [OF zb] by simp
    have "distinct (before ?D @ b # inord Tip @ after ?D)" using T(5) by simp
    from unlink_core(2) [OF _ T(3,4) this] obtain h1 rt1 where
      h1: "avl_child_replace b 0 (up ?D) \<lparr>anodes = h, aroot = rt\<rparr> = Some \<lparr>anodes = h1, aroot = rt1\<rparr>"
        "zrep \<lparr>anodes = h1, aroot = rt1\<rparr> Tip ?D" "\<forall>z. z \<notin> cset ?D \<longrightarrow> h1 z = h z"
      by (auto simp: reparent_def)
    have b': "b \<notin> cset ?D" using T(5) by (auto simp: cset_def)
    have hb: "h1 b = h b" using h1(3) b' by simp
    let ?s = "\<lparr>anodes = h1(b \<mapsto> \<lparr>left = 0, right = 0, parent = up ?D, height = 0\<rparr>), aroot = rt1\<rparr>"
    obtain p where p: "h (up ?D) = Some p" using h1(1) u by (auto simp: avl_child_replace_def aget_def monad_simps)
    have "avl_node_tear nxt s = Some (b, up ?D, ?s)"
      using node b(2) T(6) u h1(1) hb p unfolding avl_node_tear_def s avl_child_replace_def
      by (auto simp: aget_def Let_def aupd_def split: if_splits)
    moreover have "zrep ?s Tip ?D" using h1(2) b' by (simp add: zrep_def)
    ultimately show ?thesis using T(4) i h1(3)
      by (intro exI [of _ b] exI [of _ ?D] exI [of _ ?s]) (auto simp: s elsewhere_def cset_def)
  qed
qed

lemma clear_loop_rep:
  assumes "zrep (root tree) t c" "t \<noteq> Tip \<and> nxt = ptr t \<or> nxt = 0 \<and> c = []"
  shows "\<exists>ds' tree'. avl_clear_loop nxt ds tree = Some (ds @ ds', tree') \<and> aroot (root tree') = 0 \<and>
    mset ds' = mset (map (\<lambda>n. AVL_NODE2DATA n (offset tree)) (inord (plug t c))) \<and>
    t_count tree' = t_count tree - word_of_nat (length (inord (plug t c)))"
  using assms
proof (induction "length (inord (plug t c))" arbitrary: tree t c nxt ds rule: less_induct)
  case less
  show ?case
  proof (cases "t = Tip")
    case True
    then have "avl_node_tear nxt (root tree) = Some (0, 0, root tree)" "aroot (root tree) = 0" "c = []"
      using less.prems by (auto simp: avl_node_tear_def zrep_def)
    then show ?thesis using True by (subst avl_clear_loop.simps) simp
  next
    case False
    obtain b D s where b: "avl_node_tear nxt (root tree) = Some (b, up D, s)" "b \<noteq> 0" "zrep s Tip D"
      "inord (plug t c) = before D @ b # after D" "anodes s b \<noteq> None"
      using tear_rep [OF less.prems(1) False] less.prems(2) by blast
    have "distinct (before c @ inord t @ after c)" using less.prems(1) by (simp add: zrep_def)
    then have "distinct (before D @ b # after D)" using b(4) by (metis inord_plug)
    then have bD: "b \<notin> cset D" by (auto simp: cset_def)
    obtain nd where nd: "anodes s b = Some nd" using b(5) by auto
    let ?s = "s\<lparr>anodes := (anodes s)(b \<mapsto> nd\<lparr>parent := b\<rparr>)\<rparr>"
    let ?tree = "tree\<lparr>root := ?s, t_count := t_count tree - 1\<rparr>" and ?ds = "ds @ [AVL_NODE2DATA b (offset tree)]"
    have zs: "zrep ?s Tip D" using b(3) bD by (simp add: zrep_def)
    have "\<exists>t' c'. zrep ?s t' c' \<and> (t' \<noteq> Tip \<and> up D = ptr t' \<or> up D = 0 \<and> c' = []) \<and> plug t' c' = plug Tip D"
    proof (cases D)
      case Nil
      then show ?thesis using zs by (intro exI [of _ Tip] exI [of _ "[]"]) simp
    next
      case (Cons f D')
      then show ?thesis using zs by (intro exI [of _ "fill f Tip"] exI [of _ D']) (cases f, auto simp: zrep_fill)
    qed
    then obtain t' c' where t': "zrep (root ?tree) t' c'" "t' \<noteq> Tip \<and> up D = ptr t' \<or> up D = 0 \<and> c' = []" "plug t' c' = plug Tip D"
      by auto
    have i': "inord (plug t' c') = before D @ after D" unfolding t'(3) by (simp add: inord_plug)
    obtain ds' tree' where r: "avl_clear_loop (up D) ?ds ?tree = Some (?ds @ ds', tree')" "aroot (root tree') = 0"
      "mset ds' = mset (map (\<lambda>n. AVL_NODE2DATA n (offset tree)) (inord (plug t' c')))"
      "t_count tree' = t_count ?tree - word_of_nat (length (inord (plug t' c')))"
      using less.hyps [OF _ t'(1,2), of ?ds] i' b(4) by auto
    have "avl_clear_loop nxt ds tree = Some (?ds @ ds', tree')"
      using b(1,2) nd r(1) by (subst avl_clear_loop.simps) (simp add: aupd_def)
    then show ?thesis using r(2-4) i' b(4)
      by (intro exI [of _ "AVL_NODE2DATA b (offset tree) # ds'"] exI [of _ tree']) (simp add: algebra_simps)
  qed
qed

end
