(* ===== verification/AvlContract.thy ===== *)
theory AvlContract
  imports AvlOps
begin

text \<open>
  What the AVL trees promise their users (the memory areas of a process): an ordered collection
  of nodes with search, insertion, removal and neighbours. The interface is the locale
  \<open>search_tree\<close>; \<open>avlmini.c\<close> provides it.
\<close>

subsection \<open>The interface\<close>

text \<open>Comparison by a key, and a client that adds a list of nodes.\<close>

definition by_key :: "(u64 \<Rightarrow> int) \<Rightarrow> int \<Rightarrow> u64 \<Rightarrow> int option" where
  "by_key key k a = Some (k - key a)"

fun add_all :: "(u64 \<Rightarrow> (u64 \<Rightarrow> int option) \<Rightarrow> 's \<Rightarrow> (u64 \<times> 's) option) \<Rightarrow> (u64 \<Rightarrow> int) \<Rightarrow> u64 list \<Rightarrow> 's \<Rightarrow> 's option" where
  "add_all add key [] s = Some s"
| "add_all add key (x # xs) s = do { (d, s) \<leftarrow> add x (by_key key (key x)) s; add_all add key xs s }"

lemma by_key_in_order: "sorted_wrt (\<lambda>x y. key x < key y) xs \<Longrightarrow> in_order (\<lambda>a. k - key a) xs"
  unfolding in_order_def by (erule sorted_wrt_mono_rel [rotated]) auto

lemma sorted_split:
  assumes "sorted_wrt (\<lambda>x y. key x < key y) (ys @ zs)" "\<forall>y \<in> set ys. key y < key x" "\<forall>z \<in> set zs. key x < key z"
  shows "sorted_wrt (\<lambda>x y. key x < (key y :: int)) (ys @ x # zs)"
  using assms by (auto simp: sorted_wrt_append)

text \<open>\<open>view s xs\<close>: the tree of \<open>s\<close> holds the nodes \<open>xs\<close>, in this order. \<open>keeps s A t\<close>: nodes outside \<open>A\<close> are untouched.\<close>

locale search_tree =
  fixes view :: "'s \<Rightarrow> u64 list \<Rightarrow> bool"
    and node :: "u64 \<Rightarrow> 's \<Rightarrow> bool"
    and keeps :: "'s \<Rightarrow> u64 set \<Rightarrow> 's \<Rightarrow> bool"
    and add :: "u64 \<Rightarrow> (u64 \<Rightarrow> int option) \<Rightarrow> 's \<Rightarrow> (u64 \<times> 's) option"
    and erase :: "u64 \<Rightarrow> 's \<Rightarrow> 's option"
    and find :: "(u64 \<Rightarrow> int option) \<Rightarrow> 's \<Rightarrow> u64 option"
    and prev :: "u64 \<Rightarrow> 's \<Rightarrow> u64 option"
  assumes add_law: "view s xs \<Longrightarrow> node x s \<Longrightarrow> x \<noteq> 0 \<Longrightarrow> x \<notin> set xs \<Longrightarrow> (\<And>a. a \<in> set xs \<Longrightarrow> cmp a = Some (f a)) \<Longrightarrow> in_order f xs \<Longrightarrow>
      (\<exists>a \<in> set xs. f a = 0 \<and> add x cmp s = Some (a, s)) \<or>
      (\<exists>ys zs t. xs = ys @ zs \<and> (\<forall>y \<in> set ys. 0 < f y) \<and> (\<forall>z \<in> set zs. f z < 0) \<and> add x cmp s = Some (0, t) \<and>
         view t (ys @ x # zs) \<and> keeps s (insert x (set xs)) t)"
    and erase_law: "view s (ys @ x # zs) \<Longrightarrow>
      \<exists>t. erase x s = Some t \<and> view t (ys @ zs) \<and> keeps s (insert x (set ys \<union> set zs)) t"
    and find_law: "view s xs \<Longrightarrow> (\<And>a. a \<in> set xs \<Longrightarrow> cmp a = Some (f a)) \<Longrightarrow> in_order f xs \<Longrightarrow>
      \<exists>r. find cmp s = Some r \<and> (if r = 0 then \<forall>a \<in> set xs. f a \<noteq> 0 else r \<in> set xs \<and> f r = 0)"
    and prev_law: "view s (ys @ x # zs) \<Longrightarrow> prev x s = Some (or_null last ys)"
    and keeps_node: "keeps s A t \<Longrightarrow> node x s \<Longrightarrow> x \<notin> A \<Longrightarrow> node x t"
    and view_distinct: "view s xs \<Longrightarrow> distinct xs"
begin

text \<open>Nodes with different keys, added in any order, come out sorted.\<close>

lemma add_all_sorts:
  assumes "view s xs" "sorted_wrt (\<lambda>x y. key x < key y) xs" "\<forall>n \<in> set ns. node n s \<and> n \<noteq> 0 \<and> n \<notin> set xs"
    "distinct ns" "inj_on key (set xs \<union> set ns)"
  shows "\<exists>t zs. add_all add key ns s = Some t \<and> view t zs \<and> sorted_wrt (\<lambda>x y. key x < key y) zs \<and> set zs = set xs \<union> set ns"
  using assms
proof (induction ns arbitrary: s xs)
  case (Cons n ns)
  have n: "node n s" "n \<noteq> 0" "n \<notin> set xs" using Cons.prems(3) by auto
  have "key a \<noteq> key n" if "a \<in> set xs" for a using Cons.prems(5) that n(3) by (auto simp: inj_on_def)
  then obtain ys zs t where t: "xs = ys @ zs" "\<forall>y \<in> set ys. 0 < key n - key y" "\<forall>z \<in> set zs. key n - key z < 0"
    "add n (by_key key (key n)) s = Some (0, t)" "view t (ys @ n # zs)" "keeps s (insert n (set xs)) t"
    using add_law [OF Cons.prems(1) n, of "by_key key (key n)" "\<lambda>a. key n - key a"] by_key_in_order [OF Cons.prems(2)]
    by (fastforce simp: by_key_def)
  have "\<forall>m \<in> set ns. node m t \<and> m \<noteq> 0 \<and> m \<notin> set (ys @ n # zs)"
    using Cons.prems(3,4) keeps_node [OF t(6)] t(1) by auto
  moreover have "sorted_wrt (\<lambda>x y. key x < key y) (ys @ n # zs)" using sorted_split [of key ys zs n] Cons.prems(2) t(1-3) by auto
  moreover have "inj_on key (set (ys @ n # zs) \<union> set ns)" using Cons.prems(5) t(1) by (simp add: insert_commute Un_assoc)
  ultimately obtain u vs where "add_all add key ns t = Some u" "view u vs" "sorted_wrt (\<lambda>x y. key x < key y) vs" "set vs = set (ys @ n # zs) \<union> set ns"
    using Cons.IH [OF t(5)] Cons.prems(4) by auto
  then show ?case using t(1,4) by auto
qed auto

text \<open>A node that was added is found by its key, and taking it out restores the collection.\<close>

lemma add_find_erase:
  assumes "view s xs" "sorted_wrt (\<lambda>x y. key x < key y) xs" "node n s" "n \<noteq> 0" "\<forall>x \<in> set xs. key x \<noteq> key n"
  shows "\<exists>t u. add n (by_key key (key n)) s = Some (0, t) \<and> find (by_key key (key n)) t = Some n \<and> erase n t = Some u \<and> view u xs"
proof -
  have n: "n \<notin> set xs" using assms(5) by auto
  obtain ys zs t where t: "xs = ys @ zs" "\<forall>y \<in> set ys. 0 < key n - key y" "\<forall>z \<in> set zs. key n - key z < 0"
    "add n (by_key key (key n)) s = Some (0, t)" "view t (ys @ n # zs)"
    using add_law [OF assms(1,3,4) n, of "by_key key (key n)" "\<lambda>a. key n - key a"] by_key_in_order [OF assms(2)] assms(5)
    by (fastforce simp: by_key_def)
  have so: "sorted_wrt (\<lambda>x y. key x < key y) (ys @ n # zs)" using sorted_split [of key ys zs n] assms(2) t(1-3) by auto
  obtain r where r: "find (by_key key (key n)) t = Some r"
    "if r = 0 then \<forall>a \<in> set (ys @ n # zs). key n - key a \<noteq> 0 else r \<in> set (ys @ n # zs) \<and> key n - key r = 0"
    using find_law [OF t(5), of "by_key key (key n)" "\<lambda>a. key n - key a"] by_key_in_order [OF so] by (auto simp: by_key_def)
  have "r = n" using r(2) t(1) assms(5) by (auto split: if_splits)
  moreover obtain u where "erase n t = Some u" "view u (ys @ zs)" using erase_law [OF t(5)] by blast
  ultimately show ?thesis using t(1,4) r(1) by auto
qed

end

subsection \<open>avlmini.c provides it\<close>

definition avl_view :: "avl \<Rightarrow> u64 list \<Rightarrow> bool" where
  "avl_view s xs \<longleftrightarrow> (\<exists>T. trep s T \<and> avl_ok T \<and> inord T = xs)"

definition avl_has :: "u64 \<Rightarrow> avl \<Rightarrow> bool" where
  "avl_has x s \<longleftrightarrow> anodes s x \<noteq> None"

lemma focus: "x \<in> set (inord t) \<Longrightarrow> \<exists>l k r d. t = plug (Bin l x k r) d"
proof (induction t)
  case (Bin l a k r)
  consider "x = a" | "x \<in> set (inord l)" | "x \<in> set (inord r)" using Bin.prems by auto
  then show ?case
  proof cases
    case 1
    then show ?thesis by (intro exI [of _ l] exI [of _ k] exI [of _ r] exI [of _ "[]"]) simp
  next
    case 2
    then obtain l' k' r' d where "l = plug (Bin l' x k' r') d" using Bin.IH(1) by blast
    then show ?thesis by (intro exI [of _ l'] exI [of _ k'] exI [of _ r'] exI [of _ "d @ [InLeft a k r]"]) (simp add: plug_append)
  next
    case 3
    then obtain l' k' r' d where "r = plug (Bin l' x k' r') d" using Bin.IH(2) by blast
    then show ?thesis by (intro exI [of _ l'] exI [of _ k'] exI [of _ r'] exI [of _ "d @ [InRight l a k]"]) (simp add: plug_append)
  qed
qed simp

lemma trep_distinct: "trep s T \<Longrightarrow> distinct (inord T)"
  by (simp add: trep_def zrep_def)

lemma focus_view:
  assumes "trep s T" "inord T = ys @ x # zs"
  obtains l k r c where "T = plug (Bin l x k r) c" "zrep s (Bin l x k r) c" "before c @ inord l = ys" "inord r @ after c = zs"
proof -
  have "x \<in> set (inord T)" using assms(2) by simp
  then obtain l k r c where c: "T = plug (Bin l x k r) c" using focus by blast
  have "(before c @ inord l) @ x # (inord r @ after c) = ys @ x # zs" using assms(2) c by (simp add: inord_plug)
  moreover have "x \<notin> set ys" "x \<notin> set zs" using trep_distinct [OF assms(1)] assms(2) by simp_all
  ultimately have e: "before c @ inord l = ys" "inord r @ after c = zs" by (metis append_Cons_eq_iff)+
  show thesis using that [OF c _ e] c assms(1) trep_plug by simp
qed

interpretation avl: search_tree avl_view avl_has elsewhere avl_node_add avl_node_erase avl_node_find avl_node_prev
proof (unfold_locales, goal_cases)
  case (1 s xs x cmp f)
  obtain T where T: "trep s T" "avl_ok T" "inord T = xs" using 1(1) by (auto simp: avl_view_def)
  have x: "x \<notin> set (inord T)" "anodes s x \<noteq> None" "\<And>a. a \<in> set (inord T) \<Longrightarrow> cmp a = Some (f a)" using 1 T(3) by (auto simp: avl_has_def)
  obtain t c where l: "look f T [] = (t, c)" by fastforce
  note A = add_rep [OF T(1,2) 1(3) x(1,2), of cmp f, OF x(3)]
  show ?case
  proof (cases t)
    case Tip
    have "(\<forall>y \<in> set (before c). 0 < f y) \<and> (\<forall>y \<in> set (after c). f y < 0)"
      using look_split [of f "[]" T c] 1(6) T(3) l Tip by simp
    moreover have "xs = before c @ after c" using look_plug [OF l] Tip T(3) by (auto simp: inord_plug)
    moreover obtain s' where "avl_node_add x cmp s = Some (0, s')" "trep s' (ins_up (Bin Tip x 1 Tip) c)" "avl_ok (ins_up (Bin Tip x 1 Tip) c)"
      "elsewhere s (insert x (set xs)) s'" using A l Tip T(3) x(3) by auto
    moreover have "inord (ins_up (Bin Tip x 1 Tip) c) = before c @ x # after c" by (simp add: inord_ins_up)
    ultimately show ?thesis unfolding avl_view_def by blast
  next
    case (Bin l' a k r)
    then show ?thesis using A l look_found [of f T "[]" l' a k r c] T(3) x(3) by auto
  qed
next
  case (2 s ys x zs)
  obtain T where T: "trep s T" "avl_ok T" "inord T = ys @ x # zs" using 2 by (auto simp: avl_view_def)
  obtain l k r c where c: "T = plug (Bin l x k r) c" "zrep s (Bin l x k r) c" "before c @ inord l = ys" "inord r @ after c = zs"
    by (rule focus_view [OF T(1,3)])
  have "set (inord T) = insert x (set ys \<union> set zs)" using T(3) by auto
  moreover have "before c @ inord l @ inord r @ after c = ys @ zs" unfolding c(3,4) [symmetric] by simp
  ultimately show ?case using erase_rep [OF c(2)] T(2) c(1) by (auto simp: avl_view_def)
next
  case (3 s xs cmp f)
  obtain T where T: "trep s T" "avl_ok T" "inord T = xs" using 3(1) by (auto simp: avl_view_def)
  obtain t c where l: "look f T [] = (t, c)" by fastforce
  have t: "is_tree (anodes s) 0 T" "aroot s = ptr T" using T(1) by (simp_all add: trep_def zrep_def)
  have r: "avl_node_find cmp s = Some (ptr t)" using find_loop_rep [OF t(1), of cmp f "[]"] 3(2) T(3) l t(2) by (simp add: avl_node_find_def)
  show ?case
  proof (cases t)
    case Tip
    then show ?thesis using r look_complete [of f T "[]" c] 3(3) T(3) l by auto
  next
    case (Bin l' a k r')
    moreover have "a \<noteq> 0" using is_tree_nz [OF t(1)] look_found [of f T "[]" l' a k r' c] l Bin by auto
    ultimately show ?thesis using r look_found [of f T "[]" l' a k r' c] l T(3) by auto
  qed
next
  case (4 s ys x zs)
  obtain T where T: "trep s T" "avl_ok T" "inord T = ys @ x # zs" using 4 by (auto simp: avl_view_def)
  obtain l k r c where "zrep s (Bin l x k r) c" "before c @ inord l = ys" by (rule focus_view [OF T(1,3)])
  then show ?case using node_next_rep(2) by auto
next
  case (5 s A t x)
  then show ?case by (simp add: elsewhere_def avl_has_def)
next
  case (6 s xs)
  then show ?case using trep_distinct by (auto simp: avl_view_def)
qed

lemma avl_view_empty: "aroot s = 0 \<Longrightarrow> avl_view s []"
  by (auto simp: avl_view_def trep_def zrep_def intro!: exI [of _ Tip])

subsection \<open>Properties of the AVL trees\<close>

text \<open>A heap with three nodes of their own, not yet in any tree.\<close>

definition demo_anode :: avl_node where
  "demo_anode = \<lparr>left = 0, right = 0, parent = 0, height = 0\<rparr>"

definition demo_avl :: avl where
  "demo_avl = \<lparr>anodes = [0x10 \<mapsto> demo_anode, 0x20 \<mapsto> demo_anode, 0x30 \<mapsto> demo_anode], aroot = 0\<rparr>"

lemma demo_avl_view: "avl_view demo_avl []" "avl_has 0x10 demo_avl" "avl_has 0x20 demo_avl" "avl_has 0x30 demo_avl"
  by (simp_all add: avl_view_empty avl_has_def demo_avl_def)

lemma demo_avl_two: "\<exists>s. avl_view s [0x10, 0x20] \<and> avl_has 0x30 s"
proof -
  obtain t where t: "avl_view t [0x10]" "elsewhere demo_avl {0x10} t"
    using avl.add_law [OF demo_avl_view(1,2), of "\<lambda>_. Some 0" "\<lambda>_. 0"] by (auto simp: in_order_def)
  then have "avl_has 0x20 t" "avl_has 0x30 t" using avl.keeps_node demo_avl_view(3,4) by auto
  then show ?thesis
    using avl.add_law [OF t(1), of "0x20" "\<lambda>_. Some 1" "\<lambda>_. 1"] avl.keeps_node [of t _ _ "0x30"] by (fastforce simp: in_order_def append_eq_Cons_conv)
qed

text \<open>
  C6: \<^verbatim>\<open>avl_node_add\<close> on the pointers implements insertion into an ordered list: with a comparison that
  respects the order it always returns; it reports a node that compares equal and leaves the
  tree alone, or links the new node in at the one place where every node before compares smaller and every
  node after larger. Parent pointers, stored heights, balance and root pointer are right again,
  and no other node of the heap has changed.
\<close>

theorem avl_add_correct:
  assumes "avl_view s xs" "avl_has x s" "x \<noteq> 0" "x \<notin> set xs" "\<And>a. a \<in> set xs \<Longrightarrow> cmp a = Some (f a)" "in_order f xs"
  shows "(\<exists>a \<in> set xs. f a = 0 \<and> avl_node_add x cmp s = Some (a, s)) \<or>
    (\<exists>ys zs t. xs = ys @ zs \<and> (\<forall>y \<in> set ys. 0 < f y) \<and> (\<forall>z \<in> set zs. f z < 0) \<and> avl_node_add x cmp s = Some (0, t) \<and>
       avl_view t (ys @ x # zs) \<and> elsewhere s (insert x (set xs)) t)"
  by (rule avl.add_law [OF assms])

theorem avl_add_correct_witness:
  "\<exists>s t. avl_view s [0x10, 0x20] \<and> avl_node_add 0x30 (\<lambda>a. Some (0x18 - uint a)) s = Some (0, t) \<and> avl_view t [0x10, 0x30, 0x20]"
proof -
  obtain s where s: "avl_view s [0x10, 0x20]" "avl_has 0x30 s" using demo_avl_two by blast
  have o: "in_order (\<lambda>a. 0x18 - uint a) [0x10, 0x20]" by (simp add: in_order_def)
  obtain ys zs t where t: "[0x10, 0x20] = ys @ zs" "\<forall>y \<in> set ys. 0 < 0x18 - uint y" "\<forall>z \<in> set zs. 0x18 - uint z < 0"
    "avl_node_add 0x30 (\<lambda>a. Some (0x18 - uint a)) s = Some (0, t)" "avl_view t (ys @ 0x30 # zs)"
    using avl_add_correct [OF s, of "\<lambda>a. Some (0x18 - uint a)" "\<lambda>a. 0x18 - uint a"] o by auto
  have "ys = [0x10] \<and> zs = [0x20]" using t(1-3) by (auto simp: Cons_eq_append_conv)
  then show ?thesis using s(1) t(4,5) by auto
qed

text \<open>
  C11: \<^verbatim>\<open>avl_node_erase\<close> of a node of the tree always returns and takes exactly that node out of the ordered list,
  keeping tree, balance and the rest of the heap; before it, \<^verbatim>\<open>avl_node_prev\<close> and \<^verbatim>\<open>avl_node_next\<close> return the
  neighbours in the order, NULL at the ends.
\<close>

theorem avl_erase_correct:
  assumes "avl_view s (ys @ x # zs)"
  shows "avl_node_prev x s = Some (or_null last ys) \<and> avl_node_next x s = Some (or_null hd zs) \<and>
    (\<exists>t. avl_node_erase x s = Some t \<and> avl_view t (ys @ zs) \<and> elsewhere s (insert x (set ys \<union> set zs)) t)"
proof -
  obtain T where T: "trep s T" "avl_ok T" "inord T = ys @ x # zs" using assms by (auto simp: avl_view_def)
  obtain l k r c where "zrep s (Bin l x k r) c" "inord r @ after c = zs" by (rule focus_view [OF T(1,3)])
  then have "avl_node_next x s = Some (or_null hd zs)" using node_next_rep(1) by auto
  then show ?thesis using avl.prev_law [OF assms] avl.erase_law [OF assms] by blast
qed

theorem avl_erase_correct_witness:
  "\<exists>s t. avl_view s [0x10, 0x20] \<and> avl_node_prev 0x20 s = Some 0x10 \<and> avl_node_erase 0x20 s = Some t \<and> avl_view t [0x10]"
proof -
  obtain s where s: "avl_view s [0x10, 0x20]" using demo_avl_two by blast
  then show ?thesis using avl_erase_correct [of s "[0x10]" "0x20" "[]"] by (auto simp: or_null_def)
qed

text \<open>
  The height stored in the root bounds every search: a tree of \<open>n\<close> nodes has height \<open>h\<close> with
  \<open>2 ^ h \<le> (n + 1)\<^sup>2\<close>, at most twice the binary logarithm of \<open>n + 1\<close>.
\<close>

theorem avl_height_bound:
  assumes "avl_view s xs" "aroot s \<noteq> 0"
  shows "\<exists>n. aget (aroot s) s = Some n \<and> 0 < height n \<and> 2 ^ nat (height n) \<le> (Suc (length xs))\<^sup>2"
proof -
  obtain T where T: "trep s T" "avl_ok T" "inord T = xs" using assms(1) by (auto simp: avl_view_def)
  have z: "zrep s T []" "aroot s = ptr T" using T(1) by (simp_all add: trep_def zrep_def)
  obtain l a k r where t: "T = Bin l a k r" using assms(2) z(2) by (cases T) auto
  have "0 < k" using T(2) hgt_nonneg [of l] hgt_nonneg [of r] unfolding t by auto
  then show ?thesis using zrep_node(1) [OF z(1) [unfolded t]] avl_height_log [OF T(2)] z(2) T(3) t by auto
qed

theorem avl_height_bound_witness:
  "\<exists>s n. avl_view s [0x10, 0x20] \<and> aget (aroot s) s = Some n \<and> 2 ^ nat (height n) \<le> (9::nat)"
proof -
  obtain s where s: "avl_view s [0x10, 0x20]" using demo_avl_two by blast
  have "aroot s \<noteq> 0" using s is_tree_nz [of "anodes s" 0] by (auto simp: avl_view_def trep_def zrep_def) (metis inord.simps(1) is_tree_ptr_0 list.distinct(1))
  then show ?thesis using avl_height_bound [OF s] s by (auto simp: numeral_3_eq_3 [symmetric])
qed

text \<open>
  C36: \<^verbatim>\<open>avl_tree_clear\<close> terminates on every tree whose counter is right: every datum is handed to \<^verbatim>\<open>destroy\<close> exactly
  once, the tree is empty and the counter 0 afterwards, so that the final assertion holds.
\<close>

theorem avl_tree_clear_terminates:
  assumes "avl_view (root tree) xs" "t_count tree = word_of_nat (length xs)"
  shows "\<exists>ds tree'. avl_tree_clear tree = Some (ds, tree') \<and> mset ds = mset (map (\<lambda>n. AVL_NODE2DATA n (offset tree)) xs) \<and>
    avl_view (root tree') [] \<and> t_count tree' = 0"
proof -
  obtain T where T: "trep (root tree) T" "inord T = xs" using assms(1) by (auto simp: avl_view_def)
  have z: "zrep (root tree) T []" using T(1) by (simp add: trep_def)
  from clear_loop_rep [OF z, of 0 "[]"] T(2) assms(2) show ?thesis
    by (auto simp: avl_tree_clear_def avl_view_empty)
qed

theorem avl_tree_clear_terminates_witness:
  "\<exists>tree ds tree'. avl_view (root tree) [0x10, 0x20] \<and> avl_tree_clear tree = Some (ds, tree') \<and> mset ds = {#0x8, 0x18#}"
proof -
  obtain s where s: "avl_view s [0x10, 0x20]" using demo_avl_two by blast
  let ?tree = "\<lparr>root = s, offset = 8, t_size = 40, t_count = 2\<rparr>"
  obtain ds tree' where "avl_tree_clear ?tree = Some (ds, tree')" "mset ds = {#0x8, 0x18#}"
    using avl_tree_clear_terminates [of ?tree "[0x10, 0x20]"] s by (auto simp: AVL_NODE2DATA_def)
  then show ?thesis using s by (intro exI [of _ ?tree]) auto
qed

end
