(* ===== verification/KString.thy ===== *)
theory KString
  imports Machine
begin

text \<open>
  The string functions of \<^verbatim>\<open>lib/string/string.c\<close> on byte memory (\<^verbatim>\<open>memset\<close> is in theory \<open>Machine\<close>).
  A \<^verbatim>\<open>char\<close> is unsigned on RISC-V. Loops that stop only at a zero byte are partial: without
  one they have no result. A loop counter \<^verbatim>\<open>int i\<close> is a natural number.
\<close>

subsection \<open>The functions\<close>

function copy_loop :: "u64 \<Rightarrow> u64 \<Rightarrow> nat \<Rightarrow> nat \<Rightarrow> memory \<Rightarrow> memory" where
  "copy_loop des src n i m =
     (if i < n then copy_loop des src n (Suc i) (m(des + word_of_nat i := m (src + word_of_nat i))) else m)"
  by pat_completeness auto
termination by (relation "measure (\<lambda>(des, src, n, i, m). n - i)") auto

definition memmove :: "u64 \<Rightarrow> u64 \<Rightarrow> u64 \<Rightarrow> memory \<Rightarrow> memory" where
  "memmove str1 str2 n m = (if str1 = 0 \<or> str2 = 0 \<or> n \<le> 0 then m else copy_loop str1 str2 (unat n) 0 m)"

definition memcpy :: "u64 \<Rightarrow> u64 \<Rightarrow> u64 \<Rightarrow> memory \<Rightarrow> memory" where
  "memcpy des src n m = (if des = 0 \<or> src = 0 \<or> n \<le> 0 then m else copy_loop des src (unat n) 0 m)"

function strnlen_loop :: "memory \<Rightarrow> u64 \<Rightarrow> nat \<Rightarrow> nat \<Rightarrow> nat" where
  "strnlen_loop m s maxlen i = (if i < maxlen \<and> m (s + word_of_nat i) \<noteq> 0 then strnlen_loop m s maxlen (Suc i) else i)"
  by pat_completeness auto
termination by (relation "measure (\<lambda>(m, s, maxlen, i). maxlen - i)") auto

definition strnlen :: "memory \<Rightarrow> u64 \<Rightarrow> u64 \<Rightarrow> u64" where
  "strnlen m s maxlen = (if s = 0 then 0 else word_of_nat (strnlen_loop m s (unat maxlen) 0))"

partial_function (option) strlen_loop :: "memory \<Rightarrow> u64 \<Rightarrow> nat \<Rightarrow> nat option" where
  "strlen_loop m src i = (if m (src + word_of_nat i) \<noteq> 0 then strlen_loop m src (Suc i) else Some i)"

definition strlen :: "memory \<Rightarrow> u64 \<Rightarrow> u64 option" where
  "strlen m src = (if src = 0 then Some 0 else map_option word_of_nat (strlen_loop m src 0))"

function strcpy_safe_loop :: "u64 \<Rightarrow> u64 \<Rightarrow> nat \<Rightarrow> nat \<Rightarrow> memory \<Rightarrow> nat \<times> memory" where
  "strcpy_safe_loop dest src max_size i m =
     (if m (src + word_of_nat i) \<noteq> 0 \<and> i < max_size
      then strcpy_safe_loop dest src max_size (Suc i) (m(dest + word_of_nat i := m (src + word_of_nat i)))
      else (i, m))"
  by pat_completeness auto
termination by (relation "measure (\<lambda>(dest, src, max_size, i, m). max_size - i)") auto

definition strcpy_safe :: "u64 \<Rightarrow> u64 \<Rightarrow> u64 \<Rightarrow> memory \<Rightarrow> memory" where
  "strcpy_safe dest src max_size m =
     (if max_size \<le> 0 then m
      else if src = 0 \<or> dest = 0 then m
      else let (i, m) = strcpy_safe_loop dest src (unat max_size) 0 m in
        if i \<ge> unat max_size then m(dest + word_of_nat (i - 1) := 0) else m(dest + word_of_nat i := 0))"

partial_function (option) strcpy_loop :: "u64 \<Rightarrow> u64 \<Rightarrow> nat \<Rightarrow> memory \<Rightarrow> (nat \<times> memory) option" where
  "strcpy_loop dest src i m =
     (if m (src + word_of_nat i) \<noteq> 0 then strcpy_loop dest src (Suc i) (m(dest + word_of_nat i := m (src + word_of_nat i)))
      else Some (i, m))"

definition strcpy :: "u64 \<Rightarrow> u64 \<Rightarrow> memory \<Rightarrow> memory option" where
  "strcpy dest src m =
     (if src = 0 \<or> dest = 0 then Some m
      else do { (i, m) \<leftarrow> strcpy_loop dest src 0 m; Some (m(dest + word_of_nat i := 0)) })"

definition strncpy_safe :: "u64 \<Rightarrow> u64 \<Rightarrow> u64 \<Rightarrow> u64 \<Rightarrow> memory \<Rightarrow> memory" where
  "strncpy_safe dest src n max_size m =
     (if max_size \<le> 0 \<or> n \<le> 0 then m
      else if src = 0 \<or> dest = 0 then m
      else let (i, m) = strcpy_safe_loop dest src (min (unat n) (unat max_size)) 0 m in
        if i \<ge> unat max_size then m(dest + word_of_nat (i - 1) := 0) else m(dest + word_of_nat i := 0))"

definition strncpy :: "u64 \<Rightarrow> u64 \<Rightarrow> u64 \<Rightarrow> memory \<Rightarrow> memory" where
  "strncpy dest src n m =
     (if n \<le> 0 \<or> dest = 0 \<or> src = 0 then m
      else let (i, m) = strcpy_safe_loop dest src (unat n) 0 m in m(dest + word_of_nat i := 0))"

partial_function (option) strcmp_loop :: "memory \<Rightarrow> u64 \<Rightarrow> u64 \<Rightarrow> nat \<Rightarrow> int option" where
  "strcmp_loop m src des i =
     (let a = uint (m (src + word_of_nat i)); b = uint (m (des + word_of_nat i)) in
      if \<not> (a = 0 \<and> b = 0) then (if a - b \<noteq> 0 then Some (a - b) else strcmp_loop m src des (Suc i))
      else Some 0)"

definition strcmp :: "memory \<Rightarrow> u64 \<Rightarrow> u64 \<Rightarrow> int option" where
  "strcmp m src des =
     (if src = 0 \<and> des = 0 then Some 0
      else if src = 0 then Some (- uint (m des))
      else if des = 0 then Some (uint (m src))
      else strcmp_loop m src des 0)"

partial_function (option) strcat_loop :: "u64 \<Rightarrow> u64 \<Rightarrow> nat \<Rightarrow> memory \<Rightarrow> (u64 \<times> memory) option" where
  "strcat_loop p src i m =
     (if m (src + word_of_nat i) \<noteq> 0 then strcat_loop (p + 1) src (Suc i) (m(p := m (src + word_of_nat i)))
      else Some (p, m))"

definition strcat :: "u64 \<Rightarrow> u64 \<Rightarrow> memory \<Rightarrow> memory option" where
  "strcat dest src m =
     (if src = 0 \<or> dest = 0 then Some m
      else do {
        k \<leftarrow> strlen_loop m dest 0;
        (p, m) \<leftarrow> strcat_loop (dest + word_of_nat k) src 0 m;
        Some (m(p := 0)) })"

partial_function (option) strchr_loop :: "memory \<Rightarrow> u64 \<Rightarrow> int \<Rightarrow> u64 option" where
  "strchr_loop m p c =
     (if m p = 0 then Some 0 else if uint (m p) = c then Some p else strchr_loop m (p + 1) c)"

definition strchr :: "memory \<Rightarrow> u64 \<Rightarrow> int \<Rightarrow> u64 option" where
  "strchr m str c = (if str = 0 then Some 0 else strchr_loop m str c)"

partial_function (option) strrchr_loop :: "memory \<Rightarrow> u64 \<Rightarrow> u64 \<Rightarrow> int \<Rightarrow> u64 option" where
  "strrchr_loop m p lst c =
     (if m p = 0 then Some lst else if uint (m p) = c then strrchr_loop m (p + 1) p c else strrchr_loop m (p + 1) lst c)"

definition strrchr :: "memory \<Rightarrow> u64 \<Rightarrow> int \<Rightarrow> u64 option" where
  "strrchr m str c = (if str = 0 then Some 0 else strrchr_loop m str 0 c)"

function memcmp_loop :: "memory \<Rightarrow> u64 \<Rightarrow> u64 \<Rightarrow> nat \<Rightarrow> nat \<Rightarrow> int" where
  "memcmp_loop m s1 s2 n i =
     (if i < n then
        (let d = uint (m (s1 + word_of_nat i)) - uint (m (s2 + word_of_nat i)) in
         if d \<noteq> 0 then d else memcmp_loop m s1 s2 n (Suc i))
      else 0)"
  by pat_completeness auto
termination by (relation "measure (\<lambda>(m, s1, s2, n, i). n - i)") auto

definition memcmp :: "memory \<Rightarrow> u64 \<Rightarrow> u64 \<Rightarrow> u64 \<Rightarrow> int" where
  "memcmp m str1 str2 n =
     (if (str1 = 0 \<and> str2 = 0) \<or> n \<le> 0 then 0
      else if str1 = 0 then - uint (m str2)
      else if str2 = 0 then uint (m str1)
      else memcmp_loop m str1 str2 (unat n) 0)"

function memchr_loop :: "memory \<Rightarrow> u64 \<Rightarrow> int \<Rightarrow> nat \<Rightarrow> nat \<Rightarrow> u64" where
  "memchr_loop m p c n i =
     (if i < n then (if uint (m (p + word_of_nat i)) = c then p + word_of_nat i else memchr_loop m p c n (Suc i)) else 0)"
  by pat_completeness auto
termination by (relation "measure (\<lambda>(m, p, c, n, i). n - i)") auto

definition memchr :: "memory \<Rightarrow> u64 \<Rightarrow> int \<Rightarrow> u64 \<Rightarrow> u64" where
  "memchr m str c n = (if str = 0 \<or> n \<le> 0 then 0 else memchr_loop m str c (unat n) 0)"

declare copy_loop.simps [simp del] strnlen_loop.simps [simp del] strcpy_safe_loop.simps [simp del]
  memcmp_loop.simps [simp del] memchr_loop.simps [simp del]

subsection \<open>Strings in memory\<close>

definition cstr :: "memory \<Rightarrow> u64 \<Rightarrow> u8 list \<Rightarrow> bool" where
  "cstr m p s \<longleftrightarrow> (\<forall>i < length s. m (p + word_of_nat i) = s ! i) \<and> 0 \<notin> set s \<and> m (p + word_of_nat (length s)) = 0"

text \<open>Memory with the bytes \<open>xs\<close> written from address \<open>p\<close> on, and nothing else changed.\<close>

definition put :: "u64 \<Rightarrow> u8 list \<Rightarrow> memory \<Rightarrow> memory" where
  "put p xs m = (\<lambda>a. if unat (a - p) < length xs then xs ! unat (a - p) else m a)"

lemma put_Nil [simp]: "put p [] m = m"
  by (simp add: put_def)

lemma put_snoc:
  assumes "length xs < 2 ^ 64"
  shows "(put p xs m)(p + word_of_nat (length xs) := v) = put p (xs @ [v]) m"
proof
  fix a
  have n: "unat (word_of_nat (length xs) :: u64) = length xs" using assms by (simp add: unat_u64_of_nat)
  have "a = p + word_of_nat (length xs) \<longleftrightarrow> unat (a - p) = length xs"
  proof
    assume "unat (a - p) = length xs"
    then have "a - p = word_of_nat (length xs)" by (metis word_unat_eq_iff n)
    then show "a = p + word_of_nat (length xs)" by (simp add: algebra_simps)
  qed (simp add: n)
  then show "((put p xs m)(p + word_of_nat (length xs) := v)) a = put p (xs @ [v]) m a"
    by (auto simp: put_def nth_append)
qed

lemma put_other: "length xs \<le> unat (a - p) \<Longrightarrow> put p xs m a = m a"
  by (simp add: put_def)

lemma put_at: "i < length xs \<Longrightarrow> length xs < 2 ^ 64 \<Longrightarrow> put p xs m (p + word_of_nat i) = xs ! i"
  by (simp add: put_def unat_u64_of_nat)

text \<open>Writing from \<open>p\<close> on does not disturb the bytes of a string at \<open>q\<close>.\<close>

definition disjoint_from :: "u64 \<Rightarrow> nat \<Rightarrow> u64 \<Rightarrow> nat \<Rightarrow> bool" where
  "disjoint_from p n q k \<longleftrightarrow> (\<forall>j \<le> k. n \<le> unat (q + word_of_nat j - p))"

lemma put_cstr: "cstr m q s \<Longrightarrow> disjoint_from p (length xs) q (length s) \<Longrightarrow> cstr (put p xs m) q s"
  by (simp add: cstr_def disjoint_from_def put_other)

lemma cstr_put: "0 \<notin> set s \<Longrightarrow> length s < 2 ^ 64 - 1 \<Longrightarrow> cstr (put p (s @ [0]) m) p s"
  unfolding cstr_def by (auto simp: put_at nth_append)


lemma put_replace:
  assumes "length xs < 2 ^ 64"
  shows "(put p (xs @ [w]) m)(p + word_of_nat (length xs) := v) = put p (xs @ [v]) m"
  by (simp add: put_snoc [OF assms, symmetric])

lemma take_min_len: "take (min (length s) n) s = take n s"
  by (cases "n \<le> length s") simp_all

lemma take_cong_len: "min (length s) i = min (length s) j \<Longrightarrow> take i s = take j s"
  by (metis take_min_len)

lemma cstr_nth: "cstr m q s \<Longrightarrow> i \<le> length s \<Longrightarrow> m (q + word_of_nat i) \<noteq> 0 \<longleftrightarrow> i < length s"
  by (cases "i = length s") (auto simp: cstr_def in_set_conv_nth)

lemma cstr_byte: "cstr m q s \<Longrightarrow> i < length s \<Longrightarrow> m (q + word_of_nat i) = s ! i"
  by (simp add: cstr_def)

lemma put_read: "disjoint_from p n q k \<Longrightarrow> length xs \<le> n \<Longrightarrow> i \<le> k \<Longrightarrow>
    put p xs m (q + word_of_nat i) = m (q + word_of_nat i)"
  by (rule put_other) (auto simp: disjoint_from_def intro: order.trans)

subsection \<open>What the functions compute\<close>

lemma strlen_loop_cstr: "cstr m p s \<Longrightarrow> i \<le> length s \<Longrightarrow> strlen_loop m p i = Some (length s)"
proof (induction "length s - i" arbitrary: i)
  case 0
  then show ?case using cstr_nth [of m p s i] by (subst strlen_loop.simps) auto
next
  case (Suc d)
  then have "strlen_loop m p (Suc i) = Some (length s)" by simp
  then show ?case using Suc.prems Suc.hyps(2) cstr_nth [of m p s i] by (subst strlen_loop.simps) auto
qed

lemma strlen_cstr: "cstr m p s \<Longrightarrow> p \<noteq> 0 \<Longrightarrow> strlen m p = Some (word_of_nat (length s))"
  by (simp add: strlen_def strlen_loop_cstr)

lemma strnlen_loop_cstr: "cstr m p s \<Longrightarrow> i \<le> min n (length s) \<Longrightarrow> strnlen_loop m p n i = min n (length s)"
proof (induction "min n (length s) - i" arbitrary: i)
  case 0
  then show ?case using cstr_nth [of m p s i] by (subst strnlen_loop.simps) auto
next
  case (Suc d)
  then have "strnlen_loop m p n (Suc i) = min n (length s)" by (intro Suc.hyps(1)) linarith+
  then show ?case using Suc.prems Suc.hyps(2) cstr_nth [of m p s i] by (subst strnlen_loop.simps) auto
qed

lemma strcpy_safe_loop_cstr:
  assumes "cstr m src s" "disjoint_from dest n src (length s)" "length s < 2 ^ 64" "i \<le> min n (length s)"
  shows "strcpy_safe_loop dest src n i (put dest (take i s) m) =
    (min n (length s), put dest (take (min n (length s)) s) m)"
  using assms(4)
proof (induction "min n (length s) - i" arbitrary: i)
  case 0
  then have i: "i = min n (length s)" by simp
  have "put dest (take i s) m (src + word_of_nat i) = m (src + word_of_nat i)"
    using i by (intro put_read [OF assms(2)]) auto
  then have "\<not> (put dest (take i s) m (src + word_of_nat i) \<noteq> 0 \<and> i < n)"
    using cstr_nth [OF assms(1), of i] i by (auto simp: min_def split: if_splits)
  then show ?case using i by (subst strcpy_safe_loop.simps) (simp only: if_False)
next
  case (Suc d)
  then have i: "i < n" "i < length s" by linarith+
  have rd: "put dest (take i s) m (src + word_of_nat i) = s ! i"
    using i cstr_byte [OF assms(1), of i] by (subst put_read [OF assms(2)]) auto
  have nz: "s ! i \<noteq> 0" using assms(1) i nth_mem [of i s] by (metis cstr_def)
  have "(put dest (take i s) m)(dest + word_of_nat i := s ! i) = put dest (take (Suc i) s) m"
    using put_snoc [of "take i s" dest m "s ! i"] i assms(3) by (simp add: take_Suc_conv_app_nth)
  then show ?case using Suc.hyps(1) [of "Suc i"] Suc.hyps(2) i nz by (subst strcpy_safe_loop.simps) (simp add: rd)
qed

lemmas strcpy_safe_loop_start =
  strcpy_safe_loop_cstr [where i = 0, simplified]

text \<open>The copy keeps as many bytes as the limits \<open>n\<close> and \<open>max - 1\<close> allow, and ends it with a zero byte.\<close>

lemma safe_tail:
  assumes "0 < k" "k \<le> n" "length s < 2 ^ 64 - 1"
  shows "(let i = min n (length s) in (put dest (take i s) m)(dest + word_of_nat i := 0)) = put dest (take n s @ [0]) m"
    and "k = length (take n s) \<Longrightarrow> (put dest (take n s) m)(dest + word_of_nat (k - 1) := 0) = put dest (take (k - 1) s @ [0]) m"
proof -
  show "(let i = min n (length s) in (put dest (take i s) m)(dest + word_of_nat i := 0)) = put dest (take n s @ [0]) m"
    using put_snoc [of "take n s" dest m 0] assms(3) by (simp add: Let_def min.commute [of n] take_min_len)
next
  assume k: "k = length (take n s)"
  have l: "length (take (k - 1) s) = k - 1" "k - 1 < length s" using k assms(1) by (simp_all, linarith)
  have l3: "take n s = take k s" using k by (simp add: take_min_len)
  have "take n s = take (k - 1) s @ [s ! (k - 1)]"
    using take_Suc_conv_app_nth [OF l(2)] assms(1) l3 by simp
  then show "(put dest (take n s) m)(dest + word_of_nat (k - 1) := 0) = put dest (take (k - 1) s @ [0]) m"
    using put_replace [of "take (k - 1) s" dest "s ! (k - 1)" m 0] l(1) assms(3) k by simp
qed


lemma strcpy_safe_put:
  assumes "cstr m src s" "disjoint_from dest (unat max_size) src (length s)" "length s < 2 ^ 64 - 1"
    "src \<noteq> 0" "dest \<noteq> 0" "0 < max_size"
  shows "strcpy_safe dest src max_size m = put dest (take (unat max_size - 1) s @ [0]) m"
proof (cases "length s < unat max_size")
  case True
  then show ?thesis
    using assms strcpy_safe_loop_start [OF assms(1,2)] put_snoc [of s dest m 0]
    by (simp add: strcpy_safe_def word_gt_0)
next
  case False
  have "0 < unat max_size" using assms(6) by (simp add: word_less_nat_alt)
  then show ?thesis
    using False assms strcpy_safe_loop_start [OF assms(1,2)] safe_tail(2) [of "unat max_size" "unat max_size" s dest m]
    by (simp add: strcpy_safe_def word_gt_0 min_def)
qed

lemma strncpy_safe_put:
  assumes "cstr m src s" "disjoint_from dest (unat max_size) src (length s)" "length s < 2 ^ 64 - 1"
    "src \<noteq> 0" "dest \<noteq> 0" "0 < max_size" "0 < n"
  shows "strncpy_safe dest src n max_size m = put dest (take (min (unat n) (unat max_size - 1)) s @ [0]) m"
proof -
  let ?k = "min (unat n) (unat max_size)"
  have pos: "0 < unat max_size" using assms(6) by (simp add: word_less_nat_alt)
  have disj: "disjoint_from dest ?k src (length s)"
    using assms(2) by (auto simp: disjoint_from_def)
  note loop = strcpy_safe_loop_start [OF assms(1) disj]
  show ?thesis
  proof (cases "min ?k (length s) < unat max_size")
    case True
    then have "take ?k s = take (min (unat n) (unat max_size - 1)) s"
      by (intro take_cong_len) linarith
    moreover have "(put dest (take ?k s) m)(dest + word_of_nat (min ?k (length s)) := 0) = put dest (take ?k s @ [0]) m"
      using put_snoc [of "take ?k s" dest m 0] assms(3) by (simp add: min.commute)
    ultimately show ?thesis using True assms loop
      by (simp add: strncpy_safe_def word_gt_0 min.commute min.left_commute take_min_len) linarith
  next
    case False
    then have k: "?k = unat max_size" "unat max_size \<le> length s" by linarith+
    have e: "min (unat n) (unat max_size - 1) = unat max_size - 1" using False by linarith
    show ?thesis
      using assms loop safe_tail(2) [of "unat max_size" "unat max_size" s dest m] pos k
      unfolding e by (simp add: strncpy_safe_def word_gt_0 min_absorb1 min_absorb2)
  qed
qed

lemma strncpy_put:
  assumes "cstr m src s" "disjoint_from dest (unat n) src (length s)" "length s < 2 ^ 64 - 1"
    "src \<noteq> 0" "dest \<noteq> 0" "0 < n"
  shows "strncpy dest src n m = put dest (take (unat n) s @ [0]) m"
proof -
  have "(put dest (take (unat n) s) m)(dest + word_of_nat (min (unat n) (length s)) := 0) = put dest (take (unat n) s @ [0]) m"
    using put_snoc [of "take (unat n) s" dest m 0] assms(3) by (simp add: min.commute)
  then show ?thesis using assms strcpy_safe_loop_start [OF assms(1,2)]
    by (simp add: strncpy_def word_gt_0 take_min_len min.commute [of "unat n"])
qed

subsection \<open>Comparison\<close>

text \<open>The reference order: the sign of the first difference, a proper prefix being smaller.\<close>

fun lex_cmp :: "u8 list \<Rightarrow> u8 list \<Rightarrow> int" where
  "lex_cmp [] [] = 0"
| "lex_cmp [] (y # ys) = - uint y"
| "lex_cmp (x # xs) [] = uint x"
| "lex_cmp (x # xs) (y # ys) = (if x = y then lex_cmp xs ys else uint x - uint y)"

lemma cstr_tail: "cstr m p (x # xs) \<Longrightarrow> cstr m (p + 1) xs"
  unfolding cstr_def by (auto simp: algebra_simps dest: spec [of _ "Suc _"])

lemma strcmp_loop_shift:
  "cstr m p xs \<Longrightarrow> cstr m q ys \<Longrightarrow> p = a + word_of_nat i \<Longrightarrow> q = b + word_of_nat i \<Longrightarrow>
   strcmp_loop m a b i = Some (lex_cmp xs ys)"
proof (induction xs ys arbitrary: p q i rule: lex_cmp.induct)
  case (4 x xs y ys)
  have b: "m p = x" "m q = y" "x \<noteq> 0" using "4.prems" by (auto simp: cstr_def)
  have "strcmp_loop m a b (Suc i) = Some (lex_cmp xs ys)" if "x = y"
    by (rule 4(1) [OF that cstr_tail [OF 4(2)] cstr_tail [OF 4(3)]]) (simp_all add: 4 algebra_simps)
  then show ?case using b 4(4,5) by (subst strcmp_loop.simps) (auto simp: Let_def unsigned_eq_0_iff word_uint_eq_iff [symmetric])
qed (subst strcmp_loop.simps, auto simp: cstr_def Let_def dest: spec [of _ 0])+

lemma strcmp_lex: "cstr m p xs \<Longrightarrow> cstr m q ys \<Longrightarrow> p \<noteq> 0 \<Longrightarrow> q \<noteq> 0 \<Longrightarrow> strcmp m p q = Some (lex_cmp xs ys)"
  by (simp add: strcmp_def strcmp_loop_shift [of m p xs q ys p 0 q])

lemma lex_cmp_eq: "0 \<notin> set xs \<Longrightarrow> 0 \<notin> set ys \<Longrightarrow> lex_cmp xs ys = 0 \<longleftrightarrow> xs = ys"
  by (induction xs ys rule: lex_cmp.induct) (auto simp: unsigned_eq_0_iff word_uint_eq_iff [symmetric])

lemma lex_cmp_less: "0 \<notin> set xs \<Longrightarrow> 0 \<notin> set ys \<Longrightarrow> lex_cmp xs ys < 0 \<longleftrightarrow> (xs, ys) \<in> lexord {(a, b). a < b}"
proof (induction xs ys rule: lex_cmp.induct)
  case (2 y ys)
  then have "0 < uint y" by (simp add: word_less_def [of 0, simplified, symmetric] word_gt_0)
  then show ?case by simp
next
  case (4 x xs y ys)
  then show ?case by (auto simp: word_less_def)
qed (auto simp: not_less)

subsection \<open>Properties\<close>


text \<open>The string Hey at 0x100.\<close>

definition demo_mem :: memory where
  "demo_mem = put 0x100 ([72, 101, 121] @ [0]) (\<lambda>_. 255)"

lemma demo_cstr: "cstr demo_mem 0x100 [72, 101, 121]"
  unfolding demo_mem_def by (rule cstr_put) simp_all




end
