(* ===== verification/Sync.thy ===== *)
theory Sync
  imports Prelude
begin

text \<open>
  What several harts do with one reader-writer lock: the atomic operations of
  \<^verbatim>\<open>include/aco/atomic.h\<close>, the nested critical zones of \<^verbatim>\<open>kernel/cpu_critical.c\<close>, the spin lock of
  \<^verbatim>\<open>include/aco/spinlock.h\<close> and the lock built from them in \<^verbatim>\<open>include/aco/rwlock.h\<close>. Every hart executes its
  function one atomic operation at a time, in any interleaving: a \<open>point\<close> is the operation it executes
  next, and the step relation lets one hart move.
\<close>

subsection \<open>Atomic operations\<close>

text \<open>Each returns the value of the C function and the new value of the variable.\<close>

definition atomic_init :: "u32 \<Rightarrow> u32" where
  "atomic_init v = v"

definition atomic_fetch_and_add :: "u32 \<Rightarrow> u32 \<Rightarrow> u32 \<times> u32" where
  "atomic_fetch_and_add p v = (p, p + v)"

definition atomic_fetch_and_sub :: "u32 \<Rightarrow> u32 \<Rightarrow> u32 \<times> u32" where
  "atomic_fetch_and_sub p v = (p, p - v)"

definition atomic_fetch_and_or :: "u32 \<Rightarrow> u32 \<Rightarrow> u32 \<times> u32" where
  "atomic_fetch_and_or p v = (p, p OR v)"

definition atomic_fetch_and_and :: "u32 \<Rightarrow> u32 \<Rightarrow> u32 \<times> u32" where
  "atomic_fetch_and_and p v = (p, p AND v)"

definition atomic_fetch_and_xor :: "u32 \<Rightarrow> u32 \<Rightarrow> u32 \<times> u32" where
  "atomic_fetch_and_xor p v = (p, p XOR v)"

definition atomic_fetch_and_nand :: "u32 \<Rightarrow> u32 \<Rightarrow> u32 \<times> u32" where
  "atomic_fetch_and_nand p v = (p, NOT (p AND v))"

definition atomic_add_and_fetch :: "u32 \<Rightarrow> u32 \<Rightarrow> u32 \<times> u32" where
  "atomic_add_and_fetch p v = (let p = p + v in (p, p))"

definition atomic_sub_and_fetch :: "u32 \<Rightarrow> u32 \<Rightarrow> u32 \<times> u32" where
  "atomic_sub_and_fetch p v = (let p = p - v in (p, p))"

definition atomic_or_and_fetch :: "u32 \<Rightarrow> u32 \<Rightarrow> u32 \<times> u32" where
  "atomic_or_and_fetch p v = (let p = p OR v in (p, p))"

definition atomic_and_and_fetch :: "u32 \<Rightarrow> u32 \<Rightarrow> u32 \<times> u32" where
  "atomic_and_and_fetch p v = (let p = p AND v in (p, p))"

definition atomic_xor_and_fetch :: "u32 \<Rightarrow> u32 \<Rightarrow> u32 \<times> u32" where
  "atomic_xor_and_fetch p v = (let p = p XOR v in (p, p))"

definition atomic_nand_and_fetch :: "u32 \<Rightarrow> u32 \<Rightarrow> u32 \<times> u32" where
  "atomic_nand_and_fetch p v = (let p = NOT (p AND v) in (p, p))"

subsection \<open>Critical zones of a hart\<close>

record hart =
  INTR_NEST :: int
  INTR_ENABLE :: bool
  intr :: bool

definition cpu_intr_off :: "'a hart_scheme \<Rightarrow> 'a hart_scheme" where
  "cpu_intr_off h = h\<lparr>intr := False\<rparr>"

definition cpu_intr_on :: "'a hart_scheme \<Rightarrow> 'a hart_scheme" where
  "cpu_intr_on h = h\<lparr>intr := True\<rparr>"

definition cpu_intr_restore :: "bool \<Rightarrow> 'a hart_scheme \<Rightarrow> 'a hart_scheme" where
  "cpu_intr_restore e h = (if e then cpu_intr_on h else cpu_intr_off h)"

definition cpu_critical_in :: "'a hart_scheme \<Rightarrow> int \<times> 'a hart_scheme" where
  "cpu_critical_in h =
     (let local_cpu_state = intr h;
          h = cpu_intr_off h;
          h = (if INTR_NEST h = 0 then h\<lparr>INTR_ENABLE := local_cpu_state\<rparr> else h);
          h = h\<lparr>INTR_NEST := INTR_NEST h + 1\<rparr>
      in (INTR_NEST h, h))"

definition cpu_critical_out :: "'a hart_scheme \<Rightarrow> int \<times> 'a hart_scheme" where
  "cpu_critical_out h =
     (let local_cpu_state = intr h; h = cpu_intr_off h in
      if INTR_NEST h = 0 then (0, cpu_intr_restore local_cpu_state h)
      else let h = h\<lparr>INTR_NEST := INTR_NEST h - 1\<rparr> in
        if INTR_NEST h = 0 then (0, cpu_intr_restore (INTR_ENABLE h) h)
        else (INTR_NEST h, h))"

subsection \<open>The lock and its users\<close>

record rwlock =
  lk :: u32
  readers :: u32
  writers :: u32

datatype rwop = Reader | Writer | WriterBR

text \<open>
  The points of the loop in \<^verbatim>\<open>r_lock\<close>, \<^verbatim>\<open>w_lock\<close> and \<^verbatim>\<open>w_lock_br\<close> (with \<^verbatim>\<open>lock\<close> and \<^verbatim>\<open>unlock\<close> inlined, as the
  source declares them), the section between locking and unlocking (\<open>Held\<close>) and
  the two operations of the unlock functions.
\<close>

datatype point =
    Idle | Loop | LockIn | LockSpin | Test | TestReaders | Take
  | UnlockOr bool | UnlockOut bool | Again | WaitReaders | Held | Drop | DropOut

record thread = hart +
  pc :: point
  rwop :: rwop

definition goto :: "point \<Rightarrow> thread \<Rightarrow> thread" where
  "goto p t = t\<lparr>pc := p\<rparr>"

definition init_lock :: u32 where
  "init_lock = 1"

definition rwlock_init :: rwlock where
  "rwlock_init = \<lparr>lk = init_lock, readers = atomic_init 0, writers = atomic_init 0\<rparr>"

definition lock_step :: "rwlock \<Rightarrow> thread \<Rightarrow> rwlock \<times> thread" where
  "lock_step x t =
     (if pc t = LockIn then (x, goto LockSpin (snd (cpu_critical_in t)))
      else let (v, w) = atomic_fetch_and_and (lk x) 0 in
        (x\<lparr>lk := w\<rparr>, if v = 0 then t else goto Test t))"

definition unlock_step :: "bool \<Rightarrow> point \<Rightarrow> rwlock \<Rightarrow> thread \<Rightarrow> rwlock \<times> thread" where
  "unlock_step ok next x t =
     (if pc t = UnlockOr ok then (x\<lparr>lk := snd (atomic_fetch_and_or (lk x) 1)\<rparr>, goto (UnlockOut ok) t)
      else (x, goto next (snd (cpu_critical_out t))))"

definition r_lock_step :: "rwlock \<Rightarrow> thread \<Rightarrow> rwlock \<times> thread" where
  "r_lock_step x t = (case pc t of
     Loop \<Rightarrow> (x, goto LockIn (snd (cpu_critical_in t)))
   | LockIn \<Rightarrow> lock_step x t
   | LockSpin \<Rightarrow> lock_step x t
   | Test \<Rightarrow> let (v, w) = atomic_fetch_and_add (writers x) 0 in
       (x\<lparr>writers := w\<rparr>, goto (if v = 0 then Take else UnlockOr False) t)
   | Take \<Rightarrow> (x\<lparr>readers := snd (atomic_fetch_and_add (readers x) 1)\<rparr>, goto (UnlockOr True) t)
   | UnlockOr ok \<Rightarrow> unlock_step ok (if ok then Held else Again) x t
   | UnlockOut ok \<Rightarrow> unlock_step ok (if ok then Held else Again) x t
   | Again \<Rightarrow> (x, goto Loop (snd (cpu_critical_out t)))
   | _ \<Rightarrow> (x, t))"

definition r_unlock_step :: "rwlock \<Rightarrow> thread \<Rightarrow> rwlock \<times> thread" where
  "r_unlock_step x t =
     (if pc t = Drop then (x\<lparr>readers := snd (atomic_fetch_and_sub (readers x) 1)\<rparr>, goto DropOut t)
      else (x, goto Idle (snd (cpu_critical_out t))))"

definition w_lock_step :: "rwlock \<Rightarrow> thread \<Rightarrow> rwlock \<times> thread" where
  "w_lock_step x t = (case pc t of
     Loop \<Rightarrow> (x, goto LockIn (snd (cpu_critical_in t)))
   | LockIn \<Rightarrow> lock_step x t
   | LockSpin \<Rightarrow> lock_step x t
   | Test \<Rightarrow> let (v, w) = atomic_fetch_and_add (writers x) 0 in
       (x\<lparr>writers := w\<rparr>, goto (if v = 0 then TestReaders else UnlockOr False) t)
   | TestReaders \<Rightarrow> let (v, w) = atomic_fetch_and_add (readers x) 0 in
       (x\<lparr>readers := w\<rparr>, goto (if v = 0 then Take else UnlockOr False) t)
   | Take \<Rightarrow> (x\<lparr>writers := snd (atomic_fetch_and_add (writers x) 1)\<rparr>, goto (UnlockOr True) t)
   | UnlockOr ok \<Rightarrow> unlock_step ok (if ok then Held else Again) x t
   | UnlockOut ok \<Rightarrow> unlock_step ok (if ok then Held else Again) x t
   | Again \<Rightarrow> (x, goto Loop (snd (cpu_critical_out t)))
   | _ \<Rightarrow> (x, t))"

definition w_unlock_step :: "rwlock \<Rightarrow> thread \<Rightarrow> rwlock \<times> thread" where
  "w_unlock_step x t =
     (if pc t = Drop then (x\<lparr>writers := snd (atomic_fetch_and_sub (writers x) 1)\<rparr>, goto DropOut t)
      else (x, goto Idle (snd (cpu_critical_out t))))"

definition w_lock_br_step :: "rwlock \<Rightarrow> thread \<Rightarrow> rwlock \<times> thread" where
  "w_lock_br_step x t = (case pc t of
     Loop \<Rightarrow> (x, goto LockIn (snd (cpu_critical_in t)))
   | LockIn \<Rightarrow> lock_step x t
   | LockSpin \<Rightarrow> lock_step x t
   | Test \<Rightarrow> let (v, w) = atomic_fetch_and_add (writers x) 0 in
       (x\<lparr>writers := w\<rparr>, goto (if v = 0 then Take else UnlockOr False) t)
   | Take \<Rightarrow> (x\<lparr>writers := snd (atomic_fetch_and_add (writers x) 1)\<rparr>, goto (UnlockOr True) t)
   | UnlockOr ok \<Rightarrow> unlock_step ok (if ok then WaitReaders else Again) x t
   | UnlockOut ok \<Rightarrow> unlock_step ok (if ok then WaitReaders else Again) x t
   | Again \<Rightarrow> (x, goto Loop (snd (cpu_critical_out t)))
   | WaitReaders \<Rightarrow> let (v, w) = atomic_fetch_and_add (readers x) 0 in
       (x\<lparr>readers := w\<rparr>, if v \<noteq> 0 then t else goto Held t)
   | _ \<Rightarrow> (x, t))"

definition w_unlock_br_step :: "rwlock \<Rightarrow> thread \<Rightarrow> rwlock \<times> thread" where
  "w_unlock_br_step x t =
     (if pc t = Drop then (x\<lparr>writers := snd (atomic_fetch_and_sub (writers x) 1)\<rparr>, goto DropOut t)
      else (x, goto Idle (snd (cpu_critical_out t))))"

definition thread_step :: "rwlock \<Rightarrow> thread \<Rightarrow> rwlock \<times> thread" where
  "thread_step x t =
     (if pc t = Drop \<or> pc t = DropOut
      then (case rwop t of Reader \<Rightarrow> r_unlock_step x t | Writer \<Rightarrow> w_unlock_step x t | WriterBR \<Rightarrow> w_unlock_br_step x t)
      else (case rwop t of Reader \<Rightarrow> r_lock_step x t | Writer \<Rightarrow> w_lock_step x t | WriterBR \<Rightarrow> w_lock_br_step x t))"

text \<open>
  The machine: a hart that is idle may call any of the three lock functions, a hart that holds the lock may call
  the matching unlock function, and a hart inside a function executes its next operation.
\<close>

record smp =
  rw :: rwlock
  harts :: "nat \<Rightarrow> thread"

inductive smp_step :: "nat \<Rightarrow> smp \<Rightarrow> smp \<Rightarrow> bool" for N where
  call: "i < N \<Longrightarrow> t = harts s i \<Longrightarrow> pc t = Idle \<Longrightarrow>
    smp_step N s (s\<lparr>harts := (harts s)(i := t\<lparr>pc := Loop, rwop := q\<rparr>)\<rparr>)"
| leave: "i < N \<Longrightarrow> t = harts s i \<Longrightarrow> pc t = Held \<Longrightarrow> smp_step N s (s\<lparr>harts := (harts s)(i := goto Drop t)\<rparr>)"
| move: "i < N \<Longrightarrow> t = harts s i \<Longrightarrow> pc t \<noteq> Idle \<Longrightarrow> pc t \<noteq> Held \<Longrightarrow> thread_step (rw s) t = (x', t') \<Longrightarrow>
    smp_step N s \<lparr>rw = x', harts = (harts s)(i := t')\<rparr>"

definition smp_init :: "nat \<Rightarrow> (nat \<Rightarrow> bool) \<Rightarrow> smp \<Rightarrow> bool" where
  "smp_init N b s \<longleftrightarrow> rw s = rwlock_init \<and> (\<forall>i < N. pc (harts s i) = Idle \<and> INTR_NEST (harts s i) = 0 \<and> intr (harts s i) = b i)"

abbreviation smp_run :: "nat \<Rightarrow> smp \<Rightarrow> smp \<Rightarrow> bool" where
  "smp_run N \<equiv> (smp_step N)\<^sup>*\<^sup>*"

subsection \<open>Counting harts\<close>

definition how_many :: "(thread \<Rightarrow> bool) \<Rightarrow> nat \<Rightarrow> (nat \<Rightarrow> thread) \<Rightarrow> u32" where
  "how_many P N f = (\<Sum>j < N. of_bool (P (f j)))"

lemma sum_fun_upd:
  fixes g :: "'a \<Rightarrow> 'b :: ab_group_add"
  assumes "i < (N :: nat)"
  shows "(\<Sum>j < N. g ((f(i := t)) j)) = (\<Sum>j < N. g (f j)) + g t - g (f i)"
proof -
  have "(\<Sum>j \<in> {..<N} - {i}. g ((f(i := t)) j)) = (\<Sum>j \<in> {..<N} - {i}. g (f j))" by (rule sum.cong) auto
  moreover have "(\<Sum>j < N. g (h j)) = g (h i) + (\<Sum>j \<in> {..<N} - {i}. g (h j))" for h
    by (rule sum.remove) (use assms in auto)
  ultimately show ?thesis by simp
qed

lemma how_many_upd:
  "i < N \<Longrightarrow> how_many P N (f(i := t)) = how_many P N f + of_bool (P t) - of_bool (P (f i))"
  unfolding how_many_def by (rule sum_fun_upd)

lemma how_many_card: "how_many P N f = word_of_nat (card {j. j < N \<and> P (f j)})"
  unfolding how_many_def by (simp add: of_bool_def sum.If_cases Int_def lessThan_def del: of_bool_eq)

lemma u32_of_nat_0: "c < 2 ^ 32 \<Longrightarrow> (word_of_nat c :: u32) = 0 \<longleftrightarrow> c = 0"
  using nat_dvd_not_less [of c "2 ^ 32"] by (auto simp: word_of_nat_eq_0_iff)

lemma how_many_0:
  assumes "N < 2 ^ 32"
  shows "how_many P N f = 0 \<longleftrightarrow> (\<forall>j < N. \<not> P (f j))"
proof -
  have "card {j. j < N \<and> P (f j)} \<le> card {..<N}" by (rule card_mono) auto
  then have "card {j. j < N \<and> P (f j)} < 2 ^ 32" using assms by simp
  then show ?thesis by (simp only: how_many_card u32_of_nat_0 card_0_eq finite_Collect_conjI finite_Collect_less_nat) auto
qed

subsection \<open>The invariant\<close>

fun in_lock :: "point \<Rightarrow> bool" where
  "in_lock Test = True" | "in_lock TestReaders = True" | "in_lock Take = True" | "in_lock (UnlockOr ok) = True"
| "in_lock _ = False"

fun taken :: "point \<Rightarrow> bool" where
  "taken (UnlockOr ok) = ok" | "taken (UnlockOut ok) = ok" | "taken WaitReaders = True" | "taken Held = True"
| "taken Drop = True" | "taken _ = False"

definition reads :: "thread \<Rightarrow> bool" where
  "reads t \<longleftrightarrow> rwop t = Reader \<and> taken (pc t)"

definition writes :: "thread \<Rightarrow> bool" where
  "writes t \<longleftrightarrow> rwop t \<noteq> Reader \<and> taken (pc t)"

text \<open>A writer that excludes the readers too.\<close>

definition exclusive :: "thread \<Rightarrow> bool" where
  "exclusive t \<longleftrightarrow> (rwop t = Writer \<and> taken (pc t)) \<or> (rwop t = WriterBR \<and> pc t \<in> {Held, Drop})"

definition local_ok :: "thread \<Rightarrow> bool" where
  "local_ok t \<longleftrightarrow> (pc t = TestReaders \<longrightarrow> rwop t = Writer) \<and> (pc t = WaitReaders \<longrightarrow> rwop t = WriterBR)"

definition pair_ok :: "thread \<Rightarrow> thread \<Rightarrow> bool" where
  "pair_ok t u \<longleftrightarrow> (in_lock (pc t) \<longrightarrow> \<not> in_lock (pc u)) \<and> (writes t \<longrightarrow> \<not> writes u) \<and>
     (exclusive t \<longrightarrow> \<not> reads u) \<and> (pc t \<in> {Take, TestReaders} \<longrightarrow> \<not> writes u) \<and>
     (pc t = Take \<and> rwop t = Writer \<longrightarrow> \<not> reads u)"

definition lock_word_ok :: "nat \<Rightarrow> smp \<Rightarrow> bool" where
  "lock_word_ok N s \<longleftrightarrow> lk (rw s) \<in> {0, 1} \<and> (lk (rw s) = 1 \<longrightarrow> (\<forall>i < N. \<not> in_lock (pc (harts s i)))) \<and>
     (lk (rw s) = 0 \<longrightarrow> (\<exists>i < N. in_lock (pc (harts s i))))"

definition rw_inv :: "nat \<Rightarrow> smp \<Rightarrow> bool" where
  "rw_inv N s \<longleftrightarrow> lock_word_ok N s \<and>
     readers (rw s) = how_many reads N (harts s) \<and> writers (rw s) = how_many writes N (harts s) \<and>
     (\<forall>i < N. local_ok (harts s i)) \<and> (\<forall>i < N. \<forall>j < N. i \<noteq> j \<longrightarrow> pair_ok (harts s i) (harts s j))"

text \<open>The depth of critical zones at every point, and the interrupt state this depth stands for.\<close>

fun depth :: "point \<Rightarrow> int" where
  "depth Idle = 0" | "depth Loop = 0" | "depth LockIn = 1" | "depth LockSpin = 2" | "depth Test = 2"
| "depth TestReaders = 2" | "depth Take = 2" | "depth (UnlockOr ok) = 2" | "depth (UnlockOut ok) = 2"
| "depth Again = 1" | "depth WaitReaders = 1" | "depth Held = 1" | "depth Drop = 1" | "depth DropOut = 1"

definition irq_ok :: "bool \<Rightarrow> thread \<Rightarrow> bool" where
  "irq_ok b t \<longleftrightarrow> INTR_NEST t = depth (pc t) \<and>
     (if depth (pc t) = 0 then intr t = b else \<not> intr t \<and> INTR_ENABLE t = b)"

lemmas hart_defs = cpu_critical_in_def cpu_critical_out_def cpu_intr_off_def cpu_intr_on_def cpu_intr_restore_def
  goto_def Let_def

lemmas step_defs = thread_step_def r_lock_step_def w_lock_step_def w_lock_br_step_def r_unlock_step_def w_unlock_step_def
  w_unlock_br_step_def lock_step_def unlock_step_def atomic_fetch_and_add_def atomic_fetch_and_sub_def
  atomic_fetch_and_or_def atomic_fetch_and_and_def

lemma thread_step_irq: "irq_ok b t \<Longrightarrow> thread_step x t = (x', t') \<Longrightarrow> irq_ok b t'"
  by (cases "pc t"; cases "rwop t") (auto simp: irq_ok_def step_defs hart_defs split: if_splits bool.splits)

lemma smp_step_irq: "smp_step N s s' \<Longrightarrow> \<forall>i < N. irq_ok (b i) (harts s i) \<Longrightarrow> \<forall>i < N. irq_ok (b i) (harts s' i)"
proof (induction rule: smp_step.induct)
  case (move i t s x' t')
  then show ?case using thread_step_irq by auto
qed (auto simp: irq_ok_def goto_def)

lemma thread_step_counts:
  assumes "thread_step x t = (x', t')"
  shows "readers x' = readers x + of_bool (reads t') - of_bool (reads t)"
    and "writers x' = writers x + of_bool (writes t') - of_bool (writes t)"
  using assms
  by (cases "pc t"; cases "rwop t"; auto simp: reads_def writes_def step_defs hart_defs split: if_splits bool.splits)+

lemma thread_step_lk:
  assumes "thread_step x t = (x', t')" "lk x \<in> {0, 1}"
  shows "lk x' = (if in_lock (pc t) then (if in_lock (pc t') then lk x else 1) else if in_lock (pc t') then 0 else lk x)"
    and "\<not> in_lock (pc t) \<Longrightarrow> in_lock (pc t') \<Longrightarrow> lk x = 1"
  using assms by (cases "pc t"; cases "rwop t"; auto simp: step_defs hart_defs split: if_splits bool.splits)+

lemma thread_step_local: "thread_step x t = (x', t') \<Longrightarrow> local_ok t \<Longrightarrow> local_ok t'"
  by (cases "pc t"; cases "rwop t") (auto simp: local_ok_def step_defs hart_defs split: if_splits bool.splits)

text \<open>The first premises a pair of harts depends on, as flags of one hart.\<close>

definition about_to_take :: "thread \<Rightarrow> bool" where
  "about_to_take t \<longleftrightarrow> pc t \<in> {Take, TestReaders}"

definition about_to_write :: "thread \<Rightarrow> bool" where
  "about_to_write t \<longleftrightarrow> pc t = Take \<and> rwop t = Writer"

lemma pair_ok_flags:
  "pair_ok t u \<longleftrightarrow> (in_lock (pc t) \<longrightarrow> \<not> in_lock (pc u)) \<and> (writes t \<longrightarrow> \<not> writes u) \<and>
     (exclusive t \<longrightarrow> \<not> reads u) \<and> (about_to_take t \<longrightarrow> \<not> writes u) \<and> (about_to_write t \<longrightarrow> \<not> reads u)"
  unfolding pair_ok_def about_to_take_def about_to_write_def ..

lemmas flag_defs = about_to_take_def about_to_write_def reads_def writes_def exclusive_def

lemma flag_order:
  "about_to_write t \<Longrightarrow> about_to_take t" "about_to_take t \<Longrightarrow> in_lock (pc t)" "exclusive t \<Longrightarrow> writes t"
  by (auto simp: flag_defs)

lemma thread_step_flags:
  assumes "thread_step x t = (x', t')" "local_ok t"
  shows "writes t' \<Longrightarrow> writes t \<or> about_to_take t"
    and "reads t' \<Longrightarrow> reads t \<or> about_to_take t"
    and "exclusive t' \<Longrightarrow> exclusive t \<or> about_to_write t \<or> readers x = 0"
    and "about_to_take t' \<Longrightarrow> about_to_take t \<or> writers x = 0"
    and "about_to_write t' \<Longrightarrow> about_to_write t \<or> readers x = 0"
  subgoal using assms by (cases "pc t"; cases "rwop t") (auto simp: flag_defs step_defs hart_defs split: if_splits)
  subgoal using assms by (cases "pc t"; cases "rwop t") (auto simp: flag_defs step_defs hart_defs split: if_splits)
  subgoal using assms by (cases "pc t"; cases "rwop t") (auto simp: flag_defs step_defs hart_defs local_ok_def split: if_splits)
  subgoal using assms by (cases "pc t"; cases "rwop t") (auto simp: flag_defs step_defs hart_defs split: if_splits)
  subgoal using assms by (cases "pc t"; cases "rwop t") (auto simp: flag_defs step_defs hart_defs split: if_splits)
  done

lemma thread_step_pair:
  assumes step: "thread_step x t = (x', t')" and "local_ok t" "lk x \<in> {0, 1}"
    and no: "lk x = 1 \<Longrightarrow> \<not> in_lock (pc u)" "writers x = 0 \<Longrightarrow> \<not> writes u" "readers x = 0 \<Longrightarrow> \<not> reads u"
    and pair: "pair_ok t u" "pair_ok u t"
  shows "pair_ok t' u" "pair_ok u t'"
  using thread_step_flags [OF step assms(2)] thread_step_lk(2) [OF step assms(3)] no pair flag_order [of t] flag_order [of u]
  unfolding pair_ok_flags by argo+

lemma rw_inv_upd:
  assumes inv: "rw_inv N s" and i: "i < N"
    and counts: "readers x' = readers (rw s) + of_bool (reads t') - of_bool (reads (harts s i))"
      "writers x' = writers (rw s) + of_bool (writes t') - of_bool (writes (harts s i))"
    and lk: "lk x' = (if in_lock (pc (harts s i)) then (if in_lock (pc t') then lk (rw s) else 1)
      else if in_lock (pc t') then 0 else lk (rw s))"
      "\<not> in_lock (pc (harts s i)) \<Longrightarrow> in_lock (pc t') \<Longrightarrow> lk (rw s) = 1"
    and loc: "local_ok t'"
    and pair: "\<And>j. j < N \<Longrightarrow> j \<noteq> i \<Longrightarrow> pair_ok t' (harts s j) \<and> pair_ok (harts s j) t'"
  shows "rw_inv N \<lparr>rw = x', harts = (harts s)(i := t')\<rparr>"
proof -
  have old: "pair_ok (harts s i) (harts s j)" if "j < N" "j \<noteq> i" for j using inv i that by (simp add: rw_inv_def)
  have only: "\<not> in_lock (pc (harts s j))" if "j < N" "j \<noteq> i" "in_lock (pc (harts s i)) \<or> in_lock (pc t')" for j
    using that(3) pair [OF that(1,2)] old [OF that(1,2)] unfolding pair_ok_def by blast
  have word: "lock_word_ok N s" using inv by (simp add: rw_inv_def)
  have "lock_word_ok N \<lparr>rw = x', harts = (harts s)(i := t')\<rparr>"
  proof (cases "in_lock (pc (harts s i)) \<or> in_lock (pc t')")
    case True
    then have "lk x' = (if in_lock (pc t') then 0 else 1)"
      using lk word i by (auto simp: lock_word_ok_def)
    then show ?thesis using only True i by (auto simp: lock_word_ok_def)
  next
    case False
    then have "lk x' = lk (rw s)" using lk by simp
    moreover have "in_lock (pc (((harts s)(i := t')) j)) = in_lock (pc (harts s j))" for j using False by simp
    ultimately show ?thesis using word by (simp only: lock_word_ok_def smp.select_convs) simp
  qed
  moreover have "\<forall>k < N. local_ok (((harts s)(i := t')) k)" using inv loc by (simp add: rw_inv_def)
  moreover have "\<forall>k < N. \<forall>j < N. k \<noteq> j \<longrightarrow> pair_ok (((harts s)(i := t')) k) (((harts s)(i := t')) j)"
    using inv pair by (simp add: rw_inv_def)
  ultimately show ?thesis using inv i unfolding rw_inv_def by (simp add: counts how_many_upd)
qed

lemma rw_inv_zero:
  assumes "rw_inv N s" "N < 2 ^ 32" "j < N"
  shows "lk (rw s) = 1 \<Longrightarrow> \<not> in_lock (pc (harts s j))" "writers (rw s) = 0 \<Longrightarrow> \<not> writes (harts s j)"
    "readers (rw s) = 0 \<Longrightarrow> \<not> reads (harts s j)"
  using assms how_many_0 [OF assms(2), of _ "harts s"] by (auto simp: rw_inv_def lock_word_ok_def)

lemma smp_step_inv:
  assumes "smp_step N s s'" "rw_inv N s" "N < 2 ^ 32"
  shows "rw_inv N s'"
  using assms
proof (induction rule: smp_step.induct)
  case (call i t s q)
  let ?t = "t\<lparr>pc := Loop, rwop := q\<rparr>"
  have flags: "\<not> in_lock (pc u)" "\<not> reads u" "\<not> writes u" "\<not> exclusive u" "\<not> about_to_take u" "\<not> about_to_write u" "local_ok u"
    if "u = t \<or> u = ?t" for u using that call(3) by (auto simp: flag_defs local_ok_def)
  have "rw_inv N \<lparr>rw = rw s, harts = (harts s)(i := ?t)\<rparr>"
    using call flags [of t] flags [of ?t] by (intro rw_inv_upd) (simp_all add: pair_ok_flags)
  then show ?case by (cases s) simp
next
  case (leave i t s)
  let ?t = "goto Drop t"
  have flags: "in_lock (pc ?t) = in_lock (pc t)" "reads ?t = reads t" "writes ?t = writes t" "exclusive ?t = exclusive t"
    "about_to_take ?t = about_to_take t" "about_to_write ?t = about_to_write t" "local_ok ?t"
    using leave(3) by (auto simp: flag_defs local_ok_def goto_def)
  have "\<And>j. j < N \<Longrightarrow> j \<noteq> i \<Longrightarrow> pair_ok t (harts s j) \<and> pair_ok (harts s j) t"
    using leave by (simp add: rw_inv_def)
  then have "rw_inv N \<lparr>rw = rw s, harts = (harts s)(i := ?t)\<rparr>"
    using leave(1,2,4,5) by (intro rw_inv_upd) (simp_all add: pair_ok_flags flags [unfolded leave(2)])
  then show ?case by (cases s) simp
next
  case (move i t s x' t')
  then have old: "local_ok t" "lk (rw s) \<in> {0, 1}" "\<And>j. j < N \<Longrightarrow> j \<noteq> i \<Longrightarrow> pair_ok t (harts s j) \<and> pair_ok (harts s j) t"
    by (auto simp: rw_inv_def lock_word_ok_def)
  show ?case
  proof (rule rw_inv_upd)
    fix j assume j: "j < N" "j \<noteq> i"
    show "pair_ok t' (harts s j) \<and> pair_ok (harts s j) t'"
      using thread_step_pair [OF move(5) old(1,2) rw_inv_zero [OF move(6,7) j(1)]] old(3) [OF j] by simp
  qed (use move old thread_step_counts [OF move(5)] thread_step_lk [OF move(5) old(2)] thread_step_local [OF move(5) old(1)] in simp_all)
qed

definition smp_reachable :: "nat \<Rightarrow> (nat \<Rightarrow> bool) \<Rightarrow> smp \<Rightarrow> bool" where
  "smp_reachable N b s \<longleftrightarrow> (\<exists>s0. smp_init N b s0 \<and> smp_run N s0 s)"

lemma reachable_inv:
  assumes "smp_reachable N b s" "N < 2 ^ 32"
  shows "rw_inv N s \<and> (\<forall>i < N. irq_ok (b i) (harts s i))"
proof -
  obtain s0 where init: "smp_init N b s0" and run: "smp_run N s0 s" using assms(1) by (auto simp: smp_reachable_def)
  have "how_many P N (harts s0) = 0" if "\<forall>t. pc t = Idle \<longrightarrow> \<not> P t" for P
    using init that by (simp add: smp_init_def how_many_def)
  then have "rw_inv N s0 \<and> (\<forall>i < N. irq_ok (b i) (harts s0 i))"
    using init by (auto simp: smp_init_def rw_inv_def lock_word_ok_def rwlock_init_def init_lock_def atomic_init_def
      local_ok_def pair_ok_def flag_defs irq_ok_def)
  with run show ?thesis
    by (induction rule: rtranclp_induct) (use smp_step_inv [OF _ _ assms(2)] smp_step_irq in blast)+
qed

subsection \<open>Progress\<close>

text \<open>How far a hart is from giving the lock back, a failed attempt being further away than a new one.\<close>

fun rank :: "point \<Rightarrow> nat" where
  "rank Idle = 0" | "rank DropOut = 1" | "rank Drop = 2" | "rank Held = 3" | "rank WaitReaders = 4"
| "rank (UnlockOut ok) = (if ok then 5 else 14)" | "rank (UnlockOr ok) = (if ok then 6 else 15)"
| "rank Take = 7" | "rank TestReaders = 8" | "rank Test = 9" | "rank LockSpin = 10" | "rank LockIn = 11"
| "rank Loop = 12" | "rank Again = 13"

text \<open>The next test of the hart, if it is at one, succeeds.\<close>

definition unblocked :: "rwlock \<Rightarrow> thread \<Rightarrow> bool" where
  "unblocked x t \<longleftrightarrow> (pc t = LockSpin \<longrightarrow> lk x \<noteq> 0) \<and> (pc t = Test \<longrightarrow> writers x = 0) \<and>
     (pc t \<in> {TestReaders, WaitReaders} \<longrightarrow> readers x = 0)"

lemma thread_step_rank:
  assumes "thread_step x t = (x', t')" "local_ok t" "unblocked x t" "pc t \<noteq> Idle" "pc t \<noteq> Held"
  shows "rank (pc t') < rank (pc t)"
  using assms by (cases "pc t"; cases "rwop t") (auto simp: local_ok_def unblocked_def step_defs hart_defs split: if_splits)

lemma taken_unblocked: "taken (pc t) \<Longrightarrow> local_ok t \<Longrightarrow> reads t \<or> readers x = 0 \<Longrightarrow> unblocked x t \<and> pc t \<noteq> Idle"
  by (cases "pc t") (auto simp: unblocked_def local_ok_def reads_def)

lemma some_unblocked:
  assumes inv: "rw_inv N s" and N: "N < 2 ^ 32" and i: "i < N" "pc (harts s i) \<noteq> Idle"
  shows "\<exists>j < N. pc (harts s j) \<noteq> Idle \<and> unblocked (rw s) (harts s j)"
proof -
  have loc: "local_ok (harts s j)" if "j < N" for j using inv that by (simp add: rw_inv_def)
  consider (reader) j where "j < N" "reads (harts s j)"
    | (writer) j where "j < N" "writes (harts s j)" "readers (rw s) = 0"
    | (none) "readers (rw s) = 0" "writers (rw s) = 0"
    using inv how_many_0 [OF N, of _ "harts s"] unfolding rw_inv_def by metis
  then show ?thesis
  proof cases
    case reader
    then show ?thesis using taken_unblocked [OF _ loc] by (metis reads_def)
  next
    case writer
    then show ?thesis using taken_unblocked [OF _ loc] by (metis writes_def)
  next
    case none
    show ?thesis
    proof (cases "lk (rw s) = 0")
      case True
      then obtain j where "j < N" "in_lock (pc (harts s j))" using inv by (auto simp: rw_inv_def lock_word_ok_def)
      then show ?thesis using none by (cases "pc (harts s j)") (auto simp: unblocked_def intro!: exI [of _ j])
    next
      case False
      then show ?thesis using none i by (auto simp: unblocked_def)
    qed
  qed
qed

definition distance :: "nat \<Rightarrow> smp \<Rightarrow> nat" where
  "distance N s = (\<Sum>i < N. rank (pc (harts s i)))"

lemma distance_upd:
  assumes "i < N" "rank (pc t') < rank (pc (harts s i))"
  shows "distance N \<lparr>rw = x', harts = (harts s)(i := t')\<rparr> < distance N s"
  unfolding distance_def
  by (rule sum_strict_mono_ex1) (use assms in \<open>auto intro!: bexI [of _ i]\<close>)

lemma smp_progress:
  assumes "rw_inv N s" "N < 2 ^ 32" "i < N" "pc (harts s i) \<noteq> Idle"
  shows "\<exists>s'. smp_step N s s' \<and> distance N s' < distance N s"
proof -
  obtain j where j: "j < N" "pc (harts s j) \<noteq> Idle" "unblocked (rw s) (harts s j)"
    using some_unblocked [OF assms] by blast
  show ?thesis
  proof (cases "pc (harts s j) = Held")
    case True
    have "distance N \<lparr>rw = rw s, harts = (harts s)(j := goto Drop (harts s j))\<rparr> < distance N s"
      by (rule distance_upd [OF j(1)]) (simp add: True goto_def)
    then show ?thesis using smp_step.leave [OF j(1) refl True] by (cases s) auto
  next
    case False
    obtain x' t' where step: "thread_step (rw s) (harts s j) = (x', t')" by fastforce
    have "local_ok (harts s j)" using assms(1) j(1) by (simp add: rw_inv_def)
    then show ?thesis
      using smp_step.move [OF j(1) refl j(2) False step] distance_upd [OF j(1) thread_step_rank [OF step _ j(3,2) False]] by blast
  qed
qed

lemma smp_settles:
  assumes "rw_inv N s" "N < 2 ^ 32"
  shows "\<exists>s'. smp_run N s s' \<and> (\<forall>i < N. pc (harts s' i) = Idle)"
  using assms(1)
proof (induction "distance N s" arbitrary: s rule: less_induct)
  case less
  show ?case
  proof (cases "\<forall>i < N. pc (harts s i) = Idle")
    case False
    then obtain s1 where "smp_step N s s1" "distance N s1 < distance N s"
      using smp_progress [OF less.prems assms(2)] by blast
    then show ?thesis using less.hyps smp_step_inv [OF _ less.prems assms(2)] by (metis converse_rtranclp_into_rtranclp)
  qed auto
qed

lemma reachable_run: "smp_reachable N b s \<Longrightarrow> smp_run N s s' \<Longrightarrow> smp_reachable N b s'"
  unfolding smp_reachable_def by (meson rtranclp_trans)

lemma idle_rwlock:
  assumes "rw_inv N s" "\<forall>i < N. pc (harts s i) = Idle"
  shows "rw s = rwlock_init"
proof -
  have "how_many P N (harts s) = 0" if "\<forall>t. pc t = Idle \<longrightarrow> \<not> P t" for P
    using assms(2) that by (simp add: how_many_def)
  then show ?thesis using assms
    by (auto simp: rw_inv_def lock_word_ok_def rwlock_init_def init_lock_def atomic_init_def reads_def writes_def)
qed

subsection \<open>Properties\<close>

text \<open>
  C5: Whatever the interleaving of the atomic operations of the harts: a hart that holds the lock as a writer (through
  \<^verbatim>\<open>w_lock\<close> or \<^verbatim>\<open>w_lock_br\<close>) excludes every other holder, reader or writer; at most one hart is
  inside the spin lock; and interrupts are off on every hart that holds either, with a nesting depth of exactly
  one critical zone in the section, while an idle hart has the interrupt state it started with.
\<close>

theorem rwlock_mutual_exclusion:
  assumes "smp_reachable N b s" "N < 2 ^ 32" "i < N" "j < N" "i \<noteq> j"
  shows "(pc (harts s i) = Held \<and> rwop (harts s i) \<noteq> Reader \<longrightarrow> pc (harts s j) \<noteq> Held) \<and>
    (in_lock (pc (harts s i)) \<longrightarrow> \<not> in_lock (pc (harts s j))) \<and>
    (pc (harts s i) = Held \<longrightarrow> INTR_NEST (harts s i) = 1) \<and>
    (pc (harts s i) = Held \<or> in_lock (pc (harts s i)) \<longrightarrow> \<not> intr (harts s i)) \<and>
    (pc (harts s i) = Idle \<longrightarrow> intr (harts s i) = b i)"
proof -
  have pair: "pair_ok (harts s i) (harts s j)" "irq_ok (b i) (harts s i)"
    using reachable_inv [OF assms(1,2)] assms(3-5) by (simp_all add: rw_inv_def)
  show ?thesis using pair
    by (cases "rwop (harts s i)"; cases "rwop (harts s j)"; cases "pc (harts s i)")
      (auto simp: pair_ok_def reads_def writes_def exclusive_def irq_ok_def)
qed

definition demo_smp :: smp where
  "demo_smp = \<lparr>rw = rwlock_init, harts = \<lambda>i. \<lparr>INTR_NEST = 0, INTR_ENABLE = False, intr = True, pc = Idle, rwop = Reader\<rparr>\<rparr>"

lemma demo_smp_reachable: "smp_reachable 4 (\<lambda>_. True) demo_smp"
  unfolding smp_reachable_def by (rule exI [of _ demo_smp]) (simp add: smp_init_def demo_smp_def)

text \<open>Hart 0 calls \<^verbatim>\<open>w_lock\<close> and executes eight operations while the other harts rest: it holds the lock.\<close>

fun solo :: "nat \<Rightarrow> nat \<Rightarrow> smp \<Rightarrow> smp" where
  "solo i 0 s = s"
| "solo i (Suc n) s = (let (x', t') = thread_step (rw s) (harts s i) in solo i n \<lparr>rw = x', harts = (harts s)(i := t')\<rparr>)"

definition demo_called :: smp where
  "demo_called = demo_smp\<lparr>harts := (harts demo_smp)(0 := (harts demo_smp 0)\<lparr>pc := Loop, rwop := Writer\<rparr>)\<rparr>"

lemma thread_step_rest: "pc t = Idle \<or> pc t = Held \<Longrightarrow> thread_step x t = (x, t)"
  by (cases "rwop t") (auto simp: thread_step_def r_lock_step_def w_lock_step_def w_lock_br_step_def)

lemma solo_run: "i < N \<Longrightarrow> smp_run N s (solo i n s)"
proof (induction n arbitrary: s)
  case (Suc n)
  obtain x' t' where step: "thread_step (rw s) (harts s i) = (x', t')" by fastforce
  have "smp_run N s \<lparr>rw = x', harts = (harts s)(i := t')\<rparr>"
  proof (cases "pc (harts s i) = Idle \<or> pc (harts s i) = Held")
    case True
    then have "\<lparr>rw = x', harts = (harts s)(i := t')\<rparr> = s"
      using step thread_step_rest [OF True, of "rw s"] by (cases s) (auto simp: fun_upd_idem)
    then show ?thesis by simp
  next
    case False
    then show ?thesis using smp_step.move [OF Suc.prems refl _ _ step] by blast
  qed
  also have "smp_run N \<lparr>rw = x', harts = (harts s)(i := t')\<rparr> (solo i (Suc n) s)"
    using Suc.IH [OF Suc.prems] by (simp add: step)
  finally show ?case .
qed simp

lemma demo_held_reachable: "smp_reachable 4 (\<lambda>_. True) (solo 0 8 demo_called)"
proof -
  have "smp_step 4 demo_smp demo_called"
    unfolding demo_called_def by (rule smp_step.call) (simp_all add: demo_smp_def)
  then have "smp_run 4 demo_smp (solo 0 8 demo_called)"
    using solo_run [of 0 4 demo_called 8] by (metis converse_rtranclp_into_rtranclp zero_less_numeral)
  then show ?thesis using reachable_run [OF demo_smp_reachable] by blast
qed

theorem rwlock_mutual_exclusion_witness:
  "pc (harts (solo 0 8 demo_called) 0) = Held \<and> pc (harts (solo 0 8 demo_called) 1) \<noteq> Held \<and>
   \<not> intr (harts (solo 0 8 demo_called) 0)"
proof -
  have "pc (harts (solo 0 8 demo_called) 0) = Held \<and> rwop (harts (solo 0 8 demo_called) 0) = Writer"
    by (simp add: eval_nat_numeral demo_called_def demo_smp_def step_defs hart_defs rwlock_init_def init_lock_def atomic_init_def)
  then show ?thesis using rwlock_mutual_exclusion [OF demo_held_reachable, of 0 1] by simp
qed

text \<open>
  C20: The lock never deadlocks: from every reachable state, wherever the harts are in the lock and unlock functions, there is
  a continuation after which every hart has left them; the lock then has its initial value
  and every hart its initial interrupt state.
\<close>

theorem rwlock_no_deadlock:
  assumes "smp_reachable N b s" "N < 2 ^ 32"
  shows "\<exists>s'. smp_run N s s' \<and> rw s' = rwlock_init \<and> (\<forall>i < N. pc (harts s' i) = Idle \<and> intr (harts s' i) = b i)"
proof -
  obtain s' where s': "smp_run N s s'" "\<forall>i < N. pc (harts s' i) = Idle"
    using smp_settles reachable_inv [OF assms] assms(2) by blast
  have inv: "rw_inv N s'" "\<forall>i < N. irq_ok (b i) (harts s' i)"
    using reachable_inv [OF reachable_run [OF assms(1) s'(1)] assms(2)] by auto
  then have "\<forall>i < N. intr (harts s' i) = b i" using s'(2) by (auto simp: irq_ok_def)
  then show ?thesis using s' idle_rwlock [OF inv(1) s'(2)] by blast
qed

theorem rwlock_no_deadlock_witness: "\<exists>s'. smp_run 4 (solo 0 8 demo_called) s' \<and> rw s' = rwlock_init"
  using rwlock_no_deadlock [OF demo_held_reachable] by auto

end
