(* ===== verification/Memblock.thy ===== *)
theory Memblock
  imports ListHead
begin

text \<open>
  The fixed-size block allocator of \<^verbatim>\<open>module/mm/allocators/memblock.c\<close>: free blocks hang on an intrusive list
  (theory \<open>ListHead\<close>) whose nodes lie inside the blocks, 8 bytes after the magic number that starts a
  block header; the list head lies at offset 32 of the allocator header. A callback (\<^verbatim>\<open>foreach_func\<close>) is
  an argument that may change the whole state; text output is left out.
\<close>

subsection \<open>Data\<close>

record mmblock_hdr =
  magic_number :: u16
  pa_start :: u64
  block_size :: u32
  total_block :: u32
  rest_block :: u32

record blocks =
  nodes :: lheap
  hdr_at :: "u64 \<rightharpoonup> mmblock_hdr"
  magic_at :: "u64 \<Rightarrow> u16"

definition MAGIC_NUMBER :: u16 where
  "MAGIC_NUMBER = 0x2371"

text \<open>The embedded list structures: \<^verbatim>\<open>&hdr->_list_block\<close>, \<^verbatim>\<open>&blk->_node\<close> and \<^verbatim>\<open>list_entry\<close>.\<close>

definition list_block :: "u64 \<Rightarrow> u64" where
  "list_block a = a + 32"

definition blk_node :: "u64 \<Rightarrow> u64" where
  "blk_node b = b + 8"

definition blk_entry :: "u64 \<Rightarrow> u64" where
  "blk_entry n = n - 8"

subsection \<open>The functions\<close>

definition init_blk_hdr :: "u64 \<Rightarrow> blocks \<Rightarrow> blocks option" where
  "init_blk_hdr b s = do {
     h \<leftarrow> INIT_NODE (blk_node b) (nodes s);
     Some (s\<lparr>magic_at := (magic_at s)(b := MAGIC_NUMBER), nodes := h\<rparr>) }"

text \<open>\<^verbatim>\<open>__memblock_self_check\<close>: the loop counts the nodes and stops at a wrong magic number (\<open>None\<close> in the accumulator).\<close>

definition self_check_body :: "(u64 \<Rightarrow> u16) \<Rightarrow> u64 \<Rightarrow> nat option \<Rightarrow> nat option option" where
  "self_check_body mg node acc = Some (case acc of None \<Rightarrow> None
     | Some i \<Rightarrow> if mg (blk_entry node) \<noteq> MAGIC_NUMBER then None else Some (Suc i))"

definition memblock_self_check_inner :: "u64 \<Rightarrow> blocks \<Rightarrow> int option" where
  "memblock_self_check_inner a s = do {
     x \<leftarrow> hdr_at s a;
     if total_block x < rest_block x then Some (- EFAULT)
     else do {
       r \<leftarrow> list_for_each (list_block a) (self_check_body (magic_at s)) (nodes s) (Some 0);
       case r of
         None \<Rightarrow> Some (- EFAULT)
       | Some i \<Rightarrow> Some (if (word_of_nat i :: u32) \<noteq> rest_block x then - EFAULT else 0) } }"

definition hdr_bad :: "u64 \<Rightarrow> blocks \<Rightarrow> bool option" where
  "hdr_bad a s = (if a = 0 then Some True else do { x \<leftarrow> hdr_at s a; Some (magic_number x \<noteq> MAGIC_NUMBER) })"

definition memblock_self_check :: "u64 \<Rightarrow> blocks \<Rightarrow> int option" where
  "memblock_self_check a s = do {
     bad \<leftarrow> hdr_bad a s;
     if bad then Some (- EINVAL) else memblock_self_check_inner a s }"

definition memblock_self_check_with_output :: "u64 \<Rightarrow> u64 \<Rightarrow> blocks \<Rightarrow> int option" where
  "memblock_self_check_with_output a output s = do {
     bad \<leftarrow> hdr_bad a s;
     if bad \<or> output = 0 then Some (- EINVAL) else memblock_self_check_inner a s }"

type_synonym foreach_func = "u64 \<Rightarrow> blocks \<Rightarrow> (int \<times> blocks) option"

partial_function (option) foreach_safe_loop :: "u64 \<Rightarrow> foreach_func \<Rightarrow> bool \<Rightarrow> u64 \<Rightarrow> u64 \<Rightarrow> int \<Rightarrow> blocks \<Rightarrow> (int \<times> blocks) option" where
  "foreach_safe_loop head f continue_when_error ptr safe ret s =
     (if ptr = head then Some (ret, s)
      else do {
        (ret, s) \<leftarrow> f (blk_entry ptr) s;
        if ret \<noteq> 0 \<and> \<not> continue_when_error then Some (ret, s)
        else do {
          nx \<leftarrow> get_next safe (nodes s);
          foreach_safe_loop head f continue_when_error safe nx (if ret \<noteq> 0 then ret + 1 else ret) s } })"

partial_function (option) foreach_loop :: "u64 \<Rightarrow> foreach_func \<Rightarrow> bool \<Rightarrow> u64 \<Rightarrow> int \<Rightarrow> blocks \<Rightarrow> (int \<times> blocks) option" where
  "foreach_loop head f continue_when_error ptr ret s =
     (if ptr = head then Some (ret, s)
      else do {
        (ret, s) \<leftarrow> f (blk_entry ptr) s;
        if ret \<noteq> 0 \<and> \<not> continue_when_error then Some (ret, s)
        else do {
          nx \<leftarrow> get_next ptr (nodes s);
          foreach_loop head f continue_when_error nx (if ret \<noteq> 0 then ret + 1 else ret) s } })"

definition foreach_nodes :: "u64 \<Rightarrow> foreach_func \<Rightarrow> bool \<Rightarrow> bool \<Rightarrow> blocks \<Rightarrow> (int \<times> blocks) option" where
  "foreach_nodes a f is_safe continue_when_error s =
     (if is_safe then do {
        ptr \<leftarrow> get_next (list_block a) (nodes s);
        safe \<leftarrow> get_next ptr (nodes s);
        foreach_safe_loop (list_block a) f continue_when_error ptr safe 0 s }
      else do {
        ptr \<leftarrow> get_next (list_block a) (nodes s);
        foreach_loop (list_block a) f continue_when_error ptr 0 s })"

definition memblock_for_each :: "u64 \<Rightarrow> foreach_func option \<Rightarrow> blocks \<Rightarrow> (int \<times> blocks) option" where
  "memblock_for_each a f s = do {
     bad \<leftarrow> (if f = None then Some True else hdr_bad a s);
     if bad then Some (- EINVAL, s)
     else do { (ret, s) \<leftarrow> foreach_nodes a (the f) False False s; Some (if ret \<noteq> 0 then ret else 0, s) } }"

definition memblock_for_each_safe :: "u64 \<Rightarrow> foreach_func option \<Rightarrow> blocks \<Rightarrow> (int \<times> blocks) option" where
  "memblock_for_each_safe a f s = do {
     bad \<leftarrow> (if f = None then Some True else hdr_bad a s);
     if bad then Some (- EINVAL, s)
     else do { (ret, s) \<leftarrow> foreach_nodes a (the f) True False s; Some (if ret \<noteq> 0 then ret else 0, s) } }"

text \<open>The product of the block size and the loop index is a 32-bit number.\<close>

definition blk_addr :: "u64 \<Rightarrow> u32 \<Rightarrow> nat \<Rightarrow> u64" where
  "blk_addr pa bs i = pa + ucast (bs * word_of_nat i)"

function init_blocks_loop :: "u64 \<Rightarrow> u64 \<Rightarrow> u32 \<Rightarrow> nat \<Rightarrow> nat \<Rightarrow> blocks \<Rightarrow> blocks option" where
  "init_blocks_loop a pa bs cnt i s =
     (if i < cnt then do {
        s \<leftarrow> init_blk_hdr (blk_addr pa bs i) s;
        h \<leftarrow> list_add_tail (blk_node (blk_addr pa bs i)) (list_block a) (nodes s);
        init_blocks_loop a pa bs cnt (Suc i) (s\<lparr>nodes := h\<rparr>) }
      else Some s)"
  by pat_completeness auto
termination by (relation "measure (\<lambda>(a, pa, bs, cnt, i, s). cnt - i)") auto

declare init_blocks_loop.simps [simp del]

definition memblock_allocator_init :: "u64 \<Rightarrow> u64 \<Rightarrow> u64 \<Rightarrow> u32 \<Rightarrow> blocks \<Rightarrow> (int \<times> blocks) option" where
  "memblock_allocator_init a pa sz bs s =
     (if a = 0 \<or> pa = 0 \<or> sz \<le> 0 \<or> bs \<le> 0 then Some (- EINVAL, s)
      else if sz mod ucast bs \<noteq> 0 then Some (- EINVAL, s)
      else do {
        hdr_at s a;
        let tot = ucast (sz div ucast bs);
        let s = s\<lparr>hdr_at := (hdr_at s)(a \<mapsto>
          \<lparr>magic_number = MAGIC_NUMBER, pa_start = pa, block_size = bs, total_block = tot, rest_block = tot\<rparr>)\<rparr>;
        h \<leftarrow> INIT_LIST_HEAD (list_block a) (nodes s);
        s \<leftarrow> init_blocks_loop a pa bs (unat tot) 0 (s\<lparr>nodes := h\<rparr>);
        Some (0, s) })"

definition memblock_alloc :: "u64 \<Rightarrow> blocks \<Rightarrow> (u64 \<times> blocks) option" where
  "memblock_alloc a s = do {
     bad \<leftarrow> hdr_bad a s;
     if bad then Some (0, s)
     else do {
       x \<leftarrow> hdr_at s a;
       if rest_block x \<le> 0 then Some (0, s)
       else do {
         n \<leftarrow> list_first_node (list_block a) (nodes s);
         h \<leftarrow> list_del_init n (nodes s);
         Some (blk_entry n, s\<lparr>nodes := h, hdr_at := (hdr_at s)(a \<mapsto> x\<lparr>rest_block := rest_block x - 1\<rparr>)\<rparr>) } } }"

definition memblock_free :: "u64 \<Rightarrow> u64 \<Rightarrow> blocks \<Rightarrow> blocks option" where
  "memblock_free a address s = do {
     bad \<leftarrow> (if a \<noteq> 0 \<and> address = 0 then Some True else hdr_bad a s);
     if bad then Some s
     else do {
       x \<leftarrow> hdr_at s a;
       if rest_block x \<ge> total_block x then Some s
       else do {
         s \<leftarrow> init_blk_hdr address s;
         h \<leftarrow> list_add_tail (blk_node address) (list_block a) (nodes s);
         Some (s\<lparr>nodes := h, hdr_at := (hdr_at s)(a \<mapsto> x\<lparr>rest_block := rest_block x + 1\<rparr>)\<rparr>) } } }"

definition memblock_allocator_merge :: "u64 \<Rightarrow> u64 \<Rightarrow> blocks \<Rightarrow> int \<times> blocks" where
  "memblock_allocator_merge mem_allocator merged_mem_allocator s = (0, s)"

subsection \<open>The abstract pool\<close>

text \<open>
  The allocator at \<open>a\<close> is a queue of free blocks \<open>bs\<close>, of which it counts the length, never more than its total number;
  every free block has its magic number.
\<close>

definition pool_of :: "u64 \<Rightarrow> blocks \<Rightarrow> u32 \<Rightarrow> u64 list \<Rightarrow> bool" where
  "pool_of a s n bs \<longleftrightarrow> a \<noteq> 0 \<and> 0 \<notin> set bs \<and>
     (\<exists>x. hdr_at s a = Some x \<and> magic_number x = MAGIC_NUMBER \<and> total_block x = n \<and> rest_block x = word_of_nat (length bs)) \<and>
     length bs \<le> unat n \<and> is_list (nodes s) (list_block a) (map blk_node bs) \<and> (\<forall>b \<in> set bs. magic_at s b = MAGIC_NUMBER)"

lemma blk_entry_node [simp]: "blk_entry (blk_node b) = b"
  by (simp add: blk_entry_def blk_node_def)

lemma blk_node_eq [simp]: "blk_node b = blk_node c \<longleftrightarrow> b = c"
  by (simp add: blk_node_def)

lemma blk_node_in [simp]: "blk_node b \<in> blk_node ` B \<longleftrightarrow> b \<in> B"
  by auto

lemma u32_of_length: "length bs \<le> unat (n :: u32) \<Longrightarrow> unat (word_of_nat (length bs) :: u32) = length bs"
  using unat_u32_less [of n] by (simp add: unsigned_of_nat take_bit_nat_eq_self)

lemma INIT_NODE_spec:
  assumes "n \<in> dom h"
  shows "\<exists>h'. INIT_NODE n h = Some h' \<and> dom h' = dom h \<and> (\<forall>a. a \<noteq> n \<longrightarrow> h' a = h a)"
  using assms by (simp add: INIT_NODE_def)

lemma list_del_init_spec:
  assumes "is_list h l (xs @ node # ys)"
  shows "\<exists>h'. list_del_init node h = Some h' \<and> is_list h' l (xs @ ys) \<and> is_list h' node [] \<and> dom h' = dom h \<and>
    (\<forall>a. a \<notin> set (l # xs @ node # ys) \<longrightarrow> h' a = h a)"
proof -
  obtain h1 where h1: "list_del node h = Some h1" "is_list h1 l (xs @ ys)" "dom h1 = dom h"
    "\<forall>a. a \<notin> set (l # xs @ node # ys) \<longrightarrow> h1 a = h a"
    using list_del_spec [OF assms] by auto
  have "node \<in> dom h1" using is_list_dom [OF assms] h1(3) by auto
  then obtain h2 where h2: "INIT_LIST_HEAD node h1 = Some h2" "is_list h2 node []" "dom h2 = dom h1" "\<forall>a. a \<noteq> node \<longrightarrow> h2 a = h1 a"
    using INIT_LIST_HEAD_spec by blast
  have "node \<notin> set (l # xs @ ys)" using assms by (auto simp: is_list_def)
  then have "is_list h2 l (xs @ ys)" by (intro is_list_frame [OF h1(2)]) (use h2(4) in auto)
  moreover have "\<forall>a. a \<notin> set (l # xs @ node # ys) \<longrightarrow> h2 a = h a" using h1(4) h2(4) by simp
  ultimately show ?thesis using h1 h2 by (auto simp: list_del_init_def)
qed

text \<open>Initialising a block that is not on the list and queueing it.\<close>

lemma queue_block:
  assumes l: "is_list (nodes s) l (map blk_node bs)" and b: "blk_node b \<in> dom (nodes s)" "b \<notin> set bs" "blk_node b \<noteq> l"
  shows "\<exists>s1 h. init_blk_hdr b s = Some s1 \<and> list_add_tail (blk_node b) l (nodes s1) = Some h \<and>
    hdr_at s1 = hdr_at s \<and> magic_at s1 = (magic_at s)(b := MAGIC_NUMBER) \<and> is_list h l (map blk_node (bs @ [b])) \<and> dom h = dom (nodes s)"
proof -
  obtain h1 where h1: "INIT_NODE (blk_node b) (nodes s) = Some h1" "dom h1 = dom (nodes s)" "\<forall>a. a \<noteq> blk_node b \<longrightarrow> h1 a = nodes s a"
    using INIT_NODE_spec [OF b(1)] by blast
  have "\<forall>a \<in> set (l # map blk_node bs). a \<noteq> blk_node b" using b by auto
  then have "is_list h1 l (map blk_node bs)" by (intro is_list_frame [OF l]) (use h1(3) in auto)
  then show ?thesis
    using list_add_tail_spec [of h1 l "map blk_node bs" "blk_node b"] b h1(1,2) by (auto simp: init_blk_hdr_def)
qed

lemma hdr_bad_pool: "pool_of a s n bs \<Longrightarrow> hdr_bad a s = Some False"
  by (auto simp: pool_of_def hdr_bad_def)

lemma memblock_alloc_pool:
  assumes p: "pool_of a s n (b # bs)"
  shows "\<exists>s'. memblock_alloc a s = Some (b, s') \<and> pool_of a s' n bs \<and> dom (nodes s') = dom (nodes s)"
proof -
  obtain x where x: "hdr_at s a = Some x" "magic_number x = MAGIC_NUMBER" "total_block x = n"
    "rest_block x = word_of_nat (length (b # bs))"
    and l: "is_list (nodes s) (list_block a) ([] @ blk_node b # map blk_node bs)"
    and le: "length (b # bs) \<le> unat n"
    using p by (auto simp: pool_of_def)
  obtain h where h: "list_del_init (blk_node b) (nodes s) = Some h" "is_list h (list_block a) (map blk_node bs)" "dom h = dom (nodes s)"
    using list_del_init_spec [OF l] by auto
  have "unat (rest_block x) = length (b # bs)" using u32_of_length [OF le] by (simp add: x(4))
  then have "\<not> rest_block x \<le> 0" by (auto simp: word_le_nat_alt)
  then show ?thesis
    using p x h list_first_spec [of "nodes s" "list_block a" "blk_node b"] l hdr_bad_pool [OF p]
    by (auto simp: memblock_alloc_def pool_of_def)
qed

lemma memblock_alloc_empty:
  assumes "pool_of a s n []"
  shows "memblock_alloc a s = Some (0, s)"
  using assms hdr_bad_pool [OF assms] by (auto simp: memblock_alloc_def pool_of_def)

lemma memblock_free_pool:
  assumes p: "pool_of a s n bs" and b: "b \<noteq> 0" "b \<notin> set bs" "blk_node b \<in> dom (nodes s)" "blk_node b \<noteq> list_block a" "length bs < unat n"
  shows "\<exists>s'. memblock_free a b s = Some s' \<and> pool_of a s' n (bs @ [b]) \<and> dom (nodes s') = dom (nodes s)"
proof -
  obtain x where x: "hdr_at s a = Some x" "magic_number x = MAGIC_NUMBER" "total_block x = n" "rest_block x = word_of_nat (length bs)"
    and l: "is_list (nodes s) (list_block a) (map blk_node bs)" and le: "length bs \<le> unat n" and nz: "a \<noteq> 0"
    using p by (auto simp: pool_of_def)
  have "unat (rest_block x) = length bs" using u32_of_length [OF le] by (simp add: x(4))
  then have room: "\<not> n \<le> rest_block x" using b(5) by (auto simp: word_le_nat_alt)
  obtain s1 h where q: "init_blk_hdr b s = Some s1" "list_add_tail (blk_node b) (list_block a) (nodes s1) = Some h"
    "hdr_at s1 = hdr_at s" "magic_at s1 = (magic_at s)(b := MAGIC_NUMBER)" "is_list h (list_block a) (map blk_node (bs @ [b]))" "dom h = dom (nodes s)"
    using queue_block [OF l b(3,2,4)] by blast
  then show ?thesis using p x room b nz hdr_bad_pool [OF p]
    by (auto simp: memblock_free_def pool_of_def add.commute)
qed

lemma self_check_fold:
  "\<forall>b \<in> set bs. mg b = MAGIC_NUMBER \<Longrightarrow> foldM (self_check_body mg) (map blk_node bs) (Some i) = Some (Some (i + length bs))"
  by (induction bs arbitrary: i) (auto simp: self_check_body_def)

lemma memblock_self_check_pool:
  assumes "pool_of a s n bs"
  shows "memblock_self_check a s = Some 0"
proof -
  have "(word_of_nat (length bs) :: u32) \<le> n" using assms by (auto simp: pool_of_def word_le_nat_alt u32_of_length)
  then show ?thesis using assms hdr_bad_pool [OF assms] self_check_fold [of bs "magic_at s" 0]
    by (auto simp: memblock_self_check_def memblock_self_check_inner_def pool_of_def list_for_each_spec not_less)
qed

lemma ucast_mult_u32:
  assumes "unat (bs :: u32) * i < 2 ^ 32"
  shows "(ucast (bs * word_of_nat i) :: u64) = word_of_nat (unat bs * i)"
proof -
  have "bs * word_of_nat i = word_of_nat (unat bs * i)" by simp
  then have "unat (bs * word_of_nat i) = unat bs * i" using assms by (simp only: unsigned_of_nat) (simp add: take_bit_nat_eq_self)
  then show ?thesis by (metis of_nat_unat)
qed

lemma blk_addr_nat:
  assumes "unat pa + unat bs * i < 2 ^ 64" "unat bs * i < 2 ^ 32"
  shows "unat (blk_addr pa bs i) = unat pa + unat bs * i"
proof -
  have "blk_addr pa bs i = word_of_nat (unat pa + unat bs * i)"
    by (simp add: blk_addr_def ucast_mult_u32 [OF assms(2)])
  then show ?thesis using unat_u64_of_nat [OF assms(1)] by simp
qed

text \<open>The blocks of a region are different addresses when the region neither wraps around nor exceeds 4 GB.\<close>

definition region_blocks :: "u64 \<Rightarrow> u32 \<Rightarrow> nat \<Rightarrow> u64 list" where
  "region_blocks pa bs n = map (blk_addr pa bs) [0..<n]"

lemma region_blocks_nat:
  assumes "unat pa + unat bs * n \<le> 2 ^ 64" "unat bs * n \<le> 2 ^ 32" "0 < bs" "i < n"
  shows "unat (blk_addr pa bs i) = unat pa + unat bs * i"
proof -
  have "0 < unat bs" using assms(3) by (simp add: word_less_nat_alt)
  then have "unat bs * i < unat bs * n" using assms(4) by simp
  then show ?thesis using assms by (intro blk_addr_nat) linarith+
qed

lemma region_blocks_distinct:
  assumes "unat pa + unat bs * n \<le> 2 ^ 64" "unat bs * n \<le> 2 ^ 32" "0 < bs"
  shows "distinct (region_blocks pa bs n)"
proof -
  have pos: "unat bs \<noteq> 0" using assms(3) by (simp add: word_less_nat_alt)
  have "i = j" if "i < n" "j < n" "blk_addr pa bs i = blk_addr pa bs j" for i j
  proof -
    have "unat bs * i = unat bs * j"
      using region_blocks_nat [OF assms that(1)] region_blocks_nat [OF assms that(2)] that(3) by (metis add_left_cancel)
    then show ?thesis using pos by simp
  qed
  then show ?thesis by (auto simp: region_blocks_def distinct_map inj_on_def)
qed

lemma init_blocks_loop_spec:
  assumes "distinct (region_blocks pa bs n)" "\<forall>b \<in> set (region_blocks pa bs n). blk_node b \<in> dom (nodes s) \<and> blk_node b \<noteq> list_block a"
    and "i \<le> n" "is_list (nodes s) (list_block a) (map blk_node (region_blocks pa bs i))" "\<forall>b \<in> set (region_blocks pa bs i). magic_at s b = MAGIC_NUMBER"
  shows "\<exists>s'. init_blocks_loop a pa bs n i s = Some s' \<and> hdr_at s' = hdr_at s \<and>
    is_list (nodes s') (list_block a) (map blk_node (region_blocks pa bs n)) \<and> (\<forall>b \<in> set (region_blocks pa bs n). magic_at s' b = MAGIC_NUMBER)"
  using assms(2-)
proof (induction "n - i" arbitrary: i s)
  case 0
  then show ?case by (subst init_blocks_loop.simps) auto
next
  case (Suc d)
  let ?b = "blk_addr pa bs i"
  have i: "i < n" using Suc.hyps(2) by simp
  have snoc: "region_blocks pa bs (Suc i) = region_blocks pa bs i @ [?b]" by (simp add: region_blocks_def)
  have mem: "?b \<in> set (region_blocks pa bs n)" using i by (auto simp: region_blocks_def)
  have "region_blocks pa bs (Suc i) = take (Suc i) (region_blocks pa bs n)"
    using i by (simp add: region_blocks_def take_map)
  then have "distinct (region_blocks pa bs (Suc i))" using assms(1) by simp
  then have new: "?b \<notin> set (region_blocks pa bs i)" by (simp add: snoc)
  obtain s1 h where q: "init_blk_hdr ?b s = Some s1" "list_add_tail (blk_node ?b) (list_block a) (nodes s1) = Some h"
    "hdr_at s1 = hdr_at s" "magic_at s1 = (magic_at s)(?b := MAGIC_NUMBER)"
    "is_list h (list_block a) (map blk_node (region_blocks pa bs (Suc i)))" "dom h = dom (nodes s)"
    using queue_block [OF Suc.prems(3), of ?b] new mem Suc.prems(1) unfolding snoc by blast
  have "\<exists>s'. init_blocks_loop a pa bs n (Suc i) (s1\<lparr>nodes := h\<rparr>) = Some s' \<and> hdr_at s' = hdr_at (s1\<lparr>nodes := h\<rparr>) \<and>
    is_list (nodes s') (list_block a) (map blk_node (region_blocks pa bs n)) \<and> (\<forall>b \<in> set (region_blocks pa bs n). magic_at s' b = MAGIC_NUMBER)"
    by (rule Suc.hyps(1)) (use Suc.hyps(2) Suc.prems q i snoc in auto)
  then show ?case using i q by (subst init_blocks_loop.simps) simp
qed

lemma memblock_init_pool:
  assumes "a \<noteq> 0" "pa \<noteq> 0" "0 < sz" "0 < bs" "sz mod ucast bs = 0" "a \<in> dom (hdr_at s)" "list_block a \<in> dom (nodes s)"
    and n: "unat sz = unat bs * unat n" and region: "unat pa + unat sz \<le> 2 ^ 64" "unat sz \<le> 2 ^ 32"
    and mem: "\<forall>b \<in> set (region_blocks pa bs (unat n)). blk_node b \<in> dom (nodes s) \<and> blk_node b \<noteq> list_block a"
  shows "\<exists>s'. memblock_allocator_init a pa sz bs s = Some (0, s') \<and> pool_of a s' n (region_blocks pa bs (unat n))"
proof -
  have pos: "0 < unat bs" using assms(4) by (simp add: word_less_nat_alt)
  have ub: "unat (ucast bs :: u64) = unat bs" using unat_u32_less [of bs]
    by (simp add: unsigned_ucast_eq take_bit_nat_eq_self)
  have "unat (sz div ucast bs) = unat n" using pos n by (simp add: unat_div_distrib ub)
  then have tot: "(ucast (sz div ucast bs) :: u32) = n" by (simp only: word_unat_eq_iff unsigned_ucast_eq) (simp add: take_bit_nat_eq_self unat_u32_less [simplified])
  obtain h where h: "INIT_LIST_HEAD (list_block a) (nodes s) = Some h" "is_list h (list_block a) []" "dom h = dom (nodes s)"
    using INIT_LIST_HEAD_spec [OF assms(7)] by blast
  let ?x = "\<lparr>magic_number = MAGIC_NUMBER, pa_start = pa, block_size = bs, total_block = n, rest_block = n\<rparr>"
  let ?s = "s\<lparr>hdr_at := (hdr_at s)(a \<mapsto> ?x), nodes := h\<rparr>"
  have region': "unat pa + unat bs * unat n \<le> 2 ^ 64" "unat bs * unat n \<le> 2 ^ 32" using region n by simp_all
  have nz: "0 \<notin> set (region_blocks pa bs (unat n))"
  proof
    assume "0 \<in> set (region_blocks pa bs (unat n))"
    then obtain i where i: "i < unat n" "blk_addr pa bs i = 0" by (auto simp: region_blocks_def)
    have "unat pa = 0" using region_blocks_nat [OF region' assms(4) i(1)] i(2) by simp
    then show False using assms(2) by (simp add: unsigned_eq_0_iff)
  qed
  obtain s' where "init_blocks_loop a pa bs (unat n) 0 ?s = Some s'" "hdr_at s' = hdr_at ?s"
    "is_list (nodes s') (list_block a) (map blk_node (region_blocks pa bs (unat n)))"
    "\<forall>b \<in> set (region_blocks pa bs (unat n)). magic_at s' b = MAGIC_NUMBER"
    using init_blocks_loop_spec [OF region_blocks_distinct [OF region' assms(4)], of ?s a 0] mem h
    by (auto simp: region_blocks_def)
  then show ?thesis
    using assms(1-7) h nz tot
    by (auto simp: memblock_allocator_init_def pool_of_def word_gt_0 region_blocks_def dom_def)
qed

subsection \<open>A queue of resources\<close>

text \<open>
  What a client may rely on: a resource manager whose state stands for a queue, from which \<open>acquire\<close> takes the front element
  and to which \<open>release\<close> gives an element back at the end, when the element may be released (\<open>ok\<close>, which no operation changes).
\<close>

locale resource_queue =
  fixes queue :: "'s \<Rightarrow> 'r list \<Rightarrow> bool"
    and ok :: "'s \<Rightarrow> 'r \<Rightarrow> bool"
    and room :: "'s \<Rightarrow> nat"
    and acquire :: "'s \<Rightarrow> ('r \<times> 's) option"
    and release :: "'r \<Rightarrow> 's \<Rightarrow> 's option"
  assumes acquire: "queue s (r # rs) \<Longrightarrow> \<exists>s'. acquire s = Some (r, s') \<and> queue s' rs \<and> ok s' = ok s \<and> room s' = room s"
    and release: "\<lbrakk>queue s rs; r \<notin> set rs; ok s r; length rs < room s\<rbrakk> \<Longrightarrow>
      \<exists>s'. release r s = Some s' \<and> queue s' (rs @ [r]) \<and> ok s' = ok s \<and> room s' = room s"
    and queue_ok: "queue s rs \<Longrightarrow> r \<in> set rs \<Longrightarrow> ok s r"
    and queue_room: "queue s rs \<Longrightarrow> distinct rs \<and> length rs \<le> room s"
begin

fun acquire_all :: "nat \<Rightarrow> 's \<Rightarrow> ('r list \<times> 's) option" where
  "acquire_all 0 s = Some ([], s)"
| "acquire_all (Suc n) s = do { (r, s) \<leftarrow> acquire s; (rs, s) \<leftarrow> acquire_all n s; Some (r # rs, s) }"

fun release_all :: "'r list \<Rightarrow> 's \<Rightarrow> 's option" where
  "release_all [] s = Some s"
| "release_all (r # rs) s = do { s \<leftarrow> release r s; release_all rs s }"

lemma acquire_all_queue:
  "queue s (rs @ qs) \<Longrightarrow> \<exists>s'. acquire_all (length rs) s = Some (rs, s') \<and> queue s' qs \<and> ok s' = ok s \<and> room s' = room s"
proof (induction rs arbitrary: s)
  case (Cons r rs)
  then obtain s1 where s1: "acquire s = Some (r, s1)" "queue s1 (rs @ qs)" "ok s1 = ok s" "room s1 = room s"
    using acquire [of s r "rs @ qs"] by auto
  then show ?case using Cons.IH [OF s1(2)] by auto
qed auto

lemma release_all_queue:
  "\<lbrakk>queue s qs; distinct rs; set rs \<inter> set qs = {}; \<forall>r \<in> set rs. ok s r; length qs + length rs \<le> room s\<rbrakk> \<Longrightarrow>
   \<exists>s'. release_all rs s = Some s' \<and> queue s' (qs @ rs)"
proof (induction rs arbitrary: s qs)
  case (Cons r rs)
  then obtain s1 where s1: "release r s = Some s1" "queue s1 (qs @ [r])" "ok s1 = ok s" "room s1 = room s"
    using release [of s qs r] by auto
  have "\<exists>s'. release_all rs s1 = Some s' \<and> queue s' ((qs @ [r]) @ rs)"
    by (rule Cons.IH) (use Cons.prems s1 in auto)
  then show ?case using s1(1) by auto
qed auto

lemma rotate_queue:
  assumes "queue s (rs @ qs)"
  shows "\<exists>s' s''. acquire_all (length rs) s = Some (rs, s') \<and> queue s' qs \<and> release_all rs s' = Some s'' \<and> queue s'' (qs @ rs)"
proof -
  obtain s' where s': "acquire_all (length rs) s = Some (rs, s')" "queue s' qs" "ok s' = ok s" "room s' = room s"
    using acquire_all_queue [OF assms] by blast
  have "\<exists>s''. release_all rs s' = Some s'' \<and> queue s'' (qs @ rs)"
    by (rule release_all_queue) (use s' queue_room [OF assms] queue_ok [OF assms] in auto)
  then show ?thesis using s' by blast
qed

end

text \<open>The allocator at \<open>a\<close> with \<open>n\<close> blocks is such a queue; a block may be released when its memory is there and is not the allocator's own list head.\<close>

definition pool_ok :: "u64 \<Rightarrow> blocks \<Rightarrow> u64 \<Rightarrow> bool" where
  "pool_ok a s b \<longleftrightarrow> b \<noteq> 0 \<and> blk_node b \<in> dom (nodes s) \<and> blk_node b \<noteq> list_block a"

lemma pool_ok_dom: "dom (nodes s') = dom (nodes s) \<Longrightarrow> pool_ok a s' = pool_ok a s"
  by (simp add: pool_ok_def fun_eq_iff)

interpretation mb: resource_queue "\<lambda>s. pool_of a s n" "pool_ok a" "\<lambda>s. unat n" "memblock_alloc a" "memblock_free a" for a n
proof (unfold_locales, goal_cases)
  case (1 s b bs)
  show ?case using memblock_alloc_pool [OF 1] pool_ok_dom by blast
next
  case (2 s bs b)
  show ?case
    using memblock_free_pool [OF 2(1) _ 2(2) _ _ 2(4)] 2(3) [unfolded pool_ok_def] pool_ok_dom by blast
next
  case (3 s bs b)
  then have l: "is_list (nodes s) (list_block a) (map blk_node bs)" "b \<noteq> 0" by (auto simp: pool_of_def)
  have "list_block a \<notin> blk_node ` set bs" using l(1) by (simp add: is_list_def)
  then have "blk_node b \<noteq> list_block a" using imageI [OF 3(2), of blk_node] by metis
  then show ?case using is_list_dom [OF l(1)] l(2) 3(2) by (auto simp: pool_ok_def)
next
  case (4 s bs)
  then show ?case by (auto simp: pool_of_def is_list_def distinct_map)
qed

subsection \<open>Properties\<close>

text \<open>A header at 0x1000 and two blocks of 64 bytes at 0x2000, before the initialisation.\<close>

definition demo_blocks :: blocks where
  "demo_blocks = \<lparr>nodes = [0x1020 \<mapsto> \<lparr>prev = 0, next = 0\<rparr>, 0x2008 \<mapsto> \<lparr>prev = 7, next = 7\<rparr>, 0x2048 \<mapsto> \<lparr>prev = 7, next = 7\<rparr>],
     hdr_at = [0x1000 \<mapsto> \<lparr>magic_number = 0, pa_start = 0, block_size = 0, total_block = 0, rest_block = 0\<rparr>],
     magic_at = \<lambda>_. 0\<rparr>"

lemma demo_region: "region_blocks 0x2000 64 2 = [0x2000, 0x2040]"
  by (simp add: region_blocks_def blk_addr_def upt_rec)



text \<open>
  C27: The allocator implements a queue of free blocks: \<^verbatim>\<open>memblock_alloc\<close> returns the block at its front, NULL (changing nothing)
  when it is empty, taking any number of blocks and giving them back in the same order moves them to its
  end, and \<^verbatim>\<open>memblock_self_check\<close> finds no fault in any of these states.
\<close>

theorem memblock_queue:
  assumes "pool_of a s n (rs @ qs)"
  shows "\<exists>s' s''. mb.acquire_all a (length rs) s = Some (rs, s') \<and> pool_of a s' n qs \<and>
    mb.release_all a rs s' = Some s'' \<and> pool_of a s'' n (qs @ rs) \<and>
    (qs = [] \<longrightarrow> memblock_alloc a s' = Some (0, s')) \<and>
    memblock_self_check a s = Some 0 \<and> memblock_self_check a s' = Some 0 \<and> memblock_self_check a s'' = Some 0"
proof -
  obtain s' s'' where "mb.acquire_all a (length rs) s = Some (rs, s')" "pool_of a s' n qs"
    "mb.release_all a rs s' = Some s''" "pool_of a s'' n (qs @ rs)"
    using mb.rotate_queue [OF assms] by blast
  then show ?thesis using memblock_self_check_pool assms memblock_alloc_empty by metis
qed

definition demo_pool :: blocks where
  "demo_pool = snd (the (memblock_allocator_init 0x1000 0x2000 128 64 demo_blocks))"

lemma demo_pool_of: "pool_of 0x1000 demo_pool 2 [0x2000, 0x2040]"
proof -
  have "\<exists>s'. memblock_allocator_init 0x1000 0x2000 128 64 demo_blocks = Some (0, s') \<and>
      pool_of 0x1000 s' 2 (region_blocks 0x2000 64 (unat (2 :: u32)))"
    by (rule memblock_init_pool) (simp_all add: demo_region, simp_all add: demo_blocks_def list_block_def blk_node_def)
  then show ?thesis by (auto simp: demo_pool_def demo_region)
qed

theorem memblock_queue_witness:
  "\<exists>s'. mb.acquire_all 0x1000 2 demo_pool = Some ([0x2000, 0x2040], s') \<and> memblock_alloc 0x1000 s' = Some (0, s')"
  using memblock_queue [of "0x1000" demo_pool 2 "[0x2000, 0x2040]" "[]"] demo_pool_of
  by (auto simp: numeral_2_eq_2)

end
