(* ===== verification/Sv39.thy ===== *)
theory Sv39
  imports Buddy
begin

unbundle bit_operations_syntax

text \<open>
  The three-level page tables of the RISC-V port: \<^verbatim>\<open>arch/riscv/include/asm/vm.h\<close> and
  \<^verbatim>\<open>arch/riscv/mm/vm.c\<close>. A page table is a page of byte memory that holds 512 little-endian entries of eight
  bytes; new tables come from the buddy allocator and go back to it, so the state is the state of that
  allocator. Addresses of tables are kernel virtual addresses, the addresses in entries are physical.
\<close>

subsection \<open>Words in memory\<close>

definition load64 :: "memory \<Rightarrow> u64 \<Rightarrow> u64" where
  "load64 m a = foldr (\<lambda>i w. w OR push_bit (8 * i) (ucast (m (a + word_of_nat i)))) [0..<8] 0"

definition store64 :: "u64 \<Rightarrow> u64 \<Rightarrow> memory \<Rightarrow> memory" where
  "store64 a v m = (\<lambda>b. if unat (b - a) < 8 then ucast (drop_bit (8 * unat (b - a)) v) else m b)"

subsection \<open>asm/vm.h\<close>

definition VM_PROT_V :: u64 where "VM_PROT_V = push_bit 0 1"
definition VM_PROT_R :: u64 where "VM_PROT_R = push_bit 1 1"
definition VM_PROT_W :: u64 where "VM_PROT_W = push_bit 2 1"
definition VM_PROT_X :: u64 where "VM_PROT_X = push_bit 3 1"

definition PTE_VALID :: "u64 \<Rightarrow> bool" where
  "PTE_VALID pte \<longleftrightarrow> pte AND VM_PROT_V \<noteq> 0"

definition PTE_WRITEABLE :: "u64 \<Rightarrow> bool" where
  "PTE_WRITEABLE pte \<longleftrightarrow> pte AND VM_PROT_W \<noteq> 0"

definition PTE_READABLE :: "u64 \<Rightarrow> bool" where
  "PTE_READABLE pte \<longleftrightarrow> pte AND VM_PROT_R \<noteq> 0"

definition PTE_EXCUTABLE :: "u64 \<Rightarrow> bool" where
  "PTE_EXCUTABLE pte \<longleftrightarrow> pte AND VM_PROT_X \<noteq> 0"

definition PTE_NEXTPGT :: "u64 \<Rightarrow> bool" where
  "PTE_NEXTPGT pte \<longleftrightarrow> PTE_VALID pte \<and> (\<not> PTE_WRITEABLE pte \<and> \<not> PTE_READABLE pte \<and> \<not> PTE_EXCUTABLE pte)"

definition SV39_Index2Shift :: "nat \<Rightarrow> nat" where
  "SV39_Index2Shift index = 12 + 9 * (2 - index)"

definition SV39_Index2Bit :: "nat \<Rightarrow> u64" where
  "SV39_Index2Bit index = push_bit (SV39_Index2Shift index) 0x1ff"

definition SV39_Index2Id :: "viraddr \<Rightarrow> nat \<Rightarrow> nat" where
  "SV39_Index2Id va index = unat (drop_bit (SV39_Index2Shift index) (va AND SV39_Index2Bit index))"

definition SV39_Pa2PTE :: "phyaddr \<Rightarrow> u64 \<Rightarrow> u64" where
  "SV39_Pa2PTE pa prot = push_bit 10 (drop_bit CONFIG_PAGE_OFFSET pa AND 0xfffffffffff) OR (prot AND 0x3ff)"

definition SV39_PTE2Pa :: "u64 \<Rightarrow> phyaddr" where
  "SV39_PTE2Pa pte = push_bit 12 (drop_bit 10 (pte AND NOT 0x3ff) AND 0xfffffffffff)"

definition SATP_MODE_SV39 :: u64 where
  "SATP_MODE_SV39 = push_bit 60 8"

definition SV39_PGT2SATP :: "u64 \<Rightarrow> u64" where
  "SV39_PGT2SATP pgt = drop_bit 12 (pgt AND 0xfffffffffff) OR SATP_MODE_SV39"

definition SV39_SATP2PGT :: "u64 \<Rightarrow> u64" where
  "SV39_SATP2PGT satp = push_bit 12 (satp AND 0xfffffffffff)"

definition PTE_NUMS :: nat where
  "PTE_NUMS = 2 ^ CONFIG_PAGE_OFFSET div 8"

definition SV39_INDEX_PAGES :: "nat \<Rightarrow> int" where
  "SV39_INDEX_PAGES index =
     (if index = 0 then int (PTE_NUMS * PTE_NUMS)
      else if index = 1 then int PTE_NUMS
      else if index = 2 then 1
      else 0)"

subsection \<open>Entries of a table\<close>

definition pte_addr :: "u64 \<Rightarrow> nat \<Rightarrow> u64" where
  "pte_addr pgt idx = pgt + 8 * word_of_nat idx"

definition get_pte :: "u64 \<Rightarrow> nat \<Rightarrow> 'a mm_scheme \<Rightarrow> u64" where
  "get_pte pgt idx s = load64 (mem s) (pte_addr pgt idx)"

definition set_pte :: "u64 \<Rightarrow> nat \<Rightarrow> u64 \<Rightarrow> 'a mm_scheme \<Rightarrow> 'a mm_scheme" where
  "set_pte pgt idx v s = s\<lparr>mem := store64 (pte_addr pgt idx) v (mem s)\<rparr>"

definition pages_bytes :: "int \<Rightarrow> u64" where
  "pages_bytes n = word_of_int n * PAGE_SIZE"

subsection \<open>vm_walkthrough\<close>

text \<open>
  The loop over the entries of one table, from \<open>idx\<close> on; \<open>pages\<close> is the value of the counter \<^verbatim>\<open>*pages\<close>. The recursive
  call for the next level is the assertion on its index and its own loop from the index of \<open>va\<close>. The
  result is the return value, the counter and the state.
\<close>

function vm_walk_loop ::
  "pgfm_cfg \<Rightarrow> nat \<Rightarrow> nat \<Rightarrow> u64 \<Rightarrow> viraddr \<Rightarrow> phyaddr \<Rightarrow> u64 \<Rightarrow> int \<Rightarrow> 'a mm_scheme \<Rightarrow> (int \<times> int \<times> 'a mm_scheme) option" where
  "vm_walk_loop cfg index idx pagetable va pa flags pages s =
     (if idx < PTE_NUMS then
        (if index = 2 then
           (if \<not> PTE_VALID (get_pte pagetable idx s)
            then let s = set_pte pagetable idx (SV39_Pa2PTE pa flags) s; pages = pages - 1 in
              if pages = 0 then Some (0, pages, s)
              else vm_walk_loop cfg index (Suc idx) pagetable (va + PAGE_SIZE) (pa + PAGE_SIZE) flags pages s
            else Some (- EEXIST, pages, s))
         else if PTE_VALID (get_pte pagetable idx s) then
           (if \<not> PTE_NEXTPGT (get_pte pagetable idx s) then Some (- EFAULT, pages, s)
            else do {
              let pa_next_pagetable = SV39_PTE2Pa (get_pte pagetable idx s);
              let next_pagetable = pa2va cfg pa_next_pagetable;
              ASSERT (VAL_IS_PAGE_ALIGNED pa_next_pagetable \<and> VAL_IS_PAGE_ALIGNED next_pagetable);
              let cur_pages = pages;
              (ret, pages, s) \<leftarrow> (if Suc index < 3
                then vm_walk_loop cfg (Suc index) (SV39_Index2Id va (Suc index)) next_pagetable va pa flags pages s else None);
              let va = va + pages_bytes (cur_pages - pages);
              let pa = pa + pages_bytes (cur_pages - pages);
              if ret \<noteq> 0 then Some (ret, pages, s)
              else if pages = 0 then Some (0, pages, s)
              else vm_walk_loop cfg index (Suc idx) pagetable va pa flags pages s })
         else do {
           (ptr, s) \<leftarrow> bk_alloc_zero cfg 0 s;
           if ptr = 0 then Some (- ENOMEM, pages, s)
           else do {
             let pa_ptr = va2pa cfg ptr;
             ASSERT (VAL_IS_PAGE_ALIGNED pa_ptr \<and> VAL_IS_PAGE_ALIGNED ptr);
             let s = set_pte pagetable idx (SV39_Pa2PTE pa_ptr VM_PROT_V) s;
             let cur_pages = pages;
             (ret, pages, s) \<leftarrow> (if Suc index < 3
               then vm_walk_loop cfg (Suc index) (SV39_Index2Id va (Suc index)) ptr va pa flags pages s else None);
             let va = va + pages_bytes (cur_pages - pages);
             let pa = pa + pages_bytes (cur_pages - pages);
             if ret \<noteq> 0 then Some (ret, pages, s)
             else if pages = 0 then Some (0, pages, s)
             else vm_walk_loop cfg index (Suc idx) pagetable va pa flags pages s } })
      else Some (0, pages, s))"
  by pat_completeness auto
termination
  by (relation "measures [\<lambda>(cfg, index, idx, pt, va, pa, flags, pages, s). 3 - index,
       \<lambda>(cfg, index, idx, pt, va, pa, flags, pages, s). PTE_NUMS - idx]") auto

declare vm_walk_loop.simps [simp del]

definition vm_walkthrough ::
  "pgfm_cfg \<Rightarrow> u64 \<Rightarrow> viraddr \<Rightarrow> nat \<Rightarrow> phyaddr \<Rightarrow> u64 \<Rightarrow> int \<Rightarrow> 'a mm_scheme \<Rightarrow> (int \<times> int \<times> 'a mm_scheme) option" where
  "vm_walkthrough cfg pagetable va index pa flags pages s = do {
     ASSERT (index < 3);
     let idx = SV39_Index2Id va index;
     ASSERT (idx < PTE_NUMS);
     vm_walk_loop cfg index idx pagetable va pa flags pages s }"

subsection \<open>riscv_unmap\<close>

function riscv_unmap_loop ::
  "pgfm_cfg \<Rightarrow> nat \<Rightarrow> nat \<Rightarrow> u64 \<Rightarrow> viraddr \<Rightarrow> int \<Rightarrow> 'a mm_scheme \<Rightarrow> (int \<times> 'a mm_scheme) option" where
  "riscv_unmap_loop cfg index idx pgtable va pages s =
     (if idx < PTE_NUMS then
        (if index \<noteq> 2 then
           (if PTE_NEXTPGT (get_pte pgtable idx s) then do {
              let pa_next_pgtable = SV39_PTE2Pa (get_pte pgtable idx s);
              let next_pgtable = pa2va cfg pa_next_pgtable;
              ASSERT (next_pgtable \<noteq> 0 \<and> VAL_IS_PAGE_ALIGNED pa_next_pgtable \<and> VAL_IS_PAGE_ALIGNED next_pgtable);
              let cur_pages = pages;
              (pages, s) \<leftarrow> (if Suc index < 3
                then riscv_unmap_loop cfg (Suc index) (SV39_Index2Id va (Suc index)) next_pgtable va pages s else None);
              let va = va + pages_bytes (cur_pages - pages);
              s \<leftarrow> (if cur_pages - pages = SV39_INDEX_PAGES index
                then bk_free cfg next_pgtable (set_pte pgtable idx 0 s)
                else Some s);
              if pages = 0 then Some (pages, s)
              else riscv_unmap_loop cfg index (Suc idx) pgtable va pages s }
            else
              (let sv39_index_max_pages = SV39_INDEX_PAGES index in
               if pages > sv39_index_max_pages
               then riscv_unmap_loop cfg index (Suc idx) pgtable (va + pages_bytes sv39_index_max_pages) (pages - sv39_index_max_pages) s
               else Some (0, s)))
         else
           (let s = set_pte pgtable idx 0 s; pages = pages - 1 in
            if pages = 0 then Some (pages, s)
            else riscv_unmap_loop cfg index (Suc idx) pgtable va pages s))
      else Some (pages, s))"
  by pat_completeness auto
termination
  by (relation "measures [\<lambda>(cfg, index, idx, pt, va, pages, s). 3 - index,
       \<lambda>(cfg, index, idx, pt, va, pages, s). PTE_NUMS - idx]") auto

declare riscv_unmap_loop.simps [simp del]

definition riscv_unmap :: "pgfm_cfg \<Rightarrow> u64 \<Rightarrow> viraddr \<Rightarrow> nat \<Rightarrow> int \<Rightarrow> 'a mm_scheme \<Rightarrow> (int \<times> 'a mm_scheme) option" where
  "riscv_unmap cfg pgtable va index pages s = do {
     ASSERT (index < 3);
     let idx = SV39_Index2Id va index;
     ASSERT (idx < PTE_NUMS);
     riscv_unmap_loop cfg index idx pgtable va pages s }"

subsection \<open>riscv_free_pgtable\<close>

function riscv_free_loop :: "pgfm_cfg \<Rightarrow> nat \<Rightarrow> nat \<Rightarrow> u64 \<Rightarrow> 'a mm_scheme \<Rightarrow> 'a mm_scheme option" where
  "riscv_free_loop cfg index i pgtable s =
     (if i < PTE_NUMS then
        (if index = 2 then
           riscv_free_loop cfg index (Suc i) pgtable
             (if PTE_VALID (get_pte pgtable i s) then set_pte pgtable i 0 s else s)
         else if PTE_NEXTPGT (get_pte pgtable i s) then do {
           let pa_next_pgtable = SV39_PTE2Pa (get_pte pgtable i s);
           let next_pgtable = pa2va cfg pa_next_pgtable;
           ASSERT (VAL_IS_PAGE_ALIGNED pa_next_pgtable \<and> VAL_IS_PAGE_ALIGNED next_pgtable);
           s \<leftarrow> (if Suc index < 3 then riscv_free_loop cfg (Suc index) 0 next_pgtable s else None);
           s \<leftarrow> bk_free cfg next_pgtable (set_pte pgtable i 0 s);
           riscv_free_loop cfg index (Suc i) pgtable s }
         else do {
           ASSERT (\<not> PTE_VALID (get_pte pgtable i s));
           riscv_free_loop cfg index (Suc i) pgtable s })
      else Some s)"
  by pat_completeness auto
termination
  by (relation "measures [\<lambda>(cfg, index, i, pt, s). 3 - index, \<lambda>(cfg, index, i, pt, s). PTE_NUMS - i]") auto

declare riscv_free_loop.simps [simp del]

definition riscv_free_pgtable :: "pgfm_cfg \<Rightarrow> u64 \<Rightarrow> nat \<Rightarrow> 'a mm_scheme \<Rightarrow> 'a mm_scheme option" where
  "riscv_free_pgtable cfg pgtable index s = do { ASSERT (index < 3); riscv_free_loop cfg index 0 pgtable s }"

subsection \<open>The interface of the port\<close>

text \<open>\<^verbatim>\<open>int npages = size / PAGE_SIZE\<close>.\<close>

definition npages_of :: "u64 \<Rightarrow> int" where
  "npages_of sz = sint (ucast (sz div PAGE_SIZE) :: u32)"

definition arch_hw_unmap :: "pgfm_cfg \<Rightarrow> u64 \<Rightarrow> viraddr \<Rightarrow> u64 \<Rightarrow> 'a mm_scheme \<Rightarrow> 'a mm_scheme option" where
  "arch_hw_unmap cfg pgtable va sz s = do {
     ASSERT (pgtable \<noteq> 0 \<and> VAL_IS_PAGE_ALIGNED sz \<and> VAL_IS_PAGE_ALIGNED va);
     if sz = 0 then Some s
     else do {
       let npages = npages_of sz;
       ASSERT (npages \<ge> 0);
       (npages, s) \<leftarrow> riscv_unmap cfg pgtable va 0 npages s;
       ASSERT (npages = 0);
       Some s } }"

definition arch_hw_mmap :: "pgfm_cfg \<Rightarrow> u64 \<Rightarrow> viraddr \<Rightarrow> phyaddr \<Rightarrow> u16 \<Rightarrow> u64 \<Rightarrow> 'a mm_scheme \<Rightarrow> (int \<times> 'a mm_scheme) option" where
  "arch_hw_mmap cfg pgtable va pa prot sz s = do {
     ASSERT (pgtable \<noteq> 0 \<and> VAL_IS_PAGE_ALIGNED pgtable);
     ASSERT (VAL_IS_PAGE_ALIGNED va \<and> VAL_IS_PAGE_ALIGNED pa);
     ASSERT (VAL_IS_PAGE_ALIGNED sz);
     if sz = 0 then Some (0, s)
     else do {
       let npages = npages_of sz;
       ASSERT (npages \<ge> 0);
       let cur_pages = npages;
       (ret, npages, s) \<leftarrow> vm_walkthrough cfg pgtable va 0 pa (ucast prot) npages s;
       if ret \<noteq> 0 then do {
         s \<leftarrow> arch_hw_unmap cfg pgtable va (pages_bytes (cur_pages - npages)) s;
         Some (ret, s) }
       else Some (0, s) } }"

definition arch_hw_unmap_all :: "pgfm_cfg \<Rightarrow> u64 \<Rightarrow> 'a mm_scheme \<Rightarrow> 'a mm_scheme option" where
  "arch_hw_unmap_all cfg pgtable s = do { ASSERT (pgtable \<noteq> 0); riscv_free_pgtable cfg pgtable 0 s }"

definition arch_hw_reset_prot :: "u64 \<Rightarrow> u16 \<Rightarrow> viraddr \<Rightarrow> u64 \<Rightarrow> 'a mm_scheme \<Rightarrow> 'a mm_scheme option" where
  "arch_hw_reset_prot pgtable prot va sz s = do {
     ASSERT (pgtable \<noteq> 0 \<and> VAL_IS_PAGE_ALIGNED sz \<and> VAL_IS_PAGE_ALIGNED va);
     Some s }"

text \<open>The register \<^verbatim>\<open>satp\<close> is an argument and a result.\<close>

definition arch_hw_get_current_pgtable :: "pgfm_cfg \<Rightarrow> u64 \<Rightarrow> u64 option" where
  "arch_hw_get_current_pgtable cfg satp = do {
     let pg_pa = SV39_SATP2PGT satp;
     ASSERT (VAL_IS_PAGE_ALIGNED pg_pa);
     Some (pa2va cfg pg_pa) }"

definition arch_hw_load_pgtable :: "pgfm_cfg \<Rightarrow> u64 \<Rightarrow> u64 option" where
  "arch_hw_load_pgtable cfg pgtable = do {
     ASSERT (pgtable \<noteq> 0 \<and> VAL_IS_PAGE_ALIGNED pgtable);
     Some (SV39_PGT2SATP (va2pa cfg pgtable)) }"

end
