(* ===== verification/KernelMap.thy ===== *)
theory KernelMap
  imports PgfmModule
begin

unbundle bit_operations_syntax

text \<open>
  Where the kernel and the memory are: the byte order macros of \<^verbatim>\<open>include/aco/byteorder.h\<close>, the structure
  and macros of \<^verbatim>\<open>arch/riscv/include/mm/kernel_map.h\<close>, \<^verbatim>\<open>arch/riscv/mm/kernel_map.c\<close>, which
  fills the structure from the device tree and hands out the first free pages, and the page frame range that
  \<^verbatim>\<open>asm/pageframe.h\<close> derives from it. The device tree library is a parameter.
\<close>

subsection \<open>Byte order\<close>

definition swab16 :: "u16 \<Rightarrow> u16" where
  "swab16 x = push_bit 8 (x AND 0x00ff) OR drop_bit 8 (x AND 0xff00)"

definition swab32 :: "u32 \<Rightarrow> u32" where
  "swab32 x = push_bit 24 (x AND 0x000000ff) OR push_bit 8 (x AND 0x0000ff00) OR
     drop_bit 8 (x AND 0x00ff0000) OR drop_bit 24 (x AND 0xff000000)"

definition swab64 :: "u64 \<Rightarrow> u64" where
  "swab64 x = push_bit 56 (x AND 0x00000000000000ff) OR push_bit 40 (x AND 0x000000000000ff00) OR
     push_bit 24 (x AND 0x0000000000ff0000) OR push_bit 8 (x AND 0x00000000ff000000) OR
     drop_bit 8 (x AND 0x000000ff00000000) OR drop_bit 24 (x AND 0x0000ff0000000000) OR
     drop_bit 40 (x AND 0x00ff000000000000) OR drop_bit 56 (x AND 0xff00000000000000)"

definition swahw32 :: "u32 \<Rightarrow> u32" where
  "swahw32 x = push_bit 16 (x AND 0x0000ffff) OR drop_bit 16 (x AND 0xffff0000)"

definition swahb32 :: "u32 \<Rightarrow> u32" where
  "swahb32 x = push_bit 8 (x AND 0x00ff00ff) OR drop_bit 8 (x AND 0xff00ff00)"

text \<open>RISC-V is little-endian.\<close>

definition cpu_to_le64 :: "u64 \<Rightarrow> u64" where "cpu_to_le64 x = x"
definition cpu_to_be64 :: "u64 \<Rightarrow> u64" where "cpu_to_be64 x = swab64 x"
definition be64_to_cpu :: "u64 \<Rightarrow> u64" where "be64_to_cpu x = swab64 x"
definition cpu_to_be32 :: "u32 \<Rightarrow> u32" where "cpu_to_be32 x = swab32 x"
definition be32_to_cpu :: "u32 \<Rightarrow> u32" where "be32_to_cpu x = swab32 x"
definition cpu_to_be16 :: "u16 \<Rightarrow> u16" where "cpu_to_be16 x = swab16 x"
definition be16_to_cpu :: "u16 \<Rightarrow> u16" where "be16_to_cpu x = swab16 x"

subsection \<open>The kernel mapping\<close>

record kernel_mapping =
  pa_st_memory :: phyaddr
  size_memory :: u64
  pa_st_kernel :: phyaddr
  size_kernel :: u64
  pa_st_free :: phyaddr
  size_free :: u64
  va2pa_offset :: u64

definition RISCV_KERNEL_PA_END :: "kernel_mapping \<Rightarrow> phyaddr" where
  "RISCV_KERNEL_PA_END km = pa_st_kernel km + size_kernel km"

definition RISCV_KERNEL_VA_START :: "kernel_mapping \<Rightarrow> viraddr" where
  "RISCV_KERNEL_VA_START km = pa_st_kernel km + va2pa_offset km"

definition RISCV_KERNEL_VA_END :: "kernel_mapping \<Rightarrow> viraddr" where
  "RISCV_KERNEL_VA_END km = RISCV_KERNEL_VA_START km + size_kernel km"

definition RISCV_MEMORY_PA_END :: "kernel_mapping \<Rightarrow> phyaddr" where
  "RISCV_MEMORY_PA_END km = pa_st_memory km + size_memory km"

definition RISCV_MEMORY_VA_START :: "kernel_mapping \<Rightarrow> viraddr" where
  "RISCV_MEMORY_VA_START km = pa_st_memory km + va2pa_offset km"

definition RISCV_MEMORY_VA_END :: "kernel_mapping \<Rightarrow> viraddr" where
  "RISCV_MEMORY_VA_END km = RISCV_MEMORY_VA_START km + size_memory km"

definition RISCV_FREE_PA_END :: "kernel_mapping \<Rightarrow> phyaddr" where
  "RISCV_FREE_PA_END km = pa_st_free km + size_free km"

definition RISCV_FREE_VA_START :: "kernel_mapping \<Rightarrow> viraddr" where
  "RISCV_FREE_VA_START km = pa_st_free km + va2pa_offset km"

definition RISCV_FREE_VA_END :: "kernel_mapping \<Rightarrow> viraddr" where
  "RISCV_FREE_VA_END km = RISCV_FREE_PA_END km + va2pa_offset km"

definition KERNEL_OFFSET :: viraddr where
  "KERNEL_OFFSET = 0x0000003000000000"

text \<open>\<^verbatim>\<open>asm/pageframe.h\<close>: the managed page frames start with the kernel and end with the memory.\<close>

definition arch_pgframe :: "nat \<Rightarrow> kernel_mapping \<Rightarrow> pgfm_cfg" where
  "arch_pgframe max_order km =
     \<lparr>PGFRAME_PA_START = pa_st_kernel km, PGFRAME_VA_START = RISCV_KERNEL_VA_START km,
      PGFRAME_SIZE = RISCV_MEMORY_PA_END km - pa_st_kernel km, MAX_ORDER = max_order\<rparr>"

subsection \<open>kernel_map.c\<close>

text \<open>\<^verbatim>\<open>CHECK\<close> counts a success or an error; both counters are results.\<close>

definition CHECK :: "bool \<Rightarrow> nat \<times> nat \<Rightarrow> nat \<times> nat" where
  "CHECK condition = (\<lambda>(success, err). if condition then (Suc success, err) else (success, Suc err))"

definition riscv_kernel_map_test :: "kernel_mapping \<Rightarrow> nat \<times> nat \<Rightarrow> nat \<times> nat" where
  "riscv_kernel_map_test km c =
     (let ks_addrs = pa_st_kernel km; ms_addrs = pa_st_memory km; k_size = size_kernel km; m_size = size_memory km;
          ke_addrs = ks_addrs + k_size; me_addrs = ms_addrs + m_size;
          c = CHECK (k_size < m_size) c;
          c = CHECK (ks_addrs \<ge> ms_addrs \<and> ks_addrs < me_addrs) c;
          c = CHECK (ke_addrs \<ge> ms_addrs \<and> ke_addrs < me_addrs) c;
          c = CHECK (ks_addrs < KERNEL_OFFSET) c;
          c = CHECK (ke_addrs < KERNEL_OFFSET) c;
          c = CHECK (ms_addrs < KERNEL_OFFSET) c;
          c = CHECK (me_addrs < KERNEL_OFFSET) c;
          c = CHECK (ks_addrs = 0x80200000) c
      in CHECK (ms_addrs = 0x80000000) c)"

text \<open>The functions of the device tree library that \<^verbatim>\<open>kernel_map_init\<close> calls.\<close>

record fdt =
  fdt_check_header :: "u64 \<Rightarrow> int"
  fdt_node_offset_by_prop_value :: "u64 \<Rightarrow> int \<Rightarrow> string \<Rightarrow> string \<Rightarrow> int"
  fdt_address_cells :: "u64 \<Rightarrow> int \<Rightarrow> int"
  fdt_size_cells :: "u64 \<Rightarrow> int \<Rightarrow> int"
  fdt_getprop :: "u64 \<Rightarrow> int \<Rightarrow> string \<Rightarrow> u64"

text \<open>
  \<^verbatim>\<open>memcpy(&v, p, n)\<close> into a local variable of eight bytes whose old value is \<open>junk\<close>; more than eight bytes
  overwrite the stack, which has no result here.
\<close>

definition read_local :: "memory \<Rightarrow> u64 \<Rightarrow> nat \<Rightarrow> u64 \<Rightarrow> u64 option" where
  "read_local m p n junk =
     (if n \<le> 8 then Some (foldr (\<lambda>i w. w OR push_bit (8 * i) (if i < n then ucast (m (p + word_of_nat i)) else take_bit 8 (drop_bit (8 * i) junk))) [0..<8] 0)
      else None)"

definition from_cells :: "int \<Rightarrow> u64 \<Rightarrow> u64" where
  "from_cells cells v = (if cells = 2 then be64_to_cpu v else ucast (be32_to_cpu (ucast v)))"

definition kernel_map_init ::
  "fdt \<Rightarrow> memory \<Rightarrow> u64 \<Rightarrow> u64 \<Rightarrow> u64 \<times> u64 \<Rightarrow> u64 \<Rightarrow> kernel_mapping \<Rightarrow> (kernel_mapping \<times> nat \<times> nat) option" where
  "kernel_map_init ft m kernel_start kernel_end junk dtb_address km = do {
     let km = km\<lparr>pa_st_kernel := kernel_start\<rparr>;
     let km = km\<lparr>size_kernel := kernel_end - pa_st_kernel km\<rparr>;
     let km = km\<lparr>va2pa_offset := KERNEL_OFFSET - pa_st_kernel km\<rparr>;
     ASSERT (fdt_check_header ft dtb_address = 0);
     let offset = fdt_node_offset_by_prop_value ft dtb_address (- 1) ''device_type'' ''memory'';
     ASSERT (offset \<ge> 0);
     let address_cells = fdt_address_cells ft dtb_address offset;
     ASSERT (address_cells \<ge> 0);
     let size_cells = fdt_size_cells ft dtb_address offset;
     ASSERT (size_cells \<ge> 0);
     let address_cells = (if address_cells > size_cells then address_cells else size_cells);
     let size_cells = address_cells;
     let prop = fdt_getprop ft dtb_address offset ''reg'';
     ASSERT (prop \<noteq> 0);
     address \<leftarrow> read_local m prop (4 * nat address_cells) (fst junk);
     sz \<leftarrow> read_local m (prop + word_of_int (4 * address_cells)) (4 * nat size_cells) (snd junk);
     let address = from_cells address_cells address;
     let sz = from_cells size_cells sz;
     let km = km\<lparr>pa_st_memory := address, size_memory := sz\<rparr>;
     let km = km\<lparr>pa_st_free := RISCV_KERNEL_PA_END km\<rparr>;
     let km = km\<lparr>size_free := RISCV_MEMORY_PA_END km - RISCV_KERNEL_PA_END km\<rparr>;
     let (suc, err) = riscv_kernel_map_test km (0, 0);
     Some (km, suc, err) }"

definition freemem_alloc_pa :: "kernel_mapping \<Rightarrow> u64 \<times> kernel_mapping" where
  "freemem_alloc_pa km =
     (if size_free km < PAGE_SIZE then (0, km)
      else (pa_st_free km, km\<lparr>pa_st_free := pa_st_free km + PAGE_SIZE, size_free := size_free km - PAGE_SIZE\<rparr>))"

end
