(* ===== verification/EarlyVm.thy ===== *)
theory EarlyVm
  imports Sv39 KernelMap
begin

unbundle bit_operations_syntax

text \<open>
  The first page table, built before the memory management runs: \<^verbatim>\<open>arch/riscv/mm/early_vm.c\<close>. Paging is off, so
  the tables are reached at their physical addresses, and new tables are the next pages of free memory
  (\<^verbatim>\<open>freemem_alloc_pa\<close>), used as they are. The macros are those of theory \<open>Sv39\<close>, which the source repeats.
\<close>

record early =
  kmap :: kernel_mapping
  pmem :: memory

definition early_pte :: "u64 \<Rightarrow> nat \<Rightarrow> early \<Rightarrow> u64" where
  "early_pte t idx s = load64 (pmem s) (pte_addr t idx)"

definition early_set_pte :: "u64 \<Rightarrow> nat \<Rightarrow> u64 \<Rightarrow> early \<Rightarrow> early" where
  "early_set_pte t idx v s = s\<lparr>pmem := store64 (pte_addr t idx) v (pmem s)\<rparr>"

definition early_alloc :: "early \<Rightarrow> u64 \<times> early" where
  "early_alloc s = (let (p, km) = freemem_alloc_pa (kmap s) in (p, s\<lparr>kmap := km\<rparr>))"

function early_walkthrough :: "u64 \<Rightarrow> viraddr \<Rightarrow> nat \<Rightarrow> phyaddr \<Rightarrow> u16 \<Rightarrow> early \<Rightarrow> int \<times> early" where
  "early_walkthrough pagetable va index pa flags s =
     (if pagetable = 0 \<or> \<not> VAL_IS_PAGE_ALIGNED pagetable then (- EINVAL, s)
      else if \<not> VAL_IS_PAGE_ALIGNED va \<or> \<not> VAL_IS_PAGE_ALIGNED pa then (- EINVAL, s)
      else if \<not> index < 3 then (- EINVAL, s)
      else let idx = SV39_Index2Id va index in
        if \<not> idx < 512 then (- EFAULT, s)
        else if \<not> PTE_VALID (early_pte pagetable idx s) then
          (if index = 2 then (0, early_set_pte pagetable idx (SV39_Pa2PTE pa (ucast flags)) s)
           else let (ptr, s) = early_alloc s in
             if ptr = 0 then (- ENOMEM, s)
             else let s = early_set_pte pagetable idx (SV39_Pa2PTE ptr VM_PROT_V) s;
                      (_, s) = early_walkthrough ptr va (Suc index) pa flags s
                  in (0, s))
        else if index = 2 then (- EEXIST, s)
        else if \<not> PTE_NEXTPGT (early_pte pagetable idx s) then (- EFAULT, s)
        else let next_pagetable = SV39_PTE2Pa (early_pte pagetable idx s);
                 (ret, s) = early_walkthrough next_pagetable va (Suc index) pa flags s
             in if ret \<noteq> 0 then (ret, s) else (0, s))"
  by pat_completeness auto
termination by (relation "measure (\<lambda>(pagetable, va, index, pa, flags, s). 3 - index)") auto

declare early_walkthrough.simps [simp del]

function early_mmap_loop :: "u64 \<Rightarrow> viraddr \<Rightarrow> phyaddr \<Rightarrow> u64 \<Rightarrow> u16 \<Rightarrow> early \<Rightarrow> int \<times> early" where
  "early_mmap_loop pagetable va pa sz flags s =
     (if sz > 0 \<and> sz \<ge> PAGE_SIZE then
        (let (ret, s) = early_walkthrough pagetable va 0 pa flags s in
         if ret \<noteq> 0 then (ret, s)
         else early_mmap_loop pagetable (va + PAGE_SIZE) (pa + PAGE_SIZE) (sz - PAGE_SIZE) flags s)
      else (0, s))"
  by pat_completeness auto
termination
proof (relation "measure (\<lambda>(pagetable, va, pa, sz, flags, s). unat sz)", simp, goal_cases)
  case (1 pagetable va pa sz flags s x ret s')
  then have "unat (sz - PAGE_SIZE) = unat sz - unat PAGE_SIZE" by (intro unat_sub) simp
  moreover have "0 < unat PAGE_SIZE" "unat PAGE_SIZE \<le> unat sz" using 1 by (simp_all add: word_le_nat_alt)
  ultimately show ?case by simp
qed

declare early_mmap_loop.simps [simp del]

text \<open>
  The pointer \<^verbatim>\<open>*ptr_pagetable\<close> is an argument and a result. The size is a multiple of the page size when the loop
  starts, so the loop never steps below 0.
\<close>

definition early_vm_mmap :: "u64 \<Rightarrow> viraddr \<Rightarrow> phyaddr \<Rightarrow> u64 \<Rightarrow> u16 \<Rightarrow> early \<Rightarrow> int \<times> u64 \<times> early" where
  "early_vm_mmap pagetable va pa sz flags s =
     (if va AND PAGE_ALIGN_BIT \<noteq> pa AND PAGE_ALIGN_BIT then (- EINVAL, pagetable, s)
      else if sz mod PAGE_SIZE \<noteq> 0 then (- EINVAL, pagetable, s)
      else let (pagetable, s) = (if pagetable = 0 then early_alloc s else (pagetable, s)) in
        if pagetable = 0 then (- ENOMEM, pagetable, s)
        else let (ret, s) = early_mmap_loop pagetable (PAGE_DOWNS_ALIGN va) (PAGE_DOWNS_ALIGN pa) sz flags s
             in (ret, pagetable, s))"

text \<open>The result is the value of \<^verbatim>\<open>kernel_pagetable\<close>.\<close>

definition setup_earlyvm :: "u64 \<Rightarrow> u64 \<Rightarrow> early \<Rightarrow> (u64 \<times> early) option" where
  "setup_earlyvm kernel_start seperate_line s = do {
     let bef_size = seperate_line - kernel_start;
     let aft_size = RISCV_MEMORY_PA_END (kmap s) - seperate_line;
     ASSERT (bef_size mod PAGE_SIZE = 0);
     let aft_size = PAGE_UPPER_ALIGN aft_size;
     let (ret, pagetable, s) = early_vm_mmap 0 KERNEL_OFFSET kernel_start bef_size (ucast (VM_PROT_V OR VM_PROT_R OR VM_PROT_X)) s;
     ASSERT (ret = 0);
     let (ret, pagetable, s) = early_vm_mmap pagetable (KERNEL_OFFSET + bef_size) seperate_line aft_size (ucast (VM_PROT_V OR VM_PROT_R OR VM_PROT_W)) s;
     ASSERT (ret = 0);
     Some (SV39_PGT2SATP pagetable, s) }"

end
