(* ===== verification/Sv39Mem.thy ===== *)
theory Sv39Mem
  imports Sv39 BuddyContract
begin

unbundle bit_operations_syntax

text \<open>
  Facts on which the page table proofs rest: eight-byte words in byte memory, the fields of addresses and entries,
  and the bytes of a page.
\<close>

subsection \<open>Words in memory\<close>

lemma bit_or_fold:
  fixes f :: "nat \<Rightarrow> u64"
  shows "bit (foldr (\<lambda>i w. w OR f i) xs 0) n \<longleftrightarrow> (\<exists>i \<in> set xs. bit (f i) n)"
  by (induction xs) (auto simp: bit_simps)

lemma bit_load64: "bit (load64 m a) n \<longleftrightarrow> n < 64 \<and> bit (m (a + word_of_nat (n div 8))) (n mod 8)"
proof -
  have "bit (load64 m a) n \<longleftrightarrow> (\<exists>i. 8 * i \<le> n \<and> n < 64 \<and> bit (m (a + word_of_nat i)) (n - 8 * i))"
    unfolding load64_def bit_or_fold by (auto simp: bit_simps)
  also have "\<dots> \<longleftrightarrow> n < 64 \<and> bit (m (a + word_of_nat (n div 8))) (n mod 8)"
  proof
    assume "\<exists>i. 8 * i \<le> n \<and> n < 64 \<and> bit (m (a + word_of_nat i)) (n - 8 * i)"
    then obtain i where i: "8 * i \<le> n" "n < 64" "bit (m (a + word_of_nat i)) (n - 8 * i)" by blast
    have "n - 8 * i < 8" using bit_imp_le_length [OF i(3)] by simp
    then have "n div 8 = i" using i(1) by linarith
    moreover then have "n mod 8 = n - 8 * i" by (simp add: minus_mult_div_eq_mod [symmetric])
    ultimately show "n < 64 \<and> bit (m (a + word_of_nat (n div 8))) (n mod 8)" using i by simp
  next
    assume "n < 64 \<and> bit (m (a + word_of_nat (n div 8))) (n mod 8)"
    moreover have "n - 8 * (n div 8) = n mod 8" by presburger
    ultimately show "\<exists>i. 8 * i \<le> n \<and> n < 64 \<and> bit (m (a + word_of_nat i)) (n - 8 * i)"
      by (intro exI [of _ "n div 8"]) auto
  qed
  finally show ?thesis .
qed

lemma load64_cong: "(\<And>i. i < 8 \<Longrightarrow> m (a + word_of_nat i) = m' (a + word_of_nat i)) \<Longrightarrow> load64 m a = load64 m' a"
  by (rule bit_word_eqI) (auto simp: bit_load64)

lemma load64_zero: "(\<And>i. i < 8 \<Longrightarrow> m (a + word_of_nat i) = 0) \<Longrightarrow> load64 m a = 0"
  by (rule bit_word_eqI) (auto simp: bit_load64)

lemma store64_at: "i < 8 \<Longrightarrow> store64 a v m (a + word_of_nat i) = ucast (drop_bit (8 * i) v)"
  by (simp add: store64_def unat_u64_of_nat)

lemma load_store_same [simp]: "load64 (store64 a v m) a = v"
proof (rule bit_word_eqI)
  fix n assume n: "n < LENGTH(64)"
  then have "bit (store64 a v m (a + word_of_nat (n div 8))) (n mod 8) \<longleftrightarrow> bit v n"
    by (subst store64_at) (auto simp: bit_simps)
  then show "bit (load64 (store64 a v m) a) n \<longleftrightarrow> bit v n" using n by (simp add: bit_load64)
qed

subsection \<open>Bytes of a page\<close>

definition in_page :: "u64 \<Rightarrow> u64 \<Rightarrow> bool" where
  "in_page t a \<longleftrightarrow> unat (a - t) < 4096"

text \<open>Memory differs on the bytes of the pages \<open>T\<close> only.\<close>

definition same_but :: "u64 set \<Rightarrow> memory \<Rightarrow> memory \<Rightarrow> bool" where
  "same_but T m m' \<longleftrightarrow> (\<forall>a. (\<forall>t \<in> T. \<not> in_page t a) \<longrightarrow> m' a = m a)"

lemma same_but_refl [simp]: "same_but T m m"
  by (simp add: same_but_def)

lemma same_but_trans: "same_but T m m' \<Longrightarrow> same_but U m' m'' \<Longrightarrow> same_but (T \<union> U) m m''"
  by (simp add: same_but_def)

lemma same_but_mono: "same_but T m m' \<Longrightarrow> T \<subseteq> U \<Longrightarrow> same_but U m m'"
  by (auto simp: same_but_def)

abbreviation aligned :: "u64 \<Rightarrow> bool" where
  "aligned t \<equiv> VAL_IS_PAGE_ALIGNED t"

lemma aligned_apart:
  assumes "aligned t" "aligned u" "in_page t a" "in_page u a"
  shows "t = u"
proof -
  have "unat t = unat a div 4096 * 4096" if t: "aligned t" "in_page t a" for t
  proof -
    obtain k where k: "unat t = 4096 * k" using t(1) by (auto simp: page_aligned_iff elim: dvdE)
    have d: "unat a = (unat t + unat (a - t)) mod 2 ^ 64"
      using unat_word_ariths(1) [of t "a - t"] by simp
    have lt: "unat t < 2 ^ 64" using unsigned_less [of t] by simp
    have "unat t + unat (a - t) < 2 ^ 64" using k lt t(2) by (simp add: in_page_def)
    then have "unat a = 4096 * k + unat (a - t)" using d k by simp
    then show ?thesis using t(2) k by (simp add: in_page_def)
  qed
  then show ?thesis using assms by (metis word_unat_eq_iff)
qed

lemma pte_addr_in_page:
  assumes "i < 512" "j < 8"
  shows "in_page t (pte_addr t i + word_of_nat j)"
proof -
  have "pte_addr t i + word_of_nat j - t = word_of_nat (8 * i + j)" by (simp add: pte_addr_def)
  then show ?thesis using assms unat_u64_of_nat [of "8 * i + j"] by (simp only: in_page_def) simp
qed

lemma load_store_pte:
  assumes "i < 512" "j < 512" "i \<noteq> j"
  shows "load64 (store64 (pte_addr t i) v m) (pte_addr t j) = load64 m (pte_addr t j)"
proof (rule load64_cong)
  fix k :: nat assume k: "k < 8"
  have e: "pte_addr t j + word_of_nat k - pte_addr t i = word_of_nat (8 * j + k) - word_of_nat (8 * i)"
    by (simp add: pte_addr_def)
  have n: "\<not> unat (word_of_nat (8 * j + k) - word_of_nat (8 * i) :: u64) < 8"
  proof (cases "i < j")
    case True
    then have "8 * i + 8 \<le> 8 * j + k" by linarith
    then have "(word_of_nat (8 * j + k) - word_of_nat (8 * i) :: u64) = word_of_nat (8 * j + k - 8 * i)" by (simp add: of_nat_diff)
    moreover have "8 \<le> 8 * j + k - 8 * i" "8 * j + k - 8 * i < 4096" using True assms k by linarith+
    ultimately show ?thesis using unat_u64_of_nat [of "8 * j + k - 8 * i"] by simp
  next
    case False
    then have lt: "8 * j + k < 8 * i" using assms k by linarith
    have "unat (word_of_nat (8 * j + k) - word_of_nat (8 * i) :: u64) = 2 ^ 64 + (8 * j + k) - 8 * i"
    proof -
      have "unat (word_of_nat (8 * j + k) :: u64) = 8 * j + k" "unat (word_of_nat (8 * i) :: u64) = 8 * i"
        using lt assms(1) by (simp_all add: unat_u64_of_nat del: of_nat_add of_nat_mult)
      then show ?thesis using lt by (simp add: unat_sub_if' del: of_nat_add of_nat_mult)
    qed
    then show ?thesis using assms lt by simp
  qed
  show "store64 (pte_addr t i) v m (pte_addr t j + word_of_nat k) = m (pte_addr t j + word_of_nat k)"
    unfolding store64_def e if_not_P [OF n] ..
qed

lemma store_pte_same_but: "i < 512 \<Longrightarrow> same_but {t} m (store64 (pte_addr t i) v m)"
proof -
  assume i: "i < 512"
  have "in_page t a" if a: "unat (a - pte_addr t i) < 8" for a
  proof -
    have "a = pte_addr t i + word_of_nat (unat (a - pte_addr t i))" by simp
    then show ?thesis using pte_addr_in_page [OF i a] by metis
  qed
  then show ?thesis by (auto simp: same_but_def store64_def)
qed

lemma load_same_but:
  assumes "same_but T m m'" "i < 512" "aligned t" "\<forall>u \<in> T. aligned u \<and> u \<noteq> t"
  shows "load64 m' (pte_addr t i) = load64 m (pte_addr t i)"
proof (rule load64_cong)
  fix j :: nat assume "j < 8"
  then have "in_page t (pte_addr t i + word_of_nat j)" by (rule pte_addr_in_page [OF assms(2)])
  then have "\<forall>u \<in> T. \<not> in_page u (pte_addr t i + word_of_nat j)" using aligned_apart assms(3,4) by blast
  then show "m' (pte_addr t i + word_of_nat j) = m (pte_addr t i + word_of_nat j)" using assms(1) by (simp add: same_but_def)
qed

subsection \<open>Fields of addresses and entries\<close>

text \<open>The page number of an address.\<close>

definition vpn :: "u64 \<Rightarrow> nat" where
  "vpn a = unat a div 4096"

lemma mask_9: "(0x1ff :: u64) = mask 9"
  by (simp add: mask_eq_exp_minus_1)

lemma drop_and_push: "drop_bit k (x AND push_bit k (mask n)) = take_bit n (drop_bit k (x :: u64))"
  by (rule bit_word_eqI) (auto simp: bit_simps dest: bit_imp_le_length)

lemma Index2Id_vpn:
  assumes "index \<le> 2"
  shows "SV39_Index2Id v index = vpn v div 512 ^ (2 - index) mod 512"
proof -
  let ?k = "SV39_Index2Shift index"
  have "SV39_Index2Id v index = unat (take_bit 9 (drop_bit ?k v))"
    unfolding SV39_Index2Id_def SV39_Index2Bit_def mask_9 drop_and_push ..
  also have "\<dots> = unat v div 2 ^ ?k mod 512"
  proof -
    have "unat (take_bit 9 (drop_bit ?k v)) = take_bit 9 (unat (drop_bit ?k v))"
      by (rule unsigned_take_bit_eq)
    also have "unat (drop_bit ?k v) = drop_bit ?k (unat v)"
      unfolding unsigned_drop_bit_eq by (simp add: take_bit_nat_eq_self unat_u64_less [simplified])
    finally show ?thesis by (simp add: take_bit_eq_mod drop_bit_eq_div)
  qed
  also have "(2 :: nat) ^ ?k = 4096 * 512 ^ (2 - index)"
    by (simp add: SV39_Index2Shift_def power_add power_mult)
  finally show ?thesis by (simp add: vpn_def div_mult2_eq)
qed

lemma PTE_NUMS_val [simp]: "PTE_NUMS = 512"
  by (simp add: PTE_NUMS_def CONFIG_PAGE_OFFSET_def)

lemma INDEX_PAGES_val: "index \<le> 2 \<Longrightarrow> SV39_INDEX_PAGES index = 512 ^ (2 - index)"
  by (auto simp: SV39_INDEX_PAGES_def le_Suc_eq numeral_2_eq_2)

lemma and_one_bit: "n < 64 \<Longrightarrow> x AND push_bit n 1 \<noteq> 0 \<longleftrightarrow> bit (x :: u64) n"
proof -
  assume n: "n < 64"
  have "x AND push_bit n 1 = (if bit x n then push_bit n 1 else 0)"
    by (rule bit_word_eqI) (auto simp: bit_simps)
  moreover have "bit (push_bit n 1 :: u64) n" using n by (simp add: bit_simps)
  then have "(push_bit n 1 :: u64) \<noteq> 0" using n by (intro notI) simp
  ultimately show ?thesis by simp
qed

lemma PTE_bits:
  "PTE_VALID e \<longleftrightarrow> bit e 0" "PTE_READABLE e \<longleftrightarrow> bit e 1" "PTE_WRITEABLE e \<longleftrightarrow> bit e 2" "PTE_EXCUTABLE e \<longleftrightarrow> bit e 3"
  unfolding PTE_VALID_def PTE_READABLE_def PTE_WRITEABLE_def PTE_EXCUTABLE_def VM_PROT_V_def VM_PROT_R_def VM_PROT_W_def VM_PROT_X_def
    by (rule and_one_bit, simp)+

lemma masks: "(0xfffffffffff :: u64) = mask 44" "(0x3ff :: u64) = mask 10"
  by (simp_all add: mask_eq_exp_minus_1)

lemma bit_Pa2PTE: "bit (SV39_Pa2PTE p fl) n \<longleftrightarrow> (if n < 10 then bit fl n else n < 54 \<and> bit p (n + 2))"
  unfolding SV39_Pa2PTE_def masks CONFIG_PAGE_OFFSET_def by (auto simp: bit_simps not_less)

lemma bit_PTE2Pa: "bit (SV39_PTE2Pa e) n \<longleftrightarrow> 12 \<le> n \<and> n < 56 \<and> bit e (n - 2)"
  unfolding SV39_PTE2Pa_def masks by (auto simp: bit_simps not_less)

lemma PTE2Pa_aligned: "aligned (SV39_PTE2Pa e)"
  unfolding VAL_IS_PAGE_ALIGNED_def and_PAGE_ALIGN_BIT by (rule bit_word_eqI) (auto simp: bit_simps bit_PTE2Pa)

lemma aligned_bits: "aligned p \<Longrightarrow> n < 12 \<Longrightarrow> \<not> bit p n"
proof -
  assume "aligned p" "n < 12"
  then have "bit (take_bit 12 p) n = bit (0 :: u64) n" unfolding VAL_IS_PAGE_ALIGNED_def and_PAGE_ALIGN_BIT by (simp only:)
  then show "\<not> bit p n" using \<open>n < 12\<close> by (simp add: bit_simps)
qed

lemma high_bits: "unat (p :: u64) < 2 ^ k \<Longrightarrow> k \<le> n \<Longrightarrow> \<not> bit p n"
  by (metis bit_take_bit_iff leD take_bit_nat_eq_self_iff unsigned_take_bit_eq word_unat_eq_iff)

text \<open>An entry gives back the page-aligned physical address, below \<open>2 ^ 56\<close>, that it was made from.\<close>

lemma PTE_roundtrip: "aligned p \<Longrightarrow> unat p < 2 ^ 56 \<Longrightarrow> SV39_PTE2Pa (SV39_Pa2PTE p fl) = p"
proof (rule bit_word_eqI)
  fix n assume a: "aligned p" "unat p < 2 ^ 56" "n < LENGTH(64)"
  show "bit (SV39_PTE2Pa (SV39_Pa2PTE p fl)) n \<longleftrightarrow> bit p n"
  proof (cases "12 \<le> n \<and> n < 56")
    case True
    then have "\<not> n - 2 < 10" "n - 2 < 54" "n - 2 + 2 = n" by linarith+
    then show ?thesis using True by (simp only: bit_PTE2Pa bit_Pa2PTE) simp
  next
    case False
    then show ?thesis using aligned_bits [OF a(1)] high_bits [OF a(2)] by (auto simp: bit_PTE2Pa)
  qed
qed

lemma table_entry: "PTE_NEXTPGT (SV39_Pa2PTE p VM_PROT_V)"
  by (simp add: PTE_NEXTPGT_def PTE_bits bit_Pa2PTE VM_PROT_V_def)

lemma leaf_valid: "PTE_VALID (SV39_Pa2PTE p fl) \<longleftrightarrow> PTE_VALID fl"
  by (simp add: PTE_bits bit_Pa2PTE)

lemma NEXTPGT_valid: "PTE_NEXTPGT e \<Longrightarrow> PTE_VALID e"
  by (simp add: PTE_NEXTPGT_def)

lemma zero_invalid [simp]: "\<not> PTE_VALID 0" "\<not> PTE_NEXTPGT 0"
  by (simp_all add: PTE_NEXTPGT_def PTE_bits)

end
