(* ===== verification/Sv39Tree.thy ===== *)
theory Sv39Tree
  imports Sv39Mem
begin

text \<open>
  Page tables in memory as trees: which pages the tables of a root occupy, when they form a tree, and the mapping they
  stand for, from page numbers to leaf entries. \<open>n\<close> is the number of levels below a table: 2 for the root, 0 for
  the last level, so that a table covers \<open>512 ^ Suc n\<close> pages.
\<close>

subsection \<open>The tree\<close>

definition pte :: "memory \<Rightarrow> u64 \<Rightarrow> nat \<Rightarrow> u64" where
  "pte m t i = load64 m (pte_addr t i)"

definition nxt :: "pgfm_cfg \<Rightarrow> memory \<Rightarrow> u64 \<Rightarrow> nat \<Rightarrow> u64" where
  "nxt cfg m t i = pa2va cfg (SV39_PTE2Pa (pte m t i))"

abbreviation valid :: "memory \<Rightarrow> u64 \<Rightarrow> nat \<Rightarrow> bool" where
  "valid m t i \<equiv> PTE_VALID (pte m t i)"

fun pt_pages :: "pgfm_cfg \<Rightarrow> memory \<Rightarrow> nat \<Rightarrow> u64 \<Rightarrow> u64 set" where
  "pt_pages cfg m 0 t = {t}"
| "pt_pages cfg m (Suc n) t = insert t (\<Union>i \<in> {i \<in> {..<512}. valid m t i}. pt_pages cfg m n (nxt cfg m t i))"

fun pt_wf :: "pgfm_cfg \<Rightarrow> memory \<Rightarrow> nat \<Rightarrow> u64 \<Rightarrow> bool" where
  "pt_wf cfg m 0 t \<longleftrightarrow> aligned t"
| "pt_wf cfg m (Suc n) t \<longleftrightarrow> aligned t \<and>
     (\<forall>i < 512. valid m t i \<longrightarrow> PTE_NEXTPGT (pte m t i) \<and> pt_wf cfg m n (nxt cfg m t i) \<and> t \<notin> pt_pages cfg m n (nxt cfg m t i)) \<and>
     (\<forall>i < 512. \<forall>j < 512. i \<noteq> j \<and> valid m t i \<and> valid m t j \<longrightarrow>
        pt_pages cfg m n (nxt cfg m t i) \<inter> pt_pages cfg m n (nxt cfg m t j) = {})"

fun pt_map :: "pgfm_cfg \<Rightarrow> memory \<Rightarrow> nat \<Rightarrow> u64 \<Rightarrow> nat \<Rightarrow> u64 option" where
  "pt_map cfg m 0 t v = (if valid m t v then Some (pte m t v) else None)"
| "pt_map cfg m (Suc n) t v = (let i = v div 512 ^ Suc n in
     if valid m t i then pt_map cfg m n (nxt cfg m t i) (v mod 512 ^ Suc n) else None)"

lemma root_in_pages [simp]: "t \<in> pt_pages cfg m n t"
  by (cases n) simp_all

lemma pt_wf_aligned: "pt_wf cfg m n t \<Longrightarrow> aligned t"
  by (cases n) simp_all

lemma pages_aligned: "pt_wf cfg m n t \<Longrightarrow> u \<in> pt_pages cfg m n t \<Longrightarrow> aligned u"
  by (induction n arbitrary: t) auto

lemma child_pages: "i < 512 \<Longrightarrow> valid m t i \<Longrightarrow> pt_pages cfg m n (nxt cfg m t i) \<subseteq> pt_pages cfg m (Suc n) t"
  by auto

lemma pt_wf_child:
  assumes "pt_wf cfg m (Suc n) t" "i < 512" "valid m t i"
  shows "PTE_NEXTPGT (pte m t i)" "pt_wf cfg m n (nxt cfg m t i)" "t \<notin> pt_pages cfg m n (nxt cfg m t i)"
  using assms by auto

lemma pt_wf_apart:
  assumes "pt_wf cfg m (Suc n) t" "i < 512" "valid m t i" "j < 512" "valid m t j" "i \<noteq> j"
  shows "pt_pages cfg m n (nxt cfg m t i) \<inter> pt_pages cfg m n (nxt cfg m t j) = {}"
  using assms by simp

lemma pt_map_Suc: "i * 512 ^ Suc n \<le> v \<Longrightarrow> v < Suc i * 512 ^ Suc n \<Longrightarrow>
  pt_map cfg m (Suc n) t v = (if valid m t i then pt_map cfg m n (nxt cfg m t i) (v - i * 512 ^ Suc n) else None)"
proof -
  assume "i * 512 ^ Suc n \<le> v" "v < Suc i * 512 ^ Suc n"
  then have "v div 512 ^ Suc n = i" by (intro div_nat_eqI) (simp_all add: mult.commute)
  moreover then have "v mod 512 ^ Suc n = v - i * 512 ^ Suc n" by (metis minus_div_mult_eq_mod)
  ultimately show ?thesis by (simp add: Let_def del: power_Suc)
qed

subsection \<open>Changes elsewhere\<close>

lemma pte_same_but: "same_but T m m' \<Longrightarrow> i < 512 \<Longrightarrow> aligned t \<Longrightarrow> \<forall>u \<in> T. aligned u \<and> u \<noteq> t \<Longrightarrow> pte m' t i = pte m t i"
  unfolding pte_def by (rule load_same_but)

lemma pt_frame:
  assumes "same_but T m m'" "\<forall>u \<in> T. aligned u" "pt_wf cfg m n t" "pt_pages cfg m n t \<inter> T = {}"
  shows "pt_pages cfg m' n t = pt_pages cfg m n t" "pt_wf cfg m' n t"
    and "v < 512 ^ Suc n \<Longrightarrow> pt_map cfg m' n t v = pt_map cfg m n t v"
  using assms(3,4)
proof (induction n arbitrary: t v)
  case 0
  { case 1 show ?case by simp }
  { case 2 then show ?case by simp }
  { case 3
    have "pte m' t v = pte m t v" by (rule pte_same_but [OF assms(1)]) (use 3 assms(2) in auto)
    then show ?case by simp }
next
  case (Suc n)
  have e: "pte m' t i = pte m t i" if "i < 512" "pt_wf cfg m (Suc n) t" "pt_pages cfg m (Suc n) t \<inter> T = {}" for t i
    by (rule pte_same_but [OF assms(1) that(1)]) (use that assms(2) in auto)
  have k: "pt_pages cfg m' n (nxt cfg m t i) = pt_pages cfg m n (nxt cfg m t i)" "pt_wf cfg m' n (nxt cfg m t i)"
    "\<And>v. v < 512 ^ Suc n \<Longrightarrow> pt_map cfg m' n (nxt cfg m t i) v = pt_map cfg m n (nxt cfg m t i) v"
    if "i < 512" "valid m t i" "pt_wf cfg m (Suc n) t" "pt_pages cfg m (Suc n) t \<inter> T = {}" for t i
  proof -
    have d: "pt_pages cfg m n (nxt cfg m t i) \<inter> T = {}" using child_pages [OF that(1,2), of cfg n] that(4) by blast
    note IH = Suc.IH(3) [OF _ pt_wf_child(2) [OF that(3,1,2)] d] Suc.IH(1,2) [OF pt_wf_child(2) [OF that(3,1,2)] d]
    show "pt_pages cfg m' n (nxt cfg m t i) = pt_pages cfg m n (nxt cfg m t i)" "pt_wf cfg m' n (nxt cfg m t i)"
      "\<And>v. v < 512 ^ Suc n \<Longrightarrow> pt_map cfg m' n (nxt cfg m t i) v = pt_map cfg m n (nxt cfg m t i) v"
      using IH by blast+
  qed
  have n: "nxt cfg m' t i = nxt cfg m t i" if "i < 512" "pt_wf cfg m (Suc n) t" "pt_pages cfg m (Suc n) t \<inter> T = {}" for t i
    using e [OF that] by (simp add: nxt_def)
  { case 1 then show ?case using e [OF _ 1] n [OF _ 1] k(1) [OF _ _ 1] by auto }
  { case 2 then show ?case using e [OF _ 2] n [OF _ 2] k(1,2) [OF _ _ 2] by simp }
  { case 3
    have i: "v div 512 ^ Suc n < 512" using 3(1) by (simp add: less_mult_imp_div_less)
    have "v mod 512 ^ Suc n < 512 ^ Suc n" by simp
    then show ?case using e [OF i 3(2,3)] n [OF i 3(2,3)] k(3) [OF i _ 3(2,3)]
      by (simp add: Let_def del: power_Suc) }
qed

subsection \<open>Changes below one entry\<close>

lemma pt_child_change:
  assumes wf: "pt_wf cfg m (Suc n) t" and i: "i < 512" "valid m t i"
    and ch: "same_but (pt_pages cfg m n (nxt cfg m t i) \<union> F) m m'" "\<forall>u \<in> F. aligned u" "F \<inter> pt_pages cfg m (Suc n) t = {}"
    and kid: "pt_wf cfg m' n (nxt cfg m t i)" "pt_pages cfg m' n (nxt cfg m t i) \<subseteq> pt_pages cfg m n (nxt cfg m t i) \<union> F"
  shows "j < 512 \<Longrightarrow> pte m' t j = pte m t j" "pt_wf cfg m' (Suc n) t"
    "pt_pages cfg m' (Suc n) t = (pt_pages cfg m (Suc n) t - pt_pages cfg m n (nxt cfg m t i)) \<union> pt_pages cfg m' n (nxt cfg m t i)"
    "v < 512 ^ Suc (Suc n) \<Longrightarrow> pt_map cfg m' (Suc n) t v = (if v div 512 ^ Suc n = i
       then pt_map cfg m' n (nxt cfg m t i) (v mod 512 ^ Suc n) else pt_map cfg m (Suc n) t v)"
proof -
  let ?c = "nxt cfg m t i" and ?T = "pt_pages cfg m n (nxt cfg m t i) \<union> F"
  have t: "aligned t" using pt_wf_aligned [OF wf] .
  have al: "\<forall>u \<in> ?T. aligned u" using pages_aligned [OF pt_wf_child(2) [OF wf i]] ch(2) by auto
  have tT: "t \<notin> ?T" using pt_wf_child(3) [OF wf i] ch(3) by auto
  have e: "pte m' t j = pte m t j" if "j < 512" for j
    by (rule pte_same_but [OF ch(1) that t]) (use al tT in auto)
  then have nx: "nxt cfg m' t j = nxt cfg m t j" if "j < 512" for j using that by (simp add: nxt_def)
  have oth: "pt_pages cfg m n (nxt cfg m t j) \<inter> ?T = {}" if "j < 512" "valid m t j" "j \<noteq> i" for j
    using pt_wf_apart [OF wf that(1,2) i that(3)] child_pages [OF that(1,2), of cfg n] ch(3) by blast
  note fr = pt_frame [OF ch(1) al pt_wf_child(2) [OF wf] oth]
  have pg: "pt_pages cfg m' n (nxt cfg m t j) = pt_pages cfg m n (nxt cfg m t j)" if "j < 512" "valid m t j" "j \<noteq> i" for j
    using fr(1) that by blast
  have k: "t \<notin> pt_pages cfg m' n ?c" using kid(2) tT by auto
  { assume "j < 512" then show "pte m' t j = pte m t j" by (rule e) }
  have apart_i: "pt_pages cfg m' n ?c \<inter> pt_pages cfg m' n (nxt cfg m t j) = {}" if "j < 512" "valid m t j" "j \<noteq> i" for j
    using pg [OF that] oth [OF that] kid(2) by blast
  have w1: "PTE_NEXTPGT (pte m' t j) \<and> pt_wf cfg m' n (nxt cfg m' t j) \<and> t \<notin> pt_pages cfg m' n (nxt cfg m' t j)"
    if "j < 512" "valid m' t j" for j
  proof (cases "j = i")
    case True
    then show ?thesis using kid(1) k pt_wf_child(1) [OF wf i] e [OF i(1)] nx [OF i(1)] by simp
  next
    case False
    have v: "valid m t j" using that e by simp
    show ?thesis using pt_wf_child [OF wf that(1) v] fr(2) [OF that(1) v that(1) v False] pg [OF that(1) v False] e [OF that(1)] nx [OF that(1)] by simp
  qed
  have w2: "pt_pages cfg m' n (nxt cfg m' t j) \<inter> pt_pages cfg m' n (nxt cfg m' t k) = {}"
    if "j < 512" "k < 512" "j \<noteq> k" "valid m' t j" "valid m' t k" for j k
  proof -
    have v: "valid m t j" "valid m t k" using that e by simp_all
    show ?thesis
    proof (cases "j = i \<or> k = i")
      case True
      then show ?thesis using apart_i [OF that(1) v(1)] apart_i [OF that(2) v(2)] that(3) nx that(1,2) i(1) by auto
    next
      case False
      then show ?thesis using pg [OF that(1) v(1)] pg [OF that(2) v(2)] pt_wf_apart [OF wf that(1) v(1) that(2) v(2) that(3)] nx that(1,2) by simp
    qed
  qed
  show "pt_wf cfg m' (Suc n) t" using t w1 w2 by simp
  show "pt_pages cfg m' (Suc n) t = (pt_pages cfg m (Suc n) t - pt_pages cfg m n ?c) \<union> pt_pages cfg m' n ?c" (is "?l = ?r")
  proof (rule set_eqI)
    fix u
    have "u \<in> ?l \<longleftrightarrow> u = t \<or> (\<exists>j < 512. valid m t j \<and> u \<in> pt_pages cfg m' n (nxt cfg m t j))"
      using e nx by auto
    also have "\<dots> \<longleftrightarrow> u = t \<or> u \<in> pt_pages cfg m' n ?c \<or> (\<exists>j < 512. j \<noteq> i \<and> valid m t j \<and> u \<in> pt_pages cfg m n (nxt cfg m t j))"
      using i pg by metis
    also have "\<dots> \<longleftrightarrow> u \<in> ?r"
      using i pt_wf_child(3) [OF wf i] oth by auto
    finally show "u \<in> ?l \<longleftrightarrow> u \<in> ?r" .
  qed
  { assume v: "v < 512 ^ Suc (Suc n)"
    have d: "v div 512 ^ Suc n < 512" using v by (simp add: less_mult_imp_div_less)
    have r: "v mod 512 ^ Suc n < 512 ^ Suc n" by simp
    show "pt_map cfg m' (Suc n) t v = (if v div 512 ^ Suc n = i then pt_map cfg m' n ?c (v mod 512 ^ Suc n) else pt_map cfg m (Suc n) t v)"
      using e [OF d] nx [OF d] nx [OF i(1)] i(2) fr(3) [OF d _ d _ _ r] by (simp add: Let_def del: power_Suc) }
qed

end
