(* ===== verification/Sv39Walk.thy ===== *)
theory Sv39Walk
  imports Sv39Tree
begin

unbundle bit_operations_syntax

text \<open>
  What \<^verbatim>\<open>vm_walkthrough\<close> does to the tables: it extends the mapping page by page until it has mapped all pages, has come
  to the end of the table, has met a mapped page or finds no page for a new table.
\<close>

subsection \<open>Table pages and the allocator\<close>

definition sv_cfg :: "pgfm_cfg \<Rightarrow> bool" where
  "sv_cfg cfg \<longleftrightarrow> 0 < MAX_ORDER cfg \<and> PGFRAME_VA_START cfg \<noteq> 0 \<and> unat (PGFRAME_PA_START cfg) + unat (PGFRAME_SIZE cfg) \<le> 2 ^ 56"

text \<open>The pages that may hold tables: single pages in use, not owned by another subsystem.\<close>

definition table_ids :: "'a mm_scheme \<Rightarrow> nat set" where
  "table_ids s = {p. (p, 0) \<in> mm_used s \<and> is_buddy_page p s}"

definition tables :: "pgfm_cfg \<Rightarrow> 'a mm_scheme \<Rightarrow> u64 set" where
  "tables cfg s = pg2va cfg ` table_ids s"

text \<open>The state after the single pages \<open>P\<close> have been taken from the allocator; memory is another matter.\<close>

definition grown :: "pgfm_cfg \<Rightarrow> nat set \<Rightarrow> 'a mm_scheme \<Rightarrow> 'a mm_scheme \<Rightarrow> bool" where
  "grown cfg P s s' \<longleftrightarrow> mm_inv cfg s' \<and> P \<subseteq> free_pages s \<and> free_pages s' = free_pages s - P \<and>
     mm_used s' = mm_used s \<union> P \<times> {0} \<and> owners (pgframe_pages s') = owners (pgframe_pages s) \<and>
     held s' = held s \<and> mm.more s' = mm.more s \<and> (\<forall>p \<in> P. is_buddy_page p s')"

lemma used_page: "mm_inv cfg s \<Longrightarrow> (p, k) \<in> mm_used s \<Longrightarrow> p < PGFRAME_PAGE_NUMS cfg"
  using headsD(2) [of p k "pgframe_pages s"] buddy_invD(1) [of cfg "{}" s] by (auto simp: mm_inv_def mm_used_def)

lemma used_page_not_free: "mm_inv cfg s \<Longrightarrow> (p, k) \<in> mm_used s \<Longrightarrow> p \<notin> free_pages s"
proof -
  assume s: "mm_inv cfg s" and u: "(p, k) \<in> mm_used s"
  then have "free_set (pgframe_pages s) \<inter> {p..<p + 2 ^ k} = {}"
    using used_not_free [OF buddy_invD(2) [of cfg "{}" s]] by (simp add: mm_inv_def mm_used_def)
  then show ?thesis by (auto simp: free_pages_def disjoint_iff)
qed

lemma free_page: "mm_inv cfg s \<Longrightarrow> p \<in> free_pages s \<Longrightarrow> p < PGFRAME_PAGE_NUMS cfg"
proof -
  assume s: "mm_inv cfg s" and "p \<in> free_pages s"
  then obtain i k where i: "(i, k) \<in> free_heads (pgframe_pages s)" "p < i + 2 ^ k" by (auto simp: free_pages_def free_set_def)
  have inv: "buddy_inv cfg {} s" using s by (simp add: mm_inv_def)
  show ?thesis
    using heads_okD(2) [OF pages_invD(2) [OF buddy_invD(2) [OF inv]] headsD_is_head(1,2) [OF UnI1 [OF i(1)]]]
      headsD_is_head(4) [OF UnI1 [OF i(1)]] i(2) buddy_invD(1) [OF inv] by simp
qed

lemma is_buddy_owners:
  "owners (pgframe_pages s') = owners (pgframe_pages s) \<Longrightarrow> p < length (pgframe_pages s) \<Longrightarrow> is_buddy_page p s' = is_buddy_page p s"
  using owners_nth [of "pgframe_pages s'" "pgframe_pages s" p] owners_length [of "pgframe_pages s'" "pgframe_pages s"]
  by (simp add: is_buddy_page_def)

lemma mm_inv_length: "mm_inv cfg s \<Longrightarrow> length (pgframe_pages s) = PGFRAME_PAGE_NUMS cfg"
  by (simp add: mm_inv_def buddy_inv_def)

lemma mm_inv_mem [simp]: "mm_inv cfg (s\<lparr>mem := m\<rparr>) = mm_inv cfg s" "mm_used (s\<lparr>mem := m\<rparr>) = mm_used s"
  "free_pages (s\<lparr>mem := m\<rparr>) = free_pages s" "is_buddy_page p (s\<lparr>mem := m\<rparr>) = is_buddy_page p s"
  by (simp_all add: mm_inv_def buddy_inv_def mm_unlocked_def mm_used_def free_pages_def is_buddy_page_def)

lemma grown_refl: "mm_inv cfg s \<Longrightarrow> grown cfg {} s s"
  by (simp add: grown_def)

lemma grown_mem: "grown cfg P s s' \<Longrightarrow> grown cfg P s (s'\<lparr>mem := m\<rparr>)"
  by (simp add: grown_def)

lemma grown_trans:
  assumes "mm_inv cfg s" "grown cfg P s s1" "grown cfg Q s1 s2"
  shows "grown cfg (P \<union> Q) s s2"
proof -
  have "is_buddy_page p s2" if "p \<in> P" for p
  proof -
    have "p < length (pgframe_pages s1)" using assms that free_page [OF assms(1), of p] mm_inv_length [of cfg s1] by (auto simp: grown_def)
    then show ?thesis using is_buddy_owners [of s2 s1 p] assms(2,3) that by (simp add: grown_def)
  qed
  then show ?thesis using assms(2,3) unfolding grown_def by auto
qed

lemma grown_table_ids:
  assumes "mm_inv cfg s" "grown cfg P s s'"
  shows "table_ids s' = table_ids s \<union> P" "P \<inter> table_ids s = {}"
proof -
  have e: "is_buddy_page p s' = is_buddy_page p s" if "(p, 0) \<in> mm_used s" for p
    using is_buddy_owners [of s' s p] used_page [OF assms(1) that] mm_inv_length [OF assms(1)] assms(2) by (simp add: grown_def)
  have u: "mm_used s' = mm_used s \<union> P \<times> {0}" and b: "\<forall>p \<in> P. is_buddy_page p s'" using assms(2) by (simp_all add: grown_def)
  show "table_ids s' = table_ids s \<union> P"
  proof (rule set_eqI)
    fix p
    have "p \<in> table_ids s' \<longleftrightarrow> ((p, 0) \<in> mm_used s \<or> p \<in> P) \<and> is_buddy_page p s'" by (simp add: table_ids_def u)
    also have "\<dots> \<longleftrightarrow> p \<in> table_ids s \<union> P" using e [of p] b by (cases "p \<in> P") (auto simp: table_ids_def)
    finally show "p \<in> table_ids s' \<longleftrightarrow> p \<in> table_ids s \<union> P" .
  qed
  show "P \<inter> table_ids s = {}"
  proof -
    have "P \<subseteq> free_pages s" using assms(2) by (simp add: grown_def)
    then show ?thesis using used_page_not_free [OF assms(1)] by (auto simp: table_ids_def)
  qed
qed

lemma pg2va_inj: "wf_cfg cfg \<Longrightarrow> p < PGFRAME_PAGE_NUMS cfg \<Longrightarrow> q < PGFRAME_PAGE_NUMS cfg \<Longrightarrow> pg2va cfg p = pg2va cfg q \<longleftrightarrow> p = q"
proof -
  assume a: "wf_cfg cfg" "p < PGFRAME_PAGE_NUMS cfg" "q < PGFRAME_PAGE_NUMS cfg"
  have "p = q" if e: "pg2va cfg p = pg2va cfg q"
  proof -
    have "unat (PGFRAME_VA_START cfg) + p * 4096 = unat (PGFRAME_VA_START cfg) + q * 4096"
      unfolding unat_pg2va [OF a(1,2), symmetric] unat_pg2va [OF a(1,3), symmetric] by (rule arg_cong [OF e])
    then show ?thesis by linarith
  qed
  then show ?thesis by blast
qed

lemma mm_inv_wf: "mm_inv cfg s \<Longrightarrow> wf_cfg cfg"
  by (simp add: mm_inv_def)

lemma grown_tables:
  assumes "mm_inv cfg s" "grown cfg P s s'"
  shows "tables cfg s' = tables cfg s \<union> pg2va cfg ` P" "pg2va cfg ` P \<inter> tables cfg s = {}"
proof -
  show "tables cfg s' = tables cfg s \<union> pg2va cfg ` P"
    using grown_table_ids(1) [OF assms] by (simp add: tables_def image_Un)
  have "pg2va cfg p \<noteq> pg2va cfg q" if "p \<in> P" "q \<in> table_ids s" for p q
  proof -
    have "p < PGFRAME_PAGE_NUMS cfg" using free_page [OF assms(1)] assms(2) that(1) by (auto simp: grown_def)
    moreover have "q < PGFRAME_PAGE_NUMS cfg" using used_page [OF assms(1)] that(2) by (auto simp: table_ids_def)
    moreover have "p \<noteq> q" using grown_table_ids(2) [OF assms] that by blast
    ultimately show ?thesis using pg2va_inj [OF mm_inv_wf [OF assms(1)]] by blast
  qed
  then show "pg2va cfg ` P \<inter> tables cfg s = {}" by (auto simp: tables_def)
qed

text \<open>The addresses of a page.\<close>

lemma page_addr:
  assumes "wf_cfg cfg" "sv_cfg cfg" "p < PGFRAME_PAGE_NUMS cfg"
  shows "pg2va cfg p \<noteq> 0" "aligned (pg2va cfg p)" "aligned (va2pa cfg (pg2va cfg p))" "unat (va2pa cfg (pg2va cfg p)) < 2 ^ 56"
    "pa2va cfg (va2pa cfg x) = x"
proof -
  have va: "unat (pg2va cfg p) = unat (PGFRAME_VA_START cfg) + p * 4096" using assms(1,3) by (rule unat_pg2va)
  show "pg2va cfg p \<noteq> 0" using assms(2) va by (auto simp: sv_cfg_def unat_eq_0 [symmetric])
  have m: "unat (PGFRAME_VA_START cfg) mod 4096 = 0" "unat (PGFRAME_PA_START cfg) mod 4096 = 0"
    using assms(1) by (simp_all add: wf_cfg_def page_aligned_iff)
  show "aligned (pg2va cfg p)" unfolding page_aligned_iff va using m(1) by presburger
  show "pa2va cfg (va2pa cfg x) = x" by (simp add: pa2va_def va2pa_def)
  have "va2pa cfg (pg2va cfg p) = pg2pa cfg p"
    by (simp add: va2pa_def PGFRAME_VA2PA_OFFSET_def pg2va_def pg2pa_def id2va_def id2pa_def)
  then have pa: "unat (va2pa cfg (pg2va cfg p)) = unat (PGFRAME_PA_START cfg) + p * 4096" using unat_pg2pa [OF assms(1,3)] by simp
  show "aligned (va2pa cfg (pg2va cfg p))" unfolding page_aligned_iff pa using m(2) by presburger
  show "unat (va2pa cfg (pg2va cfg p)) < 2 ^ 56"
    using pa assms(2,3) PAGE_NUMS_size [OF assms(1)] by (simp add: sv_cfg_def)
qed

lemma bk_alloc_zero_page:
  assumes "mm_inv cfg s" "sv_cfg cfg"
  shows "bk_alloc_zero cfg 0 s = Some (0, s) \<and> free_pages s = {} \<or>
    (\<exists>p t. bk_alloc_zero cfg 0 s = Some (pg2va cfg p, t) \<and> p < PGFRAME_PAGE_NUMS cfg \<and> grown cfg {p} s t \<and>
       same_but {pg2va cfg p} (mem s) (mem t) \<and> (\<forall>a. in_page (pg2va cfg p) a \<longrightarrow> mem t a = 0))"
proof -
  note wf = mm_inv_wf [OF assms(1)]
  have "0 < int (MAX_ORDER cfg)" using assms(2) by (simp add: sv_cfg_def)
  then consider "bkp_alloc cfg 0 s = Some (None, s)" "free_heads (pgframe_pages s) = {}" | p t where "bkp_alloc cfg 0 s = Some (Some p, t)" "alloc_post cfg 0 p s t"
    using bkp_alloc_post [OF assms(1), of 0] by (auto simp only: int_nat_eq nat_zero_as_int [symmetric]) force+
  then show ?thesis
  proof cases
    case 1
    then show ?thesis by (simp add: bk_alloc_zero_def bk_alloc_def free_pages_def free_set_def)
  next
    case 2
    have p: "p < PGFRAME_PAGE_NUMS cfg" using 2(2) free_page [OF assms(1), of p] by (simp add: alloc_post_def)
    note pa = page_addr [OF wf assms(2) p]
    have mt: "mem t = mem s" using 2(2) mm_frameD(2) by (auto simp: alloc_post_def)
    have g: "grown cfg {p} s t"
      using 2(2) alloc_post_inv [OF assms(1) 2(2)] by (auto simp: alloc_post_def grown_def mm_frame_def mm_used_def is_buddy_page_def)
    let ?m = "memset (pg2va cfg p) 0 (push_bit 0 1 * PAGE_SIZE) (mem s)"
    have "?m a = (if in_page (pg2va cfg p) a then 0 else mem s a)" for a
      unfolding memset_apply [OF pa(1)] in_page_def by simp
    moreover have "bk_alloc_zero cfg 0 s = Some (pg2va cfg p, t\<lparr>mem := ?m\<rparr>)"
      using 2(1) pa(1) mt by (simp add: bk_alloc_zero_def bk_alloc_def)
    ultimately show ?thesis using p grown_mem [OF g, of ?m] by (auto simp: same_but_def)
  qed
qed

end
