(* ===== verification/KernelMapProps.thy ===== *)
theory KernelMapProps
  imports EarlyVm Sv39Walk
begin

unbundle bit_operations_syntax

text \<open>
  What a checked kernel map means for the memory management, and an error that the first page table does not report.
\<close>

definition km_demo :: kernel_mapping where
  "km_demo = \<lparr>pa_st_memory = 0x80000000, size_memory = 0x8000000, pa_st_kernel = 0x80200000, size_kernel = 0x100000,
     pa_st_free = 0x80300000, size_free = 0x1000, va2pa_offset = 0x2f7fe00000\<rparr>"

subsection \<open>The checks of kernel_map.c\<close>




subsection \<open>The first page table\<close>

lemma Index2Id_less: "index \<le> 2 \<Longrightarrow> SV39_Index2Id va index < 512"
  by (simp add: Index2Id_vpn)

text \<open>
  When free memory runs out below a table that the early walk has just made, the error of the recursive call is dropped: the walk reports
  success although the entry of the address in the new table is still invalid, so the page is not mapped.
\<close>

theorem early_walk_loses_error:
  assumes "pt \<noteq> 0" "aligned pt" "aligned va" "aligned pa" "\<not> PTE_VALID (early_pte pt (SV39_Index2Id va 0) s)"
    and "PAGE_SIZE \<le> size_free (kmap s)" "size_free (kmap s) - PAGE_SIZE < PAGE_SIZE"
    and "pa_st_free (kmap s) \<noteq> 0" "aligned (pa_st_free (kmap s))" "pa_st_free (kmap s) \<noteq> pt"
      "\<not> PTE_VALID (early_pte (pa_st_free (kmap s)) (SV39_Index2Id va 1) s)"
  shows "\<exists>s'. early_walkthrough pt va 0 pa flags s = (0, s') \<and>
    \<not> PTE_VALID (early_pte (pa_st_free (kmap s)) (SV39_Index2Id va 1) s')"
proof -
  let ?i = "SV39_Index2Id va 0" and ?j = "SV39_Index2Id va 1" and ?p = "pa_st_free (kmap s)"
  let ?km = "(kmap s)\<lparr>pa_st_free := ?p + PAGE_SIZE, size_free := size_free (kmap s) - PAGE_SIZE\<rparr>"
  let ?s = "early_set_pte pt ?i (SV39_Pa2PTE ?p VM_PROT_V) (s\<lparr>kmap := ?km\<rparr>)"
  have ij: "?i < 512" "?j < 512" using Index2Id_less by simp_all
  have a1: "early_alloc s = (?p, s\<lparr>kmap := ?km\<rparr>)" using leD [OF assms(6)] by (simp add: early_alloc_def freemem_alloc_pa_def)
  have a2: "early_alloc ?s = (0, ?s)" using assms(7) by (simp add: early_alloc_def freemem_alloc_pa_def early_set_pte_def)
  have "same_but {pt} (pmem s) (pmem ?s)" using store_pte_same_but [OF ij(1)] by (simp add: early_set_pte_def)
  then have e: "early_pte ?p ?j ?s = early_pte ?p ?j s"
    unfolding early_pte_def by (rule load_same_but [OF _ ij(2) assms(9)]) (use assms(2,10) in simp)
  have "early_walkthrough ?p va 1 pa flags ?s = (- ENOMEM, ?s)"
    using assms(3,4,8,9,11) ij(2) a2 e by (subst early_walkthrough.simps) (simp add: Let_def)
  then have "early_walkthrough pt va 0 pa flags s = (0, ?s)"
    using assms(1-5,8) ij(1) a1 by (subst early_walkthrough.simps) (simp add: Let_def)
  then show ?thesis using e assms(11) by auto
qed

definition early_demo :: early where
  "early_demo = \<lparr>kmap = km_demo, pmem = (\<lambda>_. 0)\<rparr>"

theorem early_walk_loses_error_witness:
  "\<exists>s'. early_walkthrough 0x80400000 KERNEL_OFFSET 0 0x80200000 11 early_demo = (0, s') \<and>
     \<not> PTE_VALID (early_pte 0x80300000 (SV39_Index2Id KERNEL_OFFSET 1) s')"
proof -
  have z: "\<not> PTE_VALID (early_pte t i early_demo)" for t i
    using load64_zero [of "\<lambda>_. 0" "pte_addr t i"] by (simp add: early_pte_def early_demo_def)
  have k: "pa_st_free (kmap early_demo) = 0x80300000" "size_free (kmap early_demo) = 0x1000" by (simp_all add: early_demo_def km_demo_def)
  show ?thesis
    using early_walk_loses_error [of "0x80400000" KERNEL_OFFSET "0x80200000" early_demo 11] z
    by (simp add: k page_aligned_iff KERNEL_OFFSET_def)
qed

end
