(* ===== verification/VmaArea.thy ===== *)
theory VmaArea
  imports KmemCache AvlContract Sv39 ListHead
begin

unbundle bit_operations_syntax

text \<open>
  The data of the virtual memory manager (\<^verbatim>\<open>include/mm/vm.h\<close>) and the operations that hang a memory area on an
  address space and take it off (\<^verbatim>\<open>module/mm/vm/vma_area_ops.c\<close>). An area is an object of a slab cache
  with a list node at offset 48 and a tree node at offset 64, an address space one with its list head at
  offset 40. The nodes live in the heaps of theories \<open>ListHead\<close> and \<open>Avl\<close>, the plain fields in
  \<open>areas\<close> and \<open>vmas\<close>. An object that was never used reads as zeros, since slabs lie on cleared pages.

  The reader-writer lock of an address space is kept as the calling hart sees it: \<open>-1\<close> when it holds the lock as
  writer, otherwise the number of times it holds it as reader. Locking what the hart itself has locked in
  the way of the request never returns.
\<close>

subsection \<open>State\<close>

datatype vmar_type = VMA_KERNEL | VMA_IO | VMA_MEMORY | VMA_NOREACH

record vma_area =
  vmar_typ :: vmar_type
  va :: viraddr
  asize :: u64
  pa :: phyaddr
  pgfm :: "nat option"
  prot :: u16

record vma =
  hw_pgtable :: u64
  kernel_vma :: u64
  a_root :: u64

record vm = kmem +
  lheap :: lheap
  aheap :: aheap
  areas :: "u64 \<rightharpoonup> vma_area"
  vmas :: "u64 \<rightharpoonup> vma"
  rwl :: "u64 \<Rightarrow> int"
  kern_vma :: u64
  vma_cache :: u64
  vma_area_cache :: u64
  init_vma_num :: int
  init_vma_area_num :: int
  vm_module_init_done :: u32

text \<open>\<^verbatim>\<open>&area->l_node\<close>, \<^verbatim>\<open>&area->a_node\<close>, \<^verbatim>\<open>&vma->l_list\<close> and the \<^verbatim>\<open>container_of\<close> of the first two.\<close>

definition l_node :: "u64 \<Rightarrow> u64" where "l_node x = x + 48"
definition a_node :: "u64 \<Rightarrow> u64" where "a_node x = x + 64"
definition l_list :: "u64 \<Rightarrow> u64" where "l_list v = v + 40"
definition l_area :: "u64 \<Rightarrow> u64" where "l_area n = n - 48"
definition a_area :: "u64 \<Rightarrow> u64" where "a_area n = n - 64"

definition on_list :: "(lheap \<Rightarrow> lheap option) \<Rightarrow> 'a vm_scheme \<Rightarrow> 'a vm_scheme option" where
  "on_list f s = do { h \<leftarrow> f (lheap s); Some (s\<lparr>lheap := h\<rparr>) }"

text \<open>The tree of the address space \<open>v\<close>, and the state with another one.\<close>

definition tree_of :: "u64 \<Rightarrow> 'a vm_scheme \<Rightarrow> avl option" where
  "tree_of v s = do { x \<leftarrow> vmas s v; Some \<lparr>anodes = aheap s, aroot = a_root x\<rparr> }"

definition set_tree :: "u64 \<Rightarrow> avl \<Rightarrow> 'a vm_scheme \<Rightarrow> 'a vm_scheme option" where
  "set_tree v t s = do { x \<leftarrow> vmas s v; Some (s\<lparr>aheap := anodes t, vmas := (vmas s)(v \<mapsto> x\<lparr>a_root := aroot t\<rparr>)\<rparr>) }"

definition w_lock_br :: "u64 \<Rightarrow> 'a vm_scheme \<Rightarrow> 'a vm_scheme option" where
  "w_lock_br v s = (if rwl s v = 0 then Some (s\<lparr>rwl := (rwl s)(v := - 1)\<rparr>) else None)"

definition w_unlock_br :: "u64 \<Rightarrow> 'a vm_scheme \<Rightarrow> 'a vm_scheme" where
  "w_unlock_br v s = s\<lparr>rwl := (rwl s)(v := rwl s v + 1)\<rparr>"

definition r_lock :: "u64 \<Rightarrow> 'a vm_scheme \<Rightarrow> 'a vm_scheme option" where
  "r_lock v s = (if rwl s v \<ge> 0 then Some (s\<lparr>rwl := (rwl s)(v := rwl s v + 1)\<rparr>) else None)"

definition r_unlock :: "u64 \<Rightarrow> 'a vm_scheme \<Rightarrow> 'a vm_scheme" where
  "r_unlock v s = s\<lparr>rwl := (rwl s)(v := rwl s v - 1)\<rparr>"

subsection \<open>vma_area_ops.c\<close>

text \<open>A tree node as the object's memory has it; \<^verbatim>\<open>avl_node_init\<close> writes its parent only.\<close>

definition old_anode :: "u64 \<Rightarrow> 'a vm_scheme \<Rightarrow> avl_node" where
  "old_anode n s = (case aheap s n of Some x \<Rightarrow> x | None \<Rightarrow> \<lparr>left = 0, right = 0, parent = 0, height = 0\<rparr>)"

definition vma_area_val_init ::
  "u64 \<Rightarrow> vmar_type \<Rightarrow> viraddr \<Rightarrow> phyaddr \<Rightarrow> u64 \<Rightarrow> nat option \<Rightarrow> u16 \<Rightarrow> 'a vm_scheme \<Rightarrow> 'a vm_scheme" where
  "vma_area_val_init x tp v p sz pg pr s =
     s\<lparr>aheap := (aheap s)(a_node x \<mapsto> (old_anode (a_node x) s)\<lparr>parent := a_node x\<rparr>),
       lheap := (lheap s)(l_node x \<mapsto> \<lparr>prev = 0, next = 0\<rparr>),
       areas := (areas s)(x \<mapsto> \<lparr>vmar_typ = tp, va = v, asize = sz, pa = p, pgfm = pg, prot = pr\<rparr>)\<rparr>"

definition vma_area_val_deinit :: "u64 \<Rightarrow> 'a vm_scheme \<Rightarrow> 'a vm_scheme" where
  "vma_area_val_deinit x s =
     s\<lparr>aheap := (aheap s)(a_node x \<mapsto> \<lparr>left = 0, right = 0, parent = 0, height = 0\<rparr>),
       lheap := (lheap s)(l_node x \<mapsto> \<lparr>prev = 0, next = 0\<rparr>),
       areas := (areas s)(x \<mapsto> \<lparr>vmar_typ = VMA_KERNEL, va = 0, asize = 0, pa = 0, pgfm = None, prot = 0\<rparr>)\<rparr>"

definition insert_compare_vmarea :: "(u64 \<rightharpoonup> vma_area) \<Rightarrow> u64 \<Rightarrow> u64 \<Rightarrow> int option" where
  "insert_compare_vmarea ar want have' = do {
     want_node \<leftarrow> ar (a_area want);
     have_node \<leftarrow> ar (a_area have');
     let ret = 0;
     let ret = (if va want_node + asize want_node \<le> va have_node then - 1 else ret);
     let ret = (if va want_node \<ge> va have_node + asize have_node then 1 else ret);
     Some ret }"

definition vma_area_hang :: "u64 \<Rightarrow> u64 \<Rightarrow> 'a vm_scheme \<Rightarrow> (int \<times> 'a vm_scheme) option" where
  "vma_area_hang v x s = do {
     t \<leftarrow> tree_of v s;
     (duplicated, t) \<leftarrow> avl_node_add (a_node x) (insert_compare_vmarea (areas s) (a_node x)) t;
     s \<leftarrow> set_tree v t s;
     if duplicated \<noteq> 0 then Some (- EEXIST, s)
     else do {
       t \<leftarrow> tree_of v s;
       duplicated \<leftarrow> avl_node_prev (a_node x) t;
       s \<leftarrow> (if duplicated = 0 then on_list (list_add (l_node x) (l_list v)) s
         else on_list (node_add_aft (l_node (a_area duplicated)) (l_node x)) s);
       Some (0, s) } }"

definition vma_area_unhang :: "u64 \<Rightarrow> u64 \<Rightarrow> 'a vm_scheme \<Rightarrow> 'a vm_scheme option" where
  "vma_area_unhang v x s = do {
     s \<leftarrow> on_list (list_del (l_node x)) s;
     t \<leftarrow> tree_of v s;
     t \<leftarrow> avl_node_erase (a_node x) t;
     set_tree v t s }"

end
