(* ===== verification/Vm.thy ===== *)
theory Vm
  imports VmaArea
begin

unbundle bit_operations_syntax

text \<open>
  The virtual memory manager: \<^verbatim>\<open>module/mm/vm/vm.c\<close> and its start-up \<^verbatim>\<open>vm_init.c\<close>. Every function runs on the
  whole state: page frames and buddy pools, slab caches, page tables in memory, the nodes of lists and trees. As in
  theory \<open>KmemCache\<close>, \<open>sp\<close> is the stack address that a new slab is coloured with. Log output is
  left out; the output of \<^verbatim>\<open>vm_dump_information\<close> is a list of calls of its callback.
\<close>

definition PROT_V :: u16 where "PROT_V = push_bit 0 1"
definition PROT_R :: u16 where "PROT_R = push_bit 1 1"
definition PROT_W :: u16 where "PROT_W = push_bit 2 1"
definition PROT_X :: u16 where "PROT_X = push_bit 3 1"
definition PROT_U :: u16 where "PROT_U = push_bit 4 1"

definition hw_mmap :: "pgfm_cfg \<Rightarrow> u64 \<Rightarrow> viraddr \<Rightarrow> phyaddr \<Rightarrow> u16 \<Rightarrow> u64 \<Rightarrow> 'a vm_scheme \<Rightarrow> (int \<times> 'a vm_scheme) option" where
  "hw_mmap cfg pgtable v p pr sz s = arch_hw_mmap cfg pgtable v p pr sz s"

definition hw_unmap :: "pgfm_cfg \<Rightarrow> u64 \<Rightarrow> viraddr \<Rightarrow> u64 \<Rightarrow> 'a vm_scheme \<Rightarrow> 'a vm_scheme option" where
  "hw_unmap cfg pgtable v sz s = arch_hw_unmap cfg pgtable v sz s"

definition hw_unmap_all :: "pgfm_cfg \<Rightarrow> u64 \<Rightarrow> 'a vm_scheme \<Rightarrow> 'a vm_scheme option" where
  "hw_unmap_all cfg pgtable s = arch_hw_unmap_all cfg pgtable s"

definition order_bytes :: "nat \<Rightarrow> u64" where
  "order_bytes order = word_of_int (2 ^ order) * PAGE_SIZE"

subsection \<open>Mapping\<close>

definition mmap_kernel_io_hw_cb :: "pgfm_cfg \<Rightarrow> u64 \<Rightarrow> u64 \<Rightarrow> 'a vm_scheme \<Rightarrow> (int \<times> 'a vm_scheme) option" where
  "mmap_kernel_io_hw_cb cfg v x s = do {
     vm \<leftarrow> vmas s v;
     ar \<leftarrow> areas s x;
     (ret, s) \<leftarrow> hw_mmap cfg (hw_pgtable vm) (va ar) (pa ar) (prot ar) (asize ar) s;
     ASSERT (ret \<noteq> - EEXIST);
     Some (ret, s) }"

definition mmap_memory_cb :: "pgfm_cfg \<Rightarrow> u64 \<Rightarrow> u64 \<Rightarrow> 'a vm_scheme \<Rightarrow> (int \<times> 'a vm_scheme) option" where
  "mmap_memory_cb cfg v x s = do {
     vm \<leftarrow> vmas s v;
     ar \<leftarrow> areas s x;
     ASSERT (pgfm ar = None);
     if pa ar = - 1 then Some (0, s)
     else do {
       ASSERT (pa_valid cfg (pa ar));
       (ret, s) \<leftarrow> hw_mmap cfg (hw_pgtable vm) (va ar) (pa ar) (prot ar) (asize ar) s;
       ASSERT (ret \<noteq> - EEXIST);
       if ret \<noteq> 0 then Some (ret, s)
       else do {
         p \<leftarrow> pa2pg cfg (pa ar);
         s \<leftarrow> lock (PageLk p) s;
         pg \<leftarrow> pg_get p s;
         ASSERT (pgtype pg = VMA_AREA \<and> buddy_flags pg = PG_BUDDY_FLAG_HEAD \<and> order_bytes (buddy_order pg) = asize ar);
         s \<leftarrow> pg_upd p (\<lambda>pg. pg\<lparr>ref_count := ref_count pg + 1\<rparr>) s;
         let s = unlock (PageLk p) s;
         Some (0, s\<lparr>areas := (areas s)(x \<mapsto> ar\<lparr>pgfm := Some p\<rparr>)\<rparr>) } } }"

definition hw_map_callbacks :: "vmar_type \<Rightarrow> (pgfm_cfg \<Rightarrow> u64 \<Rightarrow> u64 \<Rightarrow> 'a vm_scheme \<Rightarrow> (int \<times> 'a vm_scheme) option) option" where
  "hw_map_callbacks tp = (case tp of VMA_KERNEL \<Rightarrow> Some mmap_kernel_io_hw_cb | VMA_IO \<Rightarrow> Some mmap_kernel_io_hw_cb
     | VMA_MEMORY \<Rightarrow> Some mmap_memory_cb | VMA_NOREACH \<Rightarrow> None)"

definition vm_mmap_area ::
  "pgfm_cfg \<Rightarrow> u64 \<Rightarrow> u64 \<Rightarrow> viraddr \<Rightarrow> phyaddr \<Rightarrow> u16 \<Rightarrow> u64 \<Rightarrow> vmar_type \<Rightarrow> bool \<Rightarrow> 'a vm_scheme \<Rightarrow> (int \<times> 'a vm_scheme) option" where
  "vm_mmap_area cfg sp v vaddr paddr pr sz tp need_hwmap s = do {
     ASSERT (v \<noteq> 0 \<and> sz > 0 \<and> VAL_IS_PAGE_ALIGNED vaddr \<and> VAL_IS_PAGE_ALIGNED paddr \<and> VAL_IS_PAGE_ALIGNED sz);
     ASSERT (tp \<noteq> VMA_NOREACH);
     (x, s) \<leftarrow> kmem_obj_alloc cfg sp (vma_area_cache s) s;
     if x = 0 then Some (- ENOBUFS, s)
     else do {
       let s = vma_area_val_init x tp vaddr paddr sz None pr s;
       s \<leftarrow> w_lock_br v s;
       (ret, s) \<leftarrow> vma_area_hang v x s;
       if ret \<noteq> 0 then do {
         s \<leftarrow> kmem_obj_free cfg (vma_area_cache s) x s;
         Some (ret, w_unlock_br v s) }
       else if need_hwmap then do {
         cb \<leftarrow> hw_map_callbacks tp;
         (ret, s) \<leftarrow> cb cfg v x s;
         if ret \<noteq> 0 then do {
           s \<leftarrow> vma_area_unhang v x s;
           s \<leftarrow> kmem_obj_free cfg (vma_area_cache s) x s;
           Some (ret, w_unlock_br v s) }
         else Some (0, w_unlock_br v s) }
       else Some (0, w_unlock_br v s) } }"

subsection \<open>Unmapping\<close>

text \<open>The key \<^verbatim>\<open>struct find_helper\<close> is a pair of address and size.\<close>

definition find_compare :: "(u64 \<rightharpoonup> vma_area) \<Rightarrow> viraddr \<times> u64 \<Rightarrow> u64 \<Rightarrow> int option" where
  "find_compare ars key have' = do {
     have_node \<leftarrow> ars (a_area have');
     if fst key = va have_node \<and> snd key = asize have_node then Some 0
     else if fst key \<ge> va have_node + asize have_node then Some 1
     else if fst key + snd key \<le> va have_node then Some (- 1)
     else Some (- 1) }"

definition hw_unmap_kernel_io :: "pgfm_cfg \<Rightarrow> u64 \<Rightarrow> u64 \<Rightarrow> 'a vm_scheme \<Rightarrow> 'a vm_scheme option" where
  "hw_unmap_kernel_io cfg v x s = do {
     vm \<leftarrow> vmas s v;
     ar \<leftarrow> areas s x;
     hw_unmap cfg (hw_pgtable vm) (va ar) (asize ar) s }"

definition unmmap_memory_cb :: "pgfm_cfg \<Rightarrow> u64 \<Rightarrow> u64 \<Rightarrow> 'a vm_scheme \<Rightarrow> 'a vm_scheme option" where
  "unmmap_memory_cb cfg v x s = do {
     vm \<leftarrow> vmas s v;
     ar \<leftarrow> areas s x;
     if pa ar = - 1 then do { ASSERT (pgfm ar = None); Some s }
     else do {
       p \<leftarrow> pgfm ar;
       s \<leftarrow> lock (PageLk p) s;
       pg \<leftarrow> pg_get p s;
       ASSERT (pgtype pg = VMA_AREA \<and> buddy_flags pg = PG_BUDDY_FLAG_HEAD \<and> order_bytes (buddy_order pg) = asize ar);
       s \<leftarrow> pg_upd p (\<lambda>pg. pg\<lparr>ref_count := ref_count pg - 1\<rparr>) s;
       pg \<leftarrow> pg_get p s;
       s \<leftarrow> (if ref_count pg = 0 then do {
           s \<leftarrow> pg_upd p (\<lambda>pg. pg\<lparr>pgtype := PAGE_BUDDYALLOCATOR\<rparr>) s;
           bkp_free cfg (Some p) (unlock (PageLk p) s) }
         else Some (unlock (PageLk p) s));
       let s = s\<lparr>areas := (areas s)(x \<mapsto> ar\<lparr>pgfm := None\<rparr>)\<rparr>;
       hw_unmap cfg (hw_pgtable vm) (va ar) (asize ar) s } }"

definition hw_unmap_callbacks :: "vmar_type \<Rightarrow> (pgfm_cfg \<Rightarrow> u64 \<Rightarrow> u64 \<Rightarrow> 'a vm_scheme \<Rightarrow> 'a vm_scheme option) option" where
  "hw_unmap_callbacks tp = (case tp of VMA_KERNEL \<Rightarrow> Some hw_unmap_kernel_io | VMA_IO \<Rightarrow> Some hw_unmap_kernel_io
     | VMA_MEMORY \<Rightarrow> Some unmmap_memory_cb | VMA_NOREACH \<Rightarrow> None)"

definition vm_unmap_area ::
  "pgfm_cfg \<Rightarrow> u64 \<Rightarrow> viraddr \<Rightarrow> u64 \<Rightarrow> vmar_type \<Rightarrow> bool \<Rightarrow> 'a vm_scheme \<Rightarrow> (int \<times> 'a vm_scheme) option" where
  "vm_unmap_area cfg v vaddr sz tp need_hwunmap s = do {
     ASSERT (v \<noteq> 0 \<and> sz > 0 \<and> VAL_IS_PAGE_ALIGNED vaddr \<and> VAL_IS_PAGE_ALIGNED sz);
     s \<leftarrow> w_lock_br v s;
     t \<leftarrow> tree_of v s;
     res \<leftarrow> avl_node_find (find_compare (areas s) (vaddr, sz)) t;
     if res = 0 then Some (- ENOBUFS, w_unlock_br v s)
     else do {
       let x = a_area res;
       ar \<leftarrow> areas s x;
       ASSERT (va ar = vaddr \<and> asize ar = sz);
       if vmar_typ ar \<noteq> tp then Some (- EPERM, w_unlock_br v s)
       else do {
         s \<leftarrow> vma_area_unhang v x s;
         s \<leftarrow> (if need_hwunmap then do { cb \<leftarrow> hw_unmap_callbacks tp; cb cfg v x s } else Some s);
         s \<leftarrow> kmem_obj_free cfg (vma_area_cache s) x s;
         Some (0, w_unlock_br v s) } } }"

subsection \<open>Address spaces\<close>

text \<open>\<^verbatim>\<open>list_for_each_safe\<close> of \<^verbatim>\<open>vma_free\<close>.\<close>

partial_function (option) vma_free_loop :: "pgfm_cfg \<Rightarrow> u64 \<Rightarrow> u64 \<Rightarrow> u64 \<Rightarrow> 'a vm_scheme \<Rightarrow> 'a vm_scheme option" where
  "vma_free_loop cfg v iterator safe s =
     (if iterator = l_list v then Some s
      else do {
        let x = l_area iterator;
        s \<leftarrow> vma_area_unhang v x s;
        ar \<leftarrow> areas s x;
        cb \<leftarrow> hw_unmap_callbacks (vmar_typ ar);
        s \<leftarrow> cb cfg v x s;
        s \<leftarrow> kmem_obj_free cfg (vma_area_cache s) x s;
        nx \<leftarrow> get_next safe (lheap s);
        vma_free_loop cfg v safe nx s })"

text \<open>The final \<^verbatim>\<open>memset\<close> clears the structure, the lock words included; a cleared reader-writer lock is not free, but \<^verbatim>\<open>vma_dup\<close> initialises it.\<close>

definition vma_free :: "pgfm_cfg \<Rightarrow> u64 \<Rightarrow> 'a vm_scheme \<Rightarrow> 'a vm_scheme option" where
  "vma_free cfg v s =
     (if v = 0 \<or> v = kern_vma s then Some s
      else do {
        vm \<leftarrow> vmas s v;
        if kernel_vma vm \<noteq> kern_vma s then Some s
        else do {
          s \<leftarrow> w_lock_br v s;
          iterator \<leftarrow> get_next (l_list v) (lheap s);
          safe \<leftarrow> get_next iterator (lheap s);
          s \<leftarrow> vma_free_loop cfg v iterator safe s;
          s \<leftarrow> hw_unmap_all cfg (hw_pgtable vm) s;
          let s = w_unlock_br v s;
          let s = s\<lparr>vmas := (vmas s)(v \<mapsto> \<lparr>hw_pgtable = 0, kernel_vma = 0, a_root = 0\<rparr>),
                    lheap := (lheap s)(l_list v \<mapsto> \<lparr>prev = 0, next = 0\<rparr>), rwl := (rwl s)(v := - 1)\<rparr>;
          kmem_obj_free cfg (vma_cache s) v s } })"

text \<open>One area of \<^verbatim>\<open>vma_dup\<close>: \<open>False\<close> is the jump to \<^verbatim>\<open>free_map_area\<close>.\<close>

definition vma_dup_area :: "pgfm_cfg \<Rightarrow> u64 \<Rightarrow> u64 \<Rightarrow> u64 \<Rightarrow> 'a vm_scheme \<Rightarrow> (bool \<times> 'a vm_scheme) option" where
  "vma_dup_area cfg sp ret x s = do {
     ar \<leftarrow> areas s x;
     if vmar_typ ar = VMA_IO \<or> vmar_typ ar = VMA_KERNEL then do {
       ASSERT (VAL_IS_PAGE_ALIGNED (va ar) \<and> VAL_IS_PAGE_ALIGNED (pa ar) \<and> VAL_IS_PAGE_ALIGNED (asize ar) \<and>
               asize ar > 0 \<and> pgfm ar = None);
       (r, s) \<leftarrow> vm_mmap_area cfg sp ret (va ar) (pa ar) (prot ar) (asize ar) (vmar_typ ar) True s;
       Some (r = 0, s) }
     else do {
       ASSERT (vmar_typ ar = VMA_MEMORY);
       ASSERT (VAL_IS_PAGE_ALIGNED (va ar) \<and> VAL_IS_PAGE_ALIGNED (asize ar) \<and> asize ar > 0);
       if pa ar = - 1 then do {
         ASSERT (pgfm ar = None);
         (r, s) \<leftarrow> vm_mmap_area cfg sp ret (va ar) (pa ar) (prot ar) (asize ar) (vmar_typ ar) True s;
         Some (r = 0, s) }
       else do {
         ASSERT (pgfm ar \<noteq> None \<and> pa ar \<noteq> - 1);
         if prot ar AND PROT_W \<noteq> 0 then do {
           let want_order = PGNUM2ORDER cfg (npages_of (asize ar));
           ASSERT (want_order \<ge> 0);
           (pg, s) \<leftarrow> bkp_alloc_zero cfg want_order s;
           (case pg of
              None \<Rightarrow> Some (False, s)
            | Some p \<Rightarrow> do {
                s \<leftarrow> lock (PageLk p) s;
                pg \<leftarrow> pg_get p s;
                ASSERT (int (buddy_order pg) = want_order \<and> buddy_flags pg = PG_BUDDY_FLAG_HEAD \<and> pgtype pg = PAGE_BUDDYALLOCATOR);
                s \<leftarrow> pg_upd p (\<lambda>pg. pg\<lparr>pgtype := VMA_AREA, ref_count := 0, vma_flags := 0\<rparr>) s;
                let s = unlock (PageLk p) s;
                (r, s) \<leftarrow> vm_mmap_area cfg sp ret (va ar) (pg2pa cfg p) (prot ar) (asize ar) (vmar_typ ar) True s;
                if r \<noteq> 0 then do {
                  s \<leftarrow> lock (PageLk p) s;
                  s \<leftarrow> pg_upd p (\<lambda>pg. pg\<lparr>pgtype := PAGE_BUDDYALLOCATOR\<rparr>) s;
                  s \<leftarrow> bkp_free cfg (Some p) (unlock (PageLk p) s);
                  Some (False, s) }
                else Some (True, s) }) }
         else do {
           (r, s) \<leftarrow> vm_mmap_area cfg sp ret (va ar) (pa ar) (prot ar) (asize ar) (vmar_typ ar) True s;
           Some (r = 0, s) } } } }"

partial_function (option) vma_dup_loop :: "pgfm_cfg \<Rightarrow> u64 \<Rightarrow> u64 \<Rightarrow> u64 \<Rightarrow> u64 \<Rightarrow> 'a vm_scheme \<Rightarrow> (bool \<times> 'a vm_scheme) option" where
  "vma_dup_loop cfg sp ret copied iterator s =
     (if iterator = l_list copied then Some (True, s)
      else do {
        (ok, s) \<leftarrow> vma_dup_area cfg sp ret (l_area iterator) s;
        if \<not> ok then Some (False, s)
        else do {
          nx \<leftarrow> get_next iterator (lheap s);
          vma_dup_loop cfg sp ret copied nx s } })"

definition old_vma :: "u64 \<Rightarrow> 'a vm_scheme \<Rightarrow> vma" where
  "old_vma v s = (case vmas s v of Some x \<Rightarrow> x | None \<Rightarrow> \<lparr>hw_pgtable = 0, kernel_vma = 0, a_root = 0\<rparr>)"

definition vma_dup :: "pgfm_cfg \<Rightarrow> u64 \<Rightarrow> u64 \<Rightarrow> 'a vm_scheme \<Rightarrow> (u64 \<times> 'a vm_scheme) option" where
  "vma_dup cfg sp copied s = do {
     bad \<leftarrow> (if copied = 0 then Some True
       else do { vm \<leftarrow> vmas s copied; Some (kernel_vma vm \<noteq> kern_vma s \<or> hw_pgtable vm = 0) });
     if bad then Some (0, s)
     else do {
       (ret, s) \<leftarrow> kmem_obj_alloc cfg sp (vma_cache s) s;
       if ret = 0 then Some (0, s)
       else do {
         ASSERT (hw_pgtable (old_vma ret s) = 0 \<and> kernel_vma (old_vma ret s) = 0);
         (pt, s) \<leftarrow> bk_alloc_zero cfg 0 s;
         if pt = 0 then do {
           s \<leftarrow> kmem_obj_free cfg (vma_cache s) ret s;
           Some (0, s) }
         else do {
           let s = s\<lparr>vmas := (vmas s)(ret \<mapsto> \<lparr>hw_pgtable = pt, kernel_vma = kern_vma s, a_root = 0\<rparr>),
                     lheap := (lheap s)(l_list ret \<mapsto> \<lparr>prev = l_list ret, next = l_list ret\<rparr>),
                     rwl := (rwl s)(ret := 0)\<rparr>;
           s \<leftarrow> r_lock copied s;
           iterator \<leftarrow> get_next (l_list copied) (lheap s);
           (ok, s) \<leftarrow> vma_dup_loop cfg sp ret copied iterator s;
           let s = r_unlock copied s;
           if ok then Some (ret, s)
           else do {
             s \<leftarrow> vma_free cfg ret s;
             Some (0, s) } } } } }"

definition vma_alloc :: "pgfm_cfg \<Rightarrow> u64 \<Rightarrow> 'a vm_scheme \<Rightarrow> (u64 \<times> 'a vm_scheme) option" where
  "vma_alloc cfg sp s = vma_dup cfg sp (kern_vma s) s"

definition vma_dup_cow :: "u64 \<Rightarrow> 'a vm_scheme \<Rightarrow> u64 \<times> 'a vm_scheme" where
  "vma_dup_cow copied s = (0, s)"

subsection \<open>The calls of a kernel client\<close>

definition outside :: "u64 \<Rightarrow> u64 \<Rightarrow> u64 \<Rightarrow> u64 \<Rightarrow> bool" where
  "outside x sz st en \<longleftrightarrow> x \<ge> en \<or> x + sz \<le> st"

definition vm_iomap :: "pgfm_cfg \<Rightarrow> u64 \<Rightarrow> u64 \<Rightarrow> viraddr \<Rightarrow> phyaddr \<Rightarrow> u16 \<Rightarrow> u64 \<Rightarrow> 'a vm_scheme \<Rightarrow> (int \<times> 'a vm_scheme) option" where
  "vm_iomap cfg sp v vaddr paddr pr sz s =
     (if \<not> outside vaddr sz (PGFRAME_VA_START cfg) (PGFRAME_VA_END cfg) then Some (- EPERM, s)
      else if \<not> outside paddr sz (PGFRAME_PA_START cfg) (PGFRAME_PA_END cfg) then Some (- EPERM, s)
      else if v = 0 then Some (- EFAULT, s)
      else if vaddr AND PAGE_ALIGN_BIT \<noteq> paddr AND PAGE_ALIGN_BIT \<or> sz \<le> 0 then Some (- EFAULT, s)
      else if \<not> VAL_IS_PAGE_ALIGNED vaddr then Some (- EFAULT, s)
      else vm_mmap_area cfg sp v vaddr paddr pr (PAGE_UPPER_ALIGN sz) VMA_IO True s)"

definition vm_iounmap :: "pgfm_cfg \<Rightarrow> u64 \<Rightarrow> viraddr \<Rightarrow> u64 \<Rightarrow> 'a vm_scheme \<Rightarrow> (int \<times> 'a vm_scheme) option" where
  "vm_iounmap cfg v vaddr sz s =
     (if \<not> outside vaddr sz (PGFRAME_VA_START cfg) (PGFRAME_VA_END cfg) then Some (- EPERM, s)
      else if v = 0 then Some (- EFAULT, s)
      else if \<not> VAL_IS_PAGE_ALIGNED vaddr then Some (- EFAULT, s)
      else vm_unmap_area cfg v vaddr (PAGE_UPPER_ALIGN sz) VMA_IO True s)"

definition vm_mmap :: "pgfm_cfg \<Rightarrow> u64 \<Rightarrow> u64 \<Rightarrow> viraddr \<Rightarrow> int \<Rightarrow> u16 \<Rightarrow> 'a vm_scheme \<Rightarrow> (int \<times> 'a vm_scheme) option" where
  "vm_mmap cfg sp v vaddr order pr s =
     (if v = 0 \<or> \<not> VAL_IS_PAGE_ALIGNED vaddr \<or> \<not> (order \<ge> 0 \<and> order < int (MAX_ORDER cfg)) then Some (- EFAULT, s)
      else do {
        (pg, s) \<leftarrow> bkp_alloc_zero cfg order s;
        (case pg of
           None \<Rightarrow> Some (- ENOMEM, s)
         | Some p \<Rightarrow> do {
             s \<leftarrow> lock (PageLk p) s;
             pg \<leftarrow> pg_get p s;
             ASSERT (int (buddy_order pg) = order \<and> buddy_flags pg = PG_BUDDY_FLAG_HEAD \<and> pgtype pg = PAGE_BUDDYALLOCATOR);
             s \<leftarrow> pg_upd p (\<lambda>pg. pg\<lparr>pgtype := VMA_AREA, ref_count := 0, vma_flags := 0\<rparr>) s;
             let s = unlock (PageLk p) s;
             (ret, s) \<leftarrow> vm_mmap_area cfg sp v vaddr (pg2pa cfg p) pr (order_bytes (nat order)) VMA_MEMORY True s;
             if ret \<noteq> 0 then do {
               s \<leftarrow> lock (PageLk p) s;
               s \<leftarrow> pg_upd p (\<lambda>pg. pg\<lparr>pgtype := PAGE_BUDDYALLOCATOR, ref_count := 0, vma_flags := 0\<rparr>) s;
               s \<leftarrow> bkp_free cfg (Some p) (unlock (PageLk p) s);
               Some (ret, s) }
             else Some (0, s) }) })"

definition vm_mmap_lazy :: "u64 \<Rightarrow> viraddr \<Rightarrow> int \<Rightarrow> u16 \<Rightarrow> 'a vm_scheme \<Rightarrow> int \<times> 'a vm_scheme" where
  "vm_mmap_lazy v vaddr order pr s = (- EFAULT, s)"

definition vm_unmap :: "pgfm_cfg \<Rightarrow> u64 \<Rightarrow> viraddr \<Rightarrow> int \<Rightarrow> 'a vm_scheme \<Rightarrow> (int \<times> 'a vm_scheme) option" where
  "vm_unmap cfg v vaddr order s = do {
     bad \<leftarrow> (if v = 0 \<or> \<not> VAL_IS_PAGE_ALIGNED vaddr then Some True
       else do { vm \<leftarrow> vmas s v; Some (kernel_vma vm \<noteq> kern_vma s \<or> \<not> (order \<ge> 0 \<and> order < int (MAX_ORDER cfg))) });
     if bad then Some (- EFAULT, s)
     else vm_unmap_area cfg v vaddr (order_bytes (nat order)) VMA_MEMORY True s }"

definition vma_cache_number :: "'a vm_scheme \<Rightarrow> (int \<times> 'a vm_scheme) option" where
  "vma_cache_number s = do {
     (info, s) \<leftarrow> kmem_cached_info (vma_cache s) False s;
     i \<leftarrow> info;
     Some (info_obj_num i, s) }"

definition vma_area_cache_number :: "'a vm_scheme \<Rightarrow> (int \<times> 'a vm_scheme) option" where
  "vma_area_cache_number s = do {
     (info, s) \<leftarrow> kmem_cached_info (vma_area_cache s) False s;
     i \<leftarrow> info;
     Some (info_obj_num i, s) }"

subsection \<open>vm_check\<close>

text \<open>The loop body on one area: \<open>None\<close> inside for the fault, otherwise the next values of \<^verbatim>\<open>bef\<close> and \<^verbatim>\<open>size\<close>.\<close>

definition vm_check_area :: "u64 \<Rightarrow> u64 \<Rightarrow> u64 \<times> u64 \<Rightarrow> 'a vm_scheme \<Rightarrow> (u64 \<times> u64) option option" where
  "vm_check_area v x bs s = do {
     ar \<leftarrow> areas s x;
     if \<not> (VAL_IS_PAGE_ALIGNED (va ar) \<and> VAL_IS_PAGE_ALIGNED (pa ar) \<and> VAL_IS_PAGE_ALIGNED (asize ar) \<and> asize ar > 0) then Some None
     else if (vmar_typ ar = VMA_IO \<or> vmar_typ ar = VMA_KERNEL) \<and> pgfm ar \<noteq> None then Some None
     else if prot ar AND PROT_V = 0 then Some None
     else if fst bs \<noteq> - 1 \<and> \<not> va ar \<ge> fst bs + snd bs then Some None
     else do {
       t \<leftarrow> tree_of v s;
       res \<leftarrow> avl_node_find (find_compare (areas s) (va ar, asize ar)) t;
       if res = 0 \<or> a_area res \<noteq> x then Some None else Some (Some (va ar, asize ar)) } }"

partial_function (option) vm_check_loop :: "u64 \<Rightarrow> u64 \<Rightarrow> u64 \<times> u64 \<Rightarrow> 'a vm_scheme \<Rightarrow> int option" where
  "vm_check_loop v iterator bs s =
     (if iterator = l_list v then Some 0
      else do {
        r \<leftarrow> vm_check_area v (l_area iterator) bs s;
        case r of
          None \<Rightarrow> Some (- EFAULT)
        | Some bs \<Rightarrow> do { nx \<leftarrow> get_next iterator (lheap s); vm_check_loop v nx bs s } })"

text \<open>The first two faults return with the lock still held.\<close>

definition vm_check :: "u64 \<Rightarrow> 'a vm_scheme \<Rightarrow> (int \<times> 'a vm_scheme) option" where
  "vm_check v s =
     (if v = 0 then Some (- EFAULT, s)
      else do {
        s \<leftarrow> r_lock v s;
        vm \<leftarrow> vmas s v;
        if hw_pgtable vm = 0 then Some (- EFAULT, s)
        else if kernel_vma vm \<noteq> kern_vma s then Some (- EFAULT, s)
        else do {
          iterator \<leftarrow> get_next (l_list v) (lheap s);
          r \<leftarrow> vm_check_loop v iterator (- 1, - 1) s;
          Some (r, r_unlock v s) } })"

end
