(* ===== verification/VmInit.thy ===== *)
theory VmInit
  imports Vm
begin

unbundle bit_operations_syntax

text \<open>
  The start-up of the virtual memory manager (\<^verbatim>\<open>module/mm/vm/vm_init.c\<close>) and the listing of an address space
  (\<^verbatim>\<open>vm_dump_information\<close> of \<^verbatim>\<open>vm.c\<close>), whose output is the list of the calls of its callback, each with its
  format and its argument, if any.
\<close>

subsection \<open>vm_dump_information\<close>

type_synonym out_call = "string \<times> u64 option"

definition dump_area :: "vma_area \<Rightarrow> out_call list" where
  "dump_area ar =
     (case vmar_typ ar of
        VMA_KERNEL \<Rightarrow> [(''[VMA ] vma_type :   VMA_KERNEL'', None)]
      | VMA_IO \<Rightarrow> [(''[VMA ] vma_type :   VMA_IO'', None)]
      | VMA_MEMORY \<Rightarrow> [(''[VMA ] vma_type :   VMA_MEMORY'', None)]
      | VMA_NOREACH \<Rightarrow> []) @
     [(''[VMA ] vma_area va: 0x%p'', Some (va ar)), (''[VMA ] vma_area pa: 0x%p'', Some (pa ar)),
      (''[VMA ] vma_area sz: 0x%p'', Some (asize ar)), (''[VMA ] vma_area pf: 0x%p'', map_option word_of_nat (pgfm ar)),
      (''[VMA ] area permin: '', None),
      (if prot ar AND PROT_R \<noteq> 0 then ''r'' else ''-'', None),
      (if prot ar AND PROT_W \<noteq> 0 then ''w'' else ''-'', None),
      (if prot ar AND PROT_X \<noteq> 0 then ''x'' else ''-'', None),
      (if prot ar AND PROT_V \<noteq> 0 then ''v'' else ''-'', None),
      (if prot ar AND PROT_U \<noteq> 0 then ''u'' else ''-'', None)]"

partial_function (option) dump_loop :: "u64 \<Rightarrow> u64 \<Rightarrow> out_call list \<Rightarrow> 'a vm_scheme \<Rightarrow> out_call list option" where
  "dump_loop v iterator out s =
     (if iterator = l_list v then Some out
      else do {
        ar \<leftarrow> areas s (l_area iterator);
        nx \<leftarrow> get_next iterator (lheap s);
        dump_loop v nx (out @ dump_area ar) s })"

definition vm_dump_information :: "u64 \<Rightarrow> bool \<Rightarrow> 'a vm_scheme \<Rightarrow> (out_call list \<times> 'a vm_scheme) option" where
  "vm_dump_information v out_cb_null s = do {
     ASSERT (v \<noteq> 0 \<and> \<not> out_cb_null);
     s \<leftarrow> r_lock v s;
     vm \<leftarrow> vmas s v;
     let out = [(''[VMA ] hw_pgtable : 0x%p'', Some (hw_pgtable vm)), (''[VMA ] kenrne_vma : 0x%p'', Some (kernel_vma vm))];
     iterator \<leftarrow> get_next (l_list v) (lheap s);
     out \<leftarrow> dump_loop v iterator out s;
     Some (out, r_unlock v s) }"

subsection \<open>vm_module_init\<close>

text \<open>
  The labels of the error exits, each falling through to the next. \<open>slab_kmm_cache\<close> is the cache of caches, \<open>satp\<close> the register
  with the current page table and \<open>seperate_line\<close> the linker symbol between code and data.
\<close>

definition exit_free_vma_cache :: "pgfm_cfg \<Rightarrow> u64 \<Rightarrow> int \<Rightarrow> 'a vm_scheme \<Rightarrow> (int \<times> 'a vm_scheme) option" where
  "exit_free_vma_cache cfg kc ret s = do { s \<leftarrow> kmem_cache_free cfg kc (vma_cache s) s; Some (ret, s) }"

definition exit_free_vma_area_cache :: "pgfm_cfg \<Rightarrow> u64 \<Rightarrow> int \<Rightarrow> 'a vm_scheme \<Rightarrow> (int \<times> 'a vm_scheme) option" where
  "exit_free_vma_area_cache cfg kc ret s = do { s \<leftarrow> kmem_cache_free cfg kc (vma_area_cache s) s; exit_free_vma_cache cfg kc ret s }"

definition exit_vma_cache_deinit :: "pgfm_cfg \<Rightarrow> u64 \<Rightarrow> int \<Rightarrow> 'a vm_scheme \<Rightarrow> (int \<times> 'a vm_scheme) option" where
  "exit_vma_cache_deinit cfg kc ret s = do { s \<leftarrow> kmem_cache_deinit cfg (vma_cache s) s; exit_free_vma_area_cache cfg kc ret s }"

definition exit_vma_area_cache_deinit :: "pgfm_cfg \<Rightarrow> u64 \<Rightarrow> int \<Rightarrow> 'a vm_scheme \<Rightarrow> (int \<times> 'a vm_scheme) option" where
  "exit_vma_area_cache_deinit cfg kc ret s = do { s \<leftarrow> kmem_cache_deinit cfg (vma_area_cache s) s; exit_vma_cache_deinit cfg kc ret s }"

definition exit_free_kernel_vma :: "pgfm_cfg \<Rightarrow> u64 \<Rightarrow> int \<Rightarrow> 'a vm_scheme \<Rightarrow> (int \<times> 'a vm_scheme) option" where
  "exit_free_kernel_vma cfg kc ret s = do { s \<leftarrow> vma_free cfg (kern_vma s) s; exit_vma_area_cache_deinit cfg kc ret s }"

definition vm_module_init :: "pgfm_cfg \<Rightarrow> u64 \<Rightarrow> u64 \<Rightarrow> u64 \<Rightarrow> u64 \<Rightarrow> 'a vm_scheme \<Rightarrow> (int \<times> 'a vm_scheme) option" where
  "vm_module_init cfg sp slab_kmm_cache satp seperate_line s =
     (if vm_module_init_done s \<noteq> 0 then Some (0, s)
      else do {
        (c, s) \<leftarrow> kmem_cache_alloc cfg sp slab_kmm_cache s;
        let s = s\<lparr>vma_cache := c\<rparr>;
        if vma_cache s = 0 then Some (- ENOBUFS, s)
        else do {
          (c, s) \<leftarrow> kmem_cache_alloc cfg sp slab_kmm_cache s;
          let s = s\<lparr>vma_area_cache := c\<rparr>;
          if vma_area_cache s = 0 then exit_free_vma_cache cfg slab_kmm_cache (- ENOBUFS) s
          else do {
            (ret, s) \<leftarrow> kmem_cache_init cfg sp (vma_cache s) 56 0 3000 3 s;
            if ret < 0 then exit_free_vma_area_cache cfg slab_kmm_cache ret s
            else do {
              (ret, s) \<leftarrow> kmem_cache_init cfg sp (vma_area_cache s) 96 0 3000 30 s;
              if ret < 0 then exit_vma_cache_deinit cfg slab_kmm_cache ret s
              else do {
                (k, s) \<leftarrow> kmem_obj_alloc cfg sp (vma_cache s) s;
                let s = s\<lparr>kern_vma := k\<rparr>;
                if k = 0 then exit_vma_area_cache_deinit cfg slab_kmm_cache (- ENOBUFS) s
                else do {
                  pt \<leftarrow> arch_hw_get_current_pgtable cfg satp;
                  let s = s\<lparr>vmas := (vmas s)(k \<mapsto> \<lparr>hw_pgtable = pt, kernel_vma = k, a_root = 0\<rparr>),
                            lheap := (lheap s)(l_list k \<mapsto> \<lparr>prev = l_list k, next = l_list k\<rparr>),
                            rwl := (rwl s)(k := 0)\<rparr>;
                  ASSERT (VAL_IS_PAGE_ALIGNED seperate_line);
                  ASSERT (seperate_line - PGFRAME_VA_START cfg > 0);
                  let seperate_size = seperate_line - PGFRAME_VA_START cfg;
                  (ret, s) \<leftarrow> vm_mmap_area cfg sp k (PGFRAME_VA_START cfg) (PGFRAME_PA_START cfg)
                    (PROT_V OR PROT_X OR PROT_R) seperate_size VMA_KERNEL False s;
                  if ret < 0 then exit_free_kernel_vma cfg slab_kmm_cache ret s
                  else do {
                    (ret, s) \<leftarrow> vm_mmap_area cfg sp k (PGFRAME_VA_START cfg + seperate_size) (PGFRAME_PA_START cfg + seperate_size)
                      (PROT_V OR PROT_W OR PROT_R) (PGFRAME_SIZE cfg - seperate_size) VMA_KERNEL False s;
                    if ret < 0 then exit_free_kernel_vma cfg slab_kmm_cache ret s
                    else do {
                      c \<leftarrow> caches s (vma_cache s);
                      c' \<leftarrow> caches s (vma_area_cache s);
                      let s = s\<lparr>init_vma_num := obj_num c, init_vma_area_num := obj_num c'\<rparr>;
                      (out, s) \<leftarrow> vm_dump_information k False s;
                      (ret, s) \<leftarrow> vm_check k s;
                      Some (ret, s\<lparr>vm_module_init_done := vm_module_init_done s + 1\<rparr>) } } } } } } } })"

definition vm_module_exit :: "'a vm_scheme \<Rightarrow> 'a vm_scheme" where
  "vm_module_exit s = s"

end
