(* ===== verification/Sv39Map.thy ===== *)
theory Sv39Map
  imports Sv39Walk
begin

unbundle bit_operations_syntax

text \<open>
  \<^verbatim>\<open>vm_walkthrough\<close> maps pages in order. \<open>walk_post\<close> says that \<open>d\<close> pages from position \<open>u\<close> of a table on have been mapped and
  nothing else; it composes along the loop and lifts from a table to the table above.
\<close>

subsection \<open>Positions\<close>

lemma vpn_add: "vpn (va + pages_bytes (int d)) mod 512 ^ Suc n = (vpn va + d) mod 512 ^ Suc n" if "n \<le> 2" for n
proof -
  have p: "(pages_bytes (int d) :: u64) = word_of_nat (d * 4096)" by (simp add: pages_bytes_def PAGE_SIZE_val)
  have "unat (va + pages_bytes (int d)) = (unat va + d * 4096) mod 2 ^ 64"
    unfolding p unat_word_ariths(1) unat_of_nat by (simp add: mod_add_right_eq)
  then have "vpn (va + pages_bytes (int d)) = (unat va + d * 4096) mod (2 ^ 12 * 2 ^ 52) div 2 ^ 12" by (simp add: vpn_def)
  also have "\<dots> = (unat va + d * 4096) div 2 ^ 12 mod 2 ^ 52"
    unfolding mod_mult2_eq by simp
  also have "(unat va + d * 4096) div 2 ^ 12 = vpn va + d" by (simp add: vpn_def)
  finally have e: "vpn (va + pages_bytes (int d)) = (vpn va + d) mod 2 ^ 52" .
  have "n = 0 \<or> n = 1 \<or> n = 2" using that by linarith
  then have "(512 ^ Suc n :: nat) dvd 2 ^ 52" by (elim disjE) simp_all
  then show ?thesis unfolding e by (rule mod_mod_cancel)
qed

definition pos :: "nat \<Rightarrow> viraddr \<Rightarrow> nat" where
  "pos n va = vpn va mod 512 ^ Suc n"

lemma pos_less: "pos n va < 512 ^ Suc n"
  by (simp add: pos_def del: power_Suc)

lemma pos_Index2Id: "n \<le> 2 \<Longrightarrow> SV39_Index2Id va (2 - n) = pos n va div 512 ^ n"
proof -
  assume "n \<le> 2"
  then have "SV39_Index2Id va (2 - n) = vpn va div 512 ^ n mod 512" using Index2Id_vpn [of "2 - n" va] by simp
  also have "\<dots> = vpn va mod (512 ^ n * 512) div 512 ^ n" unfolding mod_mult2_eq by simp
  finally show ?thesis by (simp add: pos_def mult.commute)
qed

lemma pos_child: "pos n va = pos (Suc n) va mod 512 ^ Suc n"
  unfolding pos_def by (simp add: mod_mod_cancel)

lemma pos_add: "n \<le> 2 \<Longrightarrow> pos n (va + pages_bytes (int d)) = (pos n va + d) mod 512 ^ Suc n"
  unfolding pos_def by (subst vpn_add) (simp_all add: mod_add_left_eq)

lemma pages_bytes_add: "x + pages_bytes (int a) + pages_bytes (int b) = x + pages_bytes (int (a + b))"
  by (simp add: pages_bytes_def algebra_simps)

subsection \<open>The effect of mapping\<close>

definition walk_post ::
  "pgfm_cfg \<Rightarrow> nat \<Rightarrow> u64 \<Rightarrow> nat \<Rightarrow> phyaddr \<Rightarrow> u64 \<Rightarrow> nat \<Rightarrow> nat set \<Rightarrow> 'a mm_scheme \<Rightarrow> 'a mm_scheme \<Rightarrow> bool" where
  "walk_post cfg n t u pa fl d P s s' \<longleftrightarrow> grown cfg P s s' \<and> u + d \<le> 512 ^ Suc n \<and> pt_wf cfg (mem s') n t \<and>
     pt_pages cfg (mem s') n t = pt_pages cfg (mem s) n t \<union> pg2va cfg ` P \<and>
     same_but (pt_pages cfg (mem s) n t \<union> pg2va cfg ` P) (mem s) (mem s') \<and>
     (\<forall>v < 512 ^ Suc n. pt_map cfg (mem s') n t v =
        (if u \<le> v \<and> v < u + d then Some (SV39_Pa2PTE (pa + pages_bytes (int (v - u))) fl) else pt_map cfg (mem s) n t v)) \<and>
     (\<forall>v. u \<le> v \<and> v < u + d \<longrightarrow> pt_map cfg (mem s) n t v = None)"

text \<open>A table that the allocator knows as such.\<close>

definition walk_pre :: "pgfm_cfg \<Rightarrow> nat \<Rightarrow> u64 \<Rightarrow> 'a mm_scheme \<Rightarrow> bool" where
  "walk_pre cfg n t s \<longleftrightarrow> mm_inv cfg s \<and> sv_cfg cfg \<and> pt_wf cfg (mem s) n t \<and> pt_pages cfg (mem s) n t \<subseteq> tables cfg s"

lemma walk_postD:
  assumes "walk_post cfg n t u pa fl d P s s'"
  shows "grown cfg P s s'" "u + d \<le> 512 ^ Suc n" "pt_wf cfg (mem s') n t"
    "pt_pages cfg (mem s') n t = pt_pages cfg (mem s) n t \<union> pg2va cfg ` P"
    "same_but (pt_pages cfg (mem s) n t \<union> pg2va cfg ` P) (mem s) (mem s')"
    "v < 512 ^ Suc n \<Longrightarrow> pt_map cfg (mem s') n t v =
        (if u \<le> v \<and> v < u + d then Some (SV39_Pa2PTE (pa + pages_bytes (int (v - u))) fl) else pt_map cfg (mem s) n t v)"
    "u \<le> v \<Longrightarrow> v < u + d \<Longrightarrow> pt_map cfg (mem s) n t v = None"
  using assms unfolding walk_post_def by blast+

lemma walk_preD:
  assumes "walk_pre cfg n t s"
  shows "mm_inv cfg s" "sv_cfg cfg" "pt_wf cfg (mem s) n t" "pt_pages cfg (mem s) n t \<subseteq> tables cfg s"
  using assms unfolding walk_pre_def by blast+

lemma walk_post_refl: "walk_pre cfg n t s \<Longrightarrow> u \<le> 512 ^ Suc n \<Longrightarrow> walk_post cfg n t u pa fl 0 {} s s"
  by (auto simp: walk_post_def walk_pre_def grown_refl)

lemma walk_post_pre: "walk_pre cfg n t s \<Longrightarrow> walk_post cfg n t u pa fl d P s s' \<Longrightarrow> walk_pre cfg n t s'"
proof -
  assume p: "walk_pre cfg n t s" and q: "walk_post cfg n t u pa fl d P s s'"
  have "mm_inv cfg s'" using walk_postD(1) [OF q] by (simp add: grown_def)
  then show ?thesis
    using walk_preD [OF p] walk_postD(3,4) [OF q] grown_tables(1) [OF walk_preD(1) [OF p] walk_postD(1) [OF q]]
    unfolding walk_pre_def by blast
qed

lemma walk_post_trans:
  assumes pre: "walk_pre cfg n t s" and a: "walk_post cfg n t u pa fl d P s s1"
    and b: "walk_post cfg n t (u + d) (pa + pages_bytes (int d)) fl e Q s1 s2"
  shows "walk_post cfg n t u pa fl (d + e) (P \<union> Q) s s2"
  unfolding walk_post_def
proof (intro conjI allI impI)
  show "grown cfg (P \<union> Q) s s2" using grown_trans [OF walk_preD(1) [OF pre] walk_postD(1) [OF a] walk_postD(1) [OF b]] .
  show "u + (d + e) \<le> 512 ^ Suc n" using walk_postD(2) [OF b] by simp
  show "pt_wf cfg (mem s2) n t" using walk_postD(3) [OF b] .
  show "pt_pages cfg (mem s2) n t = pt_pages cfg (mem s) n t \<union> pg2va cfg ` (P \<union> Q)"
    using walk_postD(4) [OF a] walk_postD(4) [OF b] by (simp add: image_Un Un_assoc)
  show "same_but (pt_pages cfg (mem s) n t \<union> pg2va cfg ` (P \<union> Q)) (mem s) (mem s2)"
    using same_but_trans [OF walk_postD(5) [OF a] walk_postD(5) [OF b]] unfolding walk_postD(4) [OF a]
    by (rule same_but_mono) blast
next
  fix v assume v: "u \<le> v \<and> v < u + (d + e)"
  show "pt_map cfg (mem s) n t v = None"
  proof (cases "v < u + d")
    case True then show ?thesis using walk_postD(7) [OF a] v by blast
  next
    case False
    have "v < 512 ^ Suc n" using v walk_postD(2) [OF b] by linarith
    then show ?thesis using walk_postD(6) [OF a, of v] walk_postD(7) [OF b, of v] v False by simp
  qed
next
  fix v :: nat assume v: "v < 512 ^ Suc n"
  show "pt_map cfg (mem s2) n t v =
    (if u \<le> v \<and> v < u + (d + e) then Some (SV39_Pa2PTE (pa + pages_bytes (int (v - u))) fl) else pt_map cfg (mem s) n t v)"
  proof (cases "u + d \<le> v \<and> v < u + d + e")
    case True
    then have "d + (v - (u + d)) = v - u" by linarith
    then show ?thesis using walk_postD(6) [OF b v] True unfolding pages_bytes_add by simp
  next
    case False
    then show ?thesis using walk_postD(6) [OF a v] walk_postD(6) [OF b v] by auto
  qed
qed


subsection \<open>From a table to the table above\<close>

lemma pt_map_out: "v < 512 ^ Suc (Suc n) \<Longrightarrow> \<not> valid m t (v div 512 ^ Suc n) \<Longrightarrow> pt_map cfg m (Suc n) t v = None"
  by (simp add: Let_def del: power_Suc)

lemma pt_map_in: "valid m t (v div 512 ^ Suc n) \<Longrightarrow>
  pt_map cfg m (Suc n) t v = pt_map cfg m n (nxt cfg m t (v div 512 ^ Suc n)) (v mod 512 ^ Suc n)"
  by (simp add: Let_def del: power_Suc)

lemma same_block: "u + d \<le> (512 :: nat) ^ k * Suc i \<Longrightarrow> u div 512 ^ k = i \<Longrightarrow> u \<le> v \<Longrightarrow> v < u + d \<Longrightarrow> v div 512 ^ k = i"
proof -
  assume a: "u + d \<le> (512 :: nat) ^ k * Suc i" "u div 512 ^ k = i" "u \<le> v" "v < u + d"
  have "512 ^ k * i \<le> u" using a(2) times_div_less_eq_dividend [of "512 ^ k" u] by simp
  then show ?thesis using a by (intro div_nat_eqI) linarith+
qed

lemma walk_pre_child:
  assumes "walk_pre cfg (Suc n) t s" "i < 512" "valid (mem s) t i"
  shows "walk_pre cfg n (nxt cfg (mem s) t i) s"
  using walk_preD [OF assms(1)] pt_wf_child(2) [OF walk_preD(3) [OF assms(1)] assms(2,3)] child_pages [OF assms(2,3), of cfg n]
  unfolding walk_pre_def by blast

lemma page_aligned_tables: "mm_inv cfg s \<Longrightarrow> sv_cfg cfg \<Longrightarrow> P \<subseteq> free_pages s \<Longrightarrow> \<forall>u \<in> pg2va cfg ` P. aligned u"
  using page_addr(2) [OF mm_inv_wf] free_page by blast

lemma walk_post_lift:
  assumes pre: "walk_pre cfg (Suc n) t s" and i: "i < 512" "valid (mem s) t i" and ui: "u div 512 ^ Suc n = i"
    and w: "walk_post cfg n (nxt cfg (mem s) t i) (u mod 512 ^ Suc n) pa fl d P s s'"
  shows "walk_post cfg (Suc n) t u pa fl d P s s'"
proof -
  let ?c = "nxt cfg (mem s) t i" and ?N = "512 ^ Suc n :: nat"
  note inv = walk_preD(1) [OF pre] and wf = walk_preD(3) [OF pre]
  note g = walk_postD(1) [OF w]
  have F: "\<forall>u \<in> pg2va cfg ` P. aligned u"
    using page_aligned_tables [OF inv walk_preD(2) [OF pre], of P] g by (simp add: grown_def)
  have ap: "pg2va cfg ` P \<inter> pt_pages cfg (mem s) (Suc n) t = {}" using grown_tables(2) [OF inv g] walk_preD(4) [OF pre] by blast
  note ch = pt_child_change [OF wf i walk_postD(5) [OF w] F ap walk_postD(3) [OF w] equalityD1 [OF walk_postD(4) [OF w]]]
  have u: "u = ?N * i + u mod ?N" using ui mult_div_mod_eq [of ?N u] by simp
  have le: "u + d \<le> ?N * Suc i" using walk_postD(2) [OF w] u unfolding mult_Suc_right by linarith
  have top: "?N * Suc i \<le> 512 ^ Suc (Suc n)" unfolding power_Suc [of 512 "Suc n"] using i(1) by (subst mult.commute, intro mult_le_mono1) linarith
  have blk: "v div ?N = i \<and> v mod ?N - u mod ?N = v - u \<and> u mod ?N \<le> v mod ?N \<and> v mod ?N < u mod ?N + d" if "u \<le> v" "v < u + d" for v
  proof -
    have "v div ?N = i" using same_block [OF le ui that] .
    moreover then have "v = ?N * i + v mod ?N" using mult_div_mod_eq [of ?N v] by simp
    ultimately show ?thesis using u that by linarith
  qed
  have blk': "u \<le> v \<and> v < u + d" if "v div ?N = i" "u mod ?N \<le> v mod ?N" "v mod ?N < u mod ?N + d" for v
  proof -
    have "v = ?N * i + v mod ?N" using that(1) mult_div_mod_eq [of ?N v] by simp
    then show ?thesis using u that by linarith
  qed
  show ?thesis
    unfolding walk_post_def
  proof (intro conjI allI impI)
    show "grown cfg P s s'" by fact
    show "u + d \<le> 512 ^ Suc (Suc n)" using le top by linarith
    show "pt_wf cfg (mem s') (Suc n) t" by (rule ch(2))
    show "pt_pages cfg (mem s') (Suc n) t = pt_pages cfg (mem s) (Suc n) t \<union> pg2va cfg ` P"
      unfolding ch(3) walk_postD(4) [OF w] using child_pages [OF i, of cfg n] by blast
    show "same_but (pt_pages cfg (mem s) (Suc n) t \<union> pg2va cfg ` P) (mem s) (mem s')"
      by (rule same_but_mono [OF walk_postD(5) [OF w]]) (use child_pages [OF i, of cfg n] in blast)
  next
    fix v assume v: "u \<le> v \<and> v < u + d"
    then have b: "v div ?N = i" "u mod ?N \<le> v mod ?N" "v mod ?N < u mod ?N + d" using blk by blast+
    show "pt_map cfg (mem s) (Suc n) t v = None"
      using pt_map_in [of "mem s" t v n cfg] walk_postD(7) [OF w b(2,3)] i(2) unfolding b(1) by simp
  next
    fix v :: nat assume v: "v < 512 ^ Suc (Suc n)"
    show "pt_map cfg (mem s') (Suc n) t v =
      (if u \<le> v \<and> v < u + d then Some (SV39_Pa2PTE (pa + pages_bytes (int (v - u))) fl) else pt_map cfg (mem s) (Suc n) t v)"
    proof (cases "v div ?N = i")
      case True
      have m: "v mod ?N < ?N" by simp
      have e: "pt_map cfg (mem s) (Suc n) t v = pt_map cfg (mem s) n ?c (v mod ?N)"
        using pt_map_in [of "mem s" t v n cfg] i(2) unfolding True by blast
      show ?thesis unfolding ch(4) [OF v] if_P [OF True] walk_postD(6) [OF w m] e using blk [of v] blk' [OF True] by auto
    next
      case False
      then show ?thesis unfolding ch(4) [OF v] using blk [of v] by auto
    qed
  qed
qed


subsection \<open>A new table\<close>

lemma pt_zero:
  assumes "\<forall>a. in_page q a \<longrightarrow> m a = 0" "aligned q"
  shows "i < 512 \<Longrightarrow> pte m q i = 0" "pt_wf cfg m n q" "pt_pages cfg m n q = {q}" "v < 512 ^ Suc n \<Longrightarrow> pt_map cfg m n q v = None"
proof -
  have z: "pte m q i = 0" if "i < 512" for i
    unfolding pte_def by (rule load64_zero) (use assms(1) pte_addr_in_page that in blast)
  { assume "i < 512" then show "pte m q i = 0" by (rule z) }
  have nv: "\<not> valid m q i" if "i < 512" for i using z [OF that] by simp
  show "pt_wf cfg m n q" using nv assms(2) by (cases n) auto
  show "pt_pages cfg m n q = {q}" using nv by (cases n) auto
  { assume v: "v < 512 ^ Suc n"
    have "v div 512 ^ n < 512" using v by (simp add: less_mult_imp_div_less)
    then have "\<not> valid m q (v div 512 ^ n)" by (rule nv)
    then show "pt_map cfg m n q v = None" by (cases n) (simp_all add: Let_def) }
qed

lemma pt_new_child:
  assumes wf: "pt_wf cfg m (Suc n) t" and i: "i < 512" "\<not> valid m t i"
    and ch: "same_but {t, q} m m'" "aligned q" "q \<notin> pt_pages cfg m (Suc n) t" "\<And>j. j < 512 \<Longrightarrow> j \<noteq> i \<Longrightarrow> pte m' t j = pte m t j"
    and q: "PTE_NEXTPGT (pte m' t i)" "nxt cfg m' t i = q" "\<forall>a. in_page q a \<longrightarrow> m' a = 0"
  shows "pt_wf cfg m' (Suc n) t" "pt_pages cfg m' (Suc n) t = insert q (pt_pages cfg m (Suc n) t)"
    "v < 512 ^ Suc (Suc n) \<Longrightarrow> pt_map cfg m' (Suc n) t v = pt_map cfg m (Suc n) t v"
proof -
  have t: "aligned t" using pt_wf_aligned [OF wf] .
  note z = pt_zero [OF q(3) ch(2)]
  have al: "\<forall>u \<in> {t, q}. aligned u" using t ch(2) by simp
  have ap: "pt_pages cfg m n (nxt cfg m t j) \<inter> {t, q} = {}" if "j < 512" "valid m t j" for j
    using pt_wf_child(3) [OF wf that] ch(3) child_pages [OF that, of cfg n] by blast
  note fr = pt_frame [OF ch(1) al pt_wf_child(2) [OF wf] ap]
  have nx: "nxt cfg m' t j = nxt cfg m t j" if "j < 512" "j \<noteq> i" for j using ch(4) [OF that] by (simp add: nxt_def)
  have kid: "pt_pages cfg m' n (nxt cfg m' t j) = (if j = i then {q} else pt_pages cfg m n (nxt cfg m t j))" if "j < 512" "valid m' t j" for j
    using fr(1) [OF that(1) _ that(1)] ch(4) [OF that(1)] nx [OF that(1)] that(2) q(2) z(3) by (cases "j = i") auto
  have v': "valid m' t j \<longleftrightarrow> j = i \<or> valid m t j" if "j < 512" for j
    using ch(4) [OF that] NEXTPGT_valid [OF q(1)] by (cases "j = i") auto
  have w1: "PTE_NEXTPGT (pte m' t j) \<and> pt_wf cfg m' n (nxt cfg m' t j) \<and> t \<notin> pt_pages cfg m' n (nxt cfg m' t j)"
    if "j < 512" "valid m' t j" for j
  proof (cases "j = i")
    case True
    then show ?thesis using q(1,2) z(2,3) ch(3) by auto
  next
    case False
    then have v: "valid m t j" using v' that by blast
    show ?thesis using pt_wf_child [OF wf that(1) v] fr(2) [OF that(1) v that(1) v] kid [OF that] False nx [OF that(1) False] ch(4) [OF that(1) False] by simp
  qed
  have w2: "pt_pages cfg m' n (nxt cfg m' t j) \<inter> pt_pages cfg m' n (nxt cfg m' t k) = {}"
    if "j < 512" "k < 512" "j \<noteq> k" "valid m' t j" "valid m' t k" for j k
    using kid [OF that(1,4)] kid [OF that(2,5)] ap [OF that(1)] ap [OF that(2)] pt_wf_apart [OF wf that(1) _ that(2) _ that(3)] v' that
    by (cases "j = i"; cases "k = i"; simp)
  show "pt_wf cfg m' (Suc n) t" using t w1 w2 by simp
  have "u \<in> pt_pages cfg m' (Suc n) t \<longleftrightarrow> u \<in> insert q (pt_pages cfg m (Suc n) t)" for u
  proof -
    have "u \<in> pt_pages cfg m' (Suc n) t \<longleftrightarrow> u = t \<or> (\<exists>j < 512. valid m' t j \<and> u \<in> pt_pages cfg m' n (nxt cfg m' t j))" by auto
    also have "\<dots> \<longleftrightarrow> u = t \<or> (\<exists>j < 512. (j = i \<or> valid m t j) \<and> u \<in> (if j = i then {q} else pt_pages cfg m n (nxt cfg m t j)))"
      using kid v' by metis
    also have "\<dots> \<longleftrightarrow> u \<in> insert q (pt_pages cfg m (Suc n) t)" using i by auto
    finally show ?thesis .
  qed
  then show "pt_pages cfg m' (Suc n) t = insert q (pt_pages cfg m (Suc n) t)" by (rule set_eqI)
  { assume v: "v < 512 ^ Suc (Suc n)"
    let ?j = "v div 512 ^ Suc n"
    have d: "?j < 512" using v by (simp add: less_mult_imp_div_less)
    have r: "v mod 512 ^ Suc n < 512 ^ Suc n" by simp
    show "pt_map cfg m' (Suc n) t v = pt_map cfg m (Suc n) t v"
    proof (cases "?j = i")
      case True
      then show ?thesis using i(2) q(1,2) z(4) [OF r] by (simp add: Let_def del: power_Suc)
    next
      case False
      then show ?thesis using ch(4) [OF d] nx [OF d] fr(3) [OF d _ d _ r] by (simp add: Let_def del: power_Suc)
    qed }
qed

end
