(* ===== verification/Sv39Loop.thy ===== *)
theory Sv39Loop
  imports Sv39Map
begin

unbundle bit_operations_syntax

text \<open>
  The loop of \<^verbatim>\<open>vm_walkthrough\<close> by induction on the levels and on the entries that are left.
\<close>

subsection \<open>Steps of the loop\<close>

lemma get_pte_eq: "get_pte t i s = pte (mem s) t i"
  by (simp add: get_pte_def pte_def)

lemma mem_set_pte: "mem (set_pte t i e s) = store64 (pte_addr t i) e (mem s)"
  by (simp add: set_pte_def)

lemma grown_set_pte: "grown cfg P s (set_pte t i e s') = grown cfg P s s'"
  by (simp add: grown_def set_pte_def)

lemma pte_set_pte: "i < 512 \<Longrightarrow> j < 512 \<Longrightarrow> pte (mem (set_pte t i e s)) t j = (if j = i then e else pte (mem s) t j)"
  using load_store_pte [of i j t e "mem s"] by (auto simp: pte_def mem_set_pte)

lemma walk_post_leaf:
  assumes pre: "walk_pre cfg 0 t s" and u: "u < 512" "\<not> valid (mem s) t u" and fl: "PTE_VALID fl"
  shows "walk_post cfg 0 t u pa fl 1 {} s (set_pte t u (SV39_Pa2PTE pa fl) s)"
proof -
  let ?s = "set_pte t u (SV39_Pa2PTE pa fl) s"
  have "same_but {t} (mem s) (mem ?s)" unfolding mem_set_pte by (rule store_pte_same_but [OF u(1)])
  moreover have "pt_map cfg (mem ?s) 0 t v = (if u \<le> v \<and> v < u + 1
      then Some (SV39_Pa2PTE (pa + pages_bytes (int (v - u))) fl) else pt_map cfg (mem s) 0 t v)" if "v < 512" for v
    using pte_set_pte [OF u(1) that, of t "SV39_Pa2PTE pa fl" s] fl by (cases "v = u") (auto simp: leaf_valid pages_bytes_def)
  moreover have "pt_map cfg (mem s) 0 t v = None" if "u \<le> v" "v < u + 1" for v using that u(2) by (simp add: le_less_Suc_eq)
  ultimately show ?thesis
    using pre u(1) grown_refl [of cfg s] unfolding walk_post_def walk_pre_def by (simp add: grown_set_pte)
qed

lemma walk_post_new:
  assumes pre: "walk_pre cfg (Suc n) t s" and i: "i < 512" "\<not> valid (mem s) t i" and u: "u \<le> 512 ^ Suc (Suc n)"
    and p: "p < PGFRAME_PAGE_NUMS cfg" "grown cfg {p} s s1" "same_but {pg2va cfg p} (mem s) (mem s1)"
      "\<forall>a. in_page (pg2va cfg p) a \<longrightarrow> mem s1 a = 0"
  defines "s' \<equiv> set_pte t i (SV39_Pa2PTE (va2pa cfg (pg2va cfg p)) VM_PROT_V) s1"
  shows "walk_post cfg (Suc n) t u pa fl 0 {p} s s'" "valid (mem s') t i" "nxt cfg (mem s') t i = pg2va cfg p"
proof -
  let ?q = "pg2va cfg p" and ?e = "SV39_Pa2PTE (va2pa cfg (pg2va cfg p)) VM_PROT_V"
  note inv = walk_preD(1) [OF pre] and wf = walk_preD(3) [OF pre]
  note pa = page_addr [OF mm_inv_wf [OF inv] walk_preD(2) [OF pre] p(1)]
  have t: "aligned t" using pt_wf_aligned [OF wf] .
  have q: "?q \<notin> pt_pages cfg (mem s) (Suc n) t" using grown_tables(2) [OF inv p(2)] walk_preD(4) [OF pre] by blast
  then have qt: "?q \<noteq> t" by auto
  have m': "mem s' = store64 (pte_addr t i) ?e (mem s1)" by (simp add: s'_def mem_set_pte)
  have st: "same_but {t} (mem s1) (mem s')" unfolding m' by (rule store_pte_same_but [OF i(1)])
  have sb: "same_but {t, ?q} (mem s) (mem s')" using same_but_trans [OF p(3) st] by (rule same_but_mono) blast
  have e1: "pte (mem s1) t j = pte (mem s) t j" if "j < 512" for j
    by (rule pte_same_but [OF p(3) that t]) (use pa(2) qt in simp)
  have e: "pte (mem s') t j = (if j = i then ?e else pte (mem s) t j)" if "j < 512" for j
    using pte_set_pte [OF i(1) that, of t ?e s1] e1 [OF that] by (simp add: s'_def)
  have ei: "pte (mem s') t i = ?e" using e [OF i(1)] by simp
  show nx: "nxt cfg (mem s') t i = ?q" unfolding nxt_def ei PTE_roundtrip [OF pa(3,4)] by (rule pa(5))
  have ng: "PTE_NEXTPGT (pte (mem s') t i)" unfolding ei by (rule table_entry)
  then show "valid (mem s') t i" by (rule NEXTPGT_valid)
  have z: "\<forall>a. in_page ?q a \<longrightarrow> mem s' a = 0"
  proof (intro allI impI)
    fix a assume a: "in_page ?q a"
    then have "\<not> in_page t a" using aligned_apart [OF pa(2) t] qt by blast
    then show "mem s' a = 0" using st p(4) a by (simp add: same_but_def)
  qed
  have ej: "pte (mem s') t j = pte (mem s) t j" if "j < 512" "j \<noteq> i" for j using e that by simp
  note c = pt_new_child [OF wf i sb pa(2) q ej ng nx z]
  have "same_but (pt_pages cfg (mem s) (Suc n) t \<union> {?q}) (mem s) (mem s')" by (rule same_but_mono [OF sb]) auto
  moreover have "grown cfg {p} s s'" using p(2) by (simp add: s'_def grown_set_pte)
  ultimately show "walk_post cfg (Suc n) t u pa fl 0 {p} s s'"
    using c u unfolding walk_post_def by auto
qed


subsection \<open>Results of the loop\<close>

definition walk_done ::
  "pgfm_cfg \<Rightarrow> nat \<Rightarrow> u64 \<Rightarrow> nat \<Rightarrow> phyaddr \<Rightarrow> u64 \<Rightarrow> nat \<Rightarrow> int \<Rightarrow> nat \<Rightarrow> nat set \<Rightarrow> 'a mm_scheme \<Rightarrow> 'a mm_scheme \<Rightarrow> bool" where
  "walk_done cfg n t u pa fl k ret d P s s' \<longleftrightarrow> walk_post cfg n t u pa fl d P s s' \<and> d \<le> k \<and>
     (ret = 0 \<longrightarrow> d = min k (512 ^ Suc n - u)) \<and>
     (ret \<noteq> 0 \<longrightarrow> d < k \<and> u + d < 512 ^ Suc n \<and>
        (ret = - EEXIST \<and> pt_map cfg (mem s) n t (u + d) \<noteq> None \<or> ret = - ENOMEM \<and> free_pages s' = {}))"

lemma walk_done_post: "walk_done cfg n t u pa fl k ret d P s s' \<Longrightarrow> walk_post cfg n t u pa fl d P s s'"
  by (simp add: walk_done_def)

lemma walk_done_trans:
  assumes pre: "walk_pre cfg n t s" and a: "walk_post cfg n t u pa fl d P s s1" and dk: "d \<le> k"
    and b: "walk_done cfg n t (u + d) (pa + pages_bytes (int d)) fl (k - d) ret e Q s1 s2"
  shows "walk_done cfg n t u pa fl k ret (d + e) (P \<union> Q) s s2"
proof -
  have m: "pt_map cfg (mem s1) n t (u + (d + e)) = pt_map cfg (mem s) n t (u + (d + e))" if "u + (d + e) < 512 ^ Suc n"
    using walk_postD(6) [OF a that] by simp
  note p = walk_post_trans [OF pre a walk_done_post [OF b]] and ud = walk_postD(2) [OF a]
  show ?thesis
  proof (cases "ret = 0")
    case True
    then have "e = min (k - d) (512 ^ Suc n - (u + d))" using b by (simp add: walk_done_def del: power_Suc)
    then have "d + e = min k (512 ^ Suc n - u)" using ud dk by linarith
    then show ?thesis using p True by (simp add: walk_done_def del: power_Suc)
  next
    case False
    then have e: "e < k - d" "u + (d + e) < 512 ^ Suc n"
      "ret = - EEXIST \<and> pt_map cfg (mem s1) n t (u + (d + e)) \<noteq> None \<or> ret = - ENOMEM \<and> free_pages s2 = {}"
      using b by (simp_all only: walk_done_def add.assoc) blast+
    then show ?thesis using p False unfolding walk_done_def m [OF e(2)] by linarith
  qed
qed

lemma div_block: "N * i \<le> v \<Longrightarrow> v < N + N * i \<Longrightarrow> v div N = (i :: nat)"
  by (rule div_nat_eqI) simp_all

lemma walk_done_lift:
  assumes pre: "walk_pre cfg (Suc n) t s" and i: "i < 512" "valid (mem s) t i" and ui: "u div 512 ^ Suc n = i"
    and w: "walk_done cfg n (nxt cfg (mem s) t i) (u mod 512 ^ Suc n) pa fl k ret d P s s'" and r: "ret \<noteq> 0 \<or> d = k"
  shows "walk_done cfg (Suc n) t u pa fl k ret d P s s'"
proof -
  let ?N = "512 ^ Suc n :: nat"
  note p = walk_post_lift [OF pre i ui walk_done_post [OF w]]
  have u: "u = ?N * i + u mod ?N" using ui mult_div_mod_eq [of ?N u] by simp
  have "(u + d) div ?N = i \<and> (u + d) mod ?N = u mod ?N + d" if "u mod ?N + d < ?N"
  proof
    show "(u + d) div ?N = i" by (rule div_block) (use u that in linarith)+
    then show "(u + d) mod ?N = u mod ?N + d" using mult_div_mod_eq [of ?N "u + d"] u by simp
  qed
  then have m: "pt_map cfg (mem s) (Suc n) t (u + d) = pt_map cfg (mem s) n (nxt cfg (mem s) t i) (u mod ?N + d)" if "u mod ?N + d < ?N"
    using pt_map_in [of "mem s" t "u + d" n cfg] i(2) that by (simp del: power_Suc)
  have top: "?N * Suc i \<le> 512 ^ Suc (Suc n)"
    unfolding power_Suc [of 512 "Suc n"] using i(1) by (subst mult.commute, intro mult_le_mono1) linarith
  then have lt: "u + d < 512 ^ Suc (Suc n)" if "u mod ?N + d < ?N" using that u unfolding mult_Suc_right by linarith
  show ?thesis
    using p w r m lt walk_postD(2) [OF p] unfolding walk_done_def by (auto simp del: power_Suc not_None_eq)
qed


subsection \<open>The last level\<close>

lemma walk_end: "vm_walk_loop cfg index 512 t va pa fl pages s = Some (0, pages, s)"
  by (subst vm_walk_loop.simps) simp

lemma walk_leaf_step: "idx < 512 \<Longrightarrow> vm_walk_loop cfg 2 idx t va pa fl pages s =
  (if \<not> valid (mem s) t idx
   then if pages = 1 then Some (0, 0, set_pte t idx (SV39_Pa2PTE pa fl) s)
     else vm_walk_loop cfg 2 (Suc idx) t (va + PAGE_SIZE) (pa + PAGE_SIZE) fl (pages - 1) (set_pte t idx (SV39_Pa2PTE pa fl) s)
   else Some (- EEXIST, pages, s))"
  by (subst vm_walk_loop.simps) (simp add: get_pte_eq Let_def)

lemma walk_leaf:
  assumes "walk_pre cfg 0 t s" "PTE_VALID fl" "0 < k" "idx \<le> 512"
  shows "\<exists>ret d s'. vm_walk_loop cfg 2 idx t va pa fl (int k) s = Some (ret, int (k - d), s') \<and> walk_done cfg 0 t idx pa fl k ret d {} s s'"
  using assms
proof (induction "512 - idx" arbitrary: idx va pa k s)
  case 0
  then have "idx = 512" by simp
  then show ?case
    using walk_end [of cfg 2 t va pa fl "int k" s] walk_post_refl [OF 0(2), of 512 pa fl]
    by (intro exI [of _ 0] exI [of _ s]) (simp add: walk_done_def)
next
  case (Suc x)
  have i: "idx < 512" using Suc(2) by linarith
  let ?s = "set_pte t idx (SV39_Pa2PTE pa fl) s"
  show ?case
  proof (cases "valid (mem s) t idx")
    case True
    then have "pt_map cfg (mem s) 0 t idx \<noteq> None" by simp
    then show ?thesis
      using walk_leaf_step [OF i, of cfg t va pa fl "int k" s] True walk_post_refl [OF Suc(3), of idx pa fl] Suc(5) i
      by (intro exI [of _ "- EEXIST"] exI [of _ 0] exI [of _ s]) (simp add: walk_done_def EEXIST_def)
  next
    case False
    note p = walk_post_leaf [OF Suc(3) i False Suc(4), of pa]
    note pre = walk_post_pre [OF Suc(3) p]
    show ?thesis
    proof (cases "k = 1")
      case True
      then show ?thesis
        using walk_leaf_step [OF i, of cfg t va pa fl "int k" s] False p i
        by (intro exI [of _ 0] exI [of _ 1] exI [of _ ?s]) (simp add: walk_done_def)
    next
      case k: False
      have x: "x = 512 - Suc idx" using Suc(2) by linarith
      obtain ret d s' where r: "vm_walk_loop cfg 2 (Suc idx) t (va + PAGE_SIZE) (pa + PAGE_SIZE) fl (int (k - 1)) ?s = Some (ret, int (k - 1 - d), s')"
        "walk_done cfg 0 t (Suc idx) (pa + PAGE_SIZE) fl (k - 1) ret d {} ?s s'"
        using Suc(1) [OF x pre Suc(4), of "k - 1" "va + PAGE_SIZE" "pa + PAGE_SIZE"] Suc(5) k i by auto
      have "pages_bytes (int 1) = PAGE_SIZE" by (simp add: pages_bytes_def)
      then have "walk_done cfg 0 t idx pa fl k ret (1 + d) {} s s'"
        using walk_done_trans [OF Suc(3) p, of k ret d "{}" s'] r(2) Suc(5) by simp
      moreover have k1: "int k - 1 = int (k - 1)" "int k \<noteq> 1" using Suc(5) k by simp_all
      have "vm_walk_loop cfg 2 idx t va pa fl (int k) s = Some (ret, int (k - (1 + d)), s')"
        unfolding walk_leaf_step [OF i] k1(1) if_P [OF False] if_not_P [OF k1(2)] r(1) by simp
      ultimately show ?thesis by blast
    qed
  qed
qed


subsection \<open>The upper levels\<close>

text \<open>What the loop does at an entry once it has the table below.\<close>

definition walk_tail where
  "walk_tail cfg index idx t c va pa fl pages s = do {
     (ret, pages', s) \<leftarrow> vm_walk_loop cfg (Suc index) (SV39_Index2Id va (Suc index)) c va pa fl pages s;
     if ret \<noteq> 0 then Some (ret, pages', s)
     else if pages' = 0 then Some (0, pages', s)
     else vm_walk_loop cfg index (Suc idx) t (va + pages_bytes (pages - pages')) (pa + pages_bytes (pages - pages')) fl pages' s }"

lemma walk_node_old:
  assumes "idx < 512" "index < 2" "PTE_NEXTPGT (pte (mem s) t idx)" "aligned (nxt cfg (mem s) t idx)"
  shows "vm_walk_loop cfg index idx t va pa fl pages s = walk_tail cfg index idx t (nxt cfg (mem s) t idx) va pa fl pages s"
  using assms NEXTPGT_valid [OF assms(3)] PTE2Pa_aligned
  by (subst vm_walk_loop.simps) (simp add: get_pte_eq nxt_def walk_tail_def Let_def ASSERT_def)

lemma walk_node_new:
  assumes "idx < 512" "index < 2" "\<not> valid (mem s) t idx"
  shows "bk_alloc_zero cfg 0 s = Some (0, s) \<Longrightarrow> vm_walk_loop cfg index idx t va pa fl pages s = Some (- ENOMEM, pages, s)"
    "bk_alloc_zero cfg 0 s = Some (q, s1) \<Longrightarrow> q \<noteq> 0 \<Longrightarrow> aligned q \<Longrightarrow> aligned (va2pa cfg q) \<Longrightarrow>
       vm_walk_loop cfg index idx t va pa fl pages s =
       walk_tail cfg index idx t q va pa fl pages (set_pte t idx (SV39_Pa2PTE (va2pa cfg q) VM_PROT_V) s1)"
  using assms by (subst vm_walk_loop.simps, simp add: get_pte_eq walk_tail_def Let_def ASSERT_def)+

text \<open>The position that entry \<open>idx\<close> stands for.\<close>

abbreviation upos :: "nat \<Rightarrow> nat \<Rightarrow> viraddr \<Rightarrow> nat" where
  "upos n idx va \<equiv> (if idx < 512 then pos n va else 512 ^ Suc n)"

lemma next_pos:
  assumes n: "n \<le> 2" and i: "pos n va div 512 ^ n = i" and d: "d = 512 ^ n - pos n va mod 512 ^ n"
  shows "pos n va + d = upos n (Suc i) (va + pages_bytes (int d))"
    "Suc i < 512 \<Longrightarrow> Suc i = pos n (va + pages_bytes (int d)) div 512 ^ n" "i < 512"
proof -
  let ?N = "512 ^ n :: nat"
  have lt: "pos n va < ?N * 512" using pos_less [of n va] by (simp add: mult.commute)
  then show i5: "i < 512" using i by (metis less_mult_imp_div_less mult.commute)
  have u: "pos n va = ?N * i + pos n va mod ?N" using i mult_div_mod_eq [of ?N "pos n va"] by simp
  have m: "pos n va mod ?N < ?N" by simp
  have e: "pos n va + d = ?N * Suc i" using u m d unfolding mult_Suc_right by linarith
  have a: "pos n (va + pages_bytes (int d)) = ?N * Suc i" if s: "Suc i < 512"
  proof -
    have "?N * Suc i < 512 ^ Suc n" using s by (simp add: mult.commute)
    then show ?thesis unfolding pos_add [OF n] e by (rule mod_less)
  qed
  show "pos n va + d = upos n (Suc i) (va + pages_bytes (int d))"
  proof (cases "Suc i < 512")
    case True then show ?thesis using a e by simp
  next
    case False
    then have "Suc i = 512" using i5 by linarith
    then show ?thesis using e by (simp add: mult.commute)
  qed
  show "Suc i < 512 \<Longrightarrow> Suc i = pos n (va + pages_bytes (int d)) div 512 ^ n" using a by simp
qed


lemma walk_tail_done:
  fixes s :: "'a mm_scheme"
  assumes n: "n < 2" and pre: "walk_pre cfg (Suc n) t s" and i: "pos (Suc n) va div 512 ^ Suc n = i" "valid (mem s) t i" and k: "0 < k"
    and child: "\<And>c (s :: 'a mm_scheme). walk_pre cfg n c s \<Longrightarrow> \<exists>ret d P s'.
      vm_walk_loop cfg (2 - n) (SV39_Index2Id va (2 - n)) c va pa fl (int k) s = Some (ret, int (k - d), s') \<and>
      walk_done cfg n c (pos n va) pa fl k ret d P s s'"
    and rest: "\<And>va pa k (s :: 'a mm_scheme). walk_pre cfg (Suc n) t s \<Longrightarrow> 0 < k \<Longrightarrow>
      (Suc i < 512 \<Longrightarrow> Suc i = pos (Suc n) va div 512 ^ Suc n) \<Longrightarrow> \<exists>ret d P s'.
      vm_walk_loop cfg (2 - Suc n) (Suc i) t va pa fl (int k) s = Some (ret, int (k - d), s') \<and>
      walk_done cfg (Suc n) t (upos (Suc n) (Suc i) va) pa fl k ret d P s s'"
  shows "\<exists>ret d P s'. walk_tail cfg (2 - Suc n) i t (nxt cfg (mem s) t i) va pa fl (int k) s = Some (ret, int (k - d), s') \<and>
      walk_done cfg (Suc n) t (pos (Suc n) va) pa fl k ret d P s s'"
proof -
  let ?c = "nxt cfg (mem s) t i"
  have ix: "Suc (2 - Suc n) = 2 - n" using n by linarith
  have i5: "i < 512" using next_pos(3) [of "Suc n" va i] n i(1) by simp
  obtain ret d P s1 where r: "vm_walk_loop cfg (2 - n) (SV39_Index2Id va (2 - n)) ?c va pa fl (int k) s = Some (ret, int (k - d), s1)"
    "walk_done cfg n ?c (pos n va) pa fl k ret d P s s1" using child [OF walk_pre_child [OF pre i5 i(2)]] by blast
  note w = r(2) [unfolded pos_child [of n]]
  have dk: "d \<le> k" using w by (simp add: walk_done_def)
  show ?thesis
  proof (cases "ret \<noteq> 0 \<or> d = k")
    case True
    have "walk_tail cfg (2 - Suc n) i t ?c va pa fl (int k) s = Some (ret, int (k - d), s1)"
      unfolding walk_tail_def ix r(1) using True by auto
    then show ?thesis using walk_done_lift [OF pre i5 i(2,1) w True] by blast
  next
    case False
    then have z: "ret = 0" "d < k" using dk by simp_all
    have dd: "int k - int (k - d) = int d" using dk by simp
    let ?va = "va + pages_bytes (int d)" and ?pa = "pa + pages_bytes (int d)"
    have d: "d = 512 ^ Suc n - pos (Suc n) va mod 512 ^ Suc n" using w z by (simp add: walk_done_def del: power_Suc)
    have n2: "Suc n \<le> 2" using n by simp
    note np = next_pos [OF n2 i(1) d]
    note p = walk_post_lift [OF pre i5 i(2,1) walk_done_post [OF w]]
    obtain ret' e Q s2 where r2: "vm_walk_loop cfg (2 - Suc n) (Suc i) t ?va ?pa fl (int (k - d)) s1 = Some (ret', int (k - d - e), s2)"
      "walk_done cfg (Suc n) t (pos (Suc n) va + d) ?pa fl (k - d) ret' e Q s1 s2"
      using rest [OF walk_post_pre [OF pre p], of "k - d" ?va ?pa] np(2) z(2) unfolding np(1) by (auto simp del: power_Suc)
    have "walk_tail cfg (2 - Suc n) i t ?c va pa fl (int k) s = Some (ret', int (k - (d + e)), s2)"
      unfolding walk_tail_def ix r(1) using r2(1) z by (simp add: dd)
    then show ?thesis using walk_done_trans [OF pre p dk r2(2)] by blast
  qed
qed


lemma walk_node:
  fixes s :: "'a mm_scheme"
  assumes n: "n < 2" and k: "0 < k" and pre: "walk_pre cfg (Suc n) t s" and idx: "idx \<le> 512" "idx < 512 \<Longrightarrow> idx = pos (Suc n) va div 512 ^ Suc n"
    and child: "\<And>c va pa k (s :: 'a mm_scheme). walk_pre cfg n c s \<Longrightarrow> 0 < k \<Longrightarrow> \<exists>ret d P s'.
      vm_walk_loop cfg (2 - n) (SV39_Index2Id va (2 - n)) c va pa fl (int k) s = Some (ret, int (k - d), s') \<and>
      walk_done cfg n c (pos n va) pa fl k ret d P s s'"
  shows "\<exists>ret d P s'. vm_walk_loop cfg (2 - Suc n) idx t va pa fl (int k) s = Some (ret, int (k - d), s') \<and>
      walk_done cfg (Suc n) t (upos (Suc n) idx va) pa fl k ret d P s s'"
  using k pre idx
proof (induction "512 - idx" arbitrary: idx va pa k s)
  case 0
  then have "idx = 512" by simp
  then show ?case
    using walk_end [of cfg "2 - Suc n" t va pa fl "int k" s] walk_post_refl [OF 0(3), of "512 ^ Suc (Suc n)" pa fl]
    by (intro exI [of _ 0] exI [of _ "{}"] exI [of _ s]) (simp add: walk_done_def)
next
  case (Suc x)
  have i: "idx < 512" and x: "x = 512 - Suc idx" using Suc(2) by linarith+
  have ix: "2 - Suc n < 2" by simp
  have ii: "pos (Suc n) va div 512 ^ Suc n = idx" using Suc(6) [OF i] by simp
  note pre = Suc(4)
  have rest: "\<exists>ret d P s'. vm_walk_loop cfg (2 - Suc n) (Suc idx) t va pa fl (int k) s = Some (ret, int (k - d), s') \<and>
      walk_done cfg (Suc n) t (upos (Suc n) (Suc idx) va) pa fl k ret d P s s'"
    if "walk_pre cfg (Suc n) t s" "0 < k" "Suc idx < 512 \<Longrightarrow> Suc idx = pos (Suc n) va div 512 ^ Suc n" for va pa k and s :: "'a mm_scheme"
    by (rule Suc(1) [OF x that(2,1)]) (use i that(3) in auto)
  note tail = walk_tail_done [OF n _ ii _ Suc(3) child [OF _ Suc(3)] rest]
  have up: "upos (Suc n) idx va = pos (Suc n) va" using i by simp
  show ?case
  proof (cases "valid (mem s) t idx")
    case True
    note c = pt_wf_child(1,2) [OF walk_preD(3) [OF pre] i True]
    show ?thesis unfolding walk_node_old [OF i ix c(1) pt_wf_aligned [OF c(2)]] up by (rule tail [OF pre True])
  next
    case False
    have le: "pos (Suc n) va \<le> 512 ^ Suc (Suc n)" using pos_less [of "Suc n" va] by simp
    consider "bk_alloc_zero cfg 0 s = Some (0, s)" "free_pages s = {}"
      | p s1 where "bk_alloc_zero cfg 0 s = Some (pg2va cfg p, s1)" "p < PGFRAME_PAGE_NUMS cfg" "grown cfg {p} s s1"
        "same_but {pg2va cfg p} (mem s) (mem s1)" "\<forall>a. in_page (pg2va cfg p) a \<longrightarrow> mem s1 a = 0"
      using bk_alloc_zero_page [OF walk_preD(1,2) [OF pre]] by blast
    then show ?thesis
    proof cases
      case 1
      have "walk_done cfg (Suc n) t (pos (Suc n) va) pa fl k (- ENOMEM) 0 {} s s"
        using walk_post_refl [OF pre le, of pa fl] 1(2) Suc(3) pos_less [of "Suc n" va] by (simp add: walk_done_def ENOMEM_def)
      moreover have "vm_walk_loop cfg (2 - Suc n) idx t va pa fl (int k) s = Some (- ENOMEM, int (k - 0), s)"
        unfolding walk_node_new(1) [OF i ix False 1(1)] by simp
      ultimately show ?thesis unfolding up by blast
    next
      case 2
      let ?s = "set_pte t idx (SV39_Pa2PTE (va2pa cfg (pg2va cfg p)) VM_PROT_V) s1"
      note pa = page_addr [OF mm_inv_wf [OF walk_preD(1) [OF pre]] walk_preD(2) [OF pre] 2(2)]
      note w = walk_post_new [OF pre i False le 2(2-5)]
      obtain ret d Q s' where r: "walk_tail cfg (2 - Suc n) idx t (pg2va cfg p) va pa fl (int k) ?s = Some (ret, int (k - d), s')"
        "walk_done cfg (Suc n) t (pos (Suc n) va) pa fl k ret d Q ?s s'"
        using tail [OF walk_post_pre [OF pre w(1) [of pa fl]] w(2)] unfolding w(3) by blast
      have "pages_bytes (int 0) = 0" by (simp add: pages_bytes_def)
      then have "walk_done cfg (Suc n) t (pos (Suc n) va) pa fl k ret d ({p} \<union> Q) s s'"
        using walk_done_trans [OF pre w(1) [of pa fl], of k ret d Q s'] r(2) by (simp del: insert_is_Un)
      then show ?thesis unfolding up walk_node_new(2) [OF i ix False 2(1) pa(1-3)] r(1) by blast
    qed
  qed
qed

text \<open>The walk from any level: it always returns, and \<open>walk_done\<close> says with what.\<close>

lemma walk_correct:
  assumes "walk_pre cfg n t s" "PTE_VALID fl" "0 < k" "n \<le> 2"
  shows "\<exists>ret d P s'. vm_walk_loop cfg (2 - n) (SV39_Index2Id va (2 - n)) t va pa fl (int k) s = Some (ret, int (k - d), s') \<and>
      walk_done cfg n t (pos n va) pa fl k ret d P s s'"
  using assms
proof (induction n arbitrary: t va pa k s)
  case 0
  then show ?case using walk_leaf [OF 0(1-3), of "pos 0 va" va pa] pos_less [of 0 va] pos_Index2Id [of 0 va] by auto
next
  case (Suc n)
  have i: "SV39_Index2Id va (2 - Suc n) = pos (Suc n) va div 512 ^ Suc n" using pos_Index2Id Suc(5) by blast
  then have i5: "SV39_Index2Id va (2 - Suc n) < 512" using next_pos(3) [OF Suc(5)] by simp
  have n: "n < 2" "n \<le> 2" using Suc(5) by simp_all
  note w = walk_node [where pa = pa and va = va, OF n(1) Suc(4,2) less_imp_le [OF i5] i Suc.IH [OF _ Suc(3) _ n(2)]]
  show ?case using w unfolding if_P [OF i5] .
qed

end
