(* ===== verification/Sv39Unmap.thy ===== *)
theory Sv39Unmap
  imports Sv39Loop
begin

unbundle bit_operations_syntax

text \<open>
  Clearing entries and giving tables back: \<open>unmap_post\<close> says that the mappings of the positions \<open>V\<close> of a table are gone, that
  the pages \<open>Q\<close> of tables below it are free again, and that nothing else has changed.
\<close>

subsection \<open>Giving pages back\<close>

definition shrunk :: "pgfm_cfg \<Rightarrow> nat set \<Rightarrow> 'a mm_scheme \<Rightarrow> 'a mm_scheme \<Rightarrow> bool" where
  "shrunk cfg Q s s' \<longleftrightarrow> mm_inv cfg s' \<and> Q \<subseteq> table_ids s \<and> free_pages s' = free_pages s \<union> Q \<and>
     mm_used s' = mm_used s - Q \<times> {0} \<and> owners (pgframe_pages s') = owners (pgframe_pages s) \<and>
     held s' = held s \<and> mm.more s' = mm.more s"

lemma shrunkD:
  assumes "shrunk cfg Q s s'"
  shows "mm_inv cfg s'" "Q \<subseteq> table_ids s" "free_pages s' = free_pages s \<union> Q" "mm_used s' = mm_used s - Q \<times> {0}"
    "owners (pgframe_pages s') = owners (pgframe_pages s)" "held s' = held s" "mm.more s' = mm.more s"
  using assms unfolding shrunk_def by blast+

lemma shrunk_refl: "mm_inv cfg s \<Longrightarrow> shrunk cfg {} s s"
  by (simp add: shrunk_def)

lemma shrunk_set_pte: "shrunk cfg Q s (set_pte t i e s') = shrunk cfg Q s s'" "shrunk cfg Q (set_pte t i e s) s' = shrunk cfg Q s s'"
  by (simp_all add: shrunk_def set_pte_def table_ids_def)

lemma table_id_less: "mm_inv cfg s \<Longrightarrow> p \<in> table_ids s \<Longrightarrow> p < PGFRAME_PAGE_NUMS cfg"
  using used_page unfolding table_ids_def by blast

lemma shrunk_table_ids:
  assumes "mm_inv cfg s" "shrunk cfg Q s s'"
  shows "table_ids s' = table_ids s - Q"
proof (rule set_eqI)
  fix p
  have "is_buddy_page p s' = is_buddy_page p s" if "(p, 0) \<in> mm_used s"
    using is_buddy_owners [of s' s p] used_page [OF assms(1) that] mm_inv_length [OF assms(1)] shrunkD(5) [OF assms(2)] by simp
  then show "p \<in> table_ids s' \<longleftrightarrow> p \<in> table_ids s - Q" unfolding table_ids_def shrunkD(4) [OF assms(2)] by auto
qed

lemma shrunk_tables:
  assumes "mm_inv cfg s" "shrunk cfg Q s s'"
  shows "tables cfg s' = tables cfg s - pg2va cfg ` Q"
proof -
  have "inj_on (pg2va cfg) (table_ids s)"
    using pg2va_inj [OF mm_inv_wf [OF assms(1)]] table_id_less [OF assms(1)] by (meson inj_onI)
  then show ?thesis
    unfolding tables_def shrunk_table_ids [OF assms] using inj_on_image_set_diff shrunkD(2) [OF assms(2)] by blast
qed

lemma shrunk_trans:
  assumes "mm_inv cfg s" "shrunk cfg Q s s1" "shrunk cfg R s1 s2"
  shows "shrunk cfg (Q \<union> R) s s2"
proof -
  have "R \<subseteq> table_ids s" using shrunkD(2) [OF assms(3)] shrunk_table_ids [OF assms(1,2)] by blast
  then show ?thesis
    using shrunkD [OF assms(2)] shrunkD [OF assms(3)] unfolding shrunk_def by (auto simp: Un_assoc)
qed

lemma bk_free_page:
  assumes "mm_inv cfg s" "sv_cfg cfg" "p \<in> table_ids s"
  shows "\<exists>s'. bk_free cfg (pg2va cfg p) s = Some s' \<and> shrunk cfg {p} s s' \<and> mem s' = mem s"
proof -
  note wf = mm_inv_wf [OF assms(1)] and p = table_id_less [OF assms(1,3)]
  have u: "(p, 0) \<in> mm_used s" "is_buddy_page p s" using assms(3) by (simp_all add: table_ids_def)
  obtain t where t: "bkp_free cfg (Some p) s = Some t" "mm_inv cfg t" "mm_frame s t" "mm_used t = mm_used s - {(p, 0)}"
    "free_pages t = free_pages s \<union> {p}" using bkp_free_post [OF assms(1) u] by auto
  have va: "unat (pg2va cfg p) = unat (PGFRAME_VA_START cfg) + p * 4096" using wf p by (rule unat_pg2va)
  then have vv: "va_valid cfg (pg2va cfg p)" using p by (simp add: va_valid_iff [OF wf])
  have "va2pg cfg (pg2va cfg p) = Some p" using va2pg_of_offset [OF wf, of "pg2va cfg p" p 0] va p by simp
  then have "bk_free cfg (pg2va cfg p) s = Some t"
    using t(1) page_addr(1) [OF wf assms(2) p] vv by (simp add: bk_free_def)
  moreover have "shrunk cfg {p} s t" using t assms(3) by (simp add: shrunk_def mm_frame_def)
  ultimately show ?thesis using t(3) mm_frameD(2) by blast
qed


subsection \<open>The effect of unmapping\<close>

definition unmap_post :: "pgfm_cfg \<Rightarrow> nat \<Rightarrow> u64 \<Rightarrow> nat set \<Rightarrow> nat set \<Rightarrow> 'a mm_scheme \<Rightarrow> 'a mm_scheme \<Rightarrow> bool" where
  "unmap_post cfg n t V Q s s' \<longleftrightarrow> shrunk cfg Q s s' \<and> pt_wf cfg (mem s') n t \<and> pg2va cfg ` Q \<subseteq> pt_pages cfg (mem s) n t - {t} \<and>
     pt_pages cfg (mem s') n t = pt_pages cfg (mem s) n t - pg2va cfg ` Q \<and>
     same_but (pt_pages cfg (mem s) n t) (mem s) (mem s') \<and>
     (\<forall>v < 512 ^ Suc n. pt_map cfg (mem s') n t v = (if v \<in> V then None else pt_map cfg (mem s) n t v)) \<and>
     (\<forall>i < 512. valid (mem s') t i \<longrightarrow> valid (mem s) t i)"

lemma unmap_postD:
  assumes "unmap_post cfg n t V Q s s'"
  shows "shrunk cfg Q s s'" "pt_wf cfg (mem s') n t" "pg2va cfg ` Q \<subseteq> pt_pages cfg (mem s) n t - {t}"
    "pt_pages cfg (mem s') n t = pt_pages cfg (mem s) n t - pg2va cfg ` Q"
    "same_but (pt_pages cfg (mem s) n t) (mem s) (mem s')"
    "v < 512 ^ Suc n \<Longrightarrow> pt_map cfg (mem s') n t v = (if v \<in> V then None else pt_map cfg (mem s) n t v)"
    "i < 512 \<Longrightarrow> valid (mem s') t i \<Longrightarrow> valid (mem s) t i"
  using assms unfolding unmap_post_def by blast+

lemma unmap_post_refl: "walk_pre cfg n t s \<Longrightarrow> unmap_post cfg n t {} {} s s"
  by (simp add: unmap_post_def walk_pre_def shrunk_refl)

lemma unmap_post_pre: "walk_pre cfg n t s \<Longrightarrow> unmap_post cfg n t V Q s s' \<Longrightarrow> walk_pre cfg n t s'"
proof -
  assume p: "walk_pre cfg n t s" and q: "unmap_post cfg n t V Q s s'"
  show ?thesis
    using walk_preD [OF p] unmap_postD(2,4) [OF q] shrunkD(1) [OF unmap_postD(1) [OF q]]
      shrunk_tables [OF walk_preD(1) [OF p] unmap_postD(1) [OF q]]
    unfolding walk_pre_def by blast
qed

lemma unmap_post_trans:
  assumes pre: "walk_pre cfg n t s" and a: "unmap_post cfg n t V Q s s1" and b: "unmap_post cfg n t W R s1 s2"
  shows "unmap_post cfg n t (V \<union> W) (Q \<union> R) s s2"
  unfolding unmap_post_def
proof (intro conjI allI impI)
  show "shrunk cfg (Q \<union> R) s s2" using shrunk_trans [OF walk_preD(1) [OF pre] unmap_postD(1) [OF a] unmap_postD(1) [OF b]] .
  show "pt_wf cfg (mem s2) n t" by (rule unmap_postD(2) [OF b])
  show "pg2va cfg ` (Q \<union> R) \<subseteq> pt_pages cfg (mem s) n t - {t}"
    using unmap_postD(3) [OF a] unmap_postD(3) [OF b] unmap_postD(4) [OF a] unfolding image_Un by blast
  show "pt_pages cfg (mem s2) n t = pt_pages cfg (mem s) n t - pg2va cfg ` (Q \<union> R)"
    using unmap_postD(4) [OF a] unmap_postD(4) [OF b] unfolding image_Un by blast
  show "same_but (pt_pages cfg (mem s) n t) (mem s) (mem s2)"
    using same_but_trans [OF unmap_postD(5) [OF a] unmap_postD(5) [OF b]] unfolding unmap_postD(4) [OF a]
    by (rule same_but_mono) blast
next
  fix v :: nat assume "v < 512 ^ Suc n"
  then show "pt_map cfg (mem s2) n t v = (if v \<in> V \<union> W then None else pt_map cfg (mem s) n t v)"
    using unmap_postD(6) [OF a] unmap_postD(6) [OF b] by auto
next
  fix i :: nat assume "i < 512" "valid (mem s2) t i"
  then show "valid (mem s) t i" using unmap_postD(7) [OF a] unmap_postD(7) [OF b] by blast
qed

text \<open>A change below one entry.\<close>

lemma unmap_post_lift:
  assumes pre: "walk_pre cfg (Suc n) t s" and i: "i < 512" "valid (mem s) t i"
    and w: "unmap_post cfg n (nxt cfg (mem s) t i) V Q s s'"
  shows "unmap_post cfg (Suc n) t {v. v div 512 ^ Suc n = i \<and> v mod 512 ^ Suc n \<in> V} Q s s'"
    "j < 512 \<Longrightarrow> pte (mem s') t j = pte (mem s) t j"
proof -
  let ?c = "nxt cfg (mem s) t i"
  note wf = walk_preD(3) [OF pre]
  have sb: "same_but (pt_pages cfg (mem s) n ?c \<union> {}) (mem s) (mem s')" using unmap_postD(5) [OF w] by simp
  have sub: "pt_pages cfg (mem s') n ?c \<subseteq> pt_pages cfg (mem s) n ?c \<union> {}" using unmap_postD(4) [OF w] by blast
  have e: "\<forall>u \<in> {}. aligned u" by simp
  note ch = pt_child_change [OF wf i sb e Int_empty_left unmap_postD(2) [OF w] sub]
  note cp = child_pages [OF i, of cfg n]
  have q: "pg2va cfg ` Q \<subseteq> pt_pages cfg (mem s) n ?c" using unmap_postD(3) [OF w] by blast
  show "j < 512 \<Longrightarrow> pte (mem s') t j = pte (mem s) t j" by (rule ch(1))
  show "unmap_post cfg (Suc n) t {v. v div 512 ^ Suc n = i \<and> v mod 512 ^ Suc n \<in> V} Q s s'"
    unfolding unmap_post_def
  proof (intro conjI allI impI)
    show "shrunk cfg Q s s'" by (rule unmap_postD(1) [OF w])
    show "pt_wf cfg (mem s') (Suc n) t" by (rule ch(2))
    show "pg2va cfg ` Q \<subseteq> pt_pages cfg (mem s) (Suc n) t - {t}" using q cp pt_wf_child(3) [OF wf i] by blast
    show "pt_pages cfg (mem s') (Suc n) t = pt_pages cfg (mem s) (Suc n) t - pg2va cfg ` Q"
      unfolding ch(3) unmap_postD(4) [OF w] using q cp by blast
    show "same_but (pt_pages cfg (mem s) (Suc n) t) (mem s) (mem s')" by (rule same_but_mono [OF unmap_postD(5) [OF w] cp])
  next
    fix v :: nat assume v: "v < 512 ^ Suc (Suc n)"
    have m: "v mod 512 ^ Suc n < 512 ^ Suc n" by simp
    have "pt_map cfg (mem s) (Suc n) t v = pt_map cfg (mem s) n ?c (v mod 512 ^ Suc n)" if "v div 512 ^ Suc n = i"
      using pt_map_in [of "mem s" t v n cfg] i(2) unfolding that by blast
    then show "pt_map cfg (mem s') (Suc n) t v = (if v \<in> {v. v div 512 ^ Suc n = i \<and> v mod 512 ^ Suc n \<in> V} then None else pt_map cfg (mem s) (Suc n) t v)"
      unfolding ch(4) [OF v] unmap_postD(6) [OF w m] by auto
  next
    fix j :: nat assume "j < 512" "valid (mem s') t j"
    then show "valid (mem s) t j" using ch(1) by simp
  qed
qed


subsection \<open>Clearing an entry\<close>

lemma unmap_post_leaf:
  assumes pre: "walk_pre cfg 0 t s" and u: "u < 512"
  shows "unmap_post cfg 0 t {u} {} s (set_pte t u 0 s)"
proof -
  let ?s = "set_pte t u 0 s"
  have "same_but {t} (mem s) (mem ?s)" unfolding mem_set_pte by (rule store_pte_same_but [OF u])
  moreover have "pt_map cfg (mem ?s) 0 t v = (if v \<in> {u} then None else pt_map cfg (mem s) 0 t v)"
    "valid (mem ?s) t v \<Longrightarrow> valid (mem s) t v" if "v < 512" for v
    using pte_set_pte [OF u that, of t 0 s] by (cases "v = u"; simp)+
  ultimately show ?thesis
    using pre shrunk_refl [of cfg s] unfolding unmap_post_def walk_pre_def by (simp add: shrunk_set_pte)
qed

lemma pt_drop_child:
  assumes wf: "pt_wf cfg m (Suc n) t" and i: "i < 512" "valid m t i" "pt_pages cfg m n (nxt cfg m t i) = {c}"
    and ch: "same_but {t} m m'" "\<And>j. j < 512 \<Longrightarrow> j \<noteq> i \<Longrightarrow> pte m' t j = pte m t j" "\<not> valid m' t i"
  shows "pt_wf cfg m' (Suc n) t" "pt_pages cfg m' (Suc n) t = pt_pages cfg m (Suc n) t - {c}"
    "v < 512 ^ Suc (Suc n) \<Longrightarrow> pt_map cfg m' (Suc n) t v = (if v div 512 ^ Suc n = i then None else pt_map cfg m (Suc n) t v)"
proof -
  have t: "aligned t" using pt_wf_aligned [OF wf] .
  have ap: "pt_pages cfg m n (nxt cfg m t j) \<inter> {t} = {}" if "j < 512" "valid m t j" for j
    using pt_wf_child(3) [OF wf that] by blast
  have al: "\<forall>u \<in> {t}. aligned u" using t by simp
  note fr = pt_frame [OF ch(1) al pt_wf_child(2) [OF wf] ap]
  have v': "valid m' t j \<longleftrightarrow> j \<noteq> i \<and> valid m t j" if "j < 512" for j using ch(2) [OF that] ch(3) by (cases "j = i") auto
  have kid: "pt_pages cfg m' n (nxt cfg m' t j) = pt_pages cfg m n (nxt cfg m t j)" "pt_wf cfg m' n (nxt cfg m' t j)"
    "nxt cfg m' t j = nxt cfg m t j" if "j < 512" "j \<noteq> i" "valid m t j" for j
  proof -
    show nx: "nxt cfg m' t j = nxt cfg m t j" using ch(2) [OF that(1,2)] by (simp add: nxt_def)
    show "pt_pages cfg m' n (nxt cfg m' t j) = pt_pages cfg m n (nxt cfg m t j)" "pt_wf cfg m' n (nxt cfg m' t j)"
      unfolding nx by (rule fr(1,2) [OF that(1,3) that(1,3)])+
  qed
  have w1: "PTE_NEXTPGT (pte m' t j) \<and> pt_wf cfg m' n (nxt cfg m' t j) \<and> t \<notin> pt_pages cfg m' n (nxt cfg m' t j)"
    if "j < 512" "valid m' t j" for j
  proof -
    have v: "j \<noteq> i" "valid m t j" using v' that by blast+
    show ?thesis using pt_wf_child [OF wf that(1) v(2)] kid [OF that(1) v] ch(2) [OF that(1) v(1)] by simp
  qed
  have w2: "pt_pages cfg m' n (nxt cfg m' t j) \<inter> pt_pages cfg m' n (nxt cfg m' t k) = {}"
    if "j < 512" "k < 512" "j \<noteq> k" "valid m' t j" "valid m' t k" for j k
    using kid(1) [OF that(1)] kid(1) [OF that(2)] v' [OF that(1)] v' [OF that(2)] pt_wf_apart [OF wf that(1) _ that(2) _ that(3)] that(4,5) by auto
  show "pt_wf cfg m' (Suc n) t" using t w1 w2 by simp
  have cc: "c \<in> pt_pages cfg m n (nxt cfg m t i)" using i(3) by simp
  have "u \<in> pt_pages cfg m' (Suc n) t \<longleftrightarrow> u \<in> pt_pages cfg m (Suc n) t - {c}" for u
  proof -
    have ct: "c \<noteq> t" using ap [OF i(1,2)] cc by blast
    have cj: "c \<notin> pt_pages cfg m n (nxt cfg m t j)" if "j < 512" "j \<noteq> i" "valid m t j" for j
      using pt_wf_apart [OF wf that(1,3) i(1,2) that(2)] cc by blast
    have "u \<in> pt_pages cfg m' (Suc n) t \<longleftrightarrow> u = t \<or> (\<exists>j < 512. valid m' t j \<and> u \<in> pt_pages cfg m' n (nxt cfg m' t j))" by auto
    also have "\<dots> \<longleftrightarrow> u = t \<or> (\<exists>j < 512. j \<noteq> i \<and> valid m t j \<and> u \<in> pt_pages cfg m n (nxt cfg m t j))"
      using kid(1) v' by metis
    also have "\<dots> \<longleftrightarrow> (u = t \<or> (\<exists>j < 512. valid m t j \<and> u \<in> pt_pages cfg m n (nxt cfg m t j))) \<and> u \<noteq> c"
      using ct cj i by (metis singletonD)
    also have "\<dots> \<longleftrightarrow> u \<in> pt_pages cfg m (Suc n) t - {c}" by auto
    finally show ?thesis .
  qed
  then show "pt_pages cfg m' (Suc n) t = pt_pages cfg m (Suc n) t - {c}" by (rule set_eqI)
  { assume v: "v < 512 ^ Suc (Suc n)"
    let ?j = "v div 512 ^ Suc n"
    have d: "?j < 512" using v by (simp add: less_mult_imp_div_less)
    have r: "v mod 512 ^ Suc n < 512 ^ Suc n" by simp
    show "pt_map cfg m' (Suc n) t v = (if ?j = i then None else pt_map cfg m (Suc n) t v)"
    proof (cases "?j = i \<or> \<not> valid m t ?j")
      case True
      then show ?thesis using v' [OF d] by (auto simp: Let_def simp del: power_Suc)
    next
      case False
      then show ?thesis using v' [OF d] kid(3) [OF d] fr(3) [OF d _ d _ r] by (simp add: Let_def del: power_Suc)
    qed }
qed

lemma unmap_post_drop:
  assumes pre: "walk_pre cfg (Suc n) t s" and i: "i < 512" "valid (mem s) t i" "pt_pages cfg (mem s) n (nxt cfg (mem s) t i) = {nxt cfg (mem s) t i}"
  shows "\<exists>Q s'. bk_free cfg (nxt cfg (mem s) t i) (set_pte t i 0 s) = Some s' \<and>
    unmap_post cfg (Suc n) t {v. v div 512 ^ Suc n = i} Q s s' \<and> \<not> valid (mem s') t i"
proof -
  let ?c = "nxt cfg (mem s) t i" and ?s = "set_pte t i 0 s"
  note inv = walk_preD(1) [OF pre] and wf = walk_preD(3) [OF pre]
  have c: "?c \<in> pt_pages cfg (mem s) (Suc n) t" using subsetD [OF child_pages [OF i(1,2), of cfg n] root_in_pages] .
  then obtain p where p: "?c = pg2va cfg p" "p \<in> table_ids s" using walk_preD(4) [OF pre] by (auto simp: tables_def)
  have inv1: "mm_inv cfg ?s" and p1: "p \<in> table_ids ?s" using inv p(2) by (simp_all add: set_pte_def table_ids_def)
  obtain s' where s': "bk_free cfg (pg2va cfg p) ?s = Some s'" "shrunk cfg {p} ?s s'" "mem s' = mem ?s"
    using bk_free_page [OF inv1 walk_preD(2) [OF pre] p1] by blast
  have sb: "same_but {t} (mem s) (mem s')" unfolding s'(3) mem_set_pte by (rule store_pte_same_but [OF i(1)])
  have e: "pte (mem s') t j = (if j = i then 0 else pte (mem s) t j)" if "j < 512" for j
    unfolding s'(3) by (rule pte_set_pte [OF i(1) that])
  then have nv: "\<not> valid (mem s') t i" using i(1) by simp
  have ej: "pte (mem s') t j = pte (mem s) t j" if "j < 512" "j \<noteq> i" for j using e [OF that(1)] that(2) by simp
  have d: "pt_wf cfg (mem s') (Suc n) t" "pt_pages cfg (mem s') (Suc n) t = pt_pages cfg (mem s) (Suc n) t - {?c}"
    "\<And>v. v < 512 ^ Suc (Suc n) \<Longrightarrow> pt_map cfg (mem s') (Suc n) t v = (if v div 512 ^ Suc n = i then None else pt_map cfg (mem s) (Suc n) t v)"
    using pt_drop_child [OF wf i sb _ nv] ej by blast+
  have "unmap_post cfg (Suc n) t {v. v div 512 ^ Suc n = i} {p} s s'"
    unfolding unmap_post_def
  proof (intro conjI allI impI)
    show "shrunk cfg {p} s s'" using s'(2) by (simp add: shrunk_set_pte)
    show "pt_wf cfg (mem s') (Suc n) t" by (rule d(1))
    show "pg2va cfg ` {p} \<subseteq> pt_pages cfg (mem s) (Suc n) t - {t}" using c p(1) pt_wf_child(3) [OF wf i(1,2)] i(3) by simp
    show "pt_pages cfg (mem s') (Suc n) t = pt_pages cfg (mem s) (Suc n) t - pg2va cfg ` {p}" using d(2) p(1) by (simp del: pt_pages.simps)
    show "same_but (pt_pages cfg (mem s) (Suc n) t) (mem s) (mem s')" by (rule same_but_mono [OF sb]) simp
  next
    fix v :: nat assume v: "v < 512 ^ Suc (Suc n)"
    show "pt_map cfg (mem s') (Suc n) t v = (if v \<in> {v. v div 512 ^ Suc n = i} then None else pt_map cfg (mem s) (Suc n) t v)"
      unfolding d(3) [OF v] by simp
  next
    fix j :: nat assume "j < 512" "valid (mem s') t j"
    then show "valid (mem s) t j" using e by (cases "j = i") simp_all
  qed
  then show ?thesis using s'(1) nv unfolding p(1) by blast
qed

end
