(* ===== verification/Sv39UnmapLoop.thy ===== *)
theory Sv39UnmapLoop
  imports Sv39Unmap
begin

unbundle bit_operations_syntax

text \<open>
  The loop of \<^verbatim>\<open>riscv_unmap\<close> on a range that is mapped throughout: it clears exactly the range and gives back every table
  that the range covers.
\<close>

definition mapped :: "pgfm_cfg \<Rightarrow> nat \<Rightarrow> u64 \<Rightarrow> nat \<Rightarrow> nat \<Rightarrow> 'a mm_scheme \<Rightarrow> bool" where
  "mapped cfg n t u k s \<longleftrightarrow> (\<forall>v. u \<le> v \<and> v < u + k \<and> v < 512 ^ Suc n \<longrightarrow> pt_map cfg (mem s) n t v \<noteq> None)"

definition unmap_done :: "pgfm_cfg \<Rightarrow> nat \<Rightarrow> u64 \<Rightarrow> nat \<Rightarrow> nat \<Rightarrow> nat \<Rightarrow> nat set \<Rightarrow> 'a mm_scheme \<Rightarrow> 'a mm_scheme \<Rightarrow> bool" where
  "unmap_done cfg n t u k d Q s s' \<longleftrightarrow> d = min k (512 ^ Suc n - u) \<and> unmap_post cfg n t {u..<u + d} Q s s' \<and>
     (\<forall>i < 512. u \<le> i * 512 ^ n \<and> Suc i * 512 ^ n \<le> u + d \<longrightarrow> \<not> valid (mem s') t i)"

lemma unmap_doneD:
  assumes "unmap_done cfg n t u k d Q s s'"
  shows "d = min k (512 ^ Suc n - u)" "unmap_post cfg n t {u..<u + d} Q s s'"
    "i < 512 \<Longrightarrow> u \<le> i * 512 ^ n \<Longrightarrow> Suc i * 512 ^ n \<le> u + d \<Longrightarrow> \<not> valid (mem s') t i"
  using assms unfolding unmap_done_def by blast+

lemma unmap_done_end: "walk_pre cfg n t s \<Longrightarrow> unmap_done cfg n t (512 ^ Suc n) k 0 {} s s"
proof -
  assume p: "walk_pre cfg n t s"
  have "\<not> (512 ^ Suc n \<le> i * 512 ^ n)" if "i < 512" for i :: nat using that by simp
  then show ?thesis using unmap_post_refl [OF p] unfolding unmap_done_def by auto
qed

lemma unmap_end: "riscv_unmap_loop cfg index 512 t va pages s = Some (pages, s)"
  by (subst riscv_unmap_loop.simps) simp

subsection \<open>The last level\<close>

lemma unmap_leaf_step: "idx < 512 \<Longrightarrow> riscv_unmap_loop cfg 2 idx t va pages s =
  (if pages = 1 then Some (0, set_pte t idx 0 s) else riscv_unmap_loop cfg 2 (Suc idx) t va (pages - 1) (set_pte t idx 0 s))"
  by (subst riscv_unmap_loop.simps) (simp add: Let_def)

lemma unmap_leaf:
  assumes "walk_pre cfg 0 t s" "0 < k" "idx \<le> 512"
  shows "\<exists>d s'. riscv_unmap_loop cfg 2 idx t va (int k) s = Some (int (k - d), s') \<and> unmap_done cfg 0 t idx k d {} s s'"
  using assms
proof (induction "512 - idx" arbitrary: idx k s)
  case 0
  then have "idx = 512" by simp
  then show ?case using unmap_done_end [OF 0(2), of k] unmap_end [of cfg 2 t va "int k" s] by (intro exI [of _ 0] exI [of _ s]) simp
next
  case (Suc x)
  have i: "idx < 512" and x: "x = 512 - Suc idx" using Suc(2) by linarith+
  let ?s = "set_pte t idx 0 s"
  note p = unmap_post_leaf [OF Suc(3) i]
  have nv: "\<not> valid (mem ?s) t idx" using pte_set_pte [OF i i, of t 0 s] by simp
  show ?case
  proof (cases "k = 1")
    case True
    have "unmap_done cfg 0 t idx k 1 {} s ?s"
      using p nv i True by (auto simp: unmap_done_def le_less_Suc_eq)
    then show ?thesis
      using unmap_leaf_step [OF i, of cfg t va "int k" s] True by (intro exI [of _ 1] exI [of _ ?s]) simp
  next
    case k: False
    obtain d s' where r: "riscv_unmap_loop cfg 2 (Suc idx) t va (int (k - 1)) ?s = Some (int (k - 1 - d), s')"
      "unmap_done cfg 0 t (Suc idx) (k - 1) d {} ?s s'"
      using Suc(1) [OF x unmap_post_pre [OF Suc(3) p], of "k - 1"] Suc(4) k i by auto
    have d: "1 + d = min k (512 ^ Suc 0 - idx)" using unmap_doneD(1) [OF r(2)] Suc(4) k i by simp
    have V: "{idx} \<union> {Suc idx..<Suc idx + d} = {idx..<idx + (1 + d)}" by auto
    have post: "unmap_post cfg 0 t {idx..<idx + (1 + d)} {} s s'"
      using unmap_post_trans [OF Suc(3) p unmap_doneD(2) [OF r(2)]] unfolding V by simp
    have cl: "\<not> valid (mem s') t j" if "j < 512" "idx \<le> j" "Suc j \<le> idx + (1 + d)" for j
      using unmap_doneD(3) [OF r(2), of j] unmap_postD(7) [OF unmap_doneD(2) [OF r(2)], of j] nv that by (cases "j = idx") auto
    have "unmap_done cfg 0 t idx k (1 + d) {} s s'" unfolding unmap_done_def using d post cl by simp
    moreover have k1: "int k - 1 = int (k - 1)" "int k \<noteq> 1" using Suc(4) k by simp_all
    have "riscv_unmap_loop cfg 2 idx t va (int k) s = Some (int (k - (1 + d)), s')"
      unfolding unmap_leaf_step [OF i] k1(1) if_not_P [OF k1(2)] r(1) by simp
    ultimately show ?thesis by blast
  qed
qed


subsection \<open>The upper levels\<close>

lemma unmap_node_step:
  assumes "idx < 512" "index < 2" "PTE_NEXTPGT (pte (mem s) t idx)" "aligned (nxt cfg (mem s) t idx)" "nxt cfg (mem s) t idx \<noteq> 0"
  shows "riscv_unmap_loop cfg index idx t va pages s = do {
    (pages', s1) \<leftarrow> riscv_unmap_loop cfg (Suc index) (SV39_Index2Id va (Suc index)) (nxt cfg (mem s) t idx) va pages s;
    s2 \<leftarrow> (if pages - pages' = SV39_INDEX_PAGES index then bk_free cfg (nxt cfg (mem s) t idx) (set_pte t idx 0 s1) else Some s1);
    if pages' = 0 then Some (pages', s2)
    else riscv_unmap_loop cfg index (Suc idx) t (va + pages_bytes (pages - pages')) pages' s2 }"
  using assms PTE2Pa_aligned unfolding nxt_def
  by (subst riscv_unmap_loop.simps) (simp add: get_pte_eq Let_def ASSERT_def)

lemma block_interval:
  assumes "u div N = i" "u mod N + d \<le> N" "0 < N"
  shows "{v. v div N = i \<and> v mod N \<in> {u mod N..<u mod N + d}} = {u..<u + (d :: nat)}"
proof (rule set_eqI)
  fix v
  have u: "u = N * i + u mod N" using assms(1) mult_div_mod_eq [of N u] by simp
  have v: "v = N * (v div N) + v mod N" by simp
  have b: "v div N = i" if "u \<le> v" "v < u + d" by (rule div_block) (use u assms(2) that in linarith)+
  have "u mod N \<le> v mod N \<longleftrightarrow> u \<le> v" "v mod N < u mod N + d \<longleftrightarrow> v < u + d" if "v div N = i"
    using u v [unfolded that] by linarith+
  then show "v \<in> {v. v div N = i \<and> v mod N \<in> {u mod N..<u mod N + d}} \<longleftrightarrow> v \<in> {u..<u + d}"
    using b by auto
qed

lemma no_children: "\<forall>i < 512. \<not> valid m t i \<Longrightarrow> pt_pages cfg m n t = {t}"
  by (cases n) auto

text \<open>The table below an entry is unmapped and, when the range covers it, given back.\<close>

lemma unmap_entry:
  assumes pre: "walk_pre cfg (Suc n) t s" and i: "i < 512" "valid (mem s) t i" "u div 512 ^ Suc n = i"
    and w: "unmap_done cfg n (nxt cfg (mem s) t i) (u mod 512 ^ Suc n) k d Q s s1"
  shows "\<exists>R s2. (if d = 512 ^ Suc n then bk_free cfg (nxt cfg (mem s) t i) (set_pte t i 0 s1) else Some s1) = Some s2 \<and>
    unmap_post cfg (Suc n) t {u..<u + d} R s s2 \<and> (d = 512 ^ Suc n \<longrightarrow> \<not> valid (mem s2) t i)"
proof -
  let ?N = "512 ^ Suc n :: nat" and ?c = "nxt cfg (mem s) t i"
  have N0: "0 < ?N" by simp
  have dN: "u mod ?N + d \<le> ?N" using unmap_doneD(1) [OF w] mod_less_divisor [OF N0, of u] by linarith
  note l = unmap_post_lift [OF pre i(1,2) unmap_doneD(2) [OF w]]
  note p = l(1) [unfolded block_interval [OF i(3) dN N0]]
  show ?thesis
  proof (cases "d = ?N")
    case False
    then show ?thesis using p by auto
  next
    case True
    have u0: "u mod ?N = 0" using dN True by linarith
    have e: "pte (mem s1) t i = pte (mem s) t i" using l(2) [OF i(1)] .
    then have nx: "nxt cfg (mem s1) t i = ?c" and v1: "valid (mem s1) t i" using i(2) by (simp_all add: nxt_def)
    have "\<not> valid (mem s1) ?c j" if "j < 512" for j
    proof -
      have "Suc j * 512 ^ n \<le> ?N" using that by (simp only: power_Suc) (intro mult_le_mono1, linarith)
      then show ?thesis using unmap_doneD(3) [OF w that] u0 True by simp
    qed
    then have "pt_pages cfg (mem s1) n (nxt cfg (mem s1) t i) = {nxt cfg (mem s1) t i}" unfolding nx by (intro no_children) blast
    from unmap_post_drop [OF unmap_post_pre [OF pre p] i(1) v1 this]
    obtain R s2 where r: "bk_free cfg ?c (set_pte t i 0 s1) = Some s2" "unmap_post cfg (Suc n) t {v. v div ?N = i} R s1 s2"
      "\<not> valid (mem s2) t i" unfolding nx by blast
    have "v \<in> {u..<u + d}" if "v div ?N = i" for v
      using that block_interval [OF i(3) dN N0] u0 True mod_less_divisor [OF N0, of v] by (auto simp del: power_Suc)
    then have "{u..<u + d} \<union> {v. v div ?N = i} = {u..<u + d}" by blast
    then have "unmap_post cfg (Suc n) t {u..<u + d} (Q \<union> R) s s2" using unmap_post_trans [OF pre p r(2)] by simp
    then show ?thesis using r(1,3) True by auto
  qed
qed


lemma mapped_child:
  assumes "mapped cfg (Suc n) t u k s" "0 < k" "u < 512 ^ Suc (Suc n)" "u div 512 ^ Suc n = i"
  shows "valid (mem s) t i" "mapped cfg n (nxt cfg (mem s) t i) (u mod 512 ^ Suc n) k s"
proof -
  let ?N = "512 ^ Suc n :: nat"
  have "pt_map cfg (mem s) (Suc n) t u \<noteq> None" using assms(1-3) unfolding mapped_def by auto
  then show va: "valid (mem s) t i" using pt_map_out [OF assms(3), of "mem s" t cfg, unfolded assms(4)] by (cases "valid (mem s) t i") simp_all
  have i5: "i < 512" using less_mult_imp_div_less [of u 512 ?N] assms(3) assms(4) unfolding power_Suc [of 512 "Suc n"] by simp
  have u: "u = ?N * i + u mod ?N" using assms(4) mult_div_mod_eq [of ?N u] by simp
  have top: "?N + ?N * i \<le> 512 ^ Suc (Suc n)"
    unfolding power_Suc [of 512 "Suc n"] mult_Suc_right [symmetric] using i5 by (subst mult.commute, intro mult_le_mono1) linarith
  show "mapped cfg n (nxt cfg (mem s) t i) (u mod ?N) k s"
    unfolding mapped_def
  proof (intro allI impI)
    fix v assume v: "u mod ?N \<le> v \<and> v < u mod ?N + k \<and> v < ?N"
    have d: "(?N * i + v) div ?N = i" using v by simp
    have m: "(?N * i + v) mod ?N = v" using v by simp
    have "u \<le> ?N * i + v" "?N * i + v < u + k" "?N * i + v < 512 ^ Suc (Suc n)" using u v top by linarith+
    then have "pt_map cfg (mem s) (Suc n) t (?N * i + v) \<noteq> None" using assms(1) unfolding mapped_def by blast
    then show "pt_map cfg (mem s) n (nxt cfg (mem s) t i) v \<noteq> None"
      using pt_map_in [of "mem s" t "?N * i + v" n cfg] va unfolding d m by simp
  qed
qed

lemma mapped_rest:
  assumes "mapped cfg n t u k s" "d \<le> k" "unmap_post cfg n t {u..<u + d} Q s s'"
  shows "mapped cfg n t (u + d) (k - d) s'"
  unfolding mapped_def
proof (intro allI impI)
  fix v assume v: "u + d \<le> v \<and> v < u + d + (k - d) \<and> v < 512 ^ Suc n"
  then have "pt_map cfg (mem s') n t v = pt_map cfg (mem s) n t v" using unmap_postD(6) [OF assms(3), of v] by simp
  then show "pt_map cfg (mem s') n t v \<noteq> None" using assms(1,2) v unfolding mapped_def by auto
qed

lemma unmap_done_trans:
  assumes pre: "walk_pre cfg n t s" and a: "unmap_post cfg n t {u..<u + d} Q s s1" "d = min k (512 ^ n - u mod 512 ^ n)"
      "d = 512 ^ n \<longrightarrow> \<not> valid (mem s1) t i"
    and u: "u div 512 ^ n = i" "u < 512 ^ Suc n" and b: "d = k \<and> s2 = s1 \<and> e = 0 \<and> R = {} \<or> unmap_done cfg n t (u + d) (k - d) e R s1 s2"
  shows "unmap_done cfg n t u k (d + e) (Q \<union> R) s s2"
proof -
  let ?N = "512 ^ n :: nat"
  have N0: "0 < ?N" by simp
  have i5: "i < 512" using less_mult_imp_div_less [of u 512 ?N] u by simp
  have ui: "u = ?N * i + u mod ?N" using u(1) mult_div_mod_eq [of ?N u] by simp
  have top: "?N + ?N * i \<le> 512 ^ Suc n"
    unfolding power_Suc mult_Suc_right [symmetric] using i5 by (subst mult.commute, intro mult_le_mono1) linarith
  have um: "u mod ?N < ?N" using N0 by (rule mod_less_divisor)
  have le: "u + d \<le> ?N + ?N * i" using a(2) ui um by linarith
  have post: "unmap_post cfg n t {u..<u + (d + e)} (Q \<union> R) s s2"
  proof (cases "d = k \<and> s2 = s1 \<and> e = 0 \<and> R = {}")
    case True then show ?thesis using a(1) by simp
  next
    case False
    then have "unmap_post cfg n t {u + d..<u + d + e} R s1 s2" using b unmap_doneD(2) by blast
    moreover have "{u..<u + d} \<union> {u + d..<u + d + e} = {u..<u + (d + e)}" by auto
    ultimately show ?thesis using unmap_post_trans [OF pre a(1), of "{u + d..<u + d + e}" R s2] by simp
  qed
  have mono: "valid (mem s1) t j" if "j < 512" "valid (mem s2) t j" for j
    using b that unmap_postD(7) [OF unmap_doneD(2)] by blast
  have "\<not> valid (mem s2) t j" if j: "j < 512" "u \<le> j * ?N" "Suc j * ?N \<le> u + (d + e)" for j
  proof (cases "j \<le> i")
    case True
    then have "j * ?N \<le> ?N * i" by (simp add: mult.commute)
    then have m0: "u mod ?N = 0" "j * ?N = ?N * i" using j(2) ui by linarith+
    then have "j = i" by (simp add: mult.commute)
    have "d = ?N"
    proof (rule ccontr)
      assume "d \<noteq> ?N"
      then have "d = k" "d < ?N" using a(2) m0(1) by linarith+
      moreover then have "e = 0" using b unmap_doneD(1) by fastforce
      ultimately show False using j(3) m0 ui by simp
    qed
    then show ?thesis using a(3) mono [OF j(1)] \<open>j = i\<close> by blast
  next
    case False
    then have "Suc i * ?N \<le> j * ?N" by (intro mult_le_mono1) linarith
    then have g: "u + d \<le> j * ?N" using le by (simp add: mult.commute)
    then have "0 < e" using j(3) N0 unfolding mult_Suc by linarith
    then have "unmap_done cfg n t (u + d) (k - d) e R s1 s2" using b by blast
    from unmap_doneD(3) [OF this j(1) g] j(3) show ?thesis by (simp add: add.assoc)
  qed
  moreover have "d + e = min k (512 ^ Suc n - u)"
  proof (cases "unmap_done cfg n t (u + d) (k - d) e R s1 s2")
    case True
    then show ?thesis using unmap_doneD(1) [OF True] a(2) le top by linarith
  next
    case False
    then have "d = k" "e = 0" using b by auto
    then show ?thesis using le top by linarith
  qed
  ultimately show ?thesis using post unfolding unmap_done_def by blast
qed


lemma table_not_zero: "walk_pre cfg n t s \<Longrightarrow> u \<in> pt_pages cfg (mem s) n t \<Longrightarrow> u \<noteq> 0"
proof -
  assume p: "walk_pre cfg n t s" and u: "u \<in> pt_pages cfg (mem s) n t"
  have "u \<in> tables cfg s" by (rule subsetD [OF walk_preD(4) [OF p] u])
  then obtain i where i: "u = pg2va cfg i" "i \<in> table_ids s" unfolding tables_def by (rule imageE)
  show ?thesis
    unfolding i(1) by (rule page_addr(1) [OF mm_inv_wf [OF walk_preD(1) [OF p]] walk_preD(2) [OF p] table_id_less [OF walk_preD(1) [OF p] i(2)]])
qed

lemma unmap_node:
  fixes s :: "'a mm_scheme"
  assumes n: "n < 2" and k: "0 < k" and pre: "walk_pre cfg (Suc n) t s" and mp: "mapped cfg (Suc n) t (upos (Suc n) idx va) k s"
    and idx: "idx \<le> 512" "idx < 512 \<Longrightarrow> idx = pos (Suc n) va div 512 ^ Suc n"
    and child: "\<And>c va k (s :: 'a mm_scheme). walk_pre cfg n c s \<Longrightarrow> 0 < k \<Longrightarrow> mapped cfg n c (pos n va) k s \<Longrightarrow> \<exists>d Q s'.
      riscv_unmap_loop cfg (2 - n) (SV39_Index2Id va (2 - n)) c va (int k) s = Some (int (k - d), s') \<and>
      unmap_done cfg n c (pos n va) k d Q s s'"
  shows "\<exists>d Q s'. riscv_unmap_loop cfg (2 - Suc n) idx t va (int k) s = Some (int (k - d), s') \<and>
      unmap_done cfg (Suc n) t (upos (Suc n) idx va) k d Q s s'"
  using k pre mp idx
proof (induction "512 - idx" arbitrary: idx va k s)
  case 0
  then have "idx = 512" by simp
  then show ?case
    using unmap_end [of cfg "2 - Suc n" t va "int k" s] unmap_done_end [OF 0(3), of k]
    by (intro exI [of _ 0] exI [of _ "{}"] exI [of _ s]) simp
next
  case (Suc x)
  let ?N = "512 ^ Suc n :: nat" and ?u = "pos (Suc n) va"
  have i: "idx < 512" and x: "x = 512 - Suc idx" using Suc(2) by linarith+
  have ix: "2 - Suc n < 2" "Suc (2 - Suc n) = 2 - n" "2 - (2 - Suc n) = Suc n" "2 - Suc n \<le> 2" "Suc n \<le> 2" using n by linarith+
  have ii: "?u div ?N = idx" using Suc(7) [OF i] by simp
  have up: "upos (Suc n) idx va = ?u" using i by simp
  note pre = Suc(4)
  have mp: "mapped cfg (Suc n) t ?u k s" using Suc(5) unfolding up .
  note mc = mapped_child [OF mp Suc(3) pos_less ii]
  let ?c = "nxt cfg (mem s) t idx"
  note c = pt_wf_child(1,2) [OF walk_preD(3) [OF pre] i mc(1)]
  have c0: "?c \<noteq> 0" by (rule table_not_zero [OF walk_pre_child [OF pre i mc(1)] root_in_pages])
  obtain d Q s1 where r: "riscv_unmap_loop cfg (2 - n) (SV39_Index2Id va (2 - n)) ?c va (int k) s = Some (int (k - d), s1)"
    "unmap_done cfg n ?c (?u mod ?N) k d Q s s1"
    using child [OF walk_pre_child [OF pre i mc(1)] Suc(3), of va] mc(2) unfolding pos_child [of n] by blast
  obtain R s2 where r2: "(if d = ?N then bk_free cfg ?c (set_pte t idx 0 s1) else Some s1) = Some s2"
    "unmap_post cfg (Suc n) t {?u..<?u + d} R s s2" "d = ?N \<longrightarrow> \<not> valid (mem s2) t idx"
    using unmap_entry [OF pre i mc(1) ii r(2)] by blast
  have d: "d = min k (?N - ?u mod ?N)" by (rule unmap_doneD(1) [OF r(2)])
  then have dk: "d \<le> k" "int k - int (k - d) = int d" by linarith+
  have fr: "(if int k - int (k - d) = SV39_INDEX_PAGES (2 - Suc n) then bk_free cfg ?c (set_pte t idx 0 s1) else Some s1) = Some s2"
    using r2(1) unfolding dk(2) INDEX_PAGES_val [OF ix(4)] ix(3) by (metis of_nat_eq_iff of_nat_numeral of_nat_power)
  note step = unmap_node_step [OF i ix(1) c(1) pt_wf_aligned [OF c(2)] c0, of va "int k", unfolded ix(2) r(1) bind.bind_lunit prod.case,
    unfolded fr bind.bind_lunit, unfolded dk(2)]
  note tr = unmap_done_trans [OF pre r2(2) d r2(3) ii pos_less]
  show ?case
  proof (cases "d = k")
    case True
    have "unmap_done cfg (Suc n) t ?u k (d + 0) (R \<union> {}) s s2" by (rule tr) (use True in simp)
    moreover have "riscv_unmap_loop cfg (2 - Suc n) idx t va (int k) s = Some (int (k - (d + 0)), s2)" unfolding step using True by simp
    ultimately show ?thesis unfolding up by blast
  next
    case False
    then have dd: "d = ?N - ?u mod ?N" and kd: "0 < k - d" "int (k - d) \<noteq> 0" using d by linarith+
    let ?va = "va + pages_bytes (int d)"
    note np = next_pos [OF ix(5) ii dd]
    have m2: "mapped cfg (Suc n) t (upos (Suc n) (Suc idx) ?va) (k - d) s2" unfolding np(1) [symmetric] by (rule mapped_rest [OF mp dk(1) r2(2)])
    have ih: "\<exists>e Q s'. riscv_unmap_loop cfg (2 - Suc n) (Suc idx) t ?va (int (k - d)) s2 = Some (int (k - d - e), s') \<and>
      unmap_done cfg (Suc n) t (upos (Suc n) (Suc idx) ?va) (k - d) e Q s2 s'"
      by (rule Suc(1) [OF x kd(1) unmap_post_pre [OF pre r2(2)] m2]) (use i np(2) in auto)
    then obtain e Q' s' where r3: "riscv_unmap_loop cfg (2 - Suc n) (Suc idx) t ?va (int (k - d)) s2 = Some (int (k - d - e), s')"
      "unmap_done cfg (Suc n) t (?u + d) (k - d) e Q' s2 s'" unfolding np(1) [symmetric] by blast
    have "unmap_done cfg (Suc n) t ?u k (d + e) (R \<union> Q') s s'" by (rule tr) (use r3(2) in blast)
    moreover have "riscv_unmap_loop cfg (2 - Suc n) idx t va (int k) s = Some (int (k - (d + e)), s')"
      unfolding step if_not_P [OF kd(2)] r3(1) by simp
    ultimately show ?thesis unfolding up by blast
  qed
qed

lemma unmap_correct:
  assumes "walk_pre cfg n t s" "mapped cfg n t (pos n va) k s" "0 < k" "n \<le> 2"
  shows "\<exists>d Q s'. riscv_unmap_loop cfg (2 - n) (SV39_Index2Id va (2 - n)) t va (int k) s = Some (int (k - d), s') \<and>
      unmap_done cfg n t (pos n va) k d Q s s'"
  using assms
proof (induction n arbitrary: t va k s)
  case 0
  then show ?case using unmap_leaf [OF 0(1,3), of "pos 0 va" va] pos_less [of 0 va] pos_Index2Id [of 0 va] by auto
next
  case (Suc n)
  have i: "SV39_Index2Id va (2 - Suc n) = pos (Suc n) va div 512 ^ Suc n" using pos_Index2Id Suc(5) by blast
  then have i5: "SV39_Index2Id va (2 - Suc n) < 512" using next_pos(3) [OF Suc(5)] by simp
  have n: "n < 2" "n \<le> 2" using Suc(5) by simp_all
  have mp: "mapped cfg (Suc n) t (upos (Suc n) (SV39_Index2Id va (2 - Suc n)) va) k s" using Suc(3) unfolding if_P [OF i5] .
  note w = unmap_node [OF n(1) Suc(4,2) mp less_imp_le [OF i5] i Suc.IH [OF _ _ _ n(2)]]
  show ?case using w unfolding if_P [OF i5] by blast
qed

end
