(* ===== verification/Sv39Free.thy ===== *)
theory Sv39Free
  imports Sv39UnmapLoop
begin

unbundle bit_operations_syntax

text \<open>
  \<^verbatim>\<open>riscv_free_pgtable\<close> empties a table: every entry becomes invalid and every table below it goes back to the allocator. It
  needs no assumption on what is mapped.
\<close>

definition free_done :: "pgfm_cfg \<Rightarrow> nat \<Rightarrow> u64 \<Rightarrow> nat \<Rightarrow> nat set \<Rightarrow> 'a mm_scheme \<Rightarrow> 'a mm_scheme \<Rightarrow> bool" where
  "free_done cfg n t i Q s s' \<longleftrightarrow> unmap_post cfg n t {v. i \<le> v div 512 ^ n} Q s s' \<and> (\<forall>j < 512. i \<le> j \<longrightarrow> \<not> valid (mem s') t j)"

lemma unmap_post_none:
  "walk_pre cfg n t s \<Longrightarrow> (\<And>v. v \<in> V \<Longrightarrow> v < 512 ^ Suc n \<Longrightarrow> pt_map cfg (mem s) n t v = None) \<Longrightarrow> unmap_post cfg n t V {} s s"
  unfolding unmap_post_def walk_pre_def using shrunk_refl [of cfg s] by auto

lemma free_done_end: "walk_pre cfg n t s \<Longrightarrow> free_done cfg n t 512 {} s s"
proof -
  assume p: "walk_pre cfg n t s"
  have "v div 512 ^ n < 512" if "v < 512 ^ Suc n" for v :: nat using that by (simp add: less_mult_imp_div_less)
  then have "unmap_post cfg n t {v. 512 \<le> v div 512 ^ n} {} s s" by (intro unmap_post_none [OF p]) fastforce
  then show ?thesis by (simp add: free_done_def)
qed

lemma free_end: "riscv_free_loop cfg index 512 t s = Some s"
  by (subst riscv_free_loop.simps) simp

text \<open>One entry done, the rest to do.\<close>

lemma free_done_step:
  assumes pre: "walk_pre cfg n t s" and a: "unmap_post cfg n t {v. v div 512 ^ n = i} Q s s1" "\<not> valid (mem s1) t i"
    and b: "free_done cfg n t (Suc i) R s1 s2"
  shows "free_done cfg n t i (Q \<union> R) s s2"
proof -
  have V: "{v. v div 512 ^ n = i} \<union> {v. Suc i \<le> v div 512 ^ n} = {v. i \<le> v div 512 ^ n}" by auto
  have b': "unmap_post cfg n t {v. Suc i \<le> v div 512 ^ n} R s1 s2" using b by (simp add: free_done_def)
  have "\<not> valid (mem s2) t j" if "j < 512" "i \<le> j" for j
    using b unmap_postD(7) [OF b' that(1)] a(2) that by (cases "j = i") (auto simp: free_done_def)
  then show ?thesis using unmap_post_trans [OF pre a(1) b'] unfolding V free_done_def by blast
qed

lemma free_leaf_step: "i < 512 \<Longrightarrow> riscv_free_loop cfg 2 i t s =
  riscv_free_loop cfg 2 (Suc i) t (if valid (mem s) t i then set_pte t i 0 s else s)"
  by (subst riscv_free_loop.simps) (simp add: get_pte_eq)

lemma free_leaf:
  assumes "walk_pre cfg 0 t s" "i \<le> 512"
  shows "\<exists>Q s'. riscv_free_loop cfg 2 i t s = Some s' \<and> free_done cfg 0 t i Q s s'"
  using assms
proof (induction "512 - i" arbitrary: i s)
  case 0
  then have "i = 512" by simp
  then show ?case using free_done_end [OF 0(2)] free_end by blast
next
  case (Suc x)
  have i: "i < 512" and x: "x = 512 - Suc i" using Suc(2) by linarith+
  let ?s = "if valid (mem s) t i then set_pte t i 0 s else s"
  have V: "{v. v div 512 ^ 0 = i} = {i}" by simp
  have p: "unmap_post cfg 0 t {v. v div 512 ^ 0 = i} {} s ?s"
    unfolding V using unmap_post_leaf [OF Suc(3) i] unmap_post_none [OF Suc(3), of "{i}"] by auto
  have nv: "\<not> valid (mem ?s) t i" using pte_set_pte [OF i i, of t 0 s] by simp
  obtain Q s' where r: "riscv_free_loop cfg 2 (Suc i) t ?s = Some s'" "free_done cfg 0 t (Suc i) Q ?s s'"
    using Suc(1) [OF x unmap_post_pre [OF Suc(3) p]] i by (auto simp del: if_split)
  show ?case unfolding free_leaf_step [OF i] r(1) using free_done_step [OF Suc(3) p nv r(2)] by blast
qed

lemma free_node_step:
  assumes "i < 512" "index < 2"
  shows "\<not> valid (mem s) t i \<Longrightarrow> riscv_free_loop cfg index i t s = riscv_free_loop cfg index (Suc i) t s"
    "PTE_NEXTPGT (pte (mem s) t i) \<Longrightarrow> aligned (nxt cfg (mem s) t i) \<Longrightarrow> riscv_free_loop cfg index i t s = do {
       s1 \<leftarrow> riscv_free_loop cfg (Suc index) 0 (nxt cfg (mem s) t i) s;
       s2 \<leftarrow> bk_free cfg (nxt cfg (mem s) t i) (set_pte t i 0 s1);
       riscv_free_loop cfg index (Suc i) t s2 }"
  using assms PTE2Pa_aligned unfolding nxt_def
  by (subst riscv_free_loop.simps, simp add: get_pte_eq ASSERT_def PTE_NEXTPGT_def Let_def)+

lemma free_node:
  fixes s :: "'a mm_scheme"
  assumes n: "n < 2" and pre: "walk_pre cfg (Suc n) t s" and i: "i \<le> 512"
    and child: "\<And>c (s :: 'a mm_scheme). walk_pre cfg n c s \<Longrightarrow> \<exists>Q s'. riscv_free_loop cfg (2 - n) 0 c s = Some s' \<and> free_done cfg n c 0 Q s s'"
  shows "\<exists>Q s'. riscv_free_loop cfg (2 - Suc n) i t s = Some s' \<and> free_done cfg (Suc n) t i Q s s'"
  using pre i
proof (induction "512 - i" arbitrary: i s)
  case 0
  then have "i = 512" by simp
  then show ?case using free_done_end [OF 0(2)] free_end by blast
next
  case (Suc x)
  have i: "i < 512" and x: "x = 512 - Suc i" using Suc(2) by linarith+
  have ix: "2 - Suc n < 2" "Suc (2 - Suc n) = 2 - n" using n by linarith+
  note pre = Suc(3)
  have go: "\<exists>Q s'. riscv_free_loop cfg (2 - Suc n) (Suc i) t s2 = Some s' \<and> free_done cfg (Suc n) t i Q s s'"
    if p: "unmap_post cfg (Suc n) t {v. v div 512 ^ Suc n = i} R s s2" "\<not> valid (mem s2) t i" for R s2
    using Suc(1) [OF x unmap_post_pre [OF pre p(1)]] i free_done_step [OF pre p] by (meson Suc_leI)
  show ?case
  proof (cases "valid (mem s) t i")
    case False
    have "unmap_post cfg (Suc n) t {v. v div 512 ^ Suc n = i} {} s s"
      by (rule unmap_post_none [OF pre]) (use False in \<open>simp add: Let_def del: power_Suc\<close>)
    then show ?thesis using go False unfolding free_node_step(1) [OF i ix(1) False] by blast
  next
    case True
    let ?c = "nxt cfg (mem s) t i"
    note c = pt_wf_child(1,2) [OF walk_preD(3) [OF pre] i True]
    obtain Q s1 where r: "riscv_free_loop cfg (2 - n) 0 ?c s = Some s1" "free_done cfg n ?c 0 Q s s1"
      using child [OF walk_pre_child [OF pre i True]] by blast
    have u: "unmap_post cfg n ?c UNIV Q s s1" and nv: "\<forall>j < 512. \<not> valid (mem s1) ?c j" using r(2) by (simp_all add: free_done_def)
    note l = unmap_post_lift [OF pre i True u]
    have nx: "nxt cfg (mem s1) t i = ?c" and v1: "valid (mem s1) t i" using True l(2) [OF i] by (simp_all add: nxt_def)
    obtain R s2 where r2: "bk_free cfg ?c (set_pte t i 0 s1) = Some s2" "unmap_post cfg (Suc n) t {v. v div 512 ^ Suc n = i} R s1 s2"
      "\<not> valid (mem s2) t i"
      using unmap_post_drop [OF unmap_post_pre [OF pre l(1)] i v1] no_children [OF nv, of cfg n] unfolding nx by blast
    have "unmap_post cfg (Suc n) t {v. v div 512 ^ Suc n = i} (Q \<union> R) s s2"
      using unmap_post_trans [OF pre l(1) r2(2)] by simp
    from go [OF this r2(3)] show ?thesis
      unfolding free_node_step(2) [OF i ix(1) c(1) pt_wf_aligned [OF c(2)]] ix(2) r(1) bind.bind_lunit r2(1) .
  qed
qed

lemma free_correct:
  "walk_pre cfg n t s \<Longrightarrow> n \<le> 2 \<Longrightarrow> \<exists>Q s'. riscv_free_loop cfg (2 - n) 0 t s = Some s' \<and> free_done cfg n t 0 Q s s'"
proof (induction n arbitrary: t s)
  case 0
  then show ?case using free_leaf [OF 0(1), of 0] by simp
next
  case (Suc n)
  have n: "n < 2" "n \<le> 2" using Suc(3) by simp_all
  show ?case by (rule free_node [OF n(1) Suc(2)]) (use Suc(1) n(2) in auto)
qed

end
