(* ===== verification/Sv39Contract.thy ===== *)
theory Sv39Contract
  imports Sv39Free
begin

unbundle bit_operations_syntax

text \<open>
  What the page tables of the RISC-V port promise to \<^verbatim>\<open>vm.c\<close>: an address space is a finite map from page numbers to entries,
  which \<^verbatim>\<open>__arch_hw_mmap\<close> extends by a range or leaves alone and \<^verbatim>\<open>__arch_hw_unmap\<close> restricts. The interface is the locale
  \<open>page_mapper\<close>.
\<close>

subsection \<open>Address spaces\<close>

text \<open>A root table whose tables form a tree of pages that the allocator has handed out.\<close>

definition vm_space :: "pgfm_cfg \<Rightarrow> u64 \<Rightarrow> 'a mm_scheme \<Rightarrow> bool" where
  "vm_space cfg root s \<longleftrightarrow> walk_pre cfg 2 root s"

definition vm_maps :: "pgfm_cfg \<Rightarrow> u64 \<Rightarrow> 'a mm_scheme \<Rightarrow> nat \<Rightarrow> u64 option" where
  "vm_maps cfg root s v = (if v < 512 ^ 3 then pt_map cfg (mem s) 2 root v else None)"

text \<open>The pages of a range and the entries it is mapped to.\<close>

definition vm_range :: "viraddr \<Rightarrow> u64 \<Rightarrow> nat set" where
  "vm_range va sz = {pos 2 va..<pos 2 va + unat sz div 4096}"

definition vm_entry :: "viraddr \<Rightarrow> phyaddr \<Rightarrow> u16 \<Rightarrow> nat \<Rightarrow> u64" where
  "vm_entry va pa prot v = SV39_Pa2PTE (pa + pages_bytes (int (v - pos 2 va))) (ucast prot)"

definition vm_args :: "viraddr \<Rightarrow> phyaddr \<Rightarrow> u16 \<Rightarrow> u64 \<Rightarrow> bool" where
  "vm_args va pa prot sz \<longleftrightarrow> aligned va \<and> aligned pa \<and> aligned sz \<and> sz \<noteq> 0 \<and>
     pos 2 va + unat sz div 4096 \<le> 512 ^ 3 \<and> PTE_VALID (ucast prot)"

text \<open>What an operation on the tables of \<open>root\<close> leaves alone: memory outside the tables and the free pages, and blocks of others.\<close>

definition vm_frame :: "pgfm_cfg \<Rightarrow> u64 \<Rightarrow> 'a mm_scheme \<Rightarrow> 'a mm_scheme \<Rightarrow> bool" where
  "vm_frame cfg root s s' \<longleftrightarrow> same_but (pt_pages cfg (mem s) 2 root \<union> pg2va cfg ` free_pages s) (mem s) (mem s') \<and>
     (\<forall>p k. (p, k) \<in> mm_used s \<and> pg2va cfg p \<notin> pt_pages cfg (mem s) 2 root \<longrightarrow> (p, k) \<in> mm_used s') \<and>
     held s' = held s \<and> mm.more s' = mm.more s"

lemma npages_eq: "unat sz div 4096 < 2 ^ 31 \<Longrightarrow> npages_of sz = int (unat sz div 4096)"
proof -
  assume a: "unat sz div 4096 < 2 ^ 31"
  have "unat (sz div PAGE_SIZE) = unat sz div 4096" by (simp add: unat_div)
  then show ?thesis using a by (simp add: npages_of_def sint_u32_ucast)
qed

lemma aligned_size: "aligned sz \<Longrightarrow> sz \<noteq> 0 \<Longrightarrow> 0 < unat sz div 4096 \<and> unat sz = 4096 * (unat sz div 4096)"
proof -
  assume a: "aligned sz" "sz \<noteq> 0"
  then have "4096 dvd unat sz" "unat sz \<noteq> 0" by (simp_all add: page_aligned_iff unat_eq_0 mod_eq_0_iff_dvd)
  then obtain q where "unat sz = 4096 * q" "q \<noteq> 0" by (metis dvdE mult_is_0)
  then show ?thesis by simp
qed

lemma unat_pages_bytes: "d < 2 ^ 31 \<Longrightarrow> unat (pages_bytes (int d)) = d * 4096"
  using unat_u64_of_nat [of "d * 4096"] by (simp add: pages_bytes_def)

subsection \<open>Frames\<close>

lemma grown_frame:
  assumes "vm_space cfg root s" "walk_post cfg 2 root u pa fl d P s s'"
  shows "vm_frame cfg root s s'"
proof -
  note g = walk_postD(1) [OF assms(2)]
  have "same_but (pt_pages cfg (mem s) 2 root \<union> pg2va cfg ` free_pages s) (mem s) (mem s')"
    by (rule same_but_mono [OF walk_postD(5) [OF assms(2)]]) (use g in \<open>auto simp: grown_def\<close>)
  then show ?thesis using g by (simp add: vm_frame_def grown_def)
qed

lemma shrunk_frame:
  assumes sp: "vm_space cfg root s" and p: "unmap_post cfg 2 root V Q s s'"
  shows "vm_frame cfg root s s'"
proof -
  note sh = unmap_postD(1) [OF p]
  have "same_but (pt_pages cfg (mem s) 2 root \<union> pg2va cfg ` free_pages s) (mem s) (mem s')"
    by (rule same_but_mono [OF unmap_postD(5) [OF p]]) blast
  moreover have "(q, k) \<in> mm_used s'" if "(q, k) \<in> mm_used s" "pg2va cfg q \<notin> pt_pages cfg (mem s) 2 root" for q k
    using that unmap_postD(3) [OF p] unfolding shrunkD(4) [OF sh] by blast
  ultimately show ?thesis using shrunkD(6,7) [OF sh] by (simp add: vm_frame_def)
qed

text \<open>Mapping followed by unmapping, as in the error path.\<close>

lemma grown_shrunk_frame:
  assumes sp: "vm_space cfg root s" and a: "walk_post cfg 2 root u pa fl d P s s1" and b: "unmap_post cfg 2 root V Q s1 s2"
  shows "vm_frame cfg root s s2"
proof -
  note inv = walk_preD(1) [OF sp [unfolded vm_space_def]] and g = walk_postD(1) [OF a] and sh = unmap_postD(1) [OF b]
  have P: "P \<subseteq> free_pages s" using g by (simp add: grown_def)
  have "same_but (pt_pages cfg (mem s) 2 root \<union> pg2va cfg ` free_pages s) (mem s) (mem s2)"
    using same_but_trans [OF walk_postD(5) [OF a] unmap_postD(5) [OF b]] unfolding walk_postD(4) [OF a]
    by (rule same_but_mono) (use P in blast)
  moreover have "(q, k) \<in> mm_used s2" if q: "(q, k) \<in> mm_used s" "pg2va cfg q \<notin> pt_pages cfg (mem s) 2 root" for q k
  proof -
    have "q \<notin> free_pages s" by (rule used_page_not_free [OF inv q(1)])
    then have "pg2va cfg q \<notin> pg2va cfg ` P"
      using P pg2va_inj [OF mm_inv_wf [OF inv] used_page [OF inv q(1)]] free_page [OF inv] by blast
    then have "q \<notin> Q" using q(2) unmap_postD(3) [OF b] unfolding walk_postD(4) [OF a] by blast
    moreover have "(q, k) \<in> mm_used s1" using g q(1) by (simp add: grown_def)
    ultimately show ?thesis unfolding shrunkD(4) [OF sh] by blast
  qed
  ultimately show ?thesis using g shrunkD(6,7) [OF sh] by (simp add: vm_frame_def grown_def)
qed


subsection \<open>The operations\<close>

lemma vm_space_root: "vm_space cfg root s \<Longrightarrow> root \<noteq> 0 \<and> aligned root"
  unfolding vm_space_def using table_not_zero [OF _ root_in_pages] pt_wf_aligned [OF walk_preD(3)] by blast

lemma unmap_top:
  assumes sp: "vm_space cfg root s" and va: "aligned va" and d: "0 < d" "pos 2 va + d \<le> 512 ^ 3"
    and mp: "\<And>v. pos 2 va \<le> v \<Longrightarrow> v < pos 2 va + d \<Longrightarrow> pt_map cfg (mem s) 2 root v \<noteq> None"
  shows "\<exists>Q s'. arch_hw_unmap cfg root va (pages_bytes (int d)) s = Some s' \<and> unmap_post cfg 2 root {pos 2 va..<pos 2 va + d} Q s s'"
proof -
  let ?b = "pages_bytes (int d)"
  have N: "(512 :: nat) ^ 3 < 2 ^ 31" "(512 :: nat) ^ Suc 2 = 512 ^ 3" by simp_all
  have d31: "d < 2 ^ 31" using d(2) N by linarith
  note ub = unat_pages_bytes [OF d31]
  have np: "npages_of ?b = int d" using npages_eq [of ?b] ub d31 by simp
  have al: "aligned ?b" "?b \<noteq> 0" using ub d(1) by (simp_all add: page_aligned_iff unat_eq_0 [symmetric])
  have pre: "walk_pre cfg 2 root s" using sp by (simp add: vm_space_def)
  have m: "mapped cfg 2 root (pos 2 va) d s" unfolding mapped_def using mp by blast
  obtain e Q s' where r: "riscv_unmap_loop cfg (2 - 2) (SV39_Index2Id va (2 - 2)) root va (int d) s = Some (int (d - e), s')"
    "unmap_done cfg 2 root (pos 2 va) d e Q s s'" using unmap_correct [OF pre m d(1) order_refl] by blast
  have e: "e = d" using unmap_doneD(1) [OF r(2)] d(2) N(2) by linarith
  have i5: "SV39_Index2Id va 0 < 512" using pos_Index2Id [of 2 va] next_pos(3) [of 2 va] by simp
  have "arch_hw_unmap cfg root va ?b s = Some s'"
    using r(1) e i5 al va vm_space_root [OF sp] np by (simp add: arch_hw_unmap_def riscv_unmap_def ASSERT_def Let_def)
  then show ?thesis using unmap_doneD(2) [OF r(2)] e by blast
qed

lemma mmap_top:
  assumes sp: "vm_space cfg root s" and a: "vm_args va pa prot sz"
  defines "k \<equiv> unat sz div 4096"
  shows "\<exists>ret d P s1. vm_walkthrough cfg root va 0 pa (ucast prot) (int k) s = Some (ret, int (k - d), s1) \<and>
    walk_done cfg 2 root (pos 2 va) pa (ucast prot) k ret d P s s1 \<and> 0 < k \<and> npages_of sz = int k \<and> pos 2 va + k \<le> 512 ^ 3"
proof -
  have k: "0 < k" "pos 2 va + k \<le> 512 ^ 3" using a aligned_size [of sz] by (simp_all add: vm_args_def k_def)
  then have np: "npages_of sz = int k" using npages_eq [of sz] by (simp add: k_def)
  have pre: "walk_pre cfg 2 root s" using sp by (simp add: vm_space_def)
  have fl: "PTE_VALID (ucast prot)" using a by (simp add: vm_args_def)
  have i5: "SV39_Index2Id va 0 < 512" using pos_Index2Id [of 2 va] next_pos(3) [of 2 va] by simp
  show ?thesis
    using walk_correct [OF pre fl k(1) order_refl, of va pa] k np i5 by (auto simp: vm_walkthrough_def ASSERT_def Let_def)
qed

text \<open>Success extends the mapping by the range, failure leaves it as it was; a range that is not free never succeeds.\<close>

lemma mmap_law:
  assumes sp: "vm_space cfg root s" and a: "vm_args va pa prot sz"
  shows "\<exists>ret s'. arch_hw_mmap cfg root va pa prot sz s = Some (ret, s') \<and> vm_space cfg root s' \<and> vm_frame cfg root s s' \<and>
    (ret = 0 \<longrightarrow> (\<forall>v \<in> vm_range va sz. vm_maps cfg root s v = None) \<and>
       vm_maps cfg root s' = (\<lambda>v. if v \<in> vm_range va sz then Some (vm_entry va pa prot v) else vm_maps cfg root s v)) \<and>
    (ret \<noteq> 0 \<longrightarrow> vm_maps cfg root s' = vm_maps cfg root s \<and>
       (ret = - EEXIST \<and> (\<exists>v \<in> vm_range va sz. vm_maps cfg root s v \<noteq> None) \<or> ret = - ENOMEM))"
proof -
  let ?k = "unat sz div 4096" and ?u = "pos 2 va"
  note pre = sp [unfolded vm_space_def]
  obtain ret d P s1 where r: "vm_walkthrough cfg root va 0 pa (ucast prot) (int ?k) s = Some (ret, int (?k - d), s1)"
    "walk_done cfg 2 root ?u pa (ucast prot) ?k ret d P s s1" "0 < ?k" "npages_of sz = int ?k" "?u + ?k \<le> 512 ^ 3"
    using mmap_top [OF sp a] by blast
  note p = walk_done_post [OF r(2)]
  have N: "(512 :: nat) ^ Suc 2 = 512 ^ 3" by simp
  have dk: "d \<le> ?k" using r(2) by (simp add: walk_done_def)
  have ar: "aligned va" "aligned pa" "aligned sz" "sz \<noteq> 0" using a by (simp_all add: vm_args_def)
  have sp1: "vm_space cfg root s1" using walk_post_pre [OF pre p] by (simp add: vm_space_def)
  have e: "arch_hw_mmap cfg root va pa prot sz s =
      (if ret \<noteq> 0 then do { s2 \<leftarrow> arch_hw_unmap cfg root va (pages_bytes (int d)) s1; Some (ret, s2) } else Some (0, s1))"
    using r(1,4) dk vm_space_root [OF sp] ar by (simp add: arch_hw_mmap_def ASSERT_def Let_def)
  have m1: "pt_map cfg (mem s1) 2 root v = (if ?u \<le> v \<and> v < ?u + d then Some (vm_entry va pa prot v) else pt_map cfg (mem s) 2 root v)"
    if "v < 512 ^ 3" for v using walk_postD(6) [OF p, unfolded N, OF that] by (simp add: vm_entry_def)
  have none: "pt_map cfg (mem s) 2 root v = None" if "?u \<le> v" "v < ?u + d" for v using walk_postD(7) [OF p that] .
  show ?thesis
  proof (cases "ret = 0")
    case True
    then have "d = ?k" using r(2,5) N unfolding walk_done_def by linarith
    then show ?thesis
      using True e sp1 grown_frame [OF sp p] m1 none r(5) by (auto simp: vm_range_def vm_maps_def fun_eq_iff)
  next
    case False
    note f = r(2) [unfolded walk_done_def N]
    have why: "ret = - EEXIST \<and> (\<exists>v \<in> vm_range va sz. vm_maps cfg root s v \<noteq> None) \<or> ret = - ENOMEM"
      using f False by (auto simp: vm_range_def vm_maps_def intro!: bexI [of _ "?u + d"])
    show ?thesis
    proof (cases "d = 0")
      case True
      have "arch_hw_unmap cfg root va (pages_bytes (int d)) s1 = Some s1"
        using True vm_space_root [OF sp] ar by (simp add: arch_hw_unmap_def ASSERT_def pages_bytes_def page_aligned_iff)
      moreover have "vm_maps cfg root s1 = vm_maps cfg root s" using m1 True by (auto simp: vm_maps_def fun_eq_iff)
      ultimately show ?thesis using e False sp1 grown_frame [OF sp p] why by simp
    next
      case d0: False
      have ud: "?u + d \<le> 512 ^ 3" using dk r(5) by linarith
      have mp: "pt_map cfg (mem s1) 2 root v \<noteq> None" if "?u \<le> v" "v < ?u + d" for v using m1 [of v] that ud by simp
      obtain Q s2 where u: "arch_hw_unmap cfg root va (pages_bytes (int d)) s1 = Some s2"
        "unmap_post cfg 2 root {?u..<?u + d} Q s1 s2"
        using unmap_top [OF sp1 ar(1) _ ud mp] d0 by blast
      have "pt_map cfg (mem s2) 2 root v = pt_map cfg (mem s) 2 root v" if "v < 512 ^ 3" for v
        using unmap_postD(6) [OF u(2), unfolded N, OF that] m1 [OF that] none by auto
      then have "vm_maps cfg root s2 = vm_maps cfg root s" by (auto simp: vm_maps_def fun_eq_iff)
      moreover have "vm_space cfg root s2" using unmap_post_pre [OF sp1 [unfolded vm_space_def] u(2)] by (simp add: vm_space_def)
      ultimately show ?thesis using e False grown_shrunk_frame [OF sp p u(2)] why u(1) by simp
    qed
  qed
qed

lemma unmap_law:
  assumes sp: "vm_space cfg root s" and a: "vm_args va pa prot sz" and mp: "\<forall>v \<in> vm_range va sz. vm_maps cfg root s v \<noteq> None"
  shows "\<exists>s'. arch_hw_unmap cfg root va sz s = Some s' \<and> vm_space cfg root s' \<and> vm_frame cfg root s s' \<and>
    vm_maps cfg root s' = (\<lambda>v. if v \<in> vm_range va sz then None else vm_maps cfg root s v)"
proof -
  let ?k = "unat sz div 4096" and ?u = "pos 2 va"
  have N: "(512 :: nat) ^ Suc 2 = 512 ^ 3" by simp
  have ar: "aligned va" "aligned sz" "sz \<noteq> 0" "?u + ?k \<le> 512 ^ 3" using a by (simp_all add: vm_args_def)
  note k = aligned_size [OF ar(2,3)]
  have "unat (pages_bytes (int ?k)) = unat sz" using unat_pages_bytes [of ?k] ar(4) k by simp
  then have b: "pages_bytes (int ?k) = sz" by (simp add: word_unat_eq_iff)
  have "pt_map cfg (mem s) 2 root v \<noteq> None" if "?u \<le> v" "v < ?u + ?k" for v
    using mp that ar(4) by (auto simp: vm_range_def vm_maps_def)
  from unmap_top [OF sp ar(1) conjunct1 [OF k] ar(4) this]
  obtain Q s' where u: "arch_hw_unmap cfg root va sz s = Some s'" "unmap_post cfg 2 root (vm_range va sz) Q s s'"
    unfolding b vm_range_def by blast
  have "vm_maps cfg root s' = (\<lambda>v. if v \<in> vm_range va sz then None else vm_maps cfg root s v)"
    using unmap_postD(6) [OF u(2), unfolded N] by (auto simp: vm_maps_def fun_eq_iff)
  then show ?thesis using u(1) shrunk_frame [OF sp u(2)] unmap_post_pre [OF sp [unfolded vm_space_def] u(2)] by (simp add: vm_space_def)
qed


subsection \<open>The interface\<close>

text \<open>A client either maps a request or unmaps one that is mapped throughout.\<close>

datatype 'r vm_op = VmMap 'r | VmUnmap 'r

locale page_mapper =
  fixes space :: "'s \<Rightarrow> bool"
    and maps :: "'s \<Rightarrow> nat \<Rightarrow> 'e option"
    and args :: "'r \<Rightarrow> bool"
    and pages :: "'r \<Rightarrow> nat set"
    and entry :: "'r \<Rightarrow> nat \<Rightarrow> 'e"
    and mmap :: "'r \<Rightarrow> 's \<Rightarrow> (int \<times> 's) option"
    and unmap :: "'r \<Rightarrow> 's \<Rightarrow> 's option"
  assumes map_law: "space s \<Longrightarrow> args r \<Longrightarrow> \<exists>ret s'. mmap r s = Some (ret, s') \<and> space s' \<and>
      (if ret = 0 then (\<forall>v \<in> pages r. maps s v = None) \<and> maps s' = (\<lambda>v. if v \<in> pages r then Some (entry r v) else maps s v)
       else maps s' = maps s)"
    and unmap_law: "space s \<Longrightarrow> args r \<Longrightarrow> \<forall>v \<in> pages r. maps s v \<noteq> None \<Longrightarrow>
      \<exists>s'. unmap r s = Some s' \<and> space s' \<and> maps s' = (\<lambda>v. if v \<in> pages r then None else maps s v)"
    and some_page: "args r \<Longrightarrow> pages r \<noteq> {}"
begin

lemma map_unmap:
  assumes "space s" "args r" "mmap r s = Some (0, s1)"
  shows "\<exists>s2. unmap r s1 = Some s2 \<and> space s2 \<and> maps s2 = maps s"
proof -
  have s1: "space s1" "\<forall>v \<in> pages r. maps s v = None" "maps s1 = (\<lambda>v. if v \<in> pages r then Some (entry r v) else maps s v)"
    using map_law [OF assms(1,2)] assms(3) by auto
  then obtain s2 where "unmap r s1 = Some s2" "space s2" "maps s2 = (\<lambda>v. if v \<in> pages r then None else maps s1 v)"
    using unmap_law [OF s1(1) assms(2)] by auto
  then show ?thesis using s1 by (auto simp: fun_eq_iff)
qed

text \<open>A page that is mapped is never mapped again.\<close>

lemma no_remap:
  assumes "space s" "args r" "mmap r s = Some (0, s1)" "args r'" "pages r \<inter> pages r' \<noteq> {}"
  shows "\<exists>ret s2. mmap r' s1 = Some (ret, s2) \<and> ret \<noteq> 0 \<and> maps s2 = maps s1"
proof -
  have s1: "space s1" "maps s1 = (\<lambda>v. if v \<in> pages r then Some (entry r v) else maps s v)"
    using map_law [OF assms(1,2)] assms(3) by auto
  obtain v where v: "v \<in> pages r" "v \<in> pages r'" using assms(5) by blast
  obtain ret s2 where m: "mmap r' s1 = Some (ret, s2)"
    "if ret = 0 then \<forall>v \<in> pages r'. maps s1 v = None else maps s2 = maps s1"
    using map_law [OF s1(1) assms(4)] by (metis (no_types, lifting))
  have "ret \<noteq> 0"
  proof
    assume "ret = 0"
    then have "maps s1 v = None" using m(2) v(2) by simp
    then show False using s1(2) v(1) by simp
  qed
  then show ?thesis using m by auto
qed

definition op_step :: "'r vm_op \<Rightarrow> 's \<Rightarrow> 's option" where
  "op_step x s = (case x of VmMap r \<Rightarrow> map_option snd (mmap r s)
     | VmUnmap r \<Rightarrow> (if \<forall>v \<in> pages r. maps s v \<noteq> None then unmap r s else Some s))"

fun op_run :: "'r vm_op list \<Rightarrow> 's \<Rightarrow> 's option" where
  "op_run [] s = Some s"
| "op_run (x # xs) s = (op_step x s \<bind> op_run xs)"

fun op_req :: "'r vm_op \<Rightarrow> 'r" where
  "op_req (VmMap r) = r"
| "op_req (VmUnmap r) = r"

lemma op_step_ok:
  assumes "space s" "args (op_req x)"
  shows "\<exists>s'. op_step x s = Some s' \<and> space s' \<and> (\<forall>v e. maps s' v = Some e \<longrightarrow>
    maps s v = Some e \<or> (\<exists>r. x = VmMap r \<and> v \<in> pages r \<and> e = entry r v))"
proof (cases x)
  case (VmMap r)
  then obtain ret s' where "mmap r s = Some (ret, s')" "space s'"
    "if ret = 0 then maps s' = (\<lambda>v. if v \<in> pages r then Some (entry r v) else maps s v) else maps s' = maps s"
    using map_law [OF assms(1), of r] assms(2) by (auto split: if_splits)
  then show ?thesis using VmMap by (auto simp: op_step_def split: if_splits)
next
  case (VmUnmap r)
  show ?thesis
  proof (cases "\<forall>v \<in> pages r. maps s v \<noteq> None")
    case True
    then obtain s' where "unmap r s = Some s'" "space s'" "maps s' = (\<lambda>v. if v \<in> pages r then None else maps s v)"
      using unmap_law [OF assms(1), of r] assms(2) VmUnmap by auto
    then show ?thesis using VmUnmap True by (auto simp: op_step_def)
  next
    case False
    then show ?thesis using VmUnmap assms(1) by (auto simp: op_step_def)
  qed
qed

text \<open>No sequence of operations creates a translation that was not asked for.\<close>

lemma op_run_ok:
  "space s \<Longrightarrow> \<forall>x \<in> set xs. args (op_req x) \<Longrightarrow> \<exists>s'. op_run xs s = Some s' \<and> space s' \<and>
    (\<forall>v e. maps s' v = Some e \<longrightarrow> maps s v = Some e \<or> (\<exists>r. VmMap r \<in> set xs \<and> v \<in> pages r \<and> e = entry r v))"
proof (induction xs arbitrary: s)
  case Nil
  then show ?case by simp
next
  case (Cons x xs)
  obtain s1 where s1: "op_step x s = Some s1" "space s1"
    "\<And>v e. maps s1 v = Some e \<Longrightarrow> maps s v = Some e \<or> (\<exists>r. x = VmMap r \<and> v \<in> pages r \<and> e = entry r v)"
    using op_step_ok [OF Cons.prems(1), of x] Cons.prems(2) by auto
  obtain s2 where s2: "op_run xs s1 = Some s2" "space s2"
    "\<And>v e. maps s2 v = Some e \<Longrightarrow> maps s1 v = Some e \<or> (\<exists>r. VmMap r \<in> set xs \<and> v \<in> pages r \<and> e = entry r v)"
    using Cons.IH [OF s1(2)] Cons.prems(2) by auto
  have "maps s v = Some e \<or> (\<exists>r. VmMap r \<in> set (x # xs) \<and> v \<in> pages r \<and> e = entry r v)" if "maps s2 v = Some e" for v e
    using s2(3) [OF that] s1(3) by fastforce
  then show ?case using s1(1) s2(1,2) by auto
qed

end

text \<open>A request is an address, a physical address, the protection and a size.\<close>

type_synonym vm_req = "viraddr \<times> phyaddr \<times> u16 \<times> u64"

definition req_ok :: "vm_req \<Rightarrow> bool" where
  "req_ok r = (case r of (va, pa, prot, sz) \<Rightarrow> vm_args va pa prot sz)"

definition req_pages :: "vm_req \<Rightarrow> nat set" where
  "req_pages r = (case r of (va, pa, prot, sz) \<Rightarrow> vm_range va sz)"

definition req_entry :: "vm_req \<Rightarrow> nat \<Rightarrow> u64" where
  "req_entry r = (case r of (va, pa, prot, sz) \<Rightarrow> vm_entry va pa prot)"

definition req_mmap :: "pgfm_cfg \<Rightarrow> u64 \<Rightarrow> vm_req \<Rightarrow> 'a mm_scheme \<Rightarrow> (int \<times> 'a mm_scheme) option" where
  "req_mmap cfg root r = (case r of (va, pa, prot, sz) \<Rightarrow> arch_hw_mmap cfg root va pa prot sz)"

definition req_unmap :: "pgfm_cfg \<Rightarrow> u64 \<Rightarrow> vm_req \<Rightarrow> 'a mm_scheme \<Rightarrow> 'a mm_scheme option" where
  "req_unmap cfg root r = (case r of (va, pa, prot, sz) \<Rightarrow> arch_hw_unmap cfg root va sz)"

lemmas req_defs = req_ok_def req_pages_def req_entry_def req_mmap_def req_unmap_def

interpretation sv: page_mapper "vm_space cfg root" "vm_maps cfg root" req_ok req_pages req_entry "req_mmap cfg root" "req_unmap cfg root"
  for cfg root
proof (unfold_locales, goal_cases)
  case (1 s r)
  obtain va pa prot sz where r: "r = (va, pa, prot, sz)" by (cases r)
  have "vm_args va pa prot sz" using 1(2) r by (simp add: req_ok_def)
  from mmap_law [OF 1(1) this]
  obtain ret s' where m: "arch_hw_mmap cfg root va pa prot sz s = Some (ret, s')" "vm_space cfg root s'"
    "ret = 0 \<longrightarrow> (\<forall>v \<in> vm_range va sz. vm_maps cfg root s v = None) \<and>
       vm_maps cfg root s' = (\<lambda>v. if v \<in> vm_range va sz then Some (vm_entry va pa prot v) else vm_maps cfg root s v)"
    "ret \<noteq> 0 \<longrightarrow> vm_maps cfg root s' = vm_maps cfg root s" by blast
  then show ?case unfolding r req_defs prod.case by (intro exI [of _ ret] exI [of _ s']) simp
next
  case (2 s r)
  obtain va pa prot sz where r: "r = (va, pa, prot, sz)" by (cases r)
  show ?case using unmap_law [OF 2(1), of va pa prot sz] 2(2,3) by (auto simp: r req_defs)
next
  case (3 r)
  then show ?case using aligned_size by (auto simp: req_defs vm_args_def vm_range_def split: prod.splits)
qed

end
