(* ===== verification/Sv39Props.thy ===== *)
theory Sv39Props
  imports Sv39Contract
begin

unbundle bit_operations_syntax

text \<open>
  The properties of the page tables, with a concrete address space: three pages in use as the three levels of tables, and one
  page, number 0, mapped to \<open>0x80000000\<close>.
\<close>

subsection \<open>A concrete address space\<close>

definition tab0 :: u64 where "tab0 = 0x3000000000"
definition tab1 :: u64 where "tab1 = 0x3000001000"
definition tab2 :: u64 where "tab2 = 0x3000002000"

definition sv_demo :: mm where
  "sv_demo = \<lparr>held = {},
     mem = store64 (pte_addr tab2 0) (SV39_Pa2PTE 0x80000000 15)
       (store64 (pte_addr tab1 0) (SV39_Pa2PTE 0x80202000 VM_PROT_V)
       (store64 (pte_addr tab0 0) (SV39_Pa2PTE 0x80201000 VM_PROT_V) (\<lambda>_. 0))),
     pgframe_pages = replicate 3 (demo_page 2 0),
     order_pools = [\<lparr>rest_block_num = 0, block_size = 4096, pool_list = []\<rparr>,
       \<lparr>rest_block_num = 0, block_size = 8192, pool_list = []\<rparr>]\<rparr>"

lemma tab_aligned: "aligned tab0" "aligned tab1" "aligned tab2"
  by (simp_all add: tab0_def tab1_def tab2_def page_aligned_iff)

lemma tab_apart: "tab0 \<noteq> tab1" "tab0 \<noteq> tab2" "tab1 \<noteq> tab2" "tab1 \<noteq> tab0" "tab2 \<noteq> tab0" "tab2 \<noteq> tab1"
  by (simp_all add: tab0_def tab1_def tab2_def)

lemma pte_other_store: "i < 512 \<Longrightarrow> j < 512 \<Longrightarrow> aligned t \<Longrightarrow> aligned u \<Longrightarrow> t \<noteq> u \<Longrightarrow> pte (store64 (pte_addr u j) e m) t i = pte m t i"
  by (rule pte_same_but [OF store_pte_same_but]) auto

lemma pte_same_store: "i < 512 \<Longrightarrow> j < 512 \<Longrightarrow> pte (store64 (pte_addr t j) e m) t i = (if i = j then e else pte m t i)"
  using load_store_pte [of j i t e m] by (auto simp: pte_def)

lemma pte_zero_mem: "pte (\<lambda>_. 0) t i = 0"
  unfolding pte_def by (rule load64_zero) simp

lemma demo_pte:
  assumes "i < 512"
  shows "pte (mem sv_demo) tab0 i = (if i = 0 then SV39_Pa2PTE 0x80201000 VM_PROT_V else 0)"
    "pte (mem sv_demo) tab1 i = (if i = 0 then SV39_Pa2PTE 0x80202000 VM_PROT_V else 0)"
    "pte (mem sv_demo) tab2 i = (if i = 0 then SV39_Pa2PTE 0x80000000 15 else 0)"
  using assms by (simp_all add: sv_demo_def pte_other_store pte_same_store tab_aligned tab_apart pte_zero_mem)

lemma demo_nxt: "nxt range3 (mem sv_demo) tab0 0 = tab1" "nxt range3 (mem sv_demo) tab1 0 = tab2"
proof -
  have "SV39_PTE2Pa (SV39_Pa2PTE 0x80201000 VM_PROT_V) = 0x80201000" "SV39_PTE2Pa (SV39_Pa2PTE 0x80202000 VM_PROT_V) = 0x80202000"
    by (rule PTE_roundtrip; simp add: page_aligned_iff)+
  then show "nxt range3 (mem sv_demo) tab0 0 = tab1" "nxt range3 (mem sv_demo) tab1 0 = tab2"
    unfolding nxt_def demo_pte(1,2) [OF zero_less_numeral] by (simp_all add: pa2va_def PGFRAME_VA2PA_OFFSET_def range3_def tab1_def tab2_def)
qed

lemma demo_valid: "i < 512 \<Longrightarrow> valid (mem sv_demo) tab0 i \<longleftrightarrow> i = 0" "i < 512 \<Longrightarrow> valid (mem sv_demo) tab1 i \<longleftrightarrow> i = 0"
  "i < 512 \<Longrightarrow> valid (mem sv_demo) tab2 i \<longleftrightarrow> i = 0"
  using NEXTPGT_valid [OF table_entry] leaf_valid [of _ 15] by (simp_all add: demo_pte PTE_bits)

lemma one_child: "(\<And>i. i < 512 \<Longrightarrow> valid m t i \<longleftrightarrow> i = 0) \<Longrightarrow> pt_pages cfg m (Suc n) t = insert t (pt_pages cfg m n (nxt cfg m t 0))"
  by auto

lemma demo_pages: "pt_pages range3 (mem sv_demo) 0 tab2 = {tab2}" "pt_pages range3 (mem sv_demo) 1 tab1 = {tab1, tab2}"
  "pt_pages range3 (mem sv_demo) 2 tab0 = {tab0, tab1, tab2}"
proof -
  show "pt_pages range3 (mem sv_demo) 0 tab2 = {tab2}" by simp
  show p1: "pt_pages range3 (mem sv_demo) 1 tab1 = {tab1, tab2}"
    using one_child [OF demo_valid(2), of range3 0] by (simp del: pt_pages.simps(2) add: demo_nxt)
  show "pt_pages range3 (mem sv_demo) 2 tab0 = {tab0, tab1, tab2}"
    using one_child [OF demo_valid(1), of range3 1] p1 by (simp del: pt_pages.simps(2) add: demo_nxt numeral_2_eq_2)
qed

lemma demo_tree: "pt_wf range3 (mem sv_demo) 2 tab0"
proof -
  have w0: "pt_wf range3 (mem sv_demo) 0 tab2" using tab_aligned by simp
  have w1: "pt_wf range3 (mem sv_demo) (Suc 0) tab1"
    using tab_aligned demo_valid(2) demo_nxt(2) tab_apart table_entry w0 by (auto simp: demo_pte)
  have p1: "pt_pages range3 (mem sv_demo) (Suc 0) tab1 = {tab1, tab2}" using demo_pages(2) by simp
  have "pt_wf range3 (mem sv_demo) (Suc (Suc 0)) tab0"
    unfolding pt_wf.simps(2) [of _ _ "Suc 0"]
    using tab_aligned(1) demo_valid(1) demo_nxt(1) tab_apart table_entry w1 p1 by (auto simp: demo_pte simp del: pt_wf.simps pt_pages.simps)
  then show ?thesis by (simp only: numeral_2_eq_2)
qed

lemma sv_demo_inv: "mm_inv range3 sv_demo"
proof -
  have p: "pgframe_pages sv_demo = [demo_page 2 0, demo_page 2 0, demo_page 2 0]" by (simp add: sv_demo_def numeral_3_eq_3)
  have h: "free_heads (pgframe_pages sv_demo) = {}" by (auto simp: sv_demo_def free_heads_def)
  have "pages_inv 2 {} (pgframe_pages sv_demo)"
    by (auto simp: p pages_inv_def flags_ok_def heads_ok_def bodies_ok_def orphans_ok_def
        types_ok_def blk_end_def less_Suc_eq numeral_2_eq_2)
  moreover have "pools_inv 2 (pgframe_pages sv_demo) (order_pools sv_demo)"
    by (auto simp: pools_inv_def pool_inv_def h less_Suc_eq numeral_2_eq_2) (auto simp: sv_demo_def)
  ultimately show ?thesis
    by (simp add: mm_inv_def buddy_inv_def range3_wf mm_unlocked_def) (simp add: sv_demo_def range3_def)
qed

lemma sv_demo_space: "vm_space range3 tab0 sv_demo"
proof -
  have "table_ids sv_demo = {0, 1, 2}"
    by (auto simp: table_ids_def mm_used_def used_heads_def is_buddy_page_def sv_demo_def less_Suc_eq numeral_3_eq_3)
  moreover have "pg2va range3 0 = tab0" "pg2va range3 1 = tab1" "pg2va range3 2 = tab2"
    by (simp_all add: pg2va_def id2va_def pg2id_def range3_def tab0_def tab1_def tab2_def)
  ultimately have "tables range3 sv_demo = {tab0, tab1, tab2}" by (simp add: tables_def)
  then show ?thesis
    using sv_demo_inv demo_tree demo_pages(3) by (simp add: vm_space_def walk_pre_def sv_cfg_def) (simp add: range3_def)
qed

lemma one_child_map:
  assumes "\<And>i. i < 512 \<Longrightarrow> valid m t i \<longleftrightarrow> i = 0" "v < 512 ^ Suc (Suc n)"
    and "\<And>w. w < 512 ^ Suc n \<Longrightarrow> pt_map cfg m n (nxt cfg m t 0) w = (if w = 0 then Some e else None)"
  shows "pt_map cfg m (Suc n) t v = (if v = 0 then Some e else None)"
proof -
  let ?N = "512 ^ Suc n :: nat"
  have d: "v div ?N < 512" using assms(2) by (simp add: less_mult_imp_div_less)
  have z: "v = 0 \<longleftrightarrow> v div ?N = 0 \<and> v mod ?N = 0" by (metis add_0 div_mult_mod_eq mult_0 div_0 mod_0)
  have "v mod ?N < ?N" by simp
  then show ?thesis using assms(1) [OF d] assms(3) [of "v mod ?N"] unfolding z
    by (cases "v div ?N = 0") (simp_all add: Let_def del: power_Suc)
qed

lemma demo_maps: "vm_maps range3 tab0 sv_demo v = (if v = 0 then Some (SV39_Pa2PTE 0x80000000 15) else None)"
proof (cases "v < 512 ^ 3")
  case True
  let ?e = "SV39_Pa2PTE 0x80000000 15"
  have l0: "pt_map range3 (mem sv_demo) 0 tab2 w = (if w = 0 then Some ?e else None)" if "w < 512 ^ Suc 0" for w
    using demo_valid(3) [of w] demo_pte(3) [of w] that by auto
  have l1: "pt_map range3 (mem sv_demo) (Suc 0) tab1 w = (if w = 0 then Some ?e else None)" if "w < 512 ^ Suc (Suc 0)" for w
    by (rule one_child_map [OF demo_valid(2) that]) (use l0 demo_nxt in auto)
  have "pt_map range3 (mem sv_demo) (Suc (Suc 0)) tab0 v = (if v = 0 then Some ?e else None)"
    by (rule one_child_map [OF demo_valid(1)]) (use True l1 demo_nxt in \<open>auto simp del: pt_map.simps\<close>)
  then show ?thesis using True by (simp add: vm_maps_def numeral_2_eq_2 del: pt_map.simps)
qed (simp add: vm_maps_def)


lemma demo_args: "vm_args 0x1000 0x80001000 7 0x1000" "vm_args 0 0x80000000 15 0x1000"
  by (simp_all add: vm_args_def page_aligned_iff pos_def vpn_def PTE_bits)

lemma demo_ranges: "vm_range 0x1000 0x1000 = {1}" "vm_range 0 0x1000 = {0}"
  by (simp_all add: vm_range_def pos_def vpn_def)

lemma demo_map: "\<exists>t. arch_hw_mmap range3 tab0 0x1000 0x80001000 7 0x1000 sv_demo = Some (0, t)"
proof -
  have e: "PTE_NEXTPGT (pte (mem sv_demo) tab0 0)" "PTE_NEXTPGT (pte (mem sv_demo) tab1 0)" using table_entry by (simp_all add: demo_pte)
  have al: "aligned (nxt range3 (mem sv_demo) tab0 0)" "aligned (nxt range3 (mem sv_demo) tab1 0)" using tab_aligned by (simp_all add: demo_nxt)
  have ix: "SV39_Index2Id 0x1000 0 = 0" "SV39_Index2Id 0x1000 (Suc 0) = 0" "SV39_Index2Id 0x1000 (Suc (Suc 0)) = 1"
    by (simp_all add: Index2Id_vpn vpn_def)
  have "\<exists>t. vm_walk_loop range3 0 0 tab0 0x1000 0x80001000 7 1 sv_demo = Some (0, 0, t)"
    using walk_node_old [OF _ _ e(1) al(1), of 0 "0x1000" "0x80001000" 7 1] walk_node_old [OF _ _ e(2) al(2), of "Suc 0" "0x1000" "0x80001000" 7 1]
      walk_leaf_step [of 1 range3 tab2 "0x1000" "0x80001000" 7 1 sv_demo] demo_valid(3) [of 1]
    by (simp add: walk_tail_def ix demo_nxt numeral_2_eq_2)
  moreover have "npages_of 0x1000 = 1" by (simp add: npages_of_def)
  ultimately show ?thesis
    using vm_space_root [OF sv_demo_space] ix(1) demo_args(1)
    by (auto simp: arch_hw_mmap_def vm_walkthrough_def ASSERT_def Let_def vm_args_def)
qed

subsection \<open>Properties of the page tables\<close>

text \<open>
  C3: \<^verbatim>\<open>__arch_hw_mmap\<close> refines the extension of a finite map. On a well-formed tree of tables it always returns, keeps the tree
  well formed and touches nothing but tables and free pages. It returns 0 exactly when it has mapped every page of the range, none of which
  was mapped before, to the consecutive physical pages with the given protection, and then no other translation has changed. Otherwise the
  error is \<^verbatim>\<open>-EEXIST\<close>, when a page of the range was mapped already, or \<^verbatim>\<open>-ENOMEM\<close>, and every translation is what it was: the
  pages mapped before the error have been unmapped again.
\<close>

theorem arch_hw_mmap_correct:
  assumes "vm_space cfg root s" "vm_args va pa prot sz"
  shows "\<exists>ret s'. arch_hw_mmap cfg root va pa prot sz s = Some (ret, s') \<and> vm_space cfg root s' \<and> vm_frame cfg root s s' \<and>
    (ret = 0 \<longrightarrow> (\<forall>v \<in> vm_range va sz. vm_maps cfg root s v = None) \<and>
       vm_maps cfg root s' = (\<lambda>v. if v \<in> vm_range va sz then Some (vm_entry va pa prot v) else vm_maps cfg root s v)) \<and>
    (ret \<noteq> 0 \<longrightarrow> vm_maps cfg root s' = vm_maps cfg root s \<and>
       (ret = - EEXIST \<and> (\<exists>v \<in> vm_range va sz. vm_maps cfg root s v \<noteq> None) \<or> ret = - ENOMEM))"
  using assms by (rule mmap_law)

theorem arch_hw_mmap_correct_witness:
  "\<exists>s'. arch_hw_mmap range3 tab0 0x1000 0x80001000 7 0x1000 sv_demo = Some (0, s') \<and> vm_space range3 tab0 s' \<and>
     vm_maps range3 tab0 s' 1 = Some (SV39_Pa2PTE 0x80001000 7)"
proof -
  have e: "vm_entry 0x1000 0x80001000 7 1 = SV39_Pa2PTE 0x80001000 7" by (simp add: vm_entry_def pos_def vpn_def pages_bytes_def)
  obtain t where t: "arch_hw_mmap range3 tab0 0x1000 0x80001000 7 0x1000 sv_demo = Some (0, t)" using demo_map by blast
  have "vm_space range3 tab0 t" "vm_maps range3 tab0 t = (\<lambda>v. if v \<in> {1} then Some (vm_entry 0x1000 0x80001000 7 v) else vm_maps range3 tab0 sv_demo v)"
    using arch_hw_mmap_correct [OF sv_demo_space demo_args(1)] unfolding t demo_ranges by auto
  then show ?thesis using t e by simp
qed



text \<open>
  C17: unmapping what \<^verbatim>\<open>__arch_hw_mmap\<close> has mapped restores every translation of the address space.
\<close>

theorem arch_hw_mmap_unmap:
  assumes "vm_space cfg root s" "vm_args va pa prot sz" "arch_hw_mmap cfg root va pa prot sz s = Some (0, t)"
  shows "\<exists>u. arch_hw_unmap cfg root va sz t = Some u \<and> vm_space cfg root u \<and> vm_maps cfg root u = vm_maps cfg root s"
  using sv.map_unmap [of cfg root s "(va, pa, prot, sz)" t] assms by (simp add: req_defs)

theorem arch_hw_mmap_unmap_witness:
  "\<exists>t u. arch_hw_mmap range3 tab0 0x1000 0x80001000 7 0x1000 sv_demo = Some (0, t) \<and> arch_hw_unmap range3 tab0 0x1000 0x1000 t = Some u \<and>
     vm_maps range3 tab0 u = vm_maps range3 tab0 sv_demo"
  using demo_map arch_hw_mmap_unmap [OF sv_demo_space demo_args(1)] by blast

text \<open>
  C18: \<^verbatim>\<open>__arch_hw_unmap_all\<close> always returns on a well-formed tree: no translation is left, every table but the root has gone back to
  the page allocator, and nothing but tables is touched.
\<close>

theorem arch_hw_unmap_all_correct:
  assumes "vm_space cfg root s"
  shows "\<exists>s'. arch_hw_unmap_all cfg root s = Some s' \<and> vm_space cfg root s' \<and> vm_frame cfg root s s' \<and>
    vm_maps cfg root s' = (\<lambda>_. None) \<and> pt_pages cfg (mem s') 2 root = {root} \<and>
    pg2va cfg ` (free_pages s' - free_pages s) = pt_pages cfg (mem s) 2 root - {root}"
proof -
  note pre = assms [unfolded vm_space_def]
  obtain Q s' where r: "riscv_free_loop cfg (2 - 2) 0 root s = Some s'" "free_done cfg 2 root 0 Q s s'"
    using free_correct [OF pre order_refl] by blast
  have u: "unmap_post cfg 2 root UNIV Q s s'" and nv: "\<forall>j < 512. \<not> valid (mem s') root j" using r(2) by (simp_all add: free_done_def)
  note sh = unmap_postD(1) [OF u]
  have N: "(512 :: nat) ^ Suc 2 = 512 ^ 3" by simp
  have pg: "pt_pages cfg (mem s') 2 root = {root}" using no_children [OF nv] .
  have "Q \<inter> free_pages s = {}"
    using shrunkD(2) [OF sh] used_page_not_free [OF walk_preD(1) [OF pre]] by (auto simp: table_ids_def)
  then have "free_pages s' - free_pages s = Q" unfolding shrunkD(3) [OF sh] by blast
  moreover have "pg2va cfg ` Q = pt_pages cfg (mem s) 2 root - {root}" using unmap_postD(3,4) [OF u] pg by blast
  moreover have "vm_maps cfg root s' = (\<lambda>_. None)" using unmap_postD(6) [OF u, unfolded N] by (auto simp: vm_maps_def fun_eq_iff)
  moreover have "arch_hw_unmap_all cfg root s = Some s'"
    using r(1) vm_space_root [OF assms] by (simp add: arch_hw_unmap_all_def riscv_free_pgtable_def ASSERT_def)
  ultimately show ?thesis using pg shrunk_frame [OF assms u] unmap_post_pre [OF pre u] by (simp add: vm_space_def)
qed

theorem arch_hw_unmap_all_correct_witness:
  "\<exists>s'. arch_hw_unmap_all range3 tab0 sv_demo = Some s' \<and> vm_maps range3 tab0 s' = (\<lambda>_. None) \<and>
     pg2va range3 ` (free_pages s' - free_pages sv_demo) = {tab1, tab2}"
  using arch_hw_unmap_all_correct [OF sv_demo_space] tab_apart unfolding demo_pages(3) by auto

text \<open>
  C19: no sequence of calls of \<^verbatim>\<open>__arch_hw_mmap\<close>, successful or not, and of \<^verbatim>\<open>__arch_hw_unmap\<close> on mapped ranges leaves a translation that
  was neither there before nor asked for by one of the calls, and every call returns.
\<close>

theorem arch_hw_no_spurious:
  assumes "vm_space cfg root s" "\<forall>x \<in> set xs. req_ok (page_mapper.op_req x)"
  shows "\<exists>s'. page_mapper.op_run (vm_maps cfg root) req_pages (req_mmap cfg root) (req_unmap cfg root) xs s = Some s' \<and> vm_space cfg root s' \<and>
    (\<forall>v e. vm_maps cfg root s' v = Some e \<longrightarrow> vm_maps cfg root s v = Some e \<or>
       (\<exists>va pa prot sz. VmMap (va, pa, prot, sz) \<in> set xs \<and> v \<in> vm_range va sz \<and> e = vm_entry va pa prot v))"
  using sv.op_run_ok [OF assms] by (simp add: req_pages_def req_entry_def)

theorem arch_hw_no_spurious_witness:
  "\<exists>s'. page_mapper.op_run (vm_maps range3 tab0) req_pages (req_mmap range3 tab0) (req_unmap range3 tab0)
      [VmMap (0x1000, 0x80001000, 7, 0x1000), VmUnmap (0, 0x80000000, 15, 0x1000)] sv_demo = Some s' \<and> vm_space range3 tab0 s'"
  using arch_hw_no_spurious [OF sv_demo_space, of "[VmMap (0x1000, 0x80001000, 7, 0x1000), VmUnmap (0, 0x80000000, 15, 0x1000)]"] demo_args
  by (auto simp: req_ok_def)

text \<open>
  The fields of an entry of asm/vm.h: a page-aligned physical address below \<open>2 ^ 56\<close> and ten bits of flags go in and come out
  again, and an entry made with \<^verbatim>\<open>VM_PROT_V\<close> alone is a reference to a table.
\<close>

theorem SV39_PTE_fields:
  assumes "aligned pa" "unat pa < 2 ^ 56"
  shows "SV39_PTE2Pa (SV39_Pa2PTE pa fl) = pa \<and> SV39_Pa2PTE pa fl AND 0x3ff = fl AND 0x3ff \<and> PTE_NEXTPGT (SV39_Pa2PTE pa VM_PROT_V)"
proof -
  have "SV39_Pa2PTE pa fl AND 0x3ff = fl AND 0x3ff"
    unfolding masks by (rule bit_word_eqI) (simp add: bit_simps bit_Pa2PTE)
  then show ?thesis using PTE_roundtrip [OF assms] table_entry by blast
qed

theorem SV39_PTE_fields_witness: "SV39_PTE2Pa (SV39_Pa2PTE 0x80201000 7) = 0x80201000"
  using SV39_PTE_fields [of "0x80201000" 7] by (simp add: page_aligned_iff)

end
