(* ===== verification/VmaOps.thy ===== *)
theory VmaOps
  imports Vm
begin

unbundle bit_operations_syntax

text \<open>
  The areas of an address space: the AVL tree and the list hold the same areas in the order of their addresses,
  and the areas do not overlap. \<^verbatim>\<open>vma_area_hang\<close> and \<^verbatim>\<open>vma_area_unhang\<close> keep this; \<^verbatim>\<open>vm_check\<close> decides whether the areas are
  sound.
\<close>

subsection \<open>Areas in order\<close>

definition area_lo :: "vma_area \<Rightarrow> nat" where "area_lo ar = unat (va ar)"
definition area_hi :: "vma_area \<Rightarrow> nat" where "area_hi ar = unat (va ar) + unat (asize ar)"

text \<open>A range of addresses that is not empty and does not wrap around.\<close>

definition area_ok :: "vma_area \<Rightarrow> bool" where
  "area_ok ar \<longleftrightarrow> asize ar \<noteq> 0 \<and> area_hi ar < 2 ^ 64"

definition overlap :: "vma_area \<Rightarrow> vma_area \<Rightarrow> bool" where
  "overlap a b \<longleftrightarrow> area_lo a < area_hi b \<and> area_lo b < area_hi a"

abbreviation area_at :: "'a vm_scheme \<Rightarrow> u64 \<Rightarrow> vma_area" where
  "area_at s x \<equiv> the (areas s x)"

definition areas_ok :: "'a vm_scheme \<Rightarrow> u64 list \<Rightarrow> bool" where
  "areas_ok s xs \<longleftrightarrow> (\<forall>x \<in> set xs. areas s x \<noteq> None \<and> area_ok (area_at s x) \<and> a_node x \<noteq> 0) \<and>
     sorted_wrt (\<lambda>x y. area_hi (area_at s x) \<le> area_lo (area_at s y)) xs"

text \<open>Tree and list of the address space \<open>v\<close> hold the areas \<open>xs\<close>.\<close>

definition vma_view :: "u64 \<Rightarrow> 'a vm_scheme \<Rightarrow> u64 list \<Rightarrow> bool" where
  "vma_view v s xs \<longleftrightarrow> (\<exists>t. tree_of v s = Some t \<and> avl_view t (map a_node xs)) \<and>
     is_list (lheap s) (l_list v) (map l_node xs) \<and> areas_ok s xs"

text \<open>An area object that may be hung on \<open>v\<close>.\<close>

definition vma_fresh :: "u64 \<Rightarrow> u64 \<Rightarrow> 'a vm_scheme \<Rightarrow> bool" where
  "vma_fresh v x s \<longleftrightarrow> areas s x \<noteq> None \<and> area_ok (area_at s x) \<and> a_node x \<noteq> 0 \<and> aheap s (a_node x) \<noteq> None \<and>
     l_node x \<in> dom (lheap s) \<and> l_node x \<noteq> l_list v"

text \<open>What hanging and unhanging leave alone.\<close>

definition vma_frame :: "u64 \<Rightarrow> u64 set \<Rightarrow> 'a vm_scheme \<Rightarrow> 'a vm_scheme \<Rightarrow> bool" where
  "vma_frame v X s s' \<longleftrightarrow> areas s' = areas s \<and> rwl s' = rwl s \<and> mem s' = mem s \<and> pgframe_pages s' = pgframe_pages s \<and>
     held s' = held s \<and> order_pools s' = order_pools s \<and> slabs s' = slabs s \<and> caches s' = caches s \<and> kern_vma s' = kern_vma s \<and>
     vma_cache s' = vma_cache s \<and> vma_area_cache s' = vma_area_cache s \<and> (\<forall>w. w \<noteq> v \<longrightarrow> vmas s' w = vmas s w) \<and>
     (\<forall>vm. vmas s v = Some vm \<longrightarrow> (\<exists>r. vmas s' v = Some (vm\<lparr>a_root := r\<rparr>))) \<and>
     (\<forall>n. n \<notin> a_node ` X \<longrightarrow> aheap s' n = aheap s n) \<and>
     (\<forall>n. n \<notin> insert (l_list v) (l_node ` X) \<longrightarrow> lheap s' n = lheap s n)"

lemma node_inj: "a_node x = a_node y \<longleftrightarrow> x = y" "l_node x = l_node y \<longleftrightarrow> x = y" "a_area (a_node x) = x" "l_area (l_node x) = x"
  by (simp_all add: a_node_def l_node_def a_area_def l_area_def)

lemma node_notin: "a_node x \<in> a_node ` X \<longleftrightarrow> x \<in> X" "l_node x \<in> l_node ` X \<longleftrightarrow> x \<in> X"
  by (auto simp: node_inj)

text \<open>The list is a ring: it can be read from any of its nodes.\<close>

lemma is_list_rotate: "is_list h l (ys @ y # zs) \<longleftrightarrow> is_list h y (zs @ l # ys)"
  by (auto simp: is_list_def)

lemma node_add_aft_spec:
  assumes "is_list h l (ys @ y # zs)" "n \<in> dom h" "n \<notin> set (l # ys @ y # zs)"
  shows "\<exists>h'. node_add_aft y n h = Some h' \<and> is_list h' l (ys @ y # n # zs) \<and> (\<forall>a. a \<notin> set (n # l # ys @ y # zs) \<longrightarrow> h' a = h a)"
proof -
  obtain h' where h': "list_add n y h = Some h'" "is_list h' y (n # zs @ l # ys)" "\<forall>a. a \<notin> set (n # y # zs @ l # ys) \<longrightarrow> h' a = h a"
    using list_add_spec [of h y "zs @ l # ys" n] assms is_list_rotate [of h l ys y zs] by auto
  then have "is_list h' l (ys @ y # n # zs)" using is_list_rotate [of h' l ys y "n # zs"] by simp
  then show ?thesis using h' by (auto simp: node_add_aft_def)
qed

subsection \<open>The comparisons\<close>

definition cmp_ins :: "'a vm_scheme \<Rightarrow> u64 \<Rightarrow> u64 \<Rightarrow> int" where
  "cmp_ins s x n = (let a = area_at s x; b = area_at s (a_area n) in
     if area_hi b \<le> area_lo a then 1 else if area_hi a \<le> area_lo b then - 1 else 0)"

lemma unat_area_hi: "area_ok ar \<Longrightarrow> unat (va ar + asize ar) = area_hi ar"
  by (simp add: area_ok_def area_hi_def unat_word_ariths)

lemma insert_compare_eq:
  assumes "areas s x \<noteq> None" "areas s y \<noteq> None" "area_ok (area_at s x)" "area_ok (area_at s y)"
  shows "insert_compare_vmarea (areas s) (a_node x) (a_node y) = Some (cmp_ins s x (a_node y))"
  using assms unat_area_hi [OF assms(3)] unat_area_hi [OF assms(4)]
  by (auto simp: insert_compare_vmarea_def cmp_ins_def node_inj word_le_nat_alt area_lo_def Let_def)

lemma cmp_ins_zero: "cmp_ins s x (a_node y) = 0 \<longleftrightarrow> overlap (area_at s x) (area_at s y)"
  by (auto simp: cmp_ins_def overlap_def node_inj Let_def not_le)

lemma area_nonempty: "area_ok ar \<Longrightarrow> area_lo ar < area_hi ar"
  by (simp add: area_ok_def area_lo_def area_hi_def unat_gt_0)

lemma cmp_ins_order:
  assumes "areas_ok s xs" "area_ok (area_at s x)"
  shows "in_order (cmp_ins s x) (map a_node xs)"
proof -
  let ?f = "\<lambda>y. cmp_ins s x (a_node y)"
  have "(0 < ?f z \<longrightarrow> 0 < ?f y) \<and> (?f y < 0 \<longrightarrow> ?f z < 0)"
    if "y \<in> set xs" "z \<in> set xs" "area_hi (area_at s y) \<le> area_lo (area_at s z)" for y z
  proof -
    have "area_lo (area_at s y) < area_hi (area_at s y)" "area_lo (area_at s z) < area_hi (area_at s z)"
      using assms(1) that(1,2) area_nonempty by (auto simp: areas_ok_def)
    then show ?thesis using that(3) area_nonempty [OF assms(2)] by (auto simp: cmp_ins_def node_inj Let_def split: if_splits)
  qed
  moreover have "sorted_wrt (\<lambda>y z. area_hi (area_at s y) \<le> area_lo (area_at s z)) xs" using assms(1) by (simp add: areas_ok_def)
  ultimately show ?thesis
    unfolding in_order_def sorted_wrt_map by (rule sorted_wrt_mono_rel)
qed


subsection \<open>vma_area_hang\<close>

lemma avl_eta [simp]: "\<lparr>anodes = anodes t, aroot = aroot t\<rparr> = (t :: avl)"
  by (cases t) simp

lemma tree_of_set: "vmas s v = Some vm \<Longrightarrow> tree_of v s = Some \<lparr>anodes = aheap s, aroot = a_root vm\<rparr>"
  by (simp add: tree_of_def)

lemma set_tree_same: "tree_of v s = Some t \<Longrightarrow> set_tree v t s = Some s"
  by (auto simp: tree_of_def set_tree_def bind_eq_Some_conv fun_upd_idem)

lemma areas_ok_insert:
  assumes "areas_ok s (ys @ zs)" "areas s x \<noteq> None" "area_ok (area_at s x)" "a_node x \<noteq> 0"
    "\<forall>y \<in> set ys. 0 < cmp_ins s x (a_node y)" "\<forall>z \<in> set zs. cmp_ins s x (a_node z) < 0"
  shows "areas_ok s (ys @ x # zs)"
proof -
  have "area_hi (area_at s y) \<le> area_lo (area_at s x)" if "y \<in> set ys" for y
    using assms(5) that by (auto simp: cmp_ins_def node_inj Let_def split: if_splits)
  moreover have "area_hi (area_at s x) \<le> area_lo (area_at s z)" if "z \<in> set zs" for z
    using assms(6) that by (auto simp: cmp_ins_def node_inj Let_def split: if_splits)
  ultimately show ?thesis using assms(1-4) by (auto simp: areas_ok_def sorted_wrt_append)
qed

lemma hang_law:
  assumes vw: "vma_view v s xs" and fr: "vma_fresh v x s" "x \<notin> set xs"
  shows "(\<exists>y \<in> set xs. overlap (area_at s x) (area_at s y)) \<and> vma_area_hang v x s = Some (- EEXIST, s) \<or>
    (\<forall>y \<in> set xs. \<not> overlap (area_at s x) (area_at s y)) \<and>
    (\<exists>ys zs s'. xs = ys @ zs \<and> vma_area_hang v x s = Some (0, s') \<and> vma_view v s' (ys @ x # zs) \<and> vma_frame v (insert x (set xs)) s s')"
proof -
  obtain vm where vm: "vmas s v = Some vm" using vw by (auto simp: vma_view_def tree_of_def bind_eq_Some_conv)
  let ?t = "\<lparr>anodes = aheap s, aroot = a_root vm\<rparr>"
  have t: "tree_of v s = Some ?t" "avl_view ?t (map a_node xs)" using vw vm by (auto simp: vma_view_def tree_of_set)
  have l: "is_list (lheap s) (l_list v) (map l_node xs)" and ok: "areas_ok s xs" using vw by (simp_all add: vma_view_def)
  have x: "areas s x \<noteq> None" "area_ok (area_at s x)" "a_node x \<noteq> 0" "avl_has (a_node x) ?t" "l_node x \<in> dom (lheap s)" "l_node x \<noteq> l_list v"
    using fr(1) by (auto simp: vma_fresh_def avl_has_def)
  have xn: "a_node x \<notin> set (map a_node xs)" "l_node x \<notin> set (l_list v # map l_node xs)" using fr(2) x(6) by (auto simp: node_inj)
  have c: "insert_compare_vmarea (areas s) (a_node x) n = Some (cmp_ins s x n)" if n: "n \<in> set (map a_node xs)" for n
  proof -
    obtain y where y: "n = a_node y" "y \<in> set xs" using n by auto
    then show ?thesis using insert_compare_eq [of s x y] x(1,2) ok by (auto simp: areas_ok_def)
  qed
  consider a where "a \<in> set (map a_node xs)" "cmp_ins s x a = 0" "avl_node_add (a_node x) (insert_compare_vmarea (areas s) (a_node x)) ?t = Some (a, ?t)"
    | as bs t' where "map a_node xs = as @ bs" "\<forall>y \<in> set as. 0 < cmp_ins s x y" "\<forall>z \<in> set bs. cmp_ins s x z < 0"
      "avl_node_add (a_node x) (insert_compare_vmarea (areas s) (a_node x)) ?t = Some (0, t')" "avl_view t' (as @ a_node x # bs)"
      "elsewhere ?t (insert (a_node x) (set (map a_node xs))) t'"
    using avl.add_law [OF t(2) x(4,3) xn(1) c cmp_ins_order [OF ok x(2)]] by blast
  then show ?thesis
  proof cases
    case 1
    then obtain y where y: "y \<in> set xs" "a = a_node y" by auto
    have "a \<noteq> 0" using ok y by (auto simp: areas_ok_def)
    then have "vma_area_hang v x s = Some (- EEXIST, s)" using 1(3) t(1) set_tree_same [OF t(1)] by (simp add: vma_area_hang_def)
    then show ?thesis using y 1(2) cmp_ins_zero [of s x y] by blast
  next
    case 2
    obtain ys zs where s: "xs = ys @ zs" "as = map a_node ys" "bs = map a_node zs" using 2(1) by (auto simp: map_eq_append_conv)
    let ?s = "s\<lparr>aheap := anodes t', vmas := (vmas s)(v \<mapsto> vm\<lparr>a_root := aroot t'\<rparr>)\<rparr>"
    have st: "set_tree v t' s = Some ?s" "tree_of v ?s = Some t'" using vm by (simp_all add: set_tree_def tree_of_def)
    have pv: "avl_node_prev (a_node x) t' = Some (or_null last (map a_node ys))" using avl.prev_law [OF 2(5)] s(2) by simp
    have no: "\<forall>y \<in> set xs. \<not> overlap (area_at s x) (area_at s y)"
    proof
      fix y assume "y \<in> set xs"
      then have "0 < cmp_ins s x (a_node y) \<or> cmp_ins s x (a_node y) < 0" using 2(2,3) s by auto
      then show "\<not> overlap (area_at s x) (area_at s y)" unfolding cmp_ins_zero [symmetric] by linarith
    qed
    have ord: "areas_ok s (ys @ x # zs)" by (rule areas_ok_insert) (use ok s 2(2,3) x in auto)
    have "\<exists>h. is_list h (l_list v) (map l_node (ys @ x # zs)) \<and> vma_area_hang v x s = Some (0, ?s\<lparr>lheap := h\<rparr>) \<and>
      (\<forall>n. n \<notin> insert (l_list v) (l_node ` insert x (set xs)) \<longrightarrow> h n = lheap s n)"
    proof (cases ys rule: rev_cases)
      case Nil
      obtain h where h: "list_add (l_node x) (l_list v) (lheap s) = Some h" "is_list h (l_list v) (l_node x # map l_node xs)"
        "\<forall>a. a \<notin> set (l_node x # l_list v # map l_node xs) \<longrightarrow> h a = lheap s a"
        using list_add_spec [OF l x(5) xn(2)] by blast
      then show ?thesis using t(1) st 2(4) pv Nil s(1) by (auto simp: vma_area_hang_def or_null_def on_list_def)
    next
      case (snoc us y)
      have y0: "a_node y \<noteq> 0" using ok s(1) snoc by (auto simp: areas_ok_def)
      have l': "is_list (lheap s) (l_list v) (map l_node us @ l_node y # map l_node zs)" using l s(1) snoc by simp
      obtain h where h: "node_add_aft (l_node y) (l_node x) (lheap s) = Some h"
        "is_list h (l_list v) (map l_node us @ l_node y # l_node x # map l_node zs)"
        "\<forall>a. a \<notin> set (l_node x # l_list v # map l_node us @ l_node y # map l_node zs) \<longrightarrow> h a = lheap s a"
        using node_add_aft_spec [OF l' x(5)] xn(2) s(1) snoc by auto
      then show ?thesis using t(1) st 2(4) pv snoc s(1) y0 by (auto simp: vma_area_hang_def or_null_def on_list_def node_inj)
    qed
    then obtain h where h: "is_list h (l_list v) (map l_node (ys @ x # zs))" "vma_area_hang v x s = Some (0, ?s\<lparr>lheap := h\<rparr>)"
      "\<forall>n. n \<notin> insert (l_list v) (l_node ` insert x (set xs)) \<longrightarrow> h n = lheap s n" by blast
    have "vma_view v (?s\<lparr>lheap := h\<rparr>) (ys @ x # zs)"
      using h(1) ord 2(5) s by (simp add: vma_view_def tree_of_def areas_ok_def)
    moreover have "vma_frame v (insert x (set xs)) s (?s\<lparr>lheap := h\<rparr>)"
      using h(3) 2(6) vm by (auto simp: vma_frame_def elsewhere_def)
    ultimately show ?thesis using no h(2) s(1) by blast
  qed
qed


subsection \<open>vma_area_unhang\<close>

lemma unhang_law:
  assumes vw: "vma_view v s (ys @ x # zs)"
  shows "\<exists>s'. vma_area_unhang v x s = Some s' \<and> vma_view v s' (ys @ zs) \<and> vma_frame v (set (ys @ x # zs)) s s'"
proof -
  obtain vm where vm: "vmas s v = Some vm" using vw by (auto simp: vma_view_def tree_of_def bind_eq_Some_conv)
  have l: "is_list (lheap s) (l_list v) (map l_node ys @ l_node x # map l_node zs)" and ok: "areas_ok s (ys @ x # zs)"
    and t: "avl_view \<lparr>anodes = aheap s, aroot = a_root vm\<rparr> (map a_node ys @ a_node x # map a_node zs)"
    using vw vm by (auto simp: vma_view_def tree_of_set)
  obtain h where h: "list_del (l_node x) (lheap s) = Some h" "is_list h (l_list v) (map l_node ys @ map l_node zs)"
    "\<forall>a. a \<notin> set (l_list v # map l_node ys @ l_node x # map l_node zs) \<longrightarrow> h a = lheap s a" using list_del_spec [OF l] by blast
  obtain t' where t': "avl_node_erase (a_node x) \<lparr>anodes = aheap s, aroot = a_root vm\<rparr> = Some t'" "avl_view t' (map a_node ys @ map a_node zs)"
    "elsewhere \<lparr>anodes = aheap s, aroot = a_root vm\<rparr> (insert (a_node x) (set (map a_node ys) \<union> set (map a_node zs))) t'"
    using avl.erase_law [OF t] by blast
  let ?s = "s\<lparr>lheap := h, aheap := anodes t', vmas := (vmas s)(v \<mapsto> vm\<lparr>a_root := aroot t'\<rparr>)\<rparr>"
  have "vma_area_unhang v x s = Some ?s" using h(1) t'(1) vm by (simp add: vma_area_unhang_def on_list_def tree_of_def set_tree_def)
  moreover have "vma_view v ?s (ys @ zs)"
    using h(2) t'(2) ok by (auto simp: vma_view_def tree_of_def areas_ok_def sorted_wrt_append)
  moreover have "vma_frame v (set (ys @ x # zs)) s ?s" using h(3) t'(3) vm by (auto simp: vma_frame_def elsewhere_def)
  ultimately show ?thesis by blast
qed


subsection \<open>vm_check\<close>

definition area_sound :: "vma_area \<Rightarrow> bool" where
  "area_sound ar \<longleftrightarrow> VAL_IS_PAGE_ALIGNED (va ar) \<and> VAL_IS_PAGE_ALIGNED (pa ar) \<and> VAL_IS_PAGE_ALIGNED (asize ar) \<and>
     ((vmar_typ ar = VMA_IO \<or> vmar_typ ar = VMA_KERNEL) \<longrightarrow> pgfm ar = None) \<and> prot ar AND PROT_V \<noteq> 0"

definition cmp_key :: "'a vm_scheme \<Rightarrow> u64 \<Rightarrow> u64 \<Rightarrow> int" where
  "cmp_key s x n = (let a = area_at s x; b = area_at s (a_area n) in
     if va a = va b \<and> asize a = asize b then 0 else if area_hi b \<le> area_lo a then 1 else - 1)"

lemma find_compare_eq:
  assumes "areas s y \<noteq> None" "area_ok (area_at s y)"
  shows "find_compare (areas s) (va (area_at s x), asize (area_at s x)) (a_node y) = Some (cmp_key s x (a_node y))"
  using assms unat_area_hi [OF assms(2)] by (auto simp: find_compare_def cmp_key_def node_inj Let_def word_le_nat_alt area_lo_def)

lemma cmp_key_order:
  assumes "areas_ok s xs"
  shows "in_order (cmp_key s x) (map a_node xs)"
proof -
  let ?f = "\<lambda>y. cmp_key s x (a_node y)"
  define e where "e w \<longleftrightarrow> va (area_at s x) = va (area_at s w) \<and> asize (area_at s x) = asize (area_at s w)" for w
  have "(0 < ?f z \<longrightarrow> 0 < ?f y) \<and> (?f y < 0 \<longrightarrow> ?f z < 0)"
    if "y \<in> set xs" "z \<in> set xs" "area_hi (area_at s y) \<le> area_lo (area_at s z)" for y z
  proof -
    have "area_lo (area_at s y) < area_hi (area_at s y)" "area_lo (area_at s z) < area_hi (area_at s z)"
      using assms(1) that(1,2) area_nonempty by (auto simp: areas_ok_def)
    moreover have f: "0 < ?f w \<longleftrightarrow> \<not> e w \<and> area_hi (area_at s w) \<le> area_lo (area_at s x)"
      "?f w < 0 \<longleftrightarrow> \<not> e w \<and> \<not> area_hi (area_at s w) \<le> area_lo (area_at s x)" "e w \<Longrightarrow> area_lo (area_at s x) = area_lo (area_at s w)" for w
      by (simp_all add: cmp_key_def node_inj Let_def e_def area_lo_def)
    ultimately show ?thesis unfolding f(1,2) using f(3) [of y] f(3) [of z] that(3) by linarith
  qed
  moreover have "sorted_wrt (\<lambda>y z. area_hi (area_at s y) \<le> area_lo (area_at s z)) xs" using assms(1) by (simp add: areas_ok_def)
  ultimately show ?thesis
    unfolding in_order_def sorted_wrt_map by (rule sorted_wrt_mono_rel)
qed

text \<open>Two areas of the list with the same address are the same.\<close>

lemma cmp_key_zero:
  assumes "areas_ok s xs" "x \<in> set xs" "y \<in> set xs" "cmp_key s x (a_node y) = 0"
  shows "y = x"
proof (rule ccontr)
  assume ne: "y \<noteq> x"
  have so: "sorted_wrt (\<lambda>x y. area_hi (area_at s x) \<le> area_lo (area_at s y)) xs" using assms(1) by (simp add: areas_ok_def)
  have "area_hi (area_at s x) \<le> area_lo (area_at s y) \<or> area_hi (area_at s y) \<le> area_lo (area_at s x)"
    using so assms(2,3) ne by (induction xs) auto
  moreover have "area_lo (area_at s x) = area_lo (area_at s y)"
    using assms(4) by (auto simp: cmp_key_def node_inj Let_def area_lo_def split: if_splits)
  moreover have "area_lo (area_at s x) < area_hi (area_at s x)" "area_lo (area_at s y) < area_hi (area_at s y)"
    using assms(1-3) area_nonempty by (auto simp: areas_ok_def)
  ultimately show False by linarith
qed

lemma find_area:
  assumes vw: "vma_view v s xs" and x: "x \<in> set xs"
  shows "\<exists>t. tree_of v s = Some t \<and> avl_node_find (find_compare (areas s) (va (area_at s x), asize (area_at s x))) t = Some (a_node x)"
proof -
  obtain t where t: "tree_of v s = Some t" "avl_view t (map a_node xs)" and ok: "areas_ok s xs" using vw by (auto simp: vma_view_def)
  have c: "find_compare (areas s) (va (area_at s x), asize (area_at s x)) n = Some (cmp_key s x n)" if n: "n \<in> set (map a_node xs)" for n
    using n find_compare_eq [of s _ x] ok by (auto simp: areas_ok_def)
  obtain r where r: "avl_node_find (find_compare (areas s) (va (area_at s x), asize (area_at s x))) t = Some r"
    "if r = 0 then \<forall>a \<in> set (map a_node xs). cmp_key s x a \<noteq> 0 else r \<in> set (map a_node xs) \<and> cmp_key s x r = 0"
    using avl.find_law [OF t(2) c cmp_key_order [OF ok]] by blast
  have "cmp_key s x (a_node x) = 0" by (simp add: cmp_key_def node_inj)
  then have "r \<noteq> 0" using r(2) x by auto
  then obtain y where "r = a_node y" "y \<in> set xs" "cmp_key s x (a_node y) = 0" using r(2) by auto
  then show ?thesis using cmp_key_zero [OF ok x] t(1) r(1) by auto
qed

lemma check_area:
  assumes vw: "vma_view v s (ys @ x # zs)" and bs: "bs = (if ys = [] then (- 1, - 1) else (va (area_at s (last ys)), asize (area_at s (last ys))))"
  shows "vm_check_area v x bs s =
    Some (if area_sound (area_at s x) then Some (va (area_at s x), asize (area_at s x)) else None)"
proof -
  have ok: "areas_ok s (ys @ x # zs)" using vw by (simp add: vma_view_def)
  then have x: "areas s x = Some (area_at s x)" "0 < asize (area_at s x)" by (auto simp: areas_ok_def area_ok_def word_gt_0)
  obtain t where t: "tree_of v s = Some t" "avl_node_find (find_compare (areas s) (va (area_at s x), asize (area_at s x))) t = Some (a_node x)"
    using find_area [OF vw, of x] by auto
  have nz: "a_node x \<noteq> 0" using ok by (auto simp: areas_ok_def)
  have "fst bs = - 1 \<or> va (area_at s x) \<ge> fst bs + snd bs"
  proof (cases ys rule: rev_cases)
    case (snoc us y)
    have "area_ok (area_at s y)" "area_hi (area_at s y) \<le> area_lo (area_at s x)" using ok snoc by (auto simp: areas_ok_def sorted_wrt_append)
    then show ?thesis using bs snoc unat_area_hi [of "area_at s y"] by (simp add: word_le_nat_alt area_lo_def)
  qed (use bs in simp)
  moreover obtain ar where "areas s x = Some ar" using x(1) by blast
  ultimately show ?thesis
    using x(2) t nz by (auto simp: vm_check_area_def area_sound_def node_inj)
qed

lemma check_loop:
  assumes "vma_view v s (ys @ xs)" "bs = (if ys = [] then (- 1, - 1) else (va (area_at s (last ys)), asize (area_at s (last ys))))"
  shows "vm_check_loop v (hd (map l_node xs @ [l_list v])) bs s = Some (if \<forall>x \<in> set xs. area_sound (area_at s x) then 0 else - EFAULT)"
  using assms
proof (induction xs arbitrary: ys bs)
  case Nil
  then show ?case by (simp add: vm_check_loop.simps)
next
  case (Cons x xs)
  have l: "is_list (lheap s) (l_list v) (map l_node ys @ l_node x # map l_node xs)" using Cons.prems(1) by (simp add: vma_view_def)
  then have ne: "l_node x \<noteq> l_list v" by (auto simp: is_list_def)
  have nx: "get_next (l_node x) (lheap s) = Some (hd (map l_node xs @ [l_list v]))"
    using l chain_ends(1) [of "lheap s" "l_node x" "map l_node xs" "l_list v"] by (simp add: is_list_def)
  show ?case
  proof (cases "area_sound (area_at s x)")
    case True
    have "vm_check_loop v (hd (map l_node xs @ [l_list v])) (va (area_at s x), asize (area_at s x)) s =
        Some (if \<forall>x \<in> set xs. area_sound (area_at s x) then 0 else - EFAULT)"
      by (rule Cons.IH [of "ys @ [x]"]) (use Cons.prems(1) in simp_all)
    then show ?thesis using True ne nx check_area [OF Cons.prems] by (simp add: vm_check_loop.simps [of v "l_node x"] node_inj)
  next
    case False
    then show ?thesis using ne check_area [OF Cons.prems] by (simp add: vm_check_loop.simps [of v "l_node x"] node_inj)
  qed
qed

end
