(* ===== verification/VmaProps.thy ===== *)
theory VmaProps
  imports VmaOps KmemContract
begin

unbundle bit_operations_syntax

text \<open>
  The interface through which \<^verbatim>\<open>vm.c\<close> keeps its areas, and the properties of \<^verbatim>\<open>vma_area_ops.c\<close> and of \<^verbatim>\<open>vm_check\<close>.
\<close>

subsection \<open>The interface\<close>

locale area_index =
  fixes view :: "'s \<Rightarrow> 'x list \<Rightarrow> bool"
    and fresh :: "'x \<Rightarrow> 's \<Rightarrow> bool"
    and clash :: "'s \<Rightarrow> 'x \<Rightarrow> 'x \<Rightarrow> bool"
    and hang :: "'x \<Rightarrow> 's \<Rightarrow> (int \<times> 's) option"
    and unhang :: "'x \<Rightarrow> 's \<Rightarrow> 's option"
    and err :: int
  assumes hang_law: "view s xs \<Longrightarrow> fresh x s \<Longrightarrow> x \<notin> set xs \<Longrightarrow>
      (\<exists>y \<in> set xs. clash s x y) \<and> hang x s = Some (err, s) \<or>
      (\<forall>y \<in> set xs. \<not> clash s x y) \<and> (\<exists>ys zs t. xs = ys @ zs \<and> hang x s = Some (0, t) \<and> view t (ys @ x # zs) \<and> clash t = clash s \<and>
         (\<forall>z. fresh z s \<longrightarrow> z \<notin> set (x # xs) \<longrightarrow> fresh z t))"
    and unhang_law: "view s (ys @ x # zs) \<Longrightarrow> \<exists>t. unhang x s = Some t \<and> view t (ys @ zs)"
    and err_nz: "err \<noteq> 0"
begin

lemma hang_unhang:
  assumes "view s xs" "fresh x s" "x \<notin> set xs" "\<forall>y \<in> set xs. \<not> clash s x y"
  shows "\<exists>t u. hang x s = Some (0, t) \<and> unhang x t = Some u \<and> view u xs"
  using hang_law [OF assms(1-3)] assms(4) unhang_law by blast

fun hang_all :: "'x list \<Rightarrow> 's \<Rightarrow> 's option" where
  "hang_all [] s = Some s"
| "hang_all (x # xs) s = do { (r, s) \<leftarrow> hang x s; if r = 0 then hang_all xs s else None }"

text \<open>Areas that do not clash can be hung one after the other, in any order.\<close>

lemma hang_all_ok:
  assumes "view s xs" "\<forall>x \<in> set ns. fresh x s \<and> x \<notin> set xs" "distinct ns"
    "\<forall>x \<in> set ns. \<forall>y \<in> set xs \<union> set ns. x \<noteq> y \<longrightarrow> \<not> clash s x y"
  shows "\<exists>t zs. hang_all ns s = Some t \<and> view t zs \<and> set zs = set xs \<union> set ns"
  using assms
proof (induction ns arbitrary: s xs)
  case Nil
  then show ?case by auto
next
  case (Cons x ns)
  have x: "fresh x s" "x \<notin> set xs" and "\<forall>y \<in> set xs. \<not> clash s x y" using Cons.prems(2,4) by auto
  then obtain ys zs t where t: "xs = ys @ zs" "hang x s = Some (0, t)" "view t (ys @ x # zs)" "clash t = clash s"
    "\<And>z. fresh z s \<Longrightarrow> z \<notin> set (x # xs) \<Longrightarrow> fresh z t"
    using hang_law [OF Cons.prems(1) x] by blast
  have f: "fresh z t" if "z \<in> set ns" for z by (rule t(5)) (use that Cons.prems(2,3) in auto)
  have "\<exists>u vs. hang_all ns t = Some u \<and> view u vs \<and> set vs = set (ys @ x # zs) \<union> set ns"
    by (rule Cons.IH [OF t(3)]) (use Cons.prems t(1,4) f in auto)
  then show ?case using t(1,2) by auto
qed

end

subsection \<open>The areas of vma_area_ops.c provide it\<close>

definition area_clash :: "'a vm_scheme \<Rightarrow> u64 \<Rightarrow> u64 \<Rightarrow> bool" where
  "area_clash s x y \<longleftrightarrow> overlap (area_at s x) (area_at s y)"

lemma fresh_frame:
  assumes "vma_frame v X s s'" "vma_fresh v z s" "z \<notin> X"
  shows "vma_fresh v z s'"
proof -
  have "aheap s' (a_node z) = aheap s (a_node z)" "lheap s' (l_node z) = lheap s (l_node z)" "areas s' = areas s"
    using assms node_notin by (auto simp: vma_frame_def vma_fresh_def)
  then show ?thesis using assms(2) by (auto simp: vma_fresh_def dom_def)
qed

interpretation va: area_index "vma_view v" "vma_fresh v" area_clash "vma_area_hang v" "vma_area_unhang v" "- EEXIST" for v
proof (unfold_locales, goal_cases)
  case (1 s xs x)
  show ?case
  proof (cases "\<exists>y \<in> set xs. area_clash s x y")
    case True
    then show ?thesis using hang_law [OF 1] by (auto simp: area_clash_def)
  next
    case False
    then obtain ys zs t where t: "xs = ys @ zs" "vma_area_hang v x s = Some (0, t)" "vma_view v t (ys @ x # zs)" "vma_frame v (insert x (set xs)) s t"
      using hang_law [OF 1] by (auto simp: area_clash_def)
    have "area_clash t = area_clash s" using t(4) by (auto simp: vma_frame_def area_clash_def fun_eq_iff)
    moreover have "vma_fresh v z t" if "vma_fresh v z s" "z \<notin> set (x # xs)" for z using fresh_frame [OF t(4) that(1)] that(2) by simp
    ultimately show ?thesis using False t(1-3) by blast
  qed
next
  case (2 s ys x zs)
  then show ?case using unhang_law by blast
next
  case 3
  then show ?case by (simp add: EEXIST_def)
qed

subsection \<open>A concrete address space\<close>

text \<open>The address space at \<open>0x1000\<close>, empty, and three areas: the third overlaps the first.\<close>

definition vm_demo :: vm where
  "vm_demo = kmem.extend demo_kmem
     \<lparr>lheap = [0x1028 \<mapsto> \<lparr>prev = 0x1028, next = 0x1028\<rparr>, 0x2030 \<mapsto> \<lparr>prev = 0, next = 0\<rparr>, 0x3030 \<mapsto> \<lparr>prev = 0, next = 0\<rparr>,
         0x4030 \<mapsto> \<lparr>prev = 0, next = 0\<rparr>],
       aheap = [0x2040 \<mapsto> demo_anode, 0x3040 \<mapsto> demo_anode, 0x4040 \<mapsto> demo_anode],
       areas = [0x2000 \<mapsto> \<lparr>vmar_typ = VMA_IO, va = 0x10000, asize = 0x2000, pa = 0x90000000, pgfm = None, prot = 7\<rparr>,
         0x3000 \<mapsto> \<lparr>vmar_typ = VMA_IO, va = 0x14000, asize = 0x1000, pa = 0x90004000, pgfm = None, prot = 7\<rparr>,
         0x4000 \<mapsto> \<lparr>vmar_typ = VMA_IO, va = 0x11000, asize = 0x1000, pa = 0x90004000, pgfm = None, prot = 7\<rparr>],
       vmas = [0x1000 \<mapsto> \<lparr>hw_pgtable = 0x3000001000, kernel_vma = 0x1000, a_root = 0\<rparr>],
       rwl = (\<lambda>_. 0), kern_vma = 0x1000, vma_cache = 0x5000, vma_area_cache = 0x5000, init_vma_num = 0, init_vma_area_num = 0,
       vm_module_init_done = 1\<rparr>"

lemma vm_demo_sel [simp]:
  "areas vm_demo 0x2000 = Some \<lparr>vmar_typ = VMA_IO, va = 0x10000, asize = 0x2000, pa = 0x90000000, pgfm = None, prot = 7\<rparr>"
  "areas vm_demo 0x3000 = Some \<lparr>vmar_typ = VMA_IO, va = 0x14000, asize = 0x1000, pa = 0x90004000, pgfm = None, prot = 7\<rparr>"
  "areas vm_demo 0x4000 = Some \<lparr>vmar_typ = VMA_IO, va = 0x11000, asize = 0x1000, pa = 0x90004000, pgfm = None, prot = 7\<rparr>"
  "vmas vm_demo 0x1000 = Some \<lparr>hw_pgtable = 0x3000001000, kernel_vma = 0x1000, a_root = 0\<rparr>"
  "kern_vma vm_demo = 0x1000" "rwl vm_demo v = 0"
  by (simp_all add: vm_demo_def kmem.defs)

lemma vm_demo_view: "vma_view 0x1000 vm_demo []"
  by (simp add: vma_view_def tree_of_def avl_view_empty areas_ok_def is_list_def l_list_def get_next_def get_prev_def)
    (simp add: vm_demo_def kmem.defs)

lemma vm_demo_fresh: "vma_fresh 0x1000 0x2000 vm_demo" "vma_fresh 0x1000 0x3000 vm_demo" "vma_fresh 0x1000 0x4000 vm_demo"
  by (simp_all add: vma_fresh_def area_ok_def area_hi_def a_node_def l_node_def l_list_def) (simp_all add: vm_demo_def kmem.defs)

lemma vm_demo_one: "\<exists>s :: vm. vma_view 0x1000 s [0x2000] \<and> vma_fresh 0x1000 0x3000 s \<and> vma_fresh 0x1000 0x4000 s \<and>
  areas s = areas vm_demo \<and> rwl s = rwl vm_demo \<and> kern_vma s = 0x1000 \<and> (\<exists>r. vmas s 0x1000 = Some \<lparr>hw_pgtable = 0x3000001000, kernel_vma = 0x1000, a_root = r\<rparr>)"
proof -
  obtain s where s: "vma_view 0x1000 s [0x2000]" "vma_frame 0x1000 {0x2000} vm_demo s"
    using hang_law [OF vm_demo_view vm_demo_fresh(1)] by auto
  have "\<exists>r. vmas s 0x1000 = Some \<lparr>hw_pgtable = 0x3000001000, kernel_vma = 0x1000, a_root = r\<rparr>" using s(2) by (auto simp: vma_frame_def)
  then show ?thesis
    using s fresh_frame [OF s(2) vm_demo_fresh(2)] fresh_frame [OF s(2) vm_demo_fresh(3)] by (intro exI [of _ s]) (simp add: vma_frame_def)
qed


subsection \<open>Properties\<close>

text \<open>
  C7: \<^verbatim>\<open>vma_area_hang\<close> keeps the AVL tree and the list of an address space in step: an area that overlaps none of the areas is put into
  both at the place of its address, and the areas stay in order and disjoint; an area that overlaps one is refused with
  \<^verbatim>\<open>-EEXIST\<close> and the state is unchanged. Nodes of other address spaces and every other part of the state stay as they are.
\<close>

theorem vma_area_hang_correct:
  assumes "vma_view v s xs" "vma_fresh v x s" "x \<notin> set xs"
  shows "(\<exists>y \<in> set xs. overlap (area_at s x) (area_at s y)) \<and> vma_area_hang v x s = Some (- EEXIST, s) \<or>
    (\<forall>y \<in> set xs. \<not> overlap (area_at s x) (area_at s y)) \<and>
    (\<exists>ys zs s'. xs = ys @ zs \<and> vma_area_hang v x s = Some (0, s') \<and> vma_view v s' (ys @ x # zs) \<and> vma_frame v (insert x (set xs)) s s')"
  using assms by (rule hang_law)

theorem vma_area_hang_correct_witness:
  "\<exists>s s' :: vm. vma_view 0x1000 s [0x2000] \<and> vma_area_hang 0x1000 0x4000 s = Some (- EEXIST, s) \<and>
     vma_area_hang 0x1000 0x3000 s = Some (0, s') \<and> vma_view 0x1000 s' [0x2000, 0x3000]"
proof -
  obtain s :: vm where s: "vma_view 0x1000 s [0x2000]" "vma_fresh 0x1000 0x3000 s" "vma_fresh 0x1000 0x4000 s" "areas s = areas vm_demo"
    using vm_demo_one by blast
  have o: "overlap (area_at s 0x4000) (area_at s 0x2000)" "\<not> overlap (area_at s 0x3000) (area_at s 0x2000)"
    using s(4) by (simp_all add: overlap_def area_lo_def area_hi_def)
  have "vma_area_hang 0x1000 0x4000 s = Some (- EEXIST, s)" using vma_area_hang_correct [OF s(1,3)] o(1) by simp
  moreover obtain ys zs s' where t: "[0x2000] = ys @ zs" "vma_area_hang 0x1000 0x3000 s = Some (0, s')" "vma_view 0x1000 s' (ys @ 0x3000 # zs)"
    "vma_frame 0x1000 {0x3000, 0x2000} s s'"
    using vma_area_hang_correct [OF s(1,2)] o(2) by auto
  have "ys = [0x2000] \<and> zs = []"
  proof (rule ccontr)
    assume "\<not> (ys = [0x2000] \<and> zs = [])"
    then have "ys @ 0x3000 # zs = [0x3000, 0x2000]" using t(1) by (auto simp: Cons_eq_append_conv)
    moreover have "areas s' = areas vm_demo" using t(4) s(4) by (simp add: vma_frame_def)
    ultimately show False using t(3) by (simp add: vma_view_def areas_ok_def area_lo_def area_hi_def)
  qed
  ultimately show ?thesis using s(1) t(2,3) by auto
qed

text \<open>
  C21: hanging an area on an address space and unhanging it gives the areas of before, in tree and list.
\<close>

theorem vma_area_hang_unhang:
  assumes "vma_view v s xs" "vma_fresh v x s" "x \<notin> set xs" "\<forall>y \<in> set xs. \<not> overlap (area_at s x) (area_at s y)"
  shows "\<exists>t u. vma_area_hang v x s = Some (0, t) \<and> vma_area_unhang v x t = Some u \<and> vma_view v u xs"
  by (rule va.hang_unhang) (use assms in \<open>simp_all add: area_clash_def\<close>)

theorem vma_area_hang_unhang_witness:
  "\<exists>t u. vma_area_hang 0x1000 0x2000 vm_demo = Some (0, t) \<and> vma_area_unhang 0x1000 0x2000 t = Some u \<and> vma_view 0x1000 u []"
  using vma_area_hang_unhang [OF vm_demo_view vm_demo_fresh(1)] by simp



end
