(* ===== verification/RbTree.thy ===== *)
theory RbTree
  imports Prelude
begin

text \<open>
  The red-black trees of \<^verbatim>\<open>lib/dstructer/rbtree.c\<close> and \<^verbatim>\<open>include/aco/rbtree.h\<close> at the level of their pointers. A
  node is found by its address in the heap \<open>rnodes\<close>; \<open>rroot\<close> is the field \<^verbatim>\<open>rb_node\<close> of the \<^verbatim>\<open>struct rb_root\<close> a
  function is given. Parent and colour share the word \<^verbatim>\<open>rb_parent_color\<close>: nodes are aligned to eight bytes, bit 0
  is the colour. Reading or writing through a pointer to no node (NULL included) has no result.
\<close>

subsection \<open>Nodes\<close>

record rb_node =
  rb_parent_color :: u64
  rb_right :: u64
  rb_left :: u64

record rb =
  rnodes :: "u64 \<rightharpoonup> rb_node"
  rroot :: u64

definition rget :: "u64 \<Rightarrow> rb \<Rightarrow> rb_node option" where
  "rget p s = rnodes s p"

definition rupd :: "u64 \<Rightarrow> (rb_node \<Rightarrow> rb_node) \<Rightarrow> rb \<Rightarrow> rb option" where
  "rupd p f s = do { n \<leftarrow> rnodes s p; Some (s\<lparr>rnodes := (rnodes s)(p \<mapsto> f n)\<rparr>) }"

definition RB_RED :: u64 where "RB_RED = 0"

definition RB_BLACK :: u64 where "RB_BLACK = 1"

definition parent_of :: "rb_node \<Rightarrow> u64" where
  "parent_of n = rb_parent_color n AND NOT 3"

definition color_of :: "rb_node \<Rightarrow> u64" where
  "color_of n = rb_parent_color n AND 1"

definition rb_parent :: "u64 \<Rightarrow> rb \<Rightarrow> u64 option" where
  "rb_parent r s = map_option parent_of (rget r s)"

definition rb_color :: "u64 \<Rightarrow> rb \<Rightarrow> u64 option" where
  "rb_color r s = map_option color_of (rget r s)"

definition rb_is_red :: "u64 \<Rightarrow> rb \<Rightarrow> bool option" where
  "rb_is_red r s = map_option (\<lambda>c. c = 0) (rb_color r s)"

definition rb_is_black :: "u64 \<Rightarrow> rb \<Rightarrow> bool option" where
  "rb_is_black r s = map_option (\<lambda>c. c \<noteq> 0) (rb_color r s)"

definition rb_set_red :: "u64 \<Rightarrow> rb \<Rightarrow> rb option" where
  "rb_set_red r s = rupd r (\<lambda>n. n\<lparr>rb_parent_color := rb_parent_color n AND NOT 1\<rparr>) s"

definition rb_set_black :: "u64 \<Rightarrow> rb \<Rightarrow> rb option" where
  "rb_set_black r s = rupd r (\<lambda>n. n\<lparr>rb_parent_color := rb_parent_color n OR 1\<rparr>) s"

definition rb_set_parent :: "u64 \<Rightarrow> u64 \<Rightarrow> rb \<Rightarrow> rb option" where
  "rb_set_parent r p s = rupd r (\<lambda>n. n\<lparr>rb_parent_color := (rb_parent_color n AND 3) OR p\<rparr>) s"

definition rb_set_color :: "u64 \<Rightarrow> u64 \<Rightarrow> rb \<Rightarrow> rb option" where
  "rb_set_color r color s = rupd r (\<lambda>n. n\<lparr>rb_parent_color := (rb_parent_color n AND NOT 1) OR color\<rparr>) s"

definition RB_EMPTY_ROOT :: "rb \<Rightarrow> bool" where
  "RB_EMPTY_ROOT s \<longleftrightarrow> rroot s = 0"

definition RB_EMPTY_NODE :: "u64 \<Rightarrow> rb \<Rightarrow> bool option" where
  "RB_EMPTY_NODE node s = map_option (\<lambda>p. p = node) (rb_parent node s)"

definition RB_CLEAR_NODE :: "u64 \<Rightarrow> rb \<Rightarrow> rb option" where
  "RB_CLEAR_NODE node s = rb_set_parent node node s"

definition rb_init_node :: "u64 \<Rightarrow> rb \<Rightarrow> rb option" where
  "rb_init_node r s = do {
     s \<leftarrow> rupd r (\<lambda>n. n\<lparr>rb_parent_color := 0, rb_right := 0, rb_left := 0\<rparr>) s;
     RB_CLEAR_NODE r s }"

text \<open>\<^verbatim>\<open>struct rb_node **rb_link\<close>: the root pointer or a child pointer of a node.\<close>

datatype rb_link = RootLink | LeftLink u64 | RightLink u64

definition rb_link_set :: "rb_link \<Rightarrow> u64 \<Rightarrow> rb \<Rightarrow> rb option" where
  "rb_link_set l v s = (case l of RootLink \<Rightarrow> Some (s\<lparr>rroot := v\<rparr>)
     | LeftLink p \<Rightarrow> rupd p (\<lambda>n. n\<lparr>rb_left := v\<rparr>) s | RightLink p \<Rightarrow> rupd p (\<lambda>n. n\<lparr>rb_right := v\<rparr>) s)"

definition rb_link_node :: "u64 \<Rightarrow> u64 \<Rightarrow> rb_link \<Rightarrow> rb \<Rightarrow> rb option" where
  "rb_link_node node parent link s = do {
     s \<leftarrow> rupd node (\<lambda>n. n\<lparr>rb_parent_color := parent\<rparr>) s;
     s \<leftarrow> rupd node (\<lambda>n. n\<lparr>rb_right := 0, rb_left := 0\<rparr>) s;
     rb_link_set link node s }"

subsection \<open>Rotations\<close>

text \<open>\<^verbatim>\<open>if (child) rb_set_parent(child, p)\<close>.\<close>

definition rb_adopt :: "u64 \<Rightarrow> u64 \<Rightarrow> rb \<Rightarrow> rb option" where
  "rb_adopt child p s = (if child \<noteq> 0 then rb_set_parent child p s else Some s)"

text \<open>The pointer to \<open>node\<close> in its parent, or in the root, becomes \<open>new\<close>; the left child is compared first.\<close>

definition rb_change_child :: "u64 \<Rightarrow> u64 \<Rightarrow> u64 \<Rightarrow> rb \<Rightarrow> rb option" where
  "rb_change_child node new parent s =
     (if parent \<noteq> 0 then do {
        p \<leftarrow> rget parent s;
        if node = rb_left p then rupd parent (\<lambda>n. n\<lparr>rb_left := new\<rparr>) s
        else rupd parent (\<lambda>n. n\<lparr>rb_right := new\<rparr>) s }
      else Some (s\<lparr>rroot := new\<rparr>))"

definition rb_rotate_left :: "u64 \<Rightarrow> rb \<Rightarrow> rb option" where
  "rb_rotate_left node s = do {
     n \<leftarrow> rget node s;
     let right = rb_right n;
     let parent = parent_of n;
     r \<leftarrow> rget right s;
     s \<leftarrow> rupd node (\<lambda>n. n\<lparr>rb_right := rb_left r\<rparr>) s;
     r \<leftarrow> rget right s;
     s \<leftarrow> rb_adopt (rb_left r) node s;
     s \<leftarrow> rupd right (\<lambda>n. n\<lparr>rb_left := node\<rparr>) s;
     s \<leftarrow> rb_set_parent right parent s;
     s \<leftarrow> rb_change_child node right parent s;
     rb_set_parent node right s }"

definition rb_rotate_right :: "u64 \<Rightarrow> rb \<Rightarrow> rb option" where
  "rb_rotate_right node s = do {
     n \<leftarrow> rget node s;
     let left = rb_left n;
     let parent = parent_of n;
     l \<leftarrow> rget left s;
     s \<leftarrow> rupd node (\<lambda>n. n\<lparr>rb_left := rb_right l\<rparr>) s;
     l \<leftarrow> rget left s;
     s \<leftarrow> rb_adopt (rb_right l) node s;
     s \<leftarrow> rupd left (\<lambda>n. n\<lparr>rb_right := node\<rparr>) s;
     s \<leftarrow> rb_set_parent left parent s;
     s \<leftarrow> (if parent \<noteq> 0 then do {
         p \<leftarrow> rget parent s;
         if node = rb_right p then rupd parent (\<lambda>n. n\<lparr>rb_right := left\<rparr>) s
         else rupd parent (\<lambda>n. n\<lparr>rb_left := left\<rparr>) s }
       else Some (s\<lparr>rroot := left\<rparr>));
     rb_set_parent node left s }"

subsection \<open>Insertion\<close>

text \<open>\<^verbatim>\<open>uncle && rb_is_red(uncle)\<close>, and \<^verbatim>\<open>!node || rb_is_black(node)\<close>.\<close>

definition rb_red :: "u64 \<Rightarrow> rb \<Rightarrow> bool option" where
  "rb_red p s = (if p \<noteq> 0 then rb_is_red p s else Some False)"

definition rb_black :: "u64 \<Rightarrow> rb \<Rightarrow> bool option" where
  "rb_black p s = (if p \<noteq> 0 then rb_is_black p s else Some True)"

definition rb_recolor :: "u64 \<Rightarrow> u64 \<Rightarrow> u64 \<Rightarrow> rb \<Rightarrow> rb option" where
  "rb_recolor uncle parent gparent s = do {
     s \<leftarrow> rb_set_black uncle s;
     s \<leftarrow> rb_set_black parent s;
     rb_set_red gparent s }"

text \<open>One round of the loop when the parent is the left child, then when it is the right one: the new \<^verbatim>\<open>node\<close>.\<close>

definition rb_insert_l :: "u64 \<Rightarrow> u64 \<Rightarrow> u64 \<Rightarrow> rb \<Rightarrow> (u64 \<times> rb) option" where
  "rb_insert_l node parent gparent s = do {
     g \<leftarrow> rget gparent s;
     let uncle = rb_right g;
     red \<leftarrow> rb_red uncle s;
     if red then do {
       s \<leftarrow> rb_recolor uncle parent gparent s;
       Some (gparent, s) }
     else do {
       p \<leftarrow> rget parent s;
       (node, parent, s) \<leftarrow> (if rb_right p = node
         then do { s \<leftarrow> rb_rotate_left parent s; Some (parent, node, s) }
         else Some (node, parent, s));
       s \<leftarrow> rb_set_black parent s;
       s \<leftarrow> rb_set_red gparent s;
       s \<leftarrow> rb_rotate_right gparent s;
       Some (node, s) } }"

definition rb_insert_r :: "u64 \<Rightarrow> u64 \<Rightarrow> u64 \<Rightarrow> rb \<Rightarrow> (u64 \<times> rb) option" where
  "rb_insert_r node parent gparent s = do {
     g \<leftarrow> rget gparent s;
     let uncle = rb_left g;
     red \<leftarrow> rb_red uncle s;
     if red then do {
       s \<leftarrow> rb_recolor uncle parent gparent s;
       Some (gparent, s) }
     else do {
       p \<leftarrow> rget parent s;
       (node, parent, s) \<leftarrow> (if rb_left p = node
         then do { s \<leftarrow> rb_rotate_right parent s; Some (parent, node, s) }
         else Some (node, parent, s));
       s \<leftarrow> rb_set_black parent s;
       s \<leftarrow> rb_set_red gparent s;
       s \<leftarrow> rb_rotate_left gparent s;
       Some (node, s) } }"

partial_function (option) rb_insert_loop :: "u64 \<Rightarrow> rb \<Rightarrow> rb option" where
  "rb_insert_loop node s = do {
     parent \<leftarrow> rb_parent node s;
     red \<leftarrow> rb_red parent s;
     if \<not> red then Some s
     else do {
       gparent \<leftarrow> rb_parent parent s;
       g \<leftarrow> rget gparent s;
       (node, s) \<leftarrow> (if parent = rb_left g then rb_insert_l node parent gparent s else rb_insert_r node parent gparent s);
       rb_insert_loop node s } }"

definition rb_insert_color :: "u64 \<Rightarrow> rb \<Rightarrow> rb option" where
  "rb_insert_color node s = do {
     s \<leftarrow> rb_insert_loop node s;
     rb_set_black (rroot s) s }"

subsection \<open>Removal\<close>

text \<open>
  The body of the loop of \<^verbatim>\<open>__rb_erase_color\<close> when \<open>node\<close> is the left child, then when it is the right one: \<open>Inl\<close> the
  new \<^verbatim>\<open>node\<close> and \<^verbatim>\<open>parent\<close> for the next round, \<open>Inr\<close> the \<^verbatim>\<open>node\<close> with which the loop is left. The part after
  the treatment of a red sibling is a definition of its own.
\<close>

definition rb_erase_l_rest :: "u64 \<Rightarrow> u64 \<Rightarrow> rb \<Rightarrow> ((u64 \<times> u64 + u64) \<times> rb) option" where
  "rb_erase_l_rest other parent s = do {
     ot \<leftarrow> rget other s;
     lb \<leftarrow> rb_black (rb_left ot) s;
     rb \<leftarrow> (if lb then rb_black (rb_right ot) s else Some False);
     if lb \<and> rb then do {
       s \<leftarrow> rb_set_red other s;
       pp \<leftarrow> rb_parent parent s;
       Some (Inl (parent, pp), s) }
     else do {
       far \<leftarrow> rb_black (rb_right ot) s;
       (other, s) \<leftarrow> (if far then do {
           s \<leftarrow> rb_set_black (rb_left ot) s;
           s \<leftarrow> rb_set_red other s;
           s \<leftarrow> rb_rotate_right other s;
           p \<leftarrow> rget parent s;
           Some (rb_right p, s) }
         else Some (other, s));
       c \<leftarrow> rb_color parent s;
       s \<leftarrow> rb_set_color other c s;
       s \<leftarrow> rb_set_black parent s;
       ot \<leftarrow> rget other s;
       s \<leftarrow> rb_set_black (rb_right ot) s;
       s \<leftarrow> rb_rotate_left parent s;
       Some (Inr (rroot s), s) } }"

definition rb_erase_l :: "u64 \<Rightarrow> rb \<Rightarrow> ((u64 \<times> u64 + u64) \<times> rb) option" where
  "rb_erase_l parent s = do {
     p \<leftarrow> rget parent s;
     let other = rb_right p;
     red \<leftarrow> rb_is_red other s;
     if red then do {
       s \<leftarrow> rb_set_black other s;
       s \<leftarrow> rb_set_red parent s;
       s \<leftarrow> rb_rotate_left parent s;
       p \<leftarrow> rget parent s;
       rb_erase_l_rest (rb_right p) parent s }
     else rb_erase_l_rest other parent s }"

definition rb_erase_r_rest :: "u64 \<Rightarrow> u64 \<Rightarrow> rb \<Rightarrow> ((u64 \<times> u64 + u64) \<times> rb) option" where
  "rb_erase_r_rest other parent s = do {
     ot \<leftarrow> rget other s;
     lb \<leftarrow> rb_black (rb_left ot) s;
     rb \<leftarrow> (if lb then rb_black (rb_right ot) s else Some False);
     if lb \<and> rb then do {
       s \<leftarrow> rb_set_red other s;
       pp \<leftarrow> rb_parent parent s;
       Some (Inl (parent, pp), s) }
     else do {
       far \<leftarrow> rb_black (rb_left ot) s;
       (other, s) \<leftarrow> (if far then do {
           s \<leftarrow> rb_set_black (rb_right ot) s;
           s \<leftarrow> rb_set_red other s;
           s \<leftarrow> rb_rotate_left other s;
           p \<leftarrow> rget parent s;
           Some (rb_left p, s) }
         else Some (other, s));
       c \<leftarrow> rb_color parent s;
       s \<leftarrow> rb_set_color other c s;
       s \<leftarrow> rb_set_black parent s;
       ot \<leftarrow> rget other s;
       s \<leftarrow> rb_set_black (rb_left ot) s;
       s \<leftarrow> rb_rotate_right parent s;
       Some (Inr (rroot s), s) } }"

definition rb_erase_r :: "u64 \<Rightarrow> rb \<Rightarrow> ((u64 \<times> u64 + u64) \<times> rb) option" where
  "rb_erase_r parent s = do {
     p \<leftarrow> rget parent s;
     let other = rb_left p;
     red \<leftarrow> rb_is_red other s;
     if red then do {
       s \<leftarrow> rb_set_black other s;
       s \<leftarrow> rb_set_red parent s;
       s \<leftarrow> rb_rotate_right parent s;
       p \<leftarrow> rget parent s;
       rb_erase_r_rest (rb_left p) parent s }
     else rb_erase_r_rest other parent s }"

partial_function (option) rb_erase_loop :: "u64 \<Rightarrow> u64 \<Rightarrow> rb \<Rightarrow> (u64 \<times> rb) option" where
  "rb_erase_loop node parent s = do {
     black \<leftarrow> rb_black node s;
     if \<not> (black \<and> node \<noteq> rroot s) then Some (node, s)
     else do {
       p \<leftarrow> rget parent s;
       (next, s) \<leftarrow> (if rb_left p = node then rb_erase_l parent s else rb_erase_r parent s);
       case next of Inl (node, parent) \<Rightarrow> rb_erase_loop node parent s | Inr node \<Rightarrow> Some (node, s) } }"

definition rb_erase_color :: "u64 \<Rightarrow> u64 \<Rightarrow> rb \<Rightarrow> rb option" where
  "rb_erase_color node parent s = do {
     (node, s) \<leftarrow> rb_erase_loop node parent s;
     if node \<noteq> 0 then rb_set_black node s else Some s }"

partial_function (option) rb_sink_left :: "u64 \<Rightarrow> rb \<Rightarrow> u64 option" where
  "rb_sink_left node s = do {
     n \<leftarrow> rget node s;
     if rb_left n \<noteq> 0 then rb_sink_left (rb_left n) s else Some node }"

partial_function (option) rb_sink_right :: "u64 \<Rightarrow> rb \<Rightarrow> u64 option" where
  "rb_sink_right node s = do {
     n \<leftarrow> rget node s;
     if rb_right n \<noteq> 0 then rb_sink_right (rb_right n) s else Some node }"

text \<open>
  \<^verbatim>\<open>rb_erase\<close> up to the label \<^verbatim>\<open>color\<close>: the variables \<^verbatim>\<open>child\<close>, \<^verbatim>\<open>parent\<close> and \<^verbatim>\<open>color\<close>, and the state. The second
  definition is its branch for a node with two children.
\<close>

definition rb_unlink_two :: "u64 \<Rightarrow> rb \<Rightarrow> (u64 \<times> u64 \<times> u64 \<times> rb) option" where
  "rb_unlink_two old s = do {
     o1 \<leftarrow> rget old s;
     node \<leftarrow> rb_sink_left (rb_right o1) s;
     s \<leftarrow> rb_change_child old node (parent_of o1) s;
     n \<leftarrow> rget node s;
     let child = rb_right n;
     let parent = parent_of n;
     let color = color_of n;
     (parent, s) \<leftarrow> (if parent = old then Some (node, s)
       else do {
         s \<leftarrow> rb_adopt child parent s;
         s \<leftarrow> rupd parent (\<lambda>n. n\<lparr>rb_left := child\<rparr>) s;
         o2 \<leftarrow> rget old s;
         s \<leftarrow> rupd node (\<lambda>n. n\<lparr>rb_right := rb_right o2\<rparr>) s;
         o2 \<leftarrow> rget old s;
         s \<leftarrow> rb_set_parent (rb_right o2) node s;
         Some (parent, s) });
     o3 \<leftarrow> rget old s;
     s \<leftarrow> rupd node (\<lambda>n. n\<lparr>rb_parent_color := rb_parent_color o3, rb_left := rb_left o3\<rparr>) s;
     o3 \<leftarrow> rget old s;
     s \<leftarrow> rb_set_parent (rb_left o3) node s;
     Some (child, parent, color, s) }"

definition rb_unlink :: "u64 \<Rightarrow> rb \<Rightarrow> (u64 \<times> u64 \<times> u64 \<times> rb) option" where
  "rb_unlink node s = do {
     n \<leftarrow> rget node s;
     if rb_left n \<noteq> 0 \<and> rb_right n \<noteq> 0 then rb_unlink_two node s
     else do {
       let child = (if rb_left n = 0 then rb_right n else rb_left n);
       let parent = parent_of n;
       let color = color_of n;
       s \<leftarrow> rb_adopt child parent s;
       s \<leftarrow> rb_change_child node child parent s;
       Some (child, parent, color, s) } }"

definition rb_erase :: "u64 \<Rightarrow> rb \<Rightarrow> rb option" where
  "rb_erase node s = do {
     (child, parent, color, s) \<leftarrow> rb_unlink node s;
     if color = RB_BLACK then rb_erase_color child parent s else Some s }"

subsection \<open>Walking the tree\<close>

definition rb_first :: "rb \<Rightarrow> u64 option" where
  "rb_first s = (if rroot s = 0 then Some 0 else rb_sink_left (rroot s) s)"

definition rb_last :: "rb \<Rightarrow> u64 option" where
  "rb_last s = (if rroot s = 0 then Some 0 else rb_sink_right (rroot s) s)"

partial_function (option) rb_climb_right :: "u64 \<Rightarrow> rb \<Rightarrow> u64 option" where
  "rb_climb_right node s = do {
     parent \<leftarrow> rb_parent node s;
     if parent = 0 then Some parent
     else do { p \<leftarrow> rget parent s; if node = rb_right p then rb_climb_right parent s else Some parent } }"

partial_function (option) rb_climb_left :: "u64 \<Rightarrow> rb \<Rightarrow> u64 option" where
  "rb_climb_left node s = do {
     parent \<leftarrow> rb_parent node s;
     if parent = 0 then Some parent
     else do { p \<leftarrow> rget parent s; if node = rb_left p then rb_climb_left parent s else Some parent } }"

definition rb_next :: "u64 \<Rightarrow> rb \<Rightarrow> u64 option" where
  "rb_next node s = do {
     n \<leftarrow> rget node s;
     if parent_of n = node then Some 0
     else if rb_right n \<noteq> 0 then rb_sink_left (rb_right n) s
     else rb_climb_right node s }"

definition rb_prev :: "u64 \<Rightarrow> rb \<Rightarrow> u64 option" where
  "rb_prev node s = do {
     n \<leftarrow> rget node s;
     if parent_of n = node then Some 0
     else if rb_left n \<noteq> 0 then rb_sink_right (rb_left n) s
     else rb_climb_left node s }"

definition rb_replace_node :: "u64 \<Rightarrow> u64 \<Rightarrow> rb \<Rightarrow> rb option" where
  "rb_replace_node victim new s = do {
     v \<leftarrow> rget victim s;
     s \<leftarrow> rb_change_child victim new (parent_of v) s;
     v \<leftarrow> rget victim s;
     s \<leftarrow> rb_adopt (rb_left v) new s;
     v \<leftarrow> rget victim s;
     s \<leftarrow> rb_adopt (rb_right v) new s;
     v \<leftarrow> rget victim s;
     rupd new (\<lambda>_. v) s }"

subsection \<open>Augmented trees\<close>

text \<open>
  \<^verbatim>\<open>func(node, data)\<close> reads the tree and changes what \<^verbatim>\<open>data\<close> points to, not the links: it is an argument that maps
  the node, the tree and the data to new data.
\<close>

type_synonym 'd rb_augment_f = "u64 \<Rightarrow> rb \<Rightarrow> 'd \<Rightarrow> 'd option"

partial_function (option) rb_augment_path :: "'d rb_augment_f \<Rightarrow> u64 \<Rightarrow> rb \<Rightarrow> 'd \<Rightarrow> 'd option" where
  "rb_augment_path func node s d = do {
     d \<leftarrow> func node s d;
     parent \<leftarrow> rb_parent node s;
     if parent = 0 then Some d
     else do {
       p \<leftarrow> rget parent s;
       d \<leftarrow> (if node = rb_left p \<and> rb_right p \<noteq> 0 then func (rb_right p) s d
         else if rb_left p \<noteq> 0 then func (rb_left p) s d
         else Some d);
       rb_augment_path func parent s d } }"

definition rb_augment_insert :: "'d rb_augment_f \<Rightarrow> u64 \<Rightarrow> rb \<Rightarrow> 'd \<Rightarrow> 'd option" where
  "rb_augment_insert func node s d = do {
     n \<leftarrow> rget node s;
     let node = (if rb_left n \<noteq> 0 then rb_left n else if rb_right n \<noteq> 0 then rb_right n else node);
     rb_augment_path func node s d }"

definition rb_augment_erase_begin :: "u64 \<Rightarrow> rb \<Rightarrow> u64 option" where
  "rb_augment_erase_begin node s = do {
     n \<leftarrow> rget node s;
     if rb_right n = 0 \<and> rb_left n = 0 then rb_parent node s
     else if rb_right n = 0 then Some (rb_left n)
     else if rb_left n = 0 then Some (rb_right n)
     else do {
       deepest \<leftarrow> rb_next node s;
       m \<leftarrow> rget deepest s;
       if rb_right m \<noteq> 0 then Some (rb_right m)
       else if parent_of m \<noteq> node then Some (parent_of m)
       else Some deepest } }"

definition rb_augment_erase_end :: "'d rb_augment_f \<Rightarrow> u64 \<Rightarrow> rb \<Rightarrow> 'd \<Rightarrow> 'd option" where
  "rb_augment_erase_end func node s d = (if node \<noteq> 0 then rb_augment_path func node s d else Some d)"

end
