(* ===== verification/RbAbs.thy ===== *)
theory RbAbs
  imports RbTree AvlOps
begin

text \<open>
  The pointer operations of \<open>RbTree\<close> are those of the trees of theory \<open>Avl\<close> with the parent taken out of the shared
  word and the colour, 0 or 1, in the place of the height. So the heap arguments about rotations, replacing a child and
  walking are used as they are; what has to be shown here is that parent and colour do not disturb each other, which
  rests on the alignment of the nodes.
\<close>

subsection \<open>The abstraction\<close>

definition nabs :: "rb_node \<Rightarrow> avl_node" where
  "nabs n = \<lparr>left = rb_left n, right = rb_right n, parent = parent_of n, height = uint (color_of n)\<rparr>"

definition rabs :: "rb \<Rightarrow> avl" where
  "rabs s = \<lparr>anodes = \<lambda>p. map_option nabs (rnodes s p), aroot = rroot s\<rparr>"

definition aligned4 :: "u64 \<Rightarrow> bool" where
  "aligned4 p \<longleftrightarrow> p AND 3 = 0"

text \<open>\<open>sim x y\<close>: the run \<open>x\<close> on the red-black heap is the run \<open>y\<close> on its abstraction.\<close>

definition sim :: "rb option \<Rightarrow> avl option \<Rightarrow> bool" where
  "sim x y \<longleftrightarrow> map_option rabs x = y"

lemma nabs_simps [simp]:
  "left (nabs n) = rb_left n" "right (nabs n) = rb_right n" "parent (nabs n) = parent_of n"
  "height (nabs n) = uint (color_of n)"
  by (simp_all add: nabs_def)

lemma rabs_simps [simp]: "aroot (rabs s) = rroot s" "aget p (rabs s) = map_option nabs (rget p s)"
  "rabs (s\<lparr>rroot := q\<rparr>) = (rabs s)\<lparr>aroot := q\<rparr>" "anodes (rabs s) p = map_option nabs (rnodes s p)"
  by (simp_all add: rabs_def aget_def rget_def)

lemma simI: "x = Some s \<Longrightarrow> y = Some (rabs s) \<Longrightarrow> sim x y"
  by (simp add: sim_def)

lemma sim_Some: "sim x (Some t) \<Longrightarrow> \<exists>s. x = Some s \<and> rabs s = t"
  by (auto simp: sim_def)

lemma sim_bind: "sim x y \<Longrightarrow> (\<And>s. x = Some s \<Longrightarrow> sim (f s) (g (rabs s))) \<Longrightarrow> sim (x \<bind> f) (y \<bind> g)"
  by (cases x) (auto simp: sim_def)

lemma sim_rget: "(\<And>n. rget p s = Some n \<Longrightarrow> sim (f n) (g (nabs n))) \<Longrightarrow> sim (rget p s \<bind> f) (aget p (rabs s) \<bind> g)"
  by (cases "rget p s") (auto simp: sim_def)

lemma sim_rupd: "(\<And>n. nabs (f n) = g (nabs n)) \<Longrightarrow> sim (rupd p f s) (aupd p g (rabs s))"
  by (cases "rnodes s p") (auto simp: sim_def rupd_def aupd_def rabs_def fun_eq_iff)

subsection \<open>Parent and colour in one word\<close>

lemma bit_3: "bit (3 :: u64) n \<longleftrightarrow> n < 2"
proof -
  have "(3 :: u64) = mask 2" by (simp add: mask_eq_exp_minus_1)
  then have "bit (3 :: u64) n \<longleftrightarrow> bit (mask 2 :: u64) n" by (simp only:)
  also have "\<dots> \<longleftrightarrow> n < 2" unfolding bit_mask_iff by auto
  finally show ?thesis .
qed

lemmas word_bits = bit_and_iff bit_or_iff bit_not_iff bit_3 bit_1_iff

lemma color_bits:
  fixes x y :: u64
  shows "(x OR 1) AND NOT 3 = x AND NOT 3" "(x AND NOT 1) AND NOT 3 = x AND NOT 3" "(x AND NOT 1) AND 1 = 0" "(x OR 1) AND 1 = 1"
    "((x AND NOT 1) OR (y AND 1)) AND NOT 3 = x AND NOT 3" "((x AND NOT 1) OR (y AND 1)) AND 1 = y AND 1" "(x AND NOT 3) AND 3 = 0"
  by (rule bit_eqI; simp only: word_bits; force)+

lemma parent_bits:
  fixes x p :: u64
  assumes "aligned4 p"
  shows "((x AND 3) OR p) AND NOT 3 = p" "((x AND 3) OR p) AND 1 = x AND 1" "p AND NOT 3 = p" "p AND 1 = 0"
proof -
  have p: "\<not> bit p n" if "n < 2" for n
    using assms that unfolding aligned4_def by (metis bit_3 bit_and_iff bit_0_eq bot_apply bot_bool_def)
  show "((x AND 3) OR p) AND NOT 3 = p" "((x AND 3) OR p) AND 1 = x AND 1" "p AND NOT 3 = p"
    by (rule bit_eqI; use p in \<open>simp only: word_bits\<close>; force)+
  show "p AND 1 = 0" using p [of 0] by (simp add: and_one_eq bit_0 even_iff_mod_2_eq_zero)
qed

lemma aligned_parent_of [simp]: "aligned4 (parent_of n)"
  unfolding aligned4_def parent_of_def by (rule color_bits)

lemma aligned4_0 [simp]: "aligned4 0"
  by (simp add: aligned4_def)

lemma color_cases: obtains "color_of n = 0" | "color_of n = 1"
proof -
  have "color_of n = of_bool (odd (rb_parent_color n))" unfolding color_of_def and_one_eq by (simp add: mod_2_eq_odd)
  then show thesis using that by (cases "odd (rb_parent_color n)") simp_all
qed

subsection \<open>Single updates\<close>

lemma nabs_word: "nabs (n\<lparr>rb_parent_color := w\<rparr>) =
  \<lparr>left = rb_left n, right = rb_right n, parent = w AND NOT 3, height = uint (w AND 1)\<rparr>"
  by (simp add: nabs_def parent_of_def color_of_def)

lemma sim_set_parent: "aligned4 p \<Longrightarrow> sim (rb_set_parent r p s) (aupd r (\<lambda>n. n\<lparr>parent := p\<rparr>) (rabs s))"
  unfolding rb_set_parent_def by (rule sim_rupd, simp only: nabs_word parent_bits) (simp only: nabs_def parent_of_def color_of_def avl_node.simps)

lemma sim_adopt: "aligned4 p \<Longrightarrow> sim (rb_adopt r p s) (set_parent r p (rabs s))"
  unfolding rb_adopt_def set_parent_def by (auto intro: sim_set_parent simI)

lemma sim_left: "sim (rupd p (\<lambda>n. n\<lparr>rb_left := q\<rparr>) s) (aupd p (\<lambda>n. n\<lparr>left := q\<rparr>) (rabs s))"
  by (rule sim_rupd) (simp add: nabs_def parent_of_def color_of_def)

lemma sim_right: "sim (rupd p (\<lambda>n. n\<lparr>rb_right := q\<rparr>) s) (aupd p (\<lambda>n. n\<lparr>right := q\<rparr>) (rabs s))"
  by (rule sim_rupd) (simp add: nabs_def parent_of_def color_of_def)

lemma sim_colors:
  "sim (rb_set_red r s) (aupd r (\<lambda>n. n\<lparr>height := 0\<rparr>) (rabs s))"
  "sim (rb_set_black r s) (aupd r (\<lambda>n. n\<lparr>height := 1\<rparr>) (rabs s))"
  "sim (rb_set_color r (color_of m) s) (aupd r (\<lambda>n. n\<lparr>height := uint (color_of m)\<rparr>) (rabs s))"
  unfolding rb_set_red_def rb_set_black_def rb_set_color_def color_of_def
  by (rule sim_rupd; simp only: nabs_word color_bits; simp only: nabs_def parent_of_def color_of_def avl_node.simps unsigned_0 unsigned_1)+

lemma sim_change_child: "sim (rb_change_child node new par s) (avl_child_replace node new par (rabs s))"
proof (cases "par = 0")
  case True
  then show ?thesis by (simp add: rb_change_child_def avl_child_replace_def sim_def)
next
  case False
  then show ?thesis unfolding rb_change_child_def avl_child_replace_def
    by simp (rule sim_rget [simplified]; auto intro: sim_left sim_right)
qed

subsection \<open>Rotations\<close>

text \<open>The rotations of \<open>Avl\<close> also return the new top node.\<close>

definition sim2 :: "rb option \<Rightarrow> (u64 \<times> avl) option \<Rightarrow> bool" where
  "sim2 x y \<longleftrightarrow> map_option rabs x = map_option snd y"

lemma sim2_bind: "sim x y \<Longrightarrow> (\<And>s. x = Some s \<Longrightarrow> sim2 (f s) (g (rabs s))) \<Longrightarrow> sim2 (x \<bind> f) (y \<bind> g)"
  by (cases x) (auto simp: sim_def sim2_def)

lemma sim2_rget: "(\<And>n. rget p s = Some n \<Longrightarrow> sim2 (f n) (g (nabs n))) \<Longrightarrow> sim2 (rget p s \<bind> f) (aget p (rabs s) \<bind> g)"
  by (cases "rget p s") (auto simp: sim2_def)

lemma sim2_end: "sim x y \<Longrightarrow> sim2 x (y \<bind> (\<lambda>t. Some (q, t)))"
  by (cases x) (auto simp: sim_def sim2_def)

lemma sim_rotate_left:
  assumes a: "aligned4 a" "a \<noteq> 0" and n: "rget a s = Some n" "aligned4 (rb_right n)" "rb_right n \<noteq> 0"
  shows "sim2 (rb_rotate_left a s) (avl_node_rotate_left a (rabs s))"
  unfolding rb_rotate_left_def avl_node_rotate_left_def
  apply (rule sim2_rget)
  subgoal for m
    using n a by (simp add: Let_def del: rabs_simps)
      (intro sim2_rget sim2_bind sim2_end sim_right sim_left sim_adopt sim_set_parent sim_change_child aligned_parent_of; simp add: sim_right sim_adopt)
  done

lemma rupd_other: "rupd p f s = Some s' \<Longrightarrow> q \<noteq> p \<Longrightarrow> rget q s' = rget q s"
  by (auto simp: rupd_def rget_def bind_Some_iff)

lemma rb_adopt_links: "rb_adopt x p s = Some s' \<Longrightarrow> map_option rb_left (rget q s') = map_option rb_left (rget q s) \<and>
    map_option rb_right (rget q s') = map_option rb_right (rget q s)"
  by (auto simp: rb_adopt_def rb_set_parent_def rupd_def rget_def bind_Some_iff split: if_splits)

text \<open>The right rotation compares the right child first; that is the same when the node is one of two distinct children.\<close>

lemma sim_change_child_right:
  assumes "p \<noteq> 0 \<Longrightarrow> \<exists>n. rget p s = Some n \<and> (rb_right n = a \<longleftrightarrow> rb_left n \<noteq> a)"
  shows "sim (if p \<noteq> 0 then do { n \<leftarrow> rget p s; if a = rb_right n then rupd p (\<lambda>n. n\<lparr>rb_right := q\<rparr>) s
      else rupd p (\<lambda>n. n\<lparr>rb_left := q\<rparr>) s } else Some (s\<lparr>rroot := q\<rparr>)) (avl_child_replace a q p (rabs s))"
proof (cases "p = 0")
  case True
  then show ?thesis by (simp add: avl_child_replace_def sim_def)
next
  case False
  then show ?thesis using assms sim_left [of p q s] sim_right [of p q s] by (auto simp: avl_child_replace_def)
qed

lemma sim_rotate_right:
  assumes a: "aligned4 a" "a \<noteq> 0" and n: "rget a s = Some n" "aligned4 (rb_left n)" "rb_left n \<noteq> 0"
    and p: "parent_of n \<noteq> 0 \<Longrightarrow> parent_of n \<noteq> a \<and> parent_of n \<noteq> rb_left n \<and>
      (\<exists>m. rget (parent_of n) s = Some m \<and> (rb_right m = a \<longleftrightarrow> rb_left m \<noteq> a))"
  shows "sim2 (rb_rotate_right a s) (avl_node_rotate_right a (rabs s))"
proof -
  let ?l = "rb_left n" and ?p = "parent_of n"
  have c: "\<exists>m. rget ?p s4 = Some m \<and> (rb_right m = a \<longleftrightarrow> rb_left m \<noteq> a)"
    if "?p \<noteq> 0" "rupd a f s = Some s1" "rb_adopt x a s1 = Some s2" "rupd ?l g s2 = Some s3" "rb_set_parent ?l ?p s3 = Some s4"
    for f x g s1 s2 s3 s4
  proof -
    have q: "?p \<noteq> a" "?p \<noteq> ?l" using p that(1) by auto
    have "rget ?p s4 = rget ?p s2" "rget ?p s1 = rget ?p s"
      using rupd_other [OF that(2) q(1)] rupd_other [OF that(4) q(2)] rupd_other [OF that(5) [unfolded rb_set_parent_def] q(2)] by simp_all
    then show ?thesis using p [OF that(1)] rb_adopt_links [OF that(3), of ?p] by (cases "rget ?p s2") auto
  qed
  show ?thesis
    unfolding rb_rotate_right_def avl_node_rotate_right_def
  proof (rule sim2_rget, goal_cases)
    case (1 m)
    then have m: "m = n" using n(1) by simp
    show ?case
      unfolding m using n a by (simp add: Let_def del: rabs_simps)
        (intro sim2_rget sim2_bind sim2_end sim_right sim_left sim_adopt sim_set_parent sim_change_child_right aligned_parent_of;
         (simp add: sim_left sim_adopt; fail | rule c, assumption+))
  qed
qed

subsection \<open>Red-black trees in the heap\<close>

definition rrep :: "rb \<Rightarrow> atree \<Rightarrow> frame list \<Rightarrow> bool" where
  "rrep s t c \<longleftrightarrow> zrep (rabs s) t c \<and> (\<forall>x \<in> set (inord (plug t c)). aligned4 x)"

text \<open>The links and the colour of every node outside \<open>A\<close> are as they were.\<close>

definition outside :: "u64 set \<Rightarrow> rb \<Rightarrow> rb \<Rightarrow> bool" where
  "outside A s s' \<longleftrightarrow> elsewhere (rabs s) A (rabs s')"

fun col :: "atree \<Rightarrow> int" where
  "col Tip = 1"
| "col (Bin l a k r) = k"

lemma outside_trans: "outside A s t \<Longrightarrow> outside A t u \<Longrightarrow> outside A s u"
  unfolding outside_def by (rule elsewhere_trans)

lemma outside_refl [simp]: "outside A s s"
  by (simp add: outside_def)

lemma rrep_fill: "rrep s t (f # c) \<longleftrightarrow> rrep s (fill f t) c"
  by (simp add: rrep_def zrep_fill)

lemma rrep_plug: "rrep s t (d @ c) \<longleftrightarrow> rrep s (plug t d) c"
  by (simp add: rrep_def zrep_plug plug_append)

lemma rrep_top: "rrep s (plug t c) [] \<longleftrightarrow> rrep s t c"
  using rrep_plug [of s t c "[]"] by simp

text \<open>What the code reads at a node.\<close>

lemma rrep_node:
  assumes "rrep s (Bin l a k r) c"
  shows "\<exists>n. rget a s = Some n \<and> rb_left n = ptr l \<and> rb_right n = ptr r \<and> parent_of n = up c \<and> uint (color_of n) = k \<and>
    (color_of n = 0 \<longleftrightarrow> k = 0) \<and> (color_of n = RB_BLACK \<longleftrightarrow> k = 1) \<and> (k = 0 \<or> k = 1)"
    and "a \<noteq> 0" "aligned4 a" "rb_parent a s = Some (up c)"
proof -
  have z: "zrep (rabs s) (Bin l a k r) c" using assms by (simp add: rrep_def)
  obtain n where n: "rget a s = Some n" "nabs n = \<lparr>left = ptr l, right = ptr r, parent = up c, height = k\<rparr>"
    using zrep_node(1) [OF z] by auto
  then have f: "rb_left n = ptr l" "rb_right n = ptr r" "parent_of n = up c" "uint (color_of n) = k" by (simp_all add: nabs_def)
  show "\<exists>n. rget a s = Some n \<and> rb_left n = ptr l \<and> rb_right n = ptr r \<and> parent_of n = up c \<and> uint (color_of n) = k \<and>
    (color_of n = 0 \<longleftrightarrow> k = 0) \<and> (color_of n = RB_BLACK \<longleftrightarrow> k = 1) \<and> (k = 0 \<or> k = 1)"
    using n(1) f by (cases n rule: color_cases) (auto simp: RB_BLACK_def)
  show "a \<noteq> 0" using zrep_node(2) [OF z] .
  show "aligned4 a" using assms by (simp add: rrep_def inord_plug)
  show "rb_parent a s = Some (up c)" using n(1) f by (simp add: rb_parent_def)
qed

lemma rrep_color:
  assumes "rrep s t c"
  shows "rb_red (ptr t) s = Some (col t = 0)" "rb_black (ptr t) s = Some (col t \<noteq> 0)"
    "t \<noteq> Tip \<Longrightarrow> rb_is_red (ptr t) s = Some (col t = 0)" "col t = 0 \<or> col t = 1"
proof -
  show "rb_red (ptr t) s = Some (col t = 0)" "rb_black (ptr t) s = Some (col t \<noteq> 0)"
    "t \<noteq> Tip \<Longrightarrow> rb_is_red (ptr t) s = Some (col t = 0)" "col t = 0 \<or> col t = 1"
    using assms rrep_node [of s _ _ _ _ c]
    by (cases t; fastforce simp: rb_red_def rb_black_def rb_is_red_def rb_is_black_def rb_color_def)+
qed

lemma paint_rep:
  assumes "rrep s (Bin l a k r) c"
  shows "\<exists>s'. rb_set_black a s = Some s' \<and> rrep s' (Bin l a 1 r) c \<and> outside (set (inord (plug (Bin l a k r) c))) s s'"
    "\<exists>s'. rb_set_red a s = Some s' \<and> rrep s' (Bin l a 0 r) c \<and> outside (set (inord (plug (Bin l a k r) c))) s s'"
    "\<exists>s'. rb_set_color a (color_of m) s = Some s' \<and> rrep s' (Bin l a (uint (color_of m)) r) c \<and>
       outside (set (inord (plug (Bin l a k r) c))) s s'"
proof -
  have z: "zrep (rabs s) (Bin l a k r) c" and al: "\<forall>x \<in> set (inord (plug (Bin l a k r) c)). aligned4 x"
    using assms by (simp_all add: rrep_def)
  have core: "\<exists>s'. x = Some s' \<and> rrep s' (Bin l a j r) c \<and> outside (set (inord (plug (Bin l a k r) c))) s s'"
    if "sim x (aupd a (\<lambda>n. n\<lparr>height := j\<rparr>) (rabs s))" for x j
    using set_height_rep [OF z, of j] that al sim_Some [of x] unfolding outside_def rrep_def by (fastforce simp: inord_plug)
  show "\<exists>s'. rb_set_black a s = Some s' \<and> rrep s' (Bin l a 1 r) c \<and> outside (set (inord (plug (Bin l a k r) c))) s s'"
    by (rule core [OF sim_colors(2)])
  show "\<exists>s'. rb_set_red a s = Some s' \<and> rrep s' (Bin l a 0 r) c \<and> outside (set (inord (plug (Bin l a k r) c))) s s'"
    by (rule core [OF sim_colors(1)])
  show "\<exists>s'. rb_set_color a (color_of m) s = Some s' \<and> rrep s' (Bin l a (uint (color_of m)) r) c \<and>
       outside (set (inord (plug (Bin l a k r) c))) s s'"
    by (rule core [OF sim_colors(3)])
qed

lemma sim2_Some: "sim2 x (Some (q, t)) \<Longrightarrow> \<exists>s. x = Some s \<and> rabs s = t"
  by (auto simp: sim2_def)

lemma rot_left_rep:
  assumes "rrep s (Bin l a k (Bin m b j r)) c"
  shows "\<exists>s'. rb_rotate_left a s = Some s' \<and> rrep s' (Bin (Bin l a k m) b j r) c \<and>
    outside (set (inord (plug (Bin l a k (Bin m b j r)) c))) s s'"
proof -
  have z: "zrep (rabs s) (Bin l a k (Bin m b j r)) c" and al: "\<forall>x \<in> set (inord (plug (Bin l a k (Bin m b j r)) c)). aligned4 x"
    using assms by (simp_all add: rrep_def)
  have b: "rrep s (Bin m b j r) (InRight l a k # c)" using assms by (simp add: rrep_fill)
  obtain n where n: "rget a s = Some n" "rb_right n = b" using rrep_node(1) [OF assms] by auto
  obtain s' where s': "avl_node_rotate_left a (rabs s) = Some (b, s')" "zrep s' (Bin (Bin l a k m) b j r) c"
    "elsewhere (rabs s) (set (inord (plug (Bin l a k (Bin m b j r)) c))) s'" using rotate_left_rep [OF z] by blast
  have "sim2 (rb_rotate_left a s) (Some (b, s'))"
    using sim_rotate_left [OF rrep_node(3) [OF assms] rrep_node(2) [OF assms] n(1)] n(2) rrep_node(2,3) [OF b] s'(1) by simp
  then show ?thesis using sim2_Some s'(2,3) al unfolding rrep_def outside_def by (fastforce simp: inord_plug)
qed

lemma rot_right_rep:
  assumes "rrep s (Bin (Bin l b j m) a k r) c"
  shows "\<exists>s'. rb_rotate_right a s = Some s' \<and> rrep s' (Bin l b j (Bin m a k r)) c \<and>
    outside (set (inord (plug (Bin (Bin l b j m) a k r) c))) s s'"
proof -
  let ?t = "Bin (Bin l b j m) a k r"
  have z: "zrep (rabs s) ?t c" and al: "\<forall>x \<in> set (inord (plug ?t c)). aligned4 x" using assms by (simp_all add: rrep_def)
  have b: "rrep s (Bin l b j m) (InLeft a k r # c)" using assms by (simp add: rrep_fill)
  obtain n where n: "rget a s = Some n" "rb_left n = b" "parent_of n = up c" using rrep_node(1) [OF assms] by auto
  have p: "up c \<noteq> a \<and> up c \<noteq> b \<and> (\<exists>m. rget (up c) s = Some m \<and> (rb_right m = a \<longleftrightarrow> rb_left m \<noteq> a))" if "up c \<noteq> 0"
  proof (cases c)
    case (Cons f d)
    have a: "a \<noteq> 0" "a \<notin> cset c" "b \<notin> cset c" using z by (auto simp: zrep_def cset_def)
    then have q: "up c \<noteq> a" "up c \<noteq> b" using up_in [of c] Cons by auto
    have "rrep s (fill f ?t) d" using assms unfolding Cons rrep_fill .
    then show ?thesis using q a ptr_other [of a] rrep_node(1) [of s _ _ _ _ d] unfolding Cons by (cases f) fastforce+
  qed (use that in simp)
  obtain s' where s': "avl_node_rotate_right a (rabs s) = Some (b, s')" "zrep s' (Bin l b j (Bin m a k r)) c"
    "elsewhere (rabs s) (set (inord (plug ?t c))) s'" using rotate_right_rep [OF z] by blast
  have "sim2 (rb_rotate_right a s) (Some (b, s'))"
    using sim_rotate_right [OF rrep_node(3) [OF assms] rrep_node(2) [OF assms] n(1)] n(2,3) p rrep_node(2,3) [OF b] s'(1) by simp
  then show ?thesis using sim2_Some s'(2,3) al unfolding rrep_def outside_def by (fastforce simp: inord_plug)
qed

end
