(* ===== verification/RbInsert.thy ===== *)
theory RbInsert
  imports RbAbs
begin

text \<open>
  Red-black trees as values, and the repair after an insertion: \<^verbatim>\<open>rb_insert_color\<close> turns a tree in which only the new
  red node may have a red parent into a red-black tree with the same nodes in the same order.
\<close>

subsection \<open>Red-black trees\<close>

text \<open>The number of black nodes on the way down, and the colour rules; 0 is red, 1 is black.\<close>

fun bh :: "atree \<Rightarrow> nat" where
  "bh Tip = 0"
| "bh (Bin l a k r) = (if k = 0 then bh l else Suc (bh l))"

fun rb_ok :: "atree \<Rightarrow> bool" where
  "rb_ok Tip \<longleftrightarrow> True"
| "rb_ok (Bin l a k r) \<longleftrightarrow> rb_ok l \<and> rb_ok r \<and> bh l = bh r \<and> (k = 0 \<and> col l = 1 \<and> col r = 1 \<or> k = 1)"

fun fcol :: "frame \<Rightarrow> int" where
  "fcol (InLeft a k r) = k"
| "fcol (InRight l a k) = k"

lemma rb_ok_plugD: "rb_ok (plug t c) \<Longrightarrow> rb_ok t"
proof (induction t c rule: plug.induct)
  case (2 t f c)
  then show ?case by (cases f) auto
qed simp

lemma rb_ok_plug:
  assumes "rb_ok (plug t c)" "rb_ok u" "bh u = bh t" "col u = 1 \<or> col t = 0 \<or> c \<noteq> [] \<and> fcol (hd c) = 1 \<or> c = []"
  shows "rb_ok (plug u c) \<and> bh (plug u c) = bh (plug t c) \<and> (c \<noteq> [] \<longrightarrow> col (plug u c) = col (plug t c))"
  using assms
proof (induction c arbitrary: t u)
  case (Cons f c)
  have o: "rb_ok (fill f t)" using rb_ok_plugD Cons.prems(1) by simp
  have "rb_ok (fill f u)" "bh (fill f u) = bh (fill f t)" "col (fill f u) = col (fill f t)"
    using o Cons.prems by (cases f; auto)+
  then show ?case using Cons.IH [of "fill f t" "fill f u"] Cons.prems(1) o by (cases "c = []"; cases f; auto)
qed simp

lemma rb_ok_col: "rb_ok t \<Longrightarrow> col t = 0 \<or> col t = 1"
  by (cases t) auto

text \<open>With black roots, the tree has at least \<open>2 ^ bh\<close> places and its depth is at most twice its black height.\<close>

fun depth :: "atree \<Rightarrow> nat" where
  "depth Tip = 0"
| "depth (Bin l a k r) = Suc (max (depth l) (depth r))"

lemma rb_depth_bh: "rb_ok t \<Longrightarrow> depth t \<le> 2 * bh t + (if col t = 0 then 1 else 0)"
  by (induction t) (auto split: if_splits)

lemma rb_bh_size: "rb_ok t \<Longrightarrow> 2 ^ bh t \<le> Suc (length (inord t))"
  by (induction t) auto

lemma rb_depth_log:
  assumes "rb_ok t" "col t = 1"
  shows "2 ^ depth t \<le> (Suc (length (inord t)))\<^sup>2"
proof -
  have "depth t \<le> 2 * bh t" using rb_depth_bh [OF assms(1)] assms(2) by simp
  then have "(2::nat) ^ depth t \<le> 2 ^ (2 * bh t)" by (rule pow2_mono_nat)
  also have "\<dots> = (2 ^ bh t)\<^sup>2" by (simp add: power_mult mult.commute)
  also have "\<dots> \<le> (Suc (length (inord t)))\<^sup>2" using rb_bh_size [OF assms(1)] by (rule power_mono) simp
  finally show ?thesis .
qed

subsection \<open>Painting\<close>

lemma ptr_with_hgt [simp]: "ptr (with_hgt k t) = ptr t" "inord (with_hgt k t) = inord t" "t \<noteq> Tip \<Longrightarrow> col (with_hgt k t) = k"
  by (cases t; simp)+

lemma paint_root:
  assumes "rrep s t []" "t \<noteq> Tip" "rb_ok t"
  shows "\<exists>s'. rb_set_black (rroot s) s = Some s' \<and> rrep s' (with_hgt 1 t) [] \<and> rb_ok (with_hgt 1 t) \<and> col (with_hgt 1 t) = 1 \<and>
    outside (set (inord t)) s s'"
proof -
  obtain l a k r where t: "t = Bin l a k r" using assms(2) by (cases t) auto
  have "rroot s = a" using assms(1) by (simp add: rrep_def zrep_def t)
  then show ?thesis using paint_rep(1) [of s l a k r "[]"] assms(1,3) by (auto simp: t)
qed

lemma recolor_rep:
  assumes z: "rrep s (Bin x g k y) c" and n: "x \<noteq> Tip" "y \<noteq> Tip"
  shows "\<exists>s'. rb_recolor (ptr y) (ptr x) g s = Some s' \<and> rrep s' (Bin (with_hgt 1 x) g 0 (with_hgt 1 y)) c \<and>
      outside (set (inord (plug (Bin x g k y) c))) s s'"
    "\<exists>s'. rb_recolor (ptr x) (ptr y) g s = Some s' \<and> rrep s' (Bin (with_hgt 1 x) g 0 (with_hgt 1 y)) c \<and>
      outside (set (inord (plug (Bin x g k y) c))) s s'"
proof -
  obtain x1 p i x2 y1 q j y2 where xy: "x = Bin x1 p i x2" "y = Bin y1 q j y2" using n by (cases x; cases y) auto
  let ?A = "set (inord (plug (Bin x g k y) c))"
  have px: "\<exists>s'. rb_set_black p s = Some s' \<and> rrep s' (Bin (Bin x1 p 1 x2) g k (Bin y1 q j' y2)) c \<and> outside ?A s s'"
    if "rrep s (Bin (Bin x1 p i x2) g k (Bin y1 q j' y2)) c" for s j'
    using paint_rep(1) [of s x1 p i x2 "InLeft g k (Bin y1 q j' y2) # c"] that by (simp add: rrep_fill xy inord_plug)
  have py: "\<exists>s'. rb_set_black q s = Some s' \<and> rrep s' (Bin (Bin x1 p i' x2) g k (Bin y1 q 1 y2)) c \<and> outside ?A s s'"
    if "rrep s (Bin (Bin x1 p i' x2) g k (Bin y1 q j y2)) c" for s i'
    using paint_rep(1) [of s y1 q j y2 "InRight (Bin x1 p i' x2) g k # c"] that by (simp add: rrep_fill xy inord_plug)
  have pg: "\<exists>s'. rb_set_red g s = Some s' \<and> rrep s' (Bin (with_hgt 1 x) g 0 (with_hgt 1 y)) c \<and> outside ?A s s'"
    if "rrep s (Bin (Bin x1 p 1 x2) g k (Bin y1 q 1 y2)) c" for s
    using paint_rep(2) [of s "Bin x1 p 1 x2" g k "Bin y1 q 1 y2" c] that by (simp add: xy inord_plug)
  show "\<exists>s'. rb_recolor (ptr y) (ptr x) g s = Some s' \<and> rrep s' (Bin (with_hgt 1 x) g 0 (with_hgt 1 y)) c \<and> outside ?A s s'"
    using py [of s i] px [of _ 1] pg z outside_trans [of ?A] unfolding rb_recolor_def xy ptr.simps bind_Some_iff by meson
  show "\<exists>s'. rb_recolor (ptr x) (ptr y) g s = Some s' \<and> rrep s' (Bin (with_hgt 1 x) g 0 (with_hgt 1 y)) c \<and> outside ?A s s'"
    using px [of s j] py [of _ 1] pg z outside_trans [of ?A] unfolding rb_recolor_def xy ptr.simps bind_Some_iff by meson
qed

subsection \<open>One round of the loop\<close>

text \<open>The last three statements of a round.\<close>

lemma turn_right:
  assumes "rrep s (Bin (Bin l p i m) g k r) c"
  shows "\<exists>s1 s2 s3. rb_set_black p s = Some s1 \<and> rb_set_red g s1 = Some s2 \<and> rb_rotate_right g s2 = Some s3 \<and>
    rrep s3 (Bin l p 1 (Bin m g 0 r)) c \<and> outside (set (inord (plug (Bin (Bin l p i m) g k r) c))) s s3"
proof -
  let ?A = "set (inord (plug (Bin (Bin l p i m) g k r) c))"
  obtain s1 where s1: "rb_set_black p s = Some s1" "rrep s1 (Bin (Bin l p 1 m) g k r) c" "outside ?A s s1"
    using paint_rep(1) [of s l p i m "InLeft g k r # c"] assms by (auto simp: rrep_fill)
  obtain s2 where s2: "rb_set_red g s1 = Some s2" "rrep s2 (Bin (Bin l p 1 m) g 0 r) c" "outside ?A s1 s2"
    using paint_rep(2) [OF s1(2)] by (auto simp: inord_plug)
  obtain s3 where "rb_rotate_right g s2 = Some s3" "rrep s3 (Bin l p 1 (Bin m g 0 r)) c" "outside ?A s2 s3"
    using rot_right_rep [OF s2(2)] by (auto simp: inord_plug)
  then show ?thesis using s1 s2 outside_trans by blast
qed

lemma turn_left:
  assumes "rrep s (Bin l g k (Bin m p i r)) c"
  shows "\<exists>s1 s2 s3. rb_set_black p s = Some s1 \<and> rb_set_red g s1 = Some s2 \<and> rb_rotate_left g s2 = Some s3 \<and>
    rrep s3 (Bin (Bin l g 0 m) p 1 r) c \<and> outside (set (inord (plug (Bin l g k (Bin m p i r)) c))) s s3"
proof -
  let ?A = "set (inord (plug (Bin l g k (Bin m p i r)) c))"
  obtain s1 where s1: "rb_set_black p s = Some s1" "rrep s1 (Bin l g k (Bin m p 1 r)) c" "outside ?A s s1"
    using paint_rep(1) [of s m p i r "InRight l g k # c"] assms by (auto simp: rrep_fill)
  obtain s2 where s2: "rb_set_red g s1 = Some s2" "rrep s2 (Bin l g 0 (Bin m p 1 r)) c" "outside ?A s1 s2"
    using paint_rep(2) [OF s1(2)] by (auto simp: inord_plug)
  obtain s3 where "rb_rotate_left g s2 = Some s3" "rrep s3 (Bin (Bin l g 0 m) p 1 r) c" "outside ?A s2 s3"
    using rot_left_rep [OF s2(2)] by (auto simp: inord_plug)
  then show ?thesis using s1 s2 outside_trans by blast
qed

lemma rrep_distinct: "rrep s t c \<Longrightarrow> distinct (before c @ inord t @ after c)"
  by (simp add: rrep_def zrep_def)

lemma insert_l_round:
  assumes z: "rrep s (Bin x g k u) c"
  shows "x \<noteq> Tip \<Longrightarrow> col u = 0 \<Longrightarrow> \<exists>s'. rb_insert_l n (ptr x) g s = Some (g, s') \<and>
      rrep s' (Bin (with_hgt 1 x) g 0 (with_hgt 1 u)) c \<and> outside (set (inord (plug (Bin x g k u) c))) s s'"
    and "x = Bin t p i pr \<Longrightarrow> t \<noteq> Tip \<Longrightarrow> col u = 1 \<Longrightarrow> \<exists>s'. rb_insert_l (ptr t) p g s = Some (ptr t, s') \<and>
      rrep s' (Bin t p 1 (Bin pr g 0 u)) c \<and> outside (set (inord (plug (Bin x g k u) c))) s s'"
    and "x = Bin pl p i (Bin ta n j tb) \<Longrightarrow> col u = 1 \<Longrightarrow> \<exists>s'. rb_insert_l n p g s = Some (p, s') \<and>
      rrep s' (Bin (Bin pl p i ta) n 1 (Bin tb g 0 u)) c \<and> outside (set (inord (plug (Bin x g k u) c))) s s'"
proof -
  let ?A = "set (inord (plug (Bin x g k u) c))"
  obtain gn where gn: "rget g s = Some gn" "rb_right gn = ptr u" using rrep_node(1) [OF z] by auto
  have red: "rb_red (ptr u) s = Some (col u = 0)" using rrep_color(1) [of s u "InRight x g k # c"] z by (simp add: rrep_fill)
  show "\<exists>s'. rb_insert_l n (ptr x) g s = Some (g, s') \<and> rrep s' (Bin (with_hgt 1 x) g 0 (with_hgt 1 u)) c \<and> outside ?A s s'"
    if "x \<noteq> Tip" "col u = 0"
    using recolor_rep(1) [OF z that(1)] that gn red by (cases "u = Tip") (auto simp: rb_insert_l_def)
  show "\<exists>s'. rb_insert_l (ptr t) p g s = Some (ptr t, s') \<and> rrep s' (Bin t p 1 (Bin pr g 0 u)) c \<and> outside ?A s s'"
    if x: "x = Bin t p i pr" and "t \<noteq> Tip" "col u = 1"
  proof -
    obtain pn where pn: "rget p s = Some pn" "rb_right pn = ptr pr"
      using rrep_node(1) [of s t p i pr "InLeft g k u # c"] z [unfolded x] by (auto simp: rrep_fill)
    have "ptr pr \<noteq> ptr t"
    proof
      assume e: "ptr pr = ptr t"
      have "rrep s t (InLeft p i pr # InLeft g k u # c)" using z that(1) by (simp add: rrep_fill)
      then have "ptr t \<noteq> 0" using that(2) rrep_node(2) by (cases t) auto
      then show False using e that(2) rrep_distinct [OF z] ptr_in [of t] ptr_in [of pr] unfolding that(1) by (cases "pr = Tip") auto
    qed
    then show ?thesis using turn_right [OF z [unfolded that(1)]] gn red that pn by (auto simp: rb_insert_l_def)
  qed
  show "\<exists>s'. rb_insert_l n p g s = Some (p, s') \<and> rrep s' (Bin (Bin pl p i ta) n 1 (Bin tb g 0 u)) c \<and> outside ?A s s'"
    if x: "x = Bin pl p i (Bin ta n j tb)" and "col u = 1"
  proof -
    have zp: "rrep s (Bin pl p i (Bin ta n j tb)) (InLeft g k u # c)" using z that(1) by (simp add: rrep_fill)
    obtain pn where pn: "rget p s = Some pn" "rb_right pn = n" using rrep_node(1) [OF zp] by auto
    obtain s1 where s1: "rb_rotate_left p s = Some s1" "rrep s1 (Bin (Bin (Bin pl p i ta) n j tb) g k u) c" "outside ?A s s1"
      using rot_left_rep [OF zp] x by (auto simp: rrep_fill)
    obtain s2 s3 s4 where "rb_set_black n s1 = Some s2" "rb_set_red g s2 = Some s3" "rb_rotate_right g s3 = Some s4"
      "rrep s4 (Bin (Bin pl p i ta) n 1 (Bin tb g 0 u)) c" "outside ?A s1 s4"
      using turn_right [OF s1(2)] x by (auto simp: inord_plug)
    then show ?thesis using gn red that(2) pn s1(1) outside_trans [OF s1(3)] by (auto simp: rb_insert_l_def)
  qed
qed

lemma insert_r_round:
  assumes z: "rrep s (Bin u g k x) c"
  shows "x \<noteq> Tip \<Longrightarrow> col u = 0 \<Longrightarrow> \<exists>s'. rb_insert_r n (ptr x) g s = Some (g, s') \<and>
      rrep s' (Bin (with_hgt 1 u) g 0 (with_hgt 1 x)) c \<and> outside (set (inord (plug (Bin u g k x) c))) s s'"
    and "x = Bin pl p i t \<Longrightarrow> t \<noteq> Tip \<Longrightarrow> col u = 1 \<Longrightarrow> \<exists>s'. rb_insert_r (ptr t) p g s = Some (ptr t, s') \<and>
      rrep s' (Bin (Bin u g 0 pl) p 1 t) c \<and> outside (set (inord (plug (Bin u g k x) c))) s s'"
    and "x = Bin (Bin ta n j tb) p i pr \<Longrightarrow> col u = 1 \<Longrightarrow> \<exists>s'. rb_insert_r n p g s = Some (p, s') \<and>
      rrep s' (Bin (Bin u g 0 ta) n 1 (Bin tb p i pr)) c \<and> outside (set (inord (plug (Bin u g k x) c))) s s'"
proof -
  let ?A = "set (inord (plug (Bin u g k x) c))"
  obtain gn where gn: "rget g s = Some gn" "rb_left gn = ptr u" using rrep_node(1) [OF z] by auto
  have red: "rb_red (ptr u) s = Some (col u = 0)" using rrep_color(1) [of s u "InLeft g k x # c"] z by (simp add: rrep_fill)
  show "\<exists>s'. rb_insert_r n (ptr x) g s = Some (g, s') \<and> rrep s' (Bin (with_hgt 1 u) g 0 (with_hgt 1 x)) c \<and> outside ?A s s'"
    if "x \<noteq> Tip" "col u = 0"
    using recolor_rep(2) [OF z _ that(1)] that gn red by (cases "u = Tip") (auto simp: rb_insert_r_def)
  show "\<exists>s'. rb_insert_r (ptr t) p g s = Some (ptr t, s') \<and> rrep s' (Bin (Bin u g 0 pl) p 1 t) c \<and> outside ?A s s'"
    if x: "x = Bin pl p i t" and "t \<noteq> Tip" "col u = 1"
  proof -
    obtain pn where pn: "rget p s = Some pn" "rb_left pn = ptr pl"
      using rrep_node(1) [of s pl p i t "InRight u g k # c"] z [unfolded x] by (auto simp: rrep_fill)
    have "ptr pl \<noteq> ptr t"
    proof
      assume e: "ptr pl = ptr t"
      have "rrep s t (InRight pl p i # InRight u g k # c)" using z that(1) by (simp add: rrep_fill)
      then have "ptr t \<noteq> 0" using that(2) rrep_node(2) by (cases t) auto
      then show False using e that(2) rrep_distinct [OF z] ptr_in [of t] ptr_in [of pl] unfolding that(1) by (cases "pl = Tip") auto
    qed
    then show ?thesis using turn_left [OF z [unfolded that(1)]] gn red that pn by (auto simp: rb_insert_r_def)
  qed
  show "\<exists>s'. rb_insert_r n p g s = Some (p, s') \<and> rrep s' (Bin (Bin u g 0 ta) n 1 (Bin tb p i pr)) c \<and> outside ?A s s'"
    if x: "x = Bin (Bin ta n j tb) p i pr" and "col u = 1"
  proof -
    have zp: "rrep s (Bin (Bin ta n j tb) p i pr) (InRight u g k # c)" using z that(1) by (simp add: rrep_fill)
    obtain pn where pn: "rget p s = Some pn" "rb_left pn = n" using rrep_node(1) [OF zp] by auto
    obtain s1 where s1: "rb_rotate_right p s = Some s1" "rrep s1 (Bin u g k (Bin ta n j (Bin tb p i pr))) c" "outside ?A s s1"
      using rot_right_rep [OF zp] x by (auto simp: rrep_fill)
    obtain s2 s3 s4 where "rb_set_black n s1 = Some s2" "rb_set_red g s2 = Some s3" "rb_rotate_left g s3 = Some s4"
      "rrep s4 (Bin (Bin u g 0 ta) n 1 (Bin tb p i pr)) c" "outside ?A s1 s4"
      using turn_left [OF s1(2)] x by (auto simp: inord_plug)
    then show ?thesis using gn red that(2) pn s1(1) outside_trans [OF s1(3)] by (auto simp: rb_insert_r_def)
  qed
qed

text \<open>A round at a red node \<open>t\<close> with the red parent frame \<open>f\<close> and the black grandparent frame \<open>e\<close>: either the loop goes on at
  the grandparent, red now, or it is left with a repaired subtree.\<close>

definition round_post :: "rb \<Rightarrow> u64 \<Rightarrow> rb \<Rightarrow> atree \<Rightarrow> frame \<Rightarrow> frame \<Rightarrow> frame list \<Rightarrow> bool" where
  "round_post s n s' t f e c \<longleftrightarrow> (\<exists>t'. rrep s' t' c \<and> rb_ok t' \<and> bh t' = bh (fill e (fill f t)) \<and>
     inord t' = inord (fill e (fill f t)) \<and> outside (set (inord (plug t (f # e # c)))) s s' \<and>
     (col t' = 0 \<and> n = ptr t' \<or> col t' = 1 \<and> rb_insert_loop n s' = Some s'))"

lemma insert_loop_stop:
  assumes "rrep s (Bin l a k r) c" "c = [] \<or> fcol (hd c) = 1"
  shows "rb_insert_loop a s = Some s"
proof -
  note N = rrep_node [OF assms(1)]
  have "rb_red (up c) s = Some False"
  proof (cases c)
    case (Cons f d)
    have "rrep s (fill f (Bin l a k r)) d" using assms(1) unfolding Cons rrep_fill .
    then show ?thesis using rrep_color(1) assms(2) unfolding Cons by (cases f) fastforce+
  qed (simp add: rb_red_def)
  then show ?thesis using N(4) by (subst rb_insert_loop.simps) simp
qed

lemma insert_loop_step:
  assumes z: "rrep s t (f # e # c)" and t: "t \<noteq> Tip" "fcol f = 0"
  shows "rb_insert_loop (ptr t) s = (case e of InLeft g k u \<Rightarrow> rb_insert_l (ptr t) (ptr (fill f t)) g s
      | InRight u g k \<Rightarrow> rb_insert_r (ptr t) (ptr (fill f t)) g s) \<bind> (\<lambda>(n, s). rb_insert_loop n s)"
proof -
  obtain ta a i tb where t': "t = Bin ta a i tb" using t(1) by (cases t) auto
  obtain pl p j pr where p: "fill f t = Bin pl p j pr" "up (f # e # c) = p" by (rule fill_Bin)
  obtain gl g k gr where g: "fill e (fill f t) = Bin gl g k gr" "up (e # c) = g" by (rule fill_Bin)
  have zf: "rrep s (Bin pl p j pr) (e # c)" "rrep s (Bin gl g k gr) c" using z by (simp_all add: rrep_fill p(1) [symmetric] g(1) [symmetric])
  have j: "j = 0" using p(1) t(2) by (cases f) auto
  have red: "rb_red p s = Some True" using rrep_color(1) [OF zf(1)] j by simp
  obtain gn where gn: "rget g s = Some gn" "rb_left gn = ptr gl" using rrep_node(1) [OF zf(2)] by auto
  have gl: "p = ptr gl \<longleftrightarrow> (\<exists>g k u. e = InLeft g k u)"
  proof (cases e)
    case (InLeft g' k' u)
    have "ptr (fill f t) = p" unfolding p(1) by simp
    then show ?thesis using g(1) InLeft by auto
  next
    case (InRight u g' k')
    then have "distinct (inord gl @ g # inord (Bin pl p j pr))" using rrep_distinct [OF zf(2)] g(1) p(1) by auto
    then show ?thesis using InRight ptr_other [of p gl] rrep_node(2) [OF zf(1)] by auto
  qed
  show ?thesis
    using rrep_node(4) [OF z [unfolded t']] p(2) red rrep_node(4) [OF zf(1)] g(2) gn gl
    unfolding t' ptr.simps rb_insert_loop.simps [of a s] by (cases e) (simp_all add: p(1) [unfolded t'])
qed

lemma round_intro:
  assumes "rb_insert_loop (ptr t) s = x \<bind> (\<lambda>(n, s). rb_insert_loop n s)" "x = Some (n, s')" "rrep s' t' c"
    "outside (set (inord (plug t (f # e # c)))) s s'" "rb_ok t' \<and> bh t' = bh (fill e (fill f t))" "inord t' = inord (fill e (fill f t))"
    "col t' = 0 \<and> n = ptr t' \<or> col t' = 1 \<and> rb_insert_loop n s' = Some s'"
  shows "\<exists>n s'. rb_insert_loop (ptr t) s = rb_insert_loop n s' \<and> round_post s n s' t f e c"
proof -
  have "rb_insert_loop (ptr t) s = rb_insert_loop n s'" using assms(1,2) by simp
  then show ?thesis using assms(3-) unfolding round_post_def by blast
qed

lemma insert_round_l:
  assumes z: "rrep s t (f # InLeft g j u # c)" and ok: "rb_ok t" "rb_ok (Bin (fill f t0) g j u)" "bh t = bh t0" and k: "col t = 0" "fcol f = 0"
  shows "\<exists>n s'. rb_insert_loop (ptr t) s = rb_insert_loop n s' \<and> round_post s n s' t f (InLeft g j u) c"
proof -
  obtain ta a tb where t: "t = Bin ta a 0 tb" using k(1) by (cases t) auto
  have zf: "rrep s (Bin (fill f t) g j u) c" using z by (simp add: rrep_fill)
  have tt: "rb_ok ta" "rb_ok tb" "bh ta = bh tb" "bh tb = bh t0" "col ta = 1" "col tb = 1" using ok(1,3) by (auto simp: t)
  have j: "j = 1" "rb_ok u" "bh u = bh (fill f t0)" using ok(2) k(2) by (cases f; simp)+
  have step: "rb_insert_loop (ptr t) s = rb_insert_l (ptr t) (ptr (fill f t)) g s \<bind> (\<lambda>(n, s). rb_insert_loop n s)"
    using insert_loop_step [OF z _ k(2)] t by simp
  note R = insert_l_round [OF zf]
  let ?A = "set (inord (plug (Bin (fill f t) g j u) c))"
  have A: "set (inord (plug t (f # InLeft g j u # c))) = ?A" by simp
  consider "col u = 0" | "col u = 1" using rb_ok_col [OF j(2)] by blast
  then show ?thesis
  proof cases
    case 1
    have "fill f t \<noteq> Tip" by (cases f) auto
    then obtain s' where s': "rb_insert_l (ptr t) (ptr (fill f t)) g s = Some (g, s')"
      "rrep s' (Bin (with_hgt 1 (fill f t)) g 0 (with_hgt 1 u)) c" "outside ?A s s'" using R(1) 1 by blast
    let ?t = "Bin (with_hgt 1 (fill f t)) g 0 (with_hgt 1 u)"
    have "rb_ok ?t \<and> bh ?t = bh (fill (InLeft g j u) (fill f t))" using ok tt j 1 k(2) t by (cases u; cases f) auto
    from round_intro [OF step s'(1,2) _ this] show ?thesis using s'(3) A by simp
  next
    case 2
    show ?thesis
    proof (cases f)
      case (InLeft p i pr)
      obtain s' where s': "rb_insert_l (ptr t) p g s = Some (ptr t, s')" "rrep s' (Bin t p 1 (Bin pr g 0 u)) c" "outside ?A s s'"
        using R(2) [of t p i pr] 2 t unfolding InLeft by auto
      have "rb_insert_loop (ptr t) s' = Some s'"
        using insert_loop_stop [of s' ta a 0 tb "InLeft p 1 (Bin pr g 0 u) # c"] s'(2) t by (simp add: rrep_fill)
      moreover have "rb_ok (Bin t p 1 (Bin pr g 0 u)) \<and> bh (Bin t p 1 (Bin pr g 0 u)) = bh (fill (InLeft g j u) (fill f t))"
        using ok j 2 k(2) t unfolding InLeft by auto
      moreover have "rb_insert_l (ptr t) (ptr (fill f t)) g s = Some (ptr t, s')" using s'(1) by (simp add: InLeft)
      ultimately show ?thesis using round_intro [OF step _ s'(2)] s'(3) A by (simp add: InLeft)
    next
      case (InRight pl p i)
      let ?t = "Bin (Bin pl p i ta) a 1 (Bin tb g 0 u)"
      obtain s' where s': "rb_insert_l (ptr t) p g s = Some (p, s')" "rrep s' ?t c" "outside ?A s s'"
        using R(3) [of pl p i ta a 0 tb] 2 t unfolding InRight by auto
      have "rb_insert_loop p s' = Some s'"
        using insert_loop_stop [of s' pl p i ta "InLeft a 1 (Bin tb g 0 u) # c"] s'(2) by (simp add: rrep_fill)
      moreover have "rb_ok ?t \<and> bh ?t = bh (fill (InLeft g j u) (fill f t))"
        using ok tt j 2 k(2) t unfolding InRight by auto
      moreover have "rb_insert_l (ptr t) (ptr (fill f t)) g s = Some (p, s')" using s'(1) by (simp add: InRight)
      ultimately show ?thesis using round_intro [OF step _ s'(2)] s'(3) A t by (simp add: InRight)
    qed
  qed
qed

lemma insert_round_r:
  assumes z: "rrep s t (f # InRight u g j # c)" and ok: "rb_ok t" "rb_ok (Bin u g j (fill f t0))" "bh t = bh t0" and k: "col t = 0" "fcol f = 0"
  shows "\<exists>n s'. rb_insert_loop (ptr t) s = rb_insert_loop n s' \<and> round_post s n s' t f (InRight u g j) c"
proof -
  obtain ta a tb where t: "t = Bin ta a 0 tb" using k(1) by (cases t) auto
  have zf: "rrep s (Bin u g j (fill f t)) c" using z by (simp add: rrep_fill)
  have tt: "rb_ok ta" "rb_ok tb" "bh ta = bh tb" "bh tb = bh t0" "col ta = 1" "col tb = 1" using ok(1,3) by (auto simp: t)
  have j: "j = 1" "rb_ok u" "bh u = bh (fill f t0)" using ok(2) k(2) by (cases f; simp)+
  have step: "rb_insert_loop (ptr t) s = rb_insert_r (ptr t) (ptr (fill f t)) g s \<bind> (\<lambda>(n, s). rb_insert_loop n s)"
    using insert_loop_step [OF z _ k(2)] t by simp
  note R = insert_r_round [OF zf]
  let ?A = "set (inord (plug (Bin u g j (fill f t)) c))"
  have A: "set (inord (plug t (f # InRight u g j # c))) = ?A" by simp
  consider "col u = 0" | "col u = 1" using rb_ok_col [OF j(2)] by blast
  then show ?thesis
  proof cases
    case 1
    have "fill f t \<noteq> Tip" by (cases f) auto
    then obtain s' where s': "rb_insert_r (ptr t) (ptr (fill f t)) g s = Some (g, s')"
      "rrep s' (Bin (with_hgt 1 u) g 0 (with_hgt 1 (fill f t))) c" "outside ?A s s'" using R(1) 1 by blast
    let ?t = "Bin (with_hgt 1 u) g 0 (with_hgt 1 (fill f t))"
    have "rb_ok ?t \<and> bh ?t = bh (fill (InRight u g j) (fill f t))" using ok tt j 1 k(2) t by (cases u; cases f) auto
    from round_intro [OF step s'(1,2) _ this] show ?thesis using s'(3) A by simp
  next
    case 2
    show ?thesis
    proof (cases f)
      case (InRight pl p i)
      obtain s' where s': "rb_insert_r (ptr t) p g s = Some (ptr t, s')" "rrep s' (Bin (Bin u g 0 pl) p 1 t) c" "outside ?A s s'"
        using R(2) [of pl p i t] 2 t unfolding InRight by auto
      have "rb_insert_loop (ptr t) s' = Some s'"
        using insert_loop_stop [of s' ta a 0 tb "InRight (Bin u g 0 pl) p 1 # c"] s'(2) t by (simp add: rrep_fill)
      moreover have "rb_ok (Bin (Bin u g 0 pl) p 1 t) \<and> bh (Bin (Bin u g 0 pl) p 1 t) = bh (fill (InRight u g j) (fill f t))"
        using ok j 2 k(2) t unfolding InRight by auto
      moreover have "rb_insert_r (ptr t) (ptr (fill f t)) g s = Some (ptr t, s')" using s'(1) by (simp add: InRight)
      ultimately show ?thesis using round_intro [OF step _ s'(2)] s'(3) A by (simp add: InRight)
    next
      case (InLeft p i pr)
      let ?t = "Bin (Bin u g 0 ta) a 1 (Bin tb p i pr)"
      obtain s' where s': "rb_insert_r (ptr t) p g s = Some (p, s')" "rrep s' ?t c" "outside ?A s s'"
        using R(3) [of ta a 0 tb p i pr] 2 t unfolding InLeft by auto
      have "rb_insert_loop p s' = Some s'"
        using insert_loop_stop [of s' tb p i pr "InRight (Bin u g 0 ta) a 1 # c"] s'(2) by (simp add: rrep_fill)
      moreover have "rb_ok ?t \<and> bh ?t = bh (fill (InRight u g j) (fill f t))"
        using ok tt j 2 k(2) t unfolding InLeft by auto
      moreover have "rb_insert_r (ptr t) (ptr (fill f t)) g s = Some (p, s')" using s'(1) by (simp add: InLeft)
      ultimately show ?thesis using round_intro [OF step _ s'(2)] s'(3) A t by (simp add: InLeft)
    qed
  qed
qed

lemma insert_round:
  assumes z: "rrep s t (f # e # c)" and ok: "rb_ok t" "rb_ok (fill e (fill f t0))" "bh t = bh t0" and k: "col t = 0" "fcol f = 0"
  shows "\<exists>n s'. rb_insert_loop (ptr t) s = rb_insert_loop n s' \<and> round_post s n s' t f e c"
proof (cases e)
  case (InLeft g j u)
  show ?thesis using insert_round_l [OF z [unfolded InLeft] ok(1) ok(2) [unfolded InLeft fill.simps] ok(3) k] unfolding InLeft .
next
  case (InRight u g j)
  show ?thesis using insert_round_r [OF z [unfolded InRight] ok(1) ok(2) [unfolded InRight fill.simps] ok(3) k] unfolding InRight .
qed

subsection \<open>The loop\<close>

text \<open>\<open>t0\<close> stands for what was in the place of the red node before: a tree with the same number of black levels.\<close>

lemma insert_loop_rep:
  assumes "rrep s t c" "rb_ok t" "col t = 0" "rb_ok (plug t0 c)" "col (plug t0 c) = 1" "bh t = bh t0"
  shows "\<exists>s' T. rb_insert_loop (ptr t) s = Some s' \<and> rrep s' T [] \<and> rb_ok T \<and> inord T = inord (plug t c) \<and>
    outside (set (inord (plug t c))) s s'"
  using assms
proof (induction "length c" arbitrary: c t t0 s rule: less_induct)
  case less
  obtain ta a tb where t: "t = Bin ta a 0 tb" using less.prems(3) by (cases t) auto
  show ?case
  proof (cases "c = [] \<or> fcol (hd c) = 1")
    case True
    then have "rb_ok (plug t c)" using rb_ok_plug [OF less.prems(4,2,6)] by blast
    moreover have "rb_insert_loop (ptr t) s = Some s" using insert_loop_stop less.prems(1) True t by simp
    ultimately show ?thesis using less.prems(1) rrep_top by (intro exI [of _ s] exI [of _ "plug t c"]) simp
  next
    case False
    then obtain f c1 where c1: "c = f # c1" "fcol f \<noteq> 1" by (cases c) auto
    have f0: "rb_ok (fill f t0)" using rb_ok_plugD less.prems(4) unfolding c1 by simp
    have f: "fcol f = 0" "col (fill f t0) = 0" using f0 c1(2) by (cases f; auto)+
    then obtain e c2 where c2: "c1 = e # c2" using less.prems(5) unfolding c1 by (cases c1) auto
    have e0: "rb_ok (fill e (fill f t0))" using rb_ok_plugD less.prems(4) unfolding c1 c2 by simp
    have b0: "bh (fill e (fill f t)) = bh (fill e (fill f t0))" using less.prems(6) by (cases e; cases f) auto
    obtain n s1 where s1: "rb_insert_loop (ptr t) s = rb_insert_loop n s1" "round_post s n s1 t f e c2"
      using insert_round [OF less.prems(1) [unfolded c1 c2] less.prems(2) e0 less.prems(6,3) f(1)] by blast
    then obtain t' where t': "rrep s1 t' c2" "rb_ok t'" "bh t' = bh (fill e (fill f t0))" "inord t' = inord (fill e (fill f t))"
      "outside (set (inord (plug t c))) s s1" "col t' = 0 \<and> n = ptr t' \<or> col t' = 1 \<and> rb_insert_loop n s1 = Some s1"
      unfolding round_post_def c1 c2 b0 by blast
    have i: "inord (plug t' c2) = inord (plug t c)" using t'(4) unfolding c1 c2 by (simp add: inord_plug)
    have p: "rb_ok (plug (fill e (fill f t0)) c2)" "col (plug (fill e (fill f t0)) c2) = 1"
      using less.prems(4,5) unfolding c1 c2 by simp_all
    from t'(6) show ?thesis
    proof
      assume r: "col t' = 0 \<and> n = ptr t'"
      then show ?thesis using less.hyps [OF _ t'(1,2) _ p t'(3)] s1(1) outside_trans [OF t'(5)] unfolding i by (auto simp: c1 c2)
    next
      assume b: "col t' = 1 \<and> rb_insert_loop n s1 = Some s1"
      then have "rb_ok (plug t' c2)" using rb_ok_plug [OF p(1) t'(2,3)] by blast
      then show ?thesis using b s1(1) t'(1,5) rrep_top i by (intro exI [of _ s1] exI [of _ "plug t' c2"]) simp
    qed
  qed
qed

lemma insert_color_rep:
  assumes "rrep s t c" "rb_ok t" "col t = 0" "rb_ok (plug t0 c)" "col (plug t0 c) = 1" "bh t = bh t0"
  shows "\<exists>s' T. rb_insert_color (ptr t) s = Some s' \<and> rrep s' T [] \<and> rb_ok T \<and> col T = 1 \<and> inord T = inord (plug t c) \<and>
    outside (set (inord (plug t c))) s s'"
proof -
  obtain s1 T where s1: "rb_insert_loop (ptr t) s = Some s1" "rrep s1 T []" "rb_ok T" "inord T = inord (plug t c)"
    "outside (set (inord (plug t c))) s s1" using insert_loop_rep [OF assms] by blast
  have "T \<noteq> Tip" using s1(4) assms(3) by (cases t) (auto simp: inord_plug)
  from paint_root [OF s1(2) this s1(3)] show ?thesis
    using s1(1,4) outside_trans [OF s1(5)] by (auto simp: rb_insert_color_def intro!: exI [of _ "with_hgt 1 T"])
qed

end
