(* ===== verification/RbErase.thy ===== *)
theory RbErase
  imports RbInsert
begin

text \<open>
  The repair after a removal: \<^verbatim>\<open>__rb_erase_color\<close> turns a tree in which one subtree lacks a black level into a red-black
  tree with the same nodes in the same order.
\<close>

subsection \<open>One round of the loop\<close>

text \<open>The last statements of a round, with a red child on the far side of the sibling \<open>q\<close>.\<close>

lemma finish_left:
  assumes z: "rrep s (Bin t p k (Bin x q i (Bin y n j w))) c"
  shows "\<exists>pn s1 s2 qn s3 s4. rget p s = Some pn \<and> rb_set_color q (color_of pn) s = Some s1 \<and> rb_set_black p s1 = Some s2 \<and>
    rget q s2 = Some qn \<and> rb_set_black (rb_right qn) s2 = Some s3 \<and> rb_rotate_left p s3 = Some s4 \<and>
    rrep s4 (Bin (Bin t p 1 x) q k (Bin y n 1 w)) c \<and> outside (set (inord (plug (Bin t p k (Bin x q i (Bin y n j w))) c))) s s4"
proof -
  let ?A = "set (inord (plug (Bin t p k (Bin x q i (Bin y n j w))) c))"
  obtain pn where pn: "rget p s = Some pn" "uint (color_of pn) = k" using rrep_node(1) [OF z] by auto
  obtain s1 where s1: "rb_set_color q (color_of pn) s = Some s1" "rrep s1 (Bin t p k (Bin x q k (Bin y n j w))) c" "outside ?A s s1"
    using paint_rep(3) [of s x q i "Bin y n j w" "InRight t p k # c" pn] z pn(2) by (auto simp: rrep_fill)
  obtain s2 where s2: "rb_set_black p s1 = Some s2" "rrep s2 (Bin t p 1 (Bin x q k (Bin y n j w))) c" "outside ?A s1 s2"
    using paint_rep(1) [OF s1(2)] by (auto simp: inord_plug)
  have q: "rrep s2 (Bin x q k (Bin y n j w)) (InRight t p 1 # c)" using s2(2) by (simp add: rrep_fill)
  obtain qn where qn: "rget q s2 = Some qn" "rb_right qn = n" using rrep_node(1) [OF q] by auto
  obtain s3 where s3: "rb_set_black n s2 = Some s3" "rrep s3 (Bin t p 1 (Bin x q k (Bin y n 1 w))) c" "outside ?A s2 s3"
    using paint_rep(1) [of s2 y n j w "InRight x q k # InRight t p 1 # c"] s2(2) by (auto simp: rrep_fill inord_plug)
  obtain s4 where "rb_rotate_left p s3 = Some s4" "rrep s4 (Bin (Bin t p 1 x) q k (Bin y n 1 w)) c" "outside ?A s3 s4"
    using rot_left_rep [OF s3(2)] by (auto simp: inord_plug)
  then show ?thesis using pn s1 s2 qn s3 outside_trans by blast
qed

lemma finish_right:
  assumes z: "rrep s (Bin (Bin (Bin w n j y) q i x) p k t) c"
  shows "\<exists>pn s1 s2 qn s3 s4. rget p s = Some pn \<and> rb_set_color q (color_of pn) s = Some s1 \<and> rb_set_black p s1 = Some s2 \<and>
    rget q s2 = Some qn \<and> rb_set_black (rb_left qn) s2 = Some s3 \<and> rb_rotate_right p s3 = Some s4 \<and>
    rrep s4 (Bin (Bin w n 1 y) q k (Bin x p 1 t)) c \<and> outside (set (inord (plug (Bin (Bin (Bin w n j y) q i x) p k t) c))) s s4"
proof -
  let ?A = "set (inord (plug (Bin (Bin (Bin w n j y) q i x) p k t) c))"
  obtain pn where pn: "rget p s = Some pn" "uint (color_of pn) = k" using rrep_node(1) [OF z] by auto
  obtain s1 where s1: "rb_set_color q (color_of pn) s = Some s1" "rrep s1 (Bin (Bin (Bin w n j y) q k x) p k t) c" "outside ?A s s1"
    using paint_rep(3) [of s "Bin w n j y" q i x "InLeft p k t # c" pn] z pn(2) by (auto simp: rrep_fill)
  obtain s2 where s2: "rb_set_black p s1 = Some s2" "rrep s2 (Bin (Bin (Bin w n j y) q k x) p 1 t) c" "outside ?A s1 s2"
    using paint_rep(1) [OF s1(2)] by (auto simp: inord_plug)
  have q: "rrep s2 (Bin (Bin w n j y) q k x) (InLeft p 1 t # c)" using s2(2) by (simp add: rrep_fill)
  obtain qn where qn: "rget q s2 = Some qn" "rb_left qn = n" using rrep_node(1) [OF q] by auto
  obtain s3 where s3: "rb_set_black n s2 = Some s3" "rrep s3 (Bin (Bin (Bin w n 1 y) q k x) p 1 t) c" "outside ?A s2 s3"
    using paint_rep(1) [of s2 w n j y "InLeft q k x # InLeft p 1 t # c"] s2(2) by (auto simp: rrep_fill inord_plug)
  obtain s4 where "rb_rotate_right p s3 = Some s4" "rrep s4 (Bin (Bin w n 1 y) q k (Bin x p 1 t)) c" "outside ?A s3 s4"
    using rot_right_rep [OF s3(2)] by (auto simp: inord_plug)
  then show ?thesis using pn s1 s2 qn s3 outside_trans by blast
qed

text \<open>A black sibling \<open>q\<close> with children \<open>x\<close> and \<open>y\<close>: the three cases of the code.\<close>

lemma erase_l_rest_rep:
  assumes z: "rrep s (Bin t p k (Bin x q i y)) c"
  shows "col x = 1 \<Longrightarrow> col y = 1 \<Longrightarrow> \<exists>s'. rb_erase_l_rest q p s = Some (Inl (p, up c), s') \<and>
      rrep s' (Bin t p k (Bin x q 0 y)) c \<and> outside (set (inord (plug (Bin t p k (Bin x q i y)) c))) s s'"
    and "col y = 0 \<Longrightarrow> \<exists>s'. rb_erase_l_rest q p s = Some (Inr (rroot s'), s') \<and>
      rrep s' (Bin (Bin t p 1 x) q k (with_hgt 1 y)) c \<and> outside (set (inord (plug (Bin t p k (Bin x q i y)) c))) s s'"
    and "x = Bin u n 0 v \<Longrightarrow> col y = 1 \<Longrightarrow> \<exists>s'. rb_erase_l_rest q p s = Some (Inr (rroot s'), s') \<and>
      rrep s' (Bin (Bin t p 1 u) n k (Bin v q 1 y)) c \<and> outside (set (inord (plug (Bin t p k (Bin x q i y)) c))) s s'"
proof -
  let ?A = "set (inord (plug (Bin t p k (Bin x q i y)) c))"
  have zq: "rrep s (Bin x q i y) (InRight t p k # c)" using z by (simp add: rrep_fill)
  obtain qn where qn: "rget q s = Some qn" "rb_left qn = ptr x" "rb_right qn = ptr y" using rrep_node(1) [OF zq] by auto
  have b: "rb_black (ptr x) s = Some (col x \<noteq> 0)" "rb_black (ptr y) s = Some (col y \<noteq> 0)"
    using rrep_color(2) [of s x "InLeft q i y # InRight t p k # c"] rrep_color(2) [of s y "InRight x q i # InRight t p k # c"] z
    by (simp_all add: rrep_fill)
  show "\<exists>s'. rb_erase_l_rest q p s = Some (Inl (p, up c), s') \<and> rrep s' (Bin t p k (Bin x q 0 y)) c \<and> outside ?A s s'"
    if "col x = 1" "col y = 1"
  proof -
    obtain s' where s': "rb_set_red q s = Some s'" "rrep s' (Bin t p k (Bin x q 0 y)) c" "outside ?A s s'"
      using paint_rep(2) [OF zq] by (auto simp: rrep_fill)
    then show ?thesis using qn b that rrep_node(4) [OF s'(2)] by (auto simp: rb_erase_l_rest_def)
  qed
  show "\<exists>s'. rb_erase_l_rest q p s = Some (Inr (rroot s'), s') \<and> rrep s' (Bin (Bin t p 1 x) q k (with_hgt 1 y)) c \<and> outside ?A s s'"
    if "col y = 0"
  proof -
    obtain y1 n j y2 where y: "y = Bin y1 n j y2" using \<open>col y = 0\<close> by (cases y) auto
    show ?thesis using finish_left [OF z [unfolded y]] qn b that unfolding y by (auto simp: rb_erase_l_rest_def rb_color_def)
  qed
  show "\<exists>s'. rb_erase_l_rest q p s = Some (Inr (rroot s'), s') \<and> rrep s' (Bin (Bin t p 1 u) n k (Bin v q 1 y)) c \<and> outside ?A s s'"
    if x: "x = Bin u n 0 v" and "col y = 1"
  proof -
    obtain s1 where s1: "rb_set_black n s = Some s1" "rrep s1 (Bin t p k (Bin (Bin u n 1 v) q i y)) c" "outside ?A s s1"
      using paint_rep(1) [of s u n 0 v "InLeft q i y # InRight t p k # c"] z x by (auto simp: rrep_fill)
    obtain s2 where s2: "rb_set_red q s1 = Some s2" "rrep s2 (Bin t p k (Bin (Bin u n 1 v) q 0 y)) c" "outside ?A s1 s2"
      using paint_rep(2) [of s1 "Bin u n 1 v" q i y "InRight t p k # c"] s1(2) x by (auto simp: rrep_fill inord_plug)
    obtain s3 where s3: "rb_rotate_right q s2 = Some s3" "rrep s3 (Bin t p k (Bin u n 1 (Bin v q 0 y))) c" "outside ?A s2 s3"
      using rot_right_rep [of s2 u n 1 v q 0 y "InRight t p k # c"] s2(2) x by (auto simp: rrep_fill inord_plug)
    obtain pn where pn: "rget p s3 = Some pn" "rb_right pn = n" using rrep_node(1) [OF s3(2)] by auto
    obtain s4 s5 qm s6 s7 where s4: "rb_set_color n (color_of pn) s3 = Some s4" "rb_set_black p s4 = Some s5"
      "rget n s5 = Some qm" "rb_set_black (rb_right qm) s5 = Some s6" "rb_rotate_left p s6 = Some s7"
      "rrep s7 (Bin (Bin t p 1 u) n k (Bin v q 1 y)) c" "outside ?A s3 s7"
      using finish_left [OF s3(2)] pn(1) x by (auto simp: inord_plug)
    have "outside ?A s s7" using outside_trans s1(3) s2(3) s3(3) s4(7) by blast
    moreover have "rb_erase_l_rest q p s = Some (Inr (rroot s7), s7)"
      using qn b x \<open>col y = 1\<close> s1(1) s2(1) s3(1) pn s4(1-5) by (simp add: rb_erase_l_rest_def rb_color_def)
    ultimately show ?thesis using s4(6) by blast
  qed
qed

lemma erase_r_rest_rep:
  assumes z: "rrep s (Bin (Bin y q i x) p k t) c"
  shows "col x = 1 \<Longrightarrow> col y = 1 \<Longrightarrow> \<exists>s'. rb_erase_r_rest q p s = Some (Inl (p, up c), s') \<and>
      rrep s' (Bin (Bin y q 0 x) p k t) c \<and> outside (set (inord (plug (Bin (Bin y q i x) p k t) c))) s s'"
    and "col y = 0 \<Longrightarrow> \<exists>s'. rb_erase_r_rest q p s = Some (Inr (rroot s'), s') \<and>
      rrep s' (Bin (with_hgt 1 y) q k (Bin x p 1 t)) c \<and> outside (set (inord (plug (Bin (Bin y q i x) p k t) c))) s s'"
    and "x = Bin v n 0 u \<Longrightarrow> col y = 1 \<Longrightarrow> \<exists>s'. rb_erase_r_rest q p s = Some (Inr (rroot s'), s') \<and>
      rrep s' (Bin (Bin y q 1 v) n k (Bin u p 1 t)) c \<and> outside (set (inord (plug (Bin (Bin y q i x) p k t) c))) s s'"
proof -
  let ?A = "set (inord (plug (Bin (Bin y q i x) p k t) c))"
  have zq: "rrep s (Bin y q i x) (InLeft p k t # c)" using z by (simp add: rrep_fill)
  obtain qn where qn: "rget q s = Some qn" "rb_right qn = ptr x" "rb_left qn = ptr y" using rrep_node(1) [OF zq] by auto
  have b: "rb_black (ptr x) s = Some (col x \<noteq> 0)" "rb_black (ptr y) s = Some (col y \<noteq> 0)"
    using rrep_color(2) [of s x "InRight y q i # InLeft p k t # c"] rrep_color(2) [of s y "InLeft q i x # InLeft p k t # c"] z
    by (simp_all add: rrep_fill)
  show "\<exists>s'. rb_erase_r_rest q p s = Some (Inl (p, up c), s') \<and> rrep s' (Bin (Bin y q 0 x) p k t) c \<and> outside ?A s s'"
    if "col x = 1" "col y = 1"
  proof -
    obtain s' where s': "rb_set_red q s = Some s'" "rrep s' (Bin (Bin y q 0 x) p k t) c" "outside ?A s s'"
      using paint_rep(2) [OF zq] by (auto simp: rrep_fill)
    then show ?thesis using qn b that rrep_node(4) [OF s'(2)] by (auto simp: rb_erase_r_rest_def)
  qed
  show "\<exists>s'. rb_erase_r_rest q p s = Some (Inr (rroot s'), s') \<and> rrep s' (Bin (with_hgt 1 y) q k (Bin x p 1 t)) c \<and> outside ?A s s'"
    if "col y = 0"
  proof -
    obtain y1 n j y2 where y: "y = Bin y1 n j y2" using \<open>col y = 0\<close> by (cases y) auto
    show ?thesis using finish_right [OF z [unfolded y]] qn b that unfolding y by (auto simp: rb_erase_r_rest_def rb_color_def)
  qed
  show "\<exists>s'. rb_erase_r_rest q p s = Some (Inr (rroot s'), s') \<and> rrep s' (Bin (Bin y q 1 v) n k (Bin u p 1 t)) c \<and> outside ?A s s'"
    if x: "x = Bin v n 0 u" and "col y = 1"
  proof -
    obtain s1 where s1: "rb_set_black n s = Some s1" "rrep s1 (Bin (Bin y q i (Bin v n 1 u)) p k t) c" "outside ?A s s1"
      using paint_rep(1) [of s v n 0 u "InRight y q i # InLeft p k t # c"] z x by (auto simp: rrep_fill)
    obtain s2 where s2: "rb_set_red q s1 = Some s2" "rrep s2 (Bin (Bin y q 0 (Bin v n 1 u)) p k t) c" "outside ?A s1 s2"
      using paint_rep(2) [of s1 y q i "Bin v n 1 u" "InLeft p k t # c"] s1(2) x by (auto simp: rrep_fill inord_plug)
    obtain s3 where s3: "rb_rotate_left q s2 = Some s3" "rrep s3 (Bin (Bin (Bin y q 0 v) n 1 u) p k t) c" "outside ?A s2 s3"
      using rot_left_rep [of s2 y q 0 v n 1 u "InLeft p k t # c"] s2(2) x by (auto simp: rrep_fill inord_plug)
    obtain pn where pn: "rget p s3 = Some pn" "rb_left pn = n" using rrep_node(1) [OF s3(2)] by auto
    obtain s4 s5 qm s6 s7 where s4: "rb_set_color n (color_of pn) s3 = Some s4" "rb_set_black p s4 = Some s5"
      "rget n s5 = Some qm" "rb_set_black (rb_left qm) s5 = Some s6" "rb_rotate_right p s6 = Some s7"
      "rrep s7 (Bin (Bin y q 1 v) n k (Bin u p 1 t)) c" "outside ?A s3 s7"
      using finish_right [OF s3(2)] pn(1) x by (auto simp: inord_plug)
    have "outside ?A s s7" using outside_trans s1(3) s2(3) s3(3) s4(7) by blast
    moreover have "rb_erase_r_rest q p s = Some (Inr (rroot s7), s7)"
      using qn b x \<open>col y = 1\<close> s1(1) s2(1) s3(1) pn s4(1-5) by (simp add: rb_erase_r_rest_def rb_color_def)
    ultimately show ?thesis using s4(6) by blast
  qed
qed

subsection \<open>Leaving the loop\<close>

definition restored :: "rb \<Rightarrow> u64 list \<Rightarrow> rb option \<Rightarrow> bool" where
  "restored s xs x \<longleftrightarrow> (\<exists>s' T. x = Some s' \<and> rrep s' T [] \<and> rb_ok T \<and> col T = 1 \<and> inord T = xs \<and> outside (set xs) s s')"

lemma restored_trans: "outside (set xs) s s' \<Longrightarrow> restored s' xs x \<Longrightarrow> restored s xs x"
  unfolding restored_def using outside_trans by blast

lemma ptr_plug_in: "c \<noteq> [] \<Longrightarrow> ptr (plug t c) \<in> cset c"
proof (induction c arbitrary: t)
  case (Cons f c)
  show ?case by (cases "c = []"; cases f; use Cons.IH [of "fill f t"] in auto)
qed simp

lemma rroot_rep:
  assumes "rrep s t c"
  shows "ptr t = rroot s \<longleftrightarrow> c = []"
proof -
  have r: "rroot s = ptr (plug t c)" using rrep_top [THEN iffD2, OF assms] by (simp add: rrep_def zrep_def)
  have d: "distinct (before c @ inord t @ after c)" by (rule rrep_distinct [OF assms])
  have "0 \<notin> cset c" using assms is_ctx_nz unfolding rrep_def zrep_def by blast
  then show ?thesis using r d ptr_in [of t] ptr_plug_in [of c t] by (cases "t = Tip"; cases "c = []") (auto simp: cset_def)
qed

lemma erase_exit:
  assumes z: "rrep s t c" and ok: "rb_ok (with_hgt 1 t)" "rb_ok (plug t0 c)" "col (plug t0 c) = 1" "bh t0 = Suc (bh t)"
    and e: "col t = 0 \<or> c = []"
  shows "restored s (inord (plug t c)) (rb_erase_color (ptr t) (up c) s)"
proof -
  have loop: "rb_erase_loop (ptr t) (up c) s = Some (ptr t, s)"
    using rrep_color(2) [OF z] rroot_rep [OF z] e by (subst rb_erase_loop.simps) auto
  show ?thesis
  proof (cases t)
    case Tip
    then show ?thesis using e loop z ok by (auto simp: rb_erase_color_def restored_def intro!: exI [of _ Tip])
  next
    case (Bin l a k r)
    obtain s' where s': "rb_set_black a s = Some s'" "rrep s' (Bin l a 1 r) c" "outside (set (inord (plug t c))) s s'"
      using paint_rep(1) [OF z [unfolded Bin]] unfolding Bin by blast
    have "rb_ok (plug (Bin l a 1 r) c) \<and> col (plug (Bin l a 1 r) c) = 1"
    proof (cases "c = []")
      case False
      then have "rb_ok (Bin l a 1 r)" "bh (Bin l a 1 r) = bh t0" using ok e Bin by auto
      then show ?thesis using rb_ok_plug [OF ok(2)] False ok(3) by auto
    qed (use ok(1) Bin in auto)
    moreover have "rb_erase_color (ptr t) (up c) s = Some s'"
      using loop s'(1) rrep_node(2) [OF z [unfolded Bin]] by (simp add: rb_erase_color_def Bin)
    ultimately show ?thesis using s'(2,3) rrep_top unfolding restored_def
      by (intro exI [of _ s'] exI [of _ "plug (Bin l a 1 r) c"]) (simp add: Bin inord_plug)
  qed
qed

lemma erase_break:
  assumes z: "rrep s t c" and ok: "rb_ok t" "rb_ok (plug u c)" "bh t = bh u" "col t = col u" "t \<noteq> Tip"
  shows "restored s (inord (plug t c)) (rb_set_black (rroot s) s)"
proof -
  have "col t = 1 \<or> col u = 0" using ok(4) rb_ok_col [OF ok(1)] by argo
  then have "rb_ok (plug t c)" using rb_ok_plug [OF ok(2,1,3)] by blast
  moreover have "inord (plug t c) \<noteq> []" using ok(5) by (simp add: inord_plug inord_Nil)
  then have "plug t c \<noteq> Tip" by force
  ultimately obtain s' where "rb_set_black (rroot s) s = Some s'" "rrep s' (with_hgt 1 (plug t c)) []" "rb_ok (with_hgt 1 (plug t c))"
    "col (with_hgt 1 (plug t c)) = 1" "outside (set (inord (plug t c))) s s'"
    using paint_root [OF rrep_top [THEN iffD2, OF z]] by blast
  then show ?thesis unfolding restored_def by (intro exI conjI) (assumption | simp)+
qed

subsection \<open>Rounds\<close>

text \<open>The outcome of a round with a black sibling: a subtree that lacks a level (\<open>Inl\<close>), or a repaired one (\<open>Inr\<close>).\<close>

definition rest_post :: "rb \<Rightarrow> (u64 \<times> u64 + u64) \<Rightarrow> rb \<Rightarrow> u64 \<Rightarrow> int \<Rightarrow> nat \<Rightarrow> u64 list \<Rightarrow> frame list \<Rightarrow> bool" where
  "rest_post s r s' p k n xs c \<longleftrightarrow> (\<exists>t'. rrep s' t' c \<and> inord t' = xs \<and> col t' = k \<and> t' \<noteq> Tip \<and>
     outside (set (before c @ xs @ after c)) s s' \<and>
     (r = Inl (p, up c) \<and> ptr t' = p \<and> rb_ok (with_hgt 1 t') \<and> bh t' = n \<or> r = Inr (rroot s') \<and> rb_ok t' \<and> bh t' = Suc n))"

lemma rest_l:
  assumes z: "rrep s (Bin t p k (Bin x q 1 y)) c" and ok: "rb_ok t" "rb_ok x" "rb_ok y" "bh x = bh t" "bh y = bh t"
    and k: "col t = 1" "k = 0 \<or> k = 1"
  shows "\<exists>r s'. rb_erase_l_rest q p s = Some (r, s') \<and>
    rest_post s r s' p k (bh (Bin t p k (Bin x q 1 y))) (inord (Bin t p k (Bin x q 1 y))) c"
proof -
  note R = erase_l_rest_rep [OF z]
  have A: "set (inord (plug (Bin t p k (Bin x q 1 y)) c)) = set (before c @ inord (Bin t p k (Bin x q 1 y)) @ after c)"
    by (simp add: inord_plug)
  consider "col x = 1" "col y = 1" | "col y = 0" | u n v where "x = Bin u n 0 v" "col y = 1"
    using rb_ok_col [OF ok(2)] rb_ok_col [OF ok(3)] by (cases x) auto
  then show ?thesis
  proof cases
    case 1
    obtain s' where s': "rb_erase_l_rest q p s = Some (Inl (p, up c), s')" "rrep s' (Bin t p k (Bin x q 0 y)) c"
      "outside (set (inord (plug (Bin t p k (Bin x q 1 y)) c))) s s'" using R(1) [OF 1] by blast
    then show ?thesis using ok k 1 unfolding rest_post_def A
      by (intro exI [of _ "Inl (p, up c)"] exI [of _ s'] conjI exI [of _ "Bin t p k (Bin x q 0 y)"]) auto
  next
    case 2
    obtain s' where s': "rb_erase_l_rest q p s = Some (Inr (rroot s'), s')" "rrep s' (Bin (Bin t p 1 x) q k (with_hgt 1 y)) c"
      "outside (set (inord (plug (Bin t p k (Bin x q 1 y)) c))) s s'" using R(2) [OF 2] by blast
    have "rb_ok (with_hgt 1 y) \<and> bh (with_hgt 1 y) = Suc (bh y) \<and> y \<noteq> Tip" using ok(3) 2 by (cases y) auto
    then show ?thesis using s' ok k 2 unfolding rest_post_def A
      by (intro exI [of _ "Inr (rroot s')"] exI [of _ s'] conjI exI [of _ "Bin (Bin t p 1 x) q k (with_hgt 1 y)"]) auto
  next
    case (3 u n v)
    obtain s' where s': "rb_erase_l_rest q p s = Some (Inr (rroot s'), s')" "rrep s' (Bin (Bin t p 1 u) n k (Bin v q 1 y)) c"
      "outside (set (inord (plug (Bin t p k (Bin x q 1 y)) c))) s s'" using R(3) [OF 3] by blast
    then show ?thesis using ok k 3 unfolding rest_post_def A
      by (intro exI [of _ "Inr (rroot s')"] exI [of _ s'] conjI exI [of _ "Bin (Bin t p 1 u) n k (Bin v q 1 y)"]) auto
  qed
qed

lemma rest_r:
  assumes z: "rrep s (Bin (Bin y q 1 x) p k t) c" and ok: "rb_ok t" "rb_ok x" "rb_ok y" "bh x = bh t" "bh y = bh t"
    and k: "col t = 1" "k = 0 \<or> k = 1"
  shows "\<exists>r s'. rb_erase_r_rest q p s = Some (r, s') \<and>
    rest_post s r s' p k (bh (Bin t p k (Bin x q 1 y))) (inord (Bin (Bin y q 1 x) p k t)) c"
proof -
  note R = erase_r_rest_rep [OF z]
  have A: "set (inord (plug (Bin (Bin y q 1 x) p k t) c)) = set (before c @ inord (Bin (Bin y q 1 x) p k t) @ after c)"
    by (simp add: inord_plug)
  consider "col x = 1" "col y = 1" | "col y = 0" | u n v where "x = Bin v n 0 u" "col y = 1"
    using rb_ok_col [OF ok(2)] rb_ok_col [OF ok(3)] by (cases x) auto
  then show ?thesis
  proof cases
    case 1
    obtain s' where s': "rb_erase_r_rest q p s = Some (Inl (p, up c), s')" "rrep s' (Bin (Bin y q 0 x) p k t) c"
      "outside (set (inord (plug (Bin (Bin y q 1 x) p k t) c))) s s'" using R(1) [OF 1] by blast
    then show ?thesis using ok k 1 unfolding rest_post_def A
      by (intro exI [of _ "Inl (p, up c)"] exI [of _ s'] conjI exI [of _ "Bin (Bin y q 0 x) p k t"]) auto
  next
    case 2
    obtain s' where s': "rb_erase_r_rest q p s = Some (Inr (rroot s'), s')" "rrep s' (Bin (with_hgt 1 y) q k (Bin x p 1 t)) c"
      "outside (set (inord (plug (Bin (Bin y q 1 x) p k t) c))) s s'" using R(2) [OF 2] by blast
    have "rb_ok (with_hgt 1 y) \<and> bh (with_hgt 1 y) = Suc (bh y) \<and> y \<noteq> Tip" using ok(3) 2 by (cases y) auto
    then show ?thesis using s' ok k 2 unfolding rest_post_def A
      by (intro exI [of _ "Inr (rroot s')"] exI [of _ s'] conjI exI [of _ "Bin (with_hgt 1 y) q k (Bin x p 1 t)"]) auto
  next
    case (3 u n v)
    obtain s' where s': "rb_erase_r_rest q p s = Some (Inr (rroot s'), s')" "rrep s' (Bin (Bin y q 1 v) n k (Bin u p 1 t)) c"
      "outside (set (inord (plug (Bin (Bin y q 1 x) p k t) c))) s s'" using R(3) [OF 3] by blast
    then show ?thesis using ok k 3 unfolding rest_post_def A
      by (intro exI [of _ "Inr (rroot s')"] exI [of _ s'] conjI exI [of _ "Bin (Bin y q 1 v) n k (Bin u p 1 t)"]) auto
  qed
qed

text \<open>How the code goes on after a round.\<close>

definition proceed :: "(u64 \<times> u64 + u64) \<Rightarrow> rb \<Rightarrow> rb option" where
  "proceed r s = (case r of Inl (n, p) \<Rightarrow> rb_erase_color n p s | Inr n \<Rightarrow> if n \<noteq> 0 then rb_set_black n s else Some s)"

definition eround :: "rb \<Rightarrow> rb option \<Rightarrow> nat \<Rightarrow> u64 list \<Rightarrow> frame list \<Rightarrow> bool" where
  "eround s x n xs c \<longleftrightarrow> restored s (before c @ xs @ after c) x \<or>
     (\<exists>t' s'. x = rb_erase_color (ptr t') (up c) s' \<and> rrep s' t' c \<and> rb_ok (with_hgt 1 t') \<and> bh t' = n \<and> inord t' = xs \<and>
       outside (set (before c @ xs @ after c)) s s')"

lemma rroot_nz: "rrep s t c \<Longrightarrow> t \<noteq> Tip \<Longrightarrow> rroot s \<noteq> 0"
proof -
  assume z: "rrep s t c" and t: "t \<noteq> Tip"
  have "inord (plug t c) \<noteq> []" using t by (simp add: inord_plug inord_Nil)
  moreover have "rrep s (plug t c) []" using z rrep_top by blast
  ultimately show "rroot s \<noteq> 0" by (cases "plug t c") (auto simp: rrep_def zrep_def)
qed

lemma rest_post_eround:
  assumes "rest_post s r s' p k n xs c" "rb_ok (plug u c)" "bh u = Suc n" "col u = k"
  shows "eround s (proceed r s') n xs c"
proof -
  obtain t' where t': "rrep s' t' c" "inord t' = xs" "col t' = k" "t' \<noteq> Tip" "outside (set (before c @ xs @ after c)) s s'"
    "r = Inl (p, up c) \<and> ptr t' = p \<and> rb_ok (with_hgt 1 t') \<and> bh t' = n \<or> r = Inr (rroot s') \<and> rb_ok t' \<and> bh t' = Suc n"
    using assms(1) unfolding rest_post_def by blast
  from t'(6) show ?thesis
  proof
    assume "r = Inl (p, up c) \<and> ptr t' = p \<and> rb_ok (with_hgt 1 t') \<and> bh t' = n"
    then have "proceed r s' = rb_erase_color (ptr t') (up c) s' \<and> rb_ok (with_hgt 1 t') \<and> bh t' = n" by (simp add: proceed_def)
    then show ?thesis using t'(1,2,5) unfolding eround_def by blast
  next
    assume b: "r = Inr (rroot s') \<and> rb_ok t' \<and> bh t' = Suc n"
    then have "restored s' (inord (plug t' c)) (rb_set_black (rroot s') s')"
      using erase_break [OF t'(1) _ assms(2)] assms(3,4) t'(3,4) by simp
    then show ?thesis using b t'(2,5) rroot_nz [OF t'(1,4)] restored_trans
      unfolding eround_def proceed_def by (simp add: inord_plug)
  qed
qed

text \<open>After the rotation for a red sibling the parent is red, so the round is the last one.\<close>

lemma rest_post_restored:
  assumes "rest_post s r s' p 0 n xs c" and c: "\<And>w. rb_ok w \<Longrightarrow> bh w = Suc n \<Longrightarrow> rb_ok (plug w c) \<and> col (plug w c) = 1"
  shows "restored s (before c @ xs @ after c) (proceed r s')"
proof -
  obtain t' where t': "rrep s' t' c" "inord t' = xs" "col t' = 0" "t' \<noteq> Tip" "outside (set (before c @ xs @ after c)) s s'"
    "r = Inl (p, up c) \<and> ptr t' = p \<and> rb_ok (with_hgt 1 t') \<and> bh t' = n \<or> r = Inr (rroot s') \<and> rb_ok t' \<and> bh t' = Suc n"
    using assms(1) unfolding rest_post_def by blast
  have i: "inord (plug t' c) = before c @ xs @ after c" using t'(2) by (simp add: inord_plug)
  from t'(6) show ?thesis
  proof
    assume a: "r = Inl (p, up c) \<and> ptr t' = p \<and> rb_ok (with_hgt 1 t') \<and> bh t' = n"
    then have b: "bh (with_hgt 1 t') = Suc (bh t')" using t'(3) by (cases t') auto
    have "restored s' (inord (plug t' c)) (rb_erase_color (ptr t') (up c) s')"
      using erase_exit [OF t'(1), of "with_hgt 1 t'"] a b c [of "with_hgt 1 t'"] t'(3) by simp
    then show ?thesis using a t'(5) restored_trans unfolding i by (simp add: proceed_def)
  next
    assume b: "r = Inr (rroot s') \<and> rb_ok t' \<and> bh t' = Suc n"
    then have "restored s' (inord (plug t' c)) (rb_set_black (rroot s') s')"
      using erase_break [OF t'(1), of t'] c [of t'] t'(4) by simp
    then show ?thesis using b t'(5) rroot_nz [OF t'(1,4)] restored_trans unfolding i by (simp add: proceed_def)
  qed
qed

lemma erase_color_step:
  assumes z: "rrep s t (e # c)" and t: "col t = 1" and u: "\<And>u p k. e = InRight u p k \<Longrightarrow> u \<noteq> Tip"
  shows "rb_erase_color (ptr t) (up (e # c)) s = (case e of InLeft p k u \<Rightarrow> rb_erase_l p s | InRight u p k \<Rightarrow> rb_erase_r p s) \<bind>
    (\<lambda>(r, s). proceed r s)"
proof -
  have b: "rb_black (ptr t) s = Some True" "ptr t \<noteq> rroot s" using rrep_color(2) [OF z] rroot_rep [OF z] t by simp_all
  obtain l p k r where p: "fill e t = Bin l p k r" "up (e # c) = p" "l = t \<and> e = InLeft p k r \<or> r = t \<and> e = InRight l p k"
    by (rule fill_Bin)
  have zp: "rrep s (Bin l p k r) c" using z unfolding rrep_fill p(1) .
  obtain pn where pn: "rget p s = Some pn" "rb_left pn = ptr l" using rrep_node(1) [OF zp] by auto
  have side: "ptr l = ptr t \<longleftrightarrow> e = InLeft p k r"
  proof
    assume a: "ptr l = ptr t"
    show "e = InLeft p k r"
    proof (rule ccontr)
      assume "e \<noteq> InLeft p k r"
      then have l: "r = t" "l \<noteq> Tip" using p(3) u by auto
      have "rrep s l (InLeft p k r # c)" using zp by (simp add: rrep_fill)
      then have "ptr l \<noteq> 0" using l(2) rrep_node(2) by (cases l) auto
      then have "t \<noteq> Tip" using a by auto
      then show False using a l rrep_distinct [OF zp] ptr_in [of l] ptr_in [of t] by auto
    qed
  qed (use p(3) in auto)
  have "rb_erase_loop (ptr t) p s = (if e = InLeft p k r then rb_erase_l p s else rb_erase_r p s) \<bind>
     (\<lambda>(r, s). case r of Inl (n, p) \<Rightarrow> rb_erase_loop n p s | Inr n \<Rightarrow> Some (n, s))"
    using b pn side by (subst rb_erase_loop.simps) simp
  moreover have "(if e = InLeft p k r then rb_erase_l p s else rb_erase_r p s) =
      (case e of InLeft p k u \<Rightarrow> rb_erase_l p s | InRight u p k \<Rightarrow> rb_erase_r p s)" using p(3) by auto
  ultimately have "rb_erase_loop (ptr t) p s = (case e of InLeft p k u \<Rightarrow> rb_erase_l p s | InRight u p k \<Rightarrow> rb_erase_r p s) \<bind>
     (\<lambda>(r, s). case r of Inl (n, p) \<Rightarrow> rb_erase_loop n p s | Inr n \<Rightarrow> Some (n, s))" by simp
  then show ?thesis unfolding p(2)
    by (auto simp: rb_erase_color_def proceed_def bind_assoc split: sum.splits intro!: bind_option_cong)
qed

lemma erase_round_l:
  assumes z: "rrep s t (InLeft p k u # c)" and ok: "rb_ok t" "rb_ok (plug t0 (InLeft p k u # c))" "col (plug t0 (InLeft p k u # c)) = 1"
    "bh t0 = Suc (bh t)" "col t = 1"
  shows "eround s (rb_erase_color (ptr t) p s) (bh (Bin t p k u)) (inord (Bin t p k u)) c"
proof -
  have zp: "rrep s (Bin t p k u) c" using z by (simp add: rrep_fill)
  have o: "rb_ok (Bin t0 p k u)" "rb_ok (plug (Bin t0 p k u) c)" "col (plug (Bin t0 p k u) c) = 1"
    using rb_ok_plugD [of "Bin t0 p k u" c] ok(2,3) by simp_all
  have step: "rb_erase_color (ptr t) p s = rb_erase_l p s \<bind> (\<lambda>(r, s). proceed r s)" using erase_color_step [OF z ok(5)] by simp
  have zu: "rrep s u (InRight t p k # c)" using zp by (simp add: rrep_fill)
  obtain x q i y where u: "u = Bin x q i y" using o(1) ok(4) by (cases u) auto
  obtain pn where pn: "rget p s = Some pn" "rb_right pn = q" using rrep_node(1) [OF zp] u by auto
  have red: "rb_is_red q s = Some (i = 0)" using rrep_color(3) [OF zu] u by simp
  show ?thesis
  proof (cases "i = 0")
    case False
    have "rb_erase_l p s = rb_erase_l_rest q p s" using pn red False by (simp add: rb_erase_l_def)
    moreover have k: "i = 1" "rb_ok x" "rb_ok y" "bh x = bh t" "bh y = bh t" "k = 0 \<or> k = 1" using o(1) ok(4) False by (auto simp: u split: if_splits)
    moreover obtain r s' where "rb_erase_l_rest q p s = Some (r, s')" "rest_post s r s' p k (bh (Bin t p k u)) (inord (Bin t p k u)) c"
      using rest_l [OF zp [unfolded u k(1)] ok(1) k(2-5) ok(5) k(6)] unfolding u k(1) by blast
    ultimately show ?thesis using rest_post_eround [OF _ o(2)] ok(4) step by simp
  next
    case True
    have k: "k = 1" "rb_ok x" "rb_ok y" "bh x = Suc (bh t)" "bh y = Suc (bh t)" "col x = 1"
      using o(1) ok(4) True by (auto simp: u split: if_splits)
    obtain x1 m x2 where x: "x = Bin x1 m 1 x2" using k(4,6) by (cases x) auto
    have x': "rb_ok x1" "rb_ok x2" "bh x1 = bh t" "bh x2 = bh t" using k(2,4) by (auto simp: x)
    let ?c = "InLeft q 1 y # c"
    obtain s1 s2 s3 where s3: "rb_set_black q s = Some s1" "rb_set_red p s1 = Some s2" "rb_rotate_left p s2 = Some s3"
      "rrep s3 (Bin t p 0 (Bin x1 m 1 x2)) ?c" "outside (set (inord (plug (Bin t p k u) c))) s s3"
      using turn_left [OF zp [unfolded u]] unfolding u x by (auto simp: rrep_fill)
    obtain p3 where p3: "rget p s3 = Some p3" "rb_right p3 = m" using rrep_node(1) [OF s3(4)] by auto
    obtain r s' where r: "rb_erase_l_rest m p s3 = Some (r, s')"
      "rest_post s3 r s' p 0 (bh (Bin t p 0 (Bin x1 m 1 x2))) (inord (Bin t p 0 (Bin x1 m 1 x2))) ?c"
      using rest_l [OF s3(4) ok(1) x' ok(5)] by blast
    have "rb_ok (plug w ?c) \<and> col (plug w ?c) = 1" if "rb_ok w" "bh w = Suc (bh t)" for w
      using rb_ok_plug [OF o(2), of "Bin w q 1 y"] that k o(3) ok(4) by (cases "c = []") auto
    then have "restored s3 (before c @ inord (Bin t p k u) @ after c) (proceed r s')"
      using rest_post_restored [OF r(2)] by (simp add: u x)
    moreover have "rb_erase_l p s = Some (r, s')" using pn red True s3(1-3) p3 r(1) by (simp add: rb_erase_l_def)
    ultimately show ?thesis using step s3(5) restored_trans unfolding eround_def by (simp add: inord_plug)
  qed
qed

lemma erase_round_r:
  assumes z: "rrep s t (InRight u p k # c)" and ok: "rb_ok t" "rb_ok (plug t0 (InRight u p k # c))" "col (plug t0 (InRight u p k # c)) = 1"
    "bh t0 = Suc (bh t)" "col t = 1"
  shows "eround s (rb_erase_color (ptr t) p s) (bh (Bin t p k u)) (inord (Bin u p k t)) c"
proof -
  have zp: "rrep s (Bin u p k t) c" using z by (simp add: rrep_fill)
  have o: "rb_ok (Bin u p k t0)" "rb_ok (plug (Bin u p k t0) c)" "col (plug (Bin u p k t0) c) = 1"
    using rb_ok_plugD [of "Bin u p k t0" c] ok(2,3) by simp_all
  have zu: "rrep s u (InLeft p k t # c)" using zp by (simp add: rrep_fill)
  obtain y q i x where u: "u = Bin y q i x" using o(1) ok(4) by (cases u) auto
  have step: "rb_erase_color (ptr t) p s = rb_erase_r p s \<bind> (\<lambda>(r, s). proceed r s)" using erase_color_step [OF z ok(5)] u by simp
  obtain pn where pn: "rget p s = Some pn" "rb_left pn = q" using rrep_node(1) [OF zp] u by auto
  have red: "rb_is_red q s = Some (i = 0)" using rrep_color(3) [OF zu] u by simp
  show ?thesis
  proof (cases "i = 0")
    case False
    have "rb_erase_r p s = rb_erase_r_rest q p s" using pn red False by (simp add: rb_erase_r_def)
    moreover have k: "i = 1" "rb_ok x" "rb_ok y" "bh x = bh t" "bh y = bh t" "k = 0 \<or> k = 1" using o(1) ok(4) False by (auto simp: u split: if_splits)
    moreover obtain r s' where "rb_erase_r_rest q p s = Some (r, s')" "rest_post s r s' p k (bh (Bin t p k u)) (inord (Bin u p k t)) c"
      using rest_r [OF zp [unfolded u k(1)] ok(1) k(2-5) ok(5) k(6)] unfolding u k(1) by auto
    ultimately show ?thesis using rest_post_eround [OF _ o(2)] ok(4) step o(1) by simp
  next
    case True
    have k: "k = 1" "rb_ok x" "rb_ok y" "bh x = Suc (bh t)" "bh y = Suc (bh t)" "col x = 1"
      using o(1) ok(4) True by (auto simp: u split: if_splits)
    obtain x2 m x1 where x: "x = Bin x2 m 1 x1" using k(4,6) by (cases x) auto
    have x': "rb_ok x1" "rb_ok x2" "bh x1 = bh t" "bh x2 = bh t" using k(2,4) by (auto simp: x)
    let ?c = "InRight y q 1 # c"
    obtain s1 s2 s3 where s3: "rb_set_black q s = Some s1" "rb_set_red p s1 = Some s2" "rb_rotate_right p s2 = Some s3"
      "rrep s3 (Bin (Bin x2 m 1 x1) p 0 t) ?c" "outside (set (inord (plug (Bin u p k t) c))) s s3"
      using turn_right [OF zp [unfolded u]] unfolding u x by (auto simp: rrep_fill)
    obtain p3 where p3: "rget p s3 = Some p3" "rb_left p3 = m" using rrep_node(1) [OF s3(4)] by auto
    obtain r s' where r: "rb_erase_r_rest m p s3 = Some (r, s')"
      "rest_post s3 r s' p 0 (bh (Bin t p 0 (Bin x1 m 1 x2))) (inord (Bin (Bin x2 m 1 x1) p 0 t)) ?c"
      using rest_r [OF s3(4) ok(1) x' ok(5)] by blast
    have "rb_ok (plug w ?c) \<and> col (plug w ?c) = 1" if "rb_ok w" "bh w = Suc (bh t)" for w
      using rb_ok_plug [OF o(2), of "Bin y q 1 w"] that k o(1,3) ok(4) by (cases "c = []") auto
    then have "restored s3 (before c @ inord (Bin u p k t) @ after c) (proceed r s')"
      using rest_post_restored [OF r(2)] by (simp add: u x)
    moreover have "rb_erase_r p s = Some (r, s')" using pn red True s3(1-3) p3 r(1) by (simp add: rb_erase_r_def)
    ultimately show ?thesis using step s3(5) restored_trans unfolding eround_def by (simp add: inord_plug)
  qed
qed

subsection \<open>The loop\<close>

lemma erase_color_rep:
  assumes "rrep s t c" "rb_ok (with_hgt 1 t)" "rb_ok (plug t0 c)" "col (plug t0 c) = 1" "bh t0 = Suc (bh t)"
  shows "restored s (inord (plug t c)) (rb_erase_color (ptr t) (up c) s)"
  using assms
proof (induction c arbitrary: s t t0)
  case Nil
  then show ?case using erase_exit by blast
next
  case (Cons e c)
  show ?case
  proof (cases "col t = 0")
    case True
    then show ?thesis using erase_exit [OF Cons.prems] by blast
  next
    case False
    then have b: "col t = 1" using rrep_color(4) [OF Cons.prems(1)] by blast
    then have t: "rb_ok t" using Cons.prems(2) by (cases t) auto
    have o: "rb_ok (fill e t0)" using rb_ok_plugD Cons.prems(3) by simp
    obtain n where n: "eround s (rb_erase_color (ptr t) (up (e # c)) s) n (inord (fill e t)) c" "bh (fill e t0) = Suc n"
    proof (cases e)
      case (InLeft p k u)
      have "eround s (rb_erase_color (ptr t) (up (e # c)) s) (bh (Bin t p k u)) (inord (fill e t)) c"
        using erase_round_l [of s t p k u c t0] Cons.prems t b by (simp add: InLeft)
      then show thesis by (rule that) (use Cons.prems(5) in \<open>simp add: InLeft\<close>)
    next
      case (InRight u p k)
      have "eround s (rb_erase_color (ptr t) (up (e # c)) s) (bh (Bin t p k u)) (inord (fill e t)) c"
        using erase_round_r [of s t u p k c t0] Cons.prems t b by (simp add: InRight)
      then show thesis by (rule that) (use Cons.prems(5) o in \<open>simp add: InRight\<close>)
    qed
    have i: "before c @ inord (fill e t) @ after c = inord (plug t (e # c))" by (simp add: inord_plug)
    from n(1) show ?thesis unfolding eround_def i
    proof
      assume "\<exists>t' s'. rb_erase_color (ptr t) (up (e # c)) s = rb_erase_color (ptr t') (up c) s' \<and> rrep s' t' c \<and> rb_ok (with_hgt 1 t') \<and>
        bh t' = n \<and> inord t' = inord (fill e t) \<and> outside (set (inord (plug t (e # c)))) s s'"
      then obtain t' s' where t': "rb_erase_color (ptr t) (up (e # c)) s = rb_erase_color (ptr t') (up c) s'" "rrep s' t' c"
        "rb_ok (with_hgt 1 t')" "bh t' = n" "inord t' = inord (fill e t)" "outside (set (inord (plug t (e # c)))) s s'" by blast
      have "restored s' (inord (plug t' c)) (rb_erase_color (ptr t') (up c) s')"
        using Cons.IH [OF t'(2,3), of "fill e t0"] Cons.prems(3,4) n(2) t'(4) by simp
      moreover have "inord (plug t' c) = inord (plug t (e # c))" using t'(5) by (simp add: inord_plug)
      ultimately show ?thesis using restored_trans [OF t'(6)] unfolding t'(1) by (simp only:)
    qed
  qed
qed

end
