(* ===== verification/RbUnlink.thy ===== *)
theory RbUnlink
  imports RbErase
begin

text \<open>
  Taking a node out of the tree: the part of \<^verbatim>\<open>rb_erase\<close> before the repair. A node with two children is replaced by its
  successor, the leftmost node of its right subtree.
\<close>

subsection \<open>Heap arguments\<close>

text \<open>Cutting out the leftmost node \<open>b\<close> of a subtree, below its parent \<open>up d\<close>.\<close>

definition cut_left :: "aheap \<Rightarrow> u64 \<Rightarrow> u64 \<Rightarrow> aheap" where
  "cut_left h q x = (reparent x q h)(q := map_option (\<lambda>n. n\<lparr>left := x\<rparr>) (h q))"

lemma cut_left_other: "z \<noteq> q \<Longrightarrow> z \<noteq> x \<Longrightarrow> cut_left h q x z = h z"
  by (simp add: cut_left_def reparent_def)

lemma ptr_notin: "is_tree h p t \<Longrightarrow> set (inord t) \<inter> A = {} \<Longrightarrow> 0 \<notin> A \<Longrightarrow> ptr t \<notin> A"
  using ptr_in [of t] by (cases "t = Tip") auto

lemma cut_left_tree: "x \<notin> set (inord t) \<Longrightarrow> q \<notin> set (inord t) \<Longrightarrow> is_tree (cut_left h q x) p t = is_tree h p t"
  by (rule is_tree_cong) (auto simp: cut_left_def reparent_def)

lemma leftmost_cut:
  assumes "is_tree h p (plug (Bin Tip b j m) d)" "before d = []" "d \<noteq> []" "distinct (inord (plug (Bin Tip b j m) d))"
  shows "is_tree (cut_left h (up d) (ptr m)) p (plug m d) \<and> ptr (plug m d) = ptr (plug (Bin Tip b j m) d) \<and> h (up d) \<noteq> None \<and>
    h b = Some \<lparr>left = 0, right = ptr m, parent = up d, height = j\<rparr> \<and> is_tree h b m \<and> up d \<noteq> b"
  using assms
proof (induction d arbitrary: p rule: rev_induct)
  case (snoc f d1)
  obtain x i y where f: "f = InLeft x i y" using snoc.prems(2) by (cases f) (auto simp: before_append)
  have T: "is_tree h x (plug (Bin Tip b j m) d1)" "is_tree h x y" "x \<noteq> 0"
    "h x = Some \<lparr>left = ptr (plug (Bin Tip b j m) d1), right = ptr y, parent = p, height = i\<rparr>"
    using snoc.prems(1) by (simp_all add: plug_append f)
  have D: "distinct (inord (plug (Bin Tip b j m) d1) @ x # inord y)" using snoc.prems(4) by (simp add: plug_append f)
  have b: "before d1 = []" using snoc.prems(2) by (simp add: before_append)
  have i: "inord (plug (Bin Tip b j m) d1) = b # inord m @ after d1" "inord (plug m d1) = inord m @ after d1"
    using b by (simp_all add: inord_plug)
  show ?case
  proof (cases "d1 = []")
    case True
    have m: "is_tree h b m" "distinct (inord m)" "x \<notin> set (inord m)" "x \<notin> set (inord y)" "set (inord m) \<inter> set (inord y) = {}" "b \<noteq> x"
      using T(1) D i True by auto
    have "is_tree (cut_left h x (ptr m)) x m"
      using is_tree_reparent [OF m(1,2), of x] m(3) by (simp add: cut_left_def)
    moreover have "is_tree (cut_left h x (ptr m)) x y"
      using T(2) cut_left_tree [of "ptr m" y x h x] m(4) ptr_notin [OF m(1,5)] is_tree_nz [OF T(2)] by simp
    moreover have "cut_left h x (ptr m) x = Some \<lparr>left = ptr m, right = ptr y, parent = p, height = i\<rparr>"
      using T(4) True by (simp add: cut_left_def)
    ultimately show ?thesis using T m True unfolding f by simp
  next
    case False
    let ?h = "cut_left h (up d1) (ptr m)"
    have I: "is_tree ?h x (plug m d1)" "ptr (plug m d1) = ptr (plug (Bin Tip b j m) d1)" "h (up d1) \<noteq> None"
      "h b = Some \<lparr>left = 0, right = ptr m, parent = up d1, height = j\<rparr>" "is_tree h b m" "up d1 \<noteq> b"
      using snoc.IH [OF T(1) b False] D by auto
    have u: "up d1 \<in> set (after d1)" using up_in [OF False] b by (simp add: cset_def)
    have y: "set (inord m) \<inter> insert x (set (inord y)) = {}" "up d1 \<notin> insert x (set (inord y))" using D u i by auto
    have "ptr m \<notin> insert x (set (inord y))" using ptr_notin [OF I(5) y(1)] T(3) is_tree_nz [OF T(2)] by auto
    then have "?h x = h x" "is_tree ?h x y" using cut_left_other [of x "up d1" "ptr m" h] cut_left_tree [of "ptr m" y "up d1" h x] y(2) T(2) by auto
    then show ?thesis using I T False by (simp add: plug_append f up_append)
  qed
qed simp

text \<open>Putting \<open>b\<close> in the place of \<open>a\<close>, when the context and the right subtree know it already.\<close>

lemma put_in_place:
  assumes c: "is_ctx h rt b c" and T: "is_tree h a l" "is_tree h b r" and b: "b \<noteq> 0" and D: "distinct (before c @ inord l @ b # inord r @ after c)"
  shows "zrep \<lparr>anodes = reparent (ptr l) b (h(b \<mapsto> \<lparr>left = ptr l, right = ptr r, parent = up c, height = k\<rparr>)), aroot = rt\<rparr> (Bin l b k r) c"
proof -
  let ?h = "h(b \<mapsto> \<lparr>left = ptr l, right = ptr r, parent = up c, height = k\<rparr>)"
  have d: "b \<notin> set (inord l)" "b \<notin> set (inord r)" "b \<notin> cset c" "set (inord l) \<inter> insert b (set (inord r) \<union> cset c) = {}" "distinct (inord l)"
    using D by (auto simp: cset_def)
  have p: "ptr l \<notin> insert b (set (inord r) \<union> cset c)" using ptr_notin [OF T(1) d(4)] b is_tree_nz [OF T(2)] is_ctx_nz [OF c] by auto
  have "is_tree ?h a l" "is_tree ?h b r" "is_ctx ?h rt b c" using T c d by simp_all
  moreover have "reparent (ptr l) b ?h b = Some \<lparr>left = ptr l, right = ptr r, parent = up c, height = k\<rparr>"
    using p by (auto simp: reparent_def)
  ultimately show ?thesis
    using is_tree_reparent [of ?h a l b] p d b D by (simp add: zrep_def is_tree_reparent_other is_ctx_reparent)
qed

subsection \<open>The steps of the code\<close>

lemma sim_upd_step:
  assumes "sim x (aupd p f (rabs s))" "rabs s = \<lparr>anodes = h, aroot = rt\<rparr>" "h p = Some n"
  shows "\<exists>s'. x = Some s' \<and> rabs s' = \<lparr>anodes = h(p \<mapsto> f n), aroot = rt\<rparr>"
  using sim_Some [of x] assms by (simp add: aupd_def)

lemma adopt_step:
  assumes "aligned4 q" "rabs s = \<lparr>anodes = h, aroot = rt\<rparr>" "is_tree h p t"
  shows "\<exists>s'. rb_adopt (ptr t) q s = Some s' \<and> rabs s' = \<lparr>anodes = reparent (ptr t) q h, aroot = rt\<rparr>"
  using sim_Some [of "rb_adopt (ptr t) q s"] sim_adopt [OF assms(1), of "ptr t" s] set_parent_tree [OF assms(3)] unfolding assms(2) by simp

lemma set_parent_step:
  assumes "aligned4 q" "rabs s = \<lparr>anodes = h, aroot = rt\<rparr>" "is_tree h p t" "t \<noteq> Tip"
  shows "\<exists>s'. rb_set_parent (ptr t) q s = Some s' \<and> rabs s' = \<lparr>anodes = reparent (ptr t) q h, aroot = rt\<rparr>"
proof -
  have "ptr t \<noteq> 0" using is_tree_ptr_0 [OF assms(3)] assms(4) by simp
  then show ?thesis using adopt_step [OF assms(1-3)] by (simp add: rb_adopt_def)
qed

lemma change_child_step:
  assumes "rabs s = \<lparr>anodes = h, aroot = rt\<rparr>" "is_ctx h rt a c" "a \<noteq> 0" "a \<notin> cset c" "distinct (before c @ after c)"
  shows "\<exists>s' h' rt'. rb_change_child a b (up c) s = Some s' \<and> rabs s' = \<lparr>anodes = h', aroot = rt'\<rparr> \<and> is_ctx h' rt' b c \<and>
    (\<forall>x. x \<notin> cset c \<longrightarrow> h' x = h x)"
  using child_replace_ctx [OF assms(2-5), of b] sim_Some [of "rb_change_child a b (up c) s"] sim_change_child [of a b "up c" s]
  unfolding assms(1) by fastforce

lemma rget_abs: "rabs s = \<lparr>anodes = h, aroot = rt\<rparr> \<Longrightarrow> h p = Some n \<Longrightarrow> \<exists>m. rget p s = Some m \<and> nabs m = n"
  using rabs_simps(2) [of p s] by (cases "rget p s") (auto simp: aget_def)

lemma unlink_one_rep:
  assumes z: "rrep s (Bin l a k r) c" and e: "l = Tip \<or> r = Tip"
  defines "t \<equiv> if l = Tip then r else l"
  shows "\<exists>n s'. rb_unlink a s = Some (ptr t, up c, color_of n, s') \<and> uint (color_of n) = k \<and> rrep s' t c \<and>
    outside (set (inord (plug (Bin l a k r) c))) s s'"
proof -
  obtain h rt where s: "rabs s = \<lparr>anodes = h, aroot = rt\<rparr>" by (cases "rabs s") simp
  have Z: "zrep \<lparr>anodes = h, aroot = rt\<rparr> (Bin l a k r) c" and al: "\<forall>x \<in> set (inord (plug (Bin l a k r) c)). aligned4 x"
    using z unfolding rrep_def s by simp_all
  note T = zrepD [OF Z]
  obtain n where n: "rget a s = Some n" "rb_left n = ptr l" "rb_right n = ptr r" "parent_of n = up c" "uint (color_of n) = k"
    using rrep_node(1) [OF z] by auto
  have t: "is_tree h a t" "inord t = inord l @ inord r" using T(1,2) e by (auto simp: t_def)
  have p: "(if ptr l = 0 then ptr r else ptr l) = ptr t" "\<not> (ptr l \<noteq> 0 \<and> ptr r \<noteq> 0)"
    using is_tree_ptr_0 [OF T(1)] is_tree_ptr_0 [OF T(2)] e by (auto simp: t_def)
  obtain h1 rt1 where h1: "avl_child_replace a (ptr t) (up c) \<lparr>anodes = reparent (ptr t) (up c) h, aroot = rt\<rparr> = Some \<lparr>anodes = h1, aroot = rt1\<rparr>"
    "zrep \<lparr>anodes = h1, aroot = rt1\<rparr> t c" "\<forall>z. z \<notin> set (inord t) \<union> cset c \<longrightarrow> h1 z = h z"
    using unlink_core(1) [OF t(1) T(3,4)] T(5) t(2) by auto
  have "aligned4 (up c)" using aligned_parent_of [of n] n(4) by simp
  then obtain s1 where s1: "rb_adopt (ptr t) (up c) s = Some s1" "rabs s1 = \<lparr>anodes = reparent (ptr t) (up c) h, aroot = rt\<rparr>"
    using adopt_step [OF _ s t(1)] by blast
  obtain s2 where s2: "rb_change_child a (ptr t) (up c) s1 = Some s2" "rabs s2 = \<lparr>anodes = h1, aroot = rt1\<rparr>"
    using sim_Some [of "rb_change_child a (ptr t) (up c) s1"] sim_change_child [of a "ptr t" "up c" s1] h1(1) s1(2) by auto
  have "rb_unlink a s = Some (ptr t, up c, color_of n, s2)"
    using n p(2) s1(1) s2(1) unfolding rb_unlink_def Let_def p(1) [symmetric] by (cases "ptr l = 0") simp_all
  moreover have "rrep s2 t c" using h1(2) al t(2) unfolding rrep_def s2(2) by (auto simp: inord_plug)
  moreover have "outside (set (inord (plug (Bin l a k r) c))) s s2"
    using h1(3) t(2) unfolding outside_def elsewhere_def s s2(2) by (auto simp: inord_plug cset_def)
  ultimately show ?thesis using n(5) by blast
qed

lemma sink_left_rb:
  assumes "is_tree (anodes (rabs s)) p t" "t \<noteq> Tip"
  shows "rb_sink_left (ptr t) s = Some (hd (inord t))"
  using assms
proof (induction t arbitrary: p)
  case (Bin l a k r)
  obtain n where n: "rget a s = Some n" "rb_left n = ptr l" using Bin.prems(1) by (auto simp: rget_def nabs_def)
  have T: "is_tree (anodes (rabs s)) a l" using Bin.prems(1) unfolding is_tree.simps by blast
  show ?case
  proof (cases "l = Tip")
    case True
    then show ?thesis using n by (subst rb_sink_left.simps) simp
  next
    case False
    then have "ptr l \<noteq> 0" "inord l \<noteq> []" using is_tree_ptr_0 [OF T] inord_Nil by auto
    then show ?thesis using n Bin.IH(1) [OF T False] by (subst rb_sink_left.simps) simp
  qed
qed simp

lemma sink_right_rb:
  assumes "is_tree (anodes (rabs s)) p t" "t \<noteq> Tip"
  shows "rb_sink_right (ptr t) s = Some (last (inord t))"
  using assms
proof (induction t arbitrary: p)
  case (Bin l a k r)
  obtain n where n: "rget a s = Some n" "rb_right n = ptr r" using Bin.prems(1) by (auto simp: rget_def nabs_def)
  have T: "is_tree (anodes (rabs s)) a r" using Bin.prems(1) unfolding is_tree.simps by blast
  show ?case
  proof (cases "r = Tip")
    case True
    then show ?thesis using n by (subst rb_sink_right.simps) simp
  next
    case False
    then have "ptr r \<noteq> 0" "inord r \<noteq> []" using is_tree_ptr_0 [OF T] inord_Nil by auto
    then show ?thesis using n Bin.IH(2) [OF T False] by (subst rb_sink_right.simps) simp
  qed
qed simp

text \<open>The successor takes over the fields of the node it replaces.\<close>

lemma take_over:
  assumes s: "rabs s = \<lparr>anodes = h, aroot = rt\<rparr>" and a: "rget a s = Some na" "nabs na = \<lparr>left = ptr l, right = x, parent = up c, height = k\<rparr>" "a \<noteq> b"
    and b: "h b = Some nb" "right nb = ptr r" "aligned4 b" "b \<noteq> 0"
    and T: "is_ctx h rt b c" "is_tree h a l" "is_tree h b r" "l \<noteq> Tip" "distinct (before c @ inord l @ b # inord r @ after c)"
  shows "\<exists>s1 s2. rupd b (\<lambda>n. n\<lparr>rb_parent_color := rb_parent_color na, rb_left := rb_left na\<rparr>) s = Some s1 \<and> rget a s1 = Some na \<and>
    rb_set_parent (rb_left na) b s1 = Some s2 \<and> zrep (rabs s2) (Bin l b k r) c \<and>
    (\<forall>z. z \<notin> insert b (set (inord l)) \<longrightarrow> anodes (rabs s2) z = h z)"
proof -
  let ?f = "\<lambda>n. n\<lparr>rb_parent_color := rb_parent_color na, rb_left := rb_left na\<rparr>"
  let ?h = "h(b \<mapsto> \<lparr>left = ptr l, right = ptr r, parent = up c, height = k\<rparr>)"
  have f: "rb_left na = ptr l" "parent_of na = up c" "uint (color_of na) = k" using a(2) by (simp_all add: nabs_def)
  have "sim (rupd b ?f s) (aupd b (\<lambda>n. n\<lparr>left := ptr l, parent := up c, height := k\<rparr>) (rabs s))"
    using f by (intro sim_rupd) (simp add: nabs_def parent_of_def color_of_def)
  from sim_upd_step [OF this s b(1)] obtain s1 where s1: "rupd b ?f s = Some s1"
    "rabs s1 = \<lparr>anodes = h(b \<mapsto> nb\<lparr>left := ptr l, parent := up c, height := k\<rparr>), aroot = rt\<rparr>" by blast
  have "nb\<lparr>left := ptr l, parent := up c, height := k\<rparr> = \<lparr>left = ptr l, right = ptr r, parent = up c, height = k\<rparr>"
    using b(2) by (cases nb) simp
  then have r1: "rabs s1 = \<lparr>anodes = ?h, aroot = rt\<rparr>" using s1(2) by simp
  have "is_tree ?h a l" using T(2,5) by simp
  from set_parent_step [OF b(3) r1 this T(4)] obtain s2 where s2: "rb_set_parent (ptr l) b s1 = Some s2"
    "rabs s2 = \<lparr>anodes = reparent (ptr l) b ?h, aroot = rt\<rparr>" by blast
  have "zrep (rabs s2) (Bin l b k r) c" unfolding s2(2) by (rule put_in_place [OF T(1-3) b(4) T(5)])
  moreover have "rget a s1 = Some na" using rupd_other [OF s1(1) a(3)] a(1) by simp
  moreover have "anodes (rabs s2) z = h z" if "z \<notin> insert b (set (inord l))" for z
    using that ptr_in [OF T(4)] unfolding s2(2) by (auto simp: reparent_def)
  ultimately show ?thesis using s1(1) s2(1) f(1) by auto
qed

text \<open>The successor \<open>b\<close> is the right child of \<open>a\<close>.\<close>

lemma unlink_two_near:
  assumes z: "rrep s (Bin l a k (Bin Tip b j m)) c" and l: "l \<noteq> Tip"
  shows "\<exists>n s'. rb_unlink_two a s = Some (ptr m, b, color_of n, s') \<and> uint (color_of n) = j \<and> rrep s' m (InRight l b k # c) \<and>
    outside (set (inord (plug (Bin l a k (Bin Tip b j m)) c))) s s'"
proof -
  obtain h rt where s: "rabs s = \<lparr>anodes = h, aroot = rt\<rparr>" by (cases "rabs s") simp
  have Z: "zrep \<lparr>anodes = h, aroot = rt\<rparr> (Bin l a k (Bin Tip b j m)) c"
    and al: "\<forall>x \<in> set (inord (plug (Bin l a k (Bin Tip b j m)) c)). aligned4 x"
    using z unfolding rrep_def s by simp_all
  note T = zrepD [OF Z]
  obtain n where n: "rget a s = Some n" "rb_left n = ptr l" "rb_right n = b" "parent_of n = up c" using rrep_node(1) [OF z] by auto
  have sink: "rb_sink_left b s = Some b"
    using sink_left_rb [of s a "Bin Tip b j m"] T(2) s by simp
  have b: "b \<noteq> 0" "h b = Some \<lparr>left = 0, right = ptr m, parent = a, height = j\<rparr>" "is_tree h b m" using T(2) by simp_all
  have D: "a \<notin> cset c" "b \<notin> cset c" "a \<noteq> b" "distinct (before c @ after c)" "cset c \<inter> set (inord l) = {}" "cset c \<inter> set (inord m) = {}"
    "distinct (before c @ inord l @ b # inord m @ after c)" "a \<notin> set (inord l)" using T(5) by (auto simp: cset_def)
  obtain s1 h1 rt1 where s1: "rb_change_child a b (up c) s = Some s1" "rabs s1 = \<lparr>anodes = h1, aroot = rt1\<rparr>" "is_ctx h1 rt1 b c"
    "\<forall>x. x \<notin> cset c \<longrightarrow> h1 x = h x" using change_child_step [OF s T(3,4) D(1,4)] by blast
  have h1: "is_tree h1 a l" "is_tree h1 b m" "h1 a = h a" "h1 b = h b"
    using is_tree_away [OF s1(4)] T(1) b(3) D s1(4) by simp_all
  obtain n1 where n1: "rget b s1 = Some n1" "nabs n1 = \<lparr>left = 0, right = ptr m, parent = a, height = j\<rparr>"
    using rget_abs [OF s1(2)] h1(4) b(2) by metis
  obtain o3 where o3: "rget a s1 = Some o3" "nabs o3 = \<lparr>left = ptr l, right = b, parent = up c, height = k\<rparr>"
    using rget_abs [OF s1(2)] h1(3) T(6) by (metis ptr.simps(2))
  have "aligned4 b" using al by (simp add: inord_plug)
  from take_over [OF s1(2) o3 D(3) h1(4) [unfolded b(2)] _ this b(1) s1(3) h1(1,2) l D(7)]
  obtain s2 s3 where s3: "rupd b (\<lambda>n. n\<lparr>rb_parent_color := rb_parent_color o3, rb_left := rb_left o3\<rparr>) s1 = Some s2" "rget a s2 = Some o3"
    "rb_set_parent (rb_left o3) b s2 = Some s3" "zrep (rabs s3) (Bin l b k m) c"
    "\<forall>z. z \<notin> insert b (set (inord l)) \<longrightarrow> anodes (rabs s3) z = h1 z" by auto
  have f: "rb_right n1 = ptr m" "parent_of n1 = a" "uint (color_of n1) = j" using n1(2) by (simp_all add: nabs_def)
  have "rb_unlink_two a s = Some (ptr m, b, color_of n1, s3)"
    using n sink s1(1) n1(1) f o3(1) s3(1-3) by (simp add: rb_unlink_two_def Let_def)
  moreover have "rrep s3 m (InRight l b k # c)" using s3(4) al unfolding rrep_fill by (auto simp: rrep_def inord_plug)
  moreover have "outside (set (inord (plug (Bin l a k (Bin Tip b j m)) c))) s s3"
    unfolding outside_def elsewhere_def using s3(5) s1(4) s by (auto simp: inord_plug cset_def)
  ultimately show ?thesis using f(3) by blast
qed

text \<open>
  The successor \<open>b\<close> is deeper in the right subtree of \<open>a\<close>, whose place in the context it has taken: it is cut out of the
  subtree, which becomes its own right subtree.
\<close>

lemma cut_apart:
  assumes T: "is_ctx h rt b c" "is_tree h a l" "is_tree h a r" "a \<noteq> 0" and r: "r = plug (Bin Tip b j m) d" "before d = []" "d \<noteq> []"
    and D: "distinct (before c @ inord l @ a # inord r @ after c)"
  defines "r' \<equiv> plug m d" and "A \<equiv> insert a (insert b (set (inord l) \<union> cset c))"
  shows "inord r = b # inord r'" "ptr m \<notin> A" "ptr m \<noteq> up d" "up d \<notin> A" "ptr r' \<notin> A" "r' \<noteq> Tip" "b \<noteq> 0" "up d \<in> set (inord r')"
    "m \<noteq> Tip \<Longrightarrow> ptr m \<in> set (inord r')" "b \<notin> set (inord r')"
proof -
  have i: "inord r = b # inord r'" "inord r' = inord m @ after d" using r(2) by (simp_all add: r(1) r'_def inord_plug)
  show "inord r = b # inord r'" by (rule i)
  have u: "up d \<in> set (after d)" using up_in [OF r(3)] r(2) by (simp add: cset_def)
  show ud: "up d \<in> set (inord r')" using u i by simp
  have e: "set (inord r') \<inter> A = {}" "up d \<notin> set (inord m)" using D i u by (auto simp: A_def cset_def)
  have n: "0 \<notin> A" "b \<noteq> 0" "up d \<noteq> 0" using T is_tree_nz [OF T(2)] is_tree_nz [OF T(3)] is_ctx_nz [OF T(1)] i ud by (auto simp: A_def)
  then show "b \<noteq> 0" by simp
  have "set (inord m) \<inter> insert (up d) A = {}" using e i by auto
  then have "ptr m \<notin> insert (up d) A" using ptr_in [of m] n by (cases "m = Tip") auto
  then show "ptr m \<notin> A" "ptr m \<noteq> up d" by auto
  show "up d \<notin> A" using ud e(1) by blast
  show t: "r' \<noteq> Tip" using ud by auto
  show "ptr r' \<notin> A" using ptr_in [OF t] e(1) by blast
  show "m \<noteq> Tip \<Longrightarrow> ptr m \<in> set (inord r')" using ptr_in [of m] i by auto
  show "b \<notin> set (inord r')" using D i by auto
qed

lemma cut_successor:
  assumes s: "rabs s = \<lparr>anodes = h, aroot = rt\<rparr>" and T: "is_ctx h rt b c" "is_tree h a l" "is_tree h a r" "a \<noteq> 0"
    and a: "h a = Some \<lparr>left = ptr l, right = ptr r, parent = up c, height = k\<rparr>"
    and r: "r = plug (Bin Tip b j m) d" "before d = []" "d \<noteq> []" and D: "distinct (before c @ inord l @ a # inord r @ after c)"
    and al: "aligned4 b" "aligned4 (up d)"
  shows "\<exists>s2 s3 na s4 s5 h5 nb. rb_adopt (ptr m) (up d) s = Some s2 \<and> rupd (up d) (\<lambda>n. n\<lparr>rb_left := ptr m\<rparr>) s2 = Some s3 \<and>
    rget a s3 = Some na \<and> nabs na = \<lparr>left = ptr l, right = ptr r, parent = up c, height = k\<rparr> \<and>
    rupd b (\<lambda>n. n\<lparr>rb_right := ptr r\<rparr>) s3 = Some s4 \<and> rget a s4 = Some na \<and> rb_set_parent (ptr r) b s4 = Some s5 \<and> rget a s5 = Some na \<and>
    rabs s5 = \<lparr>anodes = h5, aroot = rt\<rparr> \<and> h5 b = Some nb \<and> right nb = ptr (plug m d) \<and> is_ctx h5 rt b c \<and> is_tree h5 a l \<and>
    is_tree h5 b (plug m d) \<and> (\<forall>z. z \<notin> insert b (set (inord (plug m d))) \<longrightarrow> h5 z = h z)"
proof -
  note P = cut_apart [OF T r D]
  define r' where "r' = plug m d"
  let ?h2 = "reparent (ptr m) (up d) h" and ?h3 = "cut_left h (up d) (ptr m)"
  have d: "distinct (inord (plug (Bin Tip b j m) d))" "a \<noteq> b" "b \<notin> cset c" "b \<notin> set (inord l)" using D P(1) unfolding r(1) by (auto simp: cset_def)
  have L: "is_tree ?h3 a r'" "ptr r' = ptr r" "h (up d) \<noteq> None" "h b = Some \<lparr>left = 0, right = ptr m, parent = up d, height = j\<rparr>" "is_tree h b m"
    using leftmost_cut [OF T(3) [unfolded r(1)] r(2,3) d(1)] unfolding r(1) r'_def by simp_all
  have h3: "is_tree ?h3 a l" "is_ctx ?h3 rt b c" using cut_left_tree [of "ptr m" l "up d" h a] P(2,4) T(1,2) by (auto simp: cut_left_def reparent_def)
  have o3: "?h3 a = h a" "?h3 b = h b" using P(2,4) by (auto intro!: cut_left_other)
  obtain s2 where s2: "rb_adopt (ptr m) (up d) s = Some s2" "rabs s2 = \<lparr>anodes = ?h2, aroot = rt\<rparr>" using adopt_step [OF al(2) s L(5)] by blast
  obtain nq where nq: "h (up d) = Some nq" using L(3) by blast
  have "?h2 (up d) = Some nq" using nq P(3) by (auto simp: reparent_def)
  from sim_upd_step [OF sim_left s2(2) this] obtain s3 where s3: "rupd (up d) (\<lambda>n. n\<lparr>rb_left := ptr m\<rparr>) s2 = Some s3"
    "rabs s3 = \<lparr>anodes = ?h3, aroot = rt\<rparr>" unfolding cut_left_def using nq by auto
  obtain na where na: "rget a s3 = Some na" "nabs na = \<lparr>left = ptr l, right = ptr r, parent = up c, height = k\<rparr>"
    using rget_abs [OF s3(2)] o3(1) a by metis
  let ?nb = "\<lparr>left = 0, right = ptr r', parent = up d, height = j\<rparr>"
  have "?h3 b = Some \<lparr>left = 0, right = ptr m, parent = up d, height = j\<rparr>" using o3(2) L(4) by simp
  from sim_upd_step [OF sim_right s3(2) this, of "ptr r"] obtain s4 where s4: "rupd b (\<lambda>n. n\<lparr>rb_right := ptr r\<rparr>) s3 = Some s4"
    "rabs s4 = \<lparr>anodes = ?h3(b \<mapsto> ?nb), aroot = rt\<rparr>" using L(2) by auto
  have a4: "rget a s4 = Some na" using rupd_other [OF s4(1) d(2)] na(1) by simp
  have r4: "is_tree (?h3(b \<mapsto> ?nb)) a r'" using L(1) P(10) unfolding r'_def by simp
  let ?h5 = "reparent (ptr r') b (?h3(b \<mapsto> ?nb))"
  obtain s5 where s5: "rb_set_parent (ptr r) b s4 = Some s5" "rabs s5 = \<lparr>anodes = ?h5, aroot = rt\<rparr>"
    using set_parent_step [OF al(1) s4(2) r4] P(6) L(2) unfolding r'_def by auto
  have a5: "rget a s5 = Some na" using rupd_other [OF s5(1) [unfolded rb_set_parent_def], of a] P(5) L(2) a4 unfolding r'_def by auto
  have "distinct (inord r')" using d(1) P(1) unfolding r(1) r'_def by simp
  then have h5: "is_ctx ?h5 rt b c" "is_tree ?h5 a l" "is_tree ?h5 b r'"
    using h3 P(5) d(3,4) is_tree_reparent [OF r4] unfolding r'_def by (simp_all add: is_ctx_reparent is_tree_reparent_other)
  have "?h5 b = Some ?nb" using P(5) unfolding r'_def by (auto simp: reparent_def)
  moreover have "?h5 z = h z" if "z \<notin> insert b (set (inord r'))" for z
    using that P(8,9) ptr_in [OF P(6)] unfolding r'_def by (cases "m = Tip") (auto simp: cut_left_def reparent_def)
  ultimately show ?thesis using s2(1) s3(1) na s4(1) a4 s5 a5 h5 unfolding r'_def
    by (intro exI [of _ s2] exI [of _ s3] exI [of _ na] exI [of _ s4] exI [of _ s5] exI [of _ ?h5] exI [of _ ?nb]) (simp add: r'_def)
qed

lemma unlink_two_far:
  assumes z: "rrep s (Bin l a k r) c" and l: "l \<noteq> Tip" and r: "r = plug (Bin Tip b j m) d" "before d = []" "d \<noteq> []"
  shows "\<exists>n s'. rb_unlink_two a s = Some (ptr m, up d, color_of n, s') \<and> uint (color_of n) = j \<and> rrep s' (Bin l b k (plug m d)) c \<and>
    outside (set (inord (plug (Bin l a k r) c))) s s'"
proof -
  obtain h rt where s: "rabs s = \<lparr>anodes = h, aroot = rt\<rparr>" by (cases "rabs s") simp
  have Z: "zrep \<lparr>anodes = h, aroot = rt\<rparr> (Bin l a k r) c" and al: "\<forall>x \<in> set (inord (plug (Bin l a k r) c)). aligned4 x"
    using z unfolding rrep_def s by simp_all
  note T = zrepD [OF Z]
  obtain n where n: "rget a s = Some n" "rb_left n = ptr l" "rb_right n = ptr r" "parent_of n = up c" using rrep_node(1) [OF z] by auto
  have D: "a \<notin> cset c" "distinct (before c @ after c)" "cset c \<inter> set (inord l) = {}" "cset c \<inter> set (inord r) = {}"
    using T(5) by (auto simp: cset_def)
  obtain s1 h1 rt1 where s1: "rb_change_child a b (up c) s = Some s1" "rabs s1 = \<lparr>anodes = h1, aroot = rt1\<rparr>" "is_ctx h1 rt1 b c"
    "\<forall>x. x \<notin> cset c \<longrightarrow> h1 x = h x" using change_child_step [OF s T(3,4) D(1,2)] by blast
  have h1: "is_tree h1 a l" "is_tree h1 a r" "h1 a = h a" using is_tree_away [OF s1(4)] T(1,2) D s1(4) by simp_all
  note P = cut_apart [OF s1(3) h1(1,2) T(4) r T(5)]
  have sink: "rb_sink_left (ptr r) s = Some b" using sink_left_rb [of s a r] T(2) s P(1) inord_Nil [of r] by simp
  have b: "aligned4 b" "aligned4 (up d)" "a \<noteq> b" "distinct (before c @ inord l @ b # inord (plug m d) @ after c)"
    using al P(1,8) T(5) by (auto simp: inord_plug)
  have "h1 b = Some \<lparr>left = 0, right = ptr m, parent = up d, height = j\<rparr>"
    using leftmost_cut [OF h1(2) [unfolded r(1)] r(2,3)] T(5) unfolding r(1) by simp
  then obtain n1 where n1: "rget b s1 = Some n1" "rb_right n1 = ptr m" "parent_of n1 = up d" "uint (color_of n1) = j"
    using rget_abs [OF s1(2)] by (fastforce simp: nabs_def)
  obtain s2 s3 na s4 s5 h5 nb where C: "rb_adopt (ptr m) (up d) s1 = Some s2" "rupd (up d) (\<lambda>n. n\<lparr>rb_left := ptr m\<rparr>) s2 = Some s3"
    "rget a s3 = Some na" "nabs na = \<lparr>left = ptr l, right = ptr r, parent = up c, height = k\<rparr>"
    "rupd b (\<lambda>n. n\<lparr>rb_right := ptr r\<rparr>) s3 = Some s4" "rget a s4 = Some na" "rb_set_parent (ptr r) b s4 = Some s5" "rget a s5 = Some na"
    "rabs s5 = \<lparr>anodes = h5, aroot = rt1\<rparr>" "h5 b = Some nb" "right nb = ptr (plug m d)" "is_ctx h5 rt1 b c" "is_tree h5 a l"
    "is_tree h5 b (plug m d)" "\<forall>z. z \<notin> insert b (set (inord (plug m d))) \<longrightarrow> h5 z = h1 z"
    using cut_successor [OF s1(2,3) h1(1,2) T(4) _ r T(5) b(1,2)] h1(3) T(6) by auto
  obtain s6 s7 where s7: "rupd b (\<lambda>n. n\<lparr>rb_parent_color := rb_parent_color na, rb_left := rb_left na\<rparr>) s5 = Some s6" "rget a s6 = Some na"
    "rb_set_parent (rb_left na) b s6 = Some s7" "zrep (rabs s7) (Bin l b k (plug m d)) c"
    "\<forall>z. z \<notin> insert b (set (inord l)) \<longrightarrow> anodes (rabs s7) z = h5 z"
    using take_over [OF C(9,8,4) b(3) C(10,11) b(1) P(7) C(12-14) l b(4)] by blast
  have "rb_right na = ptr r" using C(4) by (simp add: nabs_def)
  then have "rb_unlink_two a s = Some (ptr m, up d, color_of n1, s7)"
    using n sink s1(1) n1 C(1-3,5-8) s7(1-3) P(4) by (simp add: rb_unlink_two_def Let_def)
  moreover have "rrep s7 (Bin l b k (plug m d)) c" using s7(4) al P(1) by (auto simp: rrep_def inord_plug)
  moreover have "outside (set (inord (plug (Bin l a k r) c))) s s7"
    unfolding outside_def elsewhere_def using s7(5) C(15) s1(4) s P(1) by (auto simp: inord_plug cset_def)
  ultimately show ?thesis using n1(4) by blast
qed

subsection \<open>Removal as a whole\<close>

lemma unlink_two_rep:
  assumes z: "rrep s (Bin l a k r) c" and l: "l \<noteq> Tip" and r: "r = plug (Bin Tip b j m) d" "before d = []"
  defines "E \<equiv> d @ InRight l b k # c"
  shows "\<exists>n s'. rb_unlink a s = Some (ptr m, up E, color_of n, s') \<and> uint (color_of n) = j \<and> rrep s' m E \<and>
    outside (set (inord (plug (Bin l a k r) c))) s s'"
proof -
  have "r \<noteq> Tip" using inord_plug [of "Bin Tip b j m" d] unfolding r(1) by (metis append_is_Nil_conv inord.simps(1,2) list.distinct(1))
  moreover obtain n where n: "rget a s = Some n" "rb_left n = ptr l" "rb_right n = ptr r" using rrep_node(1) [OF z] by auto
  moreover have "rrep s l (InLeft a k r # c)" "rrep s r (InRight l a k # c)" using z by (simp_all add: rrep_fill)
  ultimately have "rb_unlink a s = rb_unlink_two a s"
    using l rrep_node(2) unfolding rb_unlink_def by (cases l; cases r) auto
  moreover have "\<exists>n s'. rb_unlink_two a s = Some (ptr m, up E, color_of n, s') \<and> uint (color_of n) = j \<and> rrep s' m E \<and>
    outside (set (inord (plug (Bin l a k r) c))) s s'"
  proof (cases "d = []")
    case True
    then show ?thesis using unlink_two_near [of s l a k b j m c] z l unfolding E_def r(1) by simp
  next
    case False
    then show ?thesis using unlink_two_far [OF z l r False] unfolding E_def by (simp add: rrep_plug rrep_fill up_append)
  qed
  ultimately show ?thesis by simp
qed

text \<open>A subtree \<open>m\<close> has taken the place of the node \<open>b\<close> of colour \<open>j\<close> above it.\<close>

lemma erase_finish_rb:
  assumes z: "rrep s m c" and ok: "rb_ok (plug t0 c)" "col (plug t0 c) = 1" and t0: "t0 = Bin l b j r" "l = Tip \<and> r = m \<or> r = Tip \<and> l = m"
    and n: "uint (color_of n) = j"
  shows "restored s (inord (plug m c)) (if color_of n = RB_BLACK then rb_erase_color (ptr m) (up c) s else Some s)"
proof -
  have o: "rb_ok t0" using rb_ok_plugD ok(1) by blast
  have m: "rb_ok m" "bh m = 0" "j = 0 \<longrightarrow> m = Tip" using o t0 by (cases m; auto split: if_splits)+
  show ?thesis
  proof (cases "color_of n = RB_BLACK")
    case True
    then have j: "j = 1" using n by (simp add: RB_BLACK_def)
    have w: "rb_ok (with_hgt 1 m)" using m(1) by (cases m) auto
    have "bh t0 = Suc (bh m)" using j m(2) t0 o by auto
    from erase_color_rep [OF z w ok this] show ?thesis unfolding if_P [OF True] .
  next
    case False
    then have j: "j = 0" "m = Tip" using n m(3) by (cases n rule: color_cases; simp add: RB_BLACK_def)+
    have b: "bh m = bh t0" using j t0 by auto
    have "rb_ok (plug m c) \<and> (c \<noteq> [] \<longrightarrow> col (plug m c) = 1)" using rb_ok_plug [OF ok(1) m(1) b] j(2) ok(2) by simp
    moreover have "c = [] \<longrightarrow> col (plug m c) = 1" using j(2) by simp
    ultimately have "rb_ok (plug m c) \<and> col (plug m c) = 1" by blast
    moreover have "rrep s (plug m c) []" using z rrep_top by blast
    ultimately show ?thesis unfolding restored_def if_not_P [OF False] using outside_refl by blast
  qed
qed

lemma rb_ok_rename: "rb_ok (plug (Bin l a k r) c) = rb_ok (plug (Bin l b k r) c)" "col (plug (Bin l a k r) c) = col (plug (Bin l b k r) c)"
proof -
  have 1: "rb_ok (plug (Bin l y k r) c)" if "rb_ok (plug (Bin l x k r) c)" for x y
  proof -
    have o: "rb_ok (Bin l x k r)" using rb_ok_plugD that by blast
    then have "rb_ok (Bin l y k r)" "bh (Bin l y k r) = bh (Bin l x k r)" "col (Bin l y k r) = 1 \<or> col (Bin l x k r) = 0" by auto
    then show ?thesis using rb_ok_plug [OF that, of "Bin l y k r"] by blast
  qed
  show "rb_ok (plug (Bin l a k r) c) = rb_ok (plug (Bin l b k r) c)" using 1 by blast
  have "col (plug (Bin l y k r) c) = (if c = [] then k else fcol (last c))" for y
  proof (induction c rule: rev_induct)
    case (snoc f c)
    show ?case by (cases f) (simp_all add: plug_append)
  qed simp
  then show "col (plug (Bin l a k r) c) = col (plug (Bin l b k r) c)" by simp
qed

lemma rb_erase_rep:
  assumes z: "rrep s (Bin l a k r) c" and ok: "rb_ok (plug (Bin l a k r) c)" "col (plug (Bin l a k r) c) = 1"
  shows "\<exists>s' T. rb_erase a s = Some s' \<and> rrep s' T [] \<and> rb_ok T \<and> col T = 1 \<and> inord T = before c @ inord l @ inord r @ after c \<and>
    outside (set (inord (plug (Bin l a k r) c))) s s'"
proof -
  let ?xs = "before c @ inord l @ inord r @ after c" and ?A = "set (inord (plug (Bin l a k r) c))"
  have "\<exists>m p n s1. rb_unlink a s = Some (ptr m, p, color_of n, s1) \<and> outside ?A s s1 \<and>
    restored s1 ?xs (if color_of n = RB_BLACK then rb_erase_color (ptr m) p s1 else Some s1)"
  proof (cases "l = Tip \<or> r = Tip")
    case True
    let ?t = "if l = Tip then r else l"
    obtain n s1 where s1: "rb_unlink a s = Some (ptr ?t, up c, color_of n, s1)" "uint (color_of n) = k" "rrep s1 ?t c" "outside ?A s s1"
      using unlink_one_rep [OF z True] by blast
    have t: "l = Tip \<and> r = ?t \<or> r = Tip \<and> l = ?t" "inord (plug ?t c) = ?xs" using True by (auto simp: inord_plug)
    from erase_finish_rb [OF s1(3) ok refl t(1) s1(2)] show ?thesis using s1(1,4) unfolding t(2) by blast
  next
    case False
    then obtain b j m d where r: "r = plug (Bin Tip b j m) d" "before d = []" using leftmost [of r] by blast
    let ?E = "d @ InRight l b k # c"
    obtain n s1 where s1: "rb_unlink a s = Some (ptr m, up ?E, color_of n, s1)" "uint (color_of n) = j" "rrep s1 m ?E" "outside ?A s s1"
      using unlink_two_rep [OF z _ r] False by blast
    have e: "plug (Bin Tip b j m) ?E = plug (Bin l b k r) c" "inord (plug m ?E) = ?xs" using r(2) by (simp_all add: plug_append r(1) inord_plug)
    have "rb_ok (plug (Bin Tip b j m) ?E)" "col (plug (Bin Tip b j m) ?E) = 1" using ok rb_ok_rename [of l a k r c b] unfolding e(1) by simp_all
    from erase_finish_rb [OF s1(3) this refl _ s1(2)] show ?thesis using s1(1,4) unfolding e(2) by blast
  qed
  then obtain m p n s1 where u: "rb_unlink a s = Some (ptr m, p, color_of n, s1)" "outside ?A s s1"
    "restored s1 ?xs (if color_of n = RB_BLACK then rb_erase_color (ptr m) p s1 else Some s1)" by blast
  then have e: "rb_erase a s = (if color_of n = RB_BLACK then rb_erase_color (ptr m) p s1 else Some s1)" by (simp add: rb_erase_def)
  have "outside ?A s1 s'" if "outside (set ?xs) s1 s'" for s' using that unfolding outside_def elsewhere_def by (auto simp: inord_plug)
  then show ?thesis using u(2,3) outside_trans unfolding restored_def e by blast
qed

end
