(* ===== verification/RbContract.thy ===== *)
theory RbContract
  imports RbUnlink AvlContract
begin

text \<open>
  What the red-black trees of \<^verbatim>\<open>rbtree.c\<close> promise: a sequence of nodes in the order of the tree, into which a caller
  inserts at the place its own search has found, from which it removes and replaces nodes, and through which it walks. The
  interface of walking is the locale \<open>node_walk\<close>, which the AVL trees provide as well.
\<close>

subsection \<open>Walking\<close>

lemma climb_right_rb: "rrep s (Bin l a k r) c \<Longrightarrow> rb_climb_right a s = Some (or_null hd (after c))"
proof (induction c arbitrary: l a k r)
  case Nil
  then show ?case using rrep_node(4) [OF Nil] by (subst rb_climb_right.simps) (simp add: or_null_def)
next
  case (Cons f c)
  note N = rrep_node(2,4) [OF Cons.prems]
  show ?case
  proof (cases f)
    case (InLeft b j q)
    then have z: "rrep s (Bin (Bin l a k r) b j q) c" using Cons.prems by (simp add: rrep_fill)
    have "ptr q \<noteq> a" using rrep_distinct [OF z] N(1) by (intro ptr_other) auto
    moreover obtain n where "rget b s = Some n" "rb_right n = ptr q" using rrep_node(1) [OF z] by auto
    ultimately show ?thesis using N(2) rrep_node(2) [OF z] unfolding InLeft by (subst rb_climb_right.simps) (simp add: or_null_def)
  next
    case (InRight q b j)
    then have z: "rrep s (Bin q b j (Bin l a k r)) c" using Cons.prems by (simp add: rrep_fill)
    obtain n where "rget b s = Some n" "rb_right n = a" using rrep_node(1) [OF z] by auto
    then show ?thesis using N(2) rrep_node(2) [OF z] Cons.IH [OF z] unfolding InRight by (subst rb_climb_right.simps) simp
  qed
qed

lemma climb_left_rb: "rrep s (Bin l a k r) c \<Longrightarrow> rb_climb_left a s = Some (or_null last (before c))"
proof (induction c arbitrary: l a k r)
  case Nil
  then show ?case using rrep_node(4) [OF Nil] by (subst rb_climb_left.simps) (simp add: or_null_def)
next
  case (Cons f c)
  note N = rrep_node(2,4) [OF Cons.prems]
  show ?case
  proof (cases f)
    case (InRight q b j)
    then have z: "rrep s (Bin q b j (Bin l a k r)) c" using Cons.prems by (simp add: rrep_fill)
    have "ptr q \<noteq> a" using rrep_distinct [OF z] N(1) by (intro ptr_other) auto
    moreover obtain n where "rget b s = Some n" "rb_left n = ptr q" using rrep_node(1) [OF z] by auto
    ultimately show ?thesis using N(2) rrep_node(2) [OF z] unfolding InRight by (subst rb_climb_left.simps) (simp add: or_null_def)
  next
    case (InLeft b j q)
    then have z: "rrep s (Bin (Bin l a k r) b j q) c" using Cons.prems by (simp add: rrep_fill)
    obtain n where "rget b s = Some n" "rb_left n = a" using rrep_node(1) [OF z] by auto
    then show ?thesis using N(2) rrep_node(2) [OF z] Cons.IH [OF z] unfolding InLeft by (subst rb_climb_left.simps) simp
  qed
qed

lemma next_prev_rb:
  assumes z: "rrep s (Bin l a k r) c"
  shows "rb_next a s = Some (or_null hd (inord r @ after c))" "rb_prev a s = Some (or_null last (before c @ inord l))"
proof -
  obtain n where n: "rget a s = Some n" "rb_left n = ptr l" "rb_right n = ptr r" "parent_of n = up c" using rrep_node(1) [OF z] by auto
  have t: "is_tree (anodes (rabs s)) a l" "is_tree (anodes (rabs s)) a r" using z unfolding rrep_def zrep_def is_tree.simps by blast+
  have u: "up c \<noteq> a" using rrep_distinct [OF z] up_in [of c] rrep_node(2) [OF z] by (cases "c = []") (auto simp: cset_def)
  note P = is_tree_ptr_0 [OF t(1)] is_tree_ptr_0 [OF t(2)]
  show "rb_next a s = Some (or_null hd (inord r @ after c))"
    using n u P(2) sink_left_rb [OF t(2)] climb_right_rb [OF z] inord_Nil [of r] by (simp add: rb_next_def or_null_def)
  show "rb_prev a s = Some (or_null last (before c @ inord l))"
    using n u P(1) sink_right_rb [OF t(1)] climb_left_rb [OF z] inord_Nil [of l] by (simp add: rb_prev_def or_null_def)
qed

text \<open>\<open>visit nxt x s\<close> collects the nodes from \<open>x\<close> on.\<close>

partial_function (option) visit :: "(u64 \<Rightarrow> 's \<Rightarrow> u64 option) \<Rightarrow> u64 \<Rightarrow> 's \<Rightarrow> u64 list option" where
  "visit nxt x s = (if x = 0 then Some [] else do { y \<leftarrow> nxt x s; xs \<leftarrow> visit nxt y s; Some (x # xs) })"

locale node_walk =
  fixes view :: "'s \<Rightarrow> u64 list \<Rightarrow> bool"
    and first :: "'s \<Rightarrow> u64 option"
    and last_node :: "'s \<Rightarrow> u64 option"
    and nxt :: "u64 \<Rightarrow> 's \<Rightarrow> u64 option"
    and prv :: "u64 \<Rightarrow> 's \<Rightarrow> u64 option"
  assumes first_law: "view s xs \<Longrightarrow> first s = Some (or_null hd xs)"
    and last_law: "view s xs \<Longrightarrow> last_node s = Some (or_null last xs)"
    and next_law: "view s (ys @ x # zs) \<Longrightarrow> nxt x s = Some (or_null hd zs)"
    and prv_law: "view s (ys @ x # zs) \<Longrightarrow> prv x s = Some (or_null last ys)"
    and nonzero: "view s xs \<Longrightarrow> 0 \<notin> set xs"
begin

text \<open>Walking forwards and backwards visits every node once and ends.\<close>

lemma visit_from: "view s (ys @ zs) \<Longrightarrow> visit nxt (or_null hd zs) s = Some zs"
proof (induction zs arbitrary: ys)
  case Nil
  then show ?case by (simp add: visit.simps or_null_def)
next
  case (Cons z zs)
  have "z \<noteq> 0" using nonzero [OF Cons.prems] by auto
  moreover have "visit nxt (or_null hd zs) s = Some zs" using Cons.IH [of "ys @ [z]"] Cons.prems by simp
  ultimately show ?case using next_law [OF Cons.prems] by (simp add: visit.simps [of nxt z] or_null_def [of hd "z # zs"])
qed

lemma visit_back: "view s (ys @ zs) \<Longrightarrow> visit prv (or_null last ys) s = Some (rev ys)"
proof (induction ys arbitrary: zs rule: rev_induct)
  case Nil
  then show ?case by (simp add: visit.simps or_null_def)
next
  case (snoc y ys)
  have v: "view s (ys @ y # zs)" using snoc.prems by simp
  have "y \<noteq> 0" using nonzero [OF v] by auto
  moreover have "visit prv (or_null last ys) s = Some (rev ys)" by (rule snoc.IH [OF v])
  ultimately show ?case using prv_law [OF v] by (simp add: visit.simps [of prv y] or_null_def [of last "ys @ [y]"])
qed

lemma visit_all: "view s xs \<Longrightarrow> (do { x \<leftarrow> first s; visit nxt x s }) = Some xs \<and> (do { x \<leftarrow> last_node s; visit prv x s }) = Some (rev xs)"
  using first_law last_law visit_from [of s "[]" xs] visit_back [of s xs "[]"] by simp

end

subsection \<open>The sequence of a tree\<close>

definition rb_view :: "rb \<Rightarrow> u64 list \<Rightarrow> bool" where
  "rb_view s xs \<longleftrightarrow> (\<exists>T. rrep s T [] \<and> rb_ok T \<and> col T = 1 \<and> inord T = xs)"

lemma rb_focus:
  assumes "rb_view s (ys @ x # zs)"
  obtains l k r c where "rrep s (Bin l x k r) c" "rb_ok (plug (Bin l x k r) c)" "col (plug (Bin l x k r) c) = 1"
    "before c @ inord l = ys" "inord r @ after c = zs"
proof -
  obtain T where T: "rrep s T []" "rb_ok T" "col T = 1" "inord T = ys @ x # zs" using assms by (auto simp: rb_view_def)
  have "trep (rabs s) T" using T(1) by (simp add: rrep_def trep_def)
  from focus_view [OF this T(4)] obtain l k r c where c: "T = plug (Bin l x k r) c" "before c @ inord l = ys" "inord r @ after c = zs" by metis
  show thesis using that [OF _ _ _ c(2,3), of k] T c(1) rrep_top by blast
qed

lemma rb_ends:
  assumes "rb_view s xs"
  shows "rb_first s = Some (or_null hd xs)" "rb_last s = Some (or_null last xs)" "0 \<notin> set xs" "distinct xs" "\<forall>x \<in> set xs. aligned4 x"
proof -
  obtain T where T: "rrep s T []" "inord T = xs" using assms by (auto simp: rb_view_def)
  have t: "is_tree (anodes (rabs s)) 0 T" "rroot s = ptr T" using T(1) unfolding rrep_def zrep_def by simp_all
  show "rb_first s = Some (or_null hd xs)" "rb_last s = Some (or_null last xs)"
    using t(2) sink_left_rb [OF t(1)] sink_right_rb [OF t(1)] is_tree_ptr_0 [OF t(1)] inord_Nil [of T] T(2)
    by (auto simp: rb_first_def rb_last_def or_null_def)
  show "0 \<notin> set xs" "distinct xs" "\<forall>x \<in> set xs. aligned4 x" using T is_tree_nz [OF t(1)] rrep_distinct [OF T(1)] by (auto simp: rrep_def)
qed

interpretation rbw: node_walk rb_view rb_first rb_last rb_next rb_prev
proof (unfold_locales, goal_cases)
  case (3 s ys x zs)
  then show ?case using next_prev_rb(1) by (auto elim!: rb_focus)
next
  case (4 s ys x zs)
  then show ?case using next_prev_rb(2) by (auto elim!: rb_focus)
qed (simp_all add: rb_ends)

interpretation avlw: node_walk avl_view avl_node_first avl_node_last avl_node_next avl_node_prev
proof (unfold_locales, goal_cases)
  case (1 s xs)
  then obtain T where T: "trep s T" "inord T = xs" by (auto simp: avl_view_def)
  have t: "is_tree (anodes s) 0 T" "aroot s = ptr T" using T(1) by (simp_all add: trep_def zrep_def)
  show ?case using t(2) sink_left_rep [OF t(1)] is_tree_ptr_0 [OF t(1)] inord_Nil [of T] T(2) by (auto simp: avl_node_first_def or_null_def)
next
  case (2 s xs)
  then obtain T where T: "trep s T" "inord T = xs" by (auto simp: avl_view_def)
  have t: "is_tree (anodes s) 0 T" "aroot s = ptr T" using T(1) by (simp_all add: trep_def zrep_def)
  show ?case using t(2) sink_right_rep [OF t(1)] is_tree_ptr_0 [OF t(1)] inord_Nil [of T] T(2) by (auto simp: avl_node_last_def or_null_def)
next
  case (3 s ys x zs)
  then obtain T where T: "trep s T" "inord T = ys @ x # zs" by (auto simp: avl_view_def)
  obtain l k r c where "zrep s (Bin l x k r) c" "inord r @ after c = zs" by (rule focus_view [OF T])
  then show ?case using node_next_rep(1) by auto
next
  case (4 s ys x zs)
  then show ?case by (rule avl.prev_law)
next
  case (5 s xs)
  then show ?case using is_tree_nz by (auto simp: avl_view_def trep_def zrep_def)
qed

subsection \<open>Insertion\<close>

text \<open>
  The place a caller's search has found, between \<open>xs\<close> and \<open>ys\<close>: the root pointer of an empty tree, or the empty child
  pointer of a neighbour, which is the parent.
\<close>

definition rb_gap :: "rb \<Rightarrow> u64 list \<Rightarrow> u64 list \<Rightarrow> u64 \<Rightarrow> rb_link \<Rightarrow> bool" where
  "rb_gap s xs ys par link \<longleftrightarrow> (case link of
       rb_link.RootLink \<Rightarrow> xs = [] \<and> ys = [] \<and> par = 0
     | rb_link.LeftLink p \<Rightarrow> ys \<noteq> [] \<and> p = hd ys \<and> par = p \<and> map_option rb_left (rget p s) = Some 0
     | rb_link.RightLink p \<Rightarrow> xs \<noteq> [] \<and> p = last xs \<and> par = p \<and> map_option rb_right (rget p s) = Some 0)"

fun rlink_of :: "frame list \<Rightarrow> rb_link" where
  "rlink_of [] = rb_link.RootLink"
| "rlink_of (InLeft a k r # c) = rb_link.LeftLink a"
| "rlink_of (InRight l a k # c) = rb_link.RightLink a"

lemma rrep_ptr_0: "rrep s t c \<Longrightarrow> ptr t = 0 \<longleftrightarrow> t = Tip"
  by (cases t) (auto simp: rrep_def zrep_def)

lemma gap_ctx:
  assumes v: "rb_view s (xs @ ys)" and g: "rb_gap s xs ys par link"
  obtains c where "rrep s Tip c" "rb_ok (plug Tip c)" "col (plug Tip c) = 1" "before c = xs" "after c = ys" "up c = par" "rlink_of c = link"
proof (cases link)
  case RootLink
  then have e: "xs = []" "ys = []" "par = 0" using g by (simp_all add: rb_gap_def)
  then obtain T where "rrep s T []" "inord T = []" using v by (auto simp: rb_view_def)
  then show thesis using that [of "[]"] e RootLink inord_Nil by auto
next
  case (LeftLink p)
  then obtain zs where g': "ys = p # zs" "par = p" "map_option rb_left (rget p s) = Some 0" using g by (cases ys) (auto simp: rb_gap_def)
  obtain l k r c where c: "rrep s (Bin l p k r) c" "rb_ok (plug (Bin l p k r) c)" "col (plug (Bin l p k r) c) = 1"
    "before c @ inord l = xs" "inord r @ after c = zs" using rb_focus [of s xs p zs] v g'(1) by metis
  have zl: "rrep s l (InLeft p k r # c)" using c(1) by (simp add: rrep_fill)
  have "ptr l = 0" using rrep_node(1) [OF c(1)] g'(3) by auto
  then have "l = Tip" using rrep_ptr_0 [OF zl] by simp
  then show thesis using that [of "InLeft p k r # c"] zl c g' LeftLink by simp
next
  case (RightLink p)
  then have "xs \<noteq> []" and g': "par = p" "map_option rb_right (rget p s) = Some 0" "p = last xs" using g by (auto simp: rb_gap_def)
  then have x: "xs = butlast xs @ [p]" by simp
  obtain l k r c where c: "rrep s (Bin l p k r) c" "rb_ok (plug (Bin l p k r) c)" "col (plug (Bin l p k r) c) = 1"
    "before c @ inord l = butlast xs" "inord r @ after c = ys" using rb_focus [of s "butlast xs" p ys] v x by (metis append.assoc append_Cons append_Nil)
  have zr: "rrep s r (InRight l p k # c)" using c(1) by (simp add: rrep_fill)
  have "ptr r = 0" using rrep_node(1) [OF c(1)] g'(2) by auto
  then have r: "r = Tip" using rrep_ptr_0 [OF zr] by simp
  have "before (InRight l p k # c) = xs" using c(4) by (subst x) (simp add: append_assoc [symmetric] del: append_assoc)
  then show thesis using that [of "InRight l p k # c"] zr c(2,3,5) r g'(1) RightLink by simp
qed

lemma link_rb:
  assumes z: "rrep s Tip c" and x: "x \<noteq> 0" "x \<notin> cset c" "rget x s \<noteq> None" "aligned4 x" and p: "aligned4 (up c)"
  shows "\<exists>s'. rb_link_node x (up c) (rlink_of c) s = Some s' \<and> rrep s' (Bin Tip x 0 Tip) c \<and> outside (insert x (cset c)) s s'"
proof -
  have Z: "zrep (rabs s) Tip c" "\<forall>y \<in> set (inord (plug Tip c)). aligned4 y" using z by (simp_all add: rrep_def)
  have a: "anodes (rabs s) x \<noteq> None" using x(3) by (auto simp: rget_def)
  obtain t where t: "avl_node_link x (up c) (link_of c) (rabs s) = Some t" "zrep t (Bin Tip x 0 Tip) c" "elsewhere (rabs s) (insert x (cset c)) t"
    using link_rep [OF Z(1) x(1,2) a] by blast
  have "sim (rb_link_node x (up c) (rlink_of c) s) (avl_node_link x (up c) (link_of c) (rabs s))"
  proof -
    obtain n where n: "rnodes s x = Some n" using x(3) by (auto simp: rget_def)
    let ?s = "s\<lparr>rnodes := (rnodes s)(x \<mapsto> n\<lparr>rb_parent_color := up c, rb_right := 0, rb_left := 0\<rparr>)\<rparr>"
    have 1: "rb_link_node x (up c) (rlink_of c) s = rb_link_set (rlink_of c) x ?s"
      using n by (simp add: rb_link_node_def rupd_def)
    have "nabs (n\<lparr>rb_parent_color := up c, rb_right := 0, rb_left := 0\<rparr>) = (nabs n)\<lparr>parent := up c, height := 0, left := 0, right := 0\<rparr>"
      using parent_bits(3,4) [OF p] by (simp only: nabs_def parent_of_def color_of_def) simp
    then have 2: "aupd x (\<lambda>n. n\<lparr>parent := up c, height := 0, left := 0, right := 0\<rparr>) (rabs s) = Some (rabs ?s)"
      using n by (auto simp: aupd_def rabs_def fun_eq_iff)
    show ?thesis unfolding 1 avl_node_link_def 2
      by (cases c rule: rlink_of.cases) (simp_all add: rb_link_set_def link_set_def sim_left sim_right sim_def [of "Some _"])
  qed
  then obtain s' where "rb_link_node x (up c) (rlink_of c) s = Some s'" "rabs s' = t" using sim_Some t(1) by auto
  then show ?thesis using t(2,3) Z(2) x(4) by (auto simp: rrep_def outside_def inord_plug)
qed

lemma insert_view:
  assumes v: "rb_view s (xs @ ys)" and g: "rb_gap s xs ys par link"
    and x: "x \<noteq> 0" "x \<notin> set (xs @ ys)" "rget x s \<noteq> None" "aligned4 x"
  shows "\<exists>s1 s2. rb_link_node x par link s = Some s1 \<and> rb_insert_color x s1 = Some s2 \<and> rb_view s2 (xs @ x # ys) \<and>
    outside (insert x (set (xs @ ys))) s s2"
proof -
  obtain c where c: "rrep s Tip c" "rb_ok (plug Tip c)" "col (plug Tip c) = 1" "before c = xs" "after c = ys" "up c = par" "rlink_of c = link"
    by (rule gap_ctx [OF v g])
  have cs: "cset c = set (xs @ ys)" using c(4,5) by (simp add: cset_def)
  have "aligned4 (up c)" using up_in [of c] rb_ends(5) [OF v] cs by (cases "c = []") auto
  then obtain s1 where s1: "rb_link_node x par link s = Some s1" "rrep s1 (Bin Tip x 0 Tip) c" "outside (insert x (set (xs @ ys))) s s1"
    using link_rb [OF c(1) x(1) _ x(3,4)] x(2) cs c(6,7) by metis
  have i: "inord (plug (Bin Tip x 0 Tip) c) = xs @ x # ys" using c(4,5) by (simp add: inord_plug)
  obtain s2 T where s2: "rb_insert_color x s1 = Some s2" "rrep s2 T []" "rb_ok T" "col T = 1" "inord T = xs @ x # ys" "outside (set (xs @ x # ys)) s1 s2"
    using insert_color_rep [OF s1(2) _ _ c(2,3)] unfolding i by auto
  then have "rb_view s2 (xs @ x # ys)" by (auto simp: rb_view_def)
  moreover have "set (xs @ x # ys) = insert x (set (xs @ ys))" by auto
  then have "outside (insert x (set (xs @ ys))) s1 s2" using s2(6) by simp
  then have "outside (insert x (set (xs @ ys))) s s2" by (rule outside_trans [OF s1(3)])
  ultimately show ?thesis using s1(1) s2(1) by blast
qed

subsection \<open>Removal and replacement\<close>

lemma erase_view:
  assumes "rb_view s (ys @ x # zs)"
  shows "\<exists>s'. rb_erase x s = Some s' \<and> rb_view s' (ys @ zs) \<and> outside (insert x (set (ys @ zs))) s s'"
proof -
  obtain l k r c where c: "rrep s (Bin l x k r) c" "rb_ok (plug (Bin l x k r) c)" "col (plug (Bin l x k r) c) = 1"
    "before c @ inord l = ys" "inord r @ after c = zs" by (rule rb_focus [OF assms])
  have e: "before c @ inord l @ inord r @ after c = ys @ zs" "set (inord (plug (Bin l x k r) c)) = insert x (set (ys @ zs))"
    unfolding c(4,5) [symmetric] by (auto simp: inord_plug)
  obtain s' T where "rb_erase x s = Some s'" "rrep s' T []" "rb_ok T" "col T = 1" "inord T = ys @ zs" "outside (insert x (set (ys @ zs))) s s'"
    using rb_erase_rep [OF c(1-3)] unfolding e by blast
  then show ?thesis by (auto simp: rb_view_def)
qed

lemma sim_replace:
  assumes "aligned4 b"
  shows "sim (rb_replace_node a b s) (avl_node_replace a b (rabs s))"
proof -
  have last: "sim (rupd b (\<lambda>_. v) s) (aupd b (\<lambda>n. n\<lparr>left := rb_left v, right := rb_right v, parent := parent_of v, height := uint (color_of v)\<rparr>) (rabs s))"
    for v s by (rule sim_rupd) (simp add: nabs_def)
  have adopt: "sim (rb_adopt (rb_left v) b s) (set_parent (left (nabs v)) b (rabs s))" "sim (rb_adopt (rb_right v) b s) (set_parent (right (nabs v)) b (rabs s))"
    "sim (rb_change_child a b (parent_of v) s) (avl_child_replace a b (parent (nabs v)) (rabs s))" for v s
    using sim_adopt [OF assms] sim_change_child by simp_all
  show ?thesis unfolding rb_replace_node_def avl_node_replace_def
    by (rule sim_rget, rule sim_bind [OF adopt(3)], rule sim_rget, rule sim_bind [OF adopt(1)], rule sim_rget, rule sim_bind [OF adopt(2)],
        rule sim_rget, unfold nabs_simps, rule last)
qed

lemma replace_view:
  assumes v: "rb_view s (ys @ x # zs)" and b: "b \<noteq> 0" "b \<notin> set (ys @ x # zs)" "rget b s \<noteq> None" "aligned4 b"
  shows "\<exists>s'. rb_replace_node x b s = Some s' \<and> rb_view s' (ys @ b # zs) \<and> outside (insert b (set (ys @ x # zs))) s s'"
proof -
  obtain l k r c where c: "rrep s (Bin l x k r) c" "rb_ok (plug (Bin l x k r) c)" "col (plug (Bin l x k r) c) = 1"
    "before c @ inord l = ys" "inord r @ after c = zs" by (rule rb_focus [OF v])
  have i: "inord (plug (Bin l y k r) c) = ys @ y # zs" for y unfolding c(4,5) [symmetric] by (simp add: inord_plug)
  have z: "zrep (rabs s) (Bin l x k r) c" using c(1) by (simp add: rrep_def)
  have bn: "anodes (rabs s) b \<noteq> None" using b(3) by (auto simp: rget_def)
  obtain t where t: "avl_node_replace x b (rabs s) = Some t" "zrep t (Bin l b k r) c" "elsewhere (rabs s) (insert b (set (ys @ x # zs))) t"
    using replace_rep [OF z b(1)] b(2) bn unfolding i by blast
  obtain s' where s': "rb_replace_node x b s = Some s'" "rabs s' = t" using sim_Some sim_replace [OF b(4)] t(1) by metis
  have "rrep s' (Bin l b k r) c" using t(2) s'(2) rb_ends(5) [OF v] b(4) unfolding rrep_def i by auto
  then have "rb_view s' (ys @ b # zs)"
    unfolding rb_view_def using rrep_top c(2,3) rb_ok_rename [of l x k r c b] i by (intro exI [of _ "plug (Bin l b k r) c"]) auto
  then show ?thesis using s' t(3) by (auto simp: outside_def)
qed

subsection \<open>Depth\<close>

text \<open>The number of nodes on the way from a node to the root.\<close>

partial_function (option) rb_level :: "u64 \<Rightarrow> rb \<Rightarrow> nat option" where
  "rb_level x s = (if x = 0 then Some 0 else do { p \<leftarrow> rb_parent x s; n \<leftarrow> rb_level p s; Some (Suc n) })"

lemma level_rep: "rrep s (Bin l a k r) c \<Longrightarrow> rb_level a s = Some (Suc (length c))"
proof (induction c arbitrary: l a k r)
  case Nil
  then show ?case using rrep_node(2,4) [OF Nil] by (subst rb_level.simps) (simp add: rb_level.simps [of 0])
next
  case (Cons f c)
  obtain l' b j r' where b: "fill f (Bin l a k r) = Bin l' b j r'" "up (f # c) = b" by (rule fill_Bin)
  then have "rrep s (Bin l' b j r') c" using Cons.prems by (simp add: rrep_fill)
  from Cons.IH [OF this] show ?case using rrep_node(2,4) [OF Cons.prems] b(2) by (subst rb_level.simps) simp
qed

lemma depth_plug: "length c + depth t \<le> depth (plug t c)"
proof (induction c arbitrary: t)
  case (Cons f c)
  have "Suc (depth t) \<le> depth (fill f t)" by (cases f) auto
  then show ?case using Cons [of "fill f t"] by simp
qed simp

lemma level_bound:
  assumes "rb_view s (ys @ x # zs)"
  shows "\<exists>n. rb_level x s = Some n \<and> 2 ^ n \<le> (Suc (length (ys @ x # zs)))\<^sup>2"
proof -
  obtain l k r c where c: "rrep s (Bin l x k r) c" "rb_ok (plug (Bin l x k r) c)" "col (plug (Bin l x k r) c) = 1"
    "before c @ inord l = ys" "inord r @ after c = zs" by (rule rb_focus [OF assms])
  have i: "length (inord (plug (Bin l x k r) c)) = length (ys @ x # zs)" unfolding c(4,5) [symmetric] by (simp add: inord_plug)
  have "Suc (length c) \<le> depth (plug (Bin l x k r) c)" using depth_plug [of c "Bin l x k r"] by simp
  then have "(2::nat) ^ Suc (length c) \<le> 2 ^ depth (plug (Bin l x k r) c)" by (rule pow2_mono_nat)
  also have "\<dots> \<le> (Suc (length (ys @ x # zs)))\<^sup>2" using rb_depth_log [OF c(2,3)] unfolding i .
  finally show ?thesis using level_rep [OF c(1)] by blast
qed

subsection \<open>Augmented trees\<close>

text \<open>
  The nodes for which \<^verbatim>\<open>rb_augment_path\<close> calls the callback: the node, its sibling, and so on up to the root. A left child
  without a sibling is called twice.
\<close>

fun augment_calls :: "u64 \<Rightarrow> frame list \<Rightarrow> u64 list" where
  "augment_calls n [] = [n]"
| "augment_calls n (InLeft a k r # c) = n # (if r = Tip then n else ptr r) # augment_calls a c"
| "augment_calls n (InRight l a k # c) = n # (if l = Tip then [] else [ptr l]) @ augment_calls a c"

fun run_all :: "'d rb_augment_f \<Rightarrow> rb \<Rightarrow> u64 list \<Rightarrow> 'd \<Rightarrow> 'd option" where
  "run_all func s [] d = Some d"
| "run_all func s (x # xs) d = do { d \<leftarrow> func x s d; run_all func s xs d }"

lemma augment_path_rep:
  assumes "rrep s (Bin l a k r) c"
  shows "rb_augment_path func a s d = run_all func s (augment_calls a c) d"
  using assms
proof (induction c arbitrary: l a k r d)
  case Nil
  then show ?case using rrep_node(4) [OF Nil] by (subst rb_augment_path.simps) (simp cong: bind_option_cong)
next
  case (Cons f c)
  note N = rrep_node(2,4) [OF Cons.prems]
  show ?case
  proof (cases f)
    case (InLeft b j q)
    then have z: "rrep s (Bin (Bin l a k r) b j q) c" using Cons.prems by (simp add: rrep_fill)
    have "ptr q = 0 \<longleftrightarrow> q = Tip" using rrep_ptr_0 [of s q "InRight (Bin l a k r) b j # c"] z by (simp add: rrep_fill)
    moreover obtain n where "rget b s = Some n" "rb_left n = a" "rb_right n = ptr q" using rrep_node(1) [OF z] by auto
    ultimately show ?thesis using N rrep_node(2) [OF z] Cons.IH [OF z] unfolding InLeft by (subst rb_augment_path.simps) (simp cong: bind_option_cong)
  next
    case (InRight q b j)
    then have z: "rrep s (Bin q b j (Bin l a k r)) c" using Cons.prems by (simp add: rrep_fill)
    have "ptr q = 0 \<longleftrightarrow> q = Tip" using rrep_ptr_0 [of s q "InLeft b j (Bin l a k r) # c"] z by (simp add: rrep_fill)
    moreover have "ptr q \<noteq> a" using rrep_distinct [OF z] N(1) by (intro ptr_other) auto
    moreover obtain n where "rget b s = Some n" "rb_left n = ptr q" "rb_right n = a" using rrep_node(1) [OF z] by auto
    ultimately show ?thesis using N rrep_node(2) [OF z] Cons.IH [OF z] unfolding InRight by (subst rb_augment_path.simps) (auto cong: bind_option_cong)
  qed
qed

subsection \<open>Properties of the red-black trees\<close>

text \<open>Two nodes, the first of them the tree.\<close>

definition demo_rb :: rb where
  "demo_rb = \<lparr>rnodes = [0x10 \<mapsto> \<lparr>rb_parent_color = 1, rb_right = 0, rb_left = 0\<rparr>, 0x20 \<mapsto> \<lparr>rb_parent_color = 7, rb_right = 9, rb_left = 9\<rparr>],
     rroot = 0x10\<rparr>"

lemma demo_rb_view: "rb_view demo_rb [0x10]"
proof -
  have "rrep demo_rb (Bin Tip 0x10 1 Tip) []"
    by (simp add: rrep_def zrep_def rabs_def demo_rb_def nabs_def parent_of_def color_of_def aligned4_def)
  then show ?thesis unfolding rb_view_def by (intro exI [of _ "Bin Tip 0x10 1 Tip"]) simp
qed

text \<open>
  C12: \<^verbatim>\<open>rb_link_node\<close> at an empty place followed by \<^verbatim>\<open>rb_insert_color\<close> returns and inserts the node into the sequence of
  the tree at that place. The result is again a red-black tree: \<open>rb_view\<close> says that parent, child and root pointers agree, the
  root is black, no red node has a red child, and all ways down have the same number of black nodes. The links and
  colours of nodes outside the tree are unchanged.
\<close>

theorem rb_insert_correct:
  assumes "rb_view s (xs @ ys)" "rb_gap s xs ys par link" "x \<noteq> 0" "x \<notin> set (xs @ ys)" "rget x s \<noteq> None" "aligned4 x"
  shows "\<exists>s1 s2. rb_link_node x par link s = Some s1 \<and> rb_insert_color x s1 = Some s2 \<and> rb_view s2 (xs @ x # ys) \<and>
    outside (insert x (set (xs @ ys))) s s2"
  using insert_view [OF assms] .

theorem rb_insert_correct_witness:
  "\<exists>s1 s2. rb_link_node 0x20 0x10 (rb_link.RightLink 0x10) demo_rb = Some s1 \<and> rb_insert_color 0x20 s1 = Some s2 \<and> rb_view s2 [0x10, 0x20]"
proof -
  have "rb_gap demo_rb [0x10] [] 0x10 (rb_link.RightLink 0x10)" "rget 0x20 demo_rb \<noteq> None" "aligned4 0x20"
    by (simp_all add: rb_gap_def rget_def demo_rb_def aligned4_def)
  then show ?thesis using rb_insert_correct [of demo_rb "[0x10]" "[]" "0x10" "rb_link.RightLink 0x10" "0x20"] demo_rb_view by auto
qed

text \<open>
  C13: \<^verbatim>\<open>rb_erase\<close> of a node of the tree returns and takes exactly this node out of the sequence, whatever its colour and the
  number of its children. The result is again a red-black tree, and nodes outside the tree are unchanged.
\<close>

theorem rb_erase_correct:
  assumes "rb_view s (xs @ x # ys)"
  shows "\<exists>s'. rb_erase x s = Some s' \<and> rb_view s' (xs @ ys) \<and> outside (insert x (set (xs @ ys))) s s'"
  using erase_view [OF assms] .

theorem rb_erase_correct_witness: "\<exists>s'. rb_erase 0x10 demo_rb = Some s' \<and> rb_view s' []"
  using rb_erase_correct [of demo_rb "[]" "0x10" "[]"] demo_rb_view by auto

text \<open>
  C37: Walking with \<^verbatim>\<open>rb_first\<close> and \<^verbatim>\<open>rb_next\<close> ends and visits the nodes of the tree in order, each once; \<^verbatim>\<open>rb_last\<close> and
  \<^verbatim>\<open>rb_prev\<close> visit them backwards. No node is deeper than twice the logarithm of the number of nodes.
\<close>

theorem rb_walk_correct:
  assumes "rb_view s xs"
  shows "(do { x \<leftarrow> rb_first s; visit rb_next x s }) = Some xs \<and> (do { x \<leftarrow> rb_last s; visit rb_prev x s }) = Some (rev xs) \<and>
    (\<forall>x \<in> set xs. \<exists>n. rb_level x s = Some n \<and> 2 ^ n \<le> (Suc (length xs))\<^sup>2)"
proof (intro conjI ballI)
  show "(do { x \<leftarrow> rb_first s; visit rb_next x s }) = Some xs" "(do { x \<leftarrow> rb_last s; visit rb_prev x s }) = Some (rev xs)"
    using rbw.visit_all [OF assms] by blast+
  fix x assume "x \<in> set xs"
  then obtain ys zs where "xs = ys @ x # zs" by (meson split_list)
  then show "\<exists>n. rb_level x s = Some n \<and> 2 ^ n \<le> (Suc (length xs))\<^sup>2" using level_bound assms by blast
qed

theorem rb_walk_correct_witness: "(do { x \<leftarrow> rb_first demo_rb; visit rb_next x demo_rb }) = Some [0x10]"
  using rb_walk_correct [OF demo_rb_view] by blast

end
