(* ===== verification/Vsnprintf.thy ===== *)
theory Vsnprintf
  imports KString
begin

text \<open>
  Formatted output: \<^verbatim>\<open>lib/string/vsnprintf.c\<close> without its floating-point conversions. Buffer, format and string
  arguments are addresses in one byte memory, so they may overlap. Sizes are 64-bit words, \<^verbatim>\<open>unsigned int\<close> and the flags are
  32-bit words, a \<^verbatim>\<open>char\<close> is unsigned on RISC-V. A \<^verbatim>\<open>va_list\<close> is the list of the 64-bit slots in which the arguments are
  passed. A run that needs an argument that is not there, or comes to a floating-point conversion, or never meets a zero
  byte, has no result.
\<close>

subsection \<open>Flags and output functions\<close>

definition FLAGS_ZEROPAD :: u32 where "FLAGS_ZEROPAD = push_bit 0 1"
definition FLAGS_LEFT :: u32 where "FLAGS_LEFT = push_bit 1 1"
definition FLAGS_PLUS :: u32 where "FLAGS_PLUS = push_bit 2 1"
definition FLAGS_SPACE :: u32 where "FLAGS_SPACE = push_bit 3 1"
definition FLAGS_HASH :: u32 where "FLAGS_HASH = push_bit 4 1"
definition FLAGS_UPPERCASE :: u32 where "FLAGS_UPPERCASE = push_bit 5 1"
definition FLAGS_CHAR :: u32 where "FLAGS_CHAR = push_bit 6 1"
definition FLAGS_SHORT :: u32 where "FLAGS_SHORT = push_bit 7 1"
definition FLAGS_LONG :: u32 where "FLAGS_LONG = push_bit 8 1"
definition FLAGS_LONG_LONG :: u32 where "FLAGS_LONG_LONG = push_bit 9 1"
definition FLAGS_PRECISION :: u32 where "FLAGS_PRECISION = push_bit 10 1"

definition PRINTF_NTOA_BUFFER_SIZE :: nat where "PRINTF_NTOA_BUFFER_SIZE = 32"

text \<open>\<^verbatim>\<open>flags & f\<close> as a condition.\<close>

definition has :: "u32 \<Rightarrow> u32 \<Rightarrow> bool" where
  "has flags f \<longleftrightarrow> flags AND f \<noteq> 0"

text \<open>\<^verbatim>\<open>out(character, buffer, idx, maxlen)\<close>.\<close>

type_synonym out_fct = "u8 \<Rightarrow> u64 \<Rightarrow> u64 \<Rightarrow> u64 \<Rightarrow> memory \<Rightarrow> memory"

definition out_buffer :: out_fct where
  "out_buffer character buffer idx maxlen m = (if idx < maxlen then m(buffer + idx := character) else m)"

definition out_null :: out_fct where
  "out_null character buffer idx maxlen m = m"

subsection \<open>Helpers\<close>

fun strnlen_s_loop :: "memory \<Rightarrow> u64 \<Rightarrow> nat \<Rightarrow> nat" where
  "strnlen_s_loop m s 0 = 0"
| "strnlen_s_loop m s (Suc maxsize) = (if m s \<noteq> 0 then Suc (strnlen_s_loop m (s + 1) maxsize) else 0)"

definition strnlen_s :: "memory \<Rightarrow> u64 \<Rightarrow> u64 \<Rightarrow> u32" where
  "strnlen_s m str maxsize = word_of_nat (strnlen_s_loop m str (unat maxsize))"

definition is_digit :: "u8 \<Rightarrow> bool" where
  "is_digit ch \<longleftrightarrow> 48 \<le> ch \<and> ch \<le> 57"

text \<open>The number and the position behind it.\<close>

partial_function (option) atoi_loop :: "memory \<Rightarrow> u64 \<Rightarrow> u32 \<Rightarrow> (u32 \<times> u64) option" where
  "atoi_loop m str i = (if is_digit (m str) then atoi_loop m (str + 1) (i * 10 + (ucast (m str) - 48)) else Some (i, str))"

definition atoi :: "memory \<Rightarrow> u64 \<Rightarrow> (u32 \<times> u64) option" where
  "atoi m str = atoi_loop m str 0"

lemma unat_next:
  fixes i w :: "'a :: len word"
  assumes "i < w"
  shows "unat (i + 1) = Suc (unat i) \<and> unat i < unat w"
proof -
  have lt: "unat i < unat w" using assms by (simp add: word_less_nat_alt)
  have "unat w < 2 ^ LENGTH('a)" by (rule unsigned_less)
  with lt have "Suc (unat i) < 2 ^ LENGTH('a)" by linarith
  then show ?thesis using lt by (simp add: unat_word_ariths)
qed

text \<open>\<^verbatim>\<open>for (i = len; i < width; i++) out(' ', buffer, idx++, maxlen)\<close>.\<close>

function pad_from :: "out_fct \<Rightarrow> u64 \<Rightarrow> u64 \<Rightarrow> u64 \<Rightarrow> u64 \<Rightarrow> u64 \<Rightarrow> memory \<Rightarrow> u64 \<times> memory" where
  "pad_from out i width buffer idx maxlen m =
     (if i < width then pad_from out (i + 1) width buffer (idx + 1) maxlen (out 32 buffer idx maxlen m) else (idx, m))"
  by pat_completeness auto
termination
  by (relation "measure (\<lambda>(out, i, width, buffer, idx, maxlen, m). unat width - unat i)") (auto dest: unat_next)

text \<open>\<^verbatim>\<open>while (len) out(buf[--len], buffer, idx++, maxlen)\<close>, on the first \<open>len\<close> bytes of \<^verbatim>\<open>buf\<close>, last byte first.\<close>

fun out_all :: "out_fct \<Rightarrow> u8 list \<Rightarrow> u64 \<Rightarrow> u64 \<Rightarrow> u64 \<Rightarrow> memory \<Rightarrow> u64 \<times> memory" where
  "out_all out [] buffer idx maxlen m = (idx, m)"
| "out_all out (c # cs) buffer idx maxlen m = out_all out cs buffer (idx + 1) maxlen (out c buffer idx maxlen m)"

text \<open>\<^verbatim>\<open>while (idx - start_idx < width) out(' ', buffer, idx++, maxlen)\<close>.\<close>

function pad_to :: "out_fct \<Rightarrow> u64 \<Rightarrow> u64 \<Rightarrow> u64 \<Rightarrow> u64 \<Rightarrow> u64 \<Rightarrow> memory \<Rightarrow> u64 \<times> memory" where
  "pad_to out start_idx width buffer idx maxlen m =
     (if idx - start_idx < width then pad_to out start_idx width buffer (idx + 1) maxlen (out 32 buffer idx maxlen m) else (idx, m))"
  by pat_completeness auto
termination
proof (relation "measure (\<lambda>(out, start_idx, width, buffer, idx, maxlen, m). unat width - unat (idx - start_idx))")
  fix out :: out_fct and start_idx width buffer idx maxlen :: u64 and m
  assume "idx - start_idx < width"
  from unat_next [OF this] show "((out, start_idx, width, buffer, idx + 1, maxlen, out 32 buffer idx maxlen m),
      (out, start_idx, width, buffer, idx, maxlen, m)) \<in> measure (\<lambda>(out, start_idx, width, buffer, idx, maxlen, m). unat width - unat (idx - start_idx))"
    by (auto simp: algebra_simps)
qed simp

subsection \<open>Numbers\<close>

text \<open>\<^verbatim>\<open>buf\<close> and \<^verbatim>\<open>len\<close> are one list: the first \<open>len\<close> bytes of the array.\<close>

definition out_rev :: "out_fct \<Rightarrow> u64 \<Rightarrow> u64 \<Rightarrow> u64 \<Rightarrow> u8 list \<Rightarrow> u32 \<Rightarrow> u32 \<Rightarrow> memory \<Rightarrow> u64 \<times> memory" where
  "out_rev out buffer idx maxlen buf width flags m =
     (let start_idx = idx;
          (idx, m) = (if \<not> has flags FLAGS_LEFT \<and> \<not> has flags FLAGS_ZEROPAD
            then pad_from out (word_of_nat (length buf)) (ucast width) buffer idx maxlen m else (idx, m));
          (idx, m) = out_all out (rev buf) buffer idx maxlen m
      in if has flags FLAGS_LEFT then pad_to out start_idx (ucast width) buffer idx maxlen m else (idx, m))"

text \<open>\<^verbatim>\<open>while ((len < bound) && (len < PRINTF_NTOA_BUFFER_SIZE)) buf[len++] = '0'\<close>.\<close>

function zero_fill :: "u8 list \<Rightarrow> u32 \<Rightarrow> u8 list" where
  "zero_fill buf bound =
     (if length buf < unat bound \<and> length buf < PRINTF_NTOA_BUFFER_SIZE then zero_fill (buf @ [48]) bound else buf)"
  by pat_completeness auto
termination by (relation "measure (\<lambda>(buf, bound). PRINTF_NTOA_BUFFER_SIZE - length buf)") auto

text \<open>\<^verbatim>\<open>if (len < PRINTF_NTOA_BUFFER_SIZE) buf[len++] = c\<close>.\<close>

definition push :: "u8 \<Rightarrow> u8 list \<Rightarrow> u8 list" where
  "push c buf = (if length buf < PRINTF_NTOA_BUFFER_SIZE then buf @ [c] else buf)"

definition ntoa_hash :: "u8 list \<Rightarrow> u32 \<Rightarrow> u32 \<Rightarrow> u32 \<Rightarrow> u32 \<Rightarrow> u8 list" where
  "ntoa_hash buf base prec width flags =
     (let buf = (if \<not> has flags FLAGS_PRECISION \<and> buf \<noteq> [] \<and> (length buf = unat prec \<or> length buf = unat width)
            then (let buf = butlast buf in if buf \<noteq> [] \<and> base = 16 then butlast buf else buf) else buf);
          buf = (if base = 16 \<and> \<not> has flags FLAGS_UPPERCASE \<and> length buf < PRINTF_NTOA_BUFFER_SIZE then buf @ [0x78]
            else if base = 16 \<and> has flags FLAGS_UPPERCASE \<and> length buf < PRINTF_NTOA_BUFFER_SIZE then buf @ [0x58]
            else if base = 2 \<and> length buf < PRINTF_NTOA_BUFFER_SIZE then buf @ [0x62] else buf)
      in push 48 buf)"

definition ntoa_sign :: "bool \<Rightarrow> u32 \<Rightarrow> u8 list \<Rightarrow> u8 list" where
  "ntoa_sign negative flags buf =
     (if length buf < PRINTF_NTOA_BUFFER_SIZE
      then (if negative then buf @ [0x2D] else if has flags FLAGS_PLUS then buf @ [0x2B]
        else if has flags FLAGS_SPACE then buf @ [32] else buf)
      else buf)"

definition ntoa_format :: "out_fct \<Rightarrow> u64 \<Rightarrow> u64 \<Rightarrow> u64 \<Rightarrow> u8 list \<Rightarrow> bool \<Rightarrow> u32 \<Rightarrow> u32 \<Rightarrow> u32 \<Rightarrow> u32 \<Rightarrow> memory \<Rightarrow> u64 \<times> memory" where
  "ntoa_format out buffer idx maxlen buf negative base prec width flags m =
     (let (buf, width) = (if \<not> has flags FLAGS_LEFT
            then (let width = (if width \<noteq> 0 \<and> has flags FLAGS_ZEROPAD \<and> (negative \<or> has flags (FLAGS_PLUS OR FLAGS_SPACE)) then width - 1 else width);
                      buf = zero_fill buf prec
                  in (if has flags FLAGS_ZEROPAD then zero_fill buf width else buf, width))
            else (buf, width));
          buf = (if has flags FLAGS_HASH then ntoa_hash buf base prec width flags else buf)
      in out_rev out buffer idx maxlen (ntoa_sign negative flags buf) width flags m)"

function digits_loop :: "u64 \<Rightarrow> u64 \<Rightarrow> u32 \<Rightarrow> u8 list \<Rightarrow> u8 list" where
  "digits_loop value base flags buf =
     (let digit = ucast (value mod base) :: u8;
          buf' = buf @ [if digit < 10 then 48 + digit else (if has flags FLAGS_UPPERCASE then 0x41 else 0x61) + digit - 10];
          value = value div base
      in if value \<noteq> 0 \<and> length buf' < PRINTF_NTOA_BUFFER_SIZE then digits_loop value base flags buf' else buf')"
  by pat_completeness auto
termination by (relation "measure (\<lambda>(value, base, flags, buf). PRINTF_NTOA_BUFFER_SIZE - length buf)") auto

definition ntoa_long :: "out_fct \<Rightarrow> u64 \<Rightarrow> u64 \<Rightarrow> u64 \<Rightarrow> u64 \<Rightarrow> bool \<Rightarrow> u64 \<Rightarrow> u32 \<Rightarrow> u32 \<Rightarrow> u32 \<Rightarrow> memory \<Rightarrow> u64 \<times> memory" where
  "ntoa_long out buffer idx maxlen value negative base prec width flags m =
     (let flags = (if value = 0 then flags AND NOT FLAGS_HASH else flags);
          buf = (if \<not> has flags FLAGS_PRECISION \<or> value \<noteq> 0 then digits_loop value base flags [] else [])
      in ntoa_format out buffer idx maxlen buf negative (ucast base) prec width flags m)"

definition ntoa_long_long :: "out_fct \<Rightarrow> u64 \<Rightarrow> u64 \<Rightarrow> u64 \<Rightarrow> u64 \<Rightarrow> bool \<Rightarrow> u64 \<Rightarrow> u32 \<Rightarrow> u32 \<Rightarrow> u32 \<Rightarrow> memory \<Rightarrow> u64 \<times> memory" where
  "ntoa_long_long out buffer idx maxlen value negative base prec width flags m =
     (let flags = (if value = 0 then flags AND NOT FLAGS_HASH else flags);
          buf = (if \<not> has flags FLAGS_PRECISION \<or> value \<noteq> 0 then digits_loop value base flags [] else [])
      in ntoa_format out buffer idx maxlen buf negative (ucast base) prec width flags m)"

subsection \<open>Parsing a conversion\<close>

definition va_next :: "u64 list \<Rightarrow> (u64 \<times> u64 list) option" where
  "va_next va = (case va of [] \<Rightarrow> None | x # va \<Rightarrow> Some (x, va))"

partial_function (option) flags_loop :: "memory \<Rightarrow> u64 \<Rightarrow> u32 \<Rightarrow> (u32 \<times> u64) option" where
  "flags_loop m format flags =
     (if m format = 0x30 then flags_loop m (format + 1) (flags OR FLAGS_ZEROPAD)
      else if m format = 0x2D then flags_loop m (format + 1) (flags OR FLAGS_LEFT)
      else if m format = 0x2B then flags_loop m (format + 1) (flags OR FLAGS_PLUS)
      else if m format = 0x20 then flags_loop m (format + 1) (flags OR FLAGS_SPACE)
      else if m format = 0x23 then flags_loop m (format + 1) (flags OR FLAGS_HASH)
      else Some (flags, format))"

definition width_field :: "memory \<Rightarrow> u64 \<Rightarrow> u32 \<Rightarrow> u64 list \<Rightarrow> (u32 \<times> u32 \<times> u64 \<times> u64 list) option" where
  "width_field m format flags va =
     (if is_digit (m format) then do { (width, format) \<leftarrow> atoi m format; Some (width, flags, format, va) }
      else if m format = 0x2A then do {
        (x, va) \<leftarrow> va_next va;
        let w = (ucast x :: u32);
        (if w <s 0 then Some (- w, flags OR FLAGS_LEFT, format + 1, va) else Some (w, flags, format + 1, va)) }
      else Some (0, flags, format, va))"

definition precision_field :: "memory \<Rightarrow> u64 \<Rightarrow> u32 \<Rightarrow> u64 list \<Rightarrow> (u32 \<times> u32 \<times> u64 \<times> u64 list) option" where
  "precision_field m format flags va =
     (if m format = 0x2E then do {
        let flags = flags OR FLAGS_PRECISION;
        let format = format + 1;
        (if is_digit (m format) then do { (precision, format) \<leftarrow> atoi m format; Some (precision, flags, format, va) }
        else if m format = 0x2A then do {
          (x, va) \<leftarrow> va_next va;
          let prec = (ucast x :: u32);
          Some (if 0 <s prec then prec else 0, flags, format + 1, va) }
        else Some (0, flags, format, va)) }
      else Some (0, flags, format, va))"

definition length_field :: "memory \<Rightarrow> u64 \<Rightarrow> u32 \<Rightarrow> u32 \<times> u64" where
  "length_field m format flags =
     (if m format = 0x6C then
        (if m (format + 1) = 0x6C then (flags OR FLAGS_LONG OR FLAGS_LONG_LONG, format + 2) else (flags OR FLAGS_LONG, format + 1))
      else if m format = 0x68 then
        (if m (format + 1) = 0x68 then (flags OR FLAGS_SHORT OR FLAGS_CHAR, format + 2) else (flags OR FLAGS_SHORT, format + 1))
      else if m format = 0x74 \<or> m format = 0x6A \<or> m format = 0x7A then (flags OR FLAGS_LONG, format + 1)
      else (flags, format))"

subsection \<open>Conversions\<close>

text \<open>The flags and the base of an integer conversion \<^verbatim>\<open>c\<close>.\<close>

definition int_base :: "u8 \<Rightarrow> u32" where
  "int_base c = (if c = 0x78 \<or> c = 0x58 then 16 else if c = 0x6F then 8 else if c = 0x62 then 2 else 10)"

definition int_flags :: "u8 \<Rightarrow> u32 \<Rightarrow> u32" where
  "int_flags c flags =
     (let flags = (if c = 0x78 \<or> c = 0x58 \<or> c = 0x6F \<or> c = 0x62 then flags else flags AND NOT FLAGS_HASH);
          flags = (if c = 0x58 then flags OR FLAGS_UPPERCASE else flags);
          flags = (if c \<noteq> 0x69 \<and> c \<noteq> 0x64 then flags AND NOT (FLAGS_PLUS OR FLAGS_SPACE) else flags)
      in if has flags FLAGS_PRECISION then flags AND NOT FLAGS_ZEROPAD else flags)"

text \<open>The value of the narrow argument types: \<^verbatim>\<open>(char)\<close> keeps eight bits without sign, \<^verbatim>\<open>(short int)\<close> sixteen with sign.\<close>

definition signed_arg :: "u32 \<Rightarrow> u64 \<Rightarrow> u32" where
  "signed_arg flags x =
     (if has flags FLAGS_CHAR then ucast (ucast x :: u8) else if has flags FLAGS_SHORT then scast (ucast x :: u16) else ucast x)"

definition unsigned_arg :: "u32 \<Rightarrow> u64 \<Rightarrow> u32" where
  "unsigned_arg flags x =
     (if has flags FLAGS_CHAR then ucast (ucast x :: u8) else if has flags FLAGS_SHORT then ucast (ucast x :: u16) else ucast x)"

definition conv_int :: "out_fct \<Rightarrow> u64 \<Rightarrow> u64 \<Rightarrow> u64 \<Rightarrow> u8 \<Rightarrow> u64 \<Rightarrow> u32 \<Rightarrow> u32 \<Rightarrow> u32 \<Rightarrow> memory \<Rightarrow> u64 \<times> memory" where
  "conv_int out buffer idx maxlen c x precision width flags m =
     (let base = ucast (int_base c) :: u64; flags = int_flags c flags in
      if c = 0x69 \<or> c = 0x64 then
        (if has flags FLAGS_LONG_LONG then
           ntoa_long_long out buffer idx maxlen (if 0 <s x then x else 0 - x) (x <s 0) base precision width flags m
         else if has flags FLAGS_LONG then
           ntoa_long out buffer idx maxlen (if 0 <s x then x else 0 - x) (x <s 0) base precision width flags m
         else let value = signed_arg flags x in
           ntoa_long out buffer idx maxlen (ucast (if 0 <s value then value else 0 - value)) (value <s 0) base precision width flags m)
      else if has flags FLAGS_LONG_LONG then ntoa_long_long out buffer idx maxlen x False base precision width flags m
      else if has flags FLAGS_LONG then ntoa_long out buffer idx maxlen x False base precision width flags m
      else ntoa_long out buffer idx maxlen (ucast (unsigned_arg flags x)) False base precision width flags m)"

text \<open>
  \<^verbatim>\<open>while (l++ < width) out(' ', ...)\<close> is the loop \<open>pad_from\<close> from \<^verbatim>\<open>l\<close>: only one of the two loops of a
  conversion runs, so the counter is not read behind it.
\<close>

definition conv_char :: "out_fct \<Rightarrow> u64 \<Rightarrow> u64 \<Rightarrow> u64 \<Rightarrow> u64 \<Rightarrow> u32 \<Rightarrow> u32 \<Rightarrow> memory \<Rightarrow> u64 \<times> memory" where
  "conv_char out buffer idx maxlen x width flags m =
     (let l = 1 :: u32;
          (idx, m) = (if \<not> has flags FLAGS_LEFT then pad_from out (ucast l) (ucast width) buffer idx maxlen m else (idx, m));
          (idx, m) = (idx + 1, out (ucast x) buffer idx maxlen m)
      in if has flags FLAGS_LEFT then pad_from out (ucast l) (ucast width) buffer idx maxlen m else (idx, m))"

partial_function (option) str_loop :: "out_fct \<Rightarrow> u64 \<Rightarrow> u64 \<Rightarrow> u64 \<Rightarrow> u32 \<Rightarrow> u32 \<Rightarrow> u64 \<Rightarrow> memory \<Rightarrow> (u64 \<times> memory) option" where
  "str_loop out buffer maxlen p precision flags idx m =
     (if m p \<noteq> 0 \<and> (\<not> has flags FLAGS_PRECISION \<or> precision \<noteq> 0)
      then str_loop out buffer maxlen (p + 1) (if has flags FLAGS_PRECISION then precision - 1 else precision) flags
             (idx + 1) (out (m p) buffer idx maxlen m)
      else Some (idx, m))"

definition conv_str :: "out_fct \<Rightarrow> u64 \<Rightarrow> u64 \<Rightarrow> u64 \<Rightarrow> u64 \<Rightarrow> u32 \<Rightarrow> u32 \<Rightarrow> u32 \<Rightarrow> memory \<Rightarrow> (u64 \<times> memory) option" where
  "conv_str out buffer idx maxlen p precision width flags m = do {
     let l = strnlen_s m p (if precision \<noteq> 0 then ucast precision else - 1);
     let l = (if has flags FLAGS_PRECISION then (if l < precision then l else precision) else l);
     let (idx, m) = (if \<not> has flags FLAGS_LEFT then pad_from out (ucast l) (ucast width) buffer idx maxlen m else (idx, m));
     (idx, m) \<leftarrow> str_loop out buffer maxlen p precision flags idx m;
     Some (if has flags FLAGS_LEFT then pad_from out (ucast l) (ucast width) buffer idx maxlen m else (idx, m)) }"

definition conv_ptr :: "out_fct \<Rightarrow> u64 \<Rightarrow> u64 \<Rightarrow> u64 \<Rightarrow> u64 \<Rightarrow> u32 \<Rightarrow> u32 \<Rightarrow> memory \<Rightarrow> u64 \<times> memory" where
  "conv_ptr out buffer idx maxlen x precision flags m =
     ntoa_long_long out buffer idx maxlen x False 16 precision (8 * 2) (flags OR (FLAGS_ZEROPAD OR FLAGS_UPPERCASE)) m"

text \<open>The \<^verbatim>\<open>switch\<close> on the specifier \<^verbatim>\<open>c\<close>. The floating-point conversions f F e E g G have no result here.\<close>

definition specifier :: "out_fct \<Rightarrow> u64 \<Rightarrow> u64 \<Rightarrow> u64 \<Rightarrow> u8 \<Rightarrow> u32 \<Rightarrow> u32 \<Rightarrow> u32 \<Rightarrow> u64 list \<Rightarrow> memory \<Rightarrow> (u64 \<times> u64 list \<times> memory) option" where
  "specifier out buffer idx maxlen c precision width flags va m =
     (if c \<in> {0x64, 0x69, 0x75, 0x78, 0x58, 0x6F, 0x62} then do {
        (x, va) \<leftarrow> va_next va;
        let (idx, m) = conv_int out buffer idx maxlen c x precision width flags m;
        Some (idx, va, m) }
      else if c \<in> {0x66, 0x46, 0x65, 0x45, 0x67, 0x47} then None
      else if c = 0x63 then do {
        (x, va) \<leftarrow> va_next va;
        let (idx, m) = conv_char out buffer idx maxlen x width flags m;
        Some (idx, va, m) }
      else if c = 0x73 then do {
        (p, va) \<leftarrow> va_next va;
        (idx, m) \<leftarrow> conv_str out buffer idx maxlen p precision width flags m;
        Some (idx, va, m) }
      else if c = 0x70 then do {
        (x, va) \<leftarrow> va_next va;
        let (idx, m) = conv_ptr out buffer idx maxlen x precision flags m;
        Some (idx, va, m) }
      else if c = 0x25 then Some (idx + 1, va, out 0x25 buffer idx maxlen m)
      else Some (idx + 1, va, out c buffer idx maxlen m))"

subsection \<open>The formatter\<close>

text \<open>One conversion, from the byte behind the percent sign; the new position is behind its specifier.\<close>

definition conversion :: "out_fct \<Rightarrow> u64 \<Rightarrow> u64 \<Rightarrow> u64 \<Rightarrow> u64 list \<Rightarrow> u64 \<Rightarrow> memory \<Rightarrow> (u64 \<times> u64 list \<times> u64 \<times> memory) option" where
  "conversion out buffer maxlen format va idx m = do {
     (flags, format) \<leftarrow> flags_loop m format 0;
     (width, flags, format, va) \<leftarrow> width_field m format flags va;
     (precision, flags, format, va) \<leftarrow> precision_field m format flags va;
     let (flags, format) = length_field m format flags;
     (idx, va, m) \<leftarrow> specifier out buffer idx maxlen (m format) precision width flags va m;
     Some (format + 1, va, idx, m) }"

partial_function (option) vsnprintf_loop :: "out_fct \<Rightarrow> u64 \<Rightarrow> u64 \<Rightarrow> u64 \<Rightarrow> u64 list \<Rightarrow> u64 \<Rightarrow> memory \<Rightarrow> (u64 \<times> memory) option" where
  "vsnprintf_loop out buffer maxlen format va idx m =
     (if m format = 0 then Some (idx, m)
      else if m format \<noteq> 0x25 then vsnprintf_loop out buffer maxlen (format + 1) va (idx + 1) (out (m format) buffer idx maxlen m)
      else do {
        (format, va, idx, m) \<leftarrow> conversion out buffer maxlen (format + 1) va idx m;
        vsnprintf_loop out buffer maxlen format va idx m })"

definition int_vsnprintf :: "out_fct \<Rightarrow> u64 \<Rightarrow> u64 \<Rightarrow> u64 \<Rightarrow> u64 list \<Rightarrow> memory \<Rightarrow> (u32 \<times> memory) option" where
  "int_vsnprintf out buffer maxlen format va m = do {
     let out = (if buffer = 0 then out_null else out);
     (idx, m) \<leftarrow> vsnprintf_loop out buffer maxlen format va 0 m;
     Some (ucast idx, out 0 buffer (if idx < maxlen then idx else maxlen - 1) maxlen m) }"

definition vsnprintf :: "u64 \<Rightarrow> u64 \<Rightarrow> u64 \<Rightarrow> u64 list \<Rightarrow> memory \<Rightarrow> (u32 \<times> memory) option" where
  "vsnprintf buffer count format va m = int_vsnprintf out_buffer buffer count format va m"

definition snprintf :: "u64 \<Rightarrow> u64 \<Rightarrow> u64 \<Rightarrow> u64 list \<Rightarrow> memory \<Rightarrow> (u32 \<times> memory) option" where
  "snprintf buffer count format va m = int_vsnprintf out_buffer buffer count format va m"

definition sprintf :: "u64 \<Rightarrow> u64 \<Rightarrow> u64 list \<Rightarrow> memory \<Rightarrow> (u32 \<times> memory) option" where
  "sprintf buffer format va m = int_vsnprintf out_buffer buffer (- 1) format va m"

definition vsprintf :: "u64 \<Rightarrow> u64 \<Rightarrow> u64 list \<Rightarrow> memory \<Rightarrow> (u32 \<times> memory) option" where
  "vsprintf buf fmt args m = vsnprintf buf (- 1) fmt args m"

subsection \<open>Console output\<close>

text \<open>
  \<^verbatim>\<open>kernel/printf.c\<close>. The bytes given to \<^verbatim>\<open>putchar\<close> are a list; the array of \<^verbatim>\<open>printf\<close> on the stack is at the address
  \<open>buffer\<close>.
\<close>

definition puts :: "u64 \<Rightarrow> memory \<Rightarrow> (u32 \<times> u8 list) option" where
  "puts str m = do {
     l \<leftarrow> strlen m str;
     let len = (ucast l :: u32);
     Some (len + 1, map (\<lambda>i. m (str + word_of_nat i)) [0..<nat (sint len)] @ [10]) }"

definition printf :: "u64 \<Rightarrow> u64 \<Rightarrow> u64 list \<Rightarrow> memory \<Rightarrow> (u32 \<times> u8 list \<times> memory) option" where
  "printf buffer format arg m = do {
     (done, m) \<leftarrow> vsnprintf buffer 512 format arg m;
     l \<leftarrow> strlen m buffer;
     let len = (ucast l :: u32);
     Some (done, map (\<lambda>i. m (buffer + word_of_nat i)) [0..<nat (sint len)], m) }"

declare strnlen_s_loop.simps [simp del] pad_from.simps [simp del] pad_to.simps [simp del] zero_fill.simps [simp del]
  digits_loop.simps [simp del]

end
