(* ===== verification/VsnprintfText.thy ===== *)
theory VsnprintfText
  imports VsnprintfProps
begin

text \<open>
  Which text the formatter prints. \<open>numeric\<close> writes a number in a base the obvious way, and a \<open>piece\<close> is a part of a
  format (a literal byte or one of the plain conversions) with its argument and its text. A format that is a sequence
  of pieces prints the texts one after the other, cut to the size of the buffer.
\<close>

subsection \<open>Numbers\<close>

definition digit_char :: "nat \<Rightarrow> u8" where
  "digit_char d = word_of_nat (if d < 10 then 48 + d else 87 + d)"

function numeric :: "nat \<Rightarrow> nat \<Rightarrow> u8 list" where
  "numeric b n = (if n < b \<or> b < 2 then [digit_char n] else numeric b (n div b) @ [digit_char (n mod b)])"
  by pat_completeness auto
termination by (relation "measure snd") auto

declare numeric.simps [simp del]

lemma has_flags [simp]:
  "\<not> has 0 f" "has FLAGS_LONG FLAGS_LONG"
  "\<not> has FLAGS_LONG FLAGS_LONG_LONG" "\<not> has FLAGS_LONG FLAGS_LEFT" "\<not> has FLAGS_LONG FLAGS_ZEROPAD"
  "\<not> has FLAGS_LONG FLAGS_HASH" "\<not> has FLAGS_LONG FLAGS_PLUS" "\<not> has FLAGS_LONG FLAGS_SPACE"
  "\<not> has FLAGS_LONG FLAGS_PRECISION" "\<not> has FLAGS_LONG FLAGS_UPPERCASE"
  by (simp_all add: has_def FLAGS_LONG_def FLAGS_LONG_LONG_def FLAGS_LEFT_def FLAGS_ZEROPAD_def FLAGS_HASH_def
      FLAGS_PLUS_def FLAGS_SPACE_def FLAGS_PRECISION_def FLAGS_UPPERCASE_def)

lemma flags_and_not [simp]:
  "FLAGS_LONG AND NOT FLAGS_HASH = FLAGS_LONG" "FLAGS_LONG AND NOT FLAGS_PLUS AND NOT FLAGS_SPACE = FLAGS_LONG"
  by (simp_all add: FLAGS_LONG_def FLAGS_HASH_def FLAGS_PLUS_def FLAGS_SPACE_def)

lemma digit_byte:
  assumes "v mod b < 16" "\<not> has flags FLAGS_UPPERCASE"
  shows "(let digit = ucast (v mod b :: u64) :: u8 in
      if digit < 10 then 48 + digit else (if has flags FLAGS_UPPERCASE then 0x41 else 0x61) + digit - 10) = digit_char (unat (v mod b))"
proof -
  define d where "d = unat (v mod b)"
  have d: "d < 16" using assms(1) by (simp add: d_def word_less_nat_alt)
  have e: "ucast (v mod b) = (word_of_nat d :: u8)" by (simp add: d_def)
  have "word_of_nat d < (10 :: u8) \<longleftrightarrow> d < 10" using d by (simp add: word_less_nat_alt unat_of_nat)
  then show ?thesis using assms(2) unfolding e d_def [symmetric] digit_char_def Let_def by simp
qed

lemma digits_loop_step:
  assumes "0 < unat b" "unat b \<le> 16" "\<not> has flags FLAGS_UPPERCASE"
  shows "digits_loop v b flags buf =
    (let buf' = buf @ [digit_char (unat v mod unat b)] in
     if unat b \<le> unat v \<and> Suc (length buf) < 32 then digits_loop (v div b) b flags buf' else buf')"
proof -
  have "unat (v mod b) < 16" using mod_less_divisor [OF assms(1), of "unat v"] assms(2) by (simp add: unat_mod)
  then have d: "(let digit = ucast (v mod b) :: u8 in
      if digit < 10 then 48 + digit else (if has flags FLAGS_UPPERCASE then 0x41 else 0x61) + digit - 10) =
      digit_char (unat v mod unat b)"
    using digit_byte [OF _ assms(3), of v b] by (simp add: word_less_nat_alt unat_mod)
  have z: "v div b \<noteq> 0 \<longleftrightarrow> unat b \<le> unat v"
    using assms(1) by (metis unat_div unat_0 word_unat_eq_iff div_eq_0_iff not_less less_numeral_extra(3))
  show ?thesis by (subst digits_loop.simps) (use d in \<open>simp add: z PRINTF_NTOA_BUFFER_SIZE_def Let_def\<close>)
qed

lemma digits_numeric:
  assumes "2 \<le> unat b" "unat b \<le> 16" "\<not> has flags FLAGS_UPPERCASE"
  shows "unat v < unat b ^ Suc k \<Longrightarrow> length buf + Suc k \<le> 32 \<Longrightarrow>
    digits_loop v b flags buf = buf @ rev (numeric (unat b) (unat v))"
proof (induction k arbitrary: v buf)
  case 0
  then show ?case using assms by (simp add: digits_loop_step numeric.simps [of "unat b" "unat v"])
next
  case (Suc k)
  have "unat (v div b) < unat b ^ Suc k"
    using Suc.prems(1) assms(1) by (simp add: unat_div less_mult_imp_div_less mult.commute)
  then have "digits_loop (v div b) b flags (buf @ [digit_char (unat v mod unat b)]) =
      buf @ [digit_char (unat v mod unat b)] @ rev (numeric (unat b) (unat v div unat b))"
    using Suc.IH [of "v div b" "buf @ [digit_char (unat v mod unat b)]"] Suc.prems(2) by (simp add: unat_div)
  then show ?case using assms Suc.prems(2)
    by (simp add: digits_loop_step numeric.simps [of "unat b" "unat v"] Let_def)
qed

lemma numeric_length: "2 \<le> b \<Longrightarrow> n < b ^ Suc k \<Longrightarrow> length (numeric b n) \<le> Suc k"
proof (induction k arbitrary: n)
  case 0
  then show ?case by (simp add: numeric.simps [of b n])
next
  case (Suc k)
  have "n div b < b ^ Suc k" using Suc.prems by (simp add: less_mult_imp_div_less mult.commute)
  then show ?case using Suc by (subst numeric.simps) auto
qed

text \<open>The conversions without flags, width and precision send the number to the output function.\<close>

lemma out_rev_plain:
  "flags = 0 \<or> flags = FLAGS_LONG \<Longrightarrow> out_rev out buffer idx maxlen buf 0 flags m = out_all out (rev buf) buffer idx maxlen m"
  by (auto simp: out_rev_def Let_def pad_from.simps)

lemma ntoa_long_plain:
  assumes "flags = 0 \<or> flags = FLAGS_LONG" "2 \<le> unat base" "unat base \<le> 16" "unat v < unat base ^ Suc k" "k < 31"
  shows "ntoa_long out buffer idx maxlen v negative base 0 0 flags m =
    out_all out ((if negative then [0x2D] else []) @ numeric (unat base) (unat v)) buffer idx maxlen m"
proof -
  have nf: "ntoa_format out buffer idx maxlen buf negative b 0 0 flags m =
      out_all out (rev (ntoa_sign negative flags buf)) buffer idx maxlen m" for buf b
    using assms(1) by (auto simp: ntoa_format_def Let_def out_rev_plain zero_fill.simps)
  have f: "(if v = 0 then flags AND NOT FLAGS_HASH else flags) = flags" using assms(1) by auto
  have "length (numeric (unat base) (unat v)) \<le> Suc k" by (rule numeric_length [OF assms(2,4)])
  then have "rev (ntoa_sign negative flags (rev (numeric (unat base) (unat v)))) =
      (if negative then [0x2D] else []) @ numeric (unat base) (unat v)"
    using assms(1,5) by (auto simp: ntoa_sign_def PRINTF_NTOA_BUFFER_SIZE_def)
  then show ?thesis
    using digits_numeric [OF assms(2,3), of flags v k "[]"] assms(1,4,5) unfolding ntoa_long_def f Let_def nf by auto
qed

lemma u32_10: "unat (x :: u32) < 10 ^ Suc 9" and u64_10: "unat (y :: u64) < 10 ^ Suc 19" and u64_16: "unat (y :: u64) < 16 ^ Suc 15"
  using unsigned_less [of x, where ?'a = nat] unsigned_less [of y, where ?'a = nat] by (simp_all add: power_def)

lemma unat_u64_of_u32: "unat (ucast (w :: u32) :: u64) = unat w"
  using unsigned_less [of w, where ?'a = nat] by (simp add: unsigned_ucast_eq take_bit_nat_eq_self)

lemma conv_int_u:
  "conv_int out buffer idx maxlen 0x75 x 0 0 0 m = out_all out (numeric 10 (unat (ucast x :: u32))) buffer idx maxlen m"
  using ntoa_long_plain [of 0 10 "ucast (ucast x :: u32)" 9 out buffer idx maxlen False m] u32_10 [of "ucast x"]
  by (simp add: conv_int_def Let_def int_flags_def int_base_def unsigned_arg_def unat_u64_of_u32)

lemma conv_int_lu:
  "conv_int out buffer idx maxlen 0x75 x 0 0 FLAGS_LONG m = out_all out (numeric 10 (unat x)) buffer idx maxlen m"
  using ntoa_long_plain [of FLAGS_LONG 10 x 19 out buffer idx maxlen False m] u64_10 [of x]
  by (simp add: conv_int_def Let_def int_flags_def int_base_def)

lemma conv_int_lx:
  "conv_int out buffer idx maxlen 0x78 x 0 0 FLAGS_LONG m = out_all out (numeric 16 (unat x)) buffer idx maxlen m"
  using ntoa_long_plain [of FLAGS_LONG 16 x 15 out buffer idx maxlen False m] u64_16 [of x]
  by (simp add: conv_int_def Let_def int_flags_def int_base_def)

text \<open>The text of a signed number.\<close>

definition signed_text :: "int \<Rightarrow> u8 list" where
  "signed_text v = (if v < 0 then [0x2D] else []) @ numeric 10 (nat \<bar>v\<bar>)"

lemma unat_abs: "unat (if 0 <s w then w else 0 - w) = nat \<bar>sint w\<bar>" for w :: u32
proof -
  have lt: "uint w < 2 ^ 32" and u: "int (unat w) = uint w" using uint_lt2p [of w] by simp_all
  have s: "sint w = (uint w + 2 ^ 31) mod 2 ^ 32 - 2 ^ 31"
    by (simp add: sint_uint signed_take_bit_eq_take_bit_shift take_bit_eq_mod)
  have n: "uint (0 - w) = (- uint w) mod 2 ^ 32" by (simp add: uint_word_ariths)
  show ?thesis
  proof (cases "uint w < 2 ^ 31")
    case True
    then have "sint w = uint w" using s uint_ge_0 [of w] by (simp add: mod_pos_pos_trivial)
    then show ?thesis by (cases "w = 0") (simp_all add: word_sless_alt uint_0_iff less_le)
  next
    case False
    have e: "uint w + 2 ^ 31 = (uint w - 2 ^ 31) + 2 ^ 32" by simp
    have "(uint w + 2 ^ 31) mod 2 ^ 32 = uint w - 2 ^ 31"
      unfolding e mod_add_self2 using False lt by (intro mod_pos_pos_trivial) simp_all
    moreover have "(- uint w) mod 2 ^ 32 = 2 ^ 32 - uint w"
      using False lt by (simp add: zmod_zminus1_eq_if mod_pos_pos_trivial)
    ultimately have "sint w = uint w - 2 ^ 32" "uint (0 - w) = 2 ^ 32 - uint w" using s n by simp_all
    then show ?thesis using lt by (simp add: word_sless_alt unat_eq_nat_uint)
  qed
qed

lemma conv_int_d:
  "conv_int out buffer idx maxlen 0x64 x 0 0 0 m = out_all out (signed_text (sint (ucast x :: u32))) buffer idx maxlen m"
proof -
  let ?w = "ucast x :: u32"
  let ?v = "if 0 <s ?w then ?w else 0 - ?w"
  have "unat (ucast ?v :: u64) = nat \<bar>sint ?w\<bar>" "unat (ucast ?v :: u64) < 10 ^ Suc 9"
    using u32_10 [of ?v] unat_abs [of ?w] by (simp_all add: unat_u64_of_u32)
  then show ?thesis
    using ntoa_long_plain [of 0 10 "ucast ?v" 9 out buffer idx maxlen "?w <s 0" m]
    by (simp add: conv_int_def Let_def int_flags_def int_base_def signed_arg_def signed_text_def word_sless_alt)
qed

subsection \<open>Formats as sequences of pieces\<close>

text \<open>
  \<open>Lit c\<close> is the byte itself, \<open>Percent\<close> is \<^verbatim>\<open>%%\<close>, then \<^verbatim>\<open>%u\<close>, \<^verbatim>\<open>%lu\<close>, \<^verbatim>\<open>%lx\<close>, \<^verbatim>\<open>%d\<close>, \<^verbatim>\<open>%c\<close> and \<^verbatim>\<open>%s\<close> with the
  argument; a string argument is the address and the bytes found there.
\<close>

datatype piece = Lit u8 | Percent | Unsigned u64 | LongUnsigned u64 | LongHex u64 | Signed u64 | Chr u64 | Str u64 "u8 list"

fun fmt_of :: "piece \<Rightarrow> u8 list" where
  "fmt_of (Lit c) = [c]"
| "fmt_of Percent = [0x25, 0x25]"
| "fmt_of (Unsigned x) = [0x25, 0x75]"
| "fmt_of (LongUnsigned x) = [0x25, 0x6C, 0x75]"
| "fmt_of (LongHex x) = [0x25, 0x6C, 0x78]"
| "fmt_of (Signed x) = [0x25, 0x64]"
| "fmt_of (Chr x) = [0x25, 0x63]"
| "fmt_of (Str p t) = [0x25, 0x73]"

fun args_of :: "piece \<Rightarrow> u64 list" where
  "args_of (Lit c) = []"
| "args_of Percent = []"
| "args_of (Unsigned x) = [x]"
| "args_of (LongUnsigned x) = [x]"
| "args_of (LongHex x) = [x]"
| "args_of (Signed x) = [x]"
| "args_of (Chr x) = [x]"
| "args_of (Str p t) = [p]"

fun text_of :: "piece \<Rightarrow> u8 list" where
  "text_of (Lit c) = [c]"
| "text_of Percent = [0x25]"
| "text_of (Unsigned x) = numeric 10 (unat (ucast x :: u32))"
| "text_of (LongUnsigned x) = numeric 10 (unat x)"
| "text_of (LongHex x) = numeric 16 (unat x)"
| "text_of (Signed x) = signed_text (sint (ucast x :: u32))"
| "text_of (Chr x) = [ucast x]"
| "text_of (Str p t) = t"

definition fmt :: "piece list \<Rightarrow> u8 list" where "fmt ps = concat (map fmt_of ps)"
definition args :: "piece list \<Rightarrow> u64 list" where "args ps = concat (map args_of ps)"
definition rendered :: "piece list \<Rightarrow> u8 list" where "rendered ps = concat (map text_of ps)"

text \<open>A literal is no percent sign, and a string argument is a string in memory outside the \<open>n\<close> bytes of the buffer.\<close>

fun piece_ok :: "memory \<Rightarrow> u64 \<Rightarrow> nat \<Rightarrow> piece \<Rightarrow> bool" where
  "piece_ok m buffer n (Lit c) \<longleftrightarrow> c \<noteq> 0x25"
| "piece_ok m buffer n (Str p t) \<longleftrightarrow> cstr m p t \<and> disjoint_from buffer n p (length t)"
| "piece_ok m buffer n _ \<longleftrightarrow> True"

lemma cstr_Cons: "cstr m p (c # s) \<longleftrightarrow> m p = c \<and> c \<noteq> 0 \<and> cstr m (p + 1) s"
  unfolding cstr_def by (auto simp: All_less_Suc2 algebra_simps)

lemma cstr_Nil: "cstr m p [] \<longleftrightarrow> m p = 0"
  by (simp add: cstr_def)

lemma plain_fields:
  assumes "m f \<notin> {0x30, 0x2D, 0x2B, 0x20, 0x23, 0x2A, 0x2E}" "\<not> is_digit (m f)"
  shows "conversion out buffer maxlen f va idx m = do {
     let (flags, f) = length_field m f 0;
     (idx, va, m) \<leftarrow> specifier out buffer idx maxlen (m f) 0 0 flags va m;
     Some (f + 1, va, idx, m) }"
  using assms by (auto simp: conversion_def flags_loop.simps [of m f] width_field_def precision_field_def)

lemma conversion_plain:
  assumes "cstr m f (fmt_of p @ rest)" "m f = 0x25" "piece_ok m buffer n p" "\<And>q t. p \<noteq> Str q t"
  shows "conversion out buffer maxlen (f + 1) (args_of p @ va) idx m =
    (let (idx, m) = out_all out (text_of p) buffer idx maxlen m in Some (f + word_of_nat (length (fmt_of p)), va, idx, m))"
  using assms
  by (cases p) (auto simp: cstr_Cons plain_fields is_digit_def length_field_def specifier_def va_next_def
      conv_int_u conv_int_lu conv_int_lx conv_int_d conv_char_def pad_from.simps case_prod_unfold Let_def)

subsection \<open>The text in the buffer\<close>

text \<open>Memory when the text \<open>t\<close> has been sent to a buffer of \<open>maxlen\<close> bytes.\<close>

definition printed :: "u64 \<Rightarrow> u64 \<Rightarrow> u8 list \<Rightarrow> memory \<Rightarrow> memory" where
  "printed buffer maxlen t m = put buffer (take (unat maxlen) t) m"

lemma printed_out:
  assumes "length t < 2 ^ 64"
  shows "out_buffer c buffer (word_of_nat (length t)) maxlen (printed buffer maxlen t m) = printed buffer maxlen (t @ [c]) m"
  using assms put_snoc [of t buffer m c]
  by (simp add: out_buffer_def printed_def word_less_nat_alt unat_u64_of_nat not_less)

lemma printed_out_all:
  "length (t @ xs) < 2 ^ 64 \<Longrightarrow> out_all out_buffer xs buffer (word_of_nat (length t)) maxlen (printed buffer maxlen t m) =
     (word_of_nat (length (t @ xs)), printed buffer maxlen (t @ xs) m)"
proof (induction xs arbitrary: t)
  case (Cons c xs)
  then show ?case using Cons.IH [of "t @ [c]"] by (simp add: printed_out add.commute)
qed simp

lemma printed_cstr: "cstr m q s \<Longrightarrow> disjoint_from buffer (unat maxlen) q (length s) \<Longrightarrow> cstr (printed buffer maxlen t m) q s"
  unfolding printed_def by (rule put_cstr) (auto simp: disjoint_from_def intro: order.trans)

lemma disjoint_from_add: "disjoint_from p n q (i + k) \<Longrightarrow> disjoint_from p n (q + word_of_nat i) k"
  unfolding disjoint_from_def by (metis add.assoc add_left_mono of_nat_add)

lemma str_loop_text:
  assumes "cstr m q s" "disjoint_from buffer (unat maxlen) q (length s)" "length (t @ s) < 2 ^ 64"
  shows "str_loop out_buffer buffer maxlen q 0 0 (word_of_nat (length t)) (printed buffer maxlen t m) =
    Some (word_of_nat (length (t @ s)), printed buffer maxlen (t @ s) m)"
  using assms
proof (induction s arbitrary: q t)
  case Nil
  then show ?case using printed_cstr [OF Nil.prems(1,2), of t] by (subst str_loop.simps) (simp add: cstr_Nil)
next
  case (Cons c s)
  have "printed buffer maxlen t m q = c" "c \<noteq> 0" using printed_cstr [OF Cons.prems(1,2), of t] by (auto simp: cstr_Cons)
  then show ?case
    using Cons.IH [of "q + 1" "t @ [c]"] Cons.prems disjoint_from_add [of buffer "unat maxlen" q 1 "length s"]
    by (subst str_loop.simps) (simp add: cstr_Cons printed_out add.commute)
qed

lemma conversion_piece:
  assumes "cstr m f (fmt_of p @ rest)" "disjoint_from buffer (unat maxlen) f (length (fmt_of p @ rest))"
    "m f = 0x25" "piece_ok m buffer (unat maxlen) p" "length (t @ text_of p) < 2 ^ 64"
  shows "conversion out_buffer buffer maxlen (f + 1) (args_of p @ va) (word_of_nat (length t)) (printed buffer maxlen t m) =
    Some (f + word_of_nat (length (fmt_of p)), va, word_of_nat (length (t @ text_of p)), printed buffer maxlen (t @ text_of p) m)"
proof -
  note c = printed_cstr [OF assms(1,2), of t]
  show ?thesis
  proof (cases "\<exists>q s. p = Str q s")
    case True
    then obtain q s where p: "p = Str q s" by blast
    then have "str_loop out_buffer buffer maxlen q 0 0 (word_of_nat (length t)) (printed buffer maxlen t m) =
        Some (word_of_nat (length (t @ s)), printed buffer maxlen (t @ s) m)"
      using assms(4,5) by (intro str_loop_text) simp_all
    then show ?thesis using c p
      by (auto simp: cstr_Cons plain_fields is_digit_def length_field_def specifier_def va_next_def conv_str_def
          pad_from.simps Let_def)
  next
    case False
    have "printed buffer maxlen t m f = 0x25" using c assms(1,3) by (cases "fmt_of p @ rest") (auto simp: cstr_Cons cstr_Nil)
    then show ?thesis
      using conversion_plain [OF c, of buffer "unat maxlen" out_buffer maxlen va "word_of_nat (length t)"] False assms(4)
        printed_out_all [OF assms(5), of buffer maxlen m]
      by (cases p) auto
  qed
qed

lemma pieces_Cons [simp]:
  "fmt (p # ps) = fmt_of p @ fmt ps" "args (p # ps) = args_of p @ args ps" "rendered (p # ps) = text_of p @ rendered ps"
  and pieces_Nil [simp]: "fmt [] = []" "args [] = []" "rendered [] = []"
  by (simp_all add: fmt_def args_def rendered_def)

lemma cstr_append: "cstr m p (xs @ ys) \<Longrightarrow> cstr m (p + word_of_nat (length xs)) ys"
proof (induction xs arbitrary: p)
  case (Cons x xs)
  then show ?case using Cons.IH [of "p + 1"] by (simp add: cstr_Cons add.assoc)
qed simp

lemma loop_text:
  assumes "cstr m f (fmt ps)" "disjoint_from buffer (unat maxlen) f (length (fmt ps))"
    "list_all (piece_ok m buffer (unat maxlen)) ps" "length (t @ rendered ps) < 2 ^ 64"
  shows "vsnprintf_loop out_buffer buffer maxlen f (args ps) (word_of_nat (length t)) (printed buffer maxlen t m) =
    Some (word_of_nat (length (t @ rendered ps)), printed buffer maxlen (t @ rendered ps) m)"
  using assms
proof (induction ps arbitrary: f t)
  case Nil
  then show ?case using printed_cstr [OF Nil.prems(1,2), of t] by (subst vsnprintf_loop.simps) (simp add: cstr_Nil)
next
  case (Cons p ps)
  let ?f = "f + word_of_nat (length (fmt_of p))"
  have IH: "vsnprintf_loop out_buffer buffer maxlen ?f (args ps) (word_of_nat (length (t @ text_of p))) (printed buffer maxlen (t @ text_of p) m) =
      Some (word_of_nat (length (t @ rendered (p # ps))), printed buffer maxlen (t @ rendered (p # ps)) m)"
    using Cons.IH [of ?f "t @ text_of p"] Cons.prems cstr_append [of m f "fmt_of p" "fmt ps"]
      disjoint_from_add [of buffer "unat maxlen" f "length (fmt_of p)" "length (fmt ps)"] by simp
  have pf: "cstr m f (fmt_of p @ fmt ps)" using Cons.prems(1) by simp
  have mf: "m f \<noteq> 0" "printed buffer maxlen t m f = m f"
    using pf printed_cstr [OF Cons.prems(1,2), of t] by (cases p; auto simp: cstr_Cons)+
  show ?case
  proof (cases "m f = 0x25")
    case True
    then have "conversion out_buffer buffer maxlen (f + 1) (args_of p @ args ps) (word_of_nat (length t)) (printed buffer maxlen t m) =
        Some (?f, args ps, word_of_nat (length (t @ text_of p)), printed buffer maxlen (t @ text_of p) m)"
      using Cons.prems by (intro conversion_piece [OF pf]) simp_all
    then show ?thesis using IH mf True by (subst vsnprintf_loop.simps) simp
  next
    case False
    then obtain c where c: "p = Lit c" "m f = c" using pf by (cases p) (auto simp: cstr_Cons)
    then show ?thesis using IH mf False Cons.prems(4) by (subst vsnprintf_loop.simps) (simp add: printed_out add.commute)
  qed
qed

lemma put_last:
  assumes "0 < count" "length t < 2 ^ 64 - 1"
  shows "out_buffer 0 buffer (if word_of_nat (length t) < count then word_of_nat (length t) else count - 1) count (printed buffer count t m) =
    put buffer (take (unat count - 1) t @ [0]) m"
proof (cases "length t < unat count")
  case True
  then show ?thesis using assms(2) put_snoc [of t buffer m 0]
    by (simp add: out_buffer_def printed_def word_less_nat_alt unat_u64_of_nat)
next
  case False
  have c: "0 < unat count" "unat (count - 1) = unat count - 1"
    using assms(1) by (simp add: word_less_nat_alt, intro unat_minus_one) auto
  have "word_of_nat (unat (count - 1)) = count - 1" by simp
  then have w: "word_of_nat (unat count - 1) = count - 1" using c(2) by simp
  have "(put buffer (take (unat count) t) m)(buffer + word_of_nat (unat count - 1) := 0) = put buffer (take (unat count - 1) t @ [0]) m"
    using safe_tail(2) [of "unat count" "unat count" t buffer m] c(1) False assms(2) by simp
  then show ?thesis using False c assms(2)
    by (simp add: out_buffer_def printed_def word_less_nat_alt unat_u64_of_nat w)
qed

lemma ucast_word_of_nat: "(ucast (word_of_nat n :: u64) :: u32) = word_of_nat n"
  by (simp add: word_unat_eq_iff unsigned_ucast_eq unsigned_of_nat)

lemma vsnprintf_text:
  assumes "buffer \<noteq> 0" "0 < count" "cstr m format (fmt ps)" "disjoint_from buffer (unat count) format (length (fmt ps))"
    "list_all (piece_ok m buffer (unat count)) ps" "length (rendered ps) < 2 ^ 64 - 1"
  shows "vsnprintf buffer count format (args ps) m =
    Some (word_of_nat (length (rendered ps)), put buffer (take (unat count - 1) (rendered ps) @ [0]) m)"
  using loop_text [OF assms(3-5), of "[]"] assms(1,6) put_last [OF assms(2,6), of buffer m]
  by (simp add: vsnprintf_def int_vsnprintf_def printed_def ucast_word_of_nat)

subsection \<open>Properties\<close>

text \<open>
  C30: \<^verbatim>\<open>vsnprintf\<close> on a format of literal bytes, \<^verbatim>\<open>%%\<close>, \<^verbatim>\<open>%u\<close>, \<^verbatim>\<open>%lu\<close>, \<^verbatim>\<open>%lx\<close>, \<^verbatim>\<open>%d\<close>, \<^verbatim>\<open>%c\<close> and \<^verbatim>\<open>%s\<close>, with the
  format and the string arguments outside the buffer, returns the length of the whole text and leaves in the buffer the
  first \<open>count - 1\<close> bytes of it and a zero byte; no other byte changes.
\<close>

theorem vsnprintf_prints:
  assumes "buffer \<noteq> 0" "0 < count" "cstr m format (fmt ps)" "disjoint_from buffer (unat count) format (length (fmt ps))"
    "list_all (piece_ok m buffer (unat count)) ps" "length (rendered ps) < 2 ^ 64 - 1"
  shows "vsnprintf buffer count format (args ps) m =
    Some (word_of_nat (length (rendered ps)), put buffer (take (unat count - 1) (rendered ps) @ [0]) m)"
  by (rule vsnprintf_text [OF assms])

lemma disjoint_below:
  assumes "unat q + k < unat p" "unat p + n \<le> 2 ^ 64"
  shows "disjoint_from p n q k"
  unfolding disjoint_from_def
proof (intro allI impI)
  fix j assume j: "j \<le> k"
  have "unat p < 2 ^ LENGTH(64)" by (rule unsigned_less)
  then have p: "unat p < 2 ^ 64" by simp
  have q: "unat (q + word_of_nat j) = unat q + j"
    using j assms(1) p by (simp add: unat_word_ariths unat_u64_of_nat)
  show "n \<le> unat (q + word_of_nat j - p)"
    using q j assms by (simp add: unat_sub_if' word_le_nat_alt)
qed

text \<open>A memory with the format \<^verbatim>\<open>n=%u %s\<close> and the string \<^verbatim>\<open>ok\<close>.\<close>

definition sample_pieces :: "piece list" where
  "sample_pieces = [Lit 0x6E, Lit 0x3D, Unsigned 42, Lit 0x20, Str 0x2000 [0x6F, 0x6B]]"

definition sample_memory :: memory where
  "sample_memory = put 0x2000 [0x6F, 0x6B, 0] (put 0x1000 [0x6E, 0x3D, 0x25, 0x75, 0x20, 0x25, 0x73, 0] (\<lambda>a. 0xFF))"

lemma sample_text: "fmt sample_pieces = [0x6E, 0x3D, 0x25, 0x75, 0x20, 0x25, 0x73]" "args sample_pieces = [42, 0x2000]"
  "rendered sample_pieces = [0x6E, 0x3D, 0x34, 0x32, 0x20, 0x6F, 0x6B]"
  by (simp_all add: sample_pieces_def numeric.simps digit_char_def)

lemma sample_strings:
  "cstr sample_memory 0x1000 [0x6E, 0x3D, 0x25, 0x75, 0x20, 0x25, 0x73]" "cstr sample_memory 0x2000 [0x6F, 0x6B]"
  by (simp_all add: sample_memory_def cstr_Cons cstr_Nil put_def)

lemma sample_ok:
  assumes "n \<le> 512"
  shows "disjoint_from 0x10000 n 0x1000 (length (fmt sample_pieces))" "list_all (piece_ok sample_memory 0x10000 n) sample_pieces"
  using assms sample_strings by (simp_all add: sample_text disjoint_below) (simp add: sample_pieces_def disjoint_below)

theorem vsnprintf_prints_witness:
  "vsnprintf 0x10000 6 0x1000 [42, 0x2000] sample_memory = Some (7, put 0x10000 [0x6E, 0x3D, 0x34, 0x32, 0x20, 0] sample_memory)"
  using vsnprintf_prints [of "0x10000" 6 sample_memory "0x1000" sample_pieces] sample_strings(1) sample_ok [of 6]
  by (simp add: sample_text)

lemma digit_char_dec:
  assumes "d < 10"
  shows "is_digit (digit_char d)" and "ucast (digit_char d) - 48 = (word_of_nat d :: u32)"
proof -
  have "digit_char d = word_of_nat (48 + d)" using assms by (simp add: digit_char_def)
  then have u: "unat (digit_char d) = 48 + d" using assms by (simp only: unsigned_of_nat) (simp add: take_bit_nat_eq_self)
  then show "is_digit (digit_char d)" using assms by (simp add: is_digit_def word_le_nat_alt)
  have "(ucast (digit_char d) :: u32) = word_of_nat (unat (digit_char d))" by simp
  then show "ucast (digit_char d) - 48 = (word_of_nat d :: u32)" unfolding u by simp
qed

lemma numeric_decimal:
  "(\<forall>c \<in> set (numeric 10 n). is_digit c) \<and> foldl (\<lambda>i c. i * 10 + (ucast c - 48)) 0 (numeric 10 n) = (word_of_nat n :: u32)"
proof (induction n rule: less_induct)
  case (less n)
  show ?case
  proof (cases "n < 10")
    case True
    then show ?thesis using digit_char_dec [of n] by (subst (1 2) numeric.simps) simp
  next
    case False
    then have IH: "\<forall>c \<in> set (numeric 10 (n div 10)). is_digit c"
      "foldl (\<lambda>i c. i * 10 + (ucast c - 48)) 0 (numeric 10 (n div 10)) = (word_of_nat (n div 10) :: u32)"
      using less [of "n div 10"] by simp_all
    have "(word_of_nat (n div 10) * 10 + word_of_nat (n mod 10) :: u32) = word_of_nat (n div 10 * 10 + n mod 10)"
      by (simp only: of_nat_add of_nat_mult of_nat_numeral)
    then show ?thesis using False IH digit_char_dec [of "n mod 10"] by (subst (1 2) numeric.simps) simp
  qed
qed

lemma atoi_loop_digits:
  "cstr m p ds \<Longrightarrow> \<forall>c \<in> set ds. is_digit c \<Longrightarrow>
     atoi_loop m p i = Some (foldl (\<lambda>i c. i * 10 + (ucast c - 48)) i ds, p + word_of_nat (length ds))"
proof (induction ds arbitrary: p i)
  case Nil
  then show ?case by (subst atoi_loop.simps) (simp add: cstr_Nil is_digit_def)
next
  case (Cons c ds)
  then show ?case using Cons.IH [of "p + 1"] by (subst atoi_loop.simps) (simp add: cstr_Cons add.assoc)
qed

lemma atoi_numeric: "cstr m p (numeric 10 n) \<Longrightarrow> atoi m p = Some (word_of_nat n, p + word_of_nat (length (numeric 10 n)))"
  using atoi_loop_digits [of m p "numeric 10 n" 0] numeric_decimal [of n] by (simp add: atoi_def)

lemma is_digit_nonzero: "\<forall>c \<in> set ds. is_digit c \<Longrightarrow> 0 \<notin> set ds"
  by (auto simp: is_digit_def)

text \<open>
  \<^verbatim>\<open>snprintf\<close> with the format \<^verbatim>\<open>%u\<close> into a buffer of more than ten bytes returns, and what it leaves in the
  buffer is read back by \<^verbatim>\<open>_atoi\<close> as the same 32-bit number, up to the position the returned length names.
\<close>

theorem snprintf_atoi_roundtrip:
  assumes "buffer \<noteq> 0" "10 < count" "cstr m format [0x25, 0x75]" "disjoint_from buffer (unat count) format 2"
  shows "\<exists>n m'. snprintf buffer count format [x] m = Some (n, m') \<and> atoi m' buffer = Some (ucast x, buffer + ucast n)"
proof -
  let ?ds = "numeric 10 (unat (ucast x :: u32))"
  have len: "length ?ds \<le> 10" using numeric_length [of 10 "unat (ucast x :: u32)" 9] u32_10 [of "ucast x"] by simp
  have c: "10 < unat count" "0 < count" using assms(2) by (auto simp: word_less_nat_alt)
  have "vsnprintf buffer count format (args [Unsigned x]) m =
      Some (word_of_nat (length ?ds), put buffer (take (unat count - 1) ?ds @ [0]) m)"
    using vsnprintf_text [of buffer count m format "[Unsigned x]"] assms(1,3) assms(4) [unfolded numeral_2_eq_2] c(2) len by simp
  then have sn: "snprintf buffer count format [x] m = Some (word_of_nat (length ?ds), put buffer (?ds @ [0]) m)"
    using len c by (simp add: vsnprintf_def snprintf_def)
  have "cstr (put buffer (?ds @ [0]) m) buffer ?ds"
    using len numeric_decimal is_digit_nonzero by (intro cstr_put) auto
  moreover have "(ucast (word_of_nat (length ?ds) :: u32) :: u64) = word_of_nat (length ?ds)"
    using len by (simp add: word_unat_eq_iff unsigned_ucast_eq unsigned_of_nat take_bit_nat_eq_self)
  ultimately show ?thesis using sn atoi_numeric [of "put buffer (?ds @ [0]) m" buffer "unat (ucast x :: u32)"] by simp
qed

theorem snprintf_atoi_roundtrip_witness:
  "\<exists>n m'. snprintf 0x10000 11 0x1000 [4294967295] (put 0x1000 [0x25, 0x75, 0] (\<lambda>a. 0xFF)) = Some (n, m') \<and>
     atoi m' 0x10000 = Some (4294967295, 0x10000 + ucast n)"
  using snprintf_atoi_roundtrip [of "0x10000" 11 "put 0x1000 [0x25, 0x75, 0] (\<lambda>a. 0xFF)" "0x1000" 4294967295]
  by (simp add: cstr_Cons cstr_Nil put_def disjoint_below)

text \<open>Console output.\<close>

lemma map_cstr: "cstr m p s \<Longrightarrow> map (\<lambda>i. m (p + word_of_nat i)) [0..<length s] = s"
  by (rule nth_equalityI) (auto simp: cstr_def)

lemma int_len: "n < 2 ^ 31 \<Longrightarrow> nat (sint (ucast (word_of_nat n :: u64) :: u32)) = n"
  by (simp add: sint_u32_ucast unat_u64_of_nat)

lemma puts_prints: "cstr m str s \<Longrightarrow> str \<noteq> 0 \<Longrightarrow> length s < 2 ^ 31 \<Longrightarrow> puts str m = Some (word_of_nat (length s) + 1, s @ [10])"
  by (simp add: puts_def strlen_cstr Let_def int_len map_cstr) (simp add: ucast_word_of_nat)

lemma printf_text:
  assumes "buffer \<noteq> 0" "cstr m format (fmt ps)" "disjoint_from buffer 512 format (length (fmt ps))"
    "list_all (piece_ok m buffer 512) ps" "length (rendered ps) < 512" "0 \<notin> set (rendered ps)"
  shows "printf buffer format (args ps) m = Some (word_of_nat (length (rendered ps)), rendered ps, put buffer (rendered ps @ [0]) m)"
proof -
  let ?m = "put buffer (rendered ps @ [0]) m"
  have v: "vsnprintf buffer 512 format (args ps) m = Some (word_of_nat (length (rendered ps)), ?m)"
    using vsnprintf_text [of buffer 512 m format ps] assms by simp
  have c: "cstr ?m buffer (rendered ps)" using assms(5,6) by (intro cstr_put) auto
  then show ?thesis using v strlen_cstr [OF c assms(1)] map_cstr [OF c] assms(5) by (simp add: printf_def int_len)
qed

text \<open>
  C31: \<^verbatim>\<open>printf\<close> of a text of fewer than 256 bytes, none of them zero, gives \<^verbatim>\<open>putchar\<close> exactly the bytes of the text, in
  order, returns its length and changes nothing outside its array of 256 bytes.
\<close>

theorem printf_prints:
  assumes "buffer \<noteq> 0" "cstr m format (fmt ps)" "disjoint_from buffer 512 format (length (fmt ps))"
    "list_all (piece_ok m buffer 512) ps" "length (rendered ps) < 256" "0 \<notin> set (rendered ps)"
  shows "\<exists>m'. printf buffer format (args ps) m = Some (word_of_nat (length (rendered ps)), rendered ps, m') \<and> same_outside buffer 256 m m'"
proof -
  have "same_outside buffer 256 m (put buffer (rendered ps @ [0]) m)"
    using assms(5) by (auto simp: same_outside_def put_def word_le_nat_alt)
  then show ?thesis using printf_text [OF assms(1-4)] assms(5,6) by simp
qed

theorem printf_prints_witness:
  "\<exists>m'. printf 0x10000 0x1000 [42, 0x2000] sample_memory = Some (7, [0x6E, 0x3D, 0x34, 0x32, 0x20, 0x6F, 0x6B], m') \<and>
     same_outside 0x10000 256 sample_memory m'"
  using printf_prints [of "0x10000" sample_memory "0x1000" sample_pieces] sample_strings(1) sample_ok [of 512]
  by (simp add: sample_text)

text \<open>
  The array of \<^verbatim>\<open>printf\<close> has 256 bytes, and \<^verbatim>\<open>vsnprintf\<close> is told 512: a longer text is written past the end of the array.
\<close>

lemma literal_pieces: "fmt (map Lit s) = s" "rendered (map Lit s) = s" "args (map Lit s) = []"
  by (induction s) simp_all

theorem printf_writes_behind_its_array:
  assumes "buffer \<noteq> 0" "cstr m format s" "disjoint_from buffer 512 format (length s)"
    "0x25 \<notin> set s" "256 < length s" "length s < 512"
  shows "\<exists>m'. printf buffer format [] m = Some (word_of_nat (length s), s, m') \<and> m' (buffer + 256) = s ! 256"
proof -
  have "list_all (piece_ok m buffer 512) (map Lit s)" using assms(4) by (auto simp: list_all_iff)
  then have "printf buffer format [] m = Some (word_of_nat (length s), s, put buffer (s @ [0]) m)"
    using printf_text [of buffer m format "map Lit s"] assms by (simp add: literal_pieces cstr_def)
  moreover have "put buffer (s @ [0]) m (buffer + 256) = s ! 256" using assms(5) by (simp add: put_def nth_append)
  ultimately show ?thesis by simp
qed

end
