(* ===== verification/Spec2Isabelle.thy ===== *)
theory Spec2Isabelle
  imports PgfmModule PoolLists KmemContract AvlContract KString Sync Memblock KernelMapProps VmInit Sv39Props VmaProps RbContract VsnprintfText
begin

text \<open>
  \<^bold>\<open>A verification library for ACO-OS\<close>, a small RISC-V kernel written in C.

  \<^bold>\<open>The program.\<close> At boot the RISC-V port reads the device tree into the kernel memory map
  (\<^verbatim>\<open>arch/riscv/mm/kernel_map.c\<close>), builds a first page table while paging is off (\<^verbatim>\<open>arch/riscv/mm/early_vm.c\<close>), and
  runs the module initialisers in the order of their priorities. The page frame module gives every physical page a
  descriptor (\<^verbatim>\<open>module/mm/pageframe\<close>), the buddy allocator hands out blocks of \<open>2 ^ order\<close> pages (\<^verbatim>\<open>module/mm/buddy\<close>),
  the object caches cut such blocks into objects (\<^verbatim>\<open>module/mm/kmem_cache\<close>), and the virtual memory manager
  (\<^verbatim>\<open>module/mm/vm\<close>) keeps address spaces: areas on an AVL tree and on a list, whose descriptors come from two object
  caches and whose translations lie in three-level SV39 page tables (\<^verbatim>\<open>arch/riscv/mm/vm.c\<close>), themselves blocks of the
  buddy allocator. All of them use the intrusive lists of \<^verbatim>\<open>include/aco/list.h\<close>, the AVL trees of
  \<^verbatim>\<open>lib/dstructer/avlmini.c\<close>, the string functions of \<^verbatim>\<open>lib/string/string.c\<close>, the formatter of \<^verbatim>\<open>lib/string/vsnprintf.c\<close> and the spin and reader-writer locks of
  \<^verbatim>\<open>include/aco\<close>. A separate allocator of blocks of one size is in \<^verbatim>\<open>module/mm/allocators/memblock.c\<close>, and red-black trees
  for future use are in \<^verbatim>\<open>lib/dstructer/rbtree.c\<close>.

  \<^bold>\<open>How the model is built.\<close> Machine integers are words of their width; addresses are 64-bit words. A function that
  changes memory takes the state and returns it; a function that can fail an assertion, fault on a null pointer, take a
  lock that its own hart holds, or loop for ever returns an \<open>option\<close>, and \<open>None\<close> is that it does not return. So every
  theorem whose conclusion is \<open>\<dots> = Some \<dots>\<close> also says that the code returns. Error numbers are the negative integers
  of \<^verbatim>\<open>include/aco/errno.h\<close>. States grow by record extension in the order of the layers: \<open>machine\<close> (bytes and held
  locks), the page descriptors and pools of the page layer, the slabs and caches, and the address spaces; an operation of
  a lower layer is polymorphic in what the upper layers add, which it therefore cannot touch.

  \<^bold>\<open>The theories\<close>, from the bottom up.

  \<^item> \<open>Prelude\<close>: integer types, error numbers, shared lemmas on words, lists and options, the named collections.
  \<^item> \<open>Machine\<close>: byte memory with \<^verbatim>\<open>memset\<close>, and the spin locks as one hart sees them. Taking a held lock does not return.
  \<^item> \<open>PageFrame\<close> (\<^verbatim>\<open>include/mm/page.h\<close>, \<^verbatim>\<open>pageframe.h\<close>): alignment macros, conversions between page numbers, physical
    and virtual addresses. \<open>wf_cfg\<close> says that the managed range is page-aligned and does not wrap.
  \<^item> \<open>Buddy\<close>: the operations of \<^verbatim>\<open>buddy_allocator.c\<close>. \<open>BuddyInv\<close>: the invariant (the blocks tile the pages, the free
    blocks are the ones on the pool lists, no two free buddies of one order). \<open>BuddyFree\<close>, \<open>BuddyAlloc\<close>: its
    preservation. \<open>BuddyContract\<close>: the locale \<open>page_allocator\<close>, its interpretation \<open>buddy\<close>, and the properties.
  \<^item> \<open>PgfmModule\<close>: \<^verbatim>\<open>pgfm_module_init\<close>, \<^verbatim>\<open>buddy_module_init\<close> and the self-checks; start-up establishes the invariant.
  \<^item> \<open>ListHead\<close>: the lists of \<^verbatim>\<open>list.h\<close> on a heap of nodes, with the locale \<open>list_ops\<close>. \<open>PoolLists\<close>: the pool lists of
    the buddy allocator, values in \<open>Buddy\<close>, are implemented by these.
  \<^item> \<open>KMath\<close>, \<open>Slab\<close>, \<open>KmemCache\<close>: the hashes, slabs and object caches of \<^verbatim>\<open>slab.c\<close>. \<open>KmemInv\<close>, \<open>KmemFree\<close>,
    \<open>KmemGrow\<close>, \<open>KmemOps\<close>: their invariant and its preservation. \<open>KmemContract\<close>: the locale \<open>object_cache\<close>, its
    interpretation \<open>kc\<close>, and the properties. These theories use the allocator only through \<open>BuddyContract\<close>.
  \<^item> \<open>Avl\<close>: every function of \<^verbatim>\<open>avlmini.c\<close> on pointers with parent links and stored heights. \<open>AvlTree\<close>: AVL trees as
    values. \<open>AvlRefine\<close>, \<open>AvlOps\<close>: the pointer code implements them, by a heap predicate with a one-hole context.
    \<open>AvlContract\<close>: the locale \<open>search_tree\<close> and its interpretation \<open>avl\<close>.
  \<^item> \<open>RbTree\<close>: every function of \<^verbatim>\<open>rbtree.c\<close> on pointers, parent and colour in one word. \<open>RbAbs\<close>: rotations and pointer
    updates are those of \<open>Avl\<close> under an abstraction of the heap, so its heap lemmas apply. \<open>RbInsert\<close>, \<open>RbErase\<close>, \<open>RbUnlink\<close>:
    the red-black rules are restored. \<open>RbContract\<close>: the sequence of a tree, the locale \<open>node_walk\<close> with interpretations \<open>rbw\<close>
    and \<open>avlw\<close>, and the properties.
  \<^item> \<open>KString\<close>: \<^verbatim>\<open>string.c\<close> on byte memory. Loops that only a zero byte ends are \<open>partial_function (option)\<close>.
  \<^item> \<open>Vsnprintf\<close>: \<^verbatim>\<open>vsnprintf.c\<close> without floating point, and \<^verbatim>\<open>kernel/printf.c\<close>. \<open>VsnprintfProps\<close>: a relation that one output
    call keeps is kept by every run (locale \<open>out_rel\<close>, interpretations \<open>bufout\<close> and \<open>nullout\<close>), so writes stay inside the
    buffer. \<open>VsnprintfText\<close>: the text that the plain conversions print, against a reference printer.
  \<^item> \<open>Sync\<close>: several harts interleave the atomic operations of \<^verbatim>\<open>atomic.h\<close>, \<^verbatim>\<open>spinlock.h\<close>, \<^verbatim>\<open>rwlock.h\<close> and
    \<^verbatim>\<open>cpu_critical.c\<close> as an inductive step relation; mutual exclusion is an invariant of the reachable states, and
    from each of them all harts can leave.
  \<^item> \<open>Memblock\<close>: \<^verbatim>\<open>memblock.c\<close> on the node heap of \<open>ListHead\<close>, as a queue (locale \<open>resource_queue\<close>, interpretation \<open>mb\<close>).
  \<^item> \<open>Sv39\<close>: the macros of \<^verbatim>\<open>asm/vm.h\<close> and the functions of \<^verbatim>\<open>arch/riscv/mm/vm.c\<close>, whose entries are eight bytes of
    memory. \<open>Sv39Mem\<close>, \<open>Sv39Tree\<close>: tables as trees and the mapping they stand for. \<open>Sv39Walk\<close>, \<open>Sv39Map\<close>, \<open>Sv39Loop\<close>:
    mapping; \<open>Sv39Unmap\<close>, \<open>Sv39UnmapLoop\<close>, \<open>Sv39Free\<close>: unmapping. \<open>Sv39Contract\<close>: the locale \<open>page_mapper\<close> and its
    interpretation \<open>sv\<close>. \<open>Sv39Props\<close>: the properties with a concrete address space.
  \<^item> \<open>KernelMap\<close>, \<open>EarlyVm\<close>, \<open>KernelMapProps\<close>: the kernel memory map, read through a device tree library that is an
    argument of the model, and the first page table.
  \<^item> \<open>VmaArea\<close>, \<open>Vm\<close>, \<open>VmInit\<close>: \<^verbatim>\<open>vma_area_ops.c\<close>, \<^verbatim>\<open>vm.c\<close>, \<^verbatim>\<open>vm_init.c\<close> on the joint state. \<open>VmaOps\<close>, \<open>VmaProps\<close>: the
    areas of an address space (locale \<open>area_index\<close>, interpretation \<open>va\<close>), and \<^verbatim>\<open>vm_check\<close>.

  \<^bold>\<open>Fuel and bounds.\<close> The recursions over pages, orders, page-table levels and list elements are structural or carry a
  measure, so they are total. Functions that climb or descend pointers are \<open>partial_function (option)\<close>; that they
  return is proved from the representation predicate. \<open>riscv_unmap\<close> and \<open>vm_walkthrough\<close> recurse on the level, at most
  2, and on the entries left in a table, at most 512.

  \<^bold>\<open>Not modelled.\<close> The device tree compiler and library (\<^verbatim>\<open>scripts/dtc\<close>, \<^verbatim>\<open>lib/fdt\<close>) are third-party code. Assembly, linker
  scripts, CSR and SBI access are outside C. The floating-point conversions of \<^verbatim>\<open>vsnprintf.c\<close> need the arithmetic of doubles; no
  caller in the kernel uses them. Logging (\<^verbatim>\<open>module/log\<close>) has no effect on the modelled state, and so log calls are left out of the
  operations. The tests of \<^verbatim>\<open>module/rttest\<close> and \<^verbatim>\<open>testsuits\<close> only call the rest.
\<close>

end
